(* ===== verification/Prelude.thy ===== *)
theory Prelude
  imports Main "HOL-Library.Word" "HOL-Library.Multiset"
begin

text \<open>
  Shared vocabulary of the development: the machine-integer types of the C++ sources as
  \<^typ>\<open>'a word\<close>, the collections of rewrite rules the component theories add to, lists looked
  up by a key (\<open>find_key\<close>), and the interface \<open>price_order\<close> of a strict total order on prices,
  under which both sides of a book are handled once: bids and asks differ only in the order.
\<close>

section \<open>Machine integers\<close>

type_synonym u8 = "8 word"
type_synonym u16 = "16 word"
type_synonym u32 = "32 word"
type_synonym u64 = "64 word"
type_synonym u128 = "128 word"

text \<open>A signed 64-bit value is the same word read by \<^const>\<open>sint\<close>.\<close>

type_synonym i64 = "64 word"

named_theorems model_simps \<open>unfolding of the state accessors and small helpers of the model\<close>
named_theorems inv_intros \<open>preservation of the component invariants\<close>
named_theorems quote_intros \<open>preservation of the invariant of the best bid and offer\<close>

lemma unat_succ: "unat (v :: u64) + 1 < 2 ^ 64 \<Longrightarrow> unat (v + 1) = unat v + 1"
  by (simp add: unat_word_ariths)

lemma word_less_succ: "s < (t :: u64) \<Longrightarrow> unat (s + 1) = unat s + 1"
proof -
  assume "s < t"
  then have "unat s + 1 < 2 ^ 64" using unsigned_less[of t, where 'a = nat] by (simp add: word_less_nat_alt)
  then show ?thesis by (rule unat_succ)
qed

lemma unat_ucast_up:
  "LENGTH('a::len) \<le> LENGTH('b::len) \<Longrightarrow> unat (ucast (x :: 'a word) :: 'b word) = unat x"
  by (simp add: unsigned_ucast_eq take_bit_nat_eq_self_iff order_less_le_trans[OF unsigned_less])

lemma unat_ucast_down: "unat (ucast (x :: 'a::len word) :: 'b::len word) = unat x mod 2 ^ LENGTH('b)"
  by (simp add: unsigned_ucast_eq take_bit_eq_mod)

lemma unat_widen: "unat (ucast (x :: u64) :: u128) = unat x"
  by (simp add: unat_ucast_up)

section \<open>Lists looked up by a key\<close>

definition find_key :: "('a \<Rightarrow> 'k) \<Rightarrow> 'a list \<Rightarrow> 'k \<Rightarrow> 'a option" where
  "find_key f xs k = find (\<lambda>x. f x = k) xs"

lemma find_key_Nil [simp]: "find_key f [] k = None"
  by (simp add: find_key_def)

lemma find_key_Cons: "find_key f (x # xs) k = (if f x = k then Some x else find_key f xs k)"
  by (simp add: find_key_def)

lemma find_key_append:
  "find_key f (xs @ ys) k = (case find_key f xs k of None \<Rightarrow> find_key f ys k | Some x \<Rightarrow> Some x)"
  by (induction xs) (auto simp: find_key_Cons)

lemma find_key_None_iff: "find_key f xs k = None \<longleftrightarrow> k \<notin> f ` set xs"
  by (induction xs) (auto simp: find_key_Cons)

lemma find_key_SomeD: "find_key f xs k = Some x \<Longrightarrow> x \<in> set xs \<and> f x = k"
  by (induction xs) (auto simp: find_key_Cons split: if_splits)

lemma find_key_Some_iff:
  "distinct (map f xs) \<Longrightarrow> find_key f xs k = Some x \<longleftrightarrow> x \<in> set xs \<and> f x = k"
  by (induction xs) (auto simp: find_key_Cons)

lemma find_key_cong_set:
  assumes "distinct (map f xs)" "distinct (map f ys)" "set xs = set ys"
  shows "find_key f xs k = find_key f ys k"
proof (cases "find_key f xs k")
  case None
  then have "find_key f ys k = None" using assms(3) by (simp add: find_key_None_iff)
  with None show ?thesis by simp
next
  case (Some x)
  then have "find_key f ys k = Some x" using assms by (simp add: find_key_Some_iff)
  with Some show ?thesis by simp
qed

lemma find_key_rev: "distinct (map f xs) \<Longrightarrow> find_key f (rev xs) k = find_key f xs k"
  by (rule find_key_cong_set) (simp_all flip: rev_map)

lemma find_key_perm:
  assumes "distinct (map f xs)" "mset xs = mset ys"
  shows "find_key f ys k = find_key f xs k"
proof (rule find_key_cong_set)
  have "mset (map f xs) = mset (map f ys)" using assms(2) by simp
  then show "distinct (map f ys)" using assms(1) mset_eq_imp_distinct_iff by blast
qed (use assms mset_eq_setD in auto)

section \<open>Induction over a two-list walk\<close>

lemma two_list_induct [case_names Nil NilCons ConsCons]:
  assumes "\<And>xs. P xs []"
    and "\<And>y ys. P [] ys \<Longrightarrow> P [] (y # ys)"
    and "\<And>x xs y ys. P xs (y # ys) \<Longrightarrow> P (x # xs) ys \<Longrightarrow> P xs ys \<Longrightarrow> P (x # xs) (y # ys)"
  shows "P xs ys"
  using assms
proof (induction "length xs + length ys" arbitrary: xs ys rule: less_induct)
  case less
  show ?case
  proof (cases ys)
    case (Cons y ys')
    show ?thesis
    proof (cases xs)
      case Nil
      then show ?thesis using Cons less by simp
    next
      case (Cons x xs')
      then show ?thesis using \<open>ys = y # ys'\<close> less by simp
    qed
  qed (use less in simp)
qed

section \<open>Orders on prices\<close>

text \<open>
  \<^verbatim>\<open>StorageLess\<close> in flat_order_book.cpp and \<^verbatim>\<open>Better\<close> in consolidated_state.cpp are instantiated
  with \<^verbatim>\<open>std::less\<close> and \<^verbatim>\<open>std::greater\<close>; all the code needs of them is a strict total order.
\<close>

locale key_order =
  fixes before :: "'k \<Rightarrow> 'k \<Rightarrow> bool"
  assumes irrefl: "\<not> before a a"
    and trans: "before a b \<Longrightarrow> before b c \<Longrightarrow> before a c"
    and total: "a \<noteq> b \<Longrightarrow> before a b \<or> before b a"
begin

lemma asym: "before a b \<Longrightarrow> \<not> before b a"
  using irrefl trans by blast

lemma neq: "before a b \<Longrightarrow> a \<noteq> b"
  using irrefl by blast

lemma not_less_eq: "\<not> before a b \<Longrightarrow> \<not> before b a \<Longrightarrow> a = b"
  using total by blast

lemma sorted_distinct: "sorted_wrt before ks \<Longrightarrow> distinct ks"
  by (induction ks) (auto dest: neq)

lemma sorted_head_notin: "sorted_wrt before (k # ks) \<Longrightarrow> k \<notin> set ks"
  by (auto dest: neq)

lemma sorted_key_eqI:
  assumes "sorted_wrt before (map f xs)" "sorted_wrt before (map f ys)"
    and "\<And>k. find_key f xs k = find_key f ys k"
  shows "xs = ys"
  using assms
proof (induction xs arbitrary: ys)
  case Nil
  then have "find_key f ys k = None" for k by (metis find_key_Nil)
  then show ?case by (metis find_key_None_iff imageI list.set_intros(1) neq_Nil_conv)
next
  case (Cons x xs)
  have fx: "find_key f ys (f x) = Some x"
    using Cons.prems(3)[of "f x"] by (simp add: find_key_Cons)
  then obtain y ys' where ys: "ys = y # ys'" by (cases ys) auto
  have fy: "find_key f (x # xs) (f y) = Some y"
    using Cons.prems(3)[of "f y"] ys by (simp add: find_key_Cons)
  have eq: "f x = f y"
  proof (rule ccontr)
    assume ne: "f x \<noteq> f y"
    have "x \<in> set ys'" using fx ne ys by (auto simp: find_key_Cons dest: find_key_SomeD)
    then have "before (f y) (f x)" using Cons.prems(2) ys by auto
    moreover have "y \<in> set xs" using fy ne by (auto simp: find_key_Cons dest: find_key_SomeD)
    then have "before (f x) (f y)" using Cons.prems(1) by auto
    ultimately show False using asym by blast
  qed
  then have xy: "x = y" using fy by (simp add: find_key_Cons)
  have "find_key f xs k = find_key f ys' k" for k
  proof (cases "k = f x")
    case True
    then have "k \<notin> f ` set xs" "k \<notin> f ` set ys'"
      using Cons.prems(1,2) ys xy by (auto dest: neq)
    then show ?thesis by (simp add: find_key_None_iff[THEN iffD2])
  next
    case False
    then show ?thesis using Cons.prems(3)[of k] ys xy by (simp add: find_key_Cons)
  qed
  then have "xs = ys'" using Cons ys by auto
  then show ?case using ys xy by simp
qed

text \<open>
  A position found by rank splits a sorted list around the key: \<^verbatim>\<open>std::lower_bound\<close> and the linear
  scans of consolidated_state.cpp return the length of the left part.
\<close>

lemma takeWhile_before_split:
  assumes "\<forall>y \<in> set ys. before (f y) k" "zs = [] \<or> \<not> before (f (hd zs)) k"
  shows "takeWhile (\<lambda>x. before (f x) k) (ys @ zs) = ys"
  using assms by (cases zs) (auto simp: takeWhile_append2)

lemma key_split_present:
  assumes "sorted_wrt before (map f xs)" "k \<in> f ` set xs"
  obtains ys x zs where "xs = ys @ x # zs" "f x = k" "takeWhile (\<lambda>x. before (f x) k) xs = ys"
    "takeWhile (\<lambda>x. f x \<noteq> k) xs = ys" "\<forall>y \<in> set ys. before (f y) k" "\<forall>z \<in> set zs. before k (f z)"
proof -
  obtain ys x zs where xs: "xs = ys @ x # zs" and x: "f x = k"
    using assms(2) by (auto dest: split_list)
  have y: "\<forall>y \<in> set ys. before (f y) k" and z: "\<forall>z \<in> set zs. before k (f z)"
    using assms(1) x by (auto simp: xs sorted_wrt_append)
  have "\<forall>y \<in> set ys. f y \<noteq> k" using y neq by blast
  then have "takeWhile (\<lambda>x. f x \<noteq> k) xs = ys"
    using x by (simp add: xs takeWhile_append2)
  then show ?thesis using that[OF xs x _ _ y z] takeWhile_before_split[OF y, of "x # zs"] x irrefl by (simp add: xs)
qed

lemma key_split_absent:
  assumes "sorted_wrt before (map f xs)" "k \<notin> f ` set xs"
  obtains ys zs where "xs = ys @ zs" "takeWhile (\<lambda>x. before (f x) k) xs = ys"
    "\<forall>y \<in> set ys. before (f y) k" "\<forall>z \<in> set zs. before k (f z)"
proof -
  let ?ys = "takeWhile (\<lambda>x. before (f x) k) xs" and ?zs = "dropWhile (\<lambda>x. before (f x) k) xs"
  have "before k (f z)" if "z \<in> set ?zs" for z
  proof -
    have ne: "?zs \<noteq> []" using that by (metis empty_iff list.set(1))
    have hd: "\<not> before (f (hd ?zs)) k" "hd ?zs \<in> set xs"
      using hd_dropWhile[OF ne] set_dropWhileD[OF list.set_sel(1)[OF ne]] by blast+
    then have "before k (f (hd ?zs))" using assms(2) not_less_eq by blast
    moreover have "sorted_wrt before (map f ?zs)"
      using assms(1) by (metis map_append sorted_wrt_append takeWhile_dropWhile_id)
    ultimately show ?thesis using that trans by (cases ?zs) auto
  qed
  then show ?thesis using that[of ?ys ?zs] by (auto dest: set_takeWhileD)
qed

lemma find_key_around:
  assumes "\<forall>y \<in> set ys. before (f y) k" "\<forall>z \<in> set zs. before k (f z)"
  shows "f x = k \<Longrightarrow> find_key f (ys @ x # zs) p = (if p = k then Some x else find_key f (ys @ zs) p)"
    and "find_key f (ys @ zs) k = None"
proof -
  have no: "k \<notin> f ` set ys" "k \<notin> f ` set zs" using assms neq by auto
  then show "find_key f (ys @ zs) k = None" by (simp add: find_key_None_iff image_Un)
  have "find_key f ys k = None" using no(1) by (simp add: find_key_None_iff)
  then show "f x = k \<Longrightarrow> find_key f (ys @ x # zs) p = (if p = k then Some x else find_key f (ys @ zs) p)"
    by (auto simp: find_key_append find_key_Cons split: option.splits)
qed

lemma sorted_around:
  assumes "sorted_wrt before (map f (ys @ zs))" "\<forall>y \<in> set ys. before (f y) (f x)" "\<forall>z \<in> set zs. before (f x) (f z)"
  shows "sorted_wrt before (map f (ys @ x # zs))"
  using assms by (auto simp: sorted_wrt_append)

lemma sorted_without:
  "sorted_wrt before (map f (ys @ x # zs)) \<Longrightarrow> sorted_wrt before (map f (ys @ zs))"
  by (auto simp: sorted_wrt_append)

end

text \<open>The orders of the two sides of a book.\<close>

locale price_order = key_order before for before :: "u64 \<Rightarrow> u64 \<Rightarrow> bool"

interpretation slots: key_order "(<) :: nat \<Rightarrow> nat \<Rightarrow> bool"
  by unfold_locales auto

interpretation up: price_order "(<)"
  by unfold_locales auto

interpretation down: price_order "(\<lambda>a b. b < a)"
  by unfold_locales auto

lemma sorted_wrt_rev_flip: "sorted_wrt before (rev ks) \<longleftrightarrow> sorted_wrt (\<lambda>a b. before b a) ks"
  by (simp add: sorted_wrt_rev)

end
