(* ===== verification/Venue_Types.thy ===== *)
theory Venue_Types
  imports Prelude
begin

unbundle bit_operations_syntax

text \<open>
  The identity layer of src/types: markets, symbols, the packed \<open>InstrumentKey\<close>, the
  \<open>VenueId\<close> enumeration with its string conversions, and the two name registries.
  Spot and futures books can never meet because their packed keys differ, and a venue or
  symbol keeps the slot it was first given; the registry contract is stated once, as a
  locale, and both registries interpret it.
\<close>

section \<open>Markets, symbols and the packed instrument key (types/venue.h)\<close>

text \<open>
  \<^verbatim>\<open>enum class MarketType : uint8_t\<close>. \<^verbatim>\<open>InstrumentKey::Market\<close> casts a byte to it, so a value
  that names no enumerator is kept as \<open>MarketRaw\<close>.
\<close>

datatype MarketType = kSpot | kFutures | MarketRaw u8

definition market_of_u8 :: "u8 \<Rightarrow> MarketType" where
  "market_of_u8 b = (if b = 0 then kSpot else if b = 1 then kFutures else MarketRaw b)"

fun u8_of_market :: "MarketType \<Rightarrow> u8" where
  "u8_of_market kSpot = 0"
| "u8_of_market kFutures = 1"
| "u8_of_market (MarketRaw b) = b"

definition ToMarketString :: "MarketType \<Rightarrow> string" where
  "ToMarketString market = (if market = kSpot then ''spot'' else ''futures'')"

definition ToMarketType :: "string \<Rightarrow> MarketType option" where
  "ToMarketType market =
     (if market = ''spot'' then Some kSpot
      else if market = ''futures'' then Some kFutures
      else None)"

text \<open>\<^verbatim>\<open>enum class InstrumentId : uint16_t\<close>: registry ids are cast to it, so it is the whole word.\<close>

type_synonym InstrumentId = u16

definition BTCUSDT :: InstrumentId where "BTCUSDT = 0"
definition ETHUSDT :: InstrumentId where "ETHUSDT = 1"
definition SOLUSDT :: InstrumentId where "SOLUSDT = 2"

definition kMarketMask :: u32 where "kMarketMask = 0xFF"
definition kSymbolShift :: nat where "kSymbolShift = 8"

datatype InstrumentKey = InstrumentKey (Packed: u32)

definition MakeKey :: "InstrumentId \<Rightarrow> MarketType \<Rightarrow> InstrumentKey" where
  "MakeKey symbol market =
     InstrumentKey (push_bit kSymbolShift (ucast symbol) OR ucast (u8_of_market market))"

definition Symbol :: "InstrumentKey \<Rightarrow> InstrumentId" where
  "Symbol k = ucast (drop_bit kSymbolShift (Packed k))"

definition Market :: "InstrumentKey \<Rightarrow> MarketType" where
  "Market k = market_of_u8 (ucast (Packed k AND kMarketMask))"

lemma market_of_u8_inverse [simp]: "u8_of_market (market_of_u8 b) = b"
  by (simp add: market_of_u8_def)

lemma key_low_bits: "(push_bit 8 (ucast (s :: u16)) OR ucast (b :: u8)) AND (0xFF :: u32) = ucast b"
proof -
  have m: "(0xFF :: u32) = mask 8" by (simp add: mask_eq_exp_minus_1)
  show ?thesis unfolding m
    by (rule bit_word_eqI)
       (auto simp: bit_and_iff bit_or_iff bit_push_bit_iff bit_mask_iff bit_ucast_iff
             dest: bit_imp_le_length)
qed

lemma ucast_byte_word [simp]: "ucast (ucast (b :: u8) :: u32) = b"
  by (rule bit_word_eqI) (simp add: bit_ucast_iff)

lemma key_high_bits: "ucast (drop_bit 8 (push_bit 8 (ucast (s :: u16)) OR ucast (b :: u8) :: u32)) = s"
proof (rule bit_word_eqI)
  fix n assume n: "n < LENGTH(16)"
  have "\<not> bit b (8 + n)" using bit_imp_le_length by fastforce
  with n show "bit (ucast (drop_bit 8 (push_bit 8 (ucast s) OR ucast b :: u32)) :: u16) n = bit s n"
    by (simp add: bit_ucast_iff bit_drop_bit_eq bit_or_iff bit_push_bit_iff)
qed

lemma Symbol_MakeKey: "Symbol (MakeKey s m) = s"
  unfolding Symbol_def MakeKey_def kSymbolShift_def InstrumentKey.sel by (rule key_high_bits)

lemma Market_MakeKey: "Market (MakeKey s m) = market_of_u8 (u8_of_market m)"
  by (simp add: Market_def MakeKey_def kSymbolShift_def kMarketMask_def key_low_bits)

section \<open>Venues and their names\<close>

datatype VenueId = BINANCE | BYBIT | OKX | COUNT

fun venue_index :: "VenueId \<Rightarrow> nat" where
  "venue_index BINANCE = 0"
| "venue_index BYBIT = 1"
| "venue_index OKX = 2"
| "venue_index COUNT = 3"

definition kVenueCount :: nat where "kVenueCount = venue_index COUNT"

fun ToVenueString :: "VenueId \<Rightarrow> string" where
  "ToVenueString BINANCE = ''BINANCE''"
| "ToVenueString BYBIT = ''BYBIT''"
| "ToVenueString OKX = ''OKX''"
| "ToVenueString COUNT = ''UNKNOWN''"

definition ToVenueId :: "string \<Rightarrow> VenueId" where
  "ToVenueId venue_id =
     (if venue_id = ''BINANCE'' then BINANCE
      else if venue_id = ''BYBIT'' then BYBIT
      else if venue_id = ''OKX'' then OKX
      else COUNT)"

definition ToInstrumentString :: "InstrumentId \<Rightarrow> string" where
  "ToInstrumentString i =
     (if i = BTCUSDT then ''BTCUSDT''
      else if i = ETHUSDT then ''ETHUSDT''
      else if i = SOLUSDT then ''SOLUSDT''
      else ''UNKNOWN'')"

definition ToInstrumentString_key :: "InstrumentKey \<Rightarrow> string" where
  "ToInstrumentString_key key = ToInstrumentString (Symbol key) @ '':'' @ ToMarketString (Market key)"

definition ToInstrumentId :: "string \<Rightarrow> InstrumentId option" where
  "ToInstrumentId s =
     (if s = ''BTCUSDT'' then Some BTCUSDT
      else if s = ''ETHUSDT'' then Some ETHUSDT
      else if s = ''SOLUSDT'' then Some SOLUSDT
      else None)"

fun ToVenueMarketString :: "VenueId \<Rightarrow> MarketType \<Rightarrow> string" where
  "ToVenueMarketString BINANCE m = (if m = kSpot then ''BINANCE:SPOT'' else ''BINANCE:FUTURES'')"
| "ToVenueMarketString BYBIT m = (if m = kSpot then ''BYBIT:SPOT'' else ''BYBIT:FUTURES'')"
| "ToVenueMarketString OKX m = (if m = kSpot then ''OKX:SPOT'' else ''OKX:FUTURES'')"
| "ToVenueMarketString COUNT m = (if m = kSpot then ''UNKNOWN:SPOT'' else ''UNKNOWN:FUTURES'')"

text \<open>
  Staleness backstops per venue and stream, in nanoseconds (namespace \<^verbatim>\<open>staleness\<close>).
\<close>

definition kSecondNs :: int where "kSecondNs = 1000000000"

fun bbo_backstop_ns :: "VenueId \<Rightarrow> int" where
  "bbo_backstop_ns BYBIT = 10 * kSecondNs"
| "bbo_backstop_ns _ = 30 * kSecondNs"

fun depth_backstop_ns :: "VenueId \<Rightarrow> int" where
  "depth_backstop_ns OKX = 90 * kSecondNs"
| "depth_backstop_ns _ = 30 * kSecondNs"

lemma ToVenueId_ToVenueString: "ToVenueId (ToVenueString v) = v"
  by (cases v) (simp_all add: ToVenueId_def)

lemma venue_index_less: "v \<noteq> COUNT \<Longrightarrow> venue_index v < kVenueCount"
  by (cases v) (simp_all add: kVenueCount_def)

lemma venue_index_inj: "venue_index v = venue_index w \<Longrightarrow> v = w"
  by (cases v; cases w) simp_all

lemma ToVenueId_inj: "ToVenueId a = ToVenueId b \<Longrightarrow> ToVenueId a \<noteq> COUNT \<Longrightarrow> a = b"
  by (auto simp: ToVenueId_def split: if_splits)

end
