(* ===== verification/Registries.thy ===== *)
theory Registries
  imports Venue_Types
begin

text \<open>
  The two runtime name tables: \<open>VenueRegistry\<close> (types/venue_registry.h) and
  \<open>InstrumentRegistry\<close> (types/instrument_registry.h, with its symbol normalisation).
  The C++ array of names with a published counter is the list of the names published so far;
  capacity is the array's bound. The contract the rest of the program relies on (an id, once
  given, is given again after any number of later registrations) is the locale
  \<open>name_registry\<close>, interpreted by both.
\<close>

section \<open>The registry contract\<close>

locale name_registry =
  fixes register :: "'r \<Rightarrow> string \<Rightarrow> 'i option \<times> 'r"
    and lookup :: "'r \<Rightarrow> string \<Rightarrow> 'i option"
    and entries :: "'r \<Rightarrow> nat"
    and capacity :: nat
    and inv :: "'r \<Rightarrow> bool"
  assumes register_inv: "inv r \<Longrightarrow> inv (snd (register r n))"
    and register_lookup: "inv r \<Longrightarrow> register r n = (Some i, r') \<Longrightarrow> lookup r' n = Some i"
    and register_keeps: "inv r \<Longrightarrow> lookup r m = Some i \<Longrightarrow> lookup (snd (register r n)) m = Some i"
    and register_known: "inv r \<Longrightarrow> lookup r n = Some i \<Longrightarrow> register r n = (Some i, r)"
    and entries_bound: "inv r \<Longrightarrow> entries r \<le> capacity"
    and entries_mono: "inv r \<Longrightarrow> entries r \<le> entries (snd (register r n))"
begin

lemma register_many_inv: "inv r \<Longrightarrow> inv (foldl (\<lambda>r n. snd (register r n)) r ns)"
  by (induction ns arbitrary: r) (auto intro: register_inv)

lemma register_many_keeps:
  "inv r \<Longrightarrow> lookup r m = Some i \<Longrightarrow> lookup (foldl (\<lambda>r n. snd (register r n)) r ns) m = Some i"
  by (induction ns arbitrary: r) (auto intro: register_inv register_keeps)

lemma register_stable:
  fixes ns :: "string list"
  assumes "inv r" "register r n = (Some i, r')"
  defines "r'' \<equiv> foldl (\<lambda>r m. snd (register r m)) r' ns"
  shows "register r'' n = (Some i, r'') \<and> entries r'' \<le> capacity"
proof -
  have i': "inv r'" using register_inv[OF assms(1), of n] assms(2) by simp
  have "lookup r'' n = Some i"
    unfolding r''_def using register_many_keeps[OF i' register_lookup[OF assms(1,2)]] .
  moreover have "inv r''" unfolding r''_def using register_many_inv[OF i'] .
  ultimately show ?thesis using register_known entries_bound by blast
qed

end

section \<open>Venue slots\<close>

text \<open>
  \<^verbatim>\<open>enum class VenueSlot : uint8_t\<close>, a dense index below \<^verbatim>\<open>kMaxVenues\<close>; \<^verbatim>\<open>VenueSlotIndex\<close> is the
  number itself.
\<close>

type_synonym VenueSlot = nat

definition kMaxVenues :: nat where "kMaxVenues = 8"

definition VenueSlotIndex :: "VenueSlot \<Rightarrow> nat" where
  "VenueSlotIndex slot = slot"

record VenueRegistry =
  vr_names :: "string list"

definition empty_registry :: VenueRegistry where
  "empty_registry = \<lparr>vr_names = []\<rparr>"

definition registry_size :: "VenueRegistry \<Rightarrow> nat" where
  "registry_size r = length (vr_names r)"

text \<open>The linear scan of \<^verbatim>\<open>Find\<close>: the first index that holds the name.\<close>

fun find_name :: "string list \<Rightarrow> string \<Rightarrow> nat \<Rightarrow> nat option" where
  "find_name [] name i = None"
| "find_name (x # xs) name i = (if x = name then Some i else find_name xs name (Suc i))"

definition Find :: "VenueRegistry \<Rightarrow> string \<Rightarrow> VenueSlot option" where
  "Find r name = find_name (vr_names r) name 0"

definition Register :: "VenueRegistry \<Rightarrow> string \<Rightarrow> VenueSlot option \<times> VenueRegistry" where
  "Register r name =
     (case Find r name of
        Some existing \<Rightarrow> (Some existing, r)
      | None \<Rightarrow>
          (let count = registry_size r in
           if count \<ge> kMaxVenues then (None, r)
           else (Some count, r\<lparr>vr_names := vr_names r @ [name]\<rparr>)))"

definition Name :: "VenueRegistry \<Rightarrow> VenueSlot \<Rightarrow> string" where
  "Name r slot = (if VenueSlotIndex slot \<ge> registry_size r then [] else vr_names r ! VenueSlotIndex slot)"

definition registry_ok :: "VenueRegistry \<Rightarrow> bool" where
  "registry_ok r \<longleftrightarrow> distinct (vr_names r) \<and> length (vr_names r) \<le> kMaxVenues"

lemma find_name_Some_iff:
  "distinct xs \<Longrightarrow> find_name xs n k = Some i \<longleftrightarrow> k \<le> i \<and> i < k + length xs \<and> xs ! (i - k) = n"
proof (induction xs arbitrary: k)
  case (Cons x xs)
  show ?case
  proof (cases "x = n")
    case True
    with Cons.prems have "n \<notin> set xs" by auto
    then show ?thesis using True by (auto simp: nth_Cons split: nat.splits)
  next
    case False
    have "(Suc k \<le> i \<and> i < Suc k + length xs \<and> xs ! (i - Suc k) = n) \<longleftrightarrow>
          (k \<le> i \<and> i < k + length (x # xs) \<and> (x # xs) ! (i - k) = n)"
    proof (cases "k < i")
      case True
      then have "i - k = Suc (i - Suc k)" by simp
      then show ?thesis using True by auto
    qed (use False in auto)
    then show ?thesis using Cons False by simp
  qed
qed simp

lemma find_name_append:
  "find_name (xs @ ys) n k =
     (case find_name xs n k of None \<Rightarrow> find_name ys n (k + length xs) | Some i \<Rightarrow> Some i)"
  by (induction xs arbitrary: k) (auto split: option.splits)

lemma find_name_None_iff: "find_name xs n k = None \<longleftrightarrow> n \<notin> set xs"
  by (induction xs arbitrary: k) auto

lemma Register_ok [inv_intros]: "registry_ok r \<Longrightarrow> registry_ok (snd (Register r n))"
  by (auto simp: Register_def registry_ok_def Find_def registry_size_def find_name_None_iff Let_def
           split: option.splits)

lemma Find_Name:
  "registry_ok r \<Longrightarrow> Find r n = Some s \<longleftrightarrow> s < registry_size r \<and> Name r s = n"
  by (auto simp: registry_ok_def Find_def registry_size_def Name_def VenueSlotIndex_def find_name_Some_iff)

lemma Register_size: "registry_size r \<le> registry_size (snd (Register r n))"
  by (auto simp: Register_def registry_size_def Let_def split: option.splits)

lemma Register_Some_less:
  "registry_ok r \<Longrightarrow> Register r n = (Some s, r') \<Longrightarrow> s < registry_size r' \<and> s < kMaxVenues \<and> Name r' s = n"
  by (auto simp: Register_def registry_ok_def Find_def registry_size_def find_name_Some_iff Let_def
                 Name_def VenueSlotIndex_def split: option.splits if_splits)

lemma Register_keeps_Name:
  "s < registry_size r \<Longrightarrow> Name (snd (Register r n)) s = Name r s"
  by (auto simp: Register_def registry_size_def Let_def Name_def VenueSlotIndex_def nth_append
           split: option.splits)

interpretation venue_reg: name_registry Register Find registry_size kMaxVenues registry_ok
proof unfold_locales
  fix r n m i r'
  show "registry_ok r \<Longrightarrow> registry_ok (snd (Register r n))" by (rule Register_ok)
  show "registry_ok r \<Longrightarrow> Register r n = (Some i, r') \<Longrightarrow> Find r' n = Some i"
    using Register_Some_less[of r n i r'] Register_ok[of r n] by (simp add: Find_Name)
  show "registry_ok r \<Longrightarrow> Find r m = Some i \<Longrightarrow> Find (snd (Register r n)) m = Some i"
    by (auto simp: Register_def Find_def find_name_append Let_def split: option.splits)
  show "registry_ok r \<Longrightarrow> Find r n = Some i \<Longrightarrow> Register r n = (Some i, r)"
    by (simp add: Register_def)
  show "registry_ok r \<Longrightarrow> registry_size r \<le> kMaxVenues"
    by (simp add: registry_ok_def registry_size_def)
  show "registry_ok r \<Longrightarrow> registry_size r \<le> registry_size (snd (Register r n))"
    by (rule Register_size)
qed

section \<open>Symbols and instrument ids\<close>

definition kMaxInstruments :: nat where "kMaxInstruments = 64"

text \<open>\<^verbatim>\<open>std::isspace\<close> and \<^verbatim>\<open>std::toupper\<close> of the C locale.\<close>

definition is_space :: "char \<Rightarrow> bool" where
  "is_space c = (let n = (of_char c :: nat) in n = 32 \<or> (9 \<le> n \<and> n \<le> 13))"

definition to_upper :: "char \<Rightarrow> char" where
  "to_upper c = (let n = (of_char c :: nat) in if 97 \<le> n \<and> n \<le> 122 then char_of (n - 32) else c)"

definition NormalizeSymbol :: "string \<Rightarrow> string" where
  "NormalizeSymbol symbol =
     map to_upper
       (filter (\<lambda>c. \<not> (c = CHR ''-'' \<or> c = CHR ''_'' \<or> c = CHR ''/'' \<or> is_space c)) symbol)"

datatype SymbolStatus = kOk | kEmpty | kBadCharacter

definition symbol_char :: "char \<Rightarrow> bool" where
  "symbol_char c = (let n = (of_char c :: nat) in (65 \<le> n \<and> n \<le> 90) \<or> (48 \<le> n \<and> n \<le> 57))"

definition ValidateSymbol :: "string \<Rightarrow> SymbolStatus" where
  "ValidateSymbol normalized =
     (if normalized = [] then kEmpty
      else if list_all symbol_char normalized then kOk else kBadCharacter)"

fun DescribeSymbolStatus :: "SymbolStatus \<Rightarrow> string" where
  "DescribeSymbolStatus kOk = ''ok''"
| "DescribeSymbolStatus kEmpty = ''empty after normalisation''"
| "DescribeSymbolStatus kBadCharacter = ''contains a character that is not a letter or a digit''"

record InstrumentRegistry =
  ir_names :: "string list"

definition FindNormalized :: "InstrumentRegistry \<Rightarrow> string \<Rightarrow> InstrumentId option" where
  "FindNormalized r normalized = map_option of_nat (find_name (ir_names r) normalized 0)"

definition FindInstrument :: "InstrumentRegistry \<Rightarrow> string \<Rightarrow> InstrumentId option" where
  "FindInstrument r symbol = FindNormalized r (NormalizeSymbol symbol)"

definition RegisterInstrument ::
    "InstrumentRegistry \<Rightarrow> string \<Rightarrow> InstrumentId option \<times> InstrumentRegistry" where
  "RegisterInstrument r symbol =
     (let normalized = NormalizeSymbol symbol in
      if ValidateSymbol normalized \<noteq> kOk then (None, r)
      else case FindNormalized r normalized of
        Some existing \<Rightarrow> (Some existing, r)
      | None \<Rightarrow>
          (let count = length (ir_names r) in
           if count \<ge> kMaxInstruments then (None, r)
           else (Some (of_nat count), r\<lparr>ir_names := ir_names r @ [normalized]\<rparr>)))"

definition InstrumentName :: "InstrumentRegistry \<Rightarrow> InstrumentId \<Rightarrow> string" where
  "InstrumentName r i = (if unat i \<ge> length (ir_names r) then [] else ir_names r ! unat i)"

definition instruments_ok :: "InstrumentRegistry \<Rightarrow> bool" where
  "instruments_ok r \<longleftrightarrow> distinct (ir_names r) \<and> length (ir_names r) \<le> kMaxInstruments
     \<and> (\<forall>n \<in> set (ir_names r). ValidateSymbol n = kOk)"

lemma symbol_char_to_upper: "symbol_char c \<Longrightarrow> to_upper c = c"
  by (auto simp: symbol_char_def to_upper_def Let_def)

lemma symbol_char_kept: "symbol_char c \<Longrightarrow> \<not> is_space c \<and> c \<noteq> CHR ''-'' \<and> c \<noteq> CHR ''_'' \<and> c \<noteq> CHR ''/''"
  by (auto simp: symbol_char_def is_space_def Let_def)

lemma NormalizeSymbol_valid:
  "list_all symbol_char s \<Longrightarrow> NormalizeSymbol s = s"
  by (induction s) (auto simp: NormalizeSymbol_def symbol_char_kept symbol_char_to_upper)

lemma NormalizeSymbol_idem_if_ok:
  "ValidateSymbol (NormalizeSymbol s) = kOk \<Longrightarrow> NormalizeSymbol (NormalizeSymbol s) = NormalizeSymbol s"
  by (rule NormalizeSymbol_valid) (auto simp: ValidateSymbol_def split: if_splits)

lemma RegisterInstrument_ok [inv_intros]: "instruments_ok r \<Longrightarrow> instruments_ok (snd (RegisterInstrument r n))"
  by (auto simp: RegisterInstrument_def instruments_ok_def FindNormalized_def find_name_None_iff Let_def
           split: option.splits)

lemma FindNormalized_append:
  "FindNormalized r m = Some i \<Longrightarrow> FindNormalized (r\<lparr>ir_names := ir_names r @ ys\<rparr>) m = Some i"
  by (auto simp: FindNormalized_def find_name_append split: option.splits)

lemma FindNormalized_new:
  "FindNormalized r n = None \<Longrightarrow>
   FindNormalized (r\<lparr>ir_names := ir_names r @ [n]\<rparr>) n = Some (of_nat (length (ir_names r)))"
  by (auto simp: FindNormalized_def find_name_append split: option.splits)

lemma FindNormalized_validD:
  "instruments_ok r \<Longrightarrow> FindNormalized r n = Some i \<Longrightarrow> ValidateSymbol n = kOk"
  using find_name_None_iff[of "ir_names r" n 0] by (auto simp: FindNormalized_def instruments_ok_def)

lemma InstrumentName_Find:
  assumes "instruments_ok r" "FindInstrument r s = Some i"
  shows "InstrumentName r i = NormalizeSymbol s"
proof -
  obtain k where k: "find_name (ir_names r) (NormalizeSymbol s) 0 = Some k" "i = of_nat k"
    using assms(2) by (auto simp: FindInstrument_def FindNormalized_def)
  then have "k < length (ir_names r)" "ir_names r ! k = NormalizeSymbol s"
    using assms(1) by (auto simp: find_name_Some_iff instruments_ok_def)
  moreover have "k < 2 ^ 16"
    using calculation(1) assms(1) by (simp add: instruments_ok_def kMaxInstruments_def)
  then have "unat (of_nat k :: u16) = k" by (simp add: unsigned_of_nat take_bit_nat_eq_self)
  ultimately show ?thesis using k(2) by (simp add: InstrumentName_def)
qed

interpretation instrument_reg:
  name_registry RegisterInstrument FindInstrument "\<lambda>r. length (ir_names r)" kMaxInstruments instruments_ok
proof unfold_locales
  fix r n m i r'
  show "instruments_ok r \<Longrightarrow> instruments_ok (snd (RegisterInstrument r n))"
    by (rule RegisterInstrument_ok)
  show "instruments_ok r \<Longrightarrow> RegisterInstrument r n = (Some i, r') \<Longrightarrow> FindInstrument r' n = Some i"
    by (auto simp: RegisterInstrument_def FindInstrument_def Let_def FindNormalized_new
             split: if_splits option.splits)
  show "instruments_ok r \<Longrightarrow> FindInstrument r m = Some i \<Longrightarrow>
        FindInstrument (snd (RegisterInstrument r n)) m = Some i"
    by (auto simp: RegisterInstrument_def FindInstrument_def Let_def FindNormalized_append
             split: option.splits)
  show "instruments_ok r \<Longrightarrow> FindInstrument r n = Some i \<Longrightarrow> RegisterInstrument r n = (Some i, r)"
    by (auto simp: RegisterInstrument_def FindInstrument_def Let_def dest: FindNormalized_validD)
  show "instruments_ok r \<Longrightarrow> length (ir_names r) \<le> kMaxInstruments"
    by (simp add: instruments_ok_def)
  show "instruments_ok r \<Longrightarrow> length (ir_names r) \<le> length (ir_names (snd (RegisterInstrument r n)))"
    by (auto simp: RegisterInstrument_def Let_def split: option.splits)
qed

end
