(* ===== verification/Md_Types.thy ===== *)
theory Md_Types
  imports Registries
begin

text \<open>
  The domain types of src/md_core/types.h and the staleness policy of
  src/md_core/venue_health.h: scaled-integer prices and quantities, what a provider hands to
  the core (\<open>BookUpdate\<close>, \<open>BboQuote\<close>, \<open>VenueHealthEvent\<close>), and the pure classifiers that turn a
  stamp and a clock reading into a verdict.
\<close>

section \<open>Prices, quantities, levels\<close>

type_synonym PriceTicks = u64
type_synonym QtyUnits = u64
type_synonym Notional = u128

definition kScaleExponent :: u32 where "kScaleExponent = 8"
definition kScaleFactor :: u64 where "kScaleFactor = 100000000"
definition kTsNsMultiplier :: int where "kTsNsMultiplier = 1000000"

record PriceLevel =
  price :: PriceTicks
  qty :: QtyUnits

record LevelChange =
  lc_price :: PriceTicks
  old_qty :: QtyUnits
  new_qty :: QtyUnits

record BookUpdate =
  bu_venue :: VenueId
  bu_instrument :: InstrumentKey
  bu_seq :: u64
  bu_prev_seq :: i64
  bu_recv_ts_ns :: i64
  bu_exch_ts_ns :: i64
  bu_recv_mono_ns :: i64
  bu_is_snapshot :: bool
  bu_bids :: "PriceLevel list"
  bu_asks :: "PriceLevel list"

record BboQuote =
  q_venue :: VenueId
  q_instrument :: InstrumentKey
  q_seq :: u64
  q_recv_ts_ns :: i64
  q_exch_ts_ns :: i64
  q_recv_mono_ns :: i64
  q_bid_price :: PriceTicks
  q_bid_qty :: QtyUnits
  q_ask_price :: PriceTicks
  q_ask_qty :: QtyUnits

text \<open>The value-initialised quote: the slot of a venue that has not spoken.\<close>

definition empty_quote :: BboQuote where
  "empty_quote = \<lparr>q_venue = BINANCE, q_instrument = InstrumentKey 0, q_seq = 0, q_recv_ts_ns = 0,
     q_exch_ts_ns = 0, q_recv_mono_ns = 0, q_bid_price = 0, q_bid_qty = 0, q_ask_price = 0, q_ask_qty = 0\<rparr>"

type_synonym VenueQuoteArray = "BboQuote list"

record CoreConfig =
  cfg_venues :: "VenueId list"
  cfg_default_instruments :: "InstrumentKey list"

text \<open>
  What the rest of the development asks of a delta: one entry per price, and no entry at the
  meaningless price zero.
\<close>

definition wf_levels :: "PriceLevel list \<Rightarrow> bool" where
  "wf_levels ls \<longleftrightarrow> distinct (map price ls) \<and> 0 \<notin> price ` set ls"

definition wf_update :: "BookUpdate \<Rightarrow> bool" where
  "wf_update u \<longleftrightarrow> wf_levels (bu_bids u) \<and> wf_levels (bu_asks u)"

lemma wf_levels_distinct: "wf_levels ls \<Longrightarrow> distinct (map price ls)"
  by (simp add: wf_levels_def)

section \<open>Staleness verdicts (venue_health.h)\<close>

text \<open>
  \<^verbatim>\<open>enum class VenueHealth : uint8_t\<close>; the wire decoder casts any byte to it, so the values
  that name no enumerator are kept as \<open>HealthRaw\<close>.
\<close>

datatype VenueHealth = kNoData | kLive | kDisconnected | kResyncing | kStale | HealthRaw u8

definition health_of_u8 :: "u8 \<Rightarrow> VenueHealth" where
  "health_of_u8 b =
     (if b = 0 then kNoData else if b = 1 then kLive else if b = 2 then kDisconnected
      else if b = 3 then kResyncing else if b = 4 then kStale else HealthRaw b)"

fun u8_of_health :: "VenueHealth \<Rightarrow> u8" where
  "u8_of_health kNoData = 0"
| "u8_of_health kLive = 1"
| "u8_of_health kDisconnected = 2"
| "u8_of_health kResyncing = 3"
| "u8_of_health kStale = 4"
| "u8_of_health (HealthRaw b) = b"

text \<open>
  The C++ subtraction of two \<^verbatim>\<open>int64_t\<close> readings is exact or undefined; the model computes it
  exactly on integers, so it agrees with the code wherever the code is defined.
\<close>

definition ClassifyVenue :: "int \<Rightarrow> int \<Rightarrow> int \<Rightarrow> VenueHealth" where
  "ClassifyVenue last_mono_ns now_mono_ns stale_after_ns =
     (if last_mono_ns = 0 then kNoData
      else if now_mono_ns - last_mono_ns > stale_after_ns then kStale
      else kLive)"

definition IsAdmissible :: "VenueHealth \<Rightarrow> bool" where
  "IsAdmissible health = (health = kLive)"

fun HealthToString :: "VenueHealth \<Rightarrow> string" where
  "HealthToString kNoData = ''NO_DATA''"
| "HealthToString kLive = ''LIVE''"
| "HealthToString kDisconnected = ''DISCONNECTED''"
| "HealthToString kResyncing = ''RESYNCING''"
| "HealthToString kStale = ''STALE''"
| "HealthToString (HealthRaw b) = ''UNKNOWN''"

type_synonym VenueHealthArray = "VenueHealth list"

datatype StreamKind = kDepth | kBbo | StreamRaw u8

definition stream_of_u8 :: "u8 \<Rightarrow> StreamKind" where
  "stream_of_u8 b = (if b = 0 then kDepth else if b = 1 then kBbo else StreamRaw b)"

fun u8_of_stream :: "StreamKind \<Rightarrow> u8" where
  "u8_of_stream kDepth = 0"
| "u8_of_stream kBbo = 1"
| "u8_of_stream (StreamRaw b) = b"

record VenueHealthEvent =
  he_venue :: VenueId
  he_stream :: StreamKind
  he_health :: VenueHealth
  he_decided_mono_ns :: i64

definition ClassifyFeed :: "bool \<Rightarrow> int \<Rightarrow> int \<Rightarrow> int \<Rightarrow> VenueHealth" where
  "ClassifyFeed connected last_message_mono_ns now_mono_ns backstop_ns =
     (if \<not> connected then kDisconnected
      else ClassifyVenue last_message_mono_ns now_mono_ns backstop_ns)"

lemma u8_of_health_inverse [simp]: "u8_of_health (health_of_u8 b) = b"
  by (simp add: health_of_u8_def)

lemma u8_of_stream_inverse [simp]: "u8_of_stream (stream_of_u8 b) = b"
  by (simp add: stream_of_u8_def)

end
