(* ===== verification/Flat_Order_Book.thy ===== *)
theory Flat_Order_Book
  imports Md_Types
begin

text \<open>
  The per-venue order book of src/md_core/flat_order_book.{h,cpp}. A side is the vector in
  storage order (worst price first, best at the back). The backward walk of \<^verbatim>\<open>ApplySide\<close> is a
  recursion on the parts of book and delta not yet seen, best first; \<open>Relocate\<close> is the forward
  merge of the touched region. The lemmas show that, for a delta with one entry per price,
  the walk and the relocation together implement the map update \<open>apply_delta\<close>, keep the side
  strictly sorted with no zero quantity, and report exactly the transitions that happened.
\<close>

section \<open>Applying one side of a delta\<close>

text \<open>\<^verbatim>\<open>ordered_from\<close>: no level is stored before the one that precedes it.\<close>

fun ordered_from :: "(u64 \<Rightarrow> u64 \<Rightarrow> bool) \<Rightarrow> PriceLevel list \<Rightarrow> bool" where
  "ordered_from storage_less (a # b # ls) =
     (\<not> storage_less (price b) (price a) \<and> ordered_from storage_less (b # ls))"
| "ordered_from storage_less _ = True"

text \<open>
  \<^verbatim>\<open>std::sort\<close> by price; the order it leaves between equal prices is not specified, and no
  result below depends on it.
\<close>

fun insort_level :: "(u64 \<Rightarrow> u64 \<Rightarrow> bool) \<Rightarrow> PriceLevel \<Rightarrow> PriceLevel list \<Rightarrow> PriceLevel list" where
  "insort_level storage_less x [] = [x]"
| "insort_level storage_less x (y # ys) =
     (if storage_less (price y) (price x) then y # insort_level storage_less x ys else x # y # ys)"

definition sort_levels :: "(u64 \<Rightarrow> u64 \<Rightarrow> bool) \<Rightarrow> PriceLevel list \<Rightarrow> PriceLevel list" where
  "sort_levels storage_less ls = foldr (insort_level storage_less) ls []"

text \<open>The delta in storage order: as it is, read backwards, or sorted into \<^verbatim>\<open>scratch_\<close>.\<close>

definition resolve_delta :: "(u64 \<Rightarrow> u64 \<Rightarrow> bool) \<Rightarrow> PriceLevel list \<Rightarrow> PriceLevel list" where
  "resolve_delta storage_less levels =
     (if ordered_from storage_less levels then levels
      else if ordered_from storage_less (rev levels) then rev levels
      else sort_levels storage_less levels)"

text \<open>\<^verbatim>\<open>changes->push_back\<close> when a change list is collected.\<close>

definition note_change :: "bool \<Rightarrow> LevelChange \<Rightarrow> LevelChange list \<Rightarrow> LevelChange list" where
  "note_change collect c cs = (if collect then c # cs else cs)"

record walk_result =
  w_seen :: "PriceLevel list"      \<comment> \<open>book levels passed, best first, with the quantities written in place\<close>
  w_rest :: "PriceLevel list"      \<comment> \<open>book levels not reached, best first\<close>
  w_changes :: "LevelChange list"
  w_inserts :: nat
  w_erases :: nat

text \<open>
  The walk from \<^verbatim>\<open>back()\<close>: the first list is \<^verbatim>\<open>side[i-1], ..., side[0]\<close>, the second
  \<^verbatim>\<open>delta(j-1), ..., delta(0)\<close>; the first two equations are the loop that drains the delta.
\<close>

fun apply_walk ::
    "(u64 \<Rightarrow> u64 \<Rightarrow> bool) \<Rightarrow> bool \<Rightarrow> PriceLevel list \<Rightarrow> PriceLevel list \<Rightarrow> walk_result" where
  "apply_walk storage_less collect book [] =
     \<lparr>w_seen = [], w_rest = book, w_changes = [], w_inserts = 0, w_erases = 0\<rparr>"
| "apply_walk storage_less collect [] (new_level # ds) =
     (let r = apply_walk storage_less collect [] ds in
      if qty new_level \<noteq> 0
      then r\<lparr>w_inserts := Suc (w_inserts r),
             w_changes := note_change collect
               \<lparr>lc_price = price new_level, old_qty = 0, new_qty = qty new_level\<rparr> (w_changes r)\<rparr>
      else r)"
| "apply_walk storage_less collect (book_level # bs) (new_level # ds) =
     (if storage_less (price book_level) (price new_level) then
        (let r = apply_walk storage_less collect (book_level # bs) ds in
         if qty new_level \<noteq> 0
         then r\<lparr>w_inserts := Suc (w_inserts r),
                w_changes := note_change collect
                  \<lparr>lc_price = price new_level, old_qty = 0, new_qty = qty new_level\<rparr> (w_changes r)\<rparr>
         else r)
      else if storage_less (price new_level) (price book_level) then
        (let r = apply_walk storage_less collect bs (new_level # ds) in
         r\<lparr>w_seen := book_level # w_seen r\<rparr>)
      else if qty new_level = 0 then
        (let r = apply_walk storage_less collect bs ds in
         r\<lparr>w_seen := book_level # w_seen r,
           w_erases := Suc (w_erases r),
           w_changes := note_change collect
             \<lparr>lc_price = price book_level, old_qty = qty book_level, new_qty = 0\<rparr> (w_changes r)\<rparr>)
      else
        (let r = apply_walk storage_less collect bs ds in
         if qty book_level \<noteq> qty new_level
         then r\<lparr>w_seen := book_level\<lparr>qty := qty new_level\<rparr> # w_seen r,
                w_changes := note_change collect
                  \<lparr>lc_price = price book_level, old_qty = qty book_level, new_qty = qty new_level\<rparr>
                  (w_changes r)\<rparr>
         else r\<lparr>w_seen := book_level # w_seen r\<rparr>))"

text \<open>The forward merge of the touched region with the delta, both in storage order.\<close>

fun merge_region :: "(u64 \<Rightarrow> u64 \<Rightarrow> bool) \<Rightarrow> PriceLevel list \<Rightarrow> PriceLevel list \<Rightarrow> PriceLevel list" where
  "merge_region storage_less book [] = book"
| "merge_region storage_less [] (d # ds) =
     (if qty d \<noteq> 0 then d # merge_region storage_less [] ds else merge_region storage_less [] ds)"
| "merge_region storage_less (b # bs) (d # ds) =
     (if storage_less (price b) (price d) then b # merge_region storage_less bs (d # ds)
      else if storage_less (price d) (price b) then
        (if qty d \<noteq> 0 then d # merge_region storage_less (b # bs) ds
         else merge_region storage_less (b # bs) ds)
      else (if qty d \<noteq> 0 then d # merge_region storage_less bs ds
            else merge_region storage_less bs ds))"

definition sizeof_PriceLevel :: nat where "sizeof_PriceLevel = 16"

text \<open>\<^verbatim>\<open>Relocate\<close>: rewrite \<^verbatim>\<open>side[deepest..end)\<close>; the second component is the bytes written back.\<close>

definition Relocate ::
    "(u64 \<Rightarrow> u64 \<Rightarrow> bool) \<Rightarrow> PriceLevel list \<Rightarrow> nat \<Rightarrow> PriceLevel list \<Rightarrow> PriceLevel list \<times> u64" where
  "Relocate storage_less side deepest delta =
     (let merged = merge_region storage_less (drop deepest side) delta
      in (take deepest side @ merged, of_nat (sizeof_PriceLevel * length merged)))"

record side_result =
  sr_side :: "PriceLevel list"
  sr_changes :: "LevelChange list"
  sr_bytes :: u64
  sr_applied :: u8      \<comment> \<open>increment of \<^verbatim>\<open>last_applied_sides_\<close>\<close>
  sr_fast :: u8         \<comment> \<open>increment of \<^verbatim>\<open>last_fast_path_sides_\<close>\<close>

definition ApplySide ::
    "(u64 \<Rightarrow> u64 \<Rightarrow> bool) \<Rightarrow> PriceLevel list \<Rightarrow> PriceLevel list \<Rightarrow> bool \<Rightarrow> side_result" where
  "ApplySide storage_less side levels collect =
     (if levels = [] then
        \<lparr>sr_side = side, sr_changes = [], sr_bytes = 0, sr_applied = 0, sr_fast = 0\<rparr>
      else
        let delta = resolve_delta storage_less levels;
            w = apply_walk storage_less collect (rev side) (rev delta);
            written = rev (w_rest w) @ rev (w_seen w);
            deepest = length (w_rest w)
        in if w_inserts w = 0 \<and> w_erases w = 0 then
             \<lparr>sr_side = written, sr_changes = w_changes w, sr_bytes = 0, sr_applied = 1, sr_fast = 1\<rparr>
           else
             (let (side', moved) = Relocate storage_less written deepest delta in
              \<lparr>sr_side = side', sr_changes = w_changes w, sr_bytes = moved,
               sr_applied = 1, sr_fast = 0\<rparr>))"

section \<open>The book\<close>

record FlatOrderBook =
  fb_venue :: VenueId
  fb_instrument :: InstrumentKey
  fb_last_seq :: u64
  fb_last_update_mono_ns :: i64
  fb_bids :: "PriceLevel list"
  fb_asks :: "PriceLevel list"
  fb_last_bid_changes :: "LevelChange list"
  fb_last_ask_changes :: "LevelChange list"
  fb_last_changes_complete :: bool
  fb_last_bytes_moved :: u64
  fb_total_bytes_moved :: u64
  fb_last_fast_path_sides :: u8
  fb_last_applied_sides :: u8

definition new_book :: "VenueId \<Rightarrow> InstrumentKey \<Rightarrow> FlatOrderBook" where
  "new_book venue instrument =
     \<lparr>fb_venue = venue, fb_instrument = instrument, fb_last_seq = 0, fb_last_update_mono_ns = 0,
      fb_bids = [], fb_asks = [], fb_last_bid_changes = [], fb_last_ask_changes = [],
      fb_last_changes_complete = False, fb_last_bytes_moved = 0, fb_total_bytes_moved = 0,
      fb_last_fast_path_sides = 0, fb_last_applied_sides = 0\<rparr>"

definition BestBid :: "FlatOrderBook \<Rightarrow> (PriceTicks \<times> QtyUnits) option" where
  "BestBid b = (if fb_bids b = [] then None
                else Some (price (last (fb_bids b)), qty (last (fb_bids b))))"

definition BestAsk :: "FlatOrderBook \<Rightarrow> (PriceTicks \<times> QtyUnits) option" where
  "BestAsk b = (if fb_asks b = [] then None
                else Some (price (last (fb_asks b)), qty (last (fb_asks b))))"

text \<open>The reverse views \<^verbatim>\<open>bids()\<close> and \<^verbatim>\<open>asks()\<close>: best first.\<close>

definition bids_view :: "FlatOrderBook \<Rightarrow> PriceLevel list" where
  "bids_view b = rev (fb_bids b)"

definition asks_view :: "FlatOrderBook \<Rightarrow> PriceLevel list" where
  "asks_view b = rev (fb_asks b)"

definition ApplyUpdate :: "FlatOrderBook \<Rightarrow> BookUpdate \<Rightarrow> FlatOrderBook" where
  "ApplyUpdate b update =
     (let collect = (\<not> bu_is_snapshot update);
          bids = (if bu_is_snapshot update then [] else fb_bids b);
          asks = (if bu_is_snapshot update then [] else fb_asks b);
          rb = ApplySide (<) bids (bu_bids update) collect;
          ra = ApplySide (\<lambda>x y. y < x) asks (bu_asks update) collect;
          moved = sr_bytes rb + sr_bytes ra
      in b\<lparr>fb_last_update_mono_ns := bu_recv_mono_ns update,
           fb_bids := sr_side rb,
           fb_asks := sr_side ra,
           fb_last_bid_changes := sr_changes rb,
           fb_last_ask_changes := sr_changes ra,
           fb_last_changes_complete := collect,
           fb_last_bytes_moved := moved,
           fb_total_bytes_moved := fb_total_bytes_moved b + moved,
           fb_last_fast_path_sides := sr_fast rb + sr_fast ra,
           fb_last_applied_sides := sr_applied rb + sr_applied ra,
           fb_last_seq := bu_seq update\<rparr>)"

section \<open>Specification: a side as a map from prices to quantities\<close>

definition side_lookup :: "PriceLevel list \<Rightarrow> PriceTicks \<Rightarrow> QtyUnits option" where
  "side_lookup ls p = map_option qty (find_key price ls p)"

definition apply_delta :: "(PriceTicks \<Rightarrow> QtyUnits option) \<Rightarrow> PriceLevel list \<Rightarrow> PriceTicks \<Rightarrow> QtyUnits option" where
  "apply_delta m ls p =
     (case side_lookup ls p of None \<Rightarrow> m p | Some q \<Rightarrow> if q = 0 then None else Some q)"

definition qty_at :: "(PriceTicks \<Rightarrow> QtyUnits option) \<Rightarrow> PriceTicks \<Rightarrow> QtyUnits" where
  "qty_at m p = (case m p of None \<Rightarrow> 0 | Some q \<Rightarrow> q)"

text \<open>The transition a price makes between two states of a side, if its quantity moved.\<close>

definition change_at :: "(u64 \<Rightarrow> u64 option) \<Rightarrow> (u64 \<Rightarrow> u64 option) \<Rightarrow> u64 \<Rightarrow> LevelChange option" where
  "change_at m m' p = (if qty_at m p = qty_at m' p then None
     else Some \<lparr>lc_price = p, old_qty = qty_at m p, new_qty = qty_at m' p\<rparr>)"

definition side_ok :: "(u64 \<Rightarrow> u64 \<Rightarrow> bool) \<Rightarrow> PriceLevel list \<Rightarrow> bool" where
  "side_ok before ls \<longleftrightarrow> sorted_wrt before (map price ls) \<and> (\<forall>l \<in> set ls. qty l \<noteq> 0)"

lemma side_lookup_Nil [simp]: "side_lookup [] p = None"
  by (simp add: side_lookup_def)

lemma side_lookup_Cons: "side_lookup (l # ls) p = (if price l = p then Some (qty l) else side_lookup ls p)"
  by (simp add: side_lookup_def find_key_Cons)

lemma side_lookup_append:
  "side_lookup (xs @ ys) p = (case side_lookup xs p of None \<Rightarrow> side_lookup ys p | Some q \<Rightarrow> Some q)"
  by (simp add: side_lookup_def find_key_append split: option.splits)

lemma side_lookup_None_iff: "side_lookup ls p = None \<longleftrightarrow> p \<notin> price ` set ls"
  by (simp add: side_lookup_def find_key_None_iff)

lemma side_lookup_rev: "distinct (map price ls) \<Longrightarrow> side_lookup (rev ls) p = side_lookup ls p"
  by (simp add: side_lookup_def find_key_rev)

lemma side_lookup_SomeD: "side_lookup ls p = Some q \<Longrightarrow> \<exists>l \<in> set ls. price l = p \<and> qty l = q"
  by (auto simp: side_lookup_def dest: find_key_SomeD)

lemma side_lookup_nonzero: "\<forall>l \<in> set ls. qty l \<noteq> 0 \<Longrightarrow> side_lookup ls p \<noteq> Some 0"
  by (auto dest: side_lookup_SomeD)

lemma apply_delta_Nil [simp]: "apply_delta m [] = m"
  by (simp add: apply_delta_def fun_eq_iff)

lemma price_level_eqI: "price (l :: PriceLevel) = price l' \<Longrightarrow> qty l = qty l' \<Longrightarrow> l = l'"
  by simp

context price_order
begin

lemma side_eqI:
  assumes "side_ok before xs" "side_ok before ys" "\<And>p. side_lookup xs p = side_lookup ys p"
  shows "xs = ys"
proof (rule sorted_key_eqI[where f = price])
  fix k
  show "find_key price xs k = find_key price ys k"
    using assms(3)[of k]
    by (auto simp: side_lookup_def map_option_case intro!: price_level_eqI
             split: option.splits dest: find_key_SomeD)
qed (use assms in \<open>auto simp: side_ok_def\<close>)

subsection \<open>Relocation\<close>

lemma set_merge_region:
  "x \<in> set (merge_region before bs ds) \<Longrightarrow> x \<in> set bs \<or> (x \<in> set ds \<and> qty x \<noteq> 0)"
  by (induction before bs ds rule: merge_region.induct) (auto split: if_splits)

lemma merge_region_sorted:
  "sorted_wrt before (map price bs) \<Longrightarrow> sorted_wrt before (map price ds) \<Longrightarrow>
   sorted_wrt before (map price (merge_region before bs ds))"
proof (induction bs ds rule: two_list_induct)
  case (ConsCons b bs d ds)
  then show ?case
    using not_less_eq[of "price b" "price d"]
    by (auto dest!: set_merge_region intro: trans)
qed (auto dest!: set_merge_region)

lemma merge_region_nonzero:
  "\<forall>l \<in> set bs. qty l \<noteq> 0 \<Longrightarrow> \<forall>l \<in> set (merge_region before bs ds). qty l \<noteq> 0"
  by (auto dest!: set_merge_region)

lemma side_lookup_before_None:
  "\<forall>l \<in> set ls. before p (price l) \<Longrightarrow> side_lookup ls p = None"
  by (auto simp: side_lookup_None_iff dest: neq)

lemma side_lookup_after_None:
  "\<forall>l \<in> set ls. before (price l) p \<Longrightarrow> side_lookup ls p = None"
  by (auto simp: side_lookup_None_iff dest: neq)

lemma merge_region_lookup:
  "sorted_wrt before (map price bs) \<Longrightarrow> sorted_wrt before (map price ds) \<Longrightarrow>
   side_lookup (merge_region before bs ds) p = apply_delta (side_lookup bs) ds p"
proof (induction bs ds rule: two_list_induct)
  case (NilCons d ds)
  then show ?case
    using side_lookup_before_None[of ds "price d"] set_merge_region[of _ "[]" ds]
    by (auto simp: side_lookup_Cons apply_delta_def)
next
  case (ConsCons b bs d ds)
  consider "before (price b) (price d)" | "before (price d) (price b)" | "price b = price d"
    using total by blast
  then show ?case
  proof cases
    case 1
    then have "side_lookup (d # ds) (price b) = None"
      using ConsCons.prems by (intro side_lookup_before_None) (auto intro: trans)
    then show ?thesis using 1 ConsCons by (auto simp: side_lookup_Cons apply_delta_def)
  next
    case 2
    then have "side_lookup (b # bs) (price d) = None" "side_lookup ds (price d) = None"
      using ConsCons.prems by (auto intro!: side_lookup_before_None intro: trans)
    then show ?thesis using 2 asym[OF 2] ConsCons
      by (auto simp: side_lookup_Cons apply_delta_def split: option.splits)
  next
    case 3
    then have "side_lookup bs (price d) = None" "side_lookup ds (price d) = None"
      using ConsCons.prems by (auto intro!: side_lookup_before_None)
    then show ?thesis using 3 ConsCons irrefl
      by (auto simp: side_lookup_Cons apply_delta_def split: option.splits)
  qed
qed simp


subsection \<open>The backward walk\<close>

lemma walk_prices:
  "map price (w_seen (apply_walk before c bs ds)) @ map price (w_rest (apply_walk before c bs ds)) = map price bs"
  by (induction bs ds rule: two_list_induct) (auto simp: Let_def)

lemma walk_rest_suffix: "\<exists>pre. bs = pre @ w_rest (apply_walk before c bs ds)"
proof (induction bs ds rule: two_list_induct)
  case (ConsCons b bs d ds)
  then show ?case by (auto simp: Let_def) (metis append_Cons)+
qed (auto simp: Let_def)

lemma walk_rest_deeper:
  "sorted_wrt (\<lambda>a b. before b a) (map price bs) \<Longrightarrow> sorted_wrt (\<lambda>a b. before b a) (map price ds) \<Longrightarrow>
   ds \<noteq> [] \<Longrightarrow> b \<in> set (w_rest (apply_walk before c bs ds)) \<Longrightarrow> d \<in> set ds \<Longrightarrow> before (price b) (price d)"
proof (induction bs ds arbitrary: d rule: two_list_induct)
  case (NilCons d' ds)
  have "w_rest (apply_walk before c [] (d' # ds)) = []" for d' ds
    using walk_rest_suffix[of "[]" c "d' # ds"] by simp
  then show ?case using NilCons.prems by simp
next
  case (ConsCons b' bs d' ds)
  have worse: "before (price b) (price d')" if "b \<in> set (b' # bs)" "before (price b') (price d')"
    using that ConsCons.prems by (auto intro: trans)
  have worse': "before (price b) (price d')" if "b \<in> set bs" "price b' = price d'"
    using that ConsCons.prems by auto
  obtain pre1 pre2 where suf:
      "b' # bs = pre1 @ w_rest (apply_walk before c (b' # bs) ds)"
      "bs = pre2 @ w_rest (apply_walk before c bs ds)"
    using walk_rest_suffix by meson
  show ?case
  proof (cases "before (price b') (price d')")
    case True
    then have in': "b \<in> set (w_rest (apply_walk before c (b' # bs) ds))"
      using ConsCons.prems(4) by (auto simp: Let_def split: if_splits)
    then have "b \<in> set (b' # bs)" using suf(1) by (metis Un_iff set_append)
    then show ?thesis
      using ConsCons.prems ConsCons.IH(2) in' worse True by (cases "ds = []") auto
  next
    case False
    show ?thesis
    proof (cases "before (price d') (price b')")
      case True
      then show ?thesis using False ConsCons.prems ConsCons.IH(1) by (auto simp: Let_def)
    next
      case nb: False
      then have eq: "price b' = price d'" using False not_less_eq by blast
      have in': "b \<in> set (w_rest (apply_walk before c bs ds))"
        using ConsCons.prems(4) False nb by (auto simp: Let_def split: if_splits)
      then have "b \<in> set bs" using suf(2) by (metis Un_iff set_append)
      then show ?thesis
        using ConsCons.prems ConsCons.IH(3) in' worse' eq by (cases "ds = []") auto
    qed
  qed
qed simp

text \<open>The three branches of one step of the walk, with what sortedness says of the heads.\<close>

lemma walk_cases [case_names Insert Skip Match]:
  assumes "sorted_wrt (\<lambda>a b. before b a) (map price (b # bs))"
    and "sorted_wrt (\<lambda>a b. before b a) (map price (d # ds))"
  obtains "before (price b) (price d)" "side_lookup (b # bs) (price d) = None"
      "side_lookup ds (price d) = None"
  | "\<not> before (price b) (price d)" "before (price d) (price b)" "side_lookup (d # ds) (price b) = None"
  | "price b = price d" "side_lookup bs (price d) = None" "side_lookup ds (price d) = None"
proof -
  have ds: "side_lookup ds (price d) = None" using assms(2) by (auto intro!: side_lookup_after_None)
  consider "before (price b) (price d)" | "before (price d) (price b)" | "price b = price d"
    using total by blast
  then show thesis
  proof cases
    case 1
    then have "side_lookup (b # bs) (price d) = None"
      using assms(1) by (intro side_lookup_after_None) (auto intro: trans)
    then show thesis using 1 ds that(1) by blast
  next
    case 2
    then have "side_lookup (d # ds) (price b) = None"
      using assms(2) by (intro side_lookup_after_None) (auto intro: trans)
    then show thesis using 2 asym that(2) by blast
  next
    case 3
    then show thesis using assms(1) ds by (intro that(3)) (auto intro!: side_lookup_after_None)
  qed
qed

lemma walk_written_lookup:
  "sorted_wrt (\<lambda>a b. before b a) (map price bs) \<Longrightarrow> sorted_wrt (\<lambda>a b. before b a) (map price ds) \<Longrightarrow>
   side_lookup (w_seen (apply_walk before c bs ds) @ w_rest (apply_walk before c bs ds)) p =
     (case side_lookup bs p of None \<Rightarrow> None
      | Some q \<Rightarrow> (case side_lookup ds p of None \<Rightarrow> Some q | Some q' \<Rightarrow> Some (if q' = 0 then q else q')))"
proof (induction bs ds rule: two_list_induct)
  case (Nil bs)
  then show ?case by (simp split: option.splits)
next
  case (NilCons d ds)
  then show ?case by (simp add: Let_def)
next
  case (ConsCons b bs d ds)
  from ConsCons.prems show ?case
    by (cases rule: walk_cases)
       (use ConsCons irrefl in \<open>auto simp: Let_def side_lookup_Cons split: option.splits if_splits\<close>)
qed

text \<open>No insert and no erase: the delta only rewrote quantities the book already held.\<close>

lemma walk_fast_path:
  "sorted_wrt (\<lambda>a b. before b a) (map price bs) \<Longrightarrow> sorted_wrt (\<lambda>a b. before b a) (map price ds) \<Longrightarrow>
   w_inserts (apply_walk before c bs ds) = 0 \<Longrightarrow> w_erases (apply_walk before c bs ds) = 0 \<Longrightarrow>
   side_lookup ds p = Some q \<Longrightarrow> (q = 0 \<longleftrightarrow> side_lookup bs p = None)"
proof (induction bs ds rule: two_list_induct)
  case (ConsCons b bs d ds)
  from ConsCons.prems(1,2) show ?case
    by (cases rule: walk_cases)
       (use ConsCons irrefl in \<open>auto simp: Let_def side_lookup_Cons split: if_splits\<close>)
qed (auto simp: Let_def side_lookup_Cons split: if_splits)

text \<open>The collected changes: one per price whose quantity moved, and nothing else.\<close>

lemma walk_change_price:
  "x \<in> set (w_changes (apply_walk before c bs ds)) \<Longrightarrow> lc_price x \<in> price ` set ds"
proof (induction bs ds rule: two_list_induct)
  case (ConsCons b bs d ds)
  then show ?case using not_less_eq[of "price b" "price d"]
    by (auto simp: Let_def note_change_def split: if_splits)
qed (auto simp: Let_def note_change_def split: if_splits)

lemma walk_changes_sorted:
  "sorted_wrt (\<lambda>a b. before b a) (map price ds) \<Longrightarrow>
   sorted_wrt (\<lambda>a b. before b a) (map lc_price (w_changes (apply_walk before c bs ds)))"
proof (induction bs ds rule: two_list_induct)
  case (NilCons d ds)
  then show ?case by (auto simp: Let_def note_change_def dest!: walk_change_price)
next
  case (ConsCons b bs d ds)
  then show ?case
    using not_less_eq[of "price b" "price d"]
    by (auto simp: Let_def note_change_def dest!: walk_change_price)
qed simp

lemma walk_changes_exact:
  "sorted_wrt (\<lambda>a b. before b a) (map price bs) \<Longrightarrow> sorted_wrt (\<lambda>a b. before b a) (map price ds) \<Longrightarrow>
   \<forall>l \<in> set bs. qty l \<noteq> 0 \<Longrightarrow>
   find_key lc_price (w_changes (apply_walk before True bs ds)) p =
     change_at (side_lookup bs) (apply_delta (side_lookup bs) ds) p"
proof (induction bs ds rule: two_list_induct)
  case (NilCons d ds)
  then show ?case
    using side_lookup_after_None[of ds "price d"]
    by (auto simp: Let_def note_change_def find_key_Cons change_at_def qty_at_def apply_delta_def side_lookup_Cons)
next
  case (ConsCons b bs d ds)
  from ConsCons.prems(1,2) show ?case
    by (cases rule: walk_cases)
       (use ConsCons irrefl in \<open>auto simp: Let_def note_change_def find_key_Cons change_at_def qty_at_def
          apply_delta_def side_lookup_Cons split: option.splits if_splits\<close>)
qed (simp add: change_at_def)


subsection \<open>The delta in storage order\<close>

lemma ordered_from_sorted:
  "ordered_from before ls \<Longrightarrow> distinct (map price ls) \<Longrightarrow> sorted_wrt before (map price ls)"
proof (induction ls)
  case (Cons a ls)
  show ?case
  proof (cases ls)
    case (Cons b ls')
    then have "before (price a) (price b)"
      using Cons.prems total by auto
    moreover have "sorted_wrt before (map price ls)" using Cons.IH Cons.prems Cons by simp
    ultimately show ?thesis using Cons by (auto intro: trans)
  qed simp
qed simp

lemma mset_insort_level [simp]: "mset (insort_level before x ls) = add_mset x (mset ls)"
  by (induction ls) auto

lemma mset_sort_levels: "mset (sort_levels before ls) = mset ls"
  by (induction ls) (auto simp: sort_levels_def)

lemma insort_level_sorted:
  "sorted_wrt before (map price ls) \<Longrightarrow> price x \<notin> price ` set ls \<Longrightarrow>
   sorted_wrt before (map price (insort_level before x ls))"
proof (induction ls)
  case (Cons y ls)
  have "set (insort_level before x ls) = insert x (set ls)"
    by (metis mset_insort_level set_mset_add_mset_insert set_mset_mset)
  then show ?case using Cons total[of "price x" "price y"] by (auto intro: trans)
qed simp

lemma sort_levels_sorted:
  "distinct (map price ls) \<Longrightarrow> sorted_wrt before (map price (sort_levels before ls))"
proof (induction ls)
  case (Cons x ls)
  have "set (sort_levels before ls) = set ls"
    by (metis mset_sort_levels set_mset_mset)
  then show ?case using Cons insort_level_sorted[of "sort_levels before ls" x]
    by (simp add: sort_levels_def)
qed (simp add: sort_levels_def)

lemma resolve_delta_mset: "mset (resolve_delta before ls) = mset ls"
  by (simp add: resolve_delta_def mset_sort_levels)

lemma resolve_delta_sorted:
  assumes "distinct (map price ls)"
  shows "sorted_wrt before (map price (resolve_delta before ls))"
  using assms ordered_from_sorted[of ls] ordered_from_sorted[of "rev ls"] sort_levels_sorted[of ls]
  by (simp add: resolve_delta_def flip: rev_map)

lemma resolve_delta_lookup:
  "distinct (map price ls) \<Longrightarrow> side_lookup (resolve_delta before ls) p = side_lookup ls p"
  using find_key_perm[of price ls "resolve_delta before ls"] resolve_delta_mset
  by (simp add: side_lookup_def)

subsection \<open>One side, whole\<close>

lemma apply_delta_cong:
  "(\<And>p. side_lookup ds p = side_lookup ds' p) \<Longrightarrow> apply_delta m ds = apply_delta m ds'"
  by (simp add: apply_delta_def fun_eq_iff)

lemma sorted_rev_levels:
  "sorted_wrt before (map price ls) \<Longrightarrow> sorted_wrt (\<lambda>a b. before b a) (map price (rev ls))"
  by (simp add: sorted_wrt_rev flip: rev_map)

lemma side_ok_rev: "side_ok before ls \<Longrightarrow> sorted_wrt (\<lambda>a b. before b a) (map price (rev ls))"
  by (simp add: side_ok_def sorted_rev_levels)

lemma side_ok_distinct: "side_ok before ls \<Longrightarrow> distinct (map price ls)"
  by (simp add: side_ok_def sorted_distinct)

lemma walk_written_prices:
  assumes w: "w = apply_walk before c (rev side) ds"
  shows "map price (rev (w_rest w) @ rev (w_seen w)) = map price side"
proof -
  have "map price (rev (w_rest w) @ rev (w_seen w)) = rev (map price (w_seen w) @ map price (w_rest w))"
    by (simp add: rev_map)
  also have "\<dots> = map price side" unfolding w walk_prices by (simp flip: rev_map)
  finally show ?thesis .
qed

lemma walk_written:
  assumes ok: "side_ok before side" and srt: "sorted_wrt before (map price delta)"
    and w: "w = apply_walk before c (rev side) (rev delta)"
  shows "side_lookup (rev (w_rest w) @ rev (w_seen w)) p =
     (case side_lookup side p of None \<Rightarrow> None
      | Some q \<Rightarrow> (case side_lookup delta p of None \<Rightarrow> Some q | Some q' \<Rightarrow> Some (if q' = 0 then q else q')))"
proof -
  have di: "distinct (map price (rev (w_rest w) @ rev (w_seen w)))"
    using walk_written_prices[OF w] side_ok_distinct[OF ok] by simp
  have "side_lookup (rev (rev (w_rest w) @ rev (w_seen w))) p = side_lookup (rev (w_rest w) @ rev (w_seen w)) p"
    by (rule side_lookup_rev[OF di])
  moreover have "sorted_wrt (\<lambda>a b. before b a) (map price (rev delta))"
    by (rule sorted_rev_levels[OF srt])
  ultimately show ?thesis
    using walk_written_lookup[OF side_ok_rev[OF ok], of "rev delta" c p]
    by (simp add: w side_lookup_rev[OF side_ok_distinct[OF ok]] side_lookup_rev[OF sorted_distinct[OF srt]]
             cong: option.case_cong)
qed

lemma walk_relocated:
  assumes ok: "side_ok before side" and srt: "sorted_wrt before (map price delta)" and ne: "delta \<noteq> []"
    and w: "w = apply_walk before c (rev side) (rev delta)"
  defines "out \<equiv> rev (w_rest w) @ merge_region before (rev (w_seen w)) delta"
  shows "sorted_wrt before (map price out)"
    and "side_lookup out p = apply_delta (side_lookup side) delta p"
proof -
  have prices: "map price (rev (w_rest w) @ rev (w_seen w)) = map price side"
    by (rule walk_written_prices[OF w])
  then have srtw: "sorted_wrt before (map price (rev (w_rest w) @ rev (w_seen w)))"
    using ok unfolding side_ok_def by metis
  then have seen: "sorted_wrt before (map price (rev (w_seen w)))"
    and rest: "sorted_wrt before (map price (rev (w_rest w)))"
    and rs: "\<And>x y. x \<in> set (w_rest w) \<Longrightarrow> y \<in> set (w_seen w) \<Longrightarrow> before (price x) (price y)"
    by (auto simp: sorted_wrt_append)
  have deeper: "before (price b) (price d)" if "b \<in> set (w_rest w)" "d \<in> set delta" for b d
    using walk_rest_deeper[OF side_ok_rev[OF ok] sorted_rev_levels[OF srt], of b c d] ne that
    by (simp add: w)
  show "sorted_wrt before (map price out)"
    using rest rs deeper merge_region_sorted[OF seen srt]
    unfolding out_def by (auto simp: sorted_wrt_append dest!: set_merge_region)
  have wr: "side_lookup (rev (w_rest w) @ rev (w_seen w)) p =
     (case side_lookup side p of None \<Rightarrow> None
      | Some q \<Rightarrow> (case side_lookup delta p of None \<Rightarrow> Some q | Some q' \<Rightarrow> Some (if q' = 0 then q else q')))"
    by (rule walk_written[OF ok srt w])
  show "side_lookup out p = apply_delta (side_lookup side) delta p"
  proof (cases "side_lookup (rev (w_rest w)) p")
    case None
    then show ?thesis
      using wr merge_region_lookup[OF seen srt, of p]
      by (auto simp: out_def side_lookup_append apply_delta_def split: option.splits)
  next
    case (Some q)
    then obtain l where "l \<in> set (w_rest w)" "price l = p" by (auto dest!: side_lookup_SomeD)
    then have "side_lookup delta p = None" using deeper by (intro side_lookup_before_None) blast
    then show ?thesis using Some wr
      by (auto simp: out_def side_lookup_append apply_delta_def split: option.splits)
  qed
qed

lemma ApplySide_lookup_sorted:
  assumes ok: "side_ok before side" and di: "distinct (map price levels)"
  shows "sorted_wrt before (map price (sr_side (ApplySide before side levels c)))"
    and "side_lookup (sr_side (ApplySide before side levels c)) p = apply_delta (side_lookup side) levels p"
proof -
  define delta where "delta = resolve_delta before levels"
  define w where "w = apply_walk before c (rev side) (rev delta)"
  have srt: "sorted_wrt before (map price delta)" unfolding delta_def by (rule resolve_delta_sorted[OF di])
  have lk: "apply_delta m levels = apply_delta m delta" for m
    unfolding delta_def by (rule apply_delta_cong) (simp add: resolve_delta_lookup[OF di])
  have ne: "levels \<noteq> [] \<Longrightarrow> delta \<noteq> []"
    using resolve_delta_mset[of levels] unfolding delta_def by (metis mset_zero_iff)
  have e: "levels = [] \<Longrightarrow> delta = []" by (simp add: delta_def resolve_delta_def)
  have prices: "map price (rev (w_rest w) @ rev (w_seen w)) = map price side"
    by (rule walk_written_prices[OF w_def])
  have fast: "side_lookup (rev (w_rest w) @ rev (w_seen w)) p = apply_delta (side_lookup side) delta p"
    if "w_inserts w = 0" "w_erases w = 0"
    using that walk_written[OF ok srt w_def, of p]
      walk_fast_path[OF side_ok_rev[OF ok] sorted_rev_levels[OF srt], of c p]
    by (auto simp: apply_delta_def side_lookup_rev[OF side_ok_distinct[OF ok]]
               side_lookup_rev[OF sorted_distinct[OF srt]] simp flip: w_def split: option.splits)
  note res = walk_relocated[OF ok srt _ w_def]
  show "sorted_wrt before (map price (sr_side (ApplySide before side levels c)))"
    using prices ok ne res(1)
    by (simp add: ApplySide_def Let_def Relocate_def side_ok_def flip: delta_def w_def)
  show "side_lookup (sr_side (ApplySide before side levels c)) p = apply_delta (side_lookup side) levels p"
    using fast ne e res(2)[of p] lk
    by (cases "levels = []") (simp_all add: ApplySide_def Let_def Relocate_def flip: delta_def w_def)
qed

lemma ApplySide_ok [inv_intros]:
  assumes ok: "side_ok before side" and di: "distinct (map price levels)"
  shows "side_ok before (sr_side (ApplySide before side levels c))"
proof -
  let ?r = "sr_side (ApplySide before side levels c)"
  have srt: "sorted_wrt before (map price ?r)" by (rule ApplySide_lookup_sorted(1)[OF ok di])
  have "qty l \<noteq> 0" if "l \<in> set ?r" for l
  proof
    assume z: "qty l = 0"
    have "side_lookup ?r (price l) = Some 0"
      using that z sorted_distinct[OF srt] by (auto simp: side_lookup_def find_key_Some_iff)
    then have "apply_delta (side_lookup side) levels (price l) = Some 0"
      by (simp add: ApplySide_lookup_sorted(2)[OF ok di])
    then show False
      using side_lookup_nonzero[of side "price l"] ok
      by (auto simp: apply_delta_def side_ok_def split: option.splits if_splits)
  qed
  with srt show ?thesis by (simp add: side_ok_def)
qed

lemma ApplySide_changes:
  assumes ok: "side_ok before side" and di: "distinct (map price levels)"
  shows "find_key lc_price (sr_changes (ApplySide before side levels True)) p =
           change_at (side_lookup side) (apply_delta (side_lookup side) levels) p"
    and "sorted_wrt (\<lambda>a b. before b a) (map lc_price (sr_changes (ApplySide before side levels c)))"
proof -
  define delta where "delta = resolve_delta before levels"
  have srt: "sorted_wrt (\<lambda>a b. before b a) (map price (rev delta))"
    unfolding delta_def by (rule sorted_rev_levels[OF resolve_delta_sorted[OF di]])
  have lk: "apply_delta m levels = apply_delta m (rev delta)" for m
    using srt resolve_delta_lookup[OF di] resolve_delta_sorted[OF di]
    by (intro apply_delta_cong) (simp add: delta_def side_lookup_rev[OF sorted_distinct])
  have sl: "side_lookup (rev side) = side_lookup side"
    by (simp add: fun_eq_iff side_lookup_rev[OF side_ok_distinct[OF ok]])
  have "find_key lc_price (w_changes (apply_walk before True (rev side) (rev delta))) p =
        change_at (side_lookup side) (apply_delta (side_lookup side) levels) p"
    using walk_changes_exact[OF side_ok_rev[OF ok] srt, of p] ok by (simp add: lk sl side_ok_def)
  then show "find_key lc_price (sr_changes (ApplySide before side levels True)) p =
           change_at (side_lookup side) (apply_delta (side_lookup side) levels) p"
    by (simp add: ApplySide_def Let_def Relocate_def change_at_def flip: delta_def)
  show "sorted_wrt (\<lambda>a b. before b a) (map lc_price (sr_changes (ApplySide before side levels c)))"
    using walk_changes_sorted[OF srt, of c "rev side"]
    by (simp add: ApplySide_def Let_def Relocate_def flip: delta_def)
qed

lemma side_lookup_tail:
  "sorted_wrt (\<lambda>a b. before b a) (map price (d # ds)) \<Longrightarrow> side_lookup ds p = Some q \<Longrightarrow>
   side_lookup (d # ds) p = Some q"
  using irrefl by (auto simp: side_lookup_Cons dest!: side_lookup_SomeD)

lemma walk_fast_path_conv:
  "sorted_wrt (\<lambda>a b. before b a) (map price bs) \<Longrightarrow> sorted_wrt (\<lambda>a b. before b a) (map price ds) \<Longrightarrow>
   (\<And>p q. side_lookup ds p = Some q \<Longrightarrow> (q = 0 \<longleftrightarrow> side_lookup bs p = None)) \<Longrightarrow>
   w_inserts (apply_walk before c bs ds) = 0 \<and> w_erases (apply_walk before c bs ds) = 0"
proof (induction bs ds rule: two_list_induct)
  case (NilCons d ds)
  have "qty d = 0" using NilCons.prems(3)[of "price d"] by (simp add: side_lookup_Cons)
  moreover have "q = 0 \<longleftrightarrow> side_lookup [] p = None" if "side_lookup ds p = Some q" for p q
    by (rule NilCons.prems(3)[OF side_lookup_tail[OF NilCons.prems(2) that]])
  ultimately show ?case using NilCons by (auto simp: Let_def)
next
  case (ConsCons b bs d ds)
  have dq: "qty d = 0 \<longleftrightarrow> side_lookup (b # bs) (price d) = None"
    using ConsCons.prems(3)[of "price d"] by (simp add: side_lookup_Cons)
  have ds: "q = 0 \<longleftrightarrow> side_lookup (b # bs) p = None" if "side_lookup ds p = Some q" for p q
    by (rule ConsCons.prems(3)[OF side_lookup_tail[OF ConsCons.prems(2) that]])
  from ConsCons.prems(1,2) show ?case
  proof (cases rule: walk_cases)
    case Insert
    then show ?thesis using ConsCons.IH(2) ConsCons.prems ds dq by (auto simp: Let_def)
  next
    case Skip
    have "q = 0 \<longleftrightarrow> side_lookup bs p = None" if "side_lookup (d # ds) p = Some q" for p q
      using that ConsCons.prems(3)[of p q] Skip by (auto simp: side_lookup_Cons split: if_splits)
    then show ?thesis using ConsCons.IH(1) ConsCons.prems Skip by (auto simp: Let_def)
  next
    case Match
    have "q = 0 \<longleftrightarrow> side_lookup bs p = None" if "side_lookup ds p = Some q" for p q
      using that ds[of p q] Match by (auto simp: side_lookup_Cons split: if_splits)
    then show ?thesis using ConsCons.IH(3) ConsCons.prems Match dq irrefl by (auto simp: Let_def side_lookup_Cons)
  qed
qed simp

text \<open>The in-place path is taken exactly when no price enters or leaves the side.\<close>

lemma ApplySide_fast_iff:
  assumes ok: "side_ok before side" and di: "distinct (map price levels)" and ne: "levels \<noteq> []"
  shows "sr_fast (ApplySide before side levels c) = 1 \<longleftrightarrow>
    (\<forall>p. side_lookup side p = None \<longleftrightarrow> apply_delta (side_lookup side) levels p = None)"
proof -
  define delta where "delta = resolve_delta before levels"
  have srt: "sorted_wrt before (map price delta)" unfolding delta_def by (rule resolve_delta_sorted[OF di])
  define w where "w = apply_walk before c (rev side) (rev delta)"
  have lk: "side_lookup (rev side) = side_lookup side" "side_lookup (rev delta) = side_lookup levels"
    using resolve_delta_lookup[OF di]
    by (simp_all add: fun_eq_iff delta_def side_lookup_rev[OF side_ok_distinct[OF ok]]
          side_lookup_rev[OF sorted_distinct[OF resolve_delta_sorted[OF di]]])
  have "w_inserts w = 0 \<and> w_erases w = 0 \<longleftrightarrow>
        (\<forall>p q. side_lookup levels p = Some q \<longrightarrow> (q = 0 \<longleftrightarrow> side_lookup side p = None))"
    (is "?w \<longleftrightarrow> ?d")
  proof
    assume ?w
    then show ?d
      using walk_fast_path[OF side_ok_rev[OF ok] sorted_rev_levels[OF srt], of c, folded w_def, unfolded lk]
      by blast
  next
    assume ?d
    then show ?w
      using walk_fast_path_conv[OF side_ok_rev[OF ok] sorted_rev_levels[OF srt], of c, folded w_def, unfolded lk]
      by blast
  qed
  also have "\<dots> \<longleftrightarrow> (\<forall>p. side_lookup side p = None \<longleftrightarrow> apply_delta (side_lookup side) levels p = None)"
    by (rule iff_allI) (auto simp: apply_delta_def split: option.splits)
  finally have iff: "w_inserts w = 0 \<and> w_erases w = 0 \<longleftrightarrow>
    (\<forall>p. side_lookup side p = None \<longleftrightarrow> apply_delta (side_lookup side) levels p = None)" .
  have "sr_fast (ApplySide before side levels c) = (if w_inserts w = 0 \<and> w_erases w = 0 then 1 else 0)"
    using ne by (simp add: ApplySide_def Let_def Relocate_def flip: delta_def w_def)
  then show ?thesis unfolding iff by simp
qed

lemma ApplySide_fast_bytes:
  "sr_fast (ApplySide before side levels c) = 1 \<Longrightarrow> sr_bytes (ApplySide before side levels c) = 0"
  by (auto simp: ApplySide_def Let_def Relocate_def split: if_splits)

end

section \<open>The whole book\<close>

definition bid_lookup :: "FlatOrderBook \<Rightarrow> PriceTicks \<Rightarrow> QtyUnits option" where
  "bid_lookup b = side_lookup (fb_bids b)"

definition ask_lookup :: "FlatOrderBook \<Rightarrow> PriceTicks \<Rightarrow> QtyUnits option" where
  "ask_lookup b = side_lookup (fb_asks b)"

definition book_ok :: "FlatOrderBook \<Rightarrow> bool" where
  "book_ok b \<longleftrightarrow> side_ok (<) (fb_bids b) \<and> side_ok (\<lambda>x y. y < x) (fb_asks b)
     \<and> 0 \<notin> price ` set (fb_bids b) \<and> 0 \<notin> price ` set (fb_asks b)"

lemma side_ok_Nil [simp]: "side_ok before []"
  by (simp add: side_ok_def)

lemma new_book_ok [simp, inv_intros]: "book_ok (new_book v i)"
  by (simp add: book_ok_def new_book_def)

lemma price_free: "side_lookup ls 0 = None \<longleftrightarrow> 0 \<notin> price ` set ls"
  by (rule side_lookup_None_iff)

lemma apply_delta_zero_price:
  "0 \<notin> price ` set ls \<Longrightarrow> m 0 = None \<Longrightarrow> apply_delta m ls 0 = None"
  by (simp add: apply_delta_def flip: price_free)

lemma bid_lookup_ApplyUpdate:
  "book_ok b \<Longrightarrow> wf_update u \<Longrightarrow>
   bid_lookup (ApplyUpdate b u) = apply_delta (if bu_is_snapshot u then \<lambda>_. None else bid_lookup b) (bu_bids u)"
  by (auto simp: fun_eq_iff bid_lookup_def ApplyUpdate_def Let_def book_ok_def wf_update_def wf_levels_def
                 up.ApplySide_lookup_sorted(2) apply_delta_def
           split: option.splits)

lemma ask_lookup_ApplyUpdate:
  "book_ok b \<Longrightarrow> wf_update u \<Longrightarrow>
   ask_lookup (ApplyUpdate b u) = apply_delta (if bu_is_snapshot u then \<lambda>_. None else ask_lookup b) (bu_asks u)"
  by (auto simp: fun_eq_iff ask_lookup_def ApplyUpdate_def Let_def book_ok_def wf_update_def wf_levels_def
                 down.ApplySide_lookup_sorted(2) apply_delta_def
           split: option.splits)

lemma ApplyUpdate_ok [inv_intros]:
  assumes "book_ok b" "wf_update u"
  shows "book_ok (ApplyUpdate b u)"
proof -
  have "side_ok (<) (fb_bids (ApplyUpdate b u))" "side_ok (\<lambda>x y. y < x) (fb_asks (ApplyUpdate b u))"
    using assms
    by (auto simp: ApplyUpdate_def Let_def book_ok_def wf_update_def wf_levels_def
             intro!: up.ApplySide_ok down.ApplySide_ok)
  moreover have "bid_lookup (ApplyUpdate b u) 0 = None" "ask_lookup (ApplyUpdate b u) 0 = None"
    using assms unfolding bid_lookup_ApplyUpdate[OF assms] ask_lookup_ApplyUpdate[OF assms]
    by (auto intro!: apply_delta_zero_price
             simp: wf_update_def wf_levels_def book_ok_def bid_lookup_def ask_lookup_def price_free)
  ultimately show ?thesis by (simp add: book_ok_def bid_lookup_def ask_lookup_def price_free)
qed

text \<open>What an incremental update reports: exactly the prices whose quantity moved, best first.\<close>

lemma ApplyUpdate_bid_changes:
  assumes "book_ok b" "wf_update u" "\<not> bu_is_snapshot u"
  shows "find_key lc_price (fb_last_bid_changes (ApplyUpdate b u)) p =
           change_at (bid_lookup b) (bid_lookup (ApplyUpdate b u)) p"
    and "sorted_wrt (\<lambda>x y. y < x) (map lc_price (fb_last_bid_changes (ApplyUpdate b u)))"
  using assms up.ApplySide_changes[of "fb_bids b" "bu_bids u"]
  by (simp_all add: bid_lookup_ApplyUpdate[OF assms(1,2)])
     (simp_all add: ApplyUpdate_def Let_def book_ok_def wf_update_def wf_levels_def bid_lookup_def)

lemma ApplyUpdate_ask_changes:
  assumes "book_ok b" "wf_update u" "\<not> bu_is_snapshot u"
  shows "find_key lc_price (fb_last_ask_changes (ApplyUpdate b u)) p =
           change_at (ask_lookup b) (ask_lookup (ApplyUpdate b u)) p"
    and "sorted_wrt (<) (map lc_price (fb_last_ask_changes (ApplyUpdate b u)))"
  using assms down.ApplySide_changes[of "fb_asks b" "bu_asks u"]
  by (simp_all add: ask_lookup_ApplyUpdate[OF assms(1,2)])
     (simp_all add: ApplyUpdate_def Let_def book_ok_def wf_update_def wf_levels_def ask_lookup_def)

lemma ApplyUpdate_complete [simp]: "fb_last_changes_complete (ApplyUpdate b u) \<longleftrightarrow> \<not> bu_is_snapshot u"
  by (simp add: ApplyUpdate_def Let_def)

lemma ApplyUpdate_snapshot_changes:
  "bu_is_snapshot u \<Longrightarrow> fb_last_bid_changes (ApplyUpdate b u) = [] \<and> fb_last_ask_changes (ApplyUpdate b u) = []"
proof -
  have w: "w_changes (apply_walk lt False bs ds) = []" for lt bs ds
    by (induction bs ds rule: two_list_induct) (auto simp: Let_def note_change_def)
  assume "bu_is_snapshot u"
  then show ?thesis
    by (simp add: ApplyUpdate_def ApplySide_def Let_def Relocate_def w)
qed

lemma sorted_last_extreme:
  "sorted_wrt lt (map price ls) \<Longrightarrow> l \<in> set ls \<Longrightarrow> l \<noteq> last ls \<Longrightarrow> lt (price l) (price (last ls))"
  by (induction ls rule: rev_induct) (auto simp: sorted_wrt_append)

lemma BestBid_Some:
  assumes "book_ok b" "BestBid b = Some (p, q)"
  shows "bid_lookup b p = Some q \<and> (\<forall>p' q'. bid_lookup b p' = Some q' \<longrightarrow> p' \<le> p)"
proof -
  have srt: "sorted_wrt (<) (map price (fb_bids b))" and ne: "fb_bids b \<noteq> []"
    and pq: "p = price (last (fb_bids b))" "q = qty (last (fb_bids b))"
    using assms by (auto simp: book_ok_def side_ok_def BestBid_def split: if_splits)
  have "find_key price (fb_bids b) p = Some (last (fb_bids b))"
    using up.sorted_distinct[OF srt] ne pq by (subst find_key_Some_iff) auto
  moreover have "p' \<le> p" if "bid_lookup b p' = Some q'" for p' q'
    using that sorted_last_extreme[OF srt] pq unfolding bid_lookup_def
    by (auto dest!: side_lookup_SomeD) (metis order.strict_implies_order order_refl)
  ultimately show ?thesis using pq by (auto simp: bid_lookup_def side_lookup_def)
qed

lemma BestAsk_Some:
  assumes "book_ok b" "BestAsk b = Some (p, q)"
  shows "ask_lookup b p = Some q \<and> (\<forall>p' q'. ask_lookup b p' = Some q' \<longrightarrow> p \<le> p')"
proof -
  have srt: "sorted_wrt (\<lambda>x y. y < x) (map price (fb_asks b))" and ne: "fb_asks b \<noteq> []"
    and pq: "p = price (last (fb_asks b))" "q = qty (last (fb_asks b))"
    using assms by (auto simp: book_ok_def side_ok_def BestAsk_def split: if_splits)
  have "find_key price (fb_asks b) p = Some (last (fb_asks b))"
    using down.sorted_distinct[OF srt] ne pq by (subst find_key_Some_iff) auto
  moreover have "p \<le> p'" if "ask_lookup b p' = Some q'" for p' q'
    using that sorted_last_extreme[OF srt] pq unfolding ask_lookup_def
    by (auto dest!: side_lookup_SomeD) (metis order.strict_implies_order order_refl)
  ultimately show ?thesis using pq by (auto simp: ask_lookup_def side_lookup_def)
qed

lemma BestBid_None: "BestBid b = None \<longleftrightarrow> (\<forall>p. bid_lookup b p = None)"
  by (auto simp: BestBid_def bid_lookup_def side_lookup_None_iff)

lemma BestAsk_None: "BestAsk b = None \<longleftrightarrow> (\<forall>p. ask_lookup b p = None)"
  by (auto simp: BestAsk_def ask_lookup_def side_lookup_None_iff)

end
