(* ===== verification/Consolidated_Book.thy ===== *)
theory Consolidated_Book
  imports Flat_Order_Book
begin

text \<open>
  The consolidated depth book and its k-way merge, src/md_core/consolidated_book.h and the merge half of
  src/md_core/consolidated_book.cpp. An iterator pair of the C++ merge is the list of levels it has yet to
  yield, so an inactive venue is the empty list. \<open>merges\<close> says what a side must be: sorted, and at every
  price the slot-ordered contributions of the venues with their sum. The merge satisfies it (\<open>merge_all_merges\<close>),
  and only one book does (\<open>merges_unique\<close>).
\<close>

section \<open>Data\<close>

record VenueQuote =
  vq_slot :: VenueSlot
  vq_qty :: QtyUnits

text \<open>
  \<open>ml_venues\<close> is \<^verbatim>\<open>Venues()\<close>, the filled prefix of the fixed attribution array: its length is
  \<^verbatim>\<open>venue_count\<close>, and the writes below keep the array's bound \<^const>\<open>kMaxVenues\<close>.
\<close>

record MergedLevel =
  ml_price :: PriceTicks
  ml_venues :: "VenueQuote list"
  ml_qty :: QtyUnits

record Book =
  bk_bids :: "MergedLevel list"
  bk_asks :: "MergedLevel list"
  bk_source_mono_ns :: i64
  bk_venue_levels :: "u32 list"

definition empty_Book :: Book where
  "empty_Book = \<lparr>bk_bids = [], bk_asks = [], bk_source_mono_ns = 0, bk_venue_levels = replicate kMaxVenues 0\<rparr>"

definition kDefaultMaxDepth :: nat where "kDefaultMaxDepth = 1500"
definition kUnboundedDepth :: nat where "kUnboundedDepth = 2 ^ 64 - 1"

type_synonym FlatBookArray = "FlatOrderBook option list"

section \<open>The k-way merge\<close>

definition admitted :: "VenueHealthArray option \<Rightarrow> nat \<Rightarrow> bool" where
  "admitted health i = (case health of None \<Rightarrow> True | Some hs \<Rightarrow> IsAdmissible (hs ! i))"

type_synonym cursors = "PriceLevel list list"

definition start_cursors ::
  "(FlatOrderBook \<Rightarrow> PriceLevel list) \<Rightarrow> FlatBookArray \<Rightarrow> nat \<Rightarrow> VenueHealthArray option \<Rightarrow> cursors" where
  "start_cursors view books n_venues health =
     map (\<lambda>i. case books ! i of None \<Rightarrow> [] | Some b \<Rightarrow> if admitted health i then view b else []) [0..<n_venues]"

definition pick_step :: "(u64 \<Rightarrow> u64 \<Rightarrow> bool) \<Rightarrow> PriceLevel list \<Rightarrow> u64 option \<Rightarrow> u64 option" where
  "pick_step better c best =
     (case c of [] \<Rightarrow> best
      | l # _ \<Rightarrow> (case best of None \<Rightarrow> Some (price l)
                  | Some b \<Rightarrow> if better (price l) b then Some (price l) else best))"

definition pick_best :: "(u64 \<Rightarrow> u64 \<Rightarrow> bool) \<Rightarrow> cursors \<Rightarrow> u64 option" where
  "pick_best better cs = fold (pick_step better) cs None"

fun take_level ::
  "nat \<Rightarrow> u64 \<Rightarrow> cursors \<Rightarrow> VenueQuote list \<Rightarrow> QtyUnits \<Rightarrow> VenueQuote list \<times> QtyUnits \<times> cursors" where
  "take_level i best [] venues level_qty = (venues, level_qty, [])"
| "take_level i best ([] # cs) venues level_qty =
     (let (venues', level_qty', cs') = take_level (Suc i) best cs venues level_qty
      in (venues', level_qty', [] # cs'))"
| "take_level i best ((l # rest) # cs) venues level_qty =
     (if price l = best
      then let (venues', level_qty', cs') =
             take_level (Suc i) best cs
               (if length venues < kMaxVenues then venues @ [\<lparr>vq_slot = i, vq_qty = qty l\<rparr>] else venues)
               (level_qty + qty l)
           in (venues', level_qty', rest # cs')
      else let (venues', level_qty', cs') = take_level (Suc i) best cs venues level_qty
           in (venues', level_qty', (l # rest) # cs'))"

fun advance :: "u64 \<Rightarrow> PriceLevel list \<Rightarrow> PriceLevel list" where
  "advance p [] = []"
| "advance p (l # rest) = (if price l = p then rest else l # rest)"

definition cursor_total :: "cursors \<Rightarrow> nat" where
  "cursor_total cs = sum_list (map length cs)"

lemma take_level_cursors [simp]: "snd (snd (take_level i p cs vs q)) = map (advance p) cs"
  by (induction i p cs vs q rule: take_level.induct) (auto simp: Let_def split: prod.splits)

lemma cursor_total_Nil [simp]: "cursor_total [] = 0"
  by (simp add: cursor_total_def)

lemma cursor_total_Cons [simp]: "cursor_total (c # cs) = length c + cursor_total cs"
  by (simp add: cursor_total_def)

lemma length_advance: "length (advance p c) \<le> length c"
  by (cases c) auto

lemma advance_le: "cursor_total (map (advance p) cs) \<le> cursor_total cs"
  by (induction cs) (auto intro: add_mono length_advance)

lemma advance_less:
  assumes "l # rest \<in> set cs" "price l = p"
  shows "cursor_total (map (advance p) cs) < cursor_total cs"
  using assms
proof (induction cs)
  case (Cons c cs)
  show ?case
  proof (cases "c = l # rest")
    case True
    then show ?thesis using advance_le[of p cs] Cons.prems by simp
  next
    case False
    then show ?thesis using Cons length_advance[of p c] by (simp add: add_le_less_mono)
  qed
qed simp

lemma pick_step_Some: "pick_step better c (Some b) \<noteq> None"
  by (auto simp: pick_step_def split: list.splits)

lemma fold_pick_mem:
  "fold (pick_step better) cs b0 = Some b \<Longrightarrow> b0 = Some b \<or> (\<exists>l rest. l # rest \<in> set cs \<and> price l = b)"
proof (induction cs arbitrary: b0)
  case (Cons c cs)
  then have "pick_step better c b0 = Some b \<or> (\<exists>l rest. l # rest \<in> set cs \<and> price l = b)" by simp
  then show ?case by (auto simp: pick_step_def split: list.splits option.splits if_splits)
qed simp

lemma pick_best_mem: "pick_best better cs = Some b \<Longrightarrow> \<exists>l rest. l # rest \<in> set cs \<and> price l = b"
  unfolding pick_best_def using fold_pick_mem by fastforce

function merge_levels :: "(u64 \<Rightarrow> u64 \<Rightarrow> bool) \<Rightarrow> nat \<Rightarrow> cursors \<Rightarrow> MergedLevel list \<Rightarrow> MergedLevel list" where
  "merge_levels better max_depth cs out =
     (if length out < max_depth
      then case pick_best better cs of
             None \<Rightarrow> out
           | Some best \<Rightarrow>
               (let (venues, level_qty, cs') = take_level 0 best cs [] 0
                in merge_levels better max_depth cs'
                     (out @ [\<lparr>ml_price = best, ml_venues = venues, ml_qty = level_qty\<rparr>]))
      else out)"
  by pat_completeness auto
termination
proof (relation "measure (\<lambda>(better, max_depth, cs, out). cursor_total cs)")
  fix better max_depth cs and out :: "MergedLevel list" and best x xa y venues' level_qty' cs'
  assume "pick_best better cs = Some best" "x = take_level 0 best cs [] 0"
    "(venues', y) = x" "(level_qty', cs') = y"
  then have "cs' = map (advance best) cs" using take_level_cursors[of 0 best cs "[]" 0] by (metis snd_conv)
  then show "((better, max_depth, cs', out @ [\<lparr>ml_price = best, ml_venues = venues', ml_qty = level_qty'\<rparr>]),
      better, max_depth, cs, out) \<in> measure (\<lambda>(better, max_depth, cs, out). cursor_total cs)"
    using \<open>pick_best better cs = Some best\<close> by (auto dest!: pick_best_mem intro: advance_less)
qed simp

declare merge_levels.simps [simp del]

definition MergeBooks :: "FlatBookArray \<Rightarrow> nat \<Rightarrow> Book \<Rightarrow> nat \<Rightarrow> VenueHealthArray option \<Rightarrow> Book" where
  "MergeBooks books venue_count out max_depth health =
     (let count = min venue_count (length books)
      in out\<lparr>bk_bids := merge_levels (\<lambda>a b. b < a) max_depth (start_cursors bids_view books count health) [],
            bk_asks := merge_levels (<) max_depth (start_cursors asks_view books count health) []\<rparr>)"

section \<open>What a merge means\<close>

fun contributions :: "nat \<Rightarrow> (u64 \<Rightarrow> u64 option) list \<Rightarrow> u64 \<Rightarrow> VenueQuote list" where
  "contributions i [] p = []"
| "contributions i (m # ms) p =
     (case m p of None \<Rightarrow> [] | Some q \<Rightarrow> [\<lparr>vq_slot = i, vq_qty = q\<rparr>]) @ contributions (Suc i) ms p"

definition level_of :: "u64 \<Rightarrow> VenueQuote list \<Rightarrow> MergedLevel option" where
  "level_of p vs =
     (if vs = [] then None
      else Some \<lparr>ml_price = p, ml_venues = vs, ml_qty = sum_list (map vq_qty vs)\<rparr>)"

definition merged_at :: "(u64 \<Rightarrow> u64 option) list \<Rightarrow> u64 \<Rightarrow> MergedLevel option" where
  "merged_at ms p = level_of p (contributions 0 ms p)"

definition merges :: "(u64 \<Rightarrow> u64 \<Rightarrow> bool) \<Rightarrow> (u64 \<Rightarrow> u64 option) list \<Rightarrow> MergedLevel list \<Rightarrow> bool" where
  "merges better ms side \<longleftrightarrow>
     sorted_wrt better (map ml_price side) \<and> (\<forall>p. find_key ml_price side p = merged_at ms p)"

function merge_all :: "(u64 \<Rightarrow> u64 \<Rightarrow> bool) \<Rightarrow> cursors \<Rightarrow> MergedLevel list" where
  "merge_all better cs =
     (case pick_best better cs of
        None \<Rightarrow> []
      | Some best \<Rightarrow>
          (let (venues, level_qty, cs') = take_level 0 best cs [] 0
           in \<lparr>ml_price = best, ml_venues = venues, ml_qty = level_qty\<rparr> # merge_all better cs'))"
  by pat_completeness auto
termination
proof (relation "measure (\<lambda>(better, cs). cursor_total cs)")
  fix better cs best x y venues' level_qty' cs'
  assume "pick_best better cs = Some best" "x = take_level 0 best cs [] 0"
    "(venues', y) = x" "(level_qty', cs') = y"
  then have "cs' = map (advance best) cs" using take_level_cursors[of 0 best cs "[]" 0] by (metis snd_conv)
  then show "((better, cs'), better, cs) \<in> measure (\<lambda>(better, cs). cursor_total cs)"
    using \<open>pick_best better cs = Some best\<close> by (auto dest!: pick_best_mem intro: advance_less)
qed simp

declare merge_all.simps [simp del]

lemma merge_levels_all:
  "merge_levels better d cs out = out @ take (d - length out) (merge_all better cs)"
proof (induction better d cs out rule: merge_levels.induct)
  case (1 better d cs out)
  show ?case
  proof (cases "length out < d")
    case True
    show ?thesis
    proof (cases "pick_best better cs")
      case None
      then show ?thesis using True by (simp add: merge_levels.simps merge_all.simps)
    next
      case (Some best)
      obtain vs q cs' where t: "take_level 0 best cs [] 0 = (vs, q, cs')" by (metis prod_cases3)
      have "d - length out = Suc (d - Suc (length out))" using True by simp
      then show ?thesis using True Some t 1[OF True Some t[symmetric] refl]
        by (simp add: merge_levels.simps[of better d cs out] merge_all.simps[of better cs])
    qed
  qed (simp add: merge_levels.simps)
qed

lemma take_level_contributions:
  assumes "\<forall>c \<in> set cs. side_lookup c p \<noteq> None \<longrightarrow> price (hd c) = p"
    and "length vs + length cs \<le> kMaxVenues"
  shows "take_level i p cs vs q =
    (vs @ contributions i (map side_lookup cs) p,
     q + sum_list (map vq_qty (contributions i (map side_lookup cs) p)), map (advance p) cs)"
  using assms
proof (induction i p cs vs q rule: take_level.induct)
  case (3 i p l rest cs vs q)
  show ?case
  proof (cases "price l = p")
    case True
    then show ?thesis using 3 by (simp add: side_lookup_Cons add.assoc)
  next
    case False
    then have "side_lookup rest p = None" using 3(3) by (auto simp: side_lookup_Cons)
    then show ?thesis using False 3 by (simp add: side_lookup_Cons)
  qed
qed simp_all

lemma contributions_cong:
  "length ms = length ms' \<Longrightarrow> (\<And>i. i < length ms \<Longrightarrow> (ms ! i) p = (ms' ! i) p) \<Longrightarrow>
   contributions k ms p = contributions k ms' p"
proof (induction ms arbitrary: ms' k)
  case (Cons m ms)
  then obtain m' ms'' where ms': "ms' = m' # ms''" by (cases ms') auto
  have "m p = m' p" using Cons.prems(2)[of 0] ms' by simp
  moreover have "contributions (Suc k) ms p = contributions (Suc k) ms'' p"
  proof (rule Cons.IH)
    show "length ms = length ms''" using Cons.prems(1) ms' by simp
    show "(ms ! i) p = (ms'' ! i) p" if "i < length ms" for i
      using Cons.prems(2)[of "Suc i"] ms' that by simp
  qed
  ultimately show ?case using ms' by simp
qed simp

lemma contributions_empty_iff: "contributions i ms p = [] \<longleftrightarrow> (\<forall>m \<in> set ms. m p = None)"
  by (induction i ms p rule: contributions.induct) (auto split: option.splits)

lemma contributions_slots:
  "v \<in> set (contributions i ms p) \<longleftrightarrow>
   i \<le> vq_slot v \<and> vq_slot v < i + length ms \<and> (ms ! (vq_slot v - i)) p = Some (vq_qty v)"
proof (induction i ms p rule: contributions.induct)
  case (2 i m ms p)
  show ?case
  proof (cases "vq_slot v = i")
    case True
    then show ?thesis using 2 by (cases v) (auto split: option.splits)
  next
    case False
    then have "v \<in> set (contributions i (m # ms) p) \<longleftrightarrow> v \<in> set (contributions (Suc i) ms p)"
      by (auto split: option.splits)
    also have "\<dots> \<longleftrightarrow> i \<le> vq_slot v \<and> vq_slot v < i + length (m # ms) \<and>
        ((m # ms) ! (vq_slot v - i)) p = Some (vq_qty v)"
      using False unfolding 2 by (auto simp: nth_Cons' Suc_diff_le)
    finally show ?thesis .
  qed
qed auto

lemma contributions_sorted: "sorted_wrt (<) (map vq_slot (contributions i ms p))"
  by (induction i ms p rule: contributions.induct) (auto simp: contributions_slots split: option.splits)

lemma find_key_contributions:
  "find_key vq_slot (contributions 0 ms p) s =
     (if s < length ms then map_option (\<lambda>q. \<lparr>vq_slot = s, vq_qty = q\<rparr>) ((ms ! s) p) else None)"
proof (cases "find_key vq_slot (contributions 0 ms p) s")
  case None
  have "s < length ms \<Longrightarrow> (ms ! s) p = None"
  proof (rule ccontr)
    assume "s < length ms" "(ms ! s) p \<noteq> None"
    then obtain q where "\<lparr>vq_slot = s, vq_qty = q\<rparr> \<in> set (contributions 0 ms p)"
      by (auto simp: contributions_slots)
    then show False using None by (force simp: find_key_None_iff)
  qed
  then show ?thesis using None by simp
next
  case (Some v)
  then have "v \<in> set (contributions 0 ms p)" "vq_slot v = s" by (auto dest: find_key_SomeD)
  then show ?thesis using Some by (auto simp: contributions_slots)
qed

lemma length_contributions: "length (contributions i ms p) \<le> length ms"
  by (induction i ms p rule: contributions.induct) (auto split: option.splits)

lemma merges_prices:
  "merges better ms side \<Longrightarrow> p \<in> ml_price ` set side \<longleftrightarrow> (\<exists>m \<in> set ms. m p \<noteq> None)"
  using find_key_None_iff[of ml_price side p]
  by (auto simp: merges_def merged_at_def level_of_def contributions_empty_iff split: if_splits)

context price_order
begin

lemma fold_pick_best:
  "(\<forall>c \<in> set cs. c \<noteq> [] \<longrightarrow> (\<exists>b. fold (pick_step before) cs b0 = Some b \<and> \<not> before (price (hd c)) b)) \<and>
   (\<forall>b1. b0 = Some b1 \<longrightarrow> (\<exists>b. fold (pick_step before) cs b0 = Some b \<and> \<not> before b1 b))"
proof (induction cs arbitrary: b0)
  case (Cons c cs)
  show ?case
  proof (cases c)
    case Nil
    then show ?thesis using Cons[of b0] by (simp add: pick_step_def)
  next
    case (Cons l rest)
    define b1 where "b1 = pick_step before c b0"
    have "\<exists>b. b1 = Some b \<and> \<not> before (price l) b \<and> (\<forall>b2. b0 = Some b2 \<longrightarrow> \<not> before b2 b)"
      using Cons irrefl asym by (auto simp: b1_def pick_step_def split: option.splits)
    then obtain b where b: "b1 = Some b" "\<not> before (price l) b" "\<And>b2. b0 = Some b2 \<Longrightarrow> \<not> before b2 b" by blast
    obtain b' where b': "fold (pick_step before) cs b1 = Some b'" "\<not> before b b'"
      using Cons.IH[of b1] b(1) by blast
    have le: "\<not> before x b \<Longrightarrow> \<not> before x b'" for x
      using b'(2) trans not_less_eq by blast
    have "pick_step before (l # rest) b0 = Some b" using b(1) Cons by (simp add: b1_def)
    then show ?thesis using Cons Cons.IH[of b1] b b' le by auto
  qed
qed (simp add: irrefl)

lemma pick_best_None: "pick_best before cs = None \<longleftrightarrow> (\<forall>c \<in> set cs. c = [])"
proof
  show "pick_best before cs = None \<Longrightarrow> \<forall>c \<in> set cs. c = []"
    using fold_pick_best[of cs None] unfolding pick_best_def by force
  show "\<forall>c \<in> set cs. c = [] \<Longrightarrow> pick_best before cs = None"
    using pick_best_mem[of before cs] by (cases "pick_best before cs") auto
qed

lemma pick_best_le:
  assumes "pick_best before cs = Some b" "c \<in> set cs" "c \<noteq> []"
  shows "price (hd c) = b \<or> before b (price (hd c))"
  using fold_pick_best[of cs None] assms not_less_eq unfolding pick_best_def by fastforce

lemma sorted_lookup_head:
  assumes "sorted_wrt before (map price c)" "c \<noteq> [] \<longrightarrow> price (hd c) = b \<or> before b (price (hd c))"
  shows "side_lookup c b \<noteq> None \<longrightarrow> price (hd c) = b"
    and "\<forall>l \<in> set (advance b c). before b (price l)"
    and "side_lookup (advance b c) p = (if p = b then None else side_lookup c p)"
    and "sorted_wrt before (map price (advance b c))"
proof -
  have behind: "before b (price x)" if "c = l # rest" "x \<in> set rest" for l rest x
    using assms that trans by auto
  show "side_lookup c b \<noteq> None \<longrightarrow> price (hd c) = b"
    using behind by (cases c) (auto simp: side_lookup_None_iff dest: neq)
  show 2: "\<forall>l \<in> set (advance b c). before b (price l)"
    using behind assms(2) by (cases c) auto
  show "sorted_wrt before (map price (advance b c))"
    using assms(1) by (cases c) auto
  show "side_lookup (advance b c) p = (if p = b then None else side_lookup c p)"
  proof (cases "p = b")
    case True
    then show ?thesis using 2 by (auto simp: side_lookup_None_iff dest: neq)
  next
    case False
    then show ?thesis by (cases c) (auto simp: side_lookup_Cons)
  qed
qed

lemma merge_all_merges:
  assumes "\<forall>c \<in> set cs. sorted_wrt before (map price c)" "length cs \<le> kMaxVenues"
  shows "merges before (map side_lookup cs) (merge_all before cs)"
  using assms
proof (induction "cursor_total cs" arbitrary: cs rule: less_induct)
  case less
  show ?case
  proof (cases "pick_best before cs")
    case None
    then have "\<forall>c \<in> set cs. c = []" by (simp add: pick_best_None)
    then show ?thesis using None
      by (auto simp: merge_all.simps[of before cs] merges_def merged_at_def level_of_def contributions_empty_iff)
  next
    case (Some b)
    let ?cs' = "map (advance b) cs"
    note head = sorted_lookup_head[of _ b]
    have srt: "sorted_wrt before (map price c)" if "c \<in> set cs" for c using less.prems(1) that by blast
    have le: "c \<noteq> [] \<longrightarrow> price (hd c) = b \<or> before b (price (hd c))" if "c \<in> set cs" for c
      using pick_best_le[OF Some that] by blast
    have t: "take_level 0 b cs [] 0 = (contributions 0 (map side_lookup cs) b,
        sum_list (map vq_qty (contributions 0 (map side_lookup cs) b)), ?cs')"
      using take_level_contributions[of cs b "[]" 0 0] head(1)[OF srt le] less.prems(2) by simp
    have IH: "merges before (map side_lookup ?cs') (merge_all before ?cs')"
    proof (rule less.hyps)
      show "cursor_total ?cs' < cursor_total cs" using pick_best_mem[OF Some] advance_less by blast
      show "\<forall>c \<in> set ?cs'. sorted_wrt before (map price c)" using head(4)[OF srt le] by auto
      show "length ?cs' \<le> kMaxVenues" using less.prems(2) by simp
    qed
    obtain l rest where l: "l # rest \<in> set cs" "price l = b" using pick_best_mem[OF Some] by blast
    have ne: "contributions 0 (map side_lookup cs) b \<noteq> []"
      using l by (force simp: contributions_empty_iff side_lookup_Cons)
    have rest_at: "merged_at (map side_lookup ?cs') p = (if p = b then None else merged_at (map side_lookup cs) p)" for p
    proof (cases "p = b")
      case True
      then show ?thesis using head(3)[OF srt le]
        by (auto simp: merged_at_def level_of_def contributions_empty_iff)
    next
      case False
      have "contributions 0 (map side_lookup ?cs') p = contributions 0 (map side_lookup cs) p"
        by (rule contributions_cong) (use head(3)[OF srt le] False in auto)
      then show ?thesis using False by (simp add: merged_at_def)
    qed
    have deeper: "before b p" if "p \<in> ml_price ` set (merge_all before ?cs')" for p
    proof -
      have "\<exists>m \<in> set (map side_lookup ?cs'). m p \<noteq> None"
        by (rule merges_prices[OF IH, THEN iffD1, OF that])
      then obtain c where c: "c \<in> set cs" "side_lookup (advance b c) p \<noteq> None" by auto
      then have "p \<in> price ` set (advance b c)" by (simp add: side_lookup_None_iff)
      then show ?thesis using head(2)[OF srt[OF c(1)] le[OF c(1)]] by blast
    qed
    have at_b: "merged_at (map side_lookup cs) b =
        Some \<lparr>ml_price = b, ml_venues = contributions 0 (map side_lookup cs) b,
              ml_qty = sum_list (map vq_qty (contributions 0 (map side_lookup cs) b))\<rparr>"
      using ne by (simp add: merged_at_def level_of_def)
    show ?thesis using IH Some t rest_at deeper at_b
      by (auto simp: merge_all.simps[of before cs] merges_def find_key_Cons)
  qed
qed
end

section \<open>The whole merge\<close>

definition live_in :: "VenueHealthArray option \<Rightarrow> nat \<Rightarrow> bool" where
  "live_in health i \<longleftrightarrow> (\<forall>hs. health = Some hs \<longrightarrow> hs ! i = kLive)"

definition venue_maps ::
  "(FlatOrderBook \<Rightarrow> u64 \<Rightarrow> u64 option) \<Rightarrow> FlatBookArray \<Rightarrow> nat \<Rightarrow> VenueHealthArray option \<Rightarrow> (u64 \<Rightarrow> u64 option) list" where
  "venue_maps lk books n_venues health =
     map (\<lambda>i. case books ! i of None \<Rightarrow> (\<lambda>_. None) | Some b \<Rightarrow> if live_in health i then lk b else (\<lambda>_. None))
       [0..<n_venues]"

definition consolidates :: "FlatBookArray \<Rightarrow> nat \<Rightarrow> VenueHealthArray option \<Rightarrow> Book \<Rightarrow> bool" where
  "consolidates books n_venues health b \<longleftrightarrow>
     merges (\<lambda>x y. y < x) (venue_maps bid_lookup books (min n_venues (length books)) health) (bk_bids b) \<and>
     merges (<) (venue_maps ask_lookup books (min n_venues (length books)) health) (bk_asks b)"

definition books_ok :: "FlatBookArray \<Rightarrow> bool" where
  "books_ok books \<longleftrightarrow> length books \<le> kMaxVenues \<and> (\<forall>b. Some b \<in> set books \<longrightarrow> book_ok b)"

lemma live_in_code [code]: "live_in health i = (case health of None \<Rightarrow> True | Some hs \<Rightarrow> hs ! i = kLive)"
  by (cases health) (simp_all add: live_in_def)

lemma live_in_admitted: "live_in health i = admitted health i"
  by (simp add: live_in_code admitted_def IsAdmissible_def split: option.splits)

lemmas venue_maps_admitted = venue_maps_def[unfolded live_in_admitted]

lemma side_lookup_nil_fun: "side_lookup [] = (\<lambda>_. None)"
  by (simp add: fun_eq_iff)

lemma bids_view_lookup: "book_ok b \<Longrightarrow> side_lookup (bids_view b) = bid_lookup b"
  by (simp add: fun_eq_iff bids_view_def bid_lookup_def side_lookup_rev up.side_ok_distinct book_ok_def)

lemma asks_view_lookup: "book_ok b \<Longrightarrow> side_lookup (asks_view b) = ask_lookup b"
  by (simp add: fun_eq_iff asks_view_def ask_lookup_def side_lookup_rev down.side_ok_distinct book_ok_def)

lemma bids_view_sorted: "book_ok b \<Longrightarrow> sorted_wrt (\<lambda>x y. y < x) (map price (bids_view b))"
  using up.side_ok_rev[of "fb_bids b"] by (simp add: bids_view_def book_ok_def)

lemma asks_view_sorted: "book_ok b \<Longrightarrow> sorted_wrt (<) (map price (asks_view b))"
  using down.side_ok_rev[of "fb_asks b"] by (simp add: asks_view_def book_ok_def)

lemma nth_Some_mem: "xs ! i = Some b \<Longrightarrow> i < length xs \<Longrightarrow> Some b \<in> set xs"
  by (metis nth_mem)

lemma start_cursors_maps:
  assumes "\<And>b. Some b \<in> set books \<Longrightarrow> side_lookup (view b) = lk b" "n \<le> length books"
  shows "map side_lookup (start_cursors view books n health) = venue_maps lk books n health"
  using assms by (auto simp: start_cursors_def venue_maps_admitted side_lookup_nil_fun nth_Some_mem split: option.splits)

lemma start_cursors_all:
  assumes "\<And>b. Some b \<in> set books \<Longrightarrow> P (view b)" "P []" "n \<le> length books"
  shows "\<forall>c \<in> set (start_cursors view books n health). P c"
  using assms by (auto simp: start_cursors_def nth_Some_mem split: option.splits)

lemma length_start_cursors [simp]: "length (start_cursors view books n health) = n"
  by (simp add: start_cursors_def)

lemma length_nonzero_prices:
  assumes "distinct (ks :: u64 list)" "0 \<notin> set ks"
  shows "length ks \<le> kUnboundedDepth"
proof -
  have "card (set ks) \<le> card (UNIV - {0 :: u64})" using assms(2) by (intro card_mono) auto
  also have "\<dots> = kUnboundedDepth" by (simp add: card_Diff_singleton card_word kUnboundedDepth_def)
  finally show ?thesis using distinct_card[OF assms(1)] by simp
qed

context price_order
begin

lemma merge_all_unbounded:
  assumes "\<forall>c \<in> set cs. sorted_wrt before (map price c) \<and> side_lookup c 0 = None" "length cs \<le> kMaxVenues"
  shows "merge_levels before kUnboundedDepth cs [] = merge_all before cs"
proof -
  have m: "merges before (map side_lookup cs) (merge_all before cs)" using assms by (intro merge_all_merges) auto
  have "0 \<notin> ml_price ` set (merge_all before cs)" using merges_prices[OF m, of 0] assms(1) by auto
  moreover have "distinct (map ml_price (merge_all before cs))" using m sorted_distinct unfolding merges_def by blast
  ultimately have "length (merge_all before cs) \<le> kUnboundedDepth"
    using length_nonzero_prices[of "map ml_price (merge_all before cs)"] by simp
  then show ?thesis by (simp add: merge_levels_all)
qed

lemma merges_unique: "merges before ms s \<Longrightarrow> merges before ms t \<Longrightarrow> s = t"
  by (rule sorted_key_eqI[of ml_price]) (auto simp: merges_def)

end

lemma book_zero_price: "book_ok b \<Longrightarrow> bid_lookup b 0 = None" "book_ok b \<Longrightarrow> ask_lookup b 0 = None"
  by (simp_all add: book_ok_def bid_lookup_def ask_lookup_def price_free)

lemma cursors_ok:
  assumes "books_ok books" "n \<le> length books"
  shows "\<forall>c \<in> set (start_cursors bids_view books n health). sorted_wrt (\<lambda>x y. y < x) (map price c) \<and> side_lookup c 0 = None"
    and "\<forall>c \<in> set (start_cursors asks_view books n health). sorted_wrt (<) (map price c) \<and> side_lookup c 0 = None"
  by (rule start_cursors_all;
      use assms in \<open>auto simp: bids_view_sorted bids_view_lookup asks_view_sorted asks_view_lookup
                            book_zero_price books_ok_def\<close>)+

lemma MergeBooks_all:
  fixes n books
  defines "k \<equiv> min n (length books)"
  assumes "books_ok books"
  shows "bk_bids (MergeBooks books n out kUnboundedDepth health) = merge_all (\<lambda>x y. y < x) (start_cursors bids_view books k health)"
    and "bk_asks (MergeBooks books n out kUnboundedDepth health) = merge_all (<) (start_cursors asks_view books k health)"
  using assms cursors_ok[of books k health]
  by (auto simp: MergeBooks_def Let_def k_def books_ok_def intro!: down.merge_all_unbounded up.merge_all_unbounded)

lemma MergeBooks_consolidates:
  assumes "books_ok books"
  shows "consolidates books n health (MergeBooks books n out kUnboundedDepth health)"
proof -
  let ?n = "min n (length books)"
  have ok: "book_ok b" if "Some b \<in> set books" for b using assms that by (auto simp: books_ok_def)
  have len: "length books \<le> kMaxVenues" using assms by (simp add: books_ok_def)
  let ?b = "start_cursors bids_view books ?n health" and ?a = "start_cursors asks_view books ?n health"
  have "merges (\<lambda>x y. y < x) (map side_lookup ?b) (merge_all (\<lambda>x y. y < x) ?b)"
    using cursors_ok[OF assms, of ?n health] len by (intro down.merge_all_merges) auto
  moreover have "merges (<) (map side_lookup ?a) (merge_all (<) ?a)"
    using cursors_ok[OF assms, of ?n health] len by (intro up.merge_all_merges) auto
  ultimately show ?thesis
    using start_cursors_maps[of books bids_view bid_lookup ?n health] start_cursors_maps[of books asks_view ask_lookup ?n health]
    by (simp add: consolidates_def MergeBooks_all[OF assms] bids_view_lookup asks_view_lookup ok)
qed

lemma MergeBooks_depth:
  assumes "books_ok books"
  shows "bk_bids (MergeBooks books n out d health) = take d (bk_bids (MergeBooks books n out kUnboundedDepth health))"
    and "bk_asks (MergeBooks books n out d health) = take d (bk_asks (MergeBooks books n out kUnboundedDepth health))"
  unfolding MergeBooks_all[OF assms] by (simp_all add: MergeBooks_def Let_def merge_levels_all)

lemma consolidates_unique:
  "consolidates books n health b \<Longrightarrow> consolidates books n health b' \<Longrightarrow>
   bk_bids b = bk_bids b' \<and> bk_asks b = bk_asks b'"
  unfolding consolidates_def using down.merges_unique up.merges_unique by blast

lemma merges_level:
  assumes "merges better ms side" "l \<in> set side" "distinct (map ml_price side)"
  shows "merged_at ms (ml_price l) = Some l"
  using assms find_key_Some_iff[of ml_price side] unfolding merges_def by metis

end
