(* ===== verification/Consolidated_State.thy ===== *)
theory Consolidated_State
  imports Consolidated_Book
begin

text \<open>
  The persistent consolidated book, src/md_core/consolidated_state.h and consolidated_state.cpp:
  \<open>ApplyOneChange\<close> repairs one level from one venue's transition, \<open>ApplyDepthDelta\<close> folds a whole delta,
  \<open>FullRebuild\<close> re-derives the book with the k-way merge. Every operation keeps \<^const>\<open>consolidates\<close>, so the
  incrementally maintained book is the rebuilt one (\<open>consolidates_rebuild_eq\<close>).
\<close>

section \<open>Repairing one level\<close>

definition sizeof_MergedLevel :: u64 where "sizeof_MergedLevel = 152"

definition LowerBoundByRank :: "MergedLevel list \<Rightarrow> PriceTicks \<Rightarrow> (u64 \<Rightarrow> u64 \<Rightarrow> bool) \<Rightarrow> nat" where
  "LowerBoundByRank side p better = length (takeWhile (\<lambda>l. better (ml_price l) p) side)"

definition FindVenue :: "MergedLevel \<Rightarrow> VenueSlot \<Rightarrow> nat" where
  "FindVenue level slot = length (takeWhile (\<lambda>v. vq_slot v \<noteq> slot) (ml_venues level))"

definition insert_position :: "MergedLevel \<Rightarrow> VenueSlot \<Rightarrow> nat" where
  "insert_position level slot = length (takeWhile (\<lambda>v. vq_slot v < slot) (ml_venues level))"

definition remove_venue :: "MergedLevel \<Rightarrow> nat \<Rightarrow> MergedLevel" where
  "remove_venue level at =
     level\<lparr>ml_qty := ml_qty level - vq_qty (ml_venues level ! at),
           ml_venues := take at (ml_venues level) @ drop (Suc at) (ml_venues level)\<rparr>"

definition requote_venue :: "MergedLevel \<Rightarrow> nat \<Rightarrow> QtyUnits \<Rightarrow> MergedLevel" where
  "requote_venue level at q =
     level\<lparr>ml_qty := ml_qty level - vq_qty (ml_venues level ! at) + q,
           ml_venues := (ml_venues level)[at := (ml_venues level ! at)\<lparr>vq_qty := q\<rparr>]\<rparr>"

definition add_venue :: "MergedLevel \<Rightarrow> VenueSlot \<Rightarrow> QtyUnits \<Rightarrow> MergedLevel" where
  "add_venue level slot q =
     (let insert_at = insert_position level slot
      in level\<lparr>ml_venues := take insert_at (ml_venues level) @ \<lparr>vq_slot = slot, vq_qty = q\<rparr> # drop insert_at (ml_venues level),
               ml_qty := ml_qty level + q\<rparr>)"

definition ApplyOneChange ::
  "MergedLevel list \<Rightarrow> VenueSlot \<Rightarrow> LevelChange \<Rightarrow> (u64 \<Rightarrow> u64 \<Rightarrow> bool) \<Rightarrow> MergedLevel list \<times> u64" where
  "ApplyOneChange side slot change better =
     (let index = LowerBoundByRank side (lc_price change) better
      in if \<not> (index < length side \<and> ml_price (side ! index) = lc_price change)
         then if new_qty change = 0 then (side, 0)
              else (take index side
                      @ \<lparr>ml_price = lc_price change,
                         ml_venues = [\<lparr>vq_slot = slot, vq_qty = new_qty change\<rparr>],
                         ml_qty = new_qty change\<rparr> # drop index side,
                    sizeof_MergedLevel * of_nat (length side - index))
         else let level = side ! index; at = FindVenue level slot
              in if new_qty change = 0
                 then if at = length (ml_venues level) then (side, 0)
                      else let level' = remove_venue level at
                           in if ml_venues level' = []
                              then (take index side @ drop (Suc index) side,
                                    sizeof_MergedLevel * of_nat (length side - index - 1))
                              else (side[index := level'], 0)
                 else if at < length (ml_venues level)
                 then (side[index := requote_venue level at (new_qty change)], 0)
                 else if length (ml_venues level) < kMaxVenues
                 then (side[index := add_venue level slot (new_qty change)], 0)
                 else (side, 0))"

section \<open>State\<close>

record State =
  st_book :: Book
  st_needs_rebuild :: bool
  st_last_bytes_moved :: u64
  st_total_bytes_moved :: u64

definition new_State :: State where
  "new_State = \<lparr>st_book = empty_Book, st_needs_rebuild = True, st_last_bytes_moved = 0, st_total_bytes_moved = 0\<rparr>"

fun apply_changes ::
  "MergedLevel list \<Rightarrow> VenueSlot \<Rightarrow> LevelChange list \<Rightarrow> (u64 \<Rightarrow> u64 \<Rightarrow> bool) \<Rightarrow> u64 \<Rightarrow> MergedLevel list \<times> u64" where
  "apply_changes side slot [] better moved = (side, moved)"
| "apply_changes side slot (c # cs) better moved =
     (let (side', m) = ApplyOneChange side slot c better
      in apply_changes side' slot cs better (moved + m))"

definition ApplyDepthDelta :: "State \<Rightarrow> VenueSlot \<Rightarrow> LevelChange list \<Rightarrow> LevelChange list \<Rightarrow> State" where
  "ApplyDepthDelta st slot bid_changes ask_changes =
     (let (bids, moved) = apply_changes (bk_bids (st_book st)) slot bid_changes (\<lambda>a b. b < a) 0;
          (asks, moved) = apply_changes (bk_asks (st_book st)) slot ask_changes (<) moved
      in st\<lparr>st_book := (st_book st)\<lparr>bk_bids := bids, bk_asks := asks\<rparr>,
            st_last_bytes_moved := moved,
            st_total_bytes_moved := st_total_bytes_moved st + moved\<rparr>)"

definition FullRebuild :: "State \<Rightarrow> FlatBookArray \<Rightarrow> nat \<Rightarrow> VenueHealthArray option \<Rightarrow> State" where
  "FullRebuild st books venue_count health =
     st\<lparr>st_book := MergeBooks books venue_count (st_book st) kUnboundedDepth health,
        st_last_bytes_moved := 0,
        st_needs_rebuild := False\<rparr>"

definition StampForPublish :: "State \<Rightarrow> i64 \<Rightarrow> u32 list \<Rightarrow> State" where
  "StampForPublish st source_mono_ns venue_levels =
     st\<lparr>st_book := (st_book st)\<lparr>bk_source_mono_ns := source_mono_ns, bk_venue_levels := venue_levels\<rparr>\<rparr>"

definition MarkForRebuild :: "State \<Rightarrow> State" where
  "MarkForRebuild st = st\<lparr>st_needs_rebuild := True\<rparr>"

section \<open>One venue's quantity in an attribution list\<close>

definition set_level :: "(u64 \<Rightarrow> u64 option) \<Rightarrow> u64 \<Rightarrow> u64 \<Rightarrow> u64 \<Rightarrow> u64 option" where
  "set_level m p q = m(p := if q = 0 then None else Some q)"

definition venues_set :: "VenueQuote list \<Rightarrow> VenueSlot \<Rightarrow> QtyUnits \<Rightarrow> VenueQuote list \<Rightarrow> bool" where
  "venues_set vs slot q vs' \<longleftrightarrow>
     sorted_wrt (<) (map vq_slot vs') \<and>
     (\<forall>s. find_key vq_slot vs' s =
        (if s = slot then (if q = 0 then None else Some \<lparr>vq_slot = slot, vq_qty = q\<rparr>) else find_key vq_slot vs s))"

lemma contributions_venues_set:
  assumes "venues_set (contributions 0 ms p) slot q vs'" "slot < length ms"
  shows "contributions 0 (ms[slot := set_level (ms ! slot) p q]) p = vs'"
proof (rule slots.sorted_key_eqI[of vq_slot])
  show "find_key vq_slot (contributions 0 (ms[slot := set_level (ms ! slot) p q]) p) s = find_key vq_slot vs' s" for s
    using assms by (auto simp: venues_set_def find_key_contributions set_level_def nth_list_update)
qed (use assms contributions_sorted in \<open>auto simp: venues_set_def\<close>)

definition level_ok :: "MergedLevel \<Rightarrow> bool" where
  "level_ok l \<longleftrightarrow> sorted_wrt (<) (map vq_slot (ml_venues l)) \<and> ml_qty l = sum_list (map vq_qty (ml_venues l))"

lemma level_of_ok:
  "level_of p vs = Some l \<Longrightarrow> sorted_wrt (<) (map vq_slot vs) \<Longrightarrow>
   level_ok l \<and> ml_price l = p \<and> ml_venues l = vs \<and> vs \<noteq> []"
  by (auto simp: level_of_def level_ok_def split: if_splits)

lemma level_ok_level_of:
  "level_ok l \<Longrightarrow> level_of (ml_price l) (ml_venues l) = (if ml_venues l = [] then None else Some l)"
  by (simp add: level_of_def level_ok_def)

lemma venue_present:
  assumes "level_ok l" "slot \<in> vq_slot ` set (ml_venues l)"
  shows "FindVenue l slot < length (ml_venues l)"
    and "level_ok (remove_venue l (FindVenue l slot))"
    and "venues_set (ml_venues l) slot 0 (ml_venues (remove_venue l (FindVenue l slot)))"
    and "level_ok (requote_venue l (FindVenue l slot) q)"
    and "q \<noteq> 0 \<Longrightarrow> venues_set (ml_venues l) slot q (ml_venues (requote_venue l (FindVenue l slot) q))"
    and "ml_venues (requote_venue l (FindVenue l slot) q) \<noteq> []"
proof -
  have srt: "sorted_wrt (<) (map vq_slot (ml_venues l))" using assms by (simp add: level_ok_def)
  obtain ys v zs where s: "ml_venues l = ys @ v # zs" "vq_slot v = slot"
    "takeWhile (\<lambda>v. vq_slot v \<noteq> slot) (ml_venues l) = ys"
    "\<forall>y \<in> set ys. vq_slot y < slot" "\<forall>z \<in> set zs. slot < vq_slot z"
    by (rule slots.key_split_present[OF srt assms(2)])
  note around = slots.find_key_around[OF s(4,5)]
  have at: "FindVenue l slot = length ys" using s(3) by (simp add: FindVenue_def)
  show "FindVenue l slot < length (ml_venues l)" by (simp add: at s(1))
  have vs_rm: "ml_venues (remove_venue l (FindVenue l slot)) = ys @ zs"
    by (simp add: remove_venue_def at s(1))
  have vs_rq: "ml_venues (requote_venue l (FindVenue l slot) q) = ys @ v\<lparr>vq_qty := q\<rparr> # zs"
    by (simp add: requote_venue_def at s(1))
  have srt': "sorted_wrt (<) (map vq_slot (ys @ zs))" by (rule slots.sorted_without[OF srt[unfolded s(1)]])
  show "level_ok (remove_venue l (FindVenue l slot))"
    using assms(1) srt' unfolding level_ok_def vs_rm by (simp add: remove_venue_def at s(1))
  show "venues_set (ml_venues l) slot 0 (ml_venues (remove_venue l (FindVenue l slot)))"
    using srt' around s(1,2) unfolding venues_set_def vs_rm by simp
  have srt'': "sorted_wrt (<) (map vq_slot (ys @ v\<lparr>vq_qty := q\<rparr> # zs))" using srt s(1) by simp
  show "level_ok (requote_venue l (FindVenue l slot) q)"
    using assms(1) srt'' unfolding level_ok_def vs_rq by (simp add: requote_venue_def at s(1))
  show "q \<noteq> 0 \<Longrightarrow> venues_set (ml_venues l) slot q (ml_venues (requote_venue l (FindVenue l slot) q))"
    using srt'' around(1)[of v] around(1)[of "v\<lparr>vq_qty := q\<rparr>"] s(1,2) unfolding venues_set_def vs_rq by simp
  show "ml_venues (requote_venue l (FindVenue l slot) q) \<noteq> []" by (simp add: vs_rq)
qed

lemma venue_absent:
  assumes "level_ok l" "slot \<notin> vq_slot ` set (ml_venues l)"
  shows "FindVenue l slot = length (ml_venues l)"
    and "venues_set (ml_venues l) slot 0 (ml_venues l)"
    and "level_ok (add_venue l slot q)"
    and "q \<noteq> 0 \<Longrightarrow> venues_set (ml_venues l) slot q (ml_venues (add_venue l slot q))"
    and "ml_venues (add_venue l slot q) \<noteq> []"
proof -
  have srt: "sorted_wrt (<) (map vq_slot (ml_venues l))" using assms by (simp add: level_ok_def)
  obtain ys zs where s: "ml_venues l = ys @ zs"
    "takeWhile (\<lambda>v. vq_slot v < slot) (ml_venues l) = ys"
    "\<forall>y \<in> set ys. vq_slot y < slot" "\<forall>z \<in> set zs. slot < vq_slot z"
    by (rule slots.key_split_absent[OF srt assms(2)])
  note around = slots.find_key_around[OF s(3,4)]
  have at: "insert_position l slot = length ys" using s(2) by (simp add: insert_position_def)
  have vs: "ml_venues (add_venue l slot q) = ys @ \<lparr>vq_slot = slot, vq_qty = q\<rparr> # zs"
    by (simp add: add_venue_def Let_def at s(1))
  have srt': "sorted_wrt (<) (map vq_slot (ys @ \<lparr>vq_slot = slot, vq_qty = q\<rparr> # zs))"
    using srt s by (intro slots.sorted_around) auto
  show "FindVenue l slot = length (ml_venues l)" using assms(2)
    by (auto simp: FindVenue_def takeWhile_eq_all_conv intro!: arg_cong[of _ _ length])
  show "venues_set (ml_venues l) slot 0 (ml_venues l)"
    using srt around(2) s(1) by (simp add: venues_set_def)
  show "level_ok (add_venue l slot q)"
    using assms(1) srt' unfolding level_ok_def vs by (simp add: add_venue_def Let_def at s(1))
  show "q \<noteq> 0 \<Longrightarrow> venues_set (ml_venues l) slot q (ml_venues (add_venue l slot q))"
    using srt' around s(1) unfolding venues_set_def vs by simp
  show "ml_venues (add_venue l slot q) \<noteq> []" by (simp add: vs)
qed

section \<open>One change in a side\<close>

lemma merges_update:
  assumes "merges better ms side" "slot < length ms" "sorted_wrt better (map ml_price side')"
    and "\<And>p. find_key ml_price side' p = (if p = c then level_of c vs' else find_key ml_price side p)"
    and "venues_set (contributions 0 ms c) slot q vs'"
  shows "merges better (ms[slot := set_level (ms ! slot) c q]) side'"
proof -
  let ?ms = "ms[slot := set_level (ms ! slot) c q]"
  have "contributions 0 ?ms p = contributions 0 ms p" if "p \<noteq> c" for p
    using that assms(2) by (intro contributions_cong) (auto simp: set_level_def nth_list_update)
  then have "merged_at ?ms p = (if p = c then level_of c vs' else merged_at ms p)" for p
    using contributions_venues_set[OF assms(5,2)] by (simp add: merged_at_def)
  then show ?thesis using assms(1,3,4) by (simp add: merges_def)
qed

lemma venue_count_bound:
  assumes "length ms \<le> kMaxVenues" "slot < length ms" "slot \<notin> vq_slot ` set (contributions 0 ms p)"
  shows "length (contributions 0 ms p) < kMaxVenues"
proof -
  have "vq_slot ` set (contributions 0 ms p) \<subseteq> {..<length ms} - {slot}"
    using assms(3) by (auto simp: contributions_slots)
  then have "card (vq_slot ` set (contributions 0 ms p)) \<le> card ({..<length ms} - {slot})"
    by (intro card_mono) auto
  moreover have "card (vq_slot ` set (contributions 0 ms p)) = length (contributions 0 ms p)"
    using distinct_card[OF slots.sorted_distinct[OF contributions_sorted]] by simp
  ultimately show ?thesis using assms(1,2) by simp
qed

context price_order
begin

lemma ApplyOneChange_absent:
  assumes "merges before ms side" "slot < length ms" "lc_price c \<notin> ml_price ` set side"
  shows "merges before (ms[slot := set_level (ms ! slot) (lc_price c) (new_qty c)]) (fst (ApplyOneChange side slot c before))"
proof -
  let ?p = "lc_price c"
  have srt: "sorted_wrt before (map ml_price side)" using assms(1) by (simp add: merges_def)
  obtain ys zs where s: "side = ys @ zs" "takeWhile (\<lambda>l. before (ml_price l) ?p) side = ys"
    "\<forall>y \<in> set ys. before (ml_price y) ?p" "\<forall>z \<in> set zs. before ?p (ml_price z)"
    by (rule key_split_absent[OF srt assms(3)])
  note around = find_key_around[OF s(3,4)]
  have idx: "LowerBoundByRank side ?p before = length ys" by (simp add: LowerBoundByRank_def s(2))
  have absent: "\<not> (length ys < length side \<and> ml_price (side ! length ys) = ?p)"
    using assms(3) by (metis image_eqI nth_mem)
  have none: "contributions 0 ms ?p = []"
    using around(2) assms(1) by (auto simp: merges_def merged_at_def level_of_def s(1) split: if_splits)
  show ?thesis
  proof (rule merges_update[OF assms(1,2)])
    let ?vs = "if new_qty c = 0 then [] else [\<lparr>vq_slot = slot, vq_qty = new_qty c\<rparr>]"
    show "sorted_wrt before (map ml_price (fst (ApplyOneChange side slot c before)))"
      using srt s(3,4) absent
      by (simp add: ApplyOneChange_def idx Let_def) (simp add: s(1) sorted_wrt_append)
    show "find_key ml_price (fst (ApplyOneChange side slot c before)) p =
        (if p = ?p then level_of ?p ?vs else find_key ml_price side p)" for p
      using absent around by (simp add: ApplyOneChange_def idx Let_def level_of_def) (simp add: s(1))
    show "venues_set (contributions 0 ms ?p) slot (new_qty c) ?vs"
      by (simp add: venues_set_def none find_key_Cons)
  qed
qed

lemma merges_replace:
  assumes "merges before ms (ys @ l # zs)" "slot < length ms" "ml_price l = p" "ml_price l' = p" "level_ok l'"
    "venues_set (contributions 0 ms p) slot q (ml_venues l')"
    "\<forall>y \<in> set ys. before (ml_price y) p" "\<forall>z \<in> set zs. before p (ml_price z)"
  shows "merges before (ms[slot := set_level (ms ! slot) p q]) (ys @ (if ml_venues l' = [] then [] else [l']) @ zs)"
proof (rule merges_update[OF assms(1,2) _ _ assms(6)])
  note around = find_key_around[OF assms(7,8)]
  have srt: "sorted_wrt before (map ml_price (ys @ l # zs))" using assms(1) by (simp add: merges_def)
  then show "sorted_wrt before (map ml_price (ys @ (if ml_venues l' = [] then [] else [l']) @ zs))"
    using assms(3,4) by (auto simp: sorted_wrt_append)
  show "find_key ml_price (ys @ (if ml_venues l' = [] then [] else [l']) @ zs) k =
      (if k = p then level_of p (ml_venues l') else find_key ml_price (ys @ l # zs) k)" for k
    using level_ok_level_of[OF assms(5)] around assms(3,4) by auto
qed

lemma ApplyOneChange_present:
  assumes "merges before ms side" "slot < length ms" "length ms \<le> kMaxVenues" "lc_price c \<in> ml_price ` set side"
  shows "merges before (ms[slot := set_level (ms ! slot) (lc_price c) (new_qty c)]) (fst (ApplyOneChange side slot c before))"
proof -
  let ?p = "lc_price c" and ?q = "new_qty c"
  have srt: "sorted_wrt before (map ml_price side)" using assms(1) by (simp add: merges_def)
  obtain ys l zs where s: "side = ys @ l # zs" "ml_price l = ?p" "takeWhile (\<lambda>l. before (ml_price l) ?p) side = ys"
    "takeWhile (\<lambda>l. ml_price l \<noteq> ?p) side = ys"
    "\<forall>y \<in> set ys. before (ml_price y) ?p" "\<forall>z \<in> set zs. before ?p (ml_price z)"
    by (rule key_split_present[OF srt assms(4)])
  have idx: "LowerBoundByRank side ?p before = length ys" by (simp add: LowerBoundByRank_def s(3))
  have "level_of ?p (contributions 0 ms ?p) = Some l"
    using find_key_around(1)[OF s(5,6,2), of ?p] assms(1) by (simp add: merges_def merged_at_def s(1))
  then have l: "level_ok l" "ml_venues l = contributions 0 ms ?p" "contributions 0 ms ?p \<noteq> []"
    using level_of_ok contributions_sorted by blast+
  have here: "length ys < length side" "side ! length ys = l" "ml_price l = ?p" using s(1,2) by simp_all
  note replace = merges_replace[OF assms(1)[unfolded s(1)] assms(2) s(2) _ _ _ s(5,6), of _ ?q]
  show ?thesis
  proof (cases "slot \<in> vq_slot ` set (ml_venues l)")
    case True
    note v = venue_present[OF l(1) True]
    let ?rm = "remove_venue l (FindVenue l slot)" and ?rq = "requote_venue l (FindVenue l slot) ?q"
    have p: "ml_price ?rm = ?p" "ml_price ?rq = ?p" using s(2) by (simp_all add: remove_venue_def requote_venue_def)
    show ?thesis
    proof (cases "?q = 0")
      case True
      have "fst (ApplyOneChange side slot c before) = ys @ (if ml_venues ?rm = [] then [] else [?rm]) @ zs"
        using here v(1) True by (simp add: ApplyOneChange_def Let_def idx) (simp add: s(1))
      then show ?thesis using replace[OF p(1) v(2)] v(3) True l(2) by simp
    next
      case False
      have "fst (ApplyOneChange side slot c before) = ys @ (if ml_venues ?rq = [] then [] else [?rq]) @ zs"
        using here v(1,6) False by (simp add: ApplyOneChange_def Let_def idx) (simp add: s(1))
      then show ?thesis using replace[OF p(2) v(4)] v(5)[OF False] l(2) by simp
    qed
  next
    case False
    note v = venue_absent[OF l(1) False]
    have bound: "length (ml_venues l) < kMaxVenues"
      using venue_count_bound[OF assms(3,2)] False l(2) by simp
    let ?add = "add_venue l slot ?q"
    have p: "ml_price ?add = ?p" using s(2) by (simp add: add_venue_def Let_def)
    show ?thesis
    proof (cases "?q = 0")
      case True
      have "fst (ApplyOneChange side slot c before) = ys @ (if ml_venues l = [] then [] else [l]) @ zs"
        using here v(1) True l by (simp add: ApplyOneChange_def Let_def idx) (simp add: s(1))
      then show ?thesis using replace[OF s(2) l(1)] v(2) True l(2) by simp
    next
      case False
      have "fst (ApplyOneChange side slot c before) = ys @ (if ml_venues ?add = [] then [] else [?add]) @ zs"
        using here v(1,5) False bound by (simp add: ApplyOneChange_def Let_def idx) (simp add: s(1))
      then show ?thesis using replace[OF p v(3)] v(4)[OF False] l(2) by simp
    qed
  qed
qed

lemma ApplyOneChange_merges:
  assumes "merges before ms side" "slot < length ms" "length ms \<le> kMaxVenues"
  shows "merges before (ms[slot := set_level (ms ! slot) (lc_price c) (new_qty c)]) (fst (ApplyOneChange side slot c before))"
  using ApplyOneChange_absent ApplyOneChange_present assms by blast

end

section \<open>A whole delta\<close>

definition set_levels :: "LevelChange list \<Rightarrow> (u64 \<Rightarrow> u64 option) \<Rightarrow> u64 \<Rightarrow> u64 option" where
  "set_levels cs m = fold (\<lambda>c m. set_level m (lc_price c) (new_qty c)) cs m"

lemma set_levels_Nil [simp]: "set_levels [] m = m"
  by (simp add: set_levels_def)

lemma set_levels_Cons [simp]: "set_levels (c # cs) m = set_levels cs (set_level m (lc_price c) (new_qty c))"
  by (simp add: set_levels_def)

lemma set_levels_at:
  "distinct (map lc_price cs) \<Longrightarrow> set_levels cs m p =
     (case find_key lc_price cs p of None \<Rightarrow> m p | Some c \<Rightarrow> if new_qty c = 0 then None else Some (new_qty c))"
proof (induction cs arbitrary: m)
  case (Cons c cs)
  then have "find_key lc_price cs (lc_price c) = None" by (simp add: find_key_None_iff)
  with Cons show ?case by (auto simp: find_key_Cons set_level_def split: option.splits)
qed simp

lemma qty_at_inject: "m p \<noteq> Some 0 \<Longrightarrow> m' p \<noteq> Some 0 \<Longrightarrow> qty_at m p = qty_at m' p \<longleftrightarrow> m p = m' p"
  by (auto simp: qty_at_def split: option.splits)

lemma set_levels_changes:
  assumes "distinct (map lc_price cs)" "\<And>p. find_key lc_price cs p = change_at m m' p"
    "\<And>p. m p \<noteq> Some 0" "\<And>p. m' p \<noteq> Some 0"
  shows "set_levels cs m = m'"
proof
  fix p
  show "set_levels cs m p = m' p"
    using assms(3,4)[of p] qty_at_inject[of m p m']
    by (auto simp: set_levels_at[OF assms(1)] assms(2) change_at_def qty_at_def split: option.splits)
qed

context price_order
begin

lemma apply_changes_merges:
  assumes "merges before ms side" "slot < length ms" "length ms \<le> kMaxVenues"
  shows "merges before (ms[slot := set_levels cs (ms ! slot)]) (fst (apply_changes side slot cs before moved))"
  using assms
proof (induction cs arbitrary: ms side moved)
  case (Cons c cs)
  let ?ms = "ms[slot := set_level (ms ! slot) (lc_price c) (new_qty c)]"
  obtain side' m where e: "ApplyOneChange side slot c before = (side', m)" by fastforce
  have "merges before ?ms side'" using ApplyOneChange_merges[OF Cons.prems, of c] e by simp
  then show ?case using Cons.IH[of ?ms side' "moved + m"] Cons.prems e by simp
qed simp

end

lemma length_venue_maps [simp]: "length (venue_maps lk books n health) = n"
  by (simp add: venue_maps_admitted)

lemma venue_maps_nth:
  "i < n \<Longrightarrow> venue_maps lk books n health ! i =
     (case books ! i of None \<Rightarrow> (\<lambda>_. None) | Some b \<Rightarrow> if admitted health i then lk b else (\<lambda>_. None))"
  by (simp add: venue_maps_admitted cong: option.case_cong)

lemma venue_maps_update:
  assumes "slot < n" "n \<le> length books"
  shows "venue_maps lk (books[slot := ob]) n health =
    (venue_maps lk books n health)[slot := (case ob of None \<Rightarrow> (\<lambda>_. None) | Some b \<Rightarrow> if admitted health slot then lk b else (\<lambda>_. None))]"
  using assms by (intro nth_equalityI) (auto simp: venue_maps_nth nth_list_update)

lemma book_lookup_nonzero:
  "book_ok b \<Longrightarrow> bid_lookup b p \<noteq> Some 0" "book_ok b \<Longrightarrow> ask_lookup b p \<noteq> Some 0"
  by (simp_all add: book_ok_def side_ok_def bid_lookup_def ask_lookup_def side_lookup_nonzero)

lemma ApplyUpdate_set_levels:
  assumes "book_ok b" "wf_update u" "\<not> bu_is_snapshot u"
  shows "set_levels (fb_last_bid_changes (ApplyUpdate b u)) (bid_lookup b) = bid_lookup (ApplyUpdate b u)"
    and "set_levels (fb_last_ask_changes (ApplyUpdate b u)) (ask_lookup b) = ask_lookup (ApplyUpdate b u)"
proof -
  note c = ApplyUpdate_bid_changes[OF assms] ApplyUpdate_ask_changes[OF assms]
  show "set_levels (fb_last_bid_changes (ApplyUpdate b u)) (bid_lookup b) = bid_lookup (ApplyUpdate b u)"
    by (rule set_levels_changes[OF down.sorted_distinct[OF c(2)] c(1)])
       (simp_all add: book_lookup_nonzero ApplyUpdate_ok assms)
  show "set_levels (fb_last_ask_changes (ApplyUpdate b u)) (ask_lookup b) = ask_lookup (ApplyUpdate b u)"
    by (rule set_levels_changes[OF up.sorted_distinct[OF c(4)] c(3)])
       (simp_all add: book_lookup_nonzero ApplyUpdate_ok assms)
qed

lemma ApplyDepthDelta_book:
  "bk_bids (st_book (ApplyDepthDelta st slot bc ac)) = fst (apply_changes (bk_bids (st_book st)) slot bc (\<lambda>a b. b < a) 0)"
  "bk_asks (st_book (ApplyDepthDelta st slot bc ac)) = fst (apply_changes (bk_asks (st_book st)) slot ac (<)
     (snd (apply_changes (bk_bids (st_book st)) slot bc (\<lambda>a b. b < a) 0)))"
  "st_needs_rebuild (ApplyDepthDelta st slot bc ac) = st_needs_rebuild st"
  by (simp_all add: ApplyDepthDelta_def split: prod.splits)

lemma ApplyDepthDelta_consolidates:
  assumes "consolidates books n health (st_book st)" "books_ok books" "slot < min n (length books)"
    and "books ! slot = Some b" "admitted health slot" "wf_update u" "\<not> bu_is_snapshot u" "b' = ApplyUpdate b u"
  shows "consolidates (books[slot := Some b']) n health
    (st_book (ApplyDepthDelta st slot (fb_last_bid_changes b') (fb_last_ask_changes b')))"
proof -
  let ?n = "min n (length books)"
  have ok: "book_ok b" and len: "?n \<le> kMaxVenues"
    using assms(2,3,4) nth_Some_mem[of books slot b] by (auto simp: books_ok_def)
  note sl = ApplyUpdate_set_levels[OF ok assms(6,7)]
  have m: "merges (\<lambda>x y. y < x) (venue_maps bid_lookup books ?n health) (bk_bids (st_book st))"
    "merges (<) (venue_maps ask_lookup books ?n health) (bk_asks (st_book st))"
    using assms(1) by (simp_all add: consolidates_def)
  have at: "venue_maps lk books ?n health ! slot = lk b" for lk
    using assms(3,4,5) by (simp add: venue_maps_nth)
  show ?thesis
    using down.apply_changes_merges[OF m(1), of slot "fb_last_bid_changes b'" 0]
      up.apply_changes_merges[OF m(2), of slot "fb_last_ask_changes b'"] assms(3,5) len sl
    unfolding consolidates_def ApplyDepthDelta_book length_list_update
    by (simp add: at venue_maps_update assms(8))
qed

lemma not_admitted_consolidates:
  assumes "consolidates books n health bk" "slot < min n (length books)" "\<not> admitted health slot"
  shows "consolidates (books[slot := ob]) n health bk"
proof -
  let ?n = "min n (length books)"
  have "venue_maps lk (books[slot := ob]) ?n health = venue_maps lk books ?n health" for lk
    using assms(2,3) by (intro nth_equalityI) (auto simp: venue_maps_nth nth_list_update split: option.splits)
  then show ?thesis using assms(1) by (simp add: consolidates_def)
qed

lemma FullRebuild_consolidates:
  "books_ok books \<Longrightarrow> consolidates books n health (st_book (FullRebuild st books n health))"
  by (simp add: FullRebuild_def MergeBooks_consolidates)

lemma MergeBooks_frame [simp]:
  "bk_source_mono_ns (MergeBooks books n out d h) = bk_source_mono_ns out"
  "bk_venue_levels (MergeBooks books n out d h) = bk_venue_levels out"
  by (simp_all add: MergeBooks_def Let_def)

lemma ApplyDepthDelta_frame [simp]:
  "bk_source_mono_ns (st_book (ApplyDepthDelta st slot bc ac)) = bk_source_mono_ns (st_book st)"
  "bk_venue_levels (st_book (ApplyDepthDelta st slot bc ac)) = bk_venue_levels (st_book st)"
  by (simp_all add: ApplyDepthDelta_def split: prod.splits)

lemma consolidates_stamp [simp]:
  "consolidates books n h (st_book (StampForPublish st t vl)) \<longleftrightarrow> consolidates books n h (st_book st)"
  by (simp add: StampForPublish_def consolidates_def)

lemma consolidates_rebuild_eq:
  assumes "consolidates books n health (st_book st)" "books_ok books"
  shows "st_book st = st_book (FullRebuild st books n health)"
proof -
  have "bk_bids (st_book st) = bk_bids (st_book (FullRebuild st books n health)) \<and>
    bk_asks (st_book st) = bk_asks (st_book (FullRebuild st books n health))"
    by (rule consolidates_unique[OF assms(1) FullRebuild_consolidates[OF assms(2)]])
  then show ?thesis by (intro Book.equality) (simp_all add: FullRebuild_def)
qed

end
