(* ===== verification/Consolidated_Bbo.thy ===== *)
theory Consolidated_Bbo
  imports Consolidated_State
begin

text \<open>
  The consolidated best bid and offer, src/md_core/consolidated_bbo.h and consolidated_bbo.cpp: the full scans
  (\<open>ScanBestBid\<close>, \<open>ScanBestAsk\<close>, \<open>ComputeBBO\<close>) and the incremental \<open>UpdateBBOWithQuote\<close>. \<open>best_level\<close> says what
  the best level of a list of per-slot quotes is; every operation establishes or keeps it, and it determines the
  level up to the order of its attribution (\<open>best_level_unique\<close>).
\<close>

section \<open>The consolidated top of book\<close>

record ConsolidatedPriceLevel =
  cl_price :: PriceTicks
  cl_total_qty :: QtyUnits
  cl_venues :: "VenueQuote list"

definition empty_level :: ConsolidatedPriceLevel where
  "empty_level = \<lparr>cl_price = 0, cl_total_qty = 0, cl_venues = []\<rparr>"

record BBO =
  best_bid :: ConsolidatedPriceLevel
  best_ask :: ConsolidatedPriceLevel
  crossed :: bool

definition empty_BBO :: BBO where
  "empty_BBO = \<lparr>best_bid = empty_level, best_ask = empty_level, crossed = False\<rparr>"

definition SetSingleVenue :: "ConsolidatedPriceLevel \<Rightarrow> PriceTicks \<Rightarrow> VenueSlot \<Rightarrow> QtyUnits \<Rightarrow> ConsolidatedPriceLevel" where
  "SetSingleVenue level p slot q =
     level\<lparr>cl_price := p, cl_total_qty := q, cl_venues := [\<lparr>vq_slot = slot, vq_qty = q\<rparr>]\<rparr>"

text \<open>One venue's best price offered to the running level: the body both scans and \<^verbatim>\<open>ComputeBBO\<close> repeat.\<close>

definition offer :: "(u64 \<Rightarrow> u64 \<Rightarrow> bool) \<Rightarrow> VenueSlot \<Rightarrow> PriceTicks \<Rightarrow> QtyUnits \<Rightarrow> ConsolidatedPriceLevel \<Rightarrow> ConsolidatedPriceLevel" where
  "offer better slot p q out =
     (if cl_price out = 0 \<or> better p (cl_price out) then SetSingleVenue out p slot q
      else if p = cl_price out
      then out\<lparr>cl_total_qty := cl_total_qty out + q, cl_venues := cl_venues out @ [\<lparr>vq_slot = slot, vq_qty = q\<rparr>]\<rparr>
      else out)"

definition IsCrossed :: "ConsolidatedPriceLevel \<Rightarrow> ConsolidatedPriceLevel \<Rightarrow> bool" where
  "IsCrossed bid ask \<longleftrightarrow> (cl_price bid \<noteq> 0 \<and> cl_price ask \<noteq> 0) \<and> cl_price bid \<ge> cl_price ask"

fun bbo_loop :: "VenueSlot \<Rightarrow> FlatBookArray \<Rightarrow> BBO \<Rightarrow> BBO" where
  "bbo_loop i [] result = result"
| "bbo_loop i (None # books) result = bbo_loop (Suc i) books result"
| "bbo_loop i (Some b # books) result =
     (let result = (case BestBid b of None \<Rightarrow> result
                    | Some (p, q) \<Rightarrow> result\<lparr>best_bid := offer (\<lambda>x y. y < x) i p q (best_bid result)\<rparr>);
          result = (case BestAsk b of None \<Rightarrow> result
                    | Some (p, q) \<Rightarrow> result\<lparr>best_ask := offer (<) i p q (best_ask result)\<rparr>)
      in bbo_loop (Suc i) books result)"

definition ComputeBBO :: "FlatBookArray \<Rightarrow> BBO" where
  "ComputeBBO books =
     (let result = bbo_loop 0 books empty_BBO
      in result\<lparr>crossed := (if cl_price (best_bid result) \<noteq> 0 \<and> cl_price (best_ask result) \<noteq> 0
                          then cl_price (best_bid result) \<ge> cl_price (best_ask result) else False)\<rparr>)"

section \<open>From the quote stream\<close>

fun scan_loop ::
  "(u64 \<Rightarrow> u64 \<Rightarrow> bool) \<Rightarrow> (BboQuote \<Rightarrow> PriceTicks) \<Rightarrow> (BboQuote \<Rightarrow> QtyUnits) \<Rightarrow> VenueHealthArray option \<Rightarrow>
   VenueSlot \<Rightarrow> VenueQuoteArray \<Rightarrow> ConsolidatedPriceLevel \<Rightarrow> ConsolidatedPriceLevel" where
  "scan_loop better px qx health i [] out = out"
| "scan_loop better px qx health i (quote # quotes) out =
     (if px quote = 0 then scan_loop better px qx health (Suc i) quotes out
      else if \<not> admitted health i then scan_loop better px qx health (Suc i) quotes out
      else scan_loop better px qx health (Suc i) quotes (offer better i (px quote) (qx quote) out))"

definition ScanBestBid :: "VenueQuoteArray \<Rightarrow> VenueHealthArray option \<Rightarrow> ConsolidatedPriceLevel" where
  "ScanBestBid quotes health = scan_loop (\<lambda>x y. y < x) q_bid_price q_bid_qty health 0 quotes empty_level"

definition ScanBestAsk :: "VenueQuoteArray \<Rightarrow> VenueHealthArray option \<Rightarrow> ConsolidatedPriceLevel" where
  "ScanBestAsk quotes health = scan_loop (<) q_ask_price q_ask_qty health 0 quotes empty_level"

definition find_venue :: "ConsolidatedPriceLevel \<Rightarrow> VenueSlot \<Rightarrow> nat" where
  "find_venue level slot = length (takeWhile (\<lambda>v. vq_slot v \<noteq> slot) (cl_venues level))"

definition UpdateEqualPrice :: "ConsolidatedPriceLevel \<Rightarrow> VenueSlot \<Rightarrow> QtyUnits \<Rightarrow> ConsolidatedPriceLevel" where
  "UpdateEqualPrice level slot q =
     (let at = find_venue level slot
      in if at < length (cl_venues level)
         then level\<lparr>cl_total_qty := cl_total_qty level - vq_qty (cl_venues level ! at) + q,
                    cl_venues := (cl_venues level)[at := (cl_venues level ! at)\<lparr>vq_qty := q\<rparr>]\<rparr>
         else level\<lparr>cl_total_qty := cl_total_qty level + q,
                    cl_venues := cl_venues level @ [\<lparr>vq_slot = slot, vq_qty = q\<rparr>]\<rparr>)"

definition UpdateWorstPrice :: "ConsolidatedPriceLevel \<Rightarrow> VenueSlot \<Rightarrow> ConsolidatedPriceLevel \<times> bool" where
  "UpdateWorstPrice level slot =
     (let at = find_venue level slot
      in if at = length (cl_venues level) then (level, False)
         else (level\<lparr>cl_total_qty := cl_total_qty level - vq_qty (cl_venues level ! at),
                     cl_venues := take at (cl_venues level) @ drop (Suc at) (cl_venues level)\<rparr>, True))"

definition ComputeBBOFromQuotesInto :: "VenueQuoteArray \<Rightarrow> BBO \<Rightarrow> VenueHealthArray option \<Rightarrow> BBO" where
  "ComputeBBOFromQuotesInto quotes out health =
     out\<lparr>best_bid := ScanBestBid quotes health,
         best_ask := ScanBestAsk quotes health,
         crossed := IsCrossed (ScanBestBid quotes health) (ScanBestAsk quotes health)\<rparr>"

definition ComputeBBOFromQuotes :: "VenueQuoteArray \<Rightarrow> VenueHealthArray option \<Rightarrow> BBO" where
  "ComputeBBOFromQuotes quotes health = ComputeBBOFromQuotesInto quotes empty_BBO health"

text \<open>One side of \<^verbatim>\<open>UpdateBBOWithQuote\<close>; \<open>rescan\<close> is that side's full scan.\<close>

definition leave_level :: "ConsolidatedPriceLevel \<Rightarrow> VenueSlot \<Rightarrow> ConsolidatedPriceLevel \<Rightarrow> ConsolidatedPriceLevel" where
  "leave_level level slot rescan =
     (case UpdateWorstPrice level slot of (level', left) \<Rightarrow> if left \<and> cl_venues level' = [] then rescan else level')"

definition update_side ::
  "(u64 \<Rightarrow> u64 \<Rightarrow> bool) \<Rightarrow> ConsolidatedPriceLevel \<Rightarrow> VenueSlot \<Rightarrow> PriceTicks \<Rightarrow> QtyUnits \<Rightarrow> ConsolidatedPriceLevel \<Rightarrow> ConsolidatedPriceLevel" where
  "update_side better level slot p q rescan =
     (if p = 0 then leave_level level slot rescan
      else if cl_price level = 0 \<or> better p (cl_price level) then SetSingleVenue level p slot q
      else if p = cl_price level then UpdateEqualPrice level slot q
      else leave_level level slot rescan)"

definition UpdateBBOWithQuote :: "BBO \<Rightarrow> BboQuote \<Rightarrow> VenueSlot \<Rightarrow> VenueQuoteArray \<Rightarrow> VenueHealthArray option \<Rightarrow> BBO" where
  "UpdateBBOWithQuote current update slot quotes health =
     (let venue_index = VenueSlotIndex slot;
          admit = (case health of None \<Rightarrow> True | Some hs \<Rightarrow> venue_index \<ge> kMaxVenues \<or> IsAdmissible (hs ! venue_index));
          bid_price = (if admit then q_bid_price update else 0);
          ask_price = (if admit then q_ask_price update else 0);
          bid = update_side (\<lambda>x y. y < x) (best_bid current) slot bid_price (q_bid_qty update) (ScanBestBid quotes health);
          ask = update_side (<) (best_ask current) slot ask_price (q_ask_qty update) (ScanBestAsk quotes health)
      in current\<lparr>best_bid := bid, best_ask := ask, crossed := IsCrossed bid ask\<rparr>)"

section \<open>What the best level is\<close>

text \<open>The best prices the venues show, one entry per slot; \<open>None\<close> for a venue without a usable price.\<close>

type_synonym top_quotes = "(PriceTicks \<times> QtyUnits) option list"

definition quote_at :: "PriceTicks \<Rightarrow> VenueSlot \<Rightarrow> (PriceTicks \<times> QtyUnits) option \<Rightarrow> VenueQuote option" where
  "quote_at p i e = (case e of None \<Rightarrow> None | Some (p', q) \<Rightarrow> if p' = p then Some \<lparr>vq_slot = i, vq_qty = q\<rparr> else None)"

definition tops_ok :: "top_quotes \<Rightarrow> bool" where
  "tops_ok es \<longleftrightarrow> (\<forall>p q. Some (p, q) \<in> set es \<longrightarrow> p \<noteq> 0)"

definition best_level :: "(u64 \<Rightarrow> u64 \<Rightarrow> bool) \<Rightarrow> top_quotes \<Rightarrow> ConsolidatedPriceLevel \<Rightarrow> bool" where
  "best_level better es level \<longleftrightarrow>
     distinct (map vq_slot (cl_venues level)) \<and>
     (\<forall>i. find_key vq_slot (cl_venues level) i =
        (if i < length es then quote_at (cl_price level) i (es ! i) else None)) \<and>
     cl_total_qty level = sum_list (map vq_qty (cl_venues level)) \<and>
     (\<forall>p q. Some (p, q) \<in> set es \<longrightarrow> p = cl_price level \<or> better (cl_price level) p) \<and>
     (if cl_price level = 0 then \<forall>e \<in> set es. e = None else cl_venues level \<noteq> [])"

fun offer_all :: "(u64 \<Rightarrow> u64 \<Rightarrow> bool) \<Rightarrow> VenueSlot \<Rightarrow> top_quotes \<Rightarrow> ConsolidatedPriceLevel \<Rightarrow> ConsolidatedPriceLevel" where
  "offer_all better i [] out = out"
| "offer_all better i (None # es) out = offer_all better (Suc i) es out"
| "offer_all better i (Some (p, q) # es) out = offer_all better (Suc i) es (offer better i p q out)"

lemma best_level_empty: "best_level better [] empty_level"
  by (simp add: best_level_def empty_level_def)

lemma best_level_snoc_None: "best_level better es level \<Longrightarrow> best_level better (es @ [None]) level"
  by (auto simp: best_level_def nth_append quote_at_def less_Suc_eq)

lemma find_key_snoc:
  "find_key f (xs @ [x]) k = (case find_key f xs k of None \<Rightarrow> if f x = k then Some x else None | Some y \<Rightarrow> Some y)"
  by (auto simp: find_key_append find_key_Cons split: option.splits)

lemma quote_at_None: "(\<And>q. e \<noteq> Some (p, q)) \<Longrightarrow> quote_at p i e = None"
  by (auto simp: quote_at_def split: option.splits)

context price_order
begin

lemma best_level_offer:
  assumes "best_level before es level" "tops_ok es" "p \<noteq> 0"
  shows "best_level before (es @ [Some (p, q)]) (offer before (length es) p q level)"
proof -
  have slot_free: "find_key vq_slot (cl_venues level) (length es) = None"
    using assms(1) by (simp add: best_level_def)
  consider (single) "cl_price level = 0 \<or> before p (cl_price level)"
    | (equal) "cl_price level \<noteq> 0" "p = cl_price level"
    | (worse) "cl_price level \<noteq> 0" "before (cl_price level) p"
    using not_less_eq by blast
  then show ?thesis
  proof cases
    case single
    have dom: "before p p'" if "Some (p', q') \<in> set es" for p' q'
    proof (cases "cl_price level = 0")
      case True
      then show ?thesis using assms(1) that by (auto simp: best_level_def)
    next
      case False
      then have "before p (cl_price level)" "p' = cl_price level \<or> before (cl_price level) p'"
        using single assms(1) that by (auto simp: best_level_def)
      then show ?thesis using trans by blast
    qed
    then have "quote_at p i (es ! i) = None" if "i < length es" for i
      using that nth_mem[of i es] irrefl by (intro quote_at_None) metis
    then show ?thesis using single assms(3) dom
      by (auto simp: best_level_def offer_def SetSingleVenue_def find_key_Cons nth_append quote_at_def[of p "length es"])
  next
    case equal
    then have "\<not> (cl_price level = 0 \<or> before p (cl_price level))" using irrefl by auto
    then have o: "offer before (length es) p q level = level\<lparr>cl_total_qty := cl_total_qty level + q,
        cl_venues := cl_venues level @ [\<lparr>vq_slot = length es, vq_qty = q\<rparr>]\<rparr>"
      using equal by (simp add: offer_def)
    have fk: "find_key vq_slot (cl_venues level @ [\<lparr>vq_slot = length es, vq_qty = q\<rparr>]) i =
        (if i < length (es @ [Some (p, q)]) then quote_at p i ((es @ [Some (p, q)]) ! i) else None)" for i
      using assms(1) slot_free equal(2)
      by (cases i "length es" rule: linorder_cases)
         (auto simp: best_level_def find_key_snoc nth_append quote_at_def split: option.splits)
    have "length es \<notin> vq_slot ` set (cl_venues level)" using slot_free by (simp add: find_key_None_iff)
    then show ?thesis using assms(1) equal fk unfolding best_level_def o by auto
  next
    case worse
    then have "\<not> (cl_price level = 0 \<or> before p (cl_price level))" "p \<noteq> cl_price level"
      using asym irrefl by auto
    then show ?thesis using worse assms(1)
      by (auto simp: best_level_def offer_def nth_append quote_at_def less_Suc_eq)
  qed
qed

lemma offer_all_best:
  assumes "best_level before es0 level" "tops_ok (es0 @ es)" "length es0 = i"
  shows "best_level before (es0 @ es) (offer_all before i es level)"
  using assms
proof (induction es arbitrary: es0 i level)
  case (Cons e es)
  show ?case
  proof (cases e)
    case None
    then show ?thesis using Cons.IH[of "es0 @ [None]" level "Suc i"] Cons.prems best_level_snoc_None by simp
  next
    case (Some pq)
    obtain p q where e: "e = Some (p, q)" using Some by (cases pq) auto
    then have "best_level before (es0 @ [Some (p, q)]) (offer before i p q level)"
      using best_level_offer[of es0 level p q] Cons.prems by (auto simp: tops_ok_def)
    then show ?thesis using Cons.IH[of "es0 @ [Some (p, q)]" "offer before i p q level" "Suc i"] Cons.prems e by simp
  qed
qed simp

end


definition usable :: "(BboQuote \<Rightarrow> PriceTicks) \<Rightarrow> (BboQuote \<Rightarrow> QtyUnits) \<Rightarrow> VenueHealthArray option \<Rightarrow> VenueSlot \<Rightarrow> BboQuote \<Rightarrow> (PriceTicks \<times> QtyUnits) option" where
  "usable px qx health i quote = (if px quote \<noteq> 0 \<and> live_in health i then Some (px quote, qx quote) else None)"

definition tops :: "(BboQuote \<Rightarrow> PriceTicks) \<Rightarrow> (BboQuote \<Rightarrow> QtyUnits) \<Rightarrow> VenueQuoteArray \<Rightarrow> VenueHealthArray option \<Rightarrow> top_quotes" where
  "tops px qx quotes health = map (\<lambda>i. usable px qx health i (quotes ! i)) [0..<length quotes]"

lemmas usable_admitted = usable_def[unfolded live_in_admitted]

lemma length_tops [simp]: "length (tops px qx quotes health) = length quotes"
  by (simp add: tops_def)

lemma tops_nth: "i < length quotes \<Longrightarrow> tops px qx quotes health ! i = usable px qx health i (quotes ! i)"
  by (simp add: tops_def)

lemma tops_tops_ok: "tops_ok (tops px qx quotes health)"
  by (auto simp: tops_ok_def tops_def usable_admitted split: if_splits)

lemma tops_update:
  "slot < length quotes \<Longrightarrow> tops px qx (quotes[slot := u]) health = (tops px qx quotes health)[slot := usable px qx health slot u]"
  by (intro nth_equalityI) (auto simp: tops_nth nth_list_update)

lemma scan_loop_offer_all:
  "scan_loop better px qx health i quotes out =
   offer_all better i (map (\<lambda>j. usable px qx health (i + j) (quotes ! j)) [0..<length quotes]) out"
proof (induction better px qx health i quotes out rule: scan_loop.induct)
  case (2 better px qx health i quote quotes out)
  have "map (\<lambda>j. usable px qx health (i + j) ((quote # quotes) ! j)) [0..<length (quote # quotes)] =
    usable px qx health i quote # map (\<lambda>j. usable px qx health (Suc i + j) (quotes ! j)) [0..<length quotes]"
    by (simp add: map_upt_Suc del: upt_Suc)
  then show ?case using 2 by (simp add: usable_admitted)
qed simp

lemma scan_loop_tops: "scan_loop better px qx health 0 quotes out = offer_all better 0 (tops px qx quotes health) out"
  by (simp add: scan_loop_offer_all tops_def)

lemma find_key_remove:
  assumes "distinct (map f xs)" "xs = ys @ x # zs" "f x = k"
  shows "find_key f (ys @ zs) j = (if j = k then None else find_key f xs j)"
proof -
  have "find_key f ys k = None" "find_key f zs k = None" using assms by (auto simp: find_key_None_iff)
  then show ?thesis using assms(2,3) by (auto simp: find_key_append find_key_Cons split: option.splits)
qed

lemma find_key_replace:
  assumes "distinct (map f xs)" "xs = ys @ x # zs" "f x = k" "f x' = k"
  shows "find_key f (ys @ x' # zs) j = (if j = k then Some x' else find_key f xs j)"
proof -
  have "find_key f ys k = None" using assms by (auto simp: find_key_None_iff)
  then show ?thesis using assms(2-4) by (auto simp: find_key_append find_key_Cons split: option.splits)
qed

lemma split_at_key:
  assumes "k \<in> f ` set xs"
  obtains ys x zs where "xs = ys @ x # zs" "f x = k" "takeWhile (\<lambda>x. f x \<noteq> k) xs = ys"
proof -
  obtain ys x zs where "xs = ys @ x # zs" "f x = k" "\<forall>y \<in> set ys. f y \<noteq> k"
    using split_list_first_prop[of xs "\<lambda>x. f x = k"] assms by (auto simp: image_iff)
  then show ?thesis using that[of ys x zs] by (simp add: takeWhile_append2)
qed

definition top_ok :: "ConsolidatedPriceLevel \<Rightarrow> bool" where
  "top_ok l \<longleftrightarrow> distinct (map vq_slot (cl_venues l)) \<and> cl_total_qty l = sum_list (map vq_qty (cl_venues l))"

lemma find_venue_absent:
  assumes "slot \<notin> vq_slot ` set (cl_venues l)"
  shows "find_venue l slot = length (cl_venues l)"
proof -
  have "takeWhile (\<lambda>v. vq_slot v \<noteq> slot) (cl_venues l) = cl_venues l"
    using assms unfolding takeWhile_eq_all_conv by auto
  then show ?thesis unfolding find_venue_def by (rule arg_cong)
qed

lemma UpdateWorstPrice_absent:
  "slot \<notin> vq_slot ` set (cl_venues l) \<Longrightarrow> UpdateWorstPrice l slot = (l, False)"
  by (simp add: UpdateWorstPrice_def Let_def find_venue_absent)

lemma UpdateWorstPrice_present:
  assumes "top_ok l" "slot \<in> vq_slot ` set (cl_venues l)"
  obtains l' where "UpdateWorstPrice l slot = (l', True)" "top_ok l'" "cl_price l' = cl_price l"
    "\<And>j. find_key vq_slot (cl_venues l') j = (if j = slot then None else find_key vq_slot (cl_venues l) j)"
proof -
  have d: "distinct (map vq_slot (cl_venues l))" using assms(1) by (simp add: top_ok_def)
  obtain ys v zs where s: "cl_venues l = ys @ v # zs" "vq_slot v = slot" "takeWhile (\<lambda>v. vq_slot v \<noteq> slot) (cl_venues l) = ys"
    by (rule split_at_key[OF assms(2)])
  have at: "find_venue l slot = length ys" by (simp add: find_venue_def s(3))
  let ?l = "l\<lparr>cl_total_qty := cl_total_qty l - vq_qty v, cl_venues := ys @ zs\<rparr>"
  have "UpdateWorstPrice l slot = (?l, True)" by (simp add: UpdateWorstPrice_def Let_def at s(1))
  moreover have "top_ok ?l" using assms(1) by (auto simp: top_ok_def s(1))
  ultimately show ?thesis using that[of ?l] find_key_remove[OF d s(1,2)] by simp
qed

lemma UpdateEqualPrice_level:
  assumes "top_ok l"
  shows "top_ok (UpdateEqualPrice l slot q)" "cl_price (UpdateEqualPrice l slot q) = cl_price l"
    "find_key vq_slot (cl_venues (UpdateEqualPrice l slot q)) j =
       (if j = slot then Some \<lparr>vq_slot = slot, vq_qty = q\<rparr> else find_key vq_slot (cl_venues l) j)"
proof -
  have d: "distinct (map vq_slot (cl_venues l))" using assms(1) by (simp add: top_ok_def)
  have "top_ok (UpdateEqualPrice l slot q) \<and> cl_price (UpdateEqualPrice l slot q) = cl_price l \<and>
    find_key vq_slot (cl_venues (UpdateEqualPrice l slot q)) j =
       (if j = slot then Some \<lparr>vq_slot = slot, vq_qty = q\<rparr> else find_key vq_slot (cl_venues l) j)"
  proof (cases "slot \<in> vq_slot ` set (cl_venues l)")
    case True
    obtain ys v zs where s: "cl_venues l = ys @ v # zs" "vq_slot v = slot" "takeWhile (\<lambda>v. vq_slot v \<noteq> slot) (cl_venues l) = ys"
      by (rule split_at_key[OF True])
    have at: "find_venue l slot = length ys" by (simp add: find_venue_def s(3))
    have "UpdateEqualPrice l slot q = l\<lparr>cl_total_qty := cl_total_qty l - vq_qty v + q, cl_venues := ys @ v\<lparr>vq_qty := q\<rparr> # zs\<rparr>"
      by (simp add: UpdateEqualPrice_def Let_def at s(1))
    then show ?thesis using assms find_key_replace[OF d s(1,2), of "v\<lparr>vq_qty := q\<rparr>" j] s(1,2) by (auto simp: top_ok_def)
  next
    case False
    note at = find_venue_absent[OF False]
    have "find_key vq_slot (cl_venues l) slot = None" using False by (simp add: find_key_None_iff)
    then show ?thesis using False assms
      by (auto simp: UpdateEqualPrice_def Let_def at top_ok_def find_key_snoc split: option.splits)
  qed
  then show "top_ok (UpdateEqualPrice l slot q)" "cl_price (UpdateEqualPrice l slot q) = cl_price l"
    "find_key vq_slot (cl_venues (UpdateEqualPrice l slot q)) j =
       (if j = slot then Some \<lparr>vq_slot = slot, vq_qty = q\<rparr> else find_key vq_slot (cl_venues l) j)" by simp_all
qed

section \<open>The incremental path\<close>

lemma keyed_mset_eqI:
  assumes "distinct (map f xs)" "distinct (map f ys)" "\<And>k. find_key f xs k = find_key f ys k"
  shows "mset xs = mset ys"
proof -
  have "x \<in> set xs \<longleftrightarrow> x \<in> set ys" for x
    using find_key_Some_iff[OF assms(1), of "f x" x] find_key_Some_iff[OF assms(2), of "f x" x] assms(3) by simp
  then show ?thesis using assms(1,2) by (intro set_eq_iff_mset_eq_distinct[THEN iffD1]) (auto simp: distinct_map)
qed

lemma mem_updateD: "x \<in> set (xs[i := y]) \<Longrightarrow> x = y \<or> x \<in> set xs"
  using set_update_subset_insert[of xs i y] by blast

lemma quote_at_Some [simp]: "quote_at p i (Some (p, q)) = Some \<lparr>vq_slot = i, vq_qty = q\<rparr>"
  by (simp add: quote_at_def)

context price_order
begin

lemma best_level_top_ok: "best_level before es l \<Longrightarrow> top_ok l"
  by (simp add: best_level_def top_ok_def)

lemma best_levelI:
  assumes "top_ok l"
    "\<And>i. find_key vq_slot (cl_venues l) i = (if i < length es then quote_at (cl_price l) i (es ! i) else None)"
    "\<And>p q. Some (p, q) \<in> set es \<Longrightarrow> p = cl_price l \<or> before (cl_price l) p"
    "cl_price l \<noteq> 0" "cl_venues l \<noteq> []"
  shows "best_level before es l"
  using assms by (auto simp: best_level_def top_ok_def)

lemma leave_level_best:
  assumes "best_level before es l" "slot < length es" "tops_ok (es[slot := e])"
    and "\<And>q. e \<noteq> Some (cl_price l, q)" "\<And>p q. e = Some (p, q) \<Longrightarrow> before (cl_price l) p \<and> cl_price l \<noteq> 0"
    and "best_level before (es[slot := e]) rescan"
  shows "best_level before (es[slot := e]) (leave_level l slot rescan)"
proof -
  have gone: "quote_at (cl_price l) slot e = None" using assms(4) by (rule quote_at_None)
  have dom: "p = cl_price l \<or> before (cl_price l) p" if "Some (p, q) \<in> set (es[slot := e])" for p q
    using mem_updateD[OF that] assms(1,5) by (auto simp: best_level_def)
  have at: "find_key vq_slot (cl_venues l) i = (if i < length es then quote_at (cl_price l) i (es ! i) else None)" for i
    using assms(1) by (simp add: best_level_def)
  show ?thesis
  proof (cases "slot \<in> vq_slot ` set (cl_venues l)")
    case False
    then have none: "quote_at (cl_price l) slot (es ! slot) = None"
      using at[of slot] assms(2) by (simp flip: find_key_None_iff)
    have "best_level before (es[slot := e]) l"
    proof (cases "cl_price l = 0")
      case True
      then have "\<forall>e' \<in> set es. e' = None" "e = None"
        using assms(1,5) by (auto simp: best_level_def) (metis not_None_eq surj_pair)
      then have "es[slot := e] = es" using assms(2) by (metis list_update_id nth_mem)
      then show ?thesis using assms(1) by simp
    next
      case False
      show ?thesis
        by (rule best_levelI[OF best_level_top_ok[OF assms(1)] _ dom False])
           (use assms(1,2) False at none gone in \<open>auto simp: best_level_def nth_list_update\<close>)
    qed
    then show ?thesis using UpdateWorstPrice_absent[OF False] by (simp add: leave_level_def)
  next
    case True
    obtain l' where l': "UpdateWorstPrice l slot = (l', True)" "top_ok l'" "cl_price l' = cl_price l"
      "\<And>j. find_key vq_slot (cl_venues l') j = (if j = slot then None else find_key vq_slot (cl_venues l) j)"
      using UpdateWorstPrice_present[OF best_level_top_ok[OF assms(1)] True] by metis
    have "cl_price l \<noteq> 0"
    proof
      assume "cl_price l = 0"
      then have "es ! slot = None" using assms(1,2) by (simp add: best_level_def)
      then have "find_key vq_slot (cl_venues l) slot = None" using at[of slot] by (simp add: quote_at_def)
      then show False using True by (simp add: find_key_None_iff)
    qed
    then have "best_level before (es[slot := e]) l'" if "cl_venues l' \<noteq> []"
      using that l' gone at dom assms(2) by (intro best_levelI) (auto simp: nth_list_update)
    then show ?thesis using l'(1) assms(6) by (simp add: leave_level_def)
  qed
qed

lemma update_side_best:
  assumes "best_level before es l" "slot < length es" "tops_ok es"
    and "best_level before (es[slot := e]) rescan" "e = (if p = 0 then None else Some (p, q))"
  shows "best_level before (es[slot := e]) (update_side before l slot p q rescan)"
proof -
  have ok: "tops_ok (es[slot := e])"
    using assms(3,5) by (auto simp: tops_ok_def dest!: mem_updateD split: if_splits)
  have at: "find_key vq_slot (cl_venues l) i = (if i < length es then quote_at (cl_price l) i (es ! i) else None)" for i
    using assms(1) by (simp add: best_level_def)
  consider (none) "p = 0" | (single) "p \<noteq> 0" "cl_price l = 0 \<or> before p (cl_price l)"
    | (equal) "p \<noteq> 0" "cl_price l \<noteq> 0" "p = cl_price l"
    | (worse) "p \<noteq> 0" "cl_price l \<noteq> 0" "before (cl_price l) p"
    using not_less_eq by blast
  then show ?thesis
  proof cases
    case none
    then show ?thesis using leave_level_best[OF assms(1,2) ok _ _ assms(4)] assms(5) by (simp add: update_side_def)
  next
    case worse
    then have "update_side before l slot p q rescan = leave_level l slot rescan"
      using asym irrefl by (auto simp: update_side_def)
    then show ?thesis using leave_level_best[OF assms(1,2) ok _ _ assms(4)] assms(5) worse neq by auto
  next
    case single
    have dom: "before p p'" if "Some (p', q') \<in> set es" for p' q'
    proof (cases "cl_price l = 0")
      case True
      then show ?thesis using assms(1) that by (auto simp: best_level_def)
    next
      case False
      then have "before p (cl_price l)" "p' = cl_price l \<or> before (cl_price l) p'"
        using single assms(1) that by (auto simp: best_level_def)
      then show ?thesis using trans by blast
    qed
    then have no: "quote_at p i (es ! i) = None" if "i < length es" for i
      using that nth_mem[of i es] irrefl by (intro quote_at_None) metis
    have "best_level before (es[slot := e]) (SetSingleVenue l p slot q)"
    proof (rule best_levelI)
      show "find_key vq_slot (cl_venues (SetSingleVenue l p slot q)) i = (if i < length (es[slot := e])
          then quote_at (cl_price (SetSingleVenue l p slot q)) i (es[slot := e] ! i) else None)" for i
        using no single(1) assms(2,5)
        by (auto simp: SetSingleVenue_def find_key_Cons nth_list_update)
      show "p' = cl_price (SetSingleVenue l p slot q) \<or> before (cl_price (SetSingleVenue l p slot q)) p'"
        if "Some (p', q') \<in> set (es[slot := e])" for p' q'
        using mem_updateD[OF that] dom assms(5) single(1) by (auto simp: SetSingleVenue_def)
    qed (use single in \<open>auto simp: SetSingleVenue_def top_ok_def\<close>)
    then show ?thesis using single by (simp add: update_side_def)
  next
    case equal
    note ue = UpdateEqualPrice_level[OF best_level_top_ok[OF assms(1)], of slot q]
    have "best_level before (es[slot := e]) (UpdateEqualPrice l slot q)"
    proof (rule best_levelI[OF ue(1)])
      show "find_key vq_slot (cl_venues (UpdateEqualPrice l slot q)) i = (if i < length (es[slot := e])
          then quote_at (cl_price (UpdateEqualPrice l slot q)) i (es[slot := e] ! i) else None)" for i
        using at[of i] equal assms(2,5) by (auto simp: ue nth_list_update quote_at_def)
      show "p' = cl_price (UpdateEqualPrice l slot q) \<or> before (cl_price (UpdateEqualPrice l slot q)) p'"
        if "Some (p', q') \<in> set (es[slot := e])" for p' q'
        using mem_updateD[OF that] assms(1,5) equal by (auto simp: ue best_level_def)
      show "cl_price (UpdateEqualPrice l slot q) \<noteq> 0" using equal by (simp add: ue)
      show "cl_venues (UpdateEqualPrice l slot q) \<noteq> []"
        using ue(3)[of slot] by (metis find_key_Nil option.distinct(1))
    qed
    then show ?thesis using equal irrefl by (simp add: update_side_def)
  qed
qed

lemma best_level_price:
  assumes "best_level before es l"
  shows "cl_price l = 0 \<Longrightarrow> e \<in> set es \<Longrightarrow> e = None"
    and "cl_price l \<noteq> 0 \<Longrightarrow> \<exists>q. Some (cl_price l, q) \<in> set es"
proof -
  show "cl_price l = 0 \<Longrightarrow> e \<in> set es \<Longrightarrow> e = None" using assms by (simp add: best_level_def)
  assume "cl_price l \<noteq> 0"
  then have "cl_venues l \<noteq> []" using assms by (simp add: best_level_def)
  then obtain v where v: "v \<in> set (cl_venues l)" by (meson list.set_sel(1))
  then have "find_key vq_slot (cl_venues l) (vq_slot v) \<noteq> None" by (simp add: find_key_None_iff)
  then have i: "vq_slot v < length es" "quote_at (cl_price l) (vq_slot v) (es ! vq_slot v) \<noteq> None"
    using assms by (auto simp: best_level_def split: if_splits)
  then have "\<exists>q. es ! vq_slot v = Some (cl_price l, q)" using quote_at_None by metis
  then show "\<exists>q. Some (cl_price l, q) \<in> set es" using i(1) by (metis nth_mem)
qed

lemma best_level_unique:
  assumes "best_level before es l" "best_level before es l'"
  shows "cl_price l = cl_price l' \<and> cl_total_qty l = cl_total_qty l' \<and> mset (cl_venues l) = mset (cl_venues l')"
proof -
  have dom: "p = cl_price k \<or> before (cl_price k) p" if "best_level before es k" "Some (p, q) \<in> set es" for k p q
    using that by (auto simp: best_level_def)
  have p: "cl_price l = cl_price l'"
    using best_level_price[OF assms(1)] best_level_price[OF assms(2)] dom[OF assms(1)] dom[OF assms(2)] asym
    by (metis option.distinct(1))
  have m: "mset (cl_venues l) = mset (cl_venues l')"
    using assms p by (intro keyed_mset_eqI[of vq_slot]) (auto simp: best_level_def)
  then have "sum_list (map vq_qty (cl_venues l)) = sum_list (map vq_qty (cl_venues l'))"
    by (metis mset_map sum_mset_sum_list)
  then show ?thesis using p m assms by (simp add: best_level_def)
qed

end


section \<open>The whole best bid and offer\<close>

definition bbo_ok :: "VenueQuoteArray \<Rightarrow> VenueHealthArray option \<Rightarrow> BBO \<Rightarrow> bool" where
  "bbo_ok quotes health bbo \<longleftrightarrow>
     best_level (\<lambda>x y. y < x) (tops q_bid_price q_bid_qty quotes health) (best_bid bbo) \<and>
     best_level (<) (tops q_ask_price q_ask_qty quotes health) (best_ask bbo) \<and>
     crossed bbo = IsCrossed (best_bid bbo) (best_ask bbo)"

lemma ScanBestBid_best: "best_level (\<lambda>x y. y < x) (tops q_bid_price q_bid_qty quotes health) (ScanBestBid quotes health)"
  unfolding ScanBestBid_def scan_loop_tops
  using down.offer_all_best[OF best_level_empty, of "tops q_bid_price q_bid_qty quotes health" 0] tops_tops_ok by simp

lemma ScanBestAsk_best: "best_level (<) (tops q_ask_price q_ask_qty quotes health) (ScanBestAsk quotes health)"
  unfolding ScanBestAsk_def scan_loop_tops
  using up.offer_all_best[OF best_level_empty, of "tops q_ask_price q_ask_qty quotes health" 0] tops_tops_ok by simp

lemma ComputeBBOFromQuotesInto_ok [inv_intros]: "bbo_ok quotes health (ComputeBBOFromQuotesInto quotes out health)"
  by (simp add: bbo_ok_def ComputeBBOFromQuotesInto_def ScanBestBid_best ScanBestAsk_best)

lemma UpdateBBOWithQuote_ok [inv_intros]:
  assumes "bbo_ok quotes health bbo" "slot < length quotes" "slot < kMaxVenues"
  shows "bbo_ok (quotes[slot := u]) health (UpdateBBOWithQuote bbo u slot (quotes[slot := u]) health)"
proof -
  let ?adm = "admitted health slot" and ?qs = "quotes[slot := u]"
  have adm: "(case health of None \<Rightarrow> True | Some hs \<Rightarrow> VenueSlotIndex slot \<ge> kMaxVenues \<or> IsAdmissible (hs ! VenueSlotIndex slot)) = ?adm"
    using assms(3) by (simp add: admitted_def VenueSlotIndex_def split: option.splits)
  have e: "usable px qx health slot u = (if (if ?adm then px u else 0) = 0 then None else Some (if ?adm then px u else 0, qx u))" for px qx
    by (simp add: usable_admitted)
  have bid: "best_level (\<lambda>x y. y < x) (tops q_bid_price q_bid_qty ?qs health)
      (update_side (\<lambda>x y. y < x) (best_bid bbo) slot (if ?adm then q_bid_price u else 0) (q_bid_qty u) (ScanBestBid ?qs health))"
    using down.update_side_best[OF _ _ tops_tops_ok _ e[of q_bid_price q_bid_qty]]
      assms(1,2) ScanBestBid_best[of ?qs health] by (simp add: bbo_ok_def tops_update)
  have ask: "best_level (<) (tops q_ask_price q_ask_qty ?qs health)
      (update_side (<) (best_ask bbo) slot (if ?adm then q_ask_price u else 0) (q_ask_qty u) (ScanBestAsk ?qs health))"
    using up.update_side_best[OF _ _ tops_tops_ok _ e[of q_ask_price q_ask_qty]]
      assms(1,2) ScanBestAsk_best[of ?qs health] by (simp add: bbo_ok_def tops_update)
  show ?thesis using bid ask unfolding bbo_ok_def UpdateBBOWithQuote_def Let_def adm by simp
qed

text \<open>Equality of two top-of-book states up to the order in which ties are attributed.\<close>

definition same_level :: "ConsolidatedPriceLevel \<Rightarrow> ConsolidatedPriceLevel \<Rightarrow> bool" where
  "same_level l l' \<longleftrightarrow> cl_price l = cl_price l' \<and> cl_total_qty l = cl_total_qty l' \<and> mset (cl_venues l) = mset (cl_venues l')"

definition same_bbo :: "BBO \<Rightarrow> BBO \<Rightarrow> bool" where
  "same_bbo b b' \<longleftrightarrow> same_level (best_bid b) (best_bid b') \<and> same_level (best_ask b) (best_ask b') \<and> crossed b = crossed b'"

lemma bbo_ok_unique: "bbo_ok quotes health b \<Longrightarrow> bbo_ok quotes health b' \<Longrightarrow> same_bbo b b'"
  unfolding bbo_ok_def same_bbo_def same_level_def IsCrossed_def
  by (metis down.best_level_unique up.best_level_unique)

section \<open>Best bid and offer from the depth books\<close>

lemma bbo_loop_offer_all:
  "best_bid (bbo_loop i books r) = offer_all (\<lambda>x y. y < x) i (map (\<lambda>ob. Option.bind ob BestBid) books) (best_bid r) \<and>
   best_ask (bbo_loop i books r) = offer_all (<) i (map (\<lambda>ob. Option.bind ob BestAsk) books) (best_ask r)"
  by (induction i books r rule: bbo_loop.induct) (auto simp: Let_def split: option.splits)

definition best_of :: "(u64 \<Rightarrow> u64 \<Rightarrow> bool) \<Rightarrow> (u64 \<Rightarrow> u64 option) \<Rightarrow> (PriceTicks \<times> QtyUnits) option \<Rightarrow> bool" where
  "best_of better m e \<longleftrightarrow>
     (case e of None \<Rightarrow> (\<forall>p. m p = None)
      | Some (p, q) \<Rightarrow> m p = Some q \<and> (\<forall>p' q'. m p' = Some q' \<longrightarrow> p' = p \<or> better p p'))"

definition top_level :: "MergedLevel list \<Rightarrow> ConsolidatedPriceLevel" where
  "top_level side = (case side of [] \<Rightarrow> empty_level
     | l # _ \<Rightarrow> \<lparr>cl_price = ml_price l, cl_total_qty = ml_qty l, cl_venues = ml_venues l\<rparr>)"

context price_order
begin

lemma merges_top:
  assumes "merges before ms side" "length es = length ms" "\<And>i. i < length ms \<Longrightarrow> best_of before (ms ! i) (es ! i)"
    "0 \<notin> ml_price ` set side"
  shows "best_level before es (top_level side)"
proof (cases side)
  case Nil
  have "e = None" if m: "e \<in> set es" for e
  proof -
    obtain i where i: "i < length ms" "e = es ! i" using m assms(2) by (auto simp: in_set_conv_nth)
    have "(ms ! i) p = None" for p using merges_prices[OF assms(1), of p] Nil i(1) nth_mem by fastforce
    then show ?thesis using assms(3)[OF i(1)] i(2) by (auto simp: best_of_def split: option.splits)
  qed
  then have "quote_at 0 i (es ! i) = None" if "i < length es" for i
    using nth_mem[OF that] by (intro quote_at_None) fastforce
  then show ?thesis using Nil \<open>\<And>e. e \<in> set es \<Longrightarrow> e = None\<close> by (auto simp: best_level_def top_level_def empty_level_def)
next
  case (Cons l rest)
  let ?p = "ml_price l"
  have srt: "sorted_wrt before (map ml_price side)" using assms(1) by (simp add: merges_def)
  have "level_of ?p (contributions 0 ms ?p) = Some l"
    unfolding merged_at_def[symmetric] using merges_level[OF assms(1) _ sorted_distinct[OF srt]] Cons by simp
  then have l: "ml_venues l = contributions 0 ms ?p" "ml_qty l = sum_list (map vq_qty (ml_venues l))" "ml_venues l \<noteq> []"
    using level_of_ok[OF _ contributions_sorted, of ?p 0 ms ?p l] by (simp_all add: level_ok_def)
  have dom: "p = ?p \<or> before ?p p" if "i < length ms" "(ms ! i) p \<noteq> None" for i p
  proof -
    have "p \<in> ml_price ` set side" using merges_prices[OF assms(1), of p] that nth_mem by blast
    then show ?thesis using srt Cons by auto
  qed
  have at: "quote_at ?p i (es ! i) = map_option (\<lambda>q. \<lparr>vq_slot = i, vq_qty = q\<rparr>) ((ms ! i) ?p)" if "i < length ms" for i
  proof (cases "es ! i")
    case None
    then show ?thesis using assms(3)[OF that] by (simp add: best_of_def quote_at_def)
  next
    case (Some pq)
    then obtain p q where e: "es ! i = Some (p, q)" by (cases pq) auto
    then have b: "(ms ! i) p = Some q" "\<And>p' q'. (ms ! i) p' = Some q' \<Longrightarrow> p' = p \<or> before p p'"
      using assms(3)[OF that] by (auto simp: best_of_def)
    show ?thesis
    proof (cases "p = ?p")
      case True
      then show ?thesis using b e by (simp add: quote_at_def)
    next
      case False
      then have "before ?p p" using dom[OF that, of p] b(1) by simp
      then have "(ms ! i) ?p = None" using b(2) asym False by (metis option.exhaust)
      then show ?thesis using e False by (simp add: quote_at_def)
    qed
  qed
  have "best_level before es \<lparr>cl_price = ?p, cl_total_qty = ml_qty l, cl_venues = ml_venues l\<rparr>"
  proof (rule best_levelI)
    show "top_ok \<lparr>cl_price = ?p, cl_total_qty = ml_qty l, cl_venues = ml_venues l\<rparr>"
      using l slots.sorted_distinct[OF contributions_sorted[of 0 ms ?p]] by (simp add: top_ok_def)
    show "p = cl_price \<lparr>cl_price = ?p, cl_total_qty = ml_qty l, cl_venues = ml_venues l\<rparr> \<or>
        before (cl_price \<lparr>cl_price = ?p, cl_total_qty = ml_qty l, cl_venues = ml_venues l\<rparr>) p" if e: "Some (p, q) \<in> set es" for p q
    proof -
      obtain i where i: "i < length ms" "es ! i = Some (p, q)" using e assms(2) by (auto simp: in_set_conv_nth)
      then have "(ms ! i) p \<noteq> None" using assms(3)[OF i(1)] by (simp add: best_of_def)
      then show ?thesis using dom[OF i(1)] by simp
    qed
  qed (use assms(2,4) l at Cons in \<open>auto simp: find_key_contributions\<close>)
  then show ?thesis using Cons by (simp add: top_level_def)
qed

end

lemma BestBid_best_of: "book_ok b \<Longrightarrow> best_of (\<lambda>x y. y < x) (bid_lookup b) (BestBid b)"
  using BestBid_None[of b] BestBid_Some[of b]
  by (auto simp: best_of_def split: option.splits dest!: order_le_imp_less_or_eq)

lemma BestAsk_best_of: "book_ok b \<Longrightarrow> best_of (<) (ask_lookup b) (BestAsk b)"
  using BestAsk_None[of b] BestAsk_Some[of b]
  by (auto simp: best_of_def split: option.splits dest!: order_le_imp_less_or_eq)

lemma merged_no_zero_price:
  assumes "consolidates books n health bk" "books_ok books"
  shows "0 \<notin> ml_price ` set (bk_bids bk)" "0 \<notin> ml_price ` set (bk_asks bk)"
proof -
  let ?n = "min n (length books)"
  have z: "\<forall>m \<in> set (venue_maps lk books ?n health). m 0 = None" if lk: "\<forall>b. book_ok b \<longrightarrow> lk b 0 = None" for lk
    using lk assms(2) by (auto simp: venue_maps_admitted books_ok_def nth_Some_mem split: option.splits)
  have m: "merges (\<lambda>x y. y < x) (venue_maps bid_lookup books ?n health) (bk_bids bk)"
    "merges (<) (venue_maps ask_lookup books ?n health) (bk_asks bk)"
    using assms(1) by (simp_all add: consolidates_def)
  show "0 \<notin> ml_price ` set (bk_bids bk)"
    using z[of bid_lookup] book_zero_price(1) by (simp add: merges_prices[OF m(1)])
  show "0 \<notin> ml_price ` set (bk_asks bk)"
    using z[of ask_lookup] book_zero_price(2) by (simp add: merges_prices[OF m(2)])
qed

lemma ComputeBBO_levels:
  assumes "books_ok books"
  shows "best_level (\<lambda>x y. y < x) (map (\<lambda>ob. Option.bind ob BestBid) books) (best_bid (ComputeBBO books))"
    and "best_level (<) (map (\<lambda>ob. Option.bind ob BestAsk) books) (best_ask (ComputeBBO books))"
proof -
  have "BestBid b \<noteq> Some (0, q)" "BestAsk b \<noteq> Some (0, q)" if "book_ok b" for b q
    using that BestBid_Some BestAsk_Some book_zero_price by (metis option.distinct(1))+
  then have ok: "tops_ok (map (\<lambda>ob. Option.bind ob BestBid) books)" "tops_ok (map (\<lambda>ob. Option.bind ob BestAsk) books)"
    using assms by (auto simp: tops_ok_def books_ok_def bind_eq_Some_conv dest!: sym[of "Some _"])
  show "best_level (\<lambda>x y. y < x) (map (\<lambda>ob. Option.bind ob BestBid) books) (best_bid (ComputeBBO books))"
    "best_level (<) (map (\<lambda>ob. Option.bind ob BestAsk) books) (best_ask (ComputeBBO books))"
    using down.offer_all_best[OF best_level_empty, of _ 0] up.offer_all_best[OF best_level_empty, of _ 0] ok
    by (simp_all add: ComputeBBO_def Let_def bbo_loop_offer_all empty_BBO_def)
qed

lemma ComputeBBO_top_of_merge:
  assumes "books_ok books"
  defines "bk \<equiv> MergeBooks books (length books) empty_Book kUnboundedDepth None"
  shows "same_level (best_bid (ComputeBBO books)) (top_level (bk_bids bk))"
    and "same_level (best_ask (ComputeBBO books)) (top_level (bk_asks bk))"
proof -
  have c: "consolidates books (length books) None bk" unfolding bk_def by (rule MergeBooks_consolidates[OF assms(1)])
  have m: "merges (\<lambda>x y. y < x) (venue_maps bid_lookup books (length books) None) (bk_bids bk)"
    "merges (<) (venue_maps ask_lookup books (length books) None) (bk_asks bk)"
    using c by (simp_all add: consolidates_def)
  have ok: "book_ok b" if "books ! i = Some b" "i < length books" for i b
    using nth_Some_mem[OF that] assms(1) by (simp add: books_ok_def)
  have "best_level (\<lambda>x y. y < x) (map (\<lambda>ob. Option.bind ob BestBid) books) (top_level (bk_bids bk))"
    by (rule down.merges_top[OF m(1)])
       (use merged_no_zero_price[OF c assms(1)] ok BestBid_best_of in \<open>auto simp: venue_maps_nth admitted_def best_of_def[of _ "\<lambda>_. None"] split: option.splits\<close>)
  moreover have "best_level (<) (map (\<lambda>ob. Option.bind ob BestAsk) books) (top_level (bk_asks bk))"
    by (rule up.merges_top[OF m(2)])
       (use merged_no_zero_price[OF c assms(1)] ok BestAsk_best_of in \<open>auto simp: venue_maps_nth admitted_def best_of_def[of _ "\<lambda>_. None"] split: option.splits\<close>)
  ultimately show "same_level (best_bid (ComputeBBO books)) (top_level (bk_bids bk))"
    "same_level (best_ask (ComputeBBO books)) (top_level (bk_asks bk))"
    unfolding same_level_def using ComputeBBO_levels[OF assms(1)] down.best_level_unique up.best_level_unique by blast+
qed

end
