(* ===== verification/Bands.thy ===== *)
theory Bands
  imports Consolidated_Book
begin

text \<open>
  The band arithmetic of src/md_core/consolidated_book.cpp: volume bands (\<open>FillToNotional\<close>, \<open>FillToNotionalBands\<close>)
  and price bands (\<open>FillToBps\<close>, \<open>FillToBpsBands\<close>), with the 128-bit accumulators and every narrowing cast of the
  source. The one-walk versions equal the one-band versions mapped over sorted targets, and the numbers of a
  single band are characterised exactly on natural numbers.
\<close>

section \<open>Volume bands\<close>

record NotionalFill =
  nf_vwap :: PriceTicks
  nf_worst_price :: PriceTicks
  nf_filled_qty :: QtyUnits
  nf_filled_notional :: u64
  nf_level_count :: u32
  nf_insufficient_depth :: bool

definition empty_NotionalFill :: NotionalFill where
  "empty_NotionalFill = \<lparr>nf_vwap = 0, nf_worst_price = 0, nf_filled_qty = 0, nf_filled_notional = 0,
     nf_level_count = 0, nf_insufficient_depth = False\<rparr>"

definition scale128 :: Notional where "scale128 = ucast kScaleFactor"

definition level_notional :: "MergedLevel \<Rightarrow> Notional" where
  "level_notional l = ucast (ml_price l) * ucast (ml_qty l)"

definition FillAtCrossing :: "MergedLevel list \<Rightarrow> nat \<Rightarrow> QtyUnits \<Rightarrow> Notional \<Rightarrow> Notional \<Rightarrow> NotionalFill" where
  "FillAtCrossing side crossing qty_before filled_before target_raw =
     (let still_needed = target_raw - filled_before;
          price = ml_price (side ! crossing);
          partial_qty = (ucast (still_needed div ucast price) :: u64);
          available = ml_qty (side ! crossing);
          partial_qty = (if partial_qty > available then available else partial_qty);
          filled_raw = filled_before + ucast price * ucast partial_qty;
          filled_qty = qty_before + partial_qty
      in \<lparr>nf_vwap = (if filled_qty \<noteq> 0 then ucast (filled_raw div ucast filled_qty) else 0),
          nf_worst_price = price,
          nf_filled_qty = filled_qty,
          nf_filled_notional = ucast (filled_raw div scale128),
          nf_level_count = of_nat (crossing + 1),
          nf_insufficient_depth = False\<rparr>)"

definition FillExhausted :: "MergedLevel list \<Rightarrow> QtyUnits \<Rightarrow> Notional \<Rightarrow> NotionalFill" where
  "FillExhausted side cum_qty cum_notional =
     \<lparr>nf_vwap = (if cum_qty \<noteq> 0 then ucast (cum_notional div ucast cum_qty) else 0),
      nf_worst_price = ml_price (last side),
      nf_filled_qty = cum_qty,
      nf_filled_notional = ucast (cum_notional div scale128),
      nf_level_count = of_nat (length side),
      nf_insufficient_depth = True\<rparr>"

text \<open>The accumulating walk both functions make; it stops in front of the level that reaches the target.\<close>

fun notional_walk :: "Notional \<Rightarrow> MergedLevel list \<Rightarrow> nat \<Rightarrow> QtyUnits \<Rightarrow> Notional \<Rightarrow> nat \<times> QtyUnits \<times> Notional \<times> bool" where
  "notional_walk target_raw [] i cum_qty cum_notional = (i, cum_qty, cum_notional, False)"
| "notional_walk target_raw (l # ls) i cum_qty cum_notional =
     (let next = cum_notional + level_notional l
      in if next \<ge> target_raw then (i, cum_qty, cum_notional, True)
         else notional_walk target_raw ls (Suc i) (cum_qty + ml_qty l) next)"

definition target_raw :: "u64 \<Rightarrow> Notional" where
  "target_raw target_notional = ucast target_notional * scale128"

definition FillToNotional :: "MergedLevel list \<Rightarrow> u64 \<Rightarrow> NotionalFill" where
  "FillToNotional side target_notional =
     (let t = target_raw target_notional
      in if side = [] then empty_NotionalFill\<lparr>nf_insufficient_depth := t > 0\<rparr>
         else if t = 0 then empty_NotionalFill
         else case notional_walk t side 0 0 0 of
                (i, cum_qty, cum_notional, crossed) \<Rightarrow>
                  if crossed then FillAtCrossing side i cum_qty cum_notional t
                  else FillExhausted side cum_qty cum_notional)"

fun notional_bands :: "MergedLevel list \<Rightarrow> u64 list \<Rightarrow> nat \<Rightarrow> QtyUnits \<Rightarrow> Notional \<Rightarrow> NotionalFill list" where
  "notional_bands side [] i cum_qty cum_notional = []"
| "notional_bands side (target # targets) i cum_qty cum_notional =
     (let t = target_raw target
      in if side = [] then empty_NotionalFill\<lparr>nf_insufficient_depth := t > 0\<rparr> # notional_bands side targets i cum_qty cum_notional
         else if t = 0 then empty_NotionalFill # notional_bands side targets i cum_qty cum_notional
         else case notional_walk t (drop i side) i cum_qty cum_notional of
                (i', cum_qty', cum_notional', crossed) \<Rightarrow>
                  (if crossed then FillAtCrossing side i' cum_qty' cum_notional' t
                   else FillExhausted side cum_qty' cum_notional')
                  # notional_bands side targets i' cum_qty' cum_notional')"

definition FillToNotionalBands :: "MergedLevel list \<Rightarrow> u64 list \<Rightarrow> NotionalFill list" where
  "FillToNotionalBands side targets = notional_bands side targets 0 0 0"

section \<open>Price bands\<close>

record BpsFill =
  bf_vwap :: PriceTicks
  bf_limit_price :: PriceTicks
  bf_cum_qty :: QtyUnits
  bf_cum_notional :: u64
  bf_level_count :: u32
  bf_insufficient_depth :: bool

definition empty_BpsFill :: BpsFill where
  "empty_BpsFill = \<lparr>bf_vwap = 0, bf_limit_price = 0, bf_cum_qty = 0, bf_cum_notional = 0,
     bf_level_count = 0, bf_insufficient_depth = False\<rparr>"

definition bps_limit :: "PriceTicks \<Rightarrow> u32 \<Rightarrow> bool \<Rightarrow> PriceTicks" where
  "bps_limit top_price bps is_bid =
     (let clamped_bps = (if is_bid \<and> bps > 10000 then 10000 else bps);
          factor = (if is_bid then 10000 - clamped_bps else 10000 + clamped_bps);
          scaled = (ucast top_price * ucast factor :: Notional)
      in ucast (scaled div 10000))"

definition bps_inside :: "bool \<Rightarrow> PriceTicks \<Rightarrow> MergedLevel \<Rightarrow> bool" where
  "bps_inside is_bid limit l = (if is_bid then ml_price l \<ge> limit else ml_price l \<le> limit)"

fun bps_walk :: "bool \<Rightarrow> PriceTicks \<Rightarrow> MergedLevel list \<Rightarrow> nat \<Rightarrow> QtyUnits \<Rightarrow> Notional \<Rightarrow> nat \<times> QtyUnits \<times> Notional" where
  "bps_walk is_bid limit [] i cum_qty cum_notional = (i, cum_qty, cum_notional)"
| "bps_walk is_bid limit (l # ls) i cum_qty cum_notional =
     (if bps_inside is_bid limit l
      then bps_walk is_bid limit ls (Suc i) (cum_qty + ml_qty l) (cum_notional + level_notional l)
      else (i, cum_qty, cum_notional))"

definition bps_result :: "PriceTicks \<Rightarrow> nat \<Rightarrow> nat \<Rightarrow> QtyUnits \<Rightarrow> Notional \<Rightarrow> BpsFill" where
  "bps_result limit n i cum_qty cum_notional =
     (let r = empty_BpsFill\<lparr>bf_limit_price := limit, bf_insufficient_depth := (i = n)\<rparr>
      in if i = 0 then r
         else r\<lparr>bf_cum_qty := cum_qty,
                bf_cum_notional := ucast (cum_notional div scale128),
                bf_level_count := of_nat i,
                bf_vwap := (if cum_qty \<noteq> 0 then ucast (cum_notional div ucast cum_qty) else 0)\<rparr>)"

definition FillToBps :: "MergedLevel list \<Rightarrow> u32 \<Rightarrow> bool \<Rightarrow> BpsFill" where
  "FillToBps side bps is_bid =
     (if side = [] then empty_BpsFill
      else let limit = bps_limit (ml_price (hd side)) bps is_bid;
               (i, cum_qty, cum_notional) = bps_walk is_bid limit side 0 0 0
           in bps_result limit (length side) i cum_qty cum_notional)"

fun bps_bands_loop :: "MergedLevel list \<Rightarrow> bool \<Rightarrow> u32 list \<Rightarrow> nat \<Rightarrow> QtyUnits \<Rightarrow> Notional \<Rightarrow> BpsFill list" where
  "bps_bands_loop side is_bid [] i cum_qty cum_notional = []"
| "bps_bands_loop side is_bid (bps # bands) i cum_qty cum_notional =
     (let limit = bps_limit (ml_price (hd side)) bps is_bid;
          (i', cum_qty', cum_notional') = bps_walk is_bid limit (drop i side) i cum_qty cum_notional
      in bps_result limit (length side) i' cum_qty' cum_notional'
         # bps_bands_loop side is_bid bands i' cum_qty' cum_notional')"

definition FillToBpsBands :: "MergedLevel list \<Rightarrow> u32 list \<Rightarrow> bool \<Rightarrow> BpsFill list" where
  "FillToBpsBands side bps_bands is_bid =
     (if side = [] then replicate (length bps_bands) empty_BpsFill
      else bps_bands_loop side is_bid bps_bands 0 0 0)"

section \<open>One walk for all bands\<close>

lemma drop_diff_Cons: "Suc i \<le> j \<Longrightarrow> drop (j - i) (x # xs) = drop (j - Suc i) xs"
  by (cases "j - i") (auto simp: Suc_diff_Suc dest: arg_cong[of _ _ "\<lambda>k. k - 1"])

lemma notional_walk_resume:
  assumes "notional_walk t0 side i q n = (i', q', n', crossed)" "t0 \<le> t"
  shows "notional_walk t side i q n = notional_walk t (drop (i' - i) side) i' q' n' \<and> i \<le> i' \<and> i' - i \<le> length side"
  using assms
proof (induction t0 side i q n rule: notional_walk.induct)
  case (2 t0 l ls i q n)
  show ?case
  proof (cases "n + level_notional l \<ge> t0")
    case True
    then show ?thesis using 2 by simp
  next
    case False
    then have "\<not> n + level_notional l \<ge> t" using 2(3) by simp
    then show ?thesis using 2 False by (auto simp: Let_def drop_diff_Cons)
  qed
qed simp

lemma bps_walk_resume:
  assumes "bps_walk is_bid k side i q n = (i', q', n')" "\<And>l. bps_inside is_bid k l \<Longrightarrow> bps_inside is_bid k' l"
  shows "bps_walk is_bid k' side i q n = bps_walk is_bid k' (drop (i' - i) side) i' q' n' \<and> i \<le> i' \<and> i' - i \<le> length side"
  using assms
proof (induction is_bid k side i q n rule: bps_walk.induct)
  case (2 is_bid k l ls i q n)
  then show ?case
    by (cases "bps_inside is_bid k l") (auto simp: drop_diff_Cons)
qed simp

declare unat_widen [simp]

lemma unat_narrow: "unat (ucast (x :: u128) :: u64) = unat x mod 2 ^ 64"
  by (simp add: unat_ucast_down)

lemma unat_mult_fits: "unat a * unat b < 2 ^ LENGTH('a) \<Longrightarrow> unat ((a :: 'a::len word) * b) = unat a * unat b"
  by (simp add: unat_word_ariths)

lemma unat_add_fits: "unat a + unat b < 2 ^ LENGTH('a) \<Longrightarrow> unat ((a :: 'a::len word) + b) = unat a + unat b"
  by (simp add: unat_word_ariths)

lemma unat_u64: "unat (x :: u64) < 2 ^ 64"
  using unsigned_less[of x] by simp

lemma unat_level_notional: "unat (level_notional l) = unat (ml_price l) * unat (ml_qty l)"
proof -
  have "unat (ml_price l) * unat (ml_qty l) < 2 ^ 64 * 2 ^ 64"
    by (intro mult_strict_mono' unat_u64) auto
  then show ?thesis
    unfolding level_notional_def by (subst unat_mult_fits) simp_all
qed

lemma unat_scale128: "unat scale128 = 10 ^ 8"
  by (simp add: scale128_def kScaleFactor_def)

lemma unat_target_raw: "unat (target_raw t) = unat t * 10 ^ 8"
proof -
  have "unat t * 10 ^ 8 < 2 ^ 64 * (2 ^ 27 :: nat)" by (intro mult_strict_mono' unat_u64) auto
  then have "unat t * 10 ^ 8 < (2 ^ 128 :: nat)" by (rule order_less_trans) simp
  then show ?thesis
    unfolding target_raw_def by (subst unat_mult_fits) (simp_all add: unat_scale128)
qed

lemma target_raw_mono: "t \<le> t' \<Longrightarrow> target_raw t \<le> target_raw t'"
  by (simp add: word_le_nat_alt unat_target_raw)

lemma notional_bands_map:
  assumes "sorted targets" "\<forall>t \<in> set targets. t0 \<le> t"
    "notional_walk (target_raw t0) side 0 0 0 = (i, q, n, crossed) \<or> (i = 0 \<and> q = 0 \<and> n = 0)"
  shows "notional_bands side targets i q n = map (FillToNotional side) targets"
  using assms
proof (induction targets arbitrary: t0 i q n crossed)
  case (Cons t ts)
  show ?case
  proof (cases "side = [] \<or> target_raw t = 0")
    case True
    moreover have "notional_bands side ts i q n = map (FillToNotional side) ts"
      using Cons.IH[of t0 i q n crossed] Cons.prems by auto
    ultimately show ?thesis by (auto simp: FillToNotional_def[of side t] FillToNotional_def[of "[]" t] Let_def)
  next
    case False
    have resume: "notional_walk (target_raw t) (drop i side) i q n = notional_walk (target_raw t) side 0 0 0"
      using notional_walk_resume[of "target_raw t0" side 0 0 0 i q n crossed "target_raw t"] Cons.prems(2,3)
      by (auto simp: target_raw_mono)
    obtain i' q' n' c' where w: "notional_walk (target_raw t) side 0 0 0 = (i', q', n', c')" by (metis prod_cases4)
    have "notional_bands side ts i' q' n' = map (FillToNotional side) ts"
      using Cons.IH[of t i' q' n' c'] Cons.prems(1) w by auto
    then show ?thesis using False w resume by (simp add: FillToNotional_def[of side t] Let_def)
  qed
qed simp

lemma FillToNotionalBands_map:
  "sorted targets \<Longrightarrow> FillToNotionalBands side targets = map (FillToNotional side) targets"
  unfolding FillToNotionalBands_def by (rule notional_bands_map[of _ 0]) auto

section \<open>What a volume band computes\<close>

definition side_notional :: "MergedLevel list \<Rightarrow> nat" where
  "side_notional side = (\<Sum>l\<leftarrow>side. unat (ml_price l) * unat (ml_qty l))"

definition side_qty :: "MergedLevel list \<Rightarrow> nat" where
  "side_qty side = (\<Sum>l\<leftarrow>side. unat (ml_qty l))"

text \<open>The accumulators of a walk over the whole side do not wrap.\<close>

definition depth_fits :: "MergedLevel list \<Rightarrow> bool" where
  "depth_fits side \<longleftrightarrow> side_notional side < 2 ^ 128 \<and> side_qty side < 2 ^ 64"

lemma side_sums [simp]:
  "side_notional [] = 0" "side_notional (l # ls) = unat (ml_price l) * unat (ml_qty l) + side_notional ls"
  "side_notional (xs @ ys) = side_notional xs + side_notional ys"
  "side_qty [] = 0" "side_qty (l # ls) = unat (ml_qty l) + side_qty ls"
  "side_qty (xs @ ys) = side_qty xs + side_qty ys"
  by (simp_all add: side_notional_def side_qty_def)

definition walk_post :: "Notional \<Rightarrow> MergedLevel list \<Rightarrow> QtyUnits \<Rightarrow> Notional \<Rightarrow> nat \<Rightarrow> QtyUnits \<Rightarrow> Notional \<Rightarrow> bool \<Rightarrow> bool" where
  "walk_post t side q n k q' n' crossed \<longleftrightarrow>
     k \<le> length side \<and> unat q' = unat q + side_qty (take k side) \<and>
     unat n' = unat n + side_notional (take k side) \<and> unat n' < unat t \<and>
     (if crossed then k < length side \<and> unat t \<le> unat n + side_notional (take (Suc k) side) else k = length side)"

lemma notional_walk_post:
  assumes "unat n + side_notional side < 2 ^ 128" "unat q + side_qty side < 2 ^ 64" "unat n < unat t"
    "notional_walk t side i q n = (i', q', n', crossed)"
  shows "i \<le> i' \<and> walk_post t side q n (i' - i) q' n' crossed"
  using assms
proof (induction t side i q n rule: notional_walk.induct)
  case (2 t l ls i q n)
  let ?next = "n + level_notional l"
  have nx: "unat ?next = unat n + unat (ml_price l) * unat (ml_qty l)"
    using 2(2) by (subst unat_add_fits) (simp_all add: unat_level_notional)
  have qx: "unat (q + ml_qty l) = unat q + unat (ml_qty l)"
    using 2(3) by (subst unat_add_fits) simp_all
  show ?case
  proof (cases "?next \<ge> t")
    case True
    then show ?thesis using 2(4,5) nx by (simp add: walk_post_def word_le_nat_alt)
  next
    case False
    have lt: "unat ?next < unat t" using False by (simp add: word_le_nat_alt)
    have w: "notional_walk t ls (Suc i) (q + ml_qty l) ?next = (i', q', n', crossed)"
      using 2(5) False by (simp add: Let_def)
    have IH: "Suc i \<le> i' \<and> walk_post t ls (q + ml_qty l) ?next (i' - Suc i) q' n' crossed"
      using 2(1)[OF refl False _ _ lt w] 2(2,3) nx qx by simp
    then obtain k where "i' = Suc (i + k)" by (metis add_Suc le_Suc_ex)
    then show ?thesis using IH nx qx by (auto simp: walk_post_def)
  qed
qed (simp add: walk_post_def)

lemma FillToNotional_exhausted:
  assumes "depth_fits side" "side_notional side < unat t * 10 ^ 8" "side \<noteq> []"
  shows "\<exists>q n. unat q = side_qty side \<and> unat n = side_notional side \<and> FillToNotional side t = FillExhausted side q n"
proof -
  let ?t = "target_raw t"
  obtain i q n c where w: "notional_walk ?t side 0 0 0 = (i, q, n, c)" by (metis prod_cases4)
  have p: "walk_post ?t side 0 0 i q n c"
    using notional_walk_post[OF _ _ _ w] assms by (simp add: depth_fits_def unat_target_raw)
  have "side_notional (take (Suc i) side) \<le> side_notional side"
    using side_sums(3)[of "take (Suc i) side" "drop (Suc i) side"] by simp
  then have "\<not> c" using p assms(2) by (auto simp: walk_post_def unat_target_raw)
  moreover have "?t \<noteq> 0" using assms(2) unat_target_raw[of t] by (metis not_less_zero unat_0)
  ultimately show ?thesis using p w assms(3)
    by (auto simp: FillToNotional_def walk_post_def Let_def intro!: exI[of _ q] exI[of _ n])
qed

lemma FillToNotional_crossing:
  assumes "depth_fits side" "unat t * 10 ^ 8 \<le> side_notional side" "t \<noteq> 0"
  shows "\<exists>k q n. k < length side \<and> unat q = side_qty (take k side) \<and> unat n = side_notional (take k side) \<and>
    unat n < unat t * 10 ^ 8 \<and> unat t * 10 ^ 8 \<le> side_notional (take (Suc k) side) \<and>
    FillToNotional side t = FillAtCrossing side k q n (target_raw t)"
proof -
  let ?t = "target_raw t"
  have pos: "0 < unat t" using assms(3) by (simp add: unat_gt_0)
  then have ne: "?t \<noteq> 0" "side \<noteq> []" using assms(2) unat_target_raw[of t] by (auto simp del: unat_eq_zero)
  obtain i q n c where w: "notional_walk ?t side 0 0 0 = (i, q, n, c)" by (metis prod_cases4)
  have p: "walk_post ?t side 0 0 i q n c"
    using notional_walk_post[OF _ _ _ w] assms(1) pos by (simp add: depth_fits_def unat_target_raw)
  have "c" using p assms(2) by (auto simp: walk_post_def unat_target_raw split: if_splits)
  then show ?thesis using p w ne
    by (auto simp: FillToNotional_def walk_post_def Let_def unat_target_raw intro!: exI[of _ i] exI[of _ q] exI[of _ n])
qed


lemma unat_div: "unat ((a :: 'a::len word) div b) = unat a div unat b"
  by (simp add: unat_div_distrib)

lemma side_notional_price_bounds:
  assumes "\<forall>l \<in> set side. lo \<le> unat (ml_price l) \<and> unat (ml_price l) \<le> hi"
  shows "lo * side_qty side \<le> side_notional side" "side_notional side \<le> hi * side_qty side"
  using assms by (induction side) (auto simp: distrib_left intro!: add_mono mult_right_mono)

lemma mean_bounds:
  assumes "lo * q \<le> n" "n \<le> hi * q" "0 < (q :: nat)"
  shows "lo \<le> n div q \<and> n div q \<le> hi"
  using assms by (simp add: less_eq_div_iff_mult_less_eq mult.commute div_le_mono[THEN order_trans])

lemma unat_quotient_fits:
  assumes "n \<le> (2 ^ 64 - 1) * q"
  shows "n div q < (2 ^ 64 :: nat)"
proof (cases "q = 0")
  case False
  have "n div q \<le> ((2 ^ 64 - 1) * q) div q" using assms by (rule div_le_mono)
  also have "\<dots> = 2 ^ 64 - 1" using False by simp
  finally show ?thesis by simp
qed simp

lemma price_le_max: "unat (x :: u64) \<le> 2 ^ 64 - 1"
  using unat_u64[of x] by linarith

lemma side_notional_max: "side_notional side \<le> (2 ^ 64 - 1) * side_qty side"
  by (rule side_notional_price_bounds(2)[of _ 0]) (use price_le_max in blast)

text \<open>The numbers of a straddled level: the swept quantity, the notional it stands for, their quotient.\<close>

definition crossing_qty :: "MergedLevel list \<Rightarrow> nat \<Rightarrow> nat \<Rightarrow> nat" where
  "crossing_qty side k T = side_qty (take k side) + (T - side_notional (take k side)) div unat (ml_price (side ! k))"

definition crossing_notional :: "MergedLevel list \<Rightarrow> nat \<Rightarrow> nat \<Rightarrow> nat" where
  "crossing_notional side k T = side_notional (take k side) +
     unat (ml_price (side ! k)) * ((T - side_notional (take k side)) div unat (ml_price (side ! k)))"

definition is_crossing :: "MergedLevel list \<Rightarrow> nat \<Rightarrow> nat \<Rightarrow> bool" where
  "is_crossing side k T \<longleftrightarrow> k < length side \<and> side_notional (take k side) < T \<and> T \<le> side_notional (take (Suc k) side)"

lemma crossing_facts:
  assumes "is_crossing side k T"
  shows "0 < unat (ml_price (side ! k))"
    and "(T - side_notional (take k side)) div unat (ml_price (side ! k)) \<le> unat (ml_qty (side ! k))"
    and "crossing_notional side k T \<le> T" "T < crossing_notional side k T + unat (ml_price (side ! k))"
    and "crossing_qty side k T \<le> side_qty (take (Suc k) side)"
    and "crossing_notional side k T \<le> (2 ^ 64 - 1) * crossing_qty side k T"
proof -
  let ?N = "side_notional (take k side)" and ?P = "unat (ml_price (side ! k))" and ?A = "unat (ml_qty (side ! k))"
  have T: "?N < T" "T \<le> ?N + ?P * ?A" and k: "k < length side"
    using assms by (auto simp: is_crossing_def take_Suc_conv_app_nth)
  then show P: "0 < ?P" by (cases "?P = 0") auto
  have le: "T - ?N \<le> ?P * ?A" using T by simp
  then have "(T - ?N) div ?P \<le> (?P * ?A) div ?P" by (rule div_le_mono)
  then show d: "(T - ?N) div ?P \<le> ?A" using P by simp
  have "?P * ((T - ?N) div ?P) \<le> T - ?N" by (simp add: times_div_less_eq_dividend)
  then show "crossing_notional side k T \<le> T" unfolding crossing_notional_def using T(1) by linarith
  have "T - ?N < ?P * ((T - ?N) div ?P) + ?P" using P by (metis add.commute dividend_less_times_div mult.commute)
  then show "T < crossing_notional side k T + ?P" by (simp add: crossing_notional_def)
  show "crossing_qty side k T \<le> side_qty (take (Suc k) side)"
    using d k by (simp add: crossing_qty_def take_Suc_conv_app_nth)
  show "crossing_notional side k T \<le> (2 ^ 64 - 1) * crossing_qty side k T"
    unfolding crossing_notional_def crossing_qty_def distrib_left
    by (intro add_mono side_notional_max mult_right_mono price_le_max) simp
qed

lemma side_qty_take: "side_qty (take k side) \<le> side_qty side"
  using side_sums(6)[of "take k side" "drop k side"] by simp

lemma FillAtCrossing_values:
  assumes "depth_fits side" "is_crossing side k (unat t * 10 ^ 8)" "unat q = side_qty (take k side)" "unat n = side_notional (take k side)"
  shows "unat (nf_filled_qty (FillAtCrossing side k q n (target_raw t))) = crossing_qty side k (unat t * 10 ^ 8)"
    and "unat (nf_filled_notional (FillAtCrossing side k q n (target_raw t))) = crossing_notional side k (unat t * 10 ^ 8) div 10 ^ 8"
    and "unat (nf_vwap (FillAtCrossing side k q n (target_raw t))) =
           crossing_notional side k (unat t * 10 ^ 8) div crossing_qty side k (unat t * 10 ^ 8)"
proof -
  let ?T = "unat t * 10 ^ 8" and ?P = "ml_price (side ! k)"
  let ?part = "ucast ((target_raw t - n) div ucast ?P) :: u64"
  note f = crossing_facts[OF assms(2)]
  have nT: "unat n < ?T" using assms(2,4) by (simp add: is_crossing_def)
  then have "n \<le> target_raw t" by (simp add: word_le_nat_alt unat_target_raw)
  then have sub: "unat (target_raw t - n) = ?T - unat n" by (simp add: unat_sub unat_target_raw)
  have part0: "unat ((target_raw t - n) div ucast ?P) = (?T - unat n) div unat ?P"
    by (simp add: unat_div sub)
  have part_le: "(?T - unat n) div unat ?P \<le> unat (ml_qty (side ! k))" using f(2) assms(4) by simp
  have part: "unat ?part = (?T - unat n) div unat ?P"
    using part_le unat_u64[of "ml_qty (side ! k)"] part0 by (simp add: unat_narrow)
  have clamp: "(if ?part > ml_qty (side ! k) then ml_qty (side ! k) else ?part) = ?part"
    using part part_le by (simp add: word_less_nat_alt)
  have cq: "crossing_qty side k ?T < 2 ^ 64"
    using f(5) side_qty_take[of "Suc k" side] assms(1) by (simp add: depth_fits_def)
  have qty: "unat (q + ?part) = crossing_qty side k ?T"
    using cq assms(3,4) part by (subst unat_add_fits) (simp_all add: crossing_qty_def)
  have T128: "?T < 2 ^ 91" using unat_u64[of t] by simp
  have mul: "unat (ucast ?P * (ucast ?part :: Notional)) = unat ?P * unat ?part"
    by (subst unat_mult_fits)
       (use f(3) T128 part assms(4) in \<open>simp_all add: crossing_notional_def\<close>)
  have raw: "unat (n + ucast ?P * (ucast ?part :: Notional)) = crossing_notional side k ?T"
    using f(3) T128 part assms(4) mul by (subst unat_add_fits) (simp_all add: crossing_notional_def)
  show "unat (nf_filled_qty (FillAtCrossing side k q n (target_raw t))) = crossing_qty side k ?T"
    using qty by (simp add: FillAtCrossing_def Let_def clamp)
  have "crossing_notional side k ?T div 10 ^ 8 \<le> unat t" using div_le_mono[OF f(3), of "10 ^ 8"] by simp
  then show "unat (nf_filled_notional (FillAtCrossing side k q n (target_raw t))) = crossing_notional side k ?T div 10 ^ 8"
    using raw unat_u64[of t] unfolding FillAtCrossing_def Let_def clamp
    by (simp add: unat_narrow unat_div unat_scale128)
  show "unat (nf_vwap (FillAtCrossing side k q n (target_raw t))) = crossing_notional side k ?T div crossing_qty side k ?T"
    using raw qty unat_quotient_fits[OF f(6)] unfolding FillAtCrossing_def Let_def clamp
    by (auto simp: unat_narrow unat_div simp flip: qty)
qed


lemma FillExhausted_values:
  assumes "depth_fits side" "unat q = side_qty side" "unat n = side_notional side"
  shows "unat (nf_vwap (FillExhausted side q n)) = side_notional side div side_qty side"
    "side_notional side < 2 ^ 64 * 10 ^ 8 \<Longrightarrow> unat (nf_filled_notional (FillExhausted side q n)) = side_notional side div 10 ^ 8"
proof -
  show "unat (nf_vwap (FillExhausted side q n)) = side_notional side div side_qty side"
  proof (cases "q = 0")
    case True
    then show ?thesis using assms(2) by (simp add: FillExhausted_def flip: assms(2))
  next
    case False
    then show ?thesis
      using unat_quotient_fits[OF side_notional_max[of side]] assms(2,3)
      by (simp add: FillExhausted_def unat_narrow unat_div)
  qed
  assume "side_notional side < 2 ^ 64 * 10 ^ 8"
  then have "side_notional side div 10 ^ 8 < 2 ^ 64" by (simp add: less_mult_imp_div_less)
  then show "unat (nf_filled_notional (FillExhausted side q n)) = side_notional side div 10 ^ 8"
    using assms(3) by (simp add: FillExhausted_def unat_narrow unat_div unat_scale128)
qed

lemma FillToNotional_cases [case_names Empty Zero Exhausted Crossing]:
  fixes side t
  defines "T \<equiv> unat t * 10 ^ 8"
  assumes "depth_fits side"
  obtains "side = []" | "t = 0" "side \<noteq> []" "FillToNotional side t = empty_NotionalFill"
  | q n where "side \<noteq> []" "side_notional side < T" "unat q = side_qty side" "unat n = side_notional side"
      "FillToNotional side t = FillExhausted side q n"
  | k q n where "is_crossing side k T" "unat q = side_qty (take k side)" "unat n = side_notional (take k side)"
      "t \<noteq> 0" "T \<le> side_notional side" "FillToNotional side t = FillAtCrossing side k q n (target_raw t)"
proof (cases "side = []")
  case False
  then show ?thesis
  proof (cases "t = 0")
    case True
    then have "target_raw t = 0" by (simp add: target_raw_def)
    then show ?thesis using that(2) True False by (simp add: FillToNotional_def)
  next
    case t0: False
    show ?thesis
    proof (cases "side_notional side < T")
      case True
      then show ?thesis using FillToNotional_exhausted[OF assms(2), of t] False that(3) unfolding T_def by blast
    next
      case nf: False
      then obtain k q n where "k < length side" "unat q = side_qty (take k side)" "unat n = side_notional (take k side)"
        "unat n < T" "T \<le> side_notional (take (Suc k) side)" "FillToNotional side t = FillAtCrossing side k q n (target_raw t)"
        using FillToNotional_crossing[OF assms(2), of t] t0 unfolding T_def by auto
      then show ?thesis using that(4)[of k q n] t0 nf by (simp add: is_crossing_def)
    qed
  qed
qed (use that(1) in blast)

lemma nf_insufficient_simps [simp]:
  "\<not> nf_insufficient_depth (FillAtCrossing side k q n t)" "nf_insufficient_depth (FillExhausted side q n)"
  "nf_worst_price (FillAtCrossing side k q n t) = ml_price (side ! k)"
  "nf_worst_price (FillExhausted side q n) = ml_price (last side)"
  "nf_filled_qty (FillExhausted side q n) = q"
  by (simp_all add: FillAtCrossing_def FillExhausted_def Let_def)

lemma target_raw_pos: "0 < target_raw t \<longleftrightarrow> 0 < unat t"
  by (simp add: word_less_nat_alt unat_target_raw)

lemma FillToNotional_insufficient:
  assumes "depth_fits side"
  shows "nf_insufficient_depth (FillToNotional side t) \<longleftrightarrow> side_notional side < unat t * 10 ^ 8"
  using assms
proof (cases rule: FillToNotional_cases[where t = t])
  case Empty
  then show ?thesis by (simp add: FillToNotional_def Let_def target_raw_pos)
qed (auto simp: empty_NotionalFill_def)

lemma FillToNotional_never_overfills:
  assumes "depth_fits side"
  shows "unat (nf_filled_notional (FillToNotional side t)) \<le> unat t"
  using assms
proof (cases rule: FillToNotional_cases[where t = t])
  case (Exhausted q n)
  have "side_notional side < 2 ^ 64 * 10 ^ 8"
    by (rule order_less_trans[OF Exhausted(2)]) (use unat_u64[of t] in simp)
  moreover have "side_notional side div 10 ^ 8 \<le> unat t"
    using div_le_mono[of "side_notional side" "unat t * 10 ^ 8" "10 ^ 8"] Exhausted(2) by simp
  ultimately show ?thesis using FillExhausted_values(2)[OF assms Exhausted(3,4)] Exhausted(5) by simp
next
  case (Crossing k q n)
  have "crossing_notional side k (unat t * 10 ^ 8) div 10 ^ 8 \<le> unat t"
    using div_le_mono[OF crossing_facts(3)[OF Crossing(1)], of "10 ^ 8"] by simp
  then show ?thesis using FillAtCrossing_values(2)[OF assms Crossing(1-3)] Crossing(6) by simp
qed (auto simp: FillToNotional_def empty_NotionalFill_def)

lemma crossing_price_bounds:
  assumes "k < length side" "\<forall>l \<in> set (take (Suc k) side). lo \<le> unat (ml_price l) \<and> unat (ml_price l) \<le> hi"
  shows "lo * crossing_qty side k T \<le> crossing_notional side k T"
    and "crossing_notional side k T \<le> hi * crossing_qty side k T"
proof -
  have b: "\<forall>l \<in> set (take k side). lo \<le> unat (ml_price l) \<and> unat (ml_price l) \<le> hi"
    and k: "lo \<le> unat (ml_price (side ! k))" "unat (ml_price (side ! k)) \<le> hi"
    using assms by (auto simp: take_Suc_conv_app_nth)
  show "lo * crossing_qty side k T \<le> crossing_notional side k T"
    unfolding crossing_notional_def crossing_qty_def distrib_left
    by (intro add_mono side_notional_price_bounds(1)[OF b] mult_right_mono k) simp
  show "crossing_notional side k T \<le> hi * crossing_qty side k T"
    unfolding crossing_notional_def crossing_qty_def distrib_left
    by (intro add_mono side_notional_price_bounds(2)[OF b] mult_right_mono k) simp
qed

lemma FillToNotional_vwap:
  assumes "depth_fits side" "side \<noteq> []" "nf_filled_qty (FillToNotional side t) \<noteq> 0"
    and "\<And>k. k < length side \<Longrightarrow> ml_price (side ! k) = nf_worst_price (FillToNotional side t) \<Longrightarrow>
      \<forall>l \<in> set (take (Suc k) side). lo \<le> unat (ml_price l) \<and> unat (ml_price l) \<le> hi"
  shows "lo \<le> unat (nf_vwap (FillToNotional side t)) \<and> unat (nf_vwap (FillToNotional side t)) \<le> hi"
  using assms(1)
proof (cases rule: FillToNotional_cases[where t = t])
  case (Exhausted q n)
  have q: "0 < side_qty side" using assms(3) Exhausted(3,5) by (metis nf_insufficient_simps(5) not_gr_zero unat_eq_zero)
  have "\<forall>l \<in> set side. lo \<le> unat (ml_price l) \<and> unat (ml_price l) \<le> hi"
    using assms(4)[of "length side - 1"] Exhausted(1,5) by (simp add: last_conv_nth)
  then show ?thesis using FillExhausted_values(1)[OF assms(1) Exhausted(3,4)] Exhausted(5)
      mean_bounds[OF side_notional_price_bounds q] by simp
next
  case (Crossing k q n)
  have q: "0 < crossing_qty side k (unat t * 10 ^ 8)"
    using assms(3) FillAtCrossing_values(1)[OF assms(1) Crossing(1-3)] Crossing(6) by (metis not_gr_zero unat_eq_zero)
  have "k < length side" using Crossing(1) by (simp add: is_crossing_def)
  moreover from this have "\<forall>l \<in> set (take (Suc k) side). lo \<le> unat (ml_price l) \<and> unat (ml_price l) \<le> hi"
    using assms(4) Crossing(6) by simp
  ultimately show ?thesis using FillAtCrossing_values(3)[OF assms(1) Crossing(1-3)] Crossing(6)
      mean_bounds[OF crossing_price_bounds q] by simp
qed (use assms in \<open>auto simp: empty_NotionalFill_def\<close>)

lemma prefix_between:
  assumes "sorted_wrt better (map ml_price side)" "k < length side" "l \<in> set (take (Suc k) side)"
  shows "l = hd side \<or> better (ml_price (hd side)) (ml_price l)"
    and "l = side ! k \<or> better (ml_price l) (ml_price (side ! k))"
proof -
  obtain i where "i < Suc k" "l = side ! i" using assms(2,3) by (auto simp: in_set_conv_nth)
  then have i: "i \<le> k" "l = side ! i" by simp_all
  have lt: "better (ml_price (side ! a)) (ml_price (side ! b))" if "a < b" "b < length side" for a b
    using sorted_wrt_nth_less[OF assms(1)] that by simp
  show "l = hd side \<or> better (ml_price (hd side)) (ml_price l)"
    using lt[of 0 i] i assms(2) hd_conv_nth[of side] by (cases "i = 0") force+
  show "l = side ! k \<or> better (ml_price l) (ml_price (side ! k))"
    using lt[of i k] i assms(2) by (cases "i = k") auto
qed

section \<open>What a price band computes\<close>

definition bps_fits :: "PriceTicks \<Rightarrow> bool \<Rightarrow> u32 \<Rightarrow> bool" where
  "bps_fits p is_bid bps \<longleftrightarrow>
     is_bid \<or> (unat bps + 10000 < 2 ^ 32 \<and> unat p * (10000 + unat bps) div 10000 < 2 ^ 64)"

lemma unat_u32_u128 [simp]: "unat (ucast (x :: u32) :: u128) = unat x"
  by (simp add: unat_ucast_up)

lemma unat_scaled: "unat (ucast p * (ucast f :: Notional)) = unat (p :: u64) * unat (f :: u32)"
proof -
  have "unat p * unat f < 2 ^ 64 * 2 ^ 32" using unat_u64[of p] unsigned_less[of f] by (intro mult_strict_mono') auto
  then have "unat p * unat f < 2 ^ 128" by (rule order_less_trans) simp
  then show ?thesis by (subst unat_mult_fits) simp_all
qed

lemma bps_limit_bid:
  "unat (bps_limit p bps True) = unat p * (10000 - min (unat bps) 10000) div 10000"
proof -
  have c: "unat (10000 - (if bps > 10000 then 10000 else bps)) = 10000 - min (unat bps) 10000"
    by (auto simp: unat_sub word_less_nat_alt word_le_nat_alt)
  have "unat p * (10000 - min (unat bps) 10000) div 10000 \<le> unat p * 10000 div 10000"
    by (intro div_le_mono mult_left_mono) auto
  then have "unat p * (10000 - min (unat bps) 10000) div 10000 < 2 ^ 64" using unat_u64[of p] by simp
  then show ?thesis unfolding bps_limit_def Let_def simp_thms if_True
    by (simp only: unat_narrow unat_div unat_scaled c) simp
qed

lemma bps_limit_ask:
  assumes "bps_fits p False bps"
  shows "unat (bps_limit p bps False) = unat p * (10000 + unat bps) div 10000"
proof -
  have c: "unat (10000 + bps) = 10000 + unat bps"
    using assms by (subst unat_add_fits) (simp_all add: bps_fits_def)
  show ?thesis using assms unfolding bps_limit_def Let_def simp_thms if_False bps_fits_def
    by (simp only: unat_narrow unat_div unat_scaled c) simp
qed

lemma bps_inside_mono:
  assumes "bps \<le> bps'" "bps_fits p is_bid bps" "bps_fits p is_bid bps'" "bps_inside is_bid (bps_limit p bps is_bid) l"
  shows "bps_inside is_bid (bps_limit p bps' is_bid) l"
proof (cases is_bid)
  case True
  have "unat (bps_limit p bps' True) \<le> unat (bps_limit p bps True)"
    unfolding bps_limit_bid using assms(1) by (intro div_le_mono mult_left_mono) (auto simp: word_le_nat_alt)
  then show ?thesis using assms(4) True by (auto simp: bps_inside_def word_le_nat_alt)
next
  case False
  have "unat (bps_limit p bps False) \<le> unat (bps_limit p bps' False)"
    using assms False bps_limit_ask by (simp add: div_le_mono word_le_nat_alt)
  then show ?thesis using assms(4) False by (auto simp: bps_inside_def word_le_nat_alt)
qed

lemma bps_bands_map:
  assumes "sorted bands" "\<forall>b \<in> set bands. b0 \<le> b \<and> bps_fits (ml_price (hd side)) is_bid b" "side \<noteq> []"
    "(bps_fits (ml_price (hd side)) is_bid b0 \<and>
        bps_walk is_bid (bps_limit (ml_price (hd side)) b0 is_bid) side 0 0 0 = (i, q, n)) \<or> (i = 0 \<and> q = 0 \<and> n = 0)"
  shows "bps_bands_loop side is_bid bands i q n = map (\<lambda>bps. FillToBps side bps is_bid) bands"
  using assms
proof (induction bands arbitrary: b0 i q n)
  case (Cons b bs)
  let ?p = "ml_price (hd side)"
  have resume: "bps_walk is_bid (bps_limit ?p b is_bid) (drop i side) i q n = bps_walk is_bid (bps_limit ?p b is_bid) side 0 0 0"
    using bps_walk_resume[of is_bid "bps_limit ?p b0 is_bid" side 0 0 0 i q n "bps_limit ?p b is_bid"]
      bps_inside_mono[of b0 b ?p is_bid] Cons.prems(2,4) by auto
  obtain i' q' n' where w: "bps_walk is_bid (bps_limit ?p b is_bid) side 0 0 0 = (i', q', n')" by (metis prod_cases3)
  have "bps_bands_loop side is_bid bs i' q' n' = map (\<lambda>bps. FillToBps side bps is_bid) bs"
    using Cons.IH[of b i' q' n'] Cons.prems w by auto
  then show ?case using Cons.prems(3) w resume by (simp add: FillToBps_def[of side b] Let_def)
qed simp

lemma FillToBpsBands_map:
  assumes "sorted bands" "\<forall>b \<in> set bands. side \<noteq> [] \<longrightarrow> bps_fits (ml_price (hd side)) is_bid b"
  shows "FillToBpsBands side bands is_bid = map (\<lambda>bps. FillToBps side bps is_bid) bands"
proof (cases "side = []")
  case True
  then show ?thesis by (simp add: FillToBpsBands_def FillToBps_def map_replicate_const)
next
  case False
  then show ?thesis unfolding FillToBpsBands_def using assms bps_bands_map[of bands 0 side is_bid 0 0 0] by simp
qed

text \<open>On a side in price order the walk takes exactly the levels inside the limit.\<close>

lemma bps_walk_takeWhile:
  "bps_walk is_bid k side i q n =
     (i + length (takeWhile (bps_inside is_bid k) side),
      q + sum_list (map ml_qty (takeWhile (bps_inside is_bid k) side)),
      n + sum_list (map level_notional (takeWhile (bps_inside is_bid k) side)))"
  by (induction is_bid k side i q n rule: bps_walk.induct) (simp_all add: add.assoc)

lemma takeWhile_filter_bps:
  assumes "sorted_wrt (if is_bid then (\<lambda>a b. b < a) else (<)) (map ml_price side)"
  shows "takeWhile (bps_inside is_bid k) side = filter (bps_inside is_bid k) side"
  using assms
proof (induction side)
  case (Cons l ls)
  show ?case
  proof (cases "bps_inside is_bid k l")
    case True
    then show ?thesis using Cons by simp
  next
    case False
    have "\<forall>l' \<in> set ls. \<not> bps_inside is_bid k l'"
      using Cons.prems False by (auto simp: bps_inside_def split: if_splits)
    then show ?thesis using False by (simp add: filter_empty_conv)
  qed
qed simp

lemma FillToBps_exact:
  fixes bps
  assumes "sorted_wrt (if is_bid then (\<lambda>a b. b < a) else (<)) (map ml_price side)" "side \<noteq> []"
  defines "k \<equiv> bps_limit (ml_price (hd side)) bps is_bid"
  defines "band \<equiv> filter (bps_inside is_bid k) side"
  shows "bf_limit_price (FillToBps side bps is_bid) = k"
    and "bf_cum_qty (FillToBps side bps is_bid) = sum_list (map ml_qty band)"
    and "bf_level_count (FillToBps side bps is_bid) = of_nat (length band)"
    and "bf_cum_notional (FillToBps side bps is_bid) = ucast (sum_list (map level_notional band) div scale128)"
    and "bf_insufficient_depth (FillToBps side bps is_bid) \<longleftrightarrow> band = side"
proof -
  have r: "FillToBps side bps is_bid = bps_result k (length side) (length band)
      (sum_list (map ml_qty band)) (sum_list (map level_notional band))"
    using assms(2) takeWhile_filter_bps[OF assms(1), of k]
    by (simp add: FillToBps_def bps_walk_takeWhile Let_def band_def flip: k_def)
  show "bf_limit_price (FillToBps side bps is_bid) = k"
    and "bf_cum_qty (FillToBps side bps is_bid) = sum_list (map ml_qty band)"
    and "bf_level_count (FillToBps side bps is_bid) = of_nat (length band)"
    and "bf_cum_notional (FillToBps side bps is_bid) = ucast (sum_list (map level_notional band) div scale128)"
    by (simp_all add: r bps_result_def Let_def empty_BpsFill_def)
  have "length band = length side \<longleftrightarrow> band = side"
    by (metis band_def filter_id_conv length_filter_less less_irrefl)
  then show "bf_insufficient_depth (FillToBps side bps is_bid) \<longleftrightarrow> band = side"
    by (simp add: r bps_result_def Let_def empty_BpsFill_def)
qed

end
