(* ===== verification/Spsc_Queue.thy ===== *)
theory Spsc_Queue
  imports Md_Types
begin

text \<open>
  The lock-free ring of src/md_core/spsc_queue.h and the messages of src/md_core/provider_message.h. Cursors are
  64-bit words that count up forever and wrap; a queue refines a bounded list (\<open>contents\<close>), which is the interface
  \<open>bounded_fifo\<close> the core relies on. \<open>queue_step\<close> interleaves one producer and one consumer between their loads
  and stores, and every reachable state keeps first-in first-out order.
\<close>

unbundle bit_operations_syntax

section \<open>The ring buffer\<close>

record 'a SpscQueue =
  sq_head :: u64
  sq_tail :: u64
  sq_buffer :: "'a list"

definition new_queue :: "nat \<Rightarrow> 'a \<Rightarrow> 'a SpscQueue" where
  "new_queue cap init = \<lparr>sq_head = 0, sq_tail = 0, sq_buffer = replicate cap init\<rparr>"

definition kMask :: "nat \<Rightarrow> u64" where
  "kMask cap = of_nat cap - 1"

definition ring_index :: "nat \<Rightarrow> u64 \<Rightarrow> nat" where
  "ring_index cap cursor = unat (cursor AND kMask cap)"

definition TryPush :: "nat \<Rightarrow> 'a SpscQueue \<Rightarrow> 'a \<Rightarrow> bool \<times> 'a SpscQueue" where
  "TryPush cap q value =
     (let head = sq_head q; next = head + 1
      in if next - sq_tail q > of_nat cap then (False, q)
         else (True, q\<lparr>sq_buffer := (sq_buffer q)[ring_index cap head := value], sq_head := next\<rparr>))"

definition TryPop :: "nat \<Rightarrow> 'a SpscQueue \<Rightarrow> 'a option \<times> 'a SpscQueue" where
  "TryPop cap q =
     (let tail = sq_tail q
      in if tail = sq_head q then (None, q)
         else (Some (sq_buffer q ! ring_index cap tail), q\<lparr>sq_tail := tail + 1\<rparr>))"

definition Empty :: "'a SpscQueue \<Rightarrow> bool" where
  "Empty q \<longleftrightarrow> sq_head q = sq_tail q"

definition Full :: "nat \<Rightarrow> 'a SpscQueue \<Rightarrow> bool" where
  "Full cap q \<longleftrightarrow> sq_head q - sq_tail q = of_nat cap"

section \<open>The queue as a list\<close>

definition qlen :: "'a SpscQueue \<Rightarrow> nat" where
  "qlen q = unat (sq_head q - sq_tail q)"

definition contents :: "nat \<Rightarrow> 'a SpscQueue \<Rightarrow> 'a list" where
  "contents cap q = map (\<lambda>k. sq_buffer q ! ring_index cap (sq_tail q + of_nat k)) [0..<qlen q]"

definition single_bit :: "nat \<Rightarrow> bool" where
  "single_bit cap \<longleftrightarrow> (\<exists>n < 64. cap = 2 ^ n)"

definition queue_ok :: "nat \<Rightarrow> 'a SpscQueue \<Rightarrow> bool" where
  "queue_ok cap q \<longleftrightarrow> single_bit cap \<and> length (sq_buffer q) = cap \<and> qlen q \<le> cap"

lemma length_contents [simp]: "length (contents cap q) = qlen q"
  by (simp add: contents_def)

lemma single_bit_bounds: "single_bit cap \<Longrightarrow> 0 < cap \<and> cap \<le> 2 ^ 63 \<and> cap dvd 2 ^ 64"
  unfolding single_bit_def using power_increasing[of _ 63 "2 :: nat"] le_imp_power_dvd[of _ 64 "2 :: nat"] by auto

lemma ring_index_mod:
  assumes "single_bit cap"
  shows "ring_index cap c = unat c mod cap"
proof -
  obtain n where n: "n < 64" "cap = 2 ^ n" using assms by (auto simp: single_bit_def)
  have "kMask cap = mask n" by (simp add: kMask_def n(2) mask_eq_exp_minus_1)
  then have "c AND kMask cap = take_bit n c" by (simp add: take_bit_eq_mask)
  then show ?thesis unfolding ring_index_def n(2) by (simp only: unsigned_take_bit_eq) (simp add: take_bit_eq_mod)
qed

lemma unat_add_nat: "unat (c + of_nat k :: u64) = (unat c + k) mod 2 ^ 64"
  by (simp add: unat_word_ariths unsigned_of_nat take_bit_eq_mod mod_simps)

lemma ring_index_offset:
  assumes "single_bit cap"
  shows "ring_index cap (c + of_nat k) = (unat c + k) mod cap"
  unfolding ring_index_mod[OF assms] unat_add_nat using single_bit_bounds[OF assms] by (simp add: mod_mod_cancel)

lemma ring_index_less: "single_bit cap \<Longrightarrow> ring_index cap c < cap"
  using single_bit_bounds by (simp add: ring_index_mod)

lemma ring_index_inj:
  assumes "single_bit cap" "i < cap" "j < cap" "ring_index cap (c + of_nat i) = ring_index cap (c + of_nat j)"
  shows "i = j"
proof -
  have "(unat c + i) mod cap = (unat c + j) mod cap" using assms by (simp add: ring_index_offset)
  then show ?thesis using assms(2,3) nat_dvd_not_less
    by (cases i j rule: linorder_cases) (fastforce simp: mod_eq_dvd_iff_nat dest: sym)+
qed

lemma head_offset: "sq_head q = sq_tail q + of_nat (qlen q)"
  by (simp add: qlen_def)


lemma qlen_push:
  assumes "qlen q \<le> 2 ^ 63"
  shows "unat (sq_head q + 1 - sq_tail q) = Suc (qlen q)"
proof -
  have "sq_head q + 1 - sq_tail q = (sq_head q - sq_tail q) + of_nat 1" by simp
  then have "unat (sq_head q + 1 - sq_tail q) = (qlen q + 1) mod 2 ^ 64" by (simp only: unat_add_nat qlen_def)
  then show ?thesis using assms by simp
qed

lemma push_room:
  assumes "queue_ok cap q"
  shows "sq_head q + 1 - sq_tail q > of_nat cap \<longleftrightarrow> qlen q = cap"
proof -
  have b: "cap \<le> 2 ^ 63" "qlen q \<le> cap" using assms single_bit_bounds by (auto simp: queue_ok_def)
  then have "unat (sq_head q + 1 - sq_tail q) = Suc (qlen q)" by (intro qlen_push) simp
  then show ?thesis using b by (auto simp: word_less_nat_alt unsigned_of_nat take_bit_nat_eq_self)
qed

lemma TryPush_full: "queue_ok cap q \<Longrightarrow> qlen q = cap \<Longrightarrow> TryPush cap q v = (False, q)"
  by (simp add: TryPush_def Let_def push_room)

lemma write_head_contents:
  assumes "queue_ok cap q" "qlen q < cap"
  shows "contents cap (q\<lparr>sq_buffer := (sq_buffer q)[ring_index cap (sq_head q) := v]\<rparr>) = contents cap q"
proof -
  have sb: "single_bit cap" using assms by (simp add: queue_ok_def)
  have "ring_index cap (sq_head q) \<noteq> ring_index cap (sq_tail q + of_nat k)" if "k < qlen q" for k
    using ring_index_inj[OF sb, of "qlen q" k "sq_tail q"] that assms(2) head_offset[of q] by auto
  then show ?thesis by (simp add: contents_def qlen_def)
qed

lemma contents_publish:
  assumes "queue_ok cap q" "qlen q < cap"
  shows "contents cap (q\<lparr>sq_head := sq_head q + 1\<rparr>) = contents cap q @ [sq_buffer q ! ring_index cap (sq_head q)]"
    and "queue_ok cap (q\<lparr>sq_head := sq_head q + 1\<rparr>)"
proof -
  have "cap \<le> 2 ^ 63" using assms(1) single_bit_bounds by (auto simp: queue_ok_def)
  then have "qlen q \<le> 2 ^ 63" using assms(2) by simp
  then have l: "qlen (q\<lparr>sq_head := sq_head q + 1\<rparr>) = Suc (qlen q)" using qlen_push[of q] by (simp add: qlen_def)
  show "contents cap (q\<lparr>sq_head := sq_head q + 1\<rparr>) = contents cap q @ [sq_buffer q ! ring_index cap (sq_head q)]"
    unfolding contents_def l by (simp add: head_offset[of q, symmetric])
  show "queue_ok cap (q\<lparr>sq_head := sq_head q + 1\<rparr>)" using assms l by (simp add: queue_ok_def)
qed

lemma queue_ok_write: "queue_ok cap q \<Longrightarrow> queue_ok cap (q\<lparr>sq_buffer := (sq_buffer q)[i := v]\<rparr>)"
  by (simp add: queue_ok_def qlen_def)

lemma TryPush_room:
  assumes "queue_ok cap q" "qlen q < cap"
  shows "fst (TryPush cap q v)" "contents cap (snd (TryPush cap q v)) = contents cap q @ [v]"
    "queue_ok cap (snd (TryPush cap q v))"
proof -
  let ?w = "q\<lparr>sq_buffer := (sq_buffer q)[ring_index cap (sq_head q) := v]\<rparr>"
  have w: "queue_ok cap ?w" "qlen ?w < cap" using assms queue_ok_write by (auto simp: qlen_def)
  have sb: "single_bit cap" using assms(1) by (simp add: queue_ok_def)
  have p: "TryPush cap q v = (True, ?w\<lparr>sq_head := sq_head ?w + 1\<rparr>)"
    using push_room[OF assms(1)] assms(2) by (simp add: TryPush_def Let_def)
  have at: "sq_buffer ?w ! ring_index cap (sq_head ?w) = v"
    using ring_index_less[OF sb] assms(1) by (simp add: queue_ok_def)
  show "fst (TryPush cap q v)" by (simp add: p)
  show "contents cap (snd (TryPush cap q v)) = contents cap q @ [v]"
    unfolding p snd_conv contents_publish(1)[OF w] at by (simp only: write_head_contents[OF assms])
  show "queue_ok cap (snd (TryPush cap q v))" unfolding p snd_conv by (rule contents_publish(2)[OF w])
qed

lemma contents_free:
  assumes "queue_ok cap q" "0 < qlen q"
  shows "contents cap q = sq_buffer q ! ring_index cap (sq_tail q) # contents cap (q\<lparr>sq_tail := sq_tail q + 1\<rparr>)"
    and "queue_ok cap (q\<lparr>sq_tail := sq_tail q + 1\<rparr>)"
    and "Suc (qlen (q\<lparr>sq_tail := sq_tail q + 1\<rparr>)) = qlen q"
proof -
  have e: "sq_head q - (sq_tail q + 1) = sq_head q - sq_tail q - 1" by simp
  have "sq_head q - sq_tail q \<noteq> 0" using assms(2) by (auto simp: qlen_def)
  then have "unat (sq_head q - sq_tail q - 1) = qlen q - 1" by (simp add: unat_minus_one qlen_def)
  then show l: "Suc (qlen (q\<lparr>sq_tail := sq_tail q + 1\<rparr>)) = qlen q" using assms(2) by (simp add: qlen_def e)
  have "contents cap q = map (\<lambda>k. sq_buffer q ! ring_index cap (sq_tail q + of_nat k)) [0..<Suc (qlen (q\<lparr>sq_tail := sq_tail q + 1\<rparr>))]"
    by (simp only: l contents_def)
  then show "contents cap q = sq_buffer q ! ring_index cap (sq_tail q) # contents cap (q\<lparr>sq_tail := sq_tail q + 1\<rparr>)"
    by (simp add: map_upt_Suc contents_def add.assoc del: upt_Suc)
  show "queue_ok cap (q\<lparr>sq_tail := sq_tail q + 1\<rparr>)" using assms l by (auto simp: queue_ok_def)
qed

lemma qlen_0_iff: "qlen q = 0 \<longleftrightarrow> sq_tail q = sq_head q"
  by (auto simp: qlen_def unat_eq_zero)

lemma contents_Nil_iff: "contents cap q = [] \<longleftrightarrow> sq_tail q = sq_head q"
  using qlen_0_iff[of q] length_contents[of cap q] length_0_conv[of "contents cap q"] by simp

lemma TryPop_empty: "contents cap q = [] \<Longrightarrow> TryPop cap q = (None, q)"
  by (simp add: contents_Nil_iff TryPop_def)

lemma TryPop_Cons:
  assumes "queue_ok cap q" "contents cap q = x # xs"
  shows "fst (TryPop cap q) = Some x" "contents cap (snd (TryPop cap q)) = xs" "queue_ok cap (snd (TryPop cap q))"
proof -
  have "0 < qlen q" using assms(2) by (metis length_contents length_greater_0_conv list.distinct(1))
  note f = contents_free[OF assms(1) this]
  have "sq_tail q \<noteq> sq_head q" using \<open>0 < qlen q\<close> by (auto simp: qlen_0_iff[symmetric])
  then have "TryPop cap q = (Some (sq_buffer q ! ring_index cap (sq_tail q)), q\<lparr>sq_tail := sq_tail q + 1\<rparr>)"
    by (simp add: TryPop_def Let_def)
  then show "fst (TryPop cap q) = Some x" "contents cap (snd (TryPop cap q)) = xs" "queue_ok cap (snd (TryPop cap q))"
    using f assms(2) by simp_all
qed

lemma Empty_contents: "Empty q \<longleftrightarrow> contents cap q = []"
  by (auto simp: Empty_def contents_Nil_iff)

lemma Full_contents:
  assumes "queue_ok cap q"
  shows "Full cap q \<longleftrightarrow> length (contents cap q) = cap"
proof -
  have "cap \<le> 2 ^ 63" using assms single_bit_bounds by (auto simp: queue_ok_def)
  then show ?thesis by (auto simp: Full_def qlen_def word_unat_eq_iff unsigned_of_nat take_bit_nat_eq_self)
qed

lemma new_queue_ok: "single_bit cap \<Longrightarrow> queue_ok cap (new_queue cap v) \<and> contents cap (new_queue cap v) = []"
  by (simp add: queue_ok_def new_queue_def contents_def qlen_def)


section \<open>The interface its users rely on\<close>

locale bounded_fifo =
  fixes push :: "'q \<Rightarrow> 'a \<Rightarrow> bool \<times> 'q"
    and pop :: "'q \<Rightarrow> 'a option \<times> 'q"
    and items :: "'q \<Rightarrow> 'a list"
    and ok :: "'q \<Rightarrow> bool"
    and bound :: nat
  assumes push_full: "ok q \<Longrightarrow> length (items q) = bound \<Longrightarrow> push q v = (False, q)"
    and push_room: "ok q \<Longrightarrow> length (items q) < bound \<Longrightarrow>
      fst (push q v) \<and> items (snd (push q v)) = items q @ [v] \<and> ok (snd (push q v))"
    and pop_empty: "ok q \<Longrightarrow> items q = [] \<Longrightarrow> pop q = (None, q)"
    and pop_Cons: "ok q \<Longrightarrow> items q = x # xs \<Longrightarrow>
      fst (pop q) = Some x \<and> items (snd (pop q)) = xs \<and> ok (snd (pop q))"
    and items_bound: "ok q \<Longrightarrow> length (items q) \<le> bound"
begin

lemma push_items:
  assumes "ok q"
  shows "fst (push q v) \<longleftrightarrow> length (items q) < bound"
    and "items (snd (push q v)) = (if length (items q) < bound then items q @ [v] else items q)"
    and "ok (snd (push q v))"
  using push_full[OF assms, of v] push_room[OF assms, of v] items_bound[OF assms] assms
  by (cases "length (items q) < bound"; simp)+

lemma pop_items:
  assumes "ok q"
  shows "fst (pop q) = (case items q of [] \<Rightarrow> None | x # _ \<Rightarrow> Some x)" "items (snd (pop q)) = tl (items q)" "ok (snd (pop q))"
  using pop_empty[OF assms] pop_Cons[OF assms] assms by (cases "items q"; simp)+

end

text \<open>A bounded number of attempts: what \<^verbatim>\<open>TryEnqueueBounded\<close> of md_core.cpp does with a queue.\<close>

fun retry :: "nat \<Rightarrow> ('q \<Rightarrow> 'a \<Rightarrow> bool \<times> 'q) \<Rightarrow> 'q \<Rightarrow> 'a \<Rightarrow> bool \<times> 'q" where
  "retry 0 push q v = (False, q)"
| "retry (Suc n) push q v =
     (let (pushed, q') = push q v in if pushed then (True, q') else retry n push q' v)"

context bounded_fifo
begin

lemma retry_items:
  assumes "ok q" "0 < n"
  shows "fst (retry n push q v) \<longleftrightarrow> length (items q) < bound"
    and "items (snd (retry n push q v)) = (if length (items q) < bound then items q @ [v] else items q)"
    and "ok (snd (retry n push q v))"
proof -
  have "length (items q) \<noteq> bound \<longrightarrow> length (items q) < bound" using items_bound[OF assms(1)] by simp
  moreover have "length (items q) = bound \<Longrightarrow> retry k push q v = (False, q)" for k
    by (induction k) (simp_all add: push_full[OF assms(1)])
  moreover have "length (items q) < bound \<Longrightarrow> retry n push q v = push q v"
    using assms(2) push_room[OF assms(1), of v] by (cases n) (auto simp: Let_def split: prod.splits)
  ultimately show "fst (retry n push q v) \<longleftrightarrow> length (items q) < bound"
    and "items (snd (retry n push q v)) = (if length (items q) < bound then items q @ [v] else items q)"
    and "ok (snd (retry n push q v))"
    using push_items[OF assms(1), of v] assms(1) by (cases "length (items q) < bound"; simp)+
qed

end

interpretation spsc: bounded_fifo "TryPush cap" "TryPop cap" "contents cap" "queue_ok cap" cap for cap
proof unfold_locales
  fix q :: "'a SpscQueue" and v x xs
  show "queue_ok cap q \<Longrightarrow> length (contents cap q) = cap \<Longrightarrow> TryPush cap q v = (False, q)" by (simp add: TryPush_full)
  show "queue_ok cap q \<Longrightarrow> length (contents cap q) < cap \<Longrightarrow> fst (TryPush cap q v) \<and>
      contents cap (snd (TryPush cap q v)) = contents cap q @ [v] \<and> queue_ok cap (snd (TryPush cap q v))"
    using TryPush_room[of cap q v] by simp
  show "queue_ok cap q \<Longrightarrow> contents cap q = [] \<Longrightarrow> TryPop cap q = (None, q)" by (rule TryPop_empty)
  show "queue_ok cap q \<Longrightarrow> contents cap q = x # xs \<Longrightarrow> fst (TryPop cap q) = Some x \<and>
      contents cap (snd (TryPop cap q)) = xs \<and> queue_ok cap (snd (TryPop cap q))"
    using TryPop_Cons[of cap q x xs] by simp
  show "queue_ok cap q \<Longrightarrow> length (contents cap q) \<le> cap" by (simp add: queue_ok_def)
qed

section \<open>Two threads\<close>

text \<open>
  The producer and the consumer interleave between the loads and stores of \<^verbatim>\<open>TryPush\<close> and \<^verbatim>\<open>TryPop\<close>: each
  release store publishes the buffer access before it, so the accesses of one thread are seen in program order.
  A thread's local state is where it stands in its call; \<open>th_pushed\<close> and \<open>th_popped\<close> are the histories of the
  successful calls.
\<close>

datatype 'a producer_at = PIdle | PRoom 'a | PWritten 'a
datatype 'a consumer_at = CIdle | CAvailable | CRead 'a

record 'a queue_threads =
  th_queue :: "'a SpscQueue"
  th_producer :: "'a producer_at"
  th_consumer :: "'a consumer_at"
  th_pushed :: "'a list"
  th_popped :: "'a list"

inductive queue_step :: "nat \<Rightarrow> 'a queue_threads \<Rightarrow> 'a queue_threads \<Rightarrow> bool" for cap where
  push_check: "th_producer s = PIdle \<Longrightarrow> \<not> sq_head (th_queue s) + 1 - sq_tail (th_queue s) > of_nat cap \<Longrightarrow>
    queue_step cap s (s\<lparr>th_producer := PRoom v\<rparr>)"
| push_write: "th_producer s = PRoom v \<Longrightarrow>
    queue_step cap s (s\<lparr>th_producer := PWritten v,
      th_queue := (th_queue s)\<lparr>sq_buffer := (sq_buffer (th_queue s))[ring_index cap (sq_head (th_queue s)) := v]\<rparr>\<rparr>)"
| push_publish: "th_producer s = PWritten v \<Longrightarrow>
    queue_step cap s (s\<lparr>th_producer := PIdle, th_pushed := th_pushed s @ [v],
      th_queue := (th_queue s)\<lparr>sq_head := sq_head (th_queue s) + 1\<rparr>\<rparr>)"
| pop_check: "th_consumer s = CIdle \<Longrightarrow> sq_tail (th_queue s) \<noteq> sq_head (th_queue s) \<Longrightarrow>
    queue_step cap s (s\<lparr>th_consumer := CAvailable\<rparr>)"
| pop_read: "th_consumer s = CAvailable \<Longrightarrow>
    queue_step cap s (s\<lparr>th_consumer := CRead (sq_buffer (th_queue s) ! ring_index cap (sq_tail (th_queue s)))\<rparr>)"
| pop_free: "th_consumer s = CRead v \<Longrightarrow>
    queue_step cap s (s\<lparr>th_consumer := CIdle, th_popped := th_popped s @ [v],
      th_queue := (th_queue s)\<lparr>sq_tail := sq_tail (th_queue s) + 1\<rparr>\<rparr>)"

inductive_cases queue_stepE: "queue_step cap s s'"

definition start_threads :: "nat \<Rightarrow> 'a \<Rightarrow> 'a queue_threads" where
  "start_threads cap v = \<lparr>th_queue = new_queue cap v, th_producer = PIdle, th_consumer = CIdle, th_pushed = [], th_popped = []\<rparr>"

definition threads_ok :: "nat \<Rightarrow> 'a queue_threads \<Rightarrow> bool" where
  "threads_ok cap s \<longleftrightarrow>
     (let q = th_queue s in
      queue_ok cap q \<and> th_pushed s = th_popped s @ contents cap q \<and>
      (case th_producer s of PIdle \<Rightarrow> True | PRoom v \<Rightarrow> qlen q < cap
       | PWritten v \<Rightarrow> qlen q < cap \<and> sq_buffer q ! ring_index cap (sq_head q) = v) \<and>
      (case th_consumer s of CIdle \<Rightarrow> True | CAvailable \<Rightarrow> 0 < qlen q
       | CRead v \<Rightarrow> 0 < qlen q \<and> sq_buffer q ! ring_index cap (sq_tail q) = v))"

lemma threads_ok_start: "single_bit cap \<Longrightarrow> threads_ok cap (start_threads cap v)"
  using new_queue_ok[of cap v] by (simp add: threads_ok_def start_threads_def)

lemma head_tail_apart:
  assumes "queue_ok cap q" "0 < qlen q" "qlen q < cap"
  shows "ring_index cap (sq_head q) \<noteq> ring_index cap (sq_tail q)"
proof
  assume "ring_index cap (sq_head q) = ring_index cap (sq_tail q)"
  then have "ring_index cap (sq_tail q + of_nat (qlen q)) = ring_index cap (sq_tail q + of_nat 0)"
    by (simp add: head_offset[of q, symmetric])
  moreover have "single_bit cap" using assms(1) by (simp add: queue_ok_def)
  ultimately show False using ring_index_inj[of cap "qlen q" 0] assms by simp
qed

lemma threads_ok_step:
  assumes "queue_step cap s s'" "threads_ok cap s"
  shows "threads_ok cap s'"
  using assms
proof (induction rule: queue_step.induct)
  case (push_check s v)
  then show ?case using push_room[of cap "th_queue s"]
    by (auto simp: threads_ok_def Let_def queue_ok_def)
next
  case (push_write s v)
  let ?q = "th_queue s"
  have q: "queue_ok cap ?q" "qlen ?q < cap" using push_write by (auto simp: threads_ok_def Let_def)
  have w: "sq_buffer ?q ! ring_index cap (sq_tail ?q) =
      (sq_buffer ?q)[ring_index cap (sq_head ?q) := v] ! ring_index cap (sq_tail ?q)" if "0 < qlen ?q"
    using head_tail_apart[OF q(1) that q(2)] by simp
  have i: "ring_index cap (sq_head ?q) < length (sq_buffer ?q)"
    using q(1) ring_index_less by (auto simp: queue_ok_def)
  show ?case using push_write w i write_head_contents[OF q] queue_ok_write[OF q(1)]
    by (auto simp: threads_ok_def Let_def qlen_def split: consumer_at.splits)
next
  case (push_publish s v)
  have q: "queue_ok cap (th_queue s)" "qlen (th_queue s) < cap" using push_publish by (auto simp: threads_ok_def Let_def)
  have "0 < qlen ((th_queue s)\<lparr>sq_head := sq_head (th_queue s) + 1\<rparr>)"
    using contents_publish(1)[OF q] by (metis length_contents length_greater_0_conv snoc_eq_iff_butlast)
  then show ?case using push_publish contents_publish[OF q]
    by (auto simp: threads_ok_def Let_def split: consumer_at.splits)
next
  case (pop_check s)
  then show ?case using qlen_0_iff[of "th_queue s"] by (auto simp: threads_ok_def Let_def)
next
  case (pop_read s)
  then show ?case by (auto simp: threads_ok_def Let_def)
next
  case (pop_free s v)
  have q: "queue_ok cap (th_queue s)" "0 < qlen (th_queue s)" using pop_free by (auto simp: threads_ok_def Let_def)
  show ?case using pop_free contents_free[OF q]
    by (auto simp: threads_ok_def Let_def split: producer_at.splits)
qed

lemma threads_ok_reachable:
  "(queue_step cap)\<^sup>*\<^sup>* s s' \<Longrightarrow> threads_ok cap s \<Longrightarrow> threads_ok cap s'"
  by (induction rule: rtranclp_induct) (auto intro: threads_ok_step)

section \<open>Messages between a provider and the core\<close>

datatype ProviderMessage =
  MsgUpdate BookUpdate | MsgQuote BboQuote | MsgHealth VenueHealthEvent | VenueRegistration | VenueDisconnect

definition kProviderQueueCapacity :: nat where "kProviderQueueCapacity = 256"

type_synonym ProviderQueue = "ProviderMessage SpscQueue"

lemma capacity_single_bit [simp]: "single_bit kProviderQueueCapacity"
  unfolding single_bit_def kProviderQueueCapacity_def by (rule exI[of _ 8]) simp

end
