(* ===== verification/Md_Core.thy ===== *)
theory Md_Core
  imports Consolidated_Bbo Bands Spsc_Queue
begin

text \<open>
  The consolidator, src/md_core/md_core.h and md_core.cpp: venue registration and removal, depth updates, quotes and
  health verdicts, and the queued path that drains the providers' rings. Callbacks are the events they receive;
  a \<^verbatim>\<open>std::unordered_map\<close> is a partial function. \<open>core_ok\<close> is the invariant of the class: tables that agree,
  consolidated books that are latched for a rebuild or equal to the merge of the venue books. Every entry point keeps it
  (\<open>core_step_ok\<close>). \<open>quotes_ok\<close> is the invariant of the best bid and offers, which are due a rescan or equal to the scan
  of the stored quotes; two uses of the class break it, and \<open>tidy_step_quotes\<close> is about executions without them.
  \<open>DrainOnce\<close> hands over each queued message once, in order.
\<close>

section \<open>State\<close>

text \<open>What the two callbacks received, in order.\<close>

datatype CoreEvent = BookPublished InstrumentKey Book | BboPublished InstrumentKey BBO

record Core =
  co_active_venues :: "VenueId option list"
  co_venue_id_to_slot :: "VenueSlot option list"
  co_venue_registry :: VenueRegistry
  co_queues :: "ProviderQueue list"
  co_overflow_count :: "u64 list"
  co_quote_drop_count :: "u64 list"
  co_depth_health :: VenueHealthArray
  co_bbo_health :: VenueHealthArray
  co_bbo_health_version :: u64
  co_bbo_health_version_seen :: "InstrumentKey \<Rightarrow> u64 option"
  co_has_bbo_callback :: bool
  co_has_book_callback :: bool
  co_venue_books :: "InstrumentKey \<Rightarrow> FlatBookArray option"
  co_venue_quotes :: "InstrumentKey \<Rightarrow> VenueQuoteArray option"
  co_consolidated_bbo :: "InstrumentKey \<Rightarrow> BBO option"
  co_consolidated_state :: "InstrumentKey \<Rightarrow> State option"
  co_events :: "CoreEvent list"

definition new_Core :: "bool \<Rightarrow> bool \<Rightarrow> Core" where
  "new_Core bbo_callback book_callback =
     \<lparr>co_active_venues = replicate kMaxVenues None,
      co_venue_id_to_slot = replicate kVenueCount None,
      co_venue_registry = empty_registry,
      co_queues = replicate kMaxVenues (new_queue kProviderQueueCapacity VenueRegistration),
      co_overflow_count = replicate kMaxVenues 0,
      co_quote_drop_count = replicate kMaxVenues 0,
      co_depth_health = replicate kMaxVenues kNoData,
      co_bbo_health = replicate kMaxVenues kNoData,
      co_bbo_health_version = 0,
      co_bbo_health_version_seen = (\<lambda>_. None),
      co_has_bbo_callback = bbo_callback,
      co_has_book_callback = book_callback,
      co_venue_books = (\<lambda>_. None),
      co_venue_quotes = (\<lambda>_. None),
      co_consolidated_bbo = (\<lambda>_. None),
      co_consolidated_state = (\<lambda>_. None),
      co_events = []\<rparr>"

text \<open>\<^verbatim>\<open>map[key]\<close> of a \<^verbatim>\<open>std::unordered_map\<close>: the value, or the default it inserts.\<close>

definition map_at :: "('k \<Rightarrow> 'v option) \<Rightarrow> 'k \<Rightarrow> 'v \<Rightarrow> 'v" where
  "map_at m k d = (case m k of None \<Rightarrow> d | Some v \<Rightarrow> v)"

definition venue_count :: "Core \<Rightarrow> nat" where
  "venue_count c = registry_size (co_venue_registry c)"

definition VenueName :: "Core \<Rightarrow> VenueSlot \<Rightarrow> string" where
  "VenueName c slot = Name (co_venue_registry c) slot"

definition SlotFor :: "Core \<Rightarrow> VenueId \<Rightarrow> VenueSlot option" where
  "SlotFor c venue =
     (let index = venue_index venue
      in if index \<ge> length (co_venue_id_to_slot c) then None else co_venue_id_to_slot c ! index)"

definition MarkAllForRebuild :: "Core \<Rightarrow> Core" where
  "MarkAllForRebuild c = c\<lparr>co_consolidated_state := (\<lambda>k. map_option MarkForRebuild (co_consolidated_state c k))\<rparr>"

section \<open>Instruments\<close>

definition AddInstrument :: "Core \<Rightarrow> InstrumentKey \<Rightarrow> Core" where
  "AddInstrument c instrument =
     (let venue_books = map (map_option (\<lambda>v. new_book v instrument)) (co_active_venues c)
      in c\<lparr>co_venue_books := (co_venue_books c)(instrument \<mapsto> venue_books),
           co_venue_quotes := (co_venue_quotes c)(instrument \<mapsto> replicate kMaxVenues empty_quote),
           co_consolidated_state := (co_consolidated_state c)(instrument \<mapsto> map_at (co_consolidated_state c) instrument new_State)\<rparr>)"

definition Init :: "Core \<Rightarrow> CoreConfig \<Rightarrow> Core" where
  "Init c config =
     fold (\<lambda>instrument c.
             let c = AddInstrument c instrument
             in c\<lparr>co_consolidated_bbo := (co_consolidated_bbo c)(instrument \<mapsto> map_at (co_consolidated_bbo c) instrument empty_BBO)\<rparr>)
       (cfg_default_instruments config) c"

definition RemoveInstrument :: "Core \<Rightarrow> InstrumentKey \<Rightarrow> Core" where
  "RemoveInstrument c instrument =
     c\<lparr>co_venue_books := (co_venue_books c)(instrument := None),
       co_venue_quotes := (co_venue_quotes c)(instrument := None),
       co_consolidated_state := (co_consolidated_state c)(instrument := None)\<rparr>"

section \<open>Venue lifecycle\<close>

definition RegisterVenueName :: "Core \<Rightarrow> string \<Rightarrow> VenueSlot option \<times> Core" where
  "RegisterVenueName c name =
     (if ToVenueId name = COUNT then (None, c)
      else let (slot, registry) = Register (co_venue_registry c) name
           in (slot, c\<lparr>co_venue_registry := registry\<rparr>))"

definition ProcessRegistration :: "Core \<Rightarrow> VenueSlot \<Rightarrow> Core" where
  "ProcessRegistration c slot =
     (let index = VenueSlotIndex slot; venue = ToVenueId (Name (co_venue_registry c) slot)
      in if venue = COUNT then c
         else MarkAllForRebuild
                (c\<lparr>co_active_venues := (co_active_venues c)[index := Some venue],
                   co_venue_id_to_slot := (co_venue_id_to_slot c)[venue_index venue := Some slot],
                   co_venue_books := (\<lambda>k. map_option (\<lambda>books. if books ! index = None then books[index := Some (new_book venue k)] else books)
                                              (co_venue_books c k))\<rparr>))"

definition RegisterVenue :: "Core \<Rightarrow> string \<Rightarrow> VenueSlot option \<times> Core" where
  "RegisterVenue c name =
     (case RegisterVenueName c name of
        (None, c') \<Rightarrow> (None, c')
      | (Some slot, c') \<Rightarrow> (Some slot, ProcessRegistration c' slot))"

definition RemoveVenue :: "Core \<Rightarrow> VenueSlot \<Rightarrow> Core" where
  "RemoveVenue c slot =
     (let index = VenueSlotIndex slot
      in if index \<ge> venue_count c then c
         else case co_active_venues c ! index of
                None \<Rightarrow> c
              | Some venue \<Rightarrow>
                  MarkAllForRebuild
                    (c\<lparr>co_venue_id_to_slot := (co_venue_id_to_slot c)[venue_index venue := None],
                       co_active_venues := (co_active_venues c)[index := None],
                       co_venue_books := (\<lambda>k. map_option (\<lambda>books. books[index := None]) (co_venue_books c k)),
                       co_venue_quotes := (\<lambda>k. map_option (\<lambda>quotes. quotes[index := empty_quote]) (co_venue_quotes c k)),
                       co_depth_health := (co_depth_health c)[index := kNoData],
                       co_bbo_health := (co_bbo_health c)[index := kNoData],
                       co_bbo_health_version := co_bbo_health_version c + 1\<rparr>))"

section \<open>Data\<close>

definition depth_levels :: "FlatBookArray \<Rightarrow> nat \<Rightarrow> u32 list" where
  "depth_levels books n =
     map (\<lambda>i. if i < n then (case books ! i of None \<Rightarrow> 0 | Some b \<Rightarrow> of_nat (length (bids_view b))) else 0) [0..<kMaxVenues]"

definition ProcessUpdate :: "Core \<Rightarrow> VenueSlot \<Rightarrow> BookUpdate \<Rightarrow> Core" where
  "ProcessUpdate c slot update =
     (let instrument = bu_instrument update; index = VenueSlotIndex slot in
      case co_venue_books c instrument of
        None \<Rightarrow> c
      | Some books \<Rightarrow>
          (case books ! index of
             None \<Rightarrow> c
           | Some book \<Rightarrow>
               (let book' = ApplyUpdate book update;
                    books' = books[index := Some book'];
                    c = c\<lparr>co_venue_books := (co_venue_books c)(instrument \<mapsto> books')\<rparr>
                in if co_has_book_callback c
                   then let state = map_at (co_consolidated_state c) instrument new_State;
                            state = (if \<not> fb_last_changes_complete book' \<or> st_needs_rebuild state
                                     then FullRebuild state books' (venue_count c) (Some (co_depth_health c))
                                     else if IsAdmissible (co_depth_health c ! index)
                                     then ApplyDepthDelta state slot (fb_last_bid_changes book') (fb_last_ask_changes book')
                                     else state);
                            state = StampForPublish state (bu_recv_mono_ns update) (depth_levels books' (venue_count c))
                        in c\<lparr>co_consolidated_state := (co_consolidated_state c)(instrument \<mapsto> state),
                             co_events := co_events c @ [BookPublished instrument (st_book state)]\<rparr>
                   else c)))"

definition Core_ApplyUpdate :: "Core \<Rightarrow> BookUpdate \<Rightarrow> Core" where
  "Core_ApplyUpdate c update =
     (case SlotFor c (bu_venue update) of None \<Rightarrow> c | Some slot \<Rightarrow> ProcessUpdate c slot update)"

definition ProcessQuote :: "Core \<Rightarrow> VenueSlot \<Rightarrow> BboQuote \<Rightarrow> Core" where
  "ProcessQuote c slot quote =
     (let instrument = q_instrument quote in
      case co_venue_quotes c instrument of
        None \<Rightarrow> c
      | Some quotes \<Rightarrow>
          (let quotes' = quotes[VenueSlotIndex slot := quote];
               bbo = map_at (co_consolidated_bbo c) instrument empty_BBO;
               seen = map_at (co_bbo_health_version_seen c) instrument 0;
               rescan = (seen \<noteq> co_bbo_health_version c);
               bbo' = (if rescan then ComputeBBOFromQuotesInto quotes' bbo (Some (co_bbo_health c))
                       else UpdateBBOWithQuote bbo quote slot quotes' (Some (co_bbo_health c)));
               seen' = (if rescan then co_bbo_health_version c else seen)
           in c\<lparr>co_venue_quotes := (co_venue_quotes c)(instrument \<mapsto> quotes'),
                co_consolidated_bbo := (co_consolidated_bbo c)(instrument \<mapsto> bbo'),
                co_bbo_health_version_seen := (co_bbo_health_version_seen c)(instrument \<mapsto> seen'),
                co_events := (if co_has_bbo_callback c then co_events c @ [BboPublished instrument bbo'] else co_events c)\<rparr>))"

definition Core_ApplyQuote :: "Core \<Rightarrow> BboQuote \<Rightarrow> Core" where
  "Core_ApplyQuote c quote =
     (case SlotFor c (q_venue quote) of None \<Rightarrow> c | Some slot \<Rightarrow> ProcessQuote c slot quote)"

definition ProcessHealth :: "Core \<Rightarrow> VenueSlot \<Rightarrow> VenueHealthEvent \<Rightarrow> Core" where
  "ProcessHealth c slot event =
     (let index = VenueSlotIndex slot;
          target = (if he_stream event = kDepth then co_depth_health c else co_bbo_health c)
      in if target ! index = he_health event then c
         else let c = (if he_stream event = kDepth
                       then c\<lparr>co_depth_health := (co_depth_health c)[index := he_health event]\<rparr>
                       else c\<lparr>co_bbo_health := (co_bbo_health c)[index := he_health event]\<rparr>)
              in if he_stream event = kBbo then c\<lparr>co_bbo_health_version := co_bbo_health_version c + 1\<rparr>
                 else MarkAllForRebuild c)"

definition OnVenueHealth :: "Core \<Rightarrow> VenueHealthEvent \<Rightarrow> Core" where
  "OnVenueHealth c event =
     (case SlotFor c (he_venue event) of None \<Rightarrow> c | Some slot \<Rightarrow> ProcessHealth c slot event)"

section \<open>The queued path\<close>

definition kEnqueueSpinAttempts :: nat where "kEnqueueSpinAttempts = 64"

definition TryEnqueueBounded :: "ProviderQueue \<Rightarrow> ProviderMessage \<Rightarrow> bool \<times> ProviderQueue" where
  "TryEnqueueBounded queue message = retry kEnqueueSpinAttempts (TryPush kProviderQueueCapacity) queue message"

definition NoteOverflow :: "Core \<Rightarrow> nat \<Rightarrow> Core" where
  "NoteOverflow c index = c\<lparr>co_overflow_count := (co_overflow_count c)[index := co_overflow_count c ! index + 1]\<rparr>"

text \<open>The four escalating entry points share this body; they differ in the message alone.\<close>

definition enqueue_or_overflow :: "Core \<Rightarrow> VenueSlot \<Rightarrow> ProviderMessage \<Rightarrow> bool \<times> Core" where
  "enqueue_or_overflow c slot message =
     (let index = VenueSlotIndex slot
      in if index \<ge> length (co_queues c) then (False, c)
         else let (pushed, queue) = TryEnqueueBounded (co_queues c ! index) message
              in if pushed then (True, c\<lparr>co_queues := (co_queues c)[index := queue]\<rparr>)
                 else (False, NoteOverflow c index))"

definition EnqueueUpdate :: "Core \<Rightarrow> VenueSlot \<Rightarrow> BookUpdate \<Rightarrow> bool \<times> Core" where
  "EnqueueUpdate c slot update = enqueue_or_overflow c slot (MsgUpdate update)"

definition EnqueueHealth :: "Core \<Rightarrow> VenueSlot \<Rightarrow> VenueHealthEvent \<Rightarrow> bool \<times> Core" where
  "EnqueueHealth c slot event = enqueue_or_overflow c slot (MsgHealth event)"

definition EnqueueRegistration :: "Core \<Rightarrow> VenueSlot \<Rightarrow> bool \<times> Core" where
  "EnqueueRegistration c slot = enqueue_or_overflow c slot VenueRegistration"

definition EnqueueDisconnect :: "Core \<Rightarrow> VenueSlot \<Rightarrow> bool \<times> Core" where
  "EnqueueDisconnect c slot = enqueue_or_overflow c slot VenueDisconnect"

definition EnqueueQuote :: "Core \<Rightarrow> VenueSlot \<Rightarrow> BboQuote \<Rightarrow> Core" where
  "EnqueueQuote c slot quote =
     (let index = VenueSlotIndex slot
      in if index \<ge> length (co_queues c) then c
         else let (pushed, queue) = TryEnqueueBounded (co_queues c ! index) (MsgQuote quote)
              in if pushed then c\<lparr>co_queues := (co_queues c)[index := queue]\<rparr>
                 else c\<lparr>co_quote_drop_count := (co_quote_drop_count c)[index := co_quote_drop_count c ! index + 1]\<rparr>)"

definition OverflowCount :: "Core \<Rightarrow> VenueSlot \<Rightarrow> u64" where
  "OverflowCount c slot = (let index = VenueSlotIndex slot in if index < length (co_overflow_count c) then co_overflow_count c ! index else 0)"

definition QuoteDropCount :: "Core \<Rightarrow> VenueSlot \<Rightarrow> u64" where
  "QuoteDropCount c slot = (let index = VenueSlotIndex slot in if index < length (co_quote_drop_count c) then co_quote_drop_count c ! index else 0)"

definition HasPending :: "Core \<Rightarrow> bool" where
  "HasPending c \<longleftrightarrow> list_ex (\<lambda>index. \<not> Empty (co_queues c ! index)) [0..<venue_count c]"

fun dispatch :: "VenueSlot \<Rightarrow> ProviderMessage \<Rightarrow> Core \<Rightarrow> Core" where
  "dispatch slot (MsgUpdate update) c = ProcessUpdate c slot update"
| "dispatch slot (MsgQuote quote) c = ProcessQuote c slot quote"
| "dispatch slot (MsgHealth event) c = ProcessHealth c slot event"
| "dispatch slot VenueRegistration c = ProcessRegistration c slot"
| "dispatch slot VenueDisconnect c = RemoveVenue c slot"

text \<open>
  \<^verbatim>\<open>while (queues_[index].TryPop(message))\<close>, with as many iterations as the ring has slots and one to see it
  empty; \<open>drain_slot_all\<close> below shows that this is enough.
\<close>

fun drain_slot :: "nat \<Rightarrow> nat \<Rightarrow> Core \<times> nat \<Rightarrow> Core \<times> nat" where
  "drain_slot 0 index (c, drained) = (c, drained)"
| "drain_slot (Suc fuel) index (c, drained) =
     (case TryPop kProviderQueueCapacity (co_queues c ! index) of
        (None, _) \<Rightarrow> (c, drained)
      | (Some message, queue) \<Rightarrow>
          drain_slot fuel index (dispatch index message (c\<lparr>co_queues := (co_queues c)[index := queue]\<rparr>), Suc drained))"

definition DrainOnce :: "Core \<Rightarrow> Core \<times> nat" where
  "DrainOnce c = fold (drain_slot (Suc kProviderQueueCapacity)) [0..<venue_count c] (c, 0)"

section \<open>Invariant\<close>

fun msg_ok :: "ProviderMessage \<Rightarrow> bool" where
  "msg_ok (MsgUpdate u) = wf_update u"
| "msg_ok _ = True"

definition shape_ok :: "Core \<Rightarrow> bool" where
  "shape_ok c \<longleftrightarrow>
     registry_ok (co_venue_registry c) \<and> length (co_active_venues c) = kMaxVenues \<and>
     length (co_venue_id_to_slot c) = kVenueCount \<and> length (co_queues c) = kMaxVenues \<and>
     length (co_depth_health c) = kMaxVenues \<and> length (co_bbo_health c) = kMaxVenues \<and>
     (\<forall>k books. co_venue_books c k = Some books \<longrightarrow> length books = kMaxVenues \<and> books_ok books) \<and>
     (\<forall>k quotes. co_venue_quotes c k = Some quotes \<longrightarrow> length quotes = kMaxVenues)"

definition queues_ok :: "Core \<Rightarrow> bool" where
  "queues_ok c \<longleftrightarrow> (\<forall>q \<in> set (co_queues c). queue_ok kProviderQueueCapacity q \<and>
     (\<forall>m \<in> set (contents kProviderQueueCapacity q). msg_ok m))"

text \<open>Active slots, the slot table and the venue books agree.\<close>

definition venues_ok :: "Core \<Rightarrow> bool" where
  "venues_ok c \<longleftrightarrow>
     (\<forall>i v. i < kMaxVenues \<longrightarrow> co_active_venues c ! i = Some v \<longrightarrow>
        v \<noteq> COUNT \<and> i < venue_count c \<and> ToVenueId (VenueName c i) = v \<and> co_venue_id_to_slot c ! venue_index v = Some i) \<and>
     (\<forall>i v. v \<noteq> COUNT \<longrightarrow> co_venue_id_to_slot c ! venue_index v = Some i \<longrightarrow> i < kMaxVenues \<and> co_active_venues c ! i = Some v) \<and>
     (\<forall>k books i. co_venue_books c k = Some books \<longrightarrow> i < kMaxVenues \<longrightarrow>
        map_option fb_venue (books ! i) = co_active_venues c ! i)"

text \<open>A consolidated book that is not latched for a rebuild is the consolidation of the venue books.\<close>

definition depth_ok :: "Core \<Rightarrow> bool" where
  "depth_ok c \<longleftrightarrow>
     (\<forall>k state. co_consolidated_state c k = Some state \<longrightarrow>
        st_needs_rebuild state \<or>
        (co_has_book_callback c \<and>
         (\<exists>books. co_venue_books c k = Some books \<and>
            consolidates books (venue_count c) (Some (co_depth_health c)) (st_book state))))"

text \<open>A best bid and offer that has seen the current health version is the one of the stored quotes.\<close>

definition bbo_seen_ok :: "Core \<Rightarrow> bool" where
  "bbo_seen_ok c \<longleftrightarrow>
     (\<forall>k. co_consolidated_bbo c k = None \<longrightarrow> co_bbo_health_version_seen c k = None) \<and>
     (\<forall>k quotes. co_venue_quotes c k = Some quotes \<longrightarrow>
        unat (map_at (co_bbo_health_version_seen c) k 0) \<le> unat (co_bbo_health_version c) \<and>
        (map_at (co_bbo_health_version_seen c) k 0 = co_bbo_health_version c \<longrightarrow>
           bbo_ok quotes (Some (co_bbo_health c)) (map_at (co_consolidated_bbo c) k empty_BBO)))"

definition core_ok :: "Core \<Rightarrow> bool" where
  "core_ok c \<longleftrightarrow> shape_ok c \<and> queues_ok c \<and> venues_ok c \<and> depth_ok c"

lemma core_okI: "shape_ok c \<Longrightarrow> queues_ok c \<Longrightarrow> venues_ok c \<Longrightarrow> depth_ok c \<Longrightarrow> core_ok c"
  by (simp add: core_ok_def)

lemma core_okD: "core_ok c \<Longrightarrow> shape_ok c" "core_ok c \<Longrightarrow> queues_ok c" "core_ok c \<Longrightarrow> venues_ok c"
    "core_ok c \<Longrightarrow> depth_ok c"
  by (simp_all add: core_ok_def)

text \<open>
  What the best bid and offer needs besides: the stream byte of a health event that waits in a queue names one of the two
  streams. \<open>core_ok\<close> does not depend on it.
\<close>

fun known_stream :: "ProviderMessage \<Rightarrow> bool" where
  "known_stream (MsgHealth e) = (he_stream e = kDepth \<or> he_stream e = kBbo)"
| "known_stream _ = True"

definition streams_ok :: "Core \<Rightarrow> bool" where
  "streams_ok c \<longleftrightarrow> (\<forall>q \<in> set (co_queues c). \<forall>m \<in> set (contents kProviderQueueCapacity q). known_stream m)"

definition quotes_ok :: "Core \<Rightarrow> bool" where
  "quotes_ok c \<longleftrightarrow> bbo_seen_ok c \<and> streams_ok c"

lemma quotes_okI: "bbo_seen_ok c \<Longrightarrow> streams_ok c \<Longrightarrow> quotes_ok c"
  by (simp add: quotes_ok_def)

lemma quotes_okD: "quotes_ok c \<Longrightarrow> bbo_seen_ok c" "quotes_ok c \<Longrightarrow> streams_ok c"
  by (simp_all add: quotes_ok_def)

lemma streams_frame: "streams_ok c \<Longrightarrow> co_queues c' = co_queues c \<Longrightarrow> streams_ok c'"
  by (simp add: streams_ok_def)

lemma venue_count_le: "shape_ok c \<Longrightarrow> venue_count c \<le> kMaxVenues"
  by (simp add: shape_ok_def venue_count_def registry_size_def registry_ok_def)

lemma books_ok_update:
  "books_ok books \<Longrightarrow> book_ok b \<Longrightarrow> books_ok (books[i := Some b])" "books_ok books \<Longrightarrow> books_ok (books[i := None])"
  by (auto simp: books_ok_def dest!: mem_updateD)

lemma books_ok_nth: "books_ok books \<Longrightarrow> i < length books \<Longrightarrow> books ! i = Some b \<Longrightarrow> book_ok b"
  using nth_Some_mem[of books i b] by (simp add: books_ok_def)

lemma shape_books:
  assumes "shape_ok c" "co_venue_books c k = Some books"
  shows "length books = kMaxVenues" "books_ok books" "i < kMaxVenues \<Longrightarrow> books ! i = Some b \<Longrightarrow> book_ok b"
  using assms books_ok_nth[of books i b] by (auto simp: shape_ok_def)

lemma venues_okD:
  assumes "venues_ok c"
  shows "i < kMaxVenues \<Longrightarrow> co_active_venues c ! i = Some v \<Longrightarrow>
      v \<noteq> COUNT \<and> i < venue_count c \<and> ToVenueId (VenueName c i) = v \<and> co_venue_id_to_slot c ! venue_index v = Some i"
    and "v \<noteq> COUNT \<Longrightarrow> co_venue_id_to_slot c ! venue_index v = Some i \<Longrightarrow> i < kMaxVenues \<and> co_active_venues c ! i = Some v"
    and "co_venue_books c k = Some books \<Longrightarrow> i < kMaxVenues \<Longrightarrow> map_option fb_venue (books ! i) = co_active_venues c ! i"
  using assms unfolding venues_ok_def by blast+

lemma venues_okI:
  assumes "\<And>i v. i < kMaxVenues \<Longrightarrow> co_active_venues c ! i = Some v \<Longrightarrow>
      v \<noteq> COUNT \<and> i < venue_count c \<and> ToVenueId (VenueName c i) = v \<and> co_venue_id_to_slot c ! venue_index v = Some i"
    and "\<And>i v. v \<noteq> COUNT \<Longrightarrow> co_venue_id_to_slot c ! venue_index v = Some i \<Longrightarrow> i < kMaxVenues \<and> co_active_venues c ! i = Some v"
    and "\<And>k books i. co_venue_books c k = Some books \<Longrightarrow> i < kMaxVenues \<Longrightarrow> map_option fb_venue (books ! i) = co_active_venues c ! i"
  shows "venues_ok c"
  using assms unfolding venues_ok_def by blast

lemma quiet_books: "shape_ok c \<Longrightarrow> venues_ok c \<Longrightarrow> co_venue_books c k = Some books \<Longrightarrow> i < kMaxVenues \<Longrightarrow>
    venue_count c \<le> i \<Longrightarrow> books ! i = None"
  using venues_okD(1)[of c i] venues_okD(3)[of c k books i] by (cases "books ! i") fastforce+

section \<open>Depth updates\<close>

lemma fb_venue_ApplyUpdate [simp]: "fb_venue (ApplyUpdate b u) = fb_venue b"
  by (simp add: ApplyUpdate_def Let_def)

lemma ProcessUpdate_frame:
  "co_active_venues (ProcessUpdate c slot u) = co_active_venues c"
  "co_venue_id_to_slot (ProcessUpdate c slot u) = co_venue_id_to_slot c"
  "co_venue_registry (ProcessUpdate c slot u) = co_venue_registry c"
  "co_queues (ProcessUpdate c slot u) = co_queues c"
  "co_depth_health (ProcessUpdate c slot u) = co_depth_health c"
  "co_bbo_health (ProcessUpdate c slot u) = co_bbo_health c"
  "co_bbo_health_version (ProcessUpdate c slot u) = co_bbo_health_version c"
  "co_bbo_health_version_seen (ProcessUpdate c slot u) = co_bbo_health_version_seen c"
  "co_venue_quotes (ProcessUpdate c slot u) = co_venue_quotes c"
  "co_consolidated_bbo (ProcessUpdate c slot u) = co_consolidated_bbo c"
  "co_has_book_callback (ProcessUpdate c slot u) = co_has_book_callback c"
  "co_has_bbo_callback (ProcessUpdate c slot u) = co_has_bbo_callback c"
  by (auto simp: ProcessUpdate_def Let_def split: option.splits)

lemma ProcessUpdate_books:
  "co_venue_books (ProcessUpdate c slot u) =
     (case co_venue_books c (bu_instrument u) of None \<Rightarrow> co_venue_books c
      | Some books \<Rightarrow> (case books ! slot of None \<Rightarrow> co_venue_books c
         | Some b \<Rightarrow> (co_venue_books c)(bu_instrument u \<mapsto> books[slot := Some (ApplyUpdate b u)])))"
  by (auto simp: ProcessUpdate_def Let_def VenueSlotIndex_def split: option.splits)

text \<open>An update either does nothing to the books of an instrument or replaces the one at its slot.\<close>

lemma ProcessUpdate_books_cases [case_names Same Changed]:
  assumes "co_venue_books (ProcessUpdate c slot u) k = Some books"
  obtains "co_venue_books c k = Some books"
  | old b where "co_venue_books c k = Some old" "old ! slot = Some b" "books = old[slot := Some (ApplyUpdate b u)]"
  using assms by (auto simp: ProcessUpdate_books split: option.splits if_splits)

lemma ProcessUpdate_shape:
  assumes "shape_ok c" "slot < kMaxVenues" "wf_update u"
  shows "shape_ok (ProcessUpdate c slot u)"
proof -
  have "length books = kMaxVenues \<and> books_ok books" if "co_venue_books (ProcessUpdate c slot u) k = Some books" for k books
    using that
  proof (cases rule: ProcessUpdate_books_cases)
    case Same
    then show ?thesis using shape_books[OF assms(1)] by blast
  next
    case (Changed old b)
    note o = shape_books[OF assms(1) Changed(1)]
    show ?thesis using o(1) books_ok_update(1)[OF o(2) ApplyUpdate_ok[OF o(3)[OF assms(2) Changed(2)] assms(3)]]
      by (simp add: Changed(3))
  qed
  then show ?thesis using assms(1) by (simp add: shape_ok_def ProcessUpdate_frame)
qed

lemma ProcessUpdate_venues:
  assumes "shape_ok c" "venues_ok c"
  shows "venues_ok (ProcessUpdate c slot u)"
proof -
  have "map_option fb_venue (books ! i) = co_active_venues c ! i"
    if "co_venue_books (ProcessUpdate c slot u) k = Some books" "i < kMaxVenues" for k books i
    using that(1)
  proof (cases rule: ProcessUpdate_books_cases)
    case Same
    then show ?thesis using venues_okD(3)[OF assms(2)] that(2) by blast
  next
    case (Changed old b)
    have "map_option fb_venue (old ! i) = co_active_venues c ! i" by (rule venues_okD(3)[OF assms(2) Changed(1) that(2)])
    then show ?thesis using Changed(2,3) shape_books(1)[OF assms(1) Changed(1)] that(2)
      by (cases "slot = i") auto
  qed
  then show ?thesis using assms(2) unfolding venues_ok_def ProcessUpdate_frame venue_count_def VenueName_def by blast
qed

text \<open>What one update publishes, and what it leaves in the consolidated state.\<close>

lemma ProcessUpdate_state:
  assumes "core_ok c" "slot < venue_count c" "wf_update u" "co_has_book_callback c"
    and "co_venue_books c (bu_instrument u) = Some books" "books ! slot = Some b"
  obtains state where
    "co_consolidated_state (ProcessUpdate c slot u) = (co_consolidated_state c)(bu_instrument u \<mapsto> state)"
    "co_events (ProcessUpdate c slot u) = co_events c @ [BookPublished (bu_instrument u) (st_book state)]"
    "consolidates (books[slot := Some (ApplyUpdate b u)]) (venue_count c) (Some (co_depth_health c)) (st_book state)"
    "bk_source_mono_ns (st_book state) = bu_recv_mono_ns u"
    "bk_venue_levels (st_book state) = depth_levels (books[slot := Some (ApplyUpdate b u)]) (venue_count c)"
proof -
  let ?k = "bu_instrument u" and ?b = "ApplyUpdate b u" and ?n = "venue_count c" and ?h = "Some (co_depth_health c)"
  let ?books = "books[slot := Some ?b]"
  define st where "st = map_at (co_consolidated_state c) ?k new_State"
  define st' where "st' = (if \<not> fb_last_changes_complete ?b \<or> st_needs_rebuild st then FullRebuild st ?books ?n ?h
      else if IsAdmissible (co_depth_health c ! slot) then ApplyDepthDelta st slot (fb_last_bid_changes ?b) (fb_last_ask_changes ?b)
      else st)"
  define state where "state = StampForPublish st' (bu_recv_mono_ns u) (depth_levels ?books ?n)"
  have sh: "length books = kMaxVenues" "books_ok books" using assms(1,5) by (auto simp: core_ok_def shape_ok_def)
  have slot: "slot < min ?n (length books)" using assms(2) sh(1) venue_count_le[OF core_okD(1)[OF assms(1)]] by simp
  have b: "book_ok b" using books_ok_nth[OF sh(2) _ assms(6)] slot by simp
  have ok': "books_ok ?books" using sh(2) ApplyUpdate_ok[OF b assms(3)] by (rule books_ok_update)
  have old: "st_needs_rebuild st \<or> consolidates books ?n ?h (st_book st)"
    using core_okD(4)[OF assms(1)] assms(5)
    by (auto simp: depth_ok_def st_def map_at_def new_State_def split: option.splits) (metis option.inject)
  have "consolidates ?books ?n ?h (st_book st')"
  proof (cases "\<not> fb_last_changes_complete ?b \<or> st_needs_rebuild st")
    case True
    then show ?thesis using FullRebuild_consolidates[OF ok'] by (simp add: st'_def)
  next
    case False
    then have cons: "consolidates books ?n ?h (st_book st)" and delta: "\<not> bu_is_snapshot u" using old by auto
    have adm: "admitted ?h slot = IsAdmissible (co_depth_health c ! slot)" by (simp add: admitted_def)
    show ?thesis
    proof (cases "IsAdmissible (co_depth_health c ! slot)")
      case True
      then show ?thesis using False adm
          ApplyDepthDelta_consolidates[OF cons sh(2) slot assms(6) _ assms(3) delta refl] by (simp add: st'_def)
    next
      case na: False
      then show ?thesis using False adm not_admitted_consolidates[OF cons slot] by (simp add: st'_def)
    qed
  qed
  then have "consolidates ?books ?n ?h (st_book state)" by (simp add: state_def)
  moreover have "co_consolidated_state (ProcessUpdate c slot u) = (co_consolidated_state c)(?k \<mapsto> state)"
    "co_events (ProcessUpdate c slot u) = co_events c @ [BookPublished ?k (st_book state)]"
    using assms(4,5,6) unfolding ProcessUpdate_def state_def st'_def st_def
    by (simp_all add: Let_def VenueSlotIndex_def venue_count_def)
  ultimately show ?thesis using that[of state] by (simp add: state_def StampForPublish_def)
qed


lemma ProcessUpdate_depth:
  assumes "core_ok c" "slot < venue_count c" "wf_update u"
  shows "depth_ok (ProcessUpdate c slot u)"
proof (cases "\<exists>books b. co_venue_books c (bu_instrument u) = Some books \<and> books ! slot = Some b")
  case False
  then have "ProcessUpdate c slot u = c"
    by (auto simp: ProcessUpdate_def Let_def VenueSlotIndex_def split: option.splits)
  then show ?thesis using core_okD(4)[OF assms(1)] by simp
next
  case True
  then obtain books b where b: "co_venue_books c (bu_instrument u) = Some books" "books ! slot = Some b" by blast
  have old: "depth_ok c" using core_okD(4)[OF assms(1)] .
  show ?thesis
  proof (cases "co_has_book_callback c")
    case True
    obtain state where "co_consolidated_state (ProcessUpdate c slot u) = (co_consolidated_state c)(bu_instrument u \<mapsto> state)"
      "consolidates (books[slot := Some (ApplyUpdate b u)]) (venue_count c) (Some (co_depth_health c)) (st_book state)"
      by (rule ProcessUpdate_state[OF assms True b])
    then show ?thesis using old b True unfolding depth_ok_def ProcessUpdate_frame venue_count_def
      by (auto simp: ProcessUpdate_books)
  next
    case False
    then have "co_consolidated_state (ProcessUpdate c slot u) = co_consolidated_state c"
      using b by (simp add: ProcessUpdate_def Let_def VenueSlotIndex_def)
    then show ?thesis using old False unfolding depth_ok_def ProcessUpdate_frame by simp
  qed
qed

lemma ProcessUpdate_ok [inv_intros]:
  assumes "core_ok c" "slot < venue_count c" "wf_update u"
  shows "core_ok (ProcessUpdate c slot u)"
proof (rule core_okI)
  note d = core_okD[OF assms(1)]
  show "shape_ok (ProcessUpdate c slot u)"
    using ProcessUpdate_shape[OF d(1) _ assms(3)] assms(2) venue_count_le[OF d(1)] by simp
  show "queues_ok (ProcessUpdate c slot u)" using d(2) by (simp add: queues_ok_def ProcessUpdate_frame)
  show "venues_ok (ProcessUpdate c slot u)" by (rule ProcessUpdate_venues[OF d(1,3)])
  show "depth_ok (ProcessUpdate c slot u)" by (rule ProcessUpdate_depth[OF assms])
qed

lemma ProcessUpdate_quotes [quote_intros]: "quotes_ok c \<Longrightarrow> quotes_ok (ProcessUpdate c slot u)"
  by (simp add: quotes_ok_def bbo_seen_ok_def streams_ok_def ProcessUpdate_frame)

section \<open>Quotes\<close>

lemma ProcessQuote_frame:
  "co_active_venues (ProcessQuote c slot q) = co_active_venues c"
  "co_venue_id_to_slot (ProcessQuote c slot q) = co_venue_id_to_slot c"
  "co_venue_registry (ProcessQuote c slot q) = co_venue_registry c"
  "co_queues (ProcessQuote c slot q) = co_queues c"
  "co_depth_health (ProcessQuote c slot q) = co_depth_health c"
  "co_bbo_health (ProcessQuote c slot q) = co_bbo_health c"
  "co_bbo_health_version (ProcessQuote c slot q) = co_bbo_health_version c"
  "co_venue_books (ProcessQuote c slot q) = co_venue_books c"
  "co_consolidated_state (ProcessQuote c slot q) = co_consolidated_state c"
  "co_has_book_callback (ProcessQuote c slot q) = co_has_book_callback c"
  "co_has_bbo_callback (ProcessQuote c slot q) = co_has_bbo_callback c"
  by (auto simp: ProcessQuote_def Let_def split: option.splits)

lemma ProcessQuote_state:
  assumes "core_ok c" "bbo_seen_ok c" "slot < kMaxVenues" "co_venue_quotes c (q_instrument q) = Some quotes"
  obtains bbo where
    "co_venue_quotes (ProcessQuote c slot q) = (co_venue_quotes c)(q_instrument q \<mapsto> quotes[slot := q])"
    "co_consolidated_bbo (ProcessQuote c slot q) = (co_consolidated_bbo c)(q_instrument q \<mapsto> bbo)"
    "co_bbo_health_version_seen (ProcessQuote c slot q) = (co_bbo_health_version_seen c)(q_instrument q \<mapsto> co_bbo_health_version c)"
    "co_events (ProcessQuote c slot q) = (if co_has_bbo_callback c then co_events c @ [BboPublished (q_instrument q) bbo] else co_events c)"
    "bbo_ok (quotes[slot := q]) (Some (co_bbo_health c)) bbo"
proof -
  let ?k = "q_instrument q" and ?qs = "quotes[slot := q]" and ?h = "Some (co_bbo_health c)"
  define bbo where "bbo = (if map_at (co_bbo_health_version_seen c) ?k 0 \<noteq> co_bbo_health_version c
      then ComputeBBOFromQuotesInto ?qs (map_at (co_consolidated_bbo c) ?k empty_BBO) ?h
      else UpdateBBOWithQuote (map_at (co_consolidated_bbo c) ?k empty_BBO) q slot ?qs ?h)"
  have len: "slot < length quotes" using assms by (auto simp: core_ok_def shape_ok_def)
  have seen: "map_at (co_bbo_health_version_seen c) ?k 0 = co_bbo_health_version c \<Longrightarrow>
      bbo_ok quotes ?h (map_at (co_consolidated_bbo c) ?k empty_BBO)"
    using assms(2,4) unfolding bbo_seen_ok_def by blast
  have "bbo_ok ?qs ?h bbo"
    using UpdateBBOWithQuote_ok[OF seen len assms(3)] ComputeBBOFromQuotesInto_ok by (simp add: bbo_def)
  moreover have "co_venue_quotes (ProcessQuote c slot q) = (co_venue_quotes c)(?k \<mapsto> ?qs)"
    "co_consolidated_bbo (ProcessQuote c slot q) = (co_consolidated_bbo c)(?k \<mapsto> bbo)"
    "co_bbo_health_version_seen (ProcessQuote c slot q) = (co_bbo_health_version_seen c)(?k \<mapsto> co_bbo_health_version c)"
    "co_events (ProcessQuote c slot q) = (if co_has_bbo_callback c then co_events c @ [BboPublished ?k bbo] else co_events c)"
    using assms(4) by (simp_all add: ProcessQuote_def Let_def VenueSlotIndex_def bbo_def)
  ultimately show ?thesis using that by blast
qed

lemma map_at_upd [simp]: "map_at (m(k \<mapsto> v)) k' d = (if k' = k then v else map_at m k' d)"
  by (simp add: map_at_def)

lemma ProcessQuote_ok [inv_intros]:
  assumes "core_ok c" "slot < kMaxVenues"
  shows "core_ok (ProcessQuote c slot q)"
proof (cases "co_venue_quotes c (q_instrument q)")
  case None
  then have "ProcessQuote c slot q = c" by (simp add: ProcessQuote_def Let_def)
  then show ?thesis using assms(1) by simp
next
  case (Some quotes)
  note d = core_okD[OF assms(1)]
  have q: "co_venue_quotes (ProcessQuote c slot q) = (co_venue_quotes c)(q_instrument q \<mapsto> quotes[slot := q])"
    using Some by (simp add: ProcessQuote_def Let_def VenueSlotIndex_def)
  show ?thesis
  proof (rule core_okI)
    show "shape_ok (ProcessQuote c slot q)" using d(1) Some by (auto simp: shape_ok_def ProcessQuote_frame q)
    show "queues_ok (ProcessQuote c slot q)" using d(2) by (simp add: queues_ok_def ProcessQuote_frame)
    show "venues_ok (ProcessQuote c slot q)"
      using d(3) unfolding venues_ok_def ProcessQuote_frame venue_count_def VenueName_def by blast
    show "depth_ok (ProcessQuote c slot q)" using d(4) by (simp add: depth_ok_def ProcessQuote_frame venue_count_def)
  qed
qed

lemma ProcessQuote_quotes [quote_intros]:
  assumes "core_ok c" "slot < kMaxVenues" "quotes_ok c"
  shows "quotes_ok (ProcessQuote c slot q)"
proof (cases "co_venue_quotes c (q_instrument q)")
  case None
  then have "ProcessQuote c slot q = c" by (simp add: ProcessQuote_def Let_def)
  then show ?thesis using assms(3) by simp
next
  case (Some quotes)
  note d = quotes_okD[OF assms(3)]
  obtain bbo where b: "co_venue_quotes (ProcessQuote c slot q) = (co_venue_quotes c)(q_instrument q \<mapsto> quotes[slot := q])"
    "co_consolidated_bbo (ProcessQuote c slot q) = (co_consolidated_bbo c)(q_instrument q \<mapsto> bbo)"
    "co_bbo_health_version_seen (ProcessQuote c slot q) = (co_bbo_health_version_seen c)(q_instrument q \<mapsto> co_bbo_health_version c)"
    "bbo_ok (quotes[slot := q]) (Some (co_bbo_health c)) bbo"
    by (rule ProcessQuote_state[OF assms(1) d(1) assms(2) Some])
  show ?thesis
  proof (rule quotes_okI)
    show "bbo_seen_ok (ProcessQuote c slot q)"
      using d(1) b(4) unfolding bbo_seen_ok_def ProcessQuote_frame b(1-3) by auto
    show "streams_ok (ProcessQuote c slot q)" using d(2) by (simp add: streams_ok_def ProcessQuote_frame)
  qed
qed

section \<open>Health\<close>

lemma depth_ok_MarkAll [inv_intros]: "depth_ok (MarkAllForRebuild c)"
  by (auto simp: depth_ok_def MarkAllForRebuild_def MarkForRebuild_def)

lemma MarkAll_frame [simp]:
  "co_active_venues (MarkAllForRebuild c) = co_active_venues c"
  "co_venue_id_to_slot (MarkAllForRebuild c) = co_venue_id_to_slot c"
  "co_venue_registry (MarkAllForRebuild c) = co_venue_registry c"
  "co_queues (MarkAllForRebuild c) = co_queues c"
  "co_depth_health (MarkAllForRebuild c) = co_depth_health c"
  "co_bbo_health (MarkAllForRebuild c) = co_bbo_health c"
  "co_bbo_health_version (MarkAllForRebuild c) = co_bbo_health_version c"
  "co_bbo_health_version_seen (MarkAllForRebuild c) = co_bbo_health_version_seen c"
  "co_venue_books (MarkAllForRebuild c) = co_venue_books c"
  "co_venue_quotes (MarkAllForRebuild c) = co_venue_quotes c"
  "co_consolidated_bbo (MarkAllForRebuild c) = co_consolidated_bbo c"
  "co_has_book_callback (MarkAllForRebuild c) = co_has_book_callback c"
  "co_has_bbo_callback (MarkAllForRebuild c) = co_has_bbo_callback c"
  "co_events (MarkAllForRebuild c) = co_events c"
  by (simp_all add: MarkAllForRebuild_def)

lemma bbo_seen_bump:
  assumes "bbo_seen_ok c" "unat (co_bbo_health_version c) + 1 < 2 ^ 64"
    and "co_bbo_health_version c' = co_bbo_health_version c + 1"
    and "co_bbo_health_version_seen c' = co_bbo_health_version_seen c" "co_consolidated_bbo c' = co_consolidated_bbo c"
    and "\<And>k. co_venue_quotes c' k = None \<longleftrightarrow> co_venue_quotes c k = None"
  shows "bbo_seen_ok c'"
proof -
  have "unat (map_at (co_bbo_health_version_seen c) k 0) < unat (co_bbo_health_version c')" if "co_venue_quotes c k \<noteq> None" for k
    using assms(1) that unat_succ[OF assms(2)] by (fastforce simp: bbo_seen_ok_def assms(3))
  then have "unat (map_at (co_bbo_health_version_seen c) k 0) < unat (co_bbo_health_version c')" if "co_venue_quotes c' k = Some qs" for k qs
    using assms(6)[of k] that by simp
  then show ?thesis using assms(1,6) unfolding bbo_seen_ok_def assms(4,5) by (metis less_irrefl order_less_imp_le)
qed

lemma bbo_seen_frame:
  assumes "bbo_seen_ok c" "co_bbo_health_version c' = co_bbo_health_version c" "co_bbo_health c' = co_bbo_health c"
    and "co_bbo_health_version_seen c' = co_bbo_health_version_seen c" "co_consolidated_bbo c' = co_consolidated_bbo c"
    and "co_venue_quotes c' = co_venue_quotes c"
  shows "bbo_seen_ok c'"
  using assms by (simp add: bbo_seen_ok_def)

lemma venues_frame:
  assumes "venues_ok c" "co_active_venues c' = co_active_venues c" "co_venue_id_to_slot c' = co_venue_id_to_slot c"
    "co_venue_registry c' = co_venue_registry c" "co_venue_books c' = co_venue_books c"
  shows "venues_ok c'"
  using assms(1) unfolding venues_ok_def venue_count_def VenueName_def assms(2-5) .

lemma depth_frame:
  assumes "depth_ok c" "co_consolidated_state c' = co_consolidated_state c" "co_has_book_callback c' = co_has_book_callback c"
    "co_venue_books c' = co_venue_books c" "co_venue_registry c' = co_venue_registry c" "co_depth_health c' = co_depth_health c"
  shows "depth_ok c'"
  using assms(1) unfolding depth_ok_def venue_count_def assms(2-6) .

lemma ProcessHealth_ok [inv_intros]:
  assumes "core_ok c"
  shows "core_ok (ProcessHealth c slot e)"
proof -
  note d = core_okD[OF assms]
  let ?d = "c\<lparr>co_depth_health := (co_depth_health c)[VenueSlotIndex slot := he_health e]\<rparr>"
  let ?b = "c\<lparr>co_bbo_health := (co_bbo_health c)[VenueSlotIndex slot := he_health e]\<rparr>"
  have m: "core_ok (MarkAllForRebuild c')" if "c' = ?d \<or> c' = ?b" for c'
    using d that venues_frame[OF d(3), of "MarkAllForRebuild c'"]
    by (intro core_okI depth_ok_MarkAll) (auto simp: shape_ok_def queues_ok_def)
  have "core_ok (?b\<lparr>co_bbo_health_version := co_bbo_health_version c + 1\<rparr>)"
    using d venues_frame[OF d(3), of "?b\<lparr>co_bbo_health_version := co_bbo_health_version c + 1\<rparr>"]
    by (intro core_okI) (simp_all add: shape_ok_def queues_ok_def depth_ok_def venue_count_def)
  then show ?thesis using assms m[of ?d] m[of ?b] by (auto simp: ProcessHealth_def Let_def)
qed

lemma ProcessHealth_quotes [quote_intros]:
  assumes "quotes_ok c" "he_stream e = kDepth \<or> he_stream e = kBbo" "unat (co_bbo_health_version c) + 1 < 2 ^ 64"
  shows "quotes_ok (ProcessHealth c slot e)"
proof -
  note d = quotes_okD[OF assms(1)]
  let ?d = "c\<lparr>co_depth_health := (co_depth_health c)[VenueSlotIndex slot := he_health e]\<rparr>"
  let ?b = "c\<lparr>co_bbo_health := (co_bbo_health c)[VenueSlotIndex slot := he_health e], co_bbo_health_version := co_bbo_health_version c + 1\<rparr>"
  have "quotes_ok (MarkAllForRebuild ?d)" "quotes_ok ?b"
    using d bbo_seen_frame[OF d(1), of "MarkAllForRebuild ?d"] bbo_seen_bump[OF d(1) assms(3), of ?b]
    by (simp_all add: quotes_ok_def streams_ok_def)
  then show ?thesis using assms(1,2) by (auto simp: ProcessHealth_def Let_def)
qed

section \<open>Venues come and go\<close>

lemma venue_name_inj:
  assumes "registry_ok r" "i < registry_size r" "j < registry_size r" "ToVenueId (Name r i) = ToVenueId (Name r j)" "ToVenueId (Name r i) \<noteq> COUNT"
  shows "i = j"
proof -
  have "Name r i = Name r j" by (rule ToVenueId_inj[OF assms(4,5)])
  then show ?thesis using Find_Name[OF assms(1), of "Name r i" i] Find_Name[OF assms(1), of "Name r i" j] assms(2,3) by simp
qed

lemma ProcessRegistration_venues:
  assumes "shape_ok c" "venues_ok c" "slot < venue_count c"
  shows "venues_ok (ProcessRegistration c slot)"
proof (cases "ToVenueId (VenueName c slot) = COUNT")
  case True
  then show ?thesis using assms(2) by (simp add: ProcessRegistration_def VenueName_def)
next
  case False
  let ?v = "ToVenueId (VenueName c slot)" and ?c = "ProcessRegistration c slot"
  note D = venues_okD[OF assms(2)]
  have slot: "slot < kMaxVenues" using assms(1,3) venue_count_le by fastforce
  have len: "length (co_active_venues c) = kMaxVenues" "length (co_venue_id_to_slot c) = kVenueCount"
    "registry_ok (co_venue_registry c)" using assms(1) by (auto simp: shape_ok_def)
  have f: "co_active_venues ?c = (co_active_venues c)[slot := Some ?v]"
    "co_venue_id_to_slot ?c = (co_venue_id_to_slot c)[venue_index ?v := Some slot]"
    "co_venue_registry ?c = co_venue_registry c"
    "\<And>k. co_venue_books ?c k = map_option (\<lambda>books. if books ! slot = None then books[slot := Some (new_book ?v k)] else books) (co_venue_books c k)"
    using False unfolding VenueName_def by (simp_all add: ProcessRegistration_def VenueSlotIndex_def Let_def)
  have vi: "venue_index ?v < kVenueCount" using venue_index_less[OF False] .
  have same: "w = ?v" if "co_active_venues c ! slot = Some w" for w using D(1)[OF slot that] by simp
  have apart: "w \<noteq> ?v" if "i \<noteq> slot" "i < kMaxVenues" "co_active_venues c ! i = Some w" for i w
    using venue_name_inj[OF len(3), of i slot] D(1)[OF that(2,3)] that(1) assms(3) False by (auto simp: VenueName_def venue_count_def)
  have "w \<noteq> COUNT \<and> i < venue_count ?c \<and> ToVenueId (VenueName ?c i) = w \<and> co_venue_id_to_slot ?c ! venue_index w = Some i"
    if "i < kMaxVenues" "co_active_venues ?c ! i = Some w" for i w
    using that D(1)[of i w] apart[of i w] False assms(3) vi len(1,2) slot venue_index_inj[of ?v w]
    by (cases "i = slot") (auto simp: f venue_count_def VenueName_def nth_list_update)
  moreover have "i < kMaxVenues \<and> co_active_venues ?c ! i = Some w"
    if "w \<noteq> COUNT" "co_venue_id_to_slot ?c ! venue_index w = Some i" for i w
  proof (cases "w = ?v")
    case True
    then have "i = slot" using that(2) vi len(2) by (simp add: f)
    then show ?thesis using slot len(1) True by (simp add: f)
  next
    case False
    then have "venue_index ?v \<noteq> venue_index w" using venue_index_inj by blast
    then have "co_venue_id_to_slot c ! venue_index w = Some i" using that(2) by (simp add: f)
    then have "i < kMaxVenues" "co_active_venues c ! i = Some w" using D(2)[OF that(1)] by auto
    moreover from this have "i \<noteq> slot" using same False by blast
    ultimately show ?thesis by (simp add: f)
  qed
  moreover have "map_option fb_venue (books ! i) = co_active_venues ?c ! i"
    if bk: "co_venue_books ?c k = Some books" and i: "i < kMaxVenues" for k books i
  proof -
    obtain old where o: "co_venue_books c k = Some old"
      "books = (if old ! slot = None then old[slot := Some (new_book ?v k)] else old)" using bk by (auto simp: f)
    have l: "length old = kMaxVenues" using shape_books(1)[OF assms(1) o(1)] .
    show ?thesis using o(2) D(3)[OF o(1) i] D(3)[OF o(1) slot] same l len(1) slot i
      by (cases "i = slot") (auto simp: f new_book_def)
  qed
  ultimately show ?thesis unfolding venues_ok_def by blast
qed

lemma ProcessRegistration_ok [inv_intros]:
  assumes "core_ok c" "slot < venue_count c"
  shows "core_ok (ProcessRegistration c slot)"
proof (cases "ToVenueId (VenueName c slot) = COUNT")
  case True
  then show ?thesis using assms(1) by (simp add: ProcessRegistration_def VenueName_def)
next
  case False
  note d = core_okD[OF assms(1)]
  have "\<exists>c'. ProcessRegistration c slot = MarkAllForRebuild c'"
    using False by (auto simp: ProcessRegistration_def VenueName_def Let_def)
  then have depth: "depth_ok (ProcessRegistration c slot)" using depth_ok_MarkAll by metis
  have "length books = kMaxVenues \<and> books_ok books" if "co_venue_books (ProcessRegistration c slot) k = Some books" for k books
    using that d(1) False books_ok_update(1)
    by (fastforce simp: ProcessRegistration_def VenueName_def VenueSlotIndex_def Let_def shape_ok_def split: if_splits)
  then have "shape_ok (ProcessRegistration c slot)"
    using d(1) False by (simp add: shape_ok_def ProcessRegistration_def VenueName_def Let_def)
  moreover have "queues_ok (ProcessRegistration c slot)"
    using d(2) by (simp add: queues_ok_def ProcessRegistration_def Let_def)
  ultimately show ?thesis using depth ProcessRegistration_venues[OF d(1,3) assms(2)] by (intro core_okI)
qed

lemma ProcessRegistration_quotes [quote_intros]: "quotes_ok c \<Longrightarrow> quotes_ok (ProcessRegistration c slot)"
  using bbo_seen_frame[of c "ProcessRegistration c slot"]
  by (simp add: quotes_ok_def streams_ok_def ProcessRegistration_def Let_def)

lemma RemoveVenue_idle:
  "venue_count c \<le> slot \<or> co_active_venues c ! slot = None \<Longrightarrow> RemoveVenue c slot = c"
  by (auto simp: RemoveVenue_def VenueSlotIndex_def)

lemma RemoveVenue_active:
  assumes "slot < venue_count c" "co_active_venues c ! slot = Some v"
  shows "RemoveVenue c slot = MarkAllForRebuild
    (c\<lparr>co_venue_id_to_slot := (co_venue_id_to_slot c)[venue_index v := None],
       co_active_venues := (co_active_venues c)[slot := None],
       co_venue_books := (\<lambda>k. map_option (\<lambda>books. books[slot := None]) (co_venue_books c k)),
       co_venue_quotes := (\<lambda>k. map_option (\<lambda>quotes. quotes[slot := empty_quote]) (co_venue_quotes c k)),
       co_depth_health := (co_depth_health c)[slot := kNoData],
       co_bbo_health := (co_bbo_health c)[slot := kNoData],
       co_bbo_health_version := co_bbo_health_version c + 1\<rparr>)"
  using assms by (simp add: RemoveVenue_def VenueSlotIndex_def)

lemma RemoveVenue_venues:
  assumes "shape_ok c" "venues_ok c" "slot < venue_count c" "co_active_venues c ! slot = Some v"
  shows "venues_ok (RemoveVenue c slot)"
proof -
  let ?c = "RemoveVenue c slot"
  note D = venues_okD[OF assms(2)] and R = RemoveVenue_active[OF assms(3,4)]
  have slot: "slot < kMaxVenues" using assms(1,3) venue_count_le by fastforce
  have len: "length (co_active_venues c) = kMaxVenues" "length (co_venue_id_to_slot c) = kVenueCount"
    using assms(1) by (auto simp: shape_ok_def)
  have v: "v \<noteq> COUNT" "co_venue_id_to_slot c ! venue_index v = Some slot" using D(1)[OF slot assms(4)] by auto
  have "w \<noteq> COUNT \<and> i < venue_count ?c \<and> ToVenueId (VenueName ?c i) = w \<and> co_venue_id_to_slot ?c ! venue_index w = Some i"
    if "i < kMaxVenues" "co_active_venues ?c ! i = Some w" for i w
    using that D(1)[of i w] v slot len venue_index_inj[of v w] venue_index_less[OF v(1)]
    by (cases "i = slot") (auto simp: R venue_count_def VenueName_def nth_list_update)
  moreover have "i < kMaxVenues \<and> co_active_venues ?c ! i = Some w"
    if "w \<noteq> COUNT" "co_venue_id_to_slot ?c ! venue_index w = Some i" for i w
    using that D(2)[of w i] v len assms(4) slot venue_index_less[OF v(1)]
    by (cases "w = v") (auto simp: R nth_list_update split: if_splits)
  moreover have "map_option fb_venue (books ! i) = co_active_venues ?c ! i"
    if bk: "co_venue_books ?c k = Some books" and i: "i < kMaxVenues" for k books i
  proof -
    obtain old where o: "co_venue_books c k = Some old" "books = old[slot := None]" using bk by (auto simp: R)
    show ?thesis using o(2) D(3)[OF o(1) i] shape_books(1)[OF assms(1) o(1)] len(1) slot i
      by (cases "i = slot") (auto simp: R)
  qed
  ultimately show ?thesis unfolding venues_ok_def by blast
qed

lemma RemoveVenue_ok [inv_intros]:
  assumes "core_ok c"
  shows "core_ok (RemoveVenue c slot)"
proof (cases "slot < venue_count c \<and> co_active_venues c ! slot \<noteq> None")
  case False
  then have "RemoveVenue c slot = c" by (intro RemoveVenue_idle) auto
  then show ?thesis using assms by simp
next
  case True
  then obtain v where a: "slot < venue_count c" "co_active_venues c ! slot = Some v" by auto
  note d = core_okD[OF assms] and R = RemoveVenue_active[OF a]
  show ?thesis
  proof (rule core_okI)
    show "shape_ok (RemoveVenue c slot)"
      using d(1) books_ok_update(2) by (auto simp: R shape_ok_def)
    show "queues_ok (RemoveVenue c slot)" using d(2) by (simp add: R queues_ok_def)
    show "venues_ok (RemoveVenue c slot)" by (rule RemoveVenue_venues[OF d(1,3) a])
    show "depth_ok (RemoveVenue c slot)" unfolding R by (rule depth_ok_MarkAll)
  qed
qed

lemma RemoveVenue_quotes [quote_intros]:
  assumes "quotes_ok c" "unat (co_bbo_health_version c) + 1 < 2 ^ 64"
  shows "quotes_ok (RemoveVenue c slot)"
proof (cases "slot < venue_count c \<and> co_active_venues c ! slot \<noteq> None")
  case False
  then have "RemoveVenue c slot = c" by (intro RemoveVenue_idle) auto
  then show ?thesis using assms(1) by simp
next
  case True
  then obtain v where a: "slot < venue_count c" "co_active_venues c ! slot = Some v" by auto
  note d = quotes_okD[OF assms(1)] and R = RemoveVenue_active[OF a]
  show ?thesis
  proof (rule quotes_okI)
    show "bbo_seen_ok (RemoveVenue c slot)" by (rule bbo_seen_bump[OF d(1) assms(2)]) (simp_all add: R)
    show "streams_ok (RemoveVenue c slot)" using d(2) by (simp add: R streams_ok_def)
  qed
qed

lemma contributions_append_None:
  "\<forall>m \<in> set ns. m p = None \<Longrightarrow> contributions i (ms @ ns) p = contributions i ms p"
  by (induction i ms p rule: contributions.induct) (auto simp: contributions_empty_iff)

lemma venue_maps_extend:
  assumes "n \<le> n'"
  shows "venue_maps lk books n' h = venue_maps lk books n h @
     map (\<lambda>i. case books ! i of None \<Rightarrow> (\<lambda>_. None) | Some b \<Rightarrow> if admitted h i then lk b else (\<lambda>_. None)) [n..<n']"
proof -
  have "[0..<n'] = [0..<n] @ [n..<n']" using upt_add_eq_append[of 0 n "n' - n"] assms by simp
  then show ?thesis by (simp add: venue_maps_admitted)
qed

lemma consolidates_extend:
  assumes "consolidates books n h bk" "n \<le> n'" "n' \<le> length books" "\<And>i. n \<le> i \<Longrightarrow> i < n' \<Longrightarrow> books ! i = None"
  shows "consolidates books n' h bk"
proof -
  have "merged_at (venue_maps lk books n' h) p = merged_at (venue_maps lk books n h) p" for lk p
    unfolding merged_at_def venue_maps_extend[OF assms(2)]
    by (subst contributions_append_None) (auto simp: assms(4))
  then show ?thesis using assms(1-3) by (simp add: consolidates_def merges_def)
qed

lemma RegisterVenueName_ok [inv_intros]:
  assumes "core_ok c"
  shows "core_ok (snd (RegisterVenueName c name))"
proof (cases "ToVenueId name = COUNT")
  case True
  then show ?thesis using assms by (simp add: RegisterVenueName_def)
next
  case False
  note d = core_okD[OF assms]
  let ?r = "co_venue_registry c" and ?r' = "snd (Register (co_venue_registry c) name)"
  have c': "snd (RegisterVenueName c name) = c\<lparr>co_venue_registry := ?r'\<rparr>" (is "_ = ?c")
    using False by (simp add: RegisterVenueName_def split: prod.splits)
  have reg: "registry_ok ?r" using d(1) by (simp add: shape_ok_def)
  have le: "venue_count c \<le> venue_count ?c" using Register_size[of ?r name] by (simp add: venue_count_def)
  have sh: "shape_ok ?c" using d(1) Register_ok[OF reg, of name] by (simp add: shape_ok_def)
  have name: "VenueName ?c i = VenueName c i" if "i < venue_count c" for i
    using that Register_keeps_Name[of i ?r name] by (simp add: VenueName_def venue_count_def)
  have "venues_ok ?c"
  proof (rule venues_okI)
    fix i v assume "i < kMaxVenues" "co_active_venues ?c ! i = Some v"
    then show "v \<noteq> COUNT \<and> i < venue_count ?c \<and> ToVenueId (VenueName ?c i) = v \<and> co_venue_id_to_slot ?c ! venue_index v = Some i"
      using venues_okD(1)[OF d(3), of i v] name[of i] le by auto
  next
    fix i v assume "v \<noteq> COUNT" "co_venue_id_to_slot ?c ! venue_index v = Some i"
    then show "i < kMaxVenues \<and> co_active_venues ?c ! i = Some v" using venues_okD(2)[OF d(3), of v i] by simp
  next
    fix k books i assume "co_venue_books ?c k = Some books" "i < kMaxVenues"
    then show "map_option fb_venue (books ! i) = co_active_venues ?c ! i" using venues_okD(3)[OF d(3), of k books i] by simp
  qed
  moreover have "depth_ok ?c" unfolding depth_ok_def
  proof (intro allI impI)
    fix k st assume st: "co_consolidated_state ?c k = Some st"
    show "st_needs_rebuild st \<or> (co_has_book_callback ?c \<and> (\<exists>books. co_venue_books ?c k = Some books \<and>
        consolidates books (venue_count ?c) (Some (co_depth_health ?c)) (st_book st)))"
    proof (cases "st_needs_rebuild st")
      case False
      then obtain books where b: "co_has_book_callback c" "co_venue_books c k = Some books"
        "consolidates books (venue_count c) (Some (co_depth_health c)) (st_book st)"
        using d(4) st by (auto simp: depth_ok_def)
      have "consolidates books (venue_count ?c) (Some (co_depth_health c)) (st_book st)"
        using consolidates_extend[OF b(3) le] venue_count_le[OF sh] shape_books(1)[OF d(1) b(2)]
          quiet_books[OF d(1,3) b(2)] by auto
      then show ?thesis using b by simp
    qed simp
  qed
  moreover have "queues_ok ?c" using d(2) by (simp add: queues_ok_def)
  ultimately show ?thesis unfolding c' using sh by (intro core_okI)
qed

lemma RegisterVenueName_quotes [quote_intros]: "quotes_ok c \<Longrightarrow> quotes_ok (snd (RegisterVenueName c name))"
  using bbo_seen_frame[of c "snd (RegisterVenueName c name)"]
  by (auto simp: quotes_ok_def streams_ok_def RegisterVenueName_def split: prod.splits)

section \<open>Queues\<close>

lemma core_ok_queues:
  assumes "core_ok c" "length qs = kMaxVenues"
    "\<forall>q \<in> set qs. queue_ok kProviderQueueCapacity q \<and> (\<forall>m \<in> set (contents kProviderQueueCapacity q). msg_ok m)"
  shows "core_ok (c\<lparr>co_queues := qs\<rparr>)"
proof -
  note d = core_okD[OF assms(1)]
  show ?thesis
    using d(1) assms(2,3) venues_frame[OF d(3)] depth_frame[OF d(4)]
    by (intro core_okI) (simp_all add: shape_ok_def queues_ok_def)
qed

lemma core_ok_counters:
  assumes "core_ok c"
  shows "core_ok (c\<lparr>co_overflow_count := a\<rparr>)" "core_ok (c\<lparr>co_quote_drop_count := a\<rparr>)"
proof -
  note d = core_okD[OF assms]
  note f = venues_frame[OF d(3)] depth_frame[OF d(4)]
  show "core_ok (c\<lparr>co_overflow_count := a\<rparr>)" "core_ok (c\<lparr>co_quote_drop_count := a\<rparr>)"
    using d(1,2) f by (intro core_okI; simp add: shape_ok_def queues_ok_def)+
qed

lemma TryEnqueueBounded_items:
  assumes "queue_ok kProviderQueueCapacity q"
  shows "fst (TryEnqueueBounded q m) \<longleftrightarrow> length (contents kProviderQueueCapacity q) < kProviderQueueCapacity"
    and "contents kProviderQueueCapacity (snd (TryEnqueueBounded q m)) =
      (if length (contents kProviderQueueCapacity q) < kProviderQueueCapacity
       then contents kProviderQueueCapacity q @ [m] else contents kProviderQueueCapacity q)"
    and "queue_ok kProviderQueueCapacity (snd (TryEnqueueBounded q m))"
  unfolding TryEnqueueBounded_def
  by (rule spsc.retry_items[OF assms], simp add: kEnqueueSpinAttempts_def)+

lemma enqueue_queue_ok:
  assumes "core_ok c" "index < length (co_queues c)" "msg_ok m" "TryEnqueueBounded (co_queues c ! index) m = (p, q)"
  shows "core_ok (c\<lparr>co_queues := (co_queues c)[index := q]\<rparr>)"
proof (rule core_ok_queues[OF assms(1)])
  have old: "\<forall>q \<in> set (co_queues c). queue_ok kProviderQueueCapacity q \<and> (\<forall>m \<in> set (contents kProviderQueueCapacity q). msg_ok m)"
    using core_okD(2)[OF assms(1)] by (simp add: queues_ok_def)
  then have "queue_ok kProviderQueueCapacity (co_queues c ! index)"
    "\<forall>m \<in> set (contents kProviderQueueCapacity (co_queues c ! index)). msg_ok m" using nth_mem[OF assms(2)] by auto
  then have "queue_ok kProviderQueueCapacity q \<and> (\<forall>m \<in> set (contents kProviderQueueCapacity q). msg_ok m)"
    using TryEnqueueBounded_items(2,3)[of "co_queues c ! index" m] assms(3,4) by auto
  then show "\<forall>q \<in> set ((co_queues c)[index := q]). queue_ok kProviderQueueCapacity q \<and>
      (\<forall>m \<in> set (contents kProviderQueueCapacity q). msg_ok m)" using old by (auto dest!: mem_updateD)
qed (use assms(1) in \<open>simp add: core_ok_def shape_ok_def\<close>)

lemma enqueue_or_overflow_ok [inv_intros]: "core_ok c \<Longrightarrow> msg_ok m \<Longrightarrow> core_ok (snd (enqueue_or_overflow c slot m))"
  by (auto simp: enqueue_or_overflow_def Let_def NoteOverflow_def VenueSlotIndex_def core_ok_counters
           intro: enqueue_queue_ok split: prod.splits)

lemma EnqueueQuote_ok [inv_intros]: "core_ok c \<Longrightarrow> core_ok (EnqueueQuote c slot q)"
  using enqueue_queue_ok[of c slot "MsgQuote q"]
  by (auto simp: EnqueueQuote_def Let_def VenueSlotIndex_def core_ok_counters split: prod.splits)

lemma quotes_ok_queues:
  assumes "quotes_ok c" "\<forall>q \<in> set qs. \<forall>m \<in> set (contents kProviderQueueCapacity q). known_stream m"
  shows "quotes_ok (c\<lparr>co_queues := qs\<rparr>)"
  using assms(2) bbo_seen_frame[OF quotes_okD(1)[OF assms(1)], of "c\<lparr>co_queues := qs\<rparr>"] by (simp add: quotes_ok_def streams_ok_def)

lemma quotes_ok_counters:
  assumes "quotes_ok c"
  shows "quotes_ok (c\<lparr>co_overflow_count := a\<rparr>)" "quotes_ok (c\<lparr>co_quote_drop_count := a\<rparr>)"
  using assms by (simp_all add: quotes_ok_def streams_ok_def bbo_seen_ok_def)

lemma enqueue_queue_quotes:
  assumes "core_ok c" "quotes_ok c" "index < length (co_queues c)" "known_stream m"
    "TryEnqueueBounded (co_queues c ! index) m = (p, q)"
  shows "quotes_ok (c\<lparr>co_queues := (co_queues c)[index := q]\<rparr>)"
proof (rule quotes_ok_queues[OF assms(2)])
  have old: "\<forall>q \<in> set (co_queues c). \<forall>m \<in> set (contents kProviderQueueCapacity q). known_stream m"
    using quotes_okD(2)[OF assms(2)] by (simp add: streams_ok_def)
  moreover have "\<forall>m \<in> set (contents kProviderQueueCapacity q). known_stream m"
    using core_okD(2)[OF assms(1)] TryEnqueueBounded_items(2)[of "co_queues c ! index" m] old nth_mem[OF assms(3)] assms(4,5)
    by (auto simp: queues_ok_def split: if_splits)
  ultimately show "\<forall>q \<in> set ((co_queues c)[index := q]). \<forall>m \<in> set (contents kProviderQueueCapacity q). known_stream m"
    by (auto dest!: mem_updateD)
qed

lemma enqueue_or_overflow_quotes [quote_intros]:
  "core_ok c \<Longrightarrow> quotes_ok c \<Longrightarrow> known_stream m \<Longrightarrow> quotes_ok (snd (enqueue_or_overflow c slot m))"
  by (auto simp: enqueue_or_overflow_def Let_def NoteOverflow_def VenueSlotIndex_def quotes_ok_counters
           intro: enqueue_queue_quotes split: prod.splits)

lemma EnqueueQuote_quotes [quote_intros]: "core_ok c \<Longrightarrow> quotes_ok c \<Longrightarrow> quotes_ok (EnqueueQuote c slot q)"
  using enqueue_queue_quotes[of c slot "MsgQuote q"]
  by (auto simp: EnqueueQuote_def Let_def VenueSlotIndex_def quotes_ok_counters split: prod.splits)

section \<open>Start-up\<close>

lemma tops_empty: "tops px qx (replicate n empty_quote) h = replicate n None" if "px empty_quote = 0"
  using that by (auto simp: tops_def usable_def intro!: nth_equalityI)

lemma bbo_ok_empty: "bbo_ok (replicate n empty_quote) h empty_BBO"
proof -
  have "q_bid_price empty_quote = 0" "q_ask_price empty_quote = 0" by (simp_all add: empty_quote_def)
  then show ?thesis
    by (simp add: bbo_ok_def tops_empty empty_BBO_def best_level_def empty_level_def quote_at_def IsCrossed_def)
qed

lemma new_Core_ok: "core_ok (new_Core a b)"
proof (rule core_okI)
  show "shape_ok (new_Core a b)" by (simp add: shape_ok_def new_Core_def registry_ok_def empty_registry_def)
  show "queues_ok (new_Core a b)"
    using new_queue_ok[OF capacity_single_bit, of VenueRegistration] by (auto simp: queues_ok_def new_Core_def)
  show "venues_ok (new_Core a b)"
    by (rule venues_okI) (auto simp: new_Core_def dest: venue_index_less)
qed (simp add: depth_ok_def new_Core_def)

lemma new_Core_quotes: "quotes_ok (new_Core a b)"
  using new_queue_ok[OF capacity_single_bit, of VenueRegistration]
  by (simp add: quotes_ok_def bbo_seen_ok_def streams_ok_def new_Core_def)

lemma AddInstrument_ok [inv_intros]:
  assumes "core_ok c" "co_consolidated_state c k = None"
  shows "core_ok (AddInstrument c k)"
proof -
  note d = core_okD[OF assms(1)]
  have "books_ok (map (map_option (\<lambda>v. new_book v k)) (co_active_venues c))"
    using d(1) by (auto simp: books_ok_def shape_ok_def map_option_case split: option.splits)
  then have "shape_ok (AddInstrument c k)" using d(1) by (auto simp: shape_ok_def AddInstrument_def Let_def)
  moreover have "venues_ok (AddInstrument c k)"
  proof (rule venues_okI)
    fix k' books i assume "co_venue_books (AddInstrument c k) k' = Some books" "i < kMaxVenues"
    then show "map_option fb_venue (books ! i) = co_active_venues (AddInstrument c k) ! i"
      using venues_okD(3)[OF d(3), of k' books i] d(1)
      by (auto simp: AddInstrument_def Let_def shape_ok_def option.map_comp comp_def new_book_def option.map_ident split: if_splits)
  next
    fix i v assume "i < kMaxVenues" "co_active_venues (AddInstrument c k) ! i = Some v"
    then show "v \<noteq> COUNT \<and> i < venue_count (AddInstrument c k) \<and> ToVenueId (VenueName (AddInstrument c k) i) = v \<and>
        co_venue_id_to_slot (AddInstrument c k) ! venue_index v = Some i"
      using venues_okD(1)[OF d(3), of i v] by (simp add: AddInstrument_def Let_def venue_count_def VenueName_def)
  next
    fix i v assume "v \<noteq> COUNT" "co_venue_id_to_slot (AddInstrument c k) ! venue_index v = Some i"
    then show "i < kMaxVenues \<and> co_active_venues (AddInstrument c k) ! i = Some v"
      using venues_okD(2)[OF d(3), of v i] by (simp add: AddInstrument_def Let_def)
  qed
  moreover have "depth_ok (AddInstrument c k)"
    using d(4) assms(2) by (auto simp: depth_ok_def AddInstrument_def Let_def map_at_def new_State_def venue_count_def split: if_splits)
  moreover have "queues_ok (AddInstrument c k)" using d(2) by (simp add: queues_ok_def AddInstrument_def Let_def)
  ultimately show ?thesis by (intro core_okI)
qed

lemma AddInstrument_quotes [quote_intros]:
  assumes "quotes_ok c" "co_consolidated_bbo c k = None"
  shows "quotes_ok (AddInstrument c k)"
proof -
  note d = quotes_okD[OF assms(1)]
  have seen: "co_bbo_health_version_seen c k = None" "co_consolidated_bbo c k = None"
    using d(1) assms(2) by (auto simp: bbo_seen_ok_def)
  have "bbo_seen_ok (AddInstrument c k)"
    using d(1) seen bbo_ok_empty by (auto simp: bbo_seen_ok_def AddInstrument_def Let_def map_at_def[of _ k])
  then show ?thesis using d(2) by (simp add: quotes_ok_def streams_ok_def AddInstrument_def Let_def)
qed

lemma reserve_bbo_ok:
  assumes "core_ok c"
  shows "core_ok (c\<lparr>co_consolidated_bbo := (co_consolidated_bbo c)(k \<mapsto> map_at (co_consolidated_bbo c) k empty_BBO)\<rparr>)"
proof -
  note d = core_okD[OF assms]
  show ?thesis
    using d(1,2) venues_frame[OF d(3)] depth_frame[OF d(4)]
    by (intro core_okI) (simp_all add: shape_ok_def queues_ok_def)
qed

lemma reserve_bbo_quotes:
  assumes "quotes_ok c" "co_venue_quotes c k \<noteq> None"
  shows "quotes_ok (c\<lparr>co_consolidated_bbo := (co_consolidated_bbo c)(k \<mapsto> map_at (co_consolidated_bbo c) k empty_BBO)\<rparr>)"
  using assms by (simp add: quotes_ok_def streams_ok_def bbo_seen_ok_def)

lemma Init_fold_ok:
  assumes "core_ok c" "quotes_ok c" "distinct ks" "\<forall>k \<in> set ks. co_consolidated_bbo c k = None \<and> co_consolidated_state c k = None"
  shows "core_ok (Init c \<lparr>cfg_venues = vs, cfg_default_instruments = ks\<rparr>) \<and>
    quotes_ok (Init c \<lparr>cfg_venues = vs, cfg_default_instruments = ks\<rparr>)"
  using assms
proof (induction ks arbitrary: c)
  case (Cons k ks)
  let ?c = "AddInstrument c k"
  let ?c' = "?c\<lparr>co_consolidated_bbo := (co_consolidated_bbo ?c)(k \<mapsto> map_at (co_consolidated_bbo ?c) k empty_BBO)\<rparr>"
  have q: "co_venue_quotes ?c k \<noteq> None" by (simp add: AddInstrument_def Let_def)
  have "core_ok ?c'" "quotes_ok ?c'"
    using reserve_bbo_ok[OF AddInstrument_ok] reserve_bbo_quotes[OF AddInstrument_quotes q] Cons.prems by simp_all
  moreover have "\<forall>k' \<in> set ks. co_consolidated_bbo ?c' k' = None \<and> co_consolidated_state ?c' k' = None"
    using Cons.prems by (auto simp: AddInstrument_def Let_def)
  ultimately show ?case using Cons.IH[of ?c'] Cons.prems(3) by (simp add: Init_def Let_def)
qed (simp add: Init_def)

lemma Init_ok [inv_intros]:
  assumes "distinct (cfg_default_instruments cfg)"
  shows "core_ok (Init (new_Core a b) cfg)" "quotes_ok (Init (new_Core a b) cfg)"
  using Init_fold_ok[OF new_Core_ok new_Core_quotes assms, of a b "cfg_venues cfg"] by (simp_all add: new_Core_def Init_def)

lemma RemoveInstrument_ok [inv_intros]:
  assumes "core_ok c"
  shows "core_ok (RemoveInstrument c k)"
proof -
  note d = core_okD[OF assms]
  have "shape_ok (RemoveInstrument c k)" "queues_ok (RemoveInstrument c k)" "depth_ok (RemoveInstrument c k)"
    using d(1,2,4) by (auto simp: RemoveInstrument_def shape_ok_def queues_ok_def depth_ok_def venue_count_def)
  moreover have "venues_ok (RemoveInstrument c k)"
  proof (rule venues_okI)
    fix k' books i assume "co_venue_books (RemoveInstrument c k) k' = Some books" "i < kMaxVenues"
    then show "map_option fb_venue (books ! i) = co_active_venues (RemoveInstrument c k) ! i"
      using venues_okD(3)[OF d(3), of k' books i] by (auto simp: RemoveInstrument_def split: if_splits)
  next
    fix i v assume "i < kMaxVenues" "co_active_venues (RemoveInstrument c k) ! i = Some v"
    then show "v \<noteq> COUNT \<and> i < venue_count (RemoveInstrument c k) \<and> ToVenueId (VenueName (RemoveInstrument c k) i) = v \<and>
        co_venue_id_to_slot (RemoveInstrument c k) ! venue_index v = Some i"
      using venues_okD(1)[OF d(3), of i v] by (simp add: RemoveInstrument_def venue_count_def VenueName_def)
  next
    fix i v assume "v \<noteq> COUNT" "co_venue_id_to_slot (RemoveInstrument c k) ! venue_index v = Some i"
    then show "i < kMaxVenues \<and> co_active_venues (RemoveInstrument c k) ! i = Some v"
      using venues_okD(2)[OF d(3), of v i] by (simp add: RemoveInstrument_def)
  qed
  ultimately show ?thesis by (intro core_okI)
qed

lemma RemoveInstrument_quotes [quote_intros]: "quotes_ok c \<Longrightarrow> quotes_ok (RemoveInstrument c k)"
  by (auto simp: quotes_ok_def bbo_seen_ok_def streams_ok_def RemoveInstrument_def)

section \<open>Dispatch\<close>

lemma SlotFor_active:
  assumes "core_ok c" "SlotFor c v = Some slot"
  shows "v \<noteq> COUNT \<and> slot < venue_count c \<and> slot < kMaxVenues \<and> co_active_venues c ! slot = Some v"
proof -
  have len: "length (co_venue_id_to_slot c) = kVenueCount" using assms(1) by (simp add: core_ok_def shape_ok_def)
  have v: "v \<noteq> COUNT" "co_venue_id_to_slot c ! venue_index v = Some slot"
    using assms(2) len by (auto simp: SlotFor_def Let_def kVenueCount_def split: if_splits)
  then have "slot < kMaxVenues" "co_active_venues c ! slot = Some v" using venues_okD(2)[OF core_okD(3)[OF assms(1)]] by auto
  then show ?thesis using venues_okD(1)[OF core_okD(3)[OF assms(1)]] v by blast
qed

lemma Core_ApplyUpdate_ok [inv_intros]: "core_ok c \<Longrightarrow> wf_update u \<Longrightarrow> core_ok (Core_ApplyUpdate c u)"
  using SlotFor_active[of c "bu_venue u"] ProcessUpdate_ok[of c _ u]
  by (auto simp: Core_ApplyUpdate_def split: option.splits)

lemma Core_ApplyQuote_ok [inv_intros]: "core_ok c \<Longrightarrow> core_ok (Core_ApplyQuote c q)"
  using SlotFor_active[of c "q_venue q"] ProcessQuote_ok[of c _ q]
  by (auto simp: Core_ApplyQuote_def split: option.splits)

lemma OnVenueHealth_ok [inv_intros]:
  "core_ok c \<Longrightarrow> core_ok (OnVenueHealth c e)"
  by (auto simp: OnVenueHealth_def ProcessHealth_ok split: option.splits)

lemma Core_ApplyUpdate_quotes [quote_intros]: "quotes_ok c \<Longrightarrow> quotes_ok (Core_ApplyUpdate c u)"
  by (auto simp: Core_ApplyUpdate_def ProcessUpdate_quotes split: option.splits)

lemma Core_ApplyQuote_quotes [quote_intros]: "core_ok c \<Longrightarrow> quotes_ok c \<Longrightarrow> quotes_ok (Core_ApplyQuote c q)"
  using SlotFor_active[of c "q_venue q"] ProcessQuote_quotes[of c _ q]
  by (auto simp: Core_ApplyQuote_def split: option.splits)

lemma OnVenueHealth_quotes [quote_intros]:
  "quotes_ok c \<Longrightarrow> he_stream e = kDepth \<or> he_stream e = kBbo \<Longrightarrow> unat (co_bbo_health_version c) + 1 < 2 ^ 64 \<Longrightarrow>
   quotes_ok (OnVenueHealth c e)"
  by (auto simp: OnVenueHealth_def ProcessHealth_quotes split: option.splits)

lemma RegisterVenue_quotes [quote_intros]: "quotes_ok c \<Longrightarrow> quotes_ok (snd (RegisterVenue c name))"
  using RegisterVenueName_quotes[of c name]
  by (auto simp: RegisterVenue_def ProcessRegistration_quotes split: option.splits prod.splits)

lemma RegisterVenue_ok [inv_intros]:
  assumes "core_ok c"
  shows "core_ok (snd (RegisterVenue c name))"
proof -
  obtain s c' where r: "RegisterVenueName c name = (s, c')" by fastforce
  have ok: "core_ok c'" using RegisterVenueName_ok[OF assms, of name] r by simp
  have "slot < venue_count c'" if "s = Some slot" for slot
    using r that Register_Some_less[of "co_venue_registry c" name slot] assms
    by (auto simp: RegisterVenueName_def venue_count_def core_ok_def shape_ok_def split: if_splits prod.splits)
  then show ?thesis using ok by (auto simp: RegisterVenue_def r ProcessRegistration_ok split: option.splits)
qed


lemma dispatch_ok [inv_intros]:
  assumes "core_ok c" "slot < venue_count c" "msg_ok m"
  shows "core_ok (dispatch slot m c)"
  using assms venue_count_le[OF core_okD(1)[OF assms(1)]]
  by (cases m) (auto intro: ProcessUpdate_ok ProcessQuote_ok ProcessHealth_ok ProcessRegistration_ok RemoveVenue_ok)

lemma dispatch_quotes [quote_intros]:
  assumes "core_ok c" "quotes_ok c" "slot < venue_count c" "known_stream m" "unat (co_bbo_health_version c) + 1 < 2 ^ 64"
  shows "quotes_ok (dispatch slot m c)"
  using assms venue_count_le[OF core_okD(1)[OF assms(1)]]
  by (cases m)
     (auto intro: ProcessUpdate_quotes ProcessQuote_quotes ProcessHealth_quotes ProcessRegistration_quotes RemoveVenue_quotes)

lemma dispatch_registry [simp]: "co_venue_registry (dispatch slot m c) = co_venue_registry c"
  by (cases m) (auto simp: ProcessUpdate_frame ProcessQuote_frame ProcessHealth_def ProcessRegistration_def RemoveVenue_def Let_def
      split: option.splits)

lemma dispatch_queues [simp]: "co_queues (dispatch slot m c) = co_queues c"
  by (cases m) (auto simp: ProcessUpdate_frame ProcessQuote_frame ProcessHealth_def ProcessRegistration_def RemoveVenue_def Let_def
      split: option.splits)

lemma dispatch_venue_count [simp]: "venue_count (dispatch slot m c) = venue_count c"
  by (simp add: venue_count_def)

lemma dispatch_version:
  "unat (co_bbo_health_version c) + 1 < 2 ^ 64 \<Longrightarrow>
   unat (co_bbo_health_version (dispatch slot m c)) \<le> unat (co_bbo_health_version c) + 1"
  by (cases m) (auto simp: ProcessUpdate_frame ProcessQuote_frame ProcessHealth_def ProcessRegistration_def RemoveVenue_def Let_def
      unat_succ split: option.splits)

text \<open>Handling a message neither reads nor writes the queues.\<close>

lemma MarkAll_queues: "MarkAllForRebuild (c\<lparr>co_queues := qs\<rparr>) = (MarkAllForRebuild c)\<lparr>co_queues := qs\<rparr>"
  by (simp add: MarkAllForRebuild_def)

lemma dispatch_set_queues: "dispatch slot m (c\<lparr>co_queues := qs\<rparr>) = (dispatch slot m c)\<lparr>co_queues := qs\<rparr>"
proof (cases m)
  case (MsgUpdate u)
  then show ?thesis by (simp add: ProcessUpdate_def Let_def venue_count_def split: option.splits)
next
  case (MsgQuote q)
  then show ?thesis by (simp add: ProcessQuote_def Let_def split: option.splits)
next
  case (MsgHealth e)
  then show ?thesis by (simp add: ProcessHealth_def Let_def MarkAllForRebuild_def)
next
  case VenueRegistration
  then show ?thesis by (simp add: ProcessRegistration_def Let_def MarkAllForRebuild_def)
next
  case VenueDisconnect
  then show ?thesis by (simp add: RemoveVenue_def Let_def MarkAllForRebuild_def venue_count_def split: option.splits)
qed

lemma fold_dispatch_set_queues:
  "fold (dispatch slot) ms (c\<lparr>co_queues := qs\<rparr>) = (fold (dispatch slot) ms c)\<lparr>co_queues := qs\<rparr>"
  by (induction ms arbitrary: c) (simp_all add: dispatch_set_queues)

lemma fold_dispatch_frame [simp]:
  "co_queues (fold (dispatch slot) ms c) = co_queues c" "venue_count (fold (dispatch slot) ms c) = venue_count c"
  by (induction ms arbitrary: c) simp_all

section \<open>Draining\<close>

abbreviation queued :: "Core \<Rightarrow> nat \<Rightarrow> ProviderMessage list" where
  "queued c i \<equiv> contents kProviderQueueCapacity (co_queues c ! i)"

lemma drain_slot_all:
  assumes "index < length (co_queues c)" "queue_ok kProviderQueueCapacity (co_queues c ! index)" "length (queued c index) < fuel"
  shows "\<exists>q. queue_ok kProviderQueueCapacity q \<and> contents kProviderQueueCapacity q = [] \<and>
    drain_slot fuel index (c, n) =
      ((fold (dispatch index) (queued c index) c)\<lparr>co_queues := (co_queues c)[index := q]\<rparr>, n + length (queued c index))"
  using assms
proof (induction fuel arbitrary: c n)
  case (Suc fuel)
  show ?case
  proof (cases "queued c index")
    case Nil
    then have "TryPop kProviderQueueCapacity (co_queues c ! index) = (None, co_queues c ! index)" by (rule TryPop_empty)
    then show ?thesis using Nil Suc.prems(2) by (auto intro!: exI[of _ "co_queues c ! index"])
  next
    case (Cons m ms)
    obtain q where q: "TryPop kProviderQueueCapacity (co_queues c ! index) = (Some m, q)"
        "contents kProviderQueueCapacity q = ms" "queue_ok kProviderQueueCapacity q"
      using TryPop_Cons[OF Suc.prems(2) Cons] by (metis prod.collapse)
    let ?c = "dispatch index m (c\<lparr>co_queues := (co_queues c)[index := q]\<rparr>)"
    have "queued ?c index = ms" "queue_ok kProviderQueueCapacity (co_queues ?c ! index)" "index < length (co_queues ?c)"
      using q Suc.prems(1) by simp_all
    then obtain q' where "queue_ok kProviderQueueCapacity q'" "contents kProviderQueueCapacity q' = []"
      "drain_slot fuel index (?c, Suc n) = ((fold (dispatch index) ms ?c)\<lparr>co_queues := (co_queues ?c)[index := q']\<rparr>, Suc n + length ms)"
      using Suc.IH[of ?c "Suc n"] Suc.prems(3) Cons by auto
    then show ?thesis using q(1) Cons by (auto simp: dispatch_set_queues fold_dispatch_set_queues intro!: exI[of _ q'])
  qed
qed simp

definition deliver :: "(nat \<Rightarrow> ProviderMessage list) \<Rightarrow> nat list \<Rightarrow> Core \<Rightarrow> Core" where
  "deliver msgs slots c = fold (\<lambda>i. fold (dispatch i) (msgs i)) slots c"

lemma deliver_set_queues: "deliver msgs slots (c\<lparr>co_queues := qs\<rparr>) = (deliver msgs slots c)\<lparr>co_queues := qs\<rparr>"
  unfolding deliver_def by (induction slots arbitrary: c) (simp_all add: fold_dispatch_set_queues)

lemma deliver_queues [simp]: "co_queues (deliver msgs slots c) = co_queues c"
  unfolding deliver_def by (induction slots arbitrary: c) simp_all

lemma deliver_venue_count [simp]: "venue_count (deliver msgs slots c) = venue_count c"
  unfolding deliver_def by (induction slots arbitrary: c) simp_all

lemma drain_all_slots:
  assumes "distinct slots" "\<forall>i \<in> set slots. i < length (co_queues c)"
    "\<forall>q \<in> set (co_queues c). queue_ok kProviderQueueCapacity q"
  shows "\<exists>qs. length qs = length (co_queues c) \<and> (\<forall>q \<in> set qs. queue_ok kProviderQueueCapacity q) \<and>
    (\<forall>i < length qs. contents kProviderQueueCapacity (qs ! i) = (if i \<in> set slots then [] else queued c i)) \<and>
    fold (drain_slot (Suc kProviderQueueCapacity)) slots (c, n) =
      ((deliver (queued c) slots c)\<lparr>co_queues := qs\<rparr>, n + (\<Sum>i\<leftarrow>slots. length (queued c i)))"
  using assms
proof (induction slots arbitrary: c n)
  case Nil
  then show ?case by (auto simp: deliver_def intro!: exI[of _ "co_queues c"])
next
  case (Cons i slots)
  have ok: "queue_ok kProviderQueueCapacity (co_queues c ! i)" using Cons.prems by auto
  have i: "i < length (co_queues c)" using Cons.prems by auto
  have "length (queued c i) < Suc kProviderQueueCapacity" using ok by (simp add: queue_ok_def)
  then obtain q where q: "queue_ok kProviderQueueCapacity q" "contents kProviderQueueCapacity q = []"
    "drain_slot (Suc kProviderQueueCapacity) i (c, n) =
      ((fold (dispatch i) (queued c i) c)\<lparr>co_queues := (co_queues c)[i := q]\<rparr>, n + length (queued c i))"
    using drain_slot_all[OF i ok] by blast
  let ?c = "(fold (dispatch i) (queued c i) c)\<lparr>co_queues := (co_queues c)[i := q]\<rparr>"
  have same: "queued ?c j = queued c j" if "j \<in> set slots" for j
    using that Cons.prems(1) by (cases "i = j") auto
  have "\<forall>q \<in> set (co_queues ?c). queue_ok kProviderQueueCapacity q" using Cons.prems(3) q(1) by (auto dest!: mem_updateD)
  then obtain qs where qs: "length qs = length (co_queues c)" "\<forall>q \<in> set qs. queue_ok kProviderQueueCapacity q"
    "\<forall>j < length qs. contents kProviderQueueCapacity (qs ! j) = (if j \<in> set slots then [] else queued ?c j)"
    "fold (drain_slot (Suc kProviderQueueCapacity)) slots (?c, n + length (queued c i)) =
      ((deliver (queued ?c) slots ?c)\<lparr>co_queues := qs\<rparr>, n + length (queued c i) + (\<Sum>j\<leftarrow>slots. length (queued ?c j)))"
    using Cons.IH[of ?c "n + length (queued c i)"] Cons.prems by auto
  have "deliver (queued ?c) slots ?c = deliver (queued c) slots ?c"
    unfolding deliver_def using same by (intro fold_cong) auto
  then have d: "(deliver (queued ?c) slots ?c)\<lparr>co_queues := qs\<rparr> = (deliver (queued c) (i # slots) c)\<lparr>co_queues := qs\<rparr>"
    by (simp add: deliver_set_queues) (simp add: deliver_def)
  have len: "(\<Sum>j\<leftarrow>slots. length (queued ?c j)) = (\<Sum>j\<leftarrow>slots. length (queued c j))"
    using same by (intro arg_cong[of _ _ sum_list] map_cong) auto
  have cont: "\<forall>j < length qs. contents kProviderQueueCapacity (qs ! j) = (if j \<in> set (i # slots) then [] else queued c j)"
    using qs(1,3) q(2) i by (auto simp: nth_list_update)
  show ?case using qs(1,2,4) cont q(3) by (intro exI[of _ qs]) (simp only: d len fold_simps list.map sum_list.Cons add.assoc simp_thms)
qed


lemma fold_dispatch_ok:
  assumes "core_ok c" "slot < venue_count c" "\<forall>m \<in> set ms. msg_ok m"
  shows "core_ok (fold (dispatch slot) ms c)"
  using assms by (induction ms arbitrary: c) (simp_all add: dispatch_ok)

lemma fold_dispatch_quotes:
  assumes "core_ok c" "quotes_ok c" "slot < venue_count c" "\<forall>m \<in> set ms. msg_ok m \<and> known_stream m"
    "unat (co_bbo_health_version c) + length ms < 2 ^ 64"
  shows "quotes_ok (fold (dispatch slot) ms c) \<and>
    unat (co_bbo_health_version (fold (dispatch slot) ms c)) \<le> unat (co_bbo_health_version c) + length ms"
  using assms
proof (induction ms arbitrary: c)
  case (Cons m ms)
  have "unat (co_bbo_health_version c) + 1 < 2 ^ 64" using Cons.prems(5) by simp
  then have "core_ok (dispatch slot m c)" "quotes_ok (dispatch slot m c)"
    "unat (co_bbo_health_version (dispatch slot m c)) \<le> unat (co_bbo_health_version c) + 1"
    using Cons.prems dispatch_ok dispatch_quotes dispatch_version by auto
  then show ?case using Cons.IH[of "dispatch slot m c"] Cons.prems by simp
qed simp

definition total_queued :: "Core \<Rightarrow> nat list \<Rightarrow> nat" where
  "total_queued c slots = (\<Sum>i\<leftarrow>slots. length (queued c i))"

lemma deliver_ok:
  assumes "core_ok c" "\<forall>i \<in> set slots. i < venue_count c \<and> (\<forall>m \<in> set (msgs i). msg_ok m)"
  shows "core_ok (deliver msgs slots c)"
  using assms
proof (induction slots arbitrary: c)
  case (Cons i slots)
  let ?c = "fold (dispatch i) (msgs i) c"
  have "core_ok ?c" using fold_dispatch_ok[of c i "msgs i"] Cons.prems by auto
  then show ?case using Cons.IH[of ?c] Cons.prems by (simp add: deliver_def)
qed (simp add: deliver_def)

lemma deliver_quotes:
  assumes "core_ok c" "quotes_ok c" "\<forall>i \<in> set slots. i < venue_count c \<and> (\<forall>m \<in> set (msgs i). msg_ok m \<and> known_stream m)"
    "unat (co_bbo_health_version c) + (\<Sum>i\<leftarrow>slots. length (msgs i)) < 2 ^ 64"
  shows "quotes_ok (deliver msgs slots c)"
  using assms
proof (induction slots arbitrary: c)
  case (Cons i slots)
  let ?c = "fold (dispatch i) (msgs i) c"
  have "core_ok ?c" "quotes_ok ?c" "unat (co_bbo_health_version ?c) \<le> unat (co_bbo_health_version c) + length (msgs i)"
    using fold_dispatch_ok[of c i "msgs i"] fold_dispatch_quotes[of c i "msgs i"] Cons.prems by auto
  then show ?case using Cons.IH[of ?c] Cons.prems by (simp add: deliver_def)
qed (simp add: deliver_def)

lemma DrainOnce_spec:
  assumes "core_ok c"
  obtains qs where "length qs = kMaxVenues" "\<forall>q \<in> set qs. queue_ok kProviderQueueCapacity q"
    "\<forall>i < kMaxVenues. contents kProviderQueueCapacity (qs ! i) = (if i < venue_count c then [] else queued c i)"
    "DrainOnce c = ((deliver (queued c) [0..<venue_count c] c)\<lparr>co_queues := qs\<rparr>, total_queued c [0..<venue_count c])"
proof -
  have len: "length (co_queues c) = kMaxVenues" using assms by (simp add: core_ok_def shape_ok_def)
  have "\<forall>q \<in> set (co_queues c). queue_ok kProviderQueueCapacity q" using core_okD(2)[OF assms] by (simp add: queues_ok_def)
  moreover have "\<forall>i \<in> set [0..<venue_count c]. i < length (co_queues c)"
    using venue_count_le[OF core_okD(1)[OF assms]] len by auto
  ultimately obtain qs where "length qs = length (co_queues c)" "\<forall>q \<in> set qs. queue_ok kProviderQueueCapacity q"
    "\<forall>i < length qs. contents kProviderQueueCapacity (qs ! i) = (if i \<in> set [0..<venue_count c] then [] else queued c i)"
    "fold (drain_slot (Suc kProviderQueueCapacity)) [0..<venue_count c] (c, 0) =
      ((deliver (queued c) [0..<venue_count c] c)\<lparr>co_queues := qs\<rparr>, 0 + (\<Sum>i\<leftarrow>[0..<venue_count c]. length (queued c i)))"
    using drain_all_slots[of "[0..<venue_count c]" c 0] by auto
  then show ?thesis using that[of qs] len by (simp add: DrainOnce_def total_queued_def)
qed

lemma queued_messages:
  assumes "core_ok c" "i < kMaxVenues"
  shows "\<forall>m \<in> set (queued c i). msg_ok m" "streams_ok c \<Longrightarrow> \<forall>m \<in> set (queued c i). known_stream m"
proof -
  have "co_queues c ! i \<in> set (co_queues c)" using assms by (simp add: core_ok_def shape_ok_def)
  then show "\<forall>m \<in> set (queued c i). msg_ok m" "streams_ok c \<Longrightarrow> \<forall>m \<in> set (queued c i). known_stream m"
    using core_okD(2)[OF assms(1)] unfolding queues_ok_def streams_ok_def by blast+
qed

lemma DrainOnce_queues:
  assumes "core_ok c"
  obtains qs where "length qs = kMaxVenues" "DrainOnce c = ((deliver (queued c) [0..<venue_count c] c)\<lparr>co_queues := qs\<rparr>,
      total_queued c [0..<venue_count c])"
    "\<forall>x \<in> set qs. queue_ok kProviderQueueCapacity x \<and>
       (\<exists>i < kMaxVenues. set (contents kProviderQueueCapacity x) \<subseteq> set (queued c i))"
proof -
  obtain qs where q: "length qs = kMaxVenues" "\<forall>q \<in> set qs. queue_ok kProviderQueueCapacity q"
    "\<forall>i < kMaxVenues. contents kProviderQueueCapacity (qs ! i) = (if i < venue_count c then [] else queued c i)"
    "DrainOnce c = ((deliver (queued c) [0..<venue_count c] c)\<lparr>co_queues := qs\<rparr>, total_queued c [0..<venue_count c])"
    by (rule DrainOnce_spec[OF assms])
  have "queue_ok kProviderQueueCapacity x \<and> (\<exists>i < kMaxVenues. set (contents kProviderQueueCapacity x) \<subseteq> set (queued c i))"
    if x: "x \<in> set qs" for x
  proof -
    obtain i where i: "i < kMaxVenues" "x = qs ! i" using x q(1) by (metis in_set_conv_nth)
    then have "contents kProviderQueueCapacity x = (if i < venue_count c then [] else queued c i)" using q(3) by simp
    then have "set (contents kProviderQueueCapacity x) \<subseteq> set (queued c i)" by simp
    then show ?thesis using x q(2) i(1) by blast
  qed
  then show ?thesis using that q(1,4) by blast
qed

lemma DrainOnce_ok [inv_intros]:
  assumes "core_ok c"
  shows "core_ok (fst (DrainOnce c))"
proof -
  obtain qs where q: "length qs = kMaxVenues" "DrainOnce c = ((deliver (queued c) [0..<venue_count c] c)\<lparr>co_queues := qs\<rparr>,
      total_queued c [0..<venue_count c])"
    "\<forall>x \<in> set qs. queue_ok kProviderQueueCapacity x \<and>
       (\<exists>i < kMaxVenues. set (contents kProviderQueueCapacity x) \<subseteq> set (queued c i))"
    by (rule DrainOnce_queues[OF assms])
  have "i < venue_count c \<and> (\<forall>m \<in> set (queued c i). msg_ok m)" if "i \<in> set [0..<venue_count c]" for i
    using queued_messages(1)[OF assms, of i] that venue_count_le[OF core_okD(1)[OF assms]] by simp
  then have "core_ok (deliver (queued c) [0..<venue_count c] c)" by (intro deliver_ok[OF assms]) simp
  moreover have "queue_ok kProviderQueueCapacity x \<and> (\<forall>m \<in> set (contents kProviderQueueCapacity x). msg_ok m)"
    if "x \<in> set qs" for x using q(3) that queued_messages(1)[OF assms] by blast
  ultimately show ?thesis using q(1,2) by (simp add: core_ok_queues)
qed

lemma DrainOnce_quotes [quote_intros]:
  assumes "core_ok c" "quotes_ok c" "unat (co_bbo_health_version c) + total_queued c [0..<venue_count c] < 2 ^ 64"
  shows "quotes_ok (fst (DrainOnce c))"
proof -
  obtain qs where q: "length qs = kMaxVenues" "DrainOnce c = ((deliver (queued c) [0..<venue_count c] c)\<lparr>co_queues := qs\<rparr>,
      total_queued c [0..<venue_count c])"
    "\<forall>x \<in> set qs. queue_ok kProviderQueueCapacity x \<and>
       (\<exists>i < kMaxVenues. set (contents kProviderQueueCapacity x) \<subseteq> set (queued c i))"
    by (rule DrainOnce_queues[OF assms(1)])
  note m = queued_messages(1)[OF assms(1)] queued_messages(2)[OF assms(1) _ quotes_okD(2)[OF assms(2)]]
  have "i < venue_count c \<and> (\<forall>m \<in> set (queued c i). msg_ok m \<and> known_stream m)" if "i \<in> set [0..<venue_count c]" for i
    using m[of i] that venue_count_le[OF core_okD(1)[OF assms(1)]] by simp
  then have "quotes_ok (deliver (queued c) [0..<venue_count c] c)"
    using assms(3) by (intro deliver_quotes[OF assms(1,2)]) (simp_all add: total_queued_def)
  moreover have "\<forall>m \<in> set (contents kProviderQueueCapacity x). known_stream m" if "x \<in> set qs" for x
    using q(3) that m(2) by blast
  ultimately show ?thesis using q(2) by (simp add: quotes_ok_queues)
qed

section \<open>Executions\<close>

text \<open>
  The entry points of the class, in any order. An update is well formed when it names each price of a side once
  and never price zero, and an instrument is added only when it is not present. \<open>core_step\<close> has no other restriction.
  With \<open>tidy\<close> the steps are those under which the running best bid and offer stays the scan of the stored quotes: a health
  event names one of the two streams, an instrument is not added over the best bid and offer an earlier life of it has left
  behind, and the 64-bit health version does not run out.
\<close>

inductive core_step_of :: "bool \<Rightarrow> Core \<Rightarrow> Core \<Rightarrow> bool" for tidy where
  step_update: "wf_update u \<Longrightarrow> core_step_of tidy c (Core_ApplyUpdate c u)"
| step_quote: "core_step_of tidy c (Core_ApplyQuote c q)"
| step_health: "tidy \<longrightarrow> (he_stream e = kDepth \<or> he_stream e = kBbo) \<and> unat (co_bbo_health_version c) + 1 < 2 ^ 64 \<Longrightarrow>
    core_step_of tidy c (OnVenueHealth c e)"
| step_add: "co_consolidated_state c k = None \<Longrightarrow> tidy \<longrightarrow> co_consolidated_bbo c k = None \<Longrightarrow>
    core_step_of tidy c (AddInstrument c k)"
| step_remove_instrument: "core_step_of tidy c (RemoveInstrument c k)"
| step_register: "core_step_of tidy c (snd (RegisterVenue c name))"
| step_register_name: "core_step_of tidy c (snd (RegisterVenueName c name))"
| step_remove: "tidy \<longrightarrow> unat (co_bbo_health_version c) + 1 < 2 ^ 64 \<Longrightarrow> core_step_of tidy c (RemoveVenue c slot)"
| step_enqueue_update: "wf_update u \<Longrightarrow> core_step_of tidy c (snd (EnqueueUpdate c slot u))"
| step_enqueue_quote: "core_step_of tidy c (EnqueueQuote c slot q)"
| step_enqueue_health: "tidy \<longrightarrow> he_stream e = kDepth \<or> he_stream e = kBbo \<Longrightarrow>
    core_step_of tidy c (snd (EnqueueHealth c slot e))"
| step_enqueue_registration: "core_step_of tidy c (snd (EnqueueRegistration c slot))"
| step_enqueue_disconnect: "core_step_of tidy c (snd (EnqueueDisconnect c slot))"
| step_drain: "tidy \<longrightarrow> unat (co_bbo_health_version c) + total_queued c [0..<venue_count c] < 2 ^ 64 \<Longrightarrow>
    core_step_of tidy c (fst (DrainOnce c))"

abbreviation core_step :: "Core \<Rightarrow> Core \<Rightarrow> bool" where
  "core_step \<equiv> core_step_of False"

inductive_cases core_stepE: "core_step_of tidy c c'"

lemma core_step_ok:
  assumes "core_step_of tidy c c'" "core_ok c"
  shows "core_ok c'"
  using assms
  by (induction rule: core_step_of.induct)
     (auto intro: inv_intros simp: EnqueueUpdate_def EnqueueHealth_def EnqueueRegistration_def EnqueueDisconnect_def)

lemma tidy_step_quotes:
  assumes "core_step_of True c c'" "core_ok c" "quotes_ok c"
  shows "quotes_ok c'"
  using assms
  by (induction rule: core_step_of.induct)
     (auto intro: quote_intros simp: EnqueueUpdate_def EnqueueHealth_def EnqueueRegistration_def EnqueueDisconnect_def)

definition core_reachable :: "Core \<Rightarrow> bool" where
  "core_reachable c \<longleftrightarrow> (\<exists>a b cfg. distinct (cfg_default_instruments cfg) \<and> core_step\<^sup>*\<^sup>* (Init (new_Core a b) cfg) c)"

definition tidy_reachable :: "Core \<Rightarrow> bool" where
  "tidy_reachable c \<longleftrightarrow>
     (\<exists>a b cfg. distinct (cfg_default_instruments cfg) \<and> (core_step_of True)\<^sup>*\<^sup>* (Init (new_Core a b) cfg) c)"

lemma core_reachable_ok: "core_reachable c \<Longrightarrow> core_ok c"
proof -
  assume "core_reachable c"
  then obtain a b cfg where d: "distinct (cfg_default_instruments cfg)" and r: "core_step\<^sup>*\<^sup>* (Init (new_Core a b) cfg) c"
    by (auto simp: core_reachable_def)
  from r show ?thesis by (induction rule: rtranclp_induct) (use Init_ok[OF d] core_step_ok in auto)
qed

lemma tidy_reachable_ok: "tidy_reachable c \<Longrightarrow> core_ok c \<and> quotes_ok c"
proof -
  assume "tidy_reachable c"
  then obtain a b cfg where d: "distinct (cfg_default_instruments cfg)"
    and r: "(core_step_of True)\<^sup>*\<^sup>* (Init (new_Core a b) cfg) c"
    by (auto simp: tidy_reachable_def)
  from r show ?thesis by (induction rule: rtranclp_induct) (use Init_ok[OF d] core_step_ok tidy_step_quotes in auto)
qed

section \<open>What an update publishes\<close>

text \<open>The venue books after an update, and the book it publishes.\<close>

definition books_after :: "FlatBookArray \<Rightarrow> VenueSlot \<Rightarrow> BookUpdate \<Rightarrow> FlatBookArray" where
  "books_after books slot u = books[slot := map_option (\<lambda>b. ApplyUpdate b u) (books ! slot)]"

definition merged_book :: "Core \<Rightarrow> FlatBookArray \<Rightarrow> BookUpdate \<Rightarrow> Book" where
  "merged_book c books u = (MergeBooks books (venue_count c) empty_Book kUnboundedDepth (Some (co_depth_health c)))
     \<lparr>bk_source_mono_ns := bu_recv_mono_ns u, bk_venue_levels := depth_levels books (venue_count c)\<rparr>"

lemma update_publishes_merge:
  assumes ok: "core_ok c" and "co_has_book_callback c" "wf_update u" "SlotFor c (bu_venue u) = Some slot"
    and "co_venue_books c (bu_instrument u) = Some books"
  shows "\<exists>b. books ! slot = Some b \<and>
    co_venue_books (Core_ApplyUpdate c u) (bu_instrument u) = Some (books_after books slot u) \<and>
    co_events (Core_ApplyUpdate c u) = co_events c @ [BookPublished (bu_instrument u) (merged_book c (books_after books slot u) u)]"
proof -
  have slot: "slot < venue_count c" "slot < kMaxVenues" "co_active_venues c ! slot = Some (bu_venue u)"
    using SlotFor_active[OF ok assms(4)] by auto
  then obtain b where b: "books ! slot = Some b"
    using venues_okD(3)[OF core_okD(3)[OF ok] assms(5) slot(2)] by auto
  let ?books = "books[slot := Some (ApplyUpdate b u)]"
  obtain st where "co_consolidated_state (ProcessUpdate c slot u) = (co_consolidated_state c)(bu_instrument u \<mapsto> st)"
    and st: "co_events (ProcessUpdate c slot u) = co_events c @ [BookPublished (bu_instrument u) (st_book st)]"
    "consolidates ?books (venue_count c) (Some (co_depth_health c)) (st_book st)"
    "bk_source_mono_ns (st_book st) = bu_recv_mono_ns u" "bk_venue_levels (st_book st) = depth_levels ?books (venue_count c)"
    by (rule ProcessUpdate_state[OF ok slot(1) assms(3,2,5) b])
  have "books_ok ?books"
    using shape_books[OF core_okD(1)[OF ok] assms(5)] slot(2) b assms(3) by (intro books_ok_update(1) ApplyUpdate_ok) auto
  from consolidates_unique[OF st(2) MergeBooks_consolidates[OF this]]
  have "st_book st = merged_book c ?books u" unfolding merged_book_def
    using st(3,4) by (intro Book.equality) auto
  moreover have "co_venue_books (ProcessUpdate c slot u) (bu_instrument u) = Some ?books"
    using assms(5) b by (simp add: ProcessUpdate_books)
  ultimately show ?thesis using b st(1) assms(4) by (simp add: Core_ApplyUpdate_def books_after_def)
qed

end
