(* ===== verification/Consolidator.thy ===== *)
theory Consolidator
  imports Md_Core
begin

text \<open>
  The consolidator's thread (\<^verbatim>\<open>md_core/md_core.cpp\<close>: \<^verbatim>\<open>Start\<close>, \<^verbatim>\<open>Stop\<close>, \<^verbatim>\<open>HasPending\<close>, \<^verbatim>\<open>RingDoorbell\<close>,
  \<^verbatim>\<open>ConsolidatorLoop\<close>) with the provider threads that put messages into the queues and the owner that starts, stops and
  registers. \<open>Threads\<close> holds what they share - the core, \<^verbatim>\<open>running_\<close>, \<^verbatim>\<open>consumer_waiting_\<close>, the doorbell's mutex (its
  owner) and condition variable (whether the sleeper has been notified) - and where each thread stands; \<open>loop_step\<close>,
  \<open>ring_step\<close>, \<open>produce_step\<close> and \<open>owner_step\<close> are the steps each can take next, and \<open>threads_step\<close> interleaves them
  freely.

  A step is one access to what is shared, except that \<open>produce_push\<close> and \<open>loop_pop\<close> take a whole message in or out (the
  ring's own steps are in \<open>Spsc_Queue\<close>; the message handlers touch only what the consolidator owns). The accesses are acquire
  loads and release stores, and a store need not be visible to another thread when the thread that made it goes on to its
  next load. So stores become visible by steps of their own, \<open>store_step\<close>, at any later time: \<open>th_stores\<close> are the stores to
  \<^verbatim>\<open>consumer_waiting_\<close> the producers do not see yet, in order, and \<open>th_hidden\<close> counts, for each queue, the pushed messages
  whose cursor the consolidator does not see yet. A lock hurries no store. The consolidator may also read an old
  \<^verbatim>\<open>running_\<close> while \<^verbatim>\<open>Stop\<close> has not been through the mutex (under the lock) or has not returned (at the loop's head).
  The consumer's cursor of a ring and the venue count are read as they are.

  The lemmas show the invariant \<open>consolidator_ok\<close> in every reachable state; that the wake-up of \<^verbatim>\<open>Stop\<close> is never lost
  (\<open>stop_wakes\<close>); that a wake-up for a message can be (\<open>wakeup_can_be_missed\<close>) and what would prevent it
  (\<open>fenced_is_woken\<close>); that the timeout then suffices (\<open>timeout_drains\<close>); that what leaves a queue is handled
  (\<open>quiet_handled\<close>) and nothing stays in a queue when the thread ends (\<open>stopped_drained\<close>); and that its drain, undisturbed, is
  the function \<open>DrainOnce\<close> of \<open>Md_Core\<close> (\<open>drain_alone\<close>).
\<close>


section \<open>The threads around the core\<close>

text \<open>
  Where the consolidator's loop stands. \<open>LPop\<close> and \<open>LPredicate\<close> are the loops of \<^verbatim>\<open>DrainOnce\<close> and \<^verbatim>\<open>HasPending\<close> with the
  venue count they read at their start and the index they have come to; \<open>final\<close> is the drain after the loop. \<open>LRelock\<close>
  is the end of a wait, after a notification or (\<open>timed_out\<close>) after its 50 ms.
\<close>

datatype LoopState =
    LNone | LTest | LCount bool | LPop bool nat nat nat | LIdle | LLock | LSetWaiting | LRunning | LPending
  | LPredicate nat nat | LSleep
  | LRelock bool | LClear | LDone

datatype ProducerState = BIdle | BRing | BLock | BNotify
datatype StopperState = SIdle | SLock | SNotify | SJoin
datatype Owner = Consumer | Producer nat | Stopper

record Threads =
  th_core :: Core
  th_running :: bool
  th_waiting :: bool
  th_doorbell :: "Owner option"
  th_notified :: bool
  th_loop :: LoopState
  th_idle_spins :: u32
  th_producers :: "nat \<Rightarrow> ProducerState"
  th_stopper :: StopperState
  th_stores :: "bool list"
  th_hidden :: "nat \<Rightarrow> nat"

definition kConsolidatorSpinLimit :: u32 where "kConsolidatorSpinLimit = 200000"

definition new_threads :: "Core \<Rightarrow> Threads" where
  "new_threads c =
     \<lparr>th_core = c, th_running = False, th_waiting = False, th_doorbell = None, th_notified = False, th_loop = LNone,
      th_idle_spins = 0, th_producers = (\<lambda>_. BIdle), th_stopper = SIdle, th_stores = [], th_hidden = (\<lambda>_. 0)\<rparr>"

text \<open>Whether the consolidator sees a message in a queue.\<close>

definition visible :: "Threads \<Rightarrow> nat \<Rightarrow> bool" where
  "visible t i \<longleftrightarrow> th_hidden t i < length (queued (th_core t) i)"

text \<open>One turn of the inner loop of \<^verbatim>\<open>DrainOnce\<close>: a message taken from the queue and handled, or on to the next queue.\<close>

definition drain_turn :: "nat \<Rightarrow> nat \<Rightarrow> Core \<Rightarrow> (nat \<times> nat) \<times> Core" where
  "drain_turn index drained c =
     (case TryPop kProviderQueueCapacity (co_queues c ! index) of
        (None, _) \<Rightarrow> ((Suc index, drained), c)
      | (Some message, queue) \<Rightarrow> ((index, Suc drained), dispatch index message (c\<lparr>co_queues := (co_queues c)[index := queue]\<rparr>)))"

text \<open>
  The steps of the consolidator thread; each is one access to what the threads share. A wait gives up the mutex and sleeps
  in one step; it may end without a notification. \<open>loop_miss\<close> is a look at a queue whose only messages are not visible yet.
\<close>

inductive loop_step :: "Threads \<Rightarrow> Threads \<Rightarrow> bool" where
  loop_test: "th_loop t = LTest \<Longrightarrow> loop_step t (t\<lparr>th_loop := LCount (\<not> th_running t)\<rparr>)"
| loop_test_stale: "th_loop t = LTest \<Longrightarrow> th_stopper t \<noteq> SIdle \<Longrightarrow> loop_step t (t\<lparr>th_loop := LCount False\<rparr>)"
| loop_count: "th_loop t = LCount final \<Longrightarrow> loop_step t (t\<lparr>th_loop := LPop final (venue_count (th_core t)) 0 0\<rparr>)"
| loop_miss: "th_loop t = LPop final n i d \<Longrightarrow> i < n \<Longrightarrow> th_hidden t i \<noteq> 0 \<Longrightarrow> \<not> visible t i \<Longrightarrow>
    loop_step t (t\<lparr>th_loop := LPop final n (Suc i) d\<rparr>)"
| loop_pop: "th_loop t = LPop final n i d \<Longrightarrow> i < n \<Longrightarrow> th_hidden t i = 0 \<or> visible t i \<Longrightarrow>
    drain_turn i d (th_core t) = ((i', d'), c) \<Longrightarrow>
    loop_step t (t\<lparr>th_loop := LPop final n i' d', th_core := c\<rparr>)"
| loop_drained: "th_loop t = LPop False n n d \<Longrightarrow> d > 0 \<Longrightarrow> loop_step t (t\<lparr>th_idle_spins := 0, th_loop := LTest\<rparr>)"
| loop_empty: "th_loop t = LPop False n n 0 \<Longrightarrow> loop_step t (t\<lparr>th_loop := LIdle\<rparr>)"
| loop_final: "th_loop t = LPop True n n d \<Longrightarrow> loop_step t (t\<lparr>th_loop := LDone\<rparr>)"
| loop_spin: "th_loop t = LIdle \<Longrightarrow> th_idle_spins t < kConsolidatorSpinLimit \<Longrightarrow>
    loop_step t (t\<lparr>th_idle_spins := th_idle_spins t + 1, th_loop := LTest\<rparr>)"
| loop_give_up: "th_loop t = LIdle \<Longrightarrow> \<not> th_idle_spins t < kConsolidatorSpinLimit \<Longrightarrow> loop_step t (t\<lparr>th_loop := LLock\<rparr>)"
| loop_lock: "th_loop t = LLock \<Longrightarrow> th_doorbell t = None \<Longrightarrow>
    loop_step t (t\<lparr>th_doorbell := Some Consumer, th_loop := LSetWaiting\<rparr>)"
| loop_set_waiting: "th_loop t = LSetWaiting \<Longrightarrow> loop_step t (t\<lparr>th_stores := th_stores t @ [True], th_loop := LRunning\<rparr>)"
| loop_running: "th_loop t = LRunning \<Longrightarrow>
    loop_step t (t\<lparr>th_loop := if \<not> th_running t then LClear else LPending\<rparr>)"
| loop_running_stale: "th_loop t = LRunning \<Longrightarrow> th_stopper t = SLock \<Longrightarrow> loop_step t (t\<lparr>th_loop := LPending\<rparr>)"
| loop_pending: "th_loop t = LPending \<Longrightarrow> loop_step t (t\<lparr>th_loop := LPredicate (venue_count (th_core t)) 0\<rparr>)"
| loop_predicate: "th_loop t = LPredicate n i \<Longrightarrow> i < n \<Longrightarrow>
    loop_step t (t\<lparr>th_loop := if visible t i then LClear else LPredicate n (Suc i)\<rparr>)"
| loop_sleep: "th_loop t = LPredicate n n \<Longrightarrow>
    loop_step t (t\<lparr>th_doorbell := None, th_notified := False, th_loop := LSleep\<rparr>)"
| loop_wake: "th_loop t = LSleep \<Longrightarrow> loop_step t (t\<lparr>th_loop := LRelock timed_out\<rparr>)"
| loop_relock: "th_loop t = LRelock timed_out \<Longrightarrow> th_doorbell t = None \<Longrightarrow>
    loop_step t (t\<lparr>th_doorbell := Some Consumer, th_loop := if timed_out then LClear else LRunning\<rparr>)"
| loop_clear: "th_loop t = LClear \<Longrightarrow>
    loop_step t (t\<lparr>th_stores := th_stores t @ [False], th_idle_spins := 0, th_doorbell := None, th_loop := LTest\<rparr>)"

text \<open>The entry points that put a message into a venue's queue; the flag says whether the queue took it.\<close>

datatype Enqueue = QUpdate BookUpdate | QQuote BboQuote | QHealth VenueHealthEvent | QRegistration | QDisconnect

fun enqueue :: "Enqueue \<Rightarrow> VenueSlot \<Rightarrow> Core \<Rightarrow> bool \<times> Core" where
  "enqueue (QUpdate update) slot c = EnqueueUpdate c slot update"
| "enqueue (QQuote quote) slot c =
     (VenueSlotIndex slot < length (co_queues c) \<and> fst (TryEnqueueBounded (co_queues c ! VenueSlotIndex slot) (MsgQuote quote)),
      EnqueueQuote c slot quote)"
| "enqueue (QHealth event) slot c = EnqueueHealth c slot event"
| "enqueue QRegistration slot c = EnqueueRegistration c slot"
| "enqueue QDisconnect slot c = EnqueueDisconnect c slot"

text \<open>A producer: a message for a slot the registry has given out, then \<^verbatim>\<open>RingDoorbell\<close> if the queue took it.\<close>

inductive ring_step :: "Threads \<Rightarrow> Threads \<Rightarrow> bool" where
  ring_awake: "th_producers t i = BRing \<Longrightarrow> \<not> th_waiting t \<Longrightarrow>
    ring_step t (t\<lparr>th_producers := (th_producers t)(i := BIdle)\<rparr>)"
| ring_asleep: "th_producers t i = BRing \<Longrightarrow> th_waiting t \<Longrightarrow>
    ring_step t (t\<lparr>th_producers := (th_producers t)(i := BLock)\<rparr>)"
| ring_lock: "th_producers t i = BLock \<Longrightarrow> th_doorbell t = None \<Longrightarrow>
    ring_step t (t\<lparr>th_doorbell := Some (Producer i), th_producers := (th_producers t)(i := BNotify)\<rparr>)"
| ring_notify: "th_producers t i = BNotify \<Longrightarrow>
    ring_step t (t\<lparr>th_notified := th_notified t \<or> th_loop t = LSleep, th_doorbell := None,
      th_producers := (th_producers t)(i := BIdle)\<rparr>)"

inductive produce_step :: "Threads \<Rightarrow> Threads \<Rightarrow> bool" where
  produce_push: "th_producers t i = BIdle \<Longrightarrow> slot < venue_count (th_core t) \<Longrightarrow> enqueue e slot (th_core t) = (True, c) \<Longrightarrow>
    produce_step t (t\<lparr>th_core := c, th_producers := (th_producers t)(i := BRing),
      th_hidden := (th_hidden t)(slot := Suc (th_hidden t slot))\<rparr>)"
| produce_full: "th_producers t i = BIdle \<Longrightarrow> slot < venue_count (th_core t) \<Longrightarrow> enqueue e slot (th_core t) = (False, c) \<Longrightarrow>
    produce_step t (t\<lparr>th_core := c\<rparr>)"

text \<open>The owner's thread: \<^verbatim>\<open>Start\<close>, \<^verbatim>\<open>Stop\<close>, and the registration of a name, which rings no doorbell.\<close>

inductive owner_step :: "Threads \<Rightarrow> Threads \<Rightarrow> bool" where
  owner_start: "th_stopper t = SIdle \<Longrightarrow> \<not> th_running t \<Longrightarrow> th_loop t = LNone \<or> th_loop t = LDone \<Longrightarrow>
    owner_step t (t\<lparr>th_running := True, th_idle_spins := 0, th_loop := LTest\<rparr>)"
| owner_stop: "th_stopper t = SIdle \<Longrightarrow> th_running t \<Longrightarrow> owner_step t (t\<lparr>th_running := False, th_stopper := SLock\<rparr>)"
| owner_lock: "th_stopper t = SLock \<Longrightarrow> th_doorbell t = None \<Longrightarrow>
    owner_step t (t\<lparr>th_doorbell := Some Stopper, th_stopper := SNotify\<rparr>)"
| owner_notify: "th_stopper t = SNotify \<Longrightarrow>
    owner_step t (t\<lparr>th_notified := th_notified t \<or> th_loop t = LSleep, th_doorbell := None, th_stopper := SJoin\<rparr>)"
| owner_joined: "th_stopper t = SJoin \<Longrightarrow> th_loop t = LDone \<Longrightarrow> owner_step t (t\<lparr>th_stopper := SIdle\<rparr>)"
| owner_register: "owner_step t (t\<lparr>th_core := snd (RegisterVenueName (th_core t) name)\<rparr>)"

text \<open>A store becomes visible: the oldest to the flag, or the oldest of a queue's cursor.\<close>

inductive store_step :: "Threads \<Rightarrow> Threads \<Rightarrow> bool" where
  store_flag: "th_stores t = b # bs \<Longrightarrow> store_step t (t\<lparr>th_waiting := b, th_stores := bs\<rparr>)"
| store_cursor: "th_hidden t j \<noteq> 0 \<Longrightarrow> store_step t (t\<lparr>th_hidden := (th_hidden t)(j := th_hidden t j - 1)\<rparr>)"

definition threads_step :: "Threads \<Rightarrow> Threads \<Rightarrow> bool" where
  "threads_step t t' \<longleftrightarrow> loop_step t t' \<or> ring_step t t' \<or> produce_step t t' \<or> owner_step t t' \<or> store_step t t'"


inductive_cases loop_stepE: "loop_step t t'"
inductive_cases ring_stepE: "ring_step t t'"
inductive_cases produce_stepE: "produce_step t t'"
inductive_cases owner_stepE: "owner_step t t'"
inductive_cases store_stepE: "store_step t t'"

section \<open>What the steps do to the queues\<close>

lemma enqueue_frame:
  assumes "enqueue e slot c = (pushed, c')"
  shows "venue_count c' = venue_count c" "j \<noteq> slot \<Longrightarrow> co_queues c' ! j = co_queues c ! j" "\<not> pushed \<Longrightarrow> co_queues c' = co_queues c"
proof -
  have m: "enqueue_or_overflow c slot m = (pushed, c') \<Longrightarrow> venue_count c' = venue_count c \<and> (j \<noteq> slot \<longrightarrow> co_queues c' ! j = co_queues c ! j) \<and>
      (\<not> pushed \<longrightarrow> co_queues c' = co_queues c)" for m
    by (auto simp: enqueue_or_overflow_def Let_def NoteOverflow_def VenueSlotIndex_def venue_count_def split: if_splits prod.splits)
  have "venue_count c' = venue_count c \<and> (j \<noteq> slot \<longrightarrow> co_queues c' ! j = co_queues c ! j) \<and> (\<not> pushed \<longrightarrow> co_queues c' = co_queues c)"
  proof (cases e)
    case (QQuote q)
    then show ?thesis using assms
      by (auto simp: EnqueueQuote_def Let_def VenueSlotIndex_def venue_count_def split: if_splits prod.splits)
  qed (use assms in \<open>auto simp: EnqueueUpdate_def EnqueueHealth_def EnqueueRegistration_def EnqueueDisconnect_def dest: m\<close>)
  then show "venue_count c' = venue_count c" "j \<noteq> slot \<Longrightarrow> co_queues c' ! j = co_queues c ! j" "\<not> pushed \<Longrightarrow> co_queues c' = co_queues c"
    by blast+
qed

lemma drain_turn_frame:
  assumes "drain_turn i d c = ((i', d'), c')"
  shows "venue_count c' = venue_count c" "j \<noteq> i \<Longrightarrow> co_queues c' ! j = co_queues c ! j"
    "i' = i \<or> i' = Suc i \<and> c' = c \<and> Empty (co_queues c ! i)"
  using assms by (auto simp: drain_turn_def TryPop_def Empty_def Let_def venue_count_def split: if_splits prod.splits option.splits)

lemma RegisterVenueName_frame:
  "co_queues (snd (RegisterVenueName c n)) = co_queues c" "venue_count c \<le> venue_count (snd (RegisterVenueName c n))"
  "venue_count c \<le> kMaxVenues \<Longrightarrow> venue_count (snd (RegisterVenueName c n)) \<le> kMaxVenues"
  by (auto simp: RegisterVenueName_def venue_count_def registry_size_def Register_def Let_def split: option.splits prod.splits)

section \<open>The invariant\<close>

fun holds_doorbell :: "LoopState \<Rightarrow> bool" where
  "holds_doorbell LSetWaiting = True"
| "holds_doorbell LRunning = True"
| "holds_doorbell LPending = True"
| "holds_doorbell (LPredicate n i) = True"
| "holds_doorbell LClear = True"
| "holds_doorbell _ = False"

fun awaits :: "LoopState \<Rightarrow> bool" where
  "awaits LRunning = True"
| "awaits LPending = True"
| "awaits (LPredicate n i) = True"
| "awaits LSleep = True"
| "awaits (LRelock b) = True"
| "awaits LClear = True"
| "awaits _ = False"

definition doorbell_ok :: "Threads \<Rightarrow> bool" where
  "doorbell_ok t \<longleftrightarrow> (th_doorbell t = Some Consumer \<longleftrightarrow> holds_doorbell (th_loop t)) \<and>
     (\<forall>i. th_doorbell t = Some (Producer i) \<longleftrightarrow> th_producers t i = BNotify) \<and>
     (th_doorbell t = Some Stopper \<longleftrightarrow> th_stopper t = SNotify)"

definition queued_at :: "Core \<Rightarrow> nat \<Rightarrow> bool" where
  "queued_at c j \<longleftrightarrow> j < venue_count c \<and> \<not> Empty (co_queues c ! j)"

lemma HasPending_queued: "HasPending c \<longleftrightarrow> (\<exists>j. queued_at c j)"
  by (auto simp: HasPending_def queued_at_def list_ex_iff)

definition tail_ok :: "Core \<Rightarrow> bool" where
  "tail_ok c \<longleftrightarrow> venue_count c \<le> kMaxVenues \<and> (\<forall>j < kMaxVenues. venue_count c \<le> j \<longrightarrow> Empty (co_queues c ! j))"

definition ringing :: "Threads \<Rightarrow> bool" where
  "ringing t \<longleftrightarrow> (\<exists>i. th_producers t i \<noteq> BIdle)"

definition stopping :: "Threads \<Rightarrow> bool" where
  "stopping t \<longleftrightarrow> th_stopper t = SLock \<or> th_stopper t = SNotify"

text \<open>
  The queues the consumer has looked at without finding a message, or will not look at, before it sleeps: a message there
  has a producer that has yet to ring.
\<close>

fun looked_at :: "LoopState \<Rightarrow> bool \<Rightarrow> nat \<Rightarrow> bool" where
  "looked_at (LPredicate n i) notified j = (j < i \<or> n \<le> j)"
| "looked_at LSleep notified j = (\<not> notified)"
| "looked_at _ notified j = False"

fun past_running :: "LoopState \<Rightarrow> bool \<Rightarrow> bool" where
  "past_running LPending notified = True"
| "past_running (LPredicate n i) notified = True"
| "past_running LSleep notified = (\<not> notified)"
| "past_running _ notified = False"

text \<open>A consolidator that is past its look at \<^verbatim>\<open>running_\<close> and has not been notified: the owner has yet to come, if it will.\<close>

definition stop_ok :: "Threads \<Rightarrow> bool" where
  "stop_ok t \<longleftrightarrow> (past_running (th_loop t) (th_notified t) \<longrightarrow> th_running t \<or> stopping t)"

text \<open>The loops over the queues stay below the venue count they have read.\<close>

fun scan_ok :: "LoopState \<Rightarrow> nat \<Rightarrow> bool" where
  "scan_ok (LPop final n i d) venues = (i \<le> n \<and> n \<le> venues)"
| "scan_ok (LPredicate n i) venues = (i \<le> n \<and> n \<le> venues)"
| "scan_ok _ venues = True"

lemma scan_mono: "scan_ok l venues \<Longrightarrow> venues \<le> venues' \<Longrightarrow> scan_ok l venues'"
  by (cases l) auto

text \<open>The rings are in order, and only queues of registered venues hold messages that are not visible yet.\<close>

definition rings_ok :: "Core \<Rightarrow> bool" where
  "rings_ok c \<longleftrightarrow> length (co_queues c) = kMaxVenues \<and> (\<forall>q \<in> set (co_queues c). queue_ok kProviderQueueCapacity q)"

definition hidden_ok :: "Threads \<Rightarrow> bool" where
  "hidden_ok t \<longleftrightarrow> (\<forall>j. th_hidden t j \<noteq> 0 \<longrightarrow> j < venue_count (th_core t))"

definition consolidator_ok :: "Threads \<Rightarrow> bool" where
  "consolidator_ok t \<longleftrightarrow> doorbell_ok t \<and> tail_ok (th_core t) \<and> stop_ok t \<and> scan_ok (th_loop t) (venue_count (th_core t)) \<and>
     rings_ok (th_core t) \<and> hidden_ok t"

lemma past_holds: "past_running l n \<Longrightarrow> l \<noteq> LSleep \<Longrightarrow> holds_doorbell l"
  by (cases l) auto

lemma looked_at_past: "looked_at l n j \<Longrightarrow> past_running l n"
  by (cases l) auto

lemma past_awaits: "past_running l n \<Longrightarrow> awaits l"
  by (cases l) auto

lemma loop_step_doorbell: "loop_step t t' \<Longrightarrow> doorbell_ok t \<Longrightarrow> doorbell_ok t'"
  by (induction rule: loop_step.induct) (auto simp: doorbell_ok_def)

lemma ring_step_doorbell: "ring_step t t' \<Longrightarrow> doorbell_ok t \<Longrightarrow> doorbell_ok t'"
proof (induction rule: ring_step.induct)
  case (ring_notify t i)
  then have "th_doorbell t = Some (Producer i)" by (simp add: doorbell_ok_def)
  then show ?case using ring_notify by (auto simp: doorbell_ok_def)
qed (auto simp: doorbell_ok_def)

lemma produce_step_doorbell: "produce_step t t' \<Longrightarrow> doorbell_ok t \<Longrightarrow> doorbell_ok t'"
  by (induction rule: produce_step.induct) (auto simp: doorbell_ok_def)

lemma owner_step_doorbell: "owner_step t t' \<Longrightarrow> doorbell_ok t \<Longrightarrow> doorbell_ok t'"
  by (induction rule: owner_step.induct) (auto simp: doorbell_ok_def)

lemma tail_frame:
  "tail_ok c \<Longrightarrow> venue_count c' = venue_count c \<Longrightarrow> slot < venue_count c \<Longrightarrow>
   (\<And>j. j \<noteq> slot \<Longrightarrow> co_queues c' ! j = co_queues c ! j) \<Longrightarrow> tail_ok c'"
  unfolding tail_ok_def by (metis not_less)

lemma loop_step_stop: "loop_step t t' \<Longrightarrow> stop_ok t \<Longrightarrow> stop_ok t'"
  by (induction rule: loop_step.induct) (simp_all add: stop_ok_def stopping_def)

lemma ring_step_stop: "ring_step t t' \<Longrightarrow> stop_ok t \<Longrightarrow> stop_ok t'"
  by (induction rule: ring_step.induct) (auto simp: stop_ok_def stopping_def elim: past_running.elims)

lemma notified_not_past:
  assumes "doorbell_ok t" "th_doorbell t \<noteq> None" "th_doorbell t \<noteq> Some Consumer"
  shows "\<not> past_running (th_loop t) (th_notified t \<or> th_loop t = LSleep)"
  using assms past_holds[of "th_loop t"] by (cases "th_loop t = LSleep") (auto simp: doorbell_ok_def)

lemma owner_step_stop: "owner_step t t' \<Longrightarrow> doorbell_ok t \<Longrightarrow> stop_ok t \<Longrightarrow> stop_ok t'"
proof (induction rule: owner_step.induct)
  case (owner_notify t)
  have "th_doorbell t = Some Stopper" using owner_notify(1,2) by (simp add: doorbell_ok_def)
  then show ?case using notified_not_past[OF owner_notify(2)] by (simp add: stop_ok_def)
qed (auto simp: stop_ok_def stopping_def)

lemma loop_step_scan:
  "loop_step t t' \<Longrightarrow> scan_ok (th_loop t) (venue_count (th_core t)) \<Longrightarrow> scan_ok (th_loop t') (venue_count (th_core t'))"
proof (induction rule: loop_step.induct)
  case (loop_pop t final n i d i' d' c)
  then show ?case using drain_turn_frame(1,3)[OF loop_pop(4)] by auto
qed auto

lemma drain_turn_rings:
  assumes "drain_turn i d c = ((i', d'), c')" "rings_ok c" "i < kMaxVenues"
  shows "rings_ok c'"
proof -
  have i: "i < length (co_queues c)" "queue_ok kProviderQueueCapacity (co_queues c ! i)" using assms(2,3) by (simp_all add: rings_ok_def)
  show ?thesis
  proof (cases "queued c i")
    case Nil
    then have "c' = c" using assms(1) TryPop_empty[OF Nil] by (simp add: drain_turn_def)
    then show ?thesis using assms(2) by simp
  next
    case (Cons m ms)
    obtain q where q: "TryPop kProviderQueueCapacity (co_queues c ! i) = (Some m, q)" "queue_ok kProviderQueueCapacity q"
      using TryPop_Cons[OF i(2) Cons] by (metis prod.collapse)
    then have "co_queues c' = (co_queues c)[i := q]" using assms(1) by (auto simp: drain_turn_def)
    then show ?thesis using assms(2) q(2) by (auto simp: rings_ok_def dest!: mem_updateD)
  qed
qed

lemma enqueue_or_overflow_rings: "rings_ok c \<Longrightarrow> rings_ok (snd (enqueue_or_overflow c slot m))"
proof -
  assume r: "rings_ok c"
  show ?thesis
  proof (cases "slot < length (co_queues c)")
    case True
    then have "queue_ok kProviderQueueCapacity (co_queues c ! slot)" using r by (simp add: rings_ok_def)
    from TryEnqueueBounded_items(3)[OF this, of m] show ?thesis using r True
      by (auto simp: rings_ok_def enqueue_or_overflow_def Let_def VenueSlotIndex_def NoteOverflow_def dest!: mem_updateD split: prod.splits)
  qed (use r in \<open>simp add: enqueue_or_overflow_def VenueSlotIndex_def\<close>)
qed

lemma enqueue_quote_queues:
  "co_queues (EnqueueQuote c slot q) = co_queues (snd (enqueue_or_overflow c slot (MsgQuote q)))"
  by (simp add: EnqueueQuote_def enqueue_or_overflow_def Let_def NoteOverflow_def split: prod.splits)

lemma enqueue_rings:
  assumes "enqueue e slot c = (pushed, c')" "rings_ok c"
  shows "rings_ok c'"
proof -
  have c': "c' = snd (enqueue e slot c)" using assms(1) by simp
  show ?thesis unfolding c'
    using enqueue_or_overflow_rings[OF assms(2)] enqueue_quote_queues
    by (cases e) (simp_all add: EnqueueUpdate_def EnqueueHealth_def EnqueueRegistration_def EnqueueDisconnect_def rings_ok_def)
qed

lemma loop_step_core:
  assumes "loop_step t t'" "scan_ok (th_loop t) (venue_count (th_core t))" "tail_ok (th_core t)" "rings_ok (th_core t)"
  shows "tail_ok (th_core t') \<and> rings_ok (th_core t') \<and> venue_count (th_core t') = venue_count (th_core t) \<and> th_hidden t' = th_hidden t"
  using assms
proof (induction rule: loop_step.induct)
  case (loop_pop t final n i d i' d' c)
  then have i: "i < venue_count (th_core t)" by simp
  then have "i < kMaxVenues" using loop_pop(6) by (simp add: tail_ok_def)
  then show ?case
    using tail_frame[OF loop_pop(6) drain_turn_frame(1)[OF loop_pop(4)] i drain_turn_frame(2)[OF loop_pop(4)]]
      drain_turn_frame(1)[OF loop_pop(4)] drain_turn_rings[OF loop_pop(4,7)] by simp
qed simp_all

lemma other_step_queues:
  "ring_step t t' \<Longrightarrow> th_core t' = th_core t \<and> th_loop t' = th_loop t \<and> th_hidden t' = th_hidden t"
  "store_step t t' \<Longrightarrow> th_core t' = th_core t \<and> th_loop t' = th_loop t \<and> th_notified t' = th_notified t \<and> th_running t' = th_running t \<and>
     th_stopper t' = th_stopper t \<and> th_producers t' = th_producers t \<and> th_doorbell t' = th_doorbell t \<and>
     (\<forall>j. th_hidden t' j \<le> th_hidden t j)"
  "produce_step t t' \<Longrightarrow> th_loop t' = th_loop t \<and> venue_count (th_core t') = venue_count (th_core t) \<and>
     (tail_ok (th_core t) \<longrightarrow> tail_ok (th_core t')) \<and> (rings_ok (th_core t) \<longrightarrow> rings_ok (th_core t')) \<and>
     (hidden_ok t \<longrightarrow> hidden_ok t') \<and> (stop_ok t \<longrightarrow> stop_ok t')"
  "owner_step t t' \<Longrightarrow> (th_loop t' = th_loop t \<or> th_loop t' = LTest) \<and> venue_count (th_core t) \<le> venue_count (th_core t') \<and>
     co_queues (th_core t') = co_queues (th_core t) \<and> (tail_ok (th_core t) \<longrightarrow> tail_ok (th_core t')) \<and> th_hidden t' = th_hidden t"
proof -
  show "ring_step t t' \<Longrightarrow> th_core t' = th_core t \<and> th_loop t' = th_loop t \<and> th_hidden t' = th_hidden t"
    by (induction rule: ring_step.induct) simp_all
  show "store_step t t' \<Longrightarrow> th_core t' = th_core t \<and> th_loop t' = th_loop t \<and> th_notified t' = th_notified t \<and> th_running t' = th_running t \<and>
     th_stopper t' = th_stopper t \<and> th_producers t' = th_producers t \<and> th_doorbell t' = th_doorbell t \<and>
     (\<forall>j. th_hidden t' j \<le> th_hidden t j)"
    by (induction rule: store_step.induct) simp_all
  show "produce_step t t' \<Longrightarrow> th_loop t' = th_loop t \<and> venue_count (th_core t') = venue_count (th_core t) \<and>
     (tail_ok (th_core t) \<longrightarrow> tail_ok (th_core t')) \<and> (rings_ok (th_core t) \<longrightarrow> rings_ok (th_core t')) \<and>
     (hidden_ok t \<longrightarrow> hidden_ok t') \<and> (stop_ok t \<longrightarrow> stop_ok t')"
    by (induction rule: produce_step.induct)
       (auto intro: tail_frame[OF _ enqueue_frame(1) _ enqueue_frame(2)] enqueue_rings
          simp: enqueue_frame(1) hidden_ok_def stop_ok_def stopping_def)
  show "owner_step t t' \<Longrightarrow> (th_loop t' = th_loop t \<or> th_loop t' = LTest) \<and> venue_count (th_core t) \<le> venue_count (th_core t') \<and>
     co_queues (th_core t') = co_queues (th_core t) \<and> (tail_ok (th_core t) \<longrightarrow> tail_ok (th_core t')) \<and> th_hidden t' = th_hidden t"
  proof (induction rule: owner_step.induct)
    case (owner_register t name)
    then show ?case using RegisterVenueName_frame[of "th_core t" name] by (auto simp: tail_ok_def dest: order_trans)
  qed simp_all
qed

lemma threads_step_ok:
  assumes "threads_step t t'" "consolidator_ok t"
  shows "consolidator_ok t'"
proof -
  have o: "doorbell_ok t" "tail_ok (th_core t)" "stop_ok t" "scan_ok (th_loop t) (venue_count (th_core t))"
    "rings_ok (th_core t)" "hidden_ok t"
    using assms(2) by (simp_all add: consolidator_ok_def)
  consider "loop_step t t'" | "ring_step t t'" | "produce_step t t'" | "owner_step t t'" | "store_step t t'"
    using assms(1) unfolding threads_step_def by blast
  then show ?thesis
  proof cases
    case 1
    then show ?thesis
      using o loop_step_doorbell[OF 1] loop_step_stop[OF 1] loop_step_scan[OF 1] loop_step_core[OF 1 o(4,2,5)]
      unfolding consolidator_ok_def hidden_ok_def by metis
  next
    case 2
    then show ?thesis
      using o ring_step_doorbell ring_step_stop other_step_queues(1)[OF 2] unfolding consolidator_ok_def hidden_ok_def by simp
  next
    case 3
    then show ?thesis using o produce_step_doorbell other_step_queues(3)[OF 3] unfolding consolidator_ok_def by simp
  next
    case 4
    have "scan_ok (th_loop t') (venue_count (th_core t'))"
      using other_step_queues(4)[OF 4] o(4) scan_mono by auto
    then show ?thesis using 4 o owner_step_doorbell owner_step_stop other_step_queues(4)[OF 4]
      unfolding consolidator_ok_def hidden_ok_def rings_ok_def by (metis less_le_trans)
  next
    case 5
    note f = other_step_queues(2)[OF 5]
    have "hidden_ok t'" unfolding hidden_ok_def
    proof (intro allI impI)
      fix j assume "th_hidden t' j \<noteq> 0"
      then have "th_hidden t j \<noteq> 0" using f by (metis le_zero_eq)
      then show "j < venue_count (th_core t')" using o(6) f by (simp add: hidden_ok_def)
    qed
    then show ?thesis using o f by (simp add: consolidator_ok_def stop_ok_def stopping_def doorbell_ok_def)
  qed
qed

definition threads_reachable :: "Threads \<Rightarrow> bool" where
  "threads_reachable t \<longleftrightarrow> (\<exists>a b cfg. threads_step\<^sup>*\<^sup>* (new_threads (Init (new_Core a b) cfg)) t)"

lemma Init_frame: "co_queues (Init c cfg) = co_queues c \<and> co_venue_registry (Init c cfg) = co_venue_registry c"
proof -
  have f: "co_queues (fold g ks c) = co_queues c \<and> co_venue_registry (fold g ks c) = co_venue_registry c"
    if "\<And>k c. co_queues (g k c) = co_queues c \<and> co_venue_registry (g k c) = co_venue_registry c" for g ks and c :: Core
    using that by (induction ks arbitrary: c) simp_all
  show ?thesis unfolding Init_def by (rule f) (simp add: AddInstrument_def Let_def)
qed

lemma Init_idle: "venue_count (Init (new_Core a b) cfg) = 0" "j < kMaxVenues \<Longrightarrow> Empty (co_queues (Init (new_Core a b) cfg) ! j)"
  using Init_frame[of "new_Core a b" cfg]
  by (simp_all add: venue_count_def new_Core_def empty_registry_def registry_size_def Empty_def new_queue_def)

lemma Init_rings: "rings_ok (Init (new_Core a b) cfg)"
  using Init_frame[of "new_Core a b" cfg] new_queue_ok[OF capacity_single_bit, of VenueRegistration]
  by (simp add: rings_ok_def new_Core_def)

lemma threads_start_ok: "consolidator_ok (new_threads (Init (new_Core a b) cfg))"
  using Init_idle Init_rings by (simp add: consolidator_ok_def doorbell_ok_def tail_ok_def stop_ok_def hidden_ok_def new_threads_def)

lemma threads_reachable_ok: "threads_reachable t \<Longrightarrow> consolidator_ok t"
proof -
  assume "threads_reachable t"
  then obtain a b cfg where r: "threads_step\<^sup>*\<^sup>* (new_threads (Init (new_Core a b) cfg)) t"
    unfolding threads_reachable_def by blast
  then show ?thesis using threads_start_ok[of a b cfg] by (induction rule: rtranclp_induct) (auto intro: threads_step_ok)
qed

section \<open>Stores become visible\<close>

definition settled :: "Threads \<Rightarrow> bool" where
  "settled t \<longleftrightarrow> th_stores t = [] \<and> (\<forall>j. th_hidden t j = 0)"

definition settle :: "Threads \<Rightarrow> Threads" where
  "settle t = t\<lparr>th_waiting := last (th_waiting t # th_stores t), th_stores := [], th_hidden := (\<lambda>_. 0)\<rparr>"

lemma flag_settles: "store_step\<^sup>*\<^sup>* t (t\<lparr>th_waiting := last (th_waiting t # th_stores t), th_stores := []\<rparr>)"
proof (induction "th_stores t" arbitrary: t)
  case Nil
  then show ?case by (cases t) simp
next
  case (Cons b bs)
  let ?u = "t\<lparr>th_waiting := b, th_stores := bs\<rparr>"
  have "store_step t ?u" by (rule store_flag[OF Cons.hyps(2)[symmetric]])
  moreover have "store_step\<^sup>*\<^sup>* ?u (?u\<lparr>th_waiting := last (th_waiting ?u # th_stores ?u), th_stores := []\<rparr>)"
    by (rule Cons.hyps(1)) simp
  ultimately have "store_step\<^sup>*\<^sup>* t (?u\<lparr>th_waiting := last (th_waiting ?u # th_stores ?u), th_stores := []\<rparr>)"
    by (rule converse_rtranclp_into_rtranclp)
  then show ?case by (simp add: Cons.hyps(2)[symmetric])
qed

lemma cursor_settles: "store_step\<^sup>*\<^sup>* t (t\<lparr>th_hidden := (th_hidden t)(j := 0)\<rparr>)"
proof (induction "th_hidden t j" arbitrary: t)
  case 0
  then have "(th_hidden t)(j := 0) = th_hidden t" by (simp add: fun_eq_iff)
  then show ?case by (cases t) simp
next
  case (Suc k)
  let ?u = "t\<lparr>th_hidden := (th_hidden t)(j := k)\<rparr>"
  have "store_step t ?u" using store_cursor[of t j] Suc.hyps(2)[symmetric] by simp
  moreover have "store_step\<^sup>*\<^sup>* ?u (?u\<lparr>th_hidden := (th_hidden ?u)(j := 0)\<rparr>)" by (rule Suc.hyps(1)) simp
  ultimately have "store_step\<^sup>*\<^sup>* t (?u\<lparr>th_hidden := (th_hidden ?u)(j := 0)\<rparr>)" by (rule converse_rtranclp_into_rtranclp)
  then show ?case by simp
qed

lemma cursors_settle: "store_step\<^sup>*\<^sup>* t (t\<lparr>th_hidden := (\<lambda>j. if j < n then 0 else th_hidden t j)\<rparr>)"
proof (induction n)
  case (Suc n)
  let ?u = "t\<lparr>th_hidden := (\<lambda>j. if j < n then 0 else th_hidden t j)\<rparr>"
  have e: "(th_hidden ?u)(n := 0) = (\<lambda>j. if j < Suc n then 0 else th_hidden t j)" by (auto simp: less_Suc_eq)
  from rtranclp_trans[OF Suc cursor_settles[of ?u n]] show ?case unfolding e by simp
qed (cases t, simp)

lemma settles:
  assumes "hidden_ok t"
  shows "store_step\<^sup>*\<^sup>* t (settle t)"
proof -
  let ?u = "t\<lparr>th_hidden := (\<lambda>j. if j < venue_count (th_core t) then 0 else th_hidden t j)\<rparr>"
  have "th_hidden ?u = (\<lambda>_. 0)" using assms unfolding hidden_ok_def by (intro ext) (simp, blast)
  then have "?u\<lparr>th_waiting := last (th_waiting ?u # th_stores ?u), th_stores := []\<rparr> = settle t"
    unfolding settle_def by (cases t) simp
  with rtranclp_trans[OF cursors_settle[of t "venue_count (th_core t)"] flag_settles] show ?thesis by simp
qed

lemma settle_facts [simp]:
  "th_core (settle t) = th_core t" "th_loop (settle t) = th_loop t" "th_doorbell (settle t) = th_doorbell t"
  "th_producers (settle t) = th_producers t" "th_stopper (settle t) = th_stopper t" "th_notified (settle t) = th_notified t"
  "th_running (settle t) = th_running t" "th_hidden (settle t) = (\<lambda>_. 0)" "th_stores (settle t) = []"
  "th_waiting (settle t) = last (th_waiting t # th_stores t)" "doorbell_ok (settle t) = doorbell_ok t"
  by (simp_all add: settle_def doorbell_ok_def)

section \<open>Who is woken\<close>

text \<open>The steps of producers that have pushed, and of an owner that is in \<^verbatim>\<open>Stop\<close>; stores becoming visible.\<close>

definition wakers :: "Threads \<Rightarrow> Threads \<Rightarrow> bool" where
  "wakers t t' \<longleftrightarrow> ring_step t t' \<or> store_step t t' \<or> owner_step t t' \<and> th_stopper t \<noteq> SIdle"

lemma wakers_settle: "hidden_ok t \<Longrightarrow> wakers\<^sup>*\<^sup>* t (settle t)"
  by (rule rtranclp_mono[THEN predicate2D, OF _ settles]) (auto simp: wakers_def)

lemma ring_locked:
  assumes "th_loop t = LSleep" "th_doorbell t = None" "th_producers t i = BLock"
  shows "\<exists>t'. wakers\<^sup>*\<^sup>* t t' \<and> th_notified t' \<and> th_loop t' = LSleep"
proof -
  let ?u = "t\<lparr>th_doorbell := Some (Producer i), th_producers := (th_producers t)(i := BNotify)\<rparr>"
  let ?v = "?u\<lparr>th_notified := th_notified ?u \<or> th_loop ?u = LSleep, th_doorbell := None, th_producers := (th_producers ?u)(i := BIdle)\<rparr>"
  have u: "wakers t ?u" unfolding wakers_def using ring_lock[OF assms(3,2)] by blast
  have "th_producers ?u i = BNotify" by simp
  then have v: "wakers ?u ?v" unfolding wakers_def by (intro disjI1 ring_notify)
  have "wakers\<^sup>*\<^sup>* t ?v" by (rule converse_rtranclp_into_rtranclp[OF u r_into_rtranclp[of wakers, OF v]])
  moreover have "th_notified ?v \<and> th_loop ?v = LSleep" using assms(1) by simp
  ultimately show ?thesis by blast
qed

text \<open>Whoever holds the mutex while the consolidator does not is about to notify and to release it.\<close>

lemma holder_notifies:
  assumes "\<not> holds_doorbell (th_loop t)" "doorbell_ok t" "th_doorbell t \<noteq> None"
  shows "\<exists>t'. wakers t t' \<and> th_loop t' = th_loop t \<and> th_notified t' = (th_notified t \<or> th_loop t = LSleep) \<and> th_doorbell t' = None \<and>
    th_core t' = th_core t \<and> th_hidden t' = th_hidden t"
proof (cases "th_doorbell t")
  case (Some x)
  show ?thesis
  proof (cases x)
    case Consumer
    then show ?thesis using assms Some by (simp add: doorbell_ok_def)
  next
    case (Producer i)
    then have "th_producers t i = BNotify" using assms(2) Some unfolding doorbell_ok_def by blast
    from ring_notify[OF this] have "wakers t (t\<lparr>th_notified := th_notified t \<or> th_loop t = LSleep, th_doorbell := None,
        th_producers := (th_producers t)(i := BIdle)\<rparr>)" unfolding wakers_def by blast
    then show ?thesis by (intro exI conjI) (assumption, simp_all)
  next
    case Stopper
    then have s: "th_stopper t = SNotify" using assms(2) Some by (simp add: doorbell_ok_def)
    from owner_notify[OF s] have "wakers t (t\<lparr>th_notified := th_notified t \<or> th_loop t = LSleep, th_doorbell := None,
        th_stopper := SJoin\<rparr>)" using s unfolding wakers_def by simp
    then show ?thesis by (intro exI conjI) (assumption, simp_all)
  qed
qed (use assms(3) in simp)

lemma holder_wakes:
  assumes "th_loop t = LSleep" "doorbell_ok t" "th_doorbell t \<noteq> None"
  shows "\<exists>t'. wakers\<^sup>*\<^sup>* t t' \<and> th_notified t' \<and> th_loop t' = LSleep"
proof -
  have "\<not> holds_doorbell (th_loop t)" using assms(1) by simp
  from holder_notifies[OF this assms(2,3)] assms(1) show ?thesis by (auto intro: r_into_rtranclp)
qed

text \<open>
  A consolidator that sleeps after it was told to stop has been notified or will be by the owner, which is on its way: the
  owner goes through the mutex before it notifies, so no order of the stores loses this wake-up.
\<close>

lemma stop_wakes:
  assumes "consolidator_ok t" "th_loop t = LSleep" "\<not> th_running t"
  shows "\<exists>t'. wakers\<^sup>*\<^sup>* t t' \<and> th_notified t' \<and> th_loop t' = LSleep"
proof (cases "th_notified t \<or> th_doorbell t \<noteq> None")
  case True
  then show ?thesis using assms(2) holder_wakes[OF assms(2)] assms(1) by (auto simp: consolidator_ok_def)
next
  case False
  then have n: "\<not> th_notified t" "th_doorbell t = None" by simp_all
  have "stopping t" using assms n unfolding consolidator_ok_def stop_ok_def by auto
  moreover have "th_stopper t \<noteq> SNotify" using assms(1) n(2) by (auto simp: consolidator_ok_def doorbell_ok_def)
  ultimately have s: "th_stopper t = SLock" by (simp add: stopping_def)
  let ?u = "t\<lparr>th_doorbell := Some Stopper, th_stopper := SNotify\<rparr>"
  let ?v = "?u\<lparr>th_notified := th_notified ?u \<or> th_loop ?u = LSleep, th_doorbell := None, th_stopper := SJoin\<rparr>"
  have u: "wakers t ?u" unfolding wakers_def using owner_lock[OF s n(2)] s by simp
  have "th_stopper ?u = SNotify" by simp
  then have v: "wakers ?u ?v" unfolding wakers_def by (intro disjI2 conjI owner_notify) simp_all
  have "wakers\<^sup>*\<^sup>* t ?v" by (rule converse_rtranclp_into_rtranclp[OF u r_into_rtranclp[of wakers, OF v]])
  moreover have "th_notified ?v \<and> th_loop ?v = LSleep" using assms(2) by simp
  ultimately show ?thesis by blast
qed

subsection \<open>With fences\<close>

text \<open>
  What sequentially consistent fences would give, one in \<^verbatim>\<open>RingDoorbell\<close> before its load and one in the loop after its
  store of the flag: a producer reads the flag when no store is on its way. The code has no such fences.
\<close>

definition fenced_step :: "Threads \<Rightarrow> Threads \<Rightarrow> bool" where
  "fenced_step t t' \<longleftrightarrow> threads_step t t' \<and> (\<forall>i. th_producers t i = BRing \<longrightarrow> th_producers t' i = BRing \<or> settled t)"

definition bell_ok :: "Threads \<Rightarrow> bool" where
  "bell_ok t \<longleftrightarrow>
     (awaits (th_loop t) \<longrightarrow> last (th_waiting t # th_stores t)) \<and>
     (\<forall>j. queued_at (th_core t) j \<longrightarrow> looked_at (th_loop t) (th_notified t) j \<longrightarrow> ringing t) \<and>
     (\<forall>j. th_hidden t j \<noteq> 0 \<longrightarrow> (\<exists>i. th_producers t i = BRing))"

lemma loop_step_bell: "loop_step t t' \<Longrightarrow> bell_ok t \<Longrightarrow> bell_ok t'"
proof (induction rule: loop_step.induct)
  case (loop_pending t)
  then show ?case by (auto simp: bell_ok_def queued_at_def)
next
  case (loop_predicate t n i)
  have "ringing t" if "queued_at (th_core t) i" "\<not> visible t i"
  proof -
    have "queued (th_core t) i \<noteq> []" using that(1) by (simp add: queued_at_def Empty_contents[where cap = kProviderQueueCapacity] del: contents_Nil_iff)
    then have "0 < length (queued (th_core t) i)" using length_greater_0_conv by blast
    then have "th_hidden t i \<noteq> 0" using that(2) unfolding visible_def by linarith
    then obtain j where "th_producers t j = BRing" using loop_predicate(3) by (auto simp: bell_ok_def)
    then show ?thesis unfolding ringing_def by (intro exI[of _ j]) simp
  qed
  then show ?case using loop_predicate by (auto simp: bell_ok_def ringing_def less_Suc_eq)
next
  case (loop_sleep t n)
  then show ?case by (auto simp: bell_ok_def ringing_def not_less)
qed (simp_all add: bell_ok_def)

lemma produce_step_bell: "produce_step t t' \<Longrightarrow> bell_ok t \<Longrightarrow> bell_ok t'"
proof (induction rule: produce_step.induct)
  case (produce_push t i slot e c)
  let ?t = "t\<lparr>th_core := c, th_producers := (th_producers t)(i := BRing), th_hidden := (th_hidden t)(slot := Suc (th_hidden t slot))\<rparr>"
  have "th_producers ?t i = BRing" "ringing ?t" by (auto simp: ringing_def)
  then have "(\<forall>j. queued_at c j \<longrightarrow> looked_at (th_loop t) (th_notified t) j \<longrightarrow> ringing ?t) \<and> (\<exists>i. th_producers ?t i = BRing)" by blast
  then show ?case using produce_push(4) by (simp add: bell_ok_def)
next
  case (produce_full t i slot e c)
  then have "queued_at c = queued_at (th_core t)"
    using enqueue_frame(1)[OF produce_full(3)] enqueue_frame(3)[OF produce_full(3)] by (simp add: queued_at_def fun_eq_iff)
  then show ?case using produce_full by (simp add: bell_ok_def ringing_def)
qed

lemma ring_step_bell:
  assumes "ring_step t t'" "\<forall>i. th_producers t i = BRing \<longrightarrow> th_producers t' i = BRing \<or> settled t" "doorbell_ok t" "bell_ok t"
  shows "bell_ok t'"
  using assms
proof (induction rule: ring_step.induct)
  case (ring_awake t i)
  then have s: "settled t" by auto
  then have "\<not> past_running (th_loop t) (th_notified t)" using ring_awake past_awaits by (auto simp: bell_ok_def settled_def)
  then show ?case using ring_awake(2,5) s looked_at_past by (auto simp: bell_ok_def settled_def)
next
  case (ring_asleep t i)
  then have s: "settled t" by auto
  have "ringing (t\<lparr>th_producers := (th_producers t)(i := BLock)\<rparr>)" unfolding ringing_def by (intro exI[of _ i]) simp
  then show ?case using ring_asleep(5) s by (simp add: bell_ok_def settled_def)
next
  case (ring_lock t i)
  have "ringing (t\<lparr>th_doorbell := Some (Producer i), th_producers := (th_producers t)(i := BNotify)\<rparr>)"
    unfolding ringing_def by (intro exI[of _ i]) simp
  moreover have "(\<exists>k. ((th_producers t)(i := BNotify)) k = BRing)" if "\<exists>k. th_producers t k = BRing"
    using that ring_lock(1) by (metis ProducerState.distinct(7) fun_upd_other)
  ultimately show ?case using ring_lock(5) by (simp add: bell_ok_def)
next
  case (ring_notify t i)
  have "th_doorbell t = Some (Producer i)" using ring_notify(1,3) by (simp add: doorbell_ok_def)
  then have p: "\<not> past_running (th_loop t) (th_notified t \<or> th_loop t = LSleep)"
    using notified_not_past[OF ring_notify(3)] by simp
  have "(\<exists>k. ((th_producers t)(i := BIdle)) k = BRing)" if "\<exists>k. th_producers t k = BRing"
    using that ring_notify(1) by (metis ProducerState.distinct(9) fun_upd_other)
  then show ?case using ring_notify(4) p looked_at_past by (simp add: bell_ok_def) blast
qed

lemma owner_step_bell: "owner_step t t' \<Longrightarrow> doorbell_ok t \<Longrightarrow> tail_ok (th_core t) \<Longrightarrow> bell_ok t \<Longrightarrow> bell_ok t'"
proof (induction rule: owner_step.induct)
  case (owner_notify t)
  have "th_doorbell t = Some Stopper" using owner_notify(1,2) by (simp add: doorbell_ok_def)
  then have "\<not> past_running (th_loop t) (th_notified t \<or> th_loop t = LSleep)" using notified_not_past[OF owner_notify(2)] by simp
  then show ?case using owner_notify(4) looked_at_past by (auto simp: bell_ok_def)
next
  case (owner_register t name)
  have "queued_at (th_core t) j" if "queued_at (snd (RegisterVenueName (th_core t) name)) j" for j
    using that owner_register(2) RegisterVenueName_frame(1,3)[of "th_core t" name]
    unfolding queued_at_def tail_ok_def by (metis not_less order.strict_trans2)
  then show ?case using owner_register unfolding bell_ok_def ringing_def by simp blast
qed (auto simp: bell_ok_def ringing_def)

lemma store_step_bell: "store_step t t' \<Longrightarrow> bell_ok t \<Longrightarrow> bell_ok t'"
  by (induction rule: store_step.induct) (auto simp: bell_ok_def ringing_def split: if_splits)

lemma fenced_step_ok:
  assumes "fenced_step t t'" "consolidator_ok t" "bell_ok t"
  shows "consolidator_ok t' \<and> bell_ok t'"
proof -
  have s: "threads_step t t'" using assms(1) by (simp add: fenced_step_def)
  have f: "\<forall>i. th_producers t i = BRing \<longrightarrow> th_producers t' i = BRing \<or> settled t" using assms(1) by (simp add: fenced_step_def)
  have o: "doorbell_ok t" "tail_ok (th_core t)" using assms(2) by (simp_all add: consolidator_ok_def)
  consider "loop_step t t'" | "ring_step t t'" | "produce_step t t'" | "owner_step t t'" | "store_step t t'"
    using s unfolding threads_step_def by blast
  then have "bell_ok t'"
    by cases (use loop_step_bell ring_step_bell f produce_step_bell owner_step_bell store_step_bell o assms(3) in blast)+
  then show ?thesis using threads_step_ok[OF s assms(2)] by blast
qed

definition fenced_reachable :: "Threads \<Rightarrow> bool" where
  "fenced_reachable t \<longleftrightarrow> (\<exists>a b cfg. fenced_step\<^sup>*\<^sup>* (new_threads (Init (new_Core a b) cfg)) t)"

lemma fenced_reachable_ok: "fenced_reachable t \<Longrightarrow> consolidator_ok t \<and> bell_ok t"
proof -
  assume "fenced_reachable t"
  then obtain a b cfg where r: "fenced_step\<^sup>*\<^sup>* (new_threads (Init (new_Core a b) cfg)) t"
    unfolding fenced_reachable_def by blast
  have "bell_ok (new_threads (Init (new_Core a b) cfg))"
    using Init_idle(1) by (simp add: bell_ok_def new_threads_def)
  with threads_start_ok[of a b cfg]
  have "consolidator_ok (new_threads (Init (new_Core a b) cfg)) \<and> bell_ok (new_threads (Init (new_Core a b) cfg))" by blast
  with r show ?thesis by (induction rule: rtranclp_induct) (auto dest: fenced_step_ok)
qed

text \<open>Then every message in a queue of a sleeping consolidator has somebody on the way to notify it.\<close>

lemma fenced_is_woken:
  assumes "consolidator_ok t" "bell_ok t" "th_loop t = LSleep" "HasPending (th_core t)"
  shows "\<exists>t'. wakers\<^sup>*\<^sup>* t t' \<and> th_notified t' \<and> th_loop t' = LSleep"
proof (cases "th_notified t \<or> th_doorbell t \<noteq> None")
  case True
  then show ?thesis using assms(3) holder_wakes[OF assms(3)] assms(1) by (auto simp: consolidator_ok_def)
next
  case False
  then have n: "\<not> th_notified t" "th_doorbell t = None" by simp_all
  let ?s = "settle t"
  have w: "wakers\<^sup>*\<^sup>* t ?s" using assms(1) by (intro wakers_settle) (simp add: consolidator_ok_def)
  have "ringing t" using assms n unfolding bell_ok_def HasPending_queued by auto
  then obtain i where i: "th_producers t i \<noteq> BIdle" by (auto simp: ringing_def)
  have "th_producers t i \<noteq> BNotify" using assms(1) n(2) by (auto simp: consolidator_ok_def doorbell_ok_def)
  then consider "th_producers t i = BRing" | "th_producers t i = BLock" using i by (cases "th_producers t i") auto
  then show ?thesis
  proof cases
    case 1
    let ?u = "?s\<lparr>th_producers := (th_producers ?s)(i := BLock)\<rparr>"
    have "th_waiting ?s" using assms(2,3) by (simp add: bell_ok_def)
    then have "wakers ?s ?u" unfolding wakers_def using ring_asleep[of ?s i] 1 by simp
    moreover have "\<exists>t'. wakers\<^sup>*\<^sup>* ?u t' \<and> th_notified t' \<and> th_loop t' = LSleep"
      by (rule ring_locked[of _ i]) (simp_all add: assms(3) n(2))
    ultimately show ?thesis using w by (meson rtranclp.rtrancl_into_rtrancl rtranclp_trans)
  next
    case 2
    then show ?thesis by (rule ring_locked[OF assms(3) n(2)])
  qed
qed

section \<open>What leaves a queue is handled\<close>

text \<open>
  What the consolidator and the owner do to the core while no producer adds a message: a message of a queue is handled, or a
  name is registered.
\<close>

datatype Turn = Handled nat ProviderMessage | Named string

fun turn :: "Turn \<Rightarrow> Core \<Rightarrow> Core" where
  "turn (Handled i m) c = dispatch i m c"
| "turn (Named name) c = snd (RegisterVenueName c name)"

fun handled_in :: "nat \<Rightarrow> Turn list \<Rightarrow> ProviderMessage list" where
  "handled_in j [] = []"
| "handled_in j (Handled i m # log) = (if i = j then m # handled_in j log else handled_in j log)"
| "handled_in j (Named name # log) = handled_in j log"

definition handles :: "Core \<Rightarrow> Turn list \<Rightarrow> Core \<Rightarrow> bool" where
  "handles c log c' \<longleftrightarrow> c' = (fold turn log c)\<lparr>co_queues := co_queues c'\<rparr> \<and>
     (\<forall>j < kMaxVenues. handled_in j log @ queued c' j = queued c j)"

lemma handled_in_append: "handled_in j (xs @ ys) = handled_in j xs @ handled_in j ys"
  by (induction j xs rule: handled_in.induct) simp_all

lemma turn_set_queues: "turn x (c\<lparr>co_queues := qs\<rparr>) = (turn x c)\<lparr>co_queues := qs\<rparr>"
  by (cases x) (simp_all add: dispatch_set_queues RegisterVenueName_def split: prod.splits)

lemma handles_refl: "handles c [] c"
  by (simp add: handles_def)

lemma handles_same: "handles c log c' \<Longrightarrow> c'' = c' \<Longrightarrow> handles c log c''"
  by simp

lemma handles_named:
  assumes "handles c log c'"
  shows "handles c (log @ [Named name]) (snd (RegisterVenueName c' name))"
proof -
  have q: "co_queues (snd (RegisterVenueName c' name)) = co_queues c'" by (rule RegisterVenueName_frame(1))
  have "snd (RegisterVenueName c' name) = turn (Named name) ((fold turn log c)\<lparr>co_queues := co_queues c'\<rparr>)"
    using assms by (simp add: handles_def)
  also have "\<dots> = (fold turn (log @ [Named name]) c)\<lparr>co_queues := co_queues c'\<rparr>" unfolding turn_set_queues by simp
  finally show ?thesis using assms q by (simp add: handles_def handled_in_append)
qed

lemma handles_popped:
  assumes "handles c log c'" "rings_ok c'" "i < kMaxVenues" "drain_turn i d c' = ((i', d'), c'')"
  shows "\<exists>log'. handles c log' c''"
proof -
  have i: "i < length (co_queues c')" "queue_ok kProviderQueueCapacity (co_queues c' ! i)" using assms(2,3) by (simp_all add: rings_ok_def)
  show ?thesis
  proof (cases "queued c' i")
    case Nil
    then have "c'' = c'" using assms(4) TryPop_empty[OF Nil] by (simp add: drain_turn_def)
    then show ?thesis using assms(1) by blast
  next
    case (Cons m ms)
    obtain q where q: "TryPop kProviderQueueCapacity (co_queues c' ! i) = (Some m, q)" "contents kProviderQueueCapacity q = ms"
      using TryPop_Cons[OF i(2) Cons] by (metis prod.collapse)
    let ?qs = "(co_queues c')[i := q]"
    have c'': "c'' = dispatch i m (c'\<lparr>co_queues := ?qs\<rparr>)" using assms(4) q(1) by (auto simp: drain_turn_def)
    then have qs: "co_queues c'' = ?qs" by simp
    have "c' = (fold turn log c)\<lparr>co_queues := co_queues c'\<rparr>" using assms(1) by (simp add: handles_def)
    then have "c'\<lparr>co_queues := ?qs\<rparr> = (fold turn log c)\<lparr>co_queues := co_queues c', co_queues := ?qs\<rparr>" by (rule arg_cong)
    then have "c'\<lparr>co_queues := ?qs\<rparr> = (fold turn log c)\<lparr>co_queues := ?qs\<rparr>" by simp
    then have "c'' = turn (Handled i m) ((fold turn log c)\<lparr>co_queues := ?qs\<rparr>)" using c'' by simp
    also have "\<dots> = (fold turn (log @ [Handled i m]) c)\<lparr>co_queues := ?qs\<rparr>" unfolding turn_set_queues by simp
    finally have e: "c'' = (fold turn (log @ [Handled i m]) c)\<lparr>co_queues := co_queues c''\<rparr>" using qs by simp
    have "handled_in j (log @ [Handled i m]) @ queued c'' j = queued c j" if "j < kMaxVenues" for j
      using that assms(1) Cons q(2) i(1) by (cases "i = j") (auto simp: handles_def handled_in_append qs)
    then have "handles c (log @ [Handled i m]) c''" using e unfolding handles_def by blast
    then show ?thesis by blast
  qed
qed

text \<open>Steps in which no producer adds a message.\<close>

definition quiet_step :: "Threads \<Rightarrow> Threads \<Rightarrow> bool" where
  "quiet_step t t' \<longleftrightarrow> loop_step t t' \<or> ring_step t t' \<or> owner_step t t' \<or> store_step t t'"

lemma quiet_threads: "quiet_step t t' \<Longrightarrow> threads_step t t'"
  by (auto simp: quiet_step_def threads_step_def)

lemma loop_step_handles:
  assumes "loop_step t t'" "consolidator_ok t" "handles c log (th_core t)"
  shows "\<exists>log'. handles c log' (th_core t')"
  using assms
proof (induction rule: loop_step.induct)
  case (loop_pop t final n i d i' d' c')
  then have "i < kMaxVenues" "rings_ok (th_core t)" by (auto simp: consolidator_ok_def tail_ok_def)
  then show ?case using handles_popped[OF loop_pop(6) _ _ loop_pop(4)] by simp
qed auto

lemma owner_step_handles: "owner_step t t' \<Longrightarrow> handles c log (th_core t) \<Longrightarrow> \<exists>log'. handles c log' (th_core t')"
  by (induction rule: owner_step.induct) (auto dest: handles_named)

lemma quiet_step_handles:
  assumes "quiet_step t t'" "consolidator_ok t" "handles c log (th_core t)"
  shows "\<exists>log'. handles c log' (th_core t')"
  using assms loop_step_handles owner_step_handles other_step_queues(1,2) unfolding quiet_step_def by metis

lemma quiet_handled:
  assumes "quiet_step\<^sup>*\<^sup>* t t'" "consolidator_ok t"
  shows "consolidator_ok t' \<and> (\<exists>log. handles (th_core t) log (th_core t'))"
  using assms
proof (induction rule: rtranclp_induct)
  case base
  then show ?case using handles_refl by blast
next
  case (step u v)
  then show ?case using quiet_step_handles threads_step_ok quiet_threads by blast
qed

section \<open>Nothing is left behind at the end\<close>

definition final_loop :: "LoopState \<Rightarrow> bool" where
  "final_loop l \<longleftrightarrow> l = LDone \<or> l = LNone \<or> l = LCount True \<or> (\<exists>n i d. l = LPop True n i d)"

lemma running_not_final:
  "threads_step t t' \<Longrightarrow> (th_running t \<longrightarrow> \<not> final_loop (th_loop t)) \<Longrightarrow> th_running t' \<longrightarrow> \<not> final_loop (th_loop t')"
proof -
  assume o: "th_running t \<longrightarrow> \<not> final_loop (th_loop t)" and s: "threads_step t t'"
  consider "loop_step t t'" | "ring_step t t'" | "produce_step t t'" | "owner_step t t'" | "store_step t t'"
    using s unfolding threads_step_def by blast
  then show ?thesis
  proof cases
    case 1 then show ?thesis using o by (induction rule: loop_step.induct) (auto simp: final_loop_def)
  next
    case 2 then show ?thesis using o by (induction rule: ring_step.induct) auto
  next
    case 3 then show ?thesis using o by (induction rule: produce_step.induct) auto
  next
    case 4 then show ?thesis using o by (induction rule: owner_step.induct) (auto simp: final_loop_def)
  next
    case 5 then show ?thesis using o other_step_queues(2)[OF 5] by simp
  qed
qed

lemma reachable_running: "threads_reachable t \<Longrightarrow> th_running t \<Longrightarrow> \<not> final_loop (th_loop t)"
proof -
  assume "threads_reachable t" and run: "th_running t"
  then obtain a b cfg where r: "threads_step\<^sup>*\<^sup>* (new_threads (Init (new_Core a b) cfg)) t" unfolding threads_reachable_def by blast
  then have "th_running t \<longrightarrow> \<not> final_loop (th_loop t)"
    by (induction rule: rtranclp_induct) (auto simp: new_threads_def dest: running_not_final)
  with run show ?thesis by simp
qed

fun swept :: "LoopState \<Rightarrow> nat \<Rightarrow> bool" where
  "swept (LPop True n i d) j = (j < i \<or> n \<le> j)"
| "swept LDone j = True"
| "swept _ j = False"

definition swept_ok :: "Threads \<Rightarrow> bool" where
  "swept_ok t \<longleftrightarrow> (\<forall>j. th_hidden t j = 0) \<and> (\<forall>j. queued_at (th_core t) j \<longrightarrow> \<not> swept (th_loop t) j)"

lemma loop_step_swept: "loop_step t t' \<Longrightarrow> swept_ok t \<Longrightarrow> swept_ok t'"
proof (induction rule: loop_step.induct)
  case (loop_count t final)
  then show ?case by (cases final) (auto simp: swept_ok_def queued_at_def)
next
  case (loop_pop t final n i d i' d' c)
  note f = drain_turn_frame[OF loop_pop(4)]
  show ?case
  proof (cases final)
    case True
    have "\<not> queued_at c j" if "j < i' \<or> n \<le> j" for j
    proof (cases "j = i")
      case True
      then show ?thesis using that f(3) loop_pop(2) by (auto simp: queued_at_def)
    next
      case False
      then have "j < i \<or> n \<le> j" using that f(3) by auto
      then have "\<not> queued_at (th_core t) j" using loop_pop(1,5) \<open>final\<close> by (auto simp: swept_ok_def)
      then show ?thesis using f(1) f(2)[OF False] by (simp add: queued_at_def)
    qed
    then show ?thesis using True loop_pop(5) by (auto simp: swept_ok_def)
  qed (use loop_pop(5) in \<open>simp add: swept_ok_def\<close>)
next
  case (loop_final t n d)
  then show ?case by (auto simp: swept_ok_def not_less)
qed (simp_all add: swept_ok_def)

lemma quiet_step_swept:
  assumes "quiet_step t t'" "swept_ok t" "consolidator_ok t"
  shows "swept_ok t'"
proof -
  consider "loop_step t t'" | "ring_step t t'" | "owner_step t t'" | "store_step t t'" using assms(1) unfolding quiet_step_def by blast
  then show ?thesis
  proof cases
    case 1 then show ?thesis using assms(2) by (rule loop_step_swept)
  next
    case 2 then show ?thesis using assms(2) other_step_queues(1)[OF 2] by (simp add: swept_ok_def)
  next
    case 3
    have "queued_at (th_core t) j" if "queued_at (th_core t') j" for j
      using that other_step_queues(4)[OF 3] assms(3) unfolding queued_at_def consolidator_ok_def tail_ok_def
      by (metis not_less order.strict_trans2)
    then show ?thesis using assms(2) other_step_queues(4)[OF 3] by (auto simp: swept_ok_def)
  next
    case 4 then show ?thesis using assms(2) other_step_queues(2)[OF 4] unfolding swept_ok_def by (metis le_zero_eq)
  qed
qed

text \<open>
  The thread ends: if no producer adds a message meanwhile and every cursor is visible, the messages that were in the queues
  have been handled, each queue's in order, and the core is what their handlers made of it.
\<close>

lemma tail_queued: "tail_ok c \<Longrightarrow> \<not> HasPending c \<Longrightarrow> j < kMaxVenues \<Longrightarrow> queued c j = []"
proof -
  assume a: "tail_ok c" "\<not> HasPending c" "j < kMaxVenues"
  then have "Empty (co_queues c ! j)" unfolding tail_ok_def HasPending_queued queued_at_def by (meson not_less)
  then show "queued c j = []" using Empty_contents[where cap = kProviderQueueCapacity] by blast
qed

lemma stopped_drained:
  assumes "quiet_step\<^sup>*\<^sup>* t t'" "consolidator_ok t" "\<not> final_loop (th_loop t)" "\<forall>j. th_hidden t j = 0" "th_loop t' = LDone"
  shows "\<not> HasPending (th_core t')"
proof -
  have "swept (th_loop t) j \<Longrightarrow> False" for j using assms(3) by (cases "(th_loop t, j)" rule: swept.cases) (auto simp: final_loop_def)
  then have "swept_ok t" using assms(4) by (auto simp: swept_ok_def)
  with assms(1,2) have "swept_ok t' \<and> consolidator_ok t'"
    by (induction rule: rtranclp_induct) (auto intro: quiet_step_swept threads_step_ok quiet_threads)
  then show ?thesis using assms(5) by (auto simp: swept_ok_def HasPending_queued)
qed

lemma handled_all:
  assumes "handles c log c'" "tail_ok c'" "\<not> HasPending c'"
  shows "c' = (fold turn log c)\<lparr>co_queues := co_queues c'\<rparr> \<and> (\<forall>j < kMaxVenues. handled_in j log = queued c j)"
  using assms(1) tail_queued[OF assms(2,3)] by (simp add: handles_def del: contents_Nil_iff)

section \<open>A drain that nobody disturbs\<close>

text \<open>
  Run without a step of another thread in between, and with every cursor visible, the turns of the loop are the function
  \<^const>\<open>DrainOnce\<close>; the properties of the core are stated over that function.
\<close>

lemma slot_turns:
  assumes "i < length (co_queues c)" "queue_ok kProviderQueueCapacity (co_queues c ! i)" "length (queued c i) < fuel" "i < n"
    "th_hidden t i = 0"
  shows "loop_step\<^sup>*\<^sup>* (t\<lparr>th_loop := LPop final n i d, th_core := c\<rparr>)
    (t\<lparr>th_loop := LPop final n (Suc i) (snd (drain_slot fuel i (c, d))), th_core := fst (drain_slot fuel i (c, d))\<rparr>)"
  using assms
proof (induction fuel arbitrary: c d)
  case (Suc fuel)
  let ?t = "t\<lparr>th_loop := LPop final n i d, th_core := c\<rparr>"
  show ?case
  proof (cases "queued c i")
    case Nil
    then have p: "TryPop kProviderQueueCapacity (co_queues c ! i) = (None, co_queues c ! i)" by (rule TryPop_empty)
    then have "drain_turn i d c = ((Suc i, d), c)" by (simp add: drain_turn_def)
    then show ?thesis using loop_pop[of ?t final n i d "Suc i" d c] Suc.prems(4,5) p by (simp add: r_into_rtranclp)
  next
    case (Cons m ms)
    obtain q where q: "TryPop kProviderQueueCapacity (co_queues c ! i) = (Some m, q)"
      "contents kProviderQueueCapacity q = ms" "queue_ok kProviderQueueCapacity q"
      using TryPop_Cons[OF Suc.prems(2) Cons] by (metis prod.collapse)
    let ?c = "dispatch i m (c\<lparr>co_queues := (co_queues c)[i := q]\<rparr>)"
    have "drain_turn i d c = ((i, Suc d), ?c)" using q(1) by (simp add: drain_turn_def)
    then have s: "loop_step ?t (t\<lparr>th_loop := LPop final n i (Suc d), th_core := ?c\<rparr>)"
      using loop_pop[of ?t final n i d i "Suc d" ?c] Suc.prems(4,5) by simp
    have "length (queued ?c i) < fuel" using q(2) Cons Suc.prems(1,3) by simp
    then show ?thesis using converse_rtranclp_into_rtranclp[OF s Suc.IH[of ?c "Suc d"]] q Suc.prems by simp
  qed
qed simp

lemma slots_turns:
  assumes "i \<le> n" "n \<le> length (co_queues c)" "\<forall>q \<in> set (co_queues c). queue_ok kProviderQueueCapacity q" "\<forall>j. th_hidden t j = 0"
  shows "loop_step\<^sup>*\<^sup>* (t\<lparr>th_loop := LPop final n i d, th_core := c\<rparr>)
    (t\<lparr>th_loop := LPop final n n (snd (fold (drain_slot (Suc kProviderQueueCapacity)) [i..<n] (c, d))),
       th_core := fst (fold (drain_slot (Suc kProviderQueueCapacity)) [i..<n] (c, d))\<rparr>)"
  using assms
proof (induction "n - i" arbitrary: i c d)
  case (Suc k)
  have i: "i < n" "i < length (co_queues c)" using Suc.hyps(2) Suc.prems(2) by simp_all
  then have ok: "queue_ok kProviderQueueCapacity (co_queues c ! i)" using Suc.prems(3) by simp
  then have len: "length (queued c i) < Suc kProviderQueueCapacity" by (simp add: queue_ok_def)
  obtain q where q: "queue_ok kProviderQueueCapacity q" "drain_slot (Suc kProviderQueueCapacity) i (c, d) =
      ((fold (dispatch i) (queued c i) c)\<lparr>co_queues := (co_queues c)[i := q]\<rparr>, d + length (queued c i))"
    using drain_slot_all[OF i(2) ok len] by blast
  obtain c' d' where e: "drain_slot (Suc kProviderQueueCapacity) i (c, d) = (c', d')" by (rule prod.exhaust)
  have "co_queues c' = (co_queues c)[i := q]" using q(2) e by auto
  then have c': "n \<le> length (co_queues c')" "\<forall>q \<in> set (co_queues c'). queue_ok kProviderQueueCapacity q"
    using Suc.prems(2,3) q(1) by (auto dest!: mem_updateD)
  have "th_hidden t i = 0" using Suc.prems(4) by simp
  then have "loop_step\<^sup>*\<^sup>* (t\<lparr>th_loop := LPop final n i d, th_core := c\<rparr>) (t\<lparr>th_loop := LPop final n (Suc i) d', th_core := c'\<rparr>)"
    using slot_turns[OF i(2) ok len i(1), where t = t and final = final and d = d] by (simp only: e fst_conv snd_conv)
  from rtranclp_trans[OF this Suc.hyps(1)[of "Suc i" c' d']] c' Suc.hyps(2) Suc.prems(4) i(1) show ?case
    by (simp add: upt_conv_Cons[OF i(1)] e del: drain_slot.simps)
qed simp

lemma drain_alone:
  assumes "rings_ok c" "venue_count c \<le> kMaxVenues" "\<forall>j. th_hidden t j = 0"
  shows "loop_step\<^sup>*\<^sup>* (t\<lparr>th_loop := LCount final, th_core := c\<rparr>)
    (t\<lparr>th_loop := LPop final (venue_count c) (venue_count c) (snd (DrainOnce c)), th_core := fst (DrainOnce c)\<rparr>)"
proof -
  let ?t = "t\<lparr>th_loop := LCount final, th_core := c\<rparr>"
  have q: "venue_count c \<le> length (co_queues c)" "\<forall>q \<in> set (co_queues c). queue_ok kProviderQueueCapacity q"
    using assms(1,2) by (simp_all add: rings_ok_def)
  have "loop_step ?t (t\<lparr>th_loop := LPop final (venue_count c) 0 0, th_core := c\<rparr>)" using loop_count[of ?t final] by (cases t) simp
  from converse_rtranclp_into_rtranclp[OF this slots_turns[OF _ q assms(3)]] show ?thesis by (simp add: DrainOnce_def)
qed

lemma drain_empties:
  assumes "rings_ok c" "venue_count c \<le> kMaxVenues"
  shows "\<not> HasPending (fst (DrainOnce c))"
proof -
  have q: "\<forall>i \<in> set [0..<venue_count c]. i < length (co_queues c)" "\<forall>q \<in> set (co_queues c). queue_ok kProviderQueueCapacity q"
    using assms by (simp_all add: rings_ok_def)
  obtain qs where qs: "length qs = length (co_queues c)"
    "\<forall>i < length qs. contents kProviderQueueCapacity (qs ! i) = (if i \<in> set [0..<venue_count c] then [] else queued c i)"
    "fold (drain_slot (Suc kProviderQueueCapacity)) [0..<venue_count c] (c, 0) =
      ((deliver (queued c) [0..<venue_count c] c)\<lparr>co_queues := qs\<rparr>, 0 + (\<Sum>i\<leftarrow>[0..<venue_count c]. length (queued c i)))"
    using drain_all_slots[OF _ q, of 0] by auto
  then have "co_queues (fst (DrainOnce c)) = qs" "venue_count (fst (DrainOnce c)) = venue_count c"
    unfolding DrainOnce_def qs(3) using deliver_venue_count[of "queued c" "[0..<venue_count c]" c] by (simp_all add: venue_count_def)
  then show ?thesis using qs(1,2) assms unfolding HasPending_queued queued_at_def rings_ok_def Empty_contents[where cap = kProviderQueueCapacity] by simp
qed

section \<open>What the timeout is enough for\<close>

text \<open>The consolidator's own steps, those of threads that are on their way, and stores becoming visible.\<close>

definition patient :: "Threads \<Rightarrow> Threads \<Rightarrow> bool" where
  "patient t t' \<longleftrightarrow> loop_step t t' \<or> wakers t t'"

lemma patient_quiet: "patient t t' \<Longrightarrow> quiet_step t t'"
  by (auto simp: patient_def wakers_def quiet_step_def)

lemma patient_wakers: "wakers\<^sup>*\<^sup>* t t' \<Longrightarrow> patient\<^sup>*\<^sup>* t t'"
  by (erule rtranclp_mono[THEN predicate2D, rotated]) (auto simp: patient_def)

lemma patient_loop: "loop_step\<^sup>*\<^sup>* t t' \<Longrightarrow> patient\<^sup>*\<^sup>* t t'"
  by (erule rtranclp_mono[THEN predicate2D, rotated]) (auto simp: patient_def)

lemma timeout_drains:
  assumes "consolidator_ok t" "th_loop t = LRelock True"
  shows "\<exists>t' log. patient\<^sup>*\<^sup>* t t' \<and> \<not> HasPending (th_core t') \<and>
    th_core t' = (fold turn log (th_core t))\<lparr>co_queues := co_queues (th_core t')\<rparr> \<and>
    (\<forall>j < kMaxVenues. handled_in j log = queued (th_core t) j)"
proof -
  have o: "doorbell_ok t" "hidden_ok t" "tail_ok (th_core t)" "rings_ok (th_core t)" using assms(1) by (simp_all add: consolidator_ok_def)
  let ?s = "settle t"
  have s: "patient\<^sup>*\<^sup>* t ?s" using patient_wakers wakers_settle o(2) by blast
  have "\<exists>u. patient\<^sup>*\<^sup>* ?s u \<and> th_loop u = LRelock True \<and> th_doorbell u = None \<and> th_core u = th_core t \<and> th_hidden u = (\<lambda>_. 0)"
  proof (cases "th_doorbell t = None")
    case True
    then show ?thesis using assms(2) by (intro exI[of _ ?s]) simp
  next
    case False
    then obtain u where "wakers ?s u" "th_loop u = th_loop ?s" "th_doorbell u = None" "th_core u = th_core ?s" "th_hidden u = th_hidden ?s"
      using holder_notifies[of ?s] o(1) assms(2) by auto
    moreover from this(1) have "patient\<^sup>*\<^sup>* ?s u" by (intro r_into_rtranclp) (simp add: patient_def)
    ultimately show ?thesis using assms(2) by auto
  qed
  then obtain u where u: "patient\<^sup>*\<^sup>* ?s u" "th_loop u = LRelock True" "th_doorbell u = None" "th_core u = th_core t" "th_hidden u = (\<lambda>_. 0)"
    by blast
  let ?v = "u\<lparr>th_doorbell := Some Consumer, th_loop := LClear\<rparr>"
  let ?w = "?v\<lparr>th_stores := th_stores ?v @ [False], th_idle_spins := 0, th_doorbell := None, th_loop := LTest\<rparr>"
  let ?x = "?w\<lparr>th_loop := LCount (\<not> th_running ?w)\<rparr>"
  let ?c = "th_core t"
  have "loop_step u ?v" using loop_relock[OF u(2,3)] by simp
  moreover have "loop_step ?v ?w" using loop_clear[of ?v] by simp
  moreover have "loop_step ?w ?x" using loop_test[of ?w] by simp
  ultimately have x: "loop_step\<^sup>*\<^sup>* u ?x"
    by (meson rtranclp.rtrancl_refl rtranclp.rtrancl_into_rtrancl)
  have n: "venue_count ?c \<le> kMaxVenues" using o(3) by (simp add: tail_ok_def)
  have h: "\<forall>j. th_hidden ?w j = 0" using u(5) by simp
  let ?z = "?w\<lparr>th_loop := LPop (\<not> th_running ?w) (venue_count ?c) (venue_count ?c) (snd (DrainOnce ?c)), th_core := fst (DrainOnce ?c)\<rparr>"
  have e: "?x = ?w\<lparr>th_loop := LCount (\<not> th_running ?w), th_core := ?c\<rparr>" using u(4) by simp
  have "loop_step\<^sup>*\<^sup>* ?x ?z" by (subst e) (rule drain_alone[OF o(4) n h])
  with x have "loop_step\<^sup>*\<^sup>* u ?z" by (rule rtranclp_trans)
  with s u(1) have p: "patient\<^sup>*\<^sup>* t ?z" by (meson patient_loop rtranclp_trans)
  have "quiet_step\<^sup>*\<^sup>* t ?z" using p by (rule rtranclp_mono[THEN predicate2D, rotated]) (auto dest: patient_quiet)
  from quiet_handled[OF this assms(1)] obtain log where z: "consolidator_ok ?z" "handles (th_core t) log (th_core ?z)" by blast
  have e: "\<not> HasPending (th_core ?z)" using drain_empties[OF o(4) n] by simp
  have "tail_ok (th_core ?z)" using z(1) unfolding consolidator_ok_def by blast
  from p e handled_all[OF z(2) this e] show ?thesis by blast
qed

end
