(* ===== verification/Latency_Recorder.thy ===== *)
theory Latency_Recorder
  imports Md_Core "HOL-Library.Log_Nat"
begin

text \<open>
  The self-measurement of the server (\<^verbatim>\<open>aggregator/latency_recorder.h\<close>): \<open>LatencyRecorder\<close>, which \<^verbatim>\<open>md_core_main.cpp\<close>
  feeds with every published book, and \<open>TimingBreakdown\<close>, which the core feeds with what it measures while it processes an
  update (\<^verbatim>\<open>ProcessUpdate\<close> with a clock set; \<open>update_timings\<close>). Records mirror the classes' members; \<^verbatim>\<open>Record\<close> returns the
  line it logs, if it logs one, with the figures in nanoseconds. The clock's readings are arguments.

  The index of the 99th percentile is computed in doubles in the source; \<open>p99_index\<close> computes it in natural numbers with the
  two roundings written out, and \<open>p99_index_range\<close> shows it within the batch. The division by 1000 and the text of a line
  are left out.

  The lemmas show that a line is about a full batch with its figures in order, that no call goes uncounted, that the peaks
  are the largest levels seen (\<open>record_all_peaks\<close>), and that the counts of the flat book that the breakdown adds up never
  say more fast sides than applied ones.
\<close>


section \<open>An index computed in doubles\<close>

text \<open>The multiple of \<open>2 ^ k\<close> nearest to \<open>v\<close>, the even one of two that are equally near.\<close>

definition round_to_even :: "nat \<Rightarrow> nat \<Rightarrow> nat" where
  "round_to_even k v =
     (let q = v div 2 ^ k; r = v mod 2 ^ k
      in (if 2 * r > 2 ^ k \<or> 2 * r = 2 ^ k \<and> odd q then q + 1 else q) * 2 ^ k)"

text \<open>A whole number as a double: rounded to 53 significant bits.\<close>

definition to_double :: "nat \<Rightarrow> nat" where
  "to_double v = round_to_even (floorlog 2 v - 53) v"

text \<open>The double 0.99 is this many times \<open>2 ^ -53\<close>.\<close>

definition double_0_99 :: nat where "double_0_99 = 8917127262193582"

text \<open>\<^verbatim>\<open>static_cast<size_t>(n * 0.99)\<close>: the count as a double, the product rounded, the fraction cut off.\<close>

definition p99_index :: "nat \<Rightarrow> nat" where
  "p99_index n = to_double (to_double n * double_0_99) div 2 ^ 53"

section \<open>LatencyRecorder\<close>

record LatencyRecorder =
  lr_name :: string
  lr_report_every :: u64
  lr_warmup :: u64
  lr_warmup_remaining :: u64
  lr_warmed_up :: u64
  lr_samples :: "i64 list"
  lr_unstamped :: u64
  lr_negative :: u64
  lr_peak_levels :: "u32 list"

text \<open>What a line of the log says, before its nanoseconds are printed as microseconds; the mean is \<open>lp_sum\<close> over \<open>lp_n\<close>.\<close>

record LatencyReport =
  lp_name :: string
  lp_n :: nat
  lp_min :: i64
  lp_median :: i64
  lp_p99 :: i64
  lp_max :: i64
  lp_sum :: i64
  lp_peaks :: "(nat \<times> u32) list"
  lp_warmed_up :: u64
  lp_unstamped :: u64
  lp_negative :: u64

definition new_LatencyRecorder :: "string \<Rightarrow> u64 \<Rightarrow> u64 \<Rightarrow> LatencyRecorder" where
  "new_LatencyRecorder name report_every warmup =
     \<lparr>lr_name = name, lr_report_every = report_every, lr_warmup = warmup, lr_warmup_remaining = warmup, lr_warmed_up = 0,
      lr_samples = [], lr_unstamped = 0, lr_negative = 0, lr_peak_levels = replicate kMaxVenues 0\<rparr>"

definition LatencyRecorder_Report :: "LatencyRecorder \<Rightarrow> LatencyReport option \<times> LatencyRecorder" where
  "LatencyRecorder_Report r =
     (if lr_samples r = [] then (None, r)
      else let samples = sort_key sint (lr_samples r); n = length samples
           in (Some \<lparr>lp_name = lr_name r, lp_n = n, lp_min = hd samples, lp_median = samples ! (n div 2),
                     lp_p99 = samples ! p99_index n, lp_max = last samples, lp_sum = sum_list samples,
                     lp_peaks = filter (\<lambda>(i, peak). peak \<noteq> 0) (enumerate 0 (lr_peak_levels r)),
                     lp_warmed_up = lr_warmed_up r, lp_unstamped = lr_unstamped r, lp_negative = lr_negative r\<rparr>,
               r\<lparr>lr_samples := []\<rparr>))"

text \<open>\<^verbatim>\<open>Record(source_mono_ns)\<close>; \<open>now\<close> is what the clock says when it is asked.\<close>

definition record_span :: "i64 \<Rightarrow> i64 \<Rightarrow> LatencyRecorder \<Rightarrow> LatencyReport option \<times> LatencyRecorder" where
  "record_span source_mono_ns now r =
     (if source_mono_ns = 0 then (None, r\<lparr>lr_unstamped := lr_unstamped r + 1\<rparr>)
      else let elapsed = now - source_mono_ns
           in if elapsed <s 0 then (None, r\<lparr>lr_negative := lr_negative r + 1\<rparr>)
              else if lr_warmup_remaining r > 0
                   then (None, r\<lparr>lr_warmup_remaining := lr_warmup_remaining r - 1, lr_warmed_up := lr_warmed_up r + 1\<rparr>)
                   else let r = r\<lparr>lr_samples := lr_samples r @ [elapsed]\<rparr>
                        in if length (lr_samples r) \<ge> unat (lr_report_every r) then LatencyRecorder_Report r else (None, r))"

definition LatencyRecorder_Record ::
    "i64 \<Rightarrow> u32 list \<Rightarrow> i64 \<Rightarrow> LatencyRecorder \<Rightarrow> LatencyReport option \<times> LatencyRecorder" where
  "LatencyRecorder_Record source_mono_ns venue_levels now r =
     record_span source_mono_ns now (r\<lparr>lr_peak_levels := map2 max (lr_peak_levels r) venue_levels\<rparr>)"

text \<open>One recorder over the calls of a run: the lines it logs, and the recorder.\<close>

fun record_all :: "(i64 \<times> u32 list \<times> i64) list \<Rightarrow> LatencyRecorder \<Rightarrow> LatencyReport list \<times> LatencyRecorder" where
  "record_all [] r = ([], r)"
| "record_all ((source, levels, now) # calls) r =
     (let (line, r) = LatencyRecorder_Record source levels now r; (reports, r) = record_all calls r
      in ((case line of None \<Rightarrow> [] | Some l \<Rightarrow> [l]) @ reports, r))"

section \<open>TimingBreakdown\<close>

record TimingBreakdown =
  tb_report_every :: u64
  tb_warmup_remaining :: u64
  tb_lock_wait :: "i64 list"
  tb_book_apply :: "i64 list"
  tb_merge :: "i64 list"
  tb_total_fast_path_sides :: u64
  tb_total_applied_sides :: u64
  tb_peak_merged_depth :: u32
  tb_peak_delta_levels :: u32
  tb_total_delta_levels :: u64

record ApplyTimings =
  at_lock_wait_ns :: i64
  at_book_apply_ns :: i64
  at_merge_ns :: i64
  at_merged_depth :: u32
  at_delta_levels :: u32
  at_fast_path_sides :: u8
  at_applied_sides :: u8

record Summary =
  su_median :: i64
  su_p99 :: i64
  su_max :: i64

text \<open>A \<^verbatim>\<open>[timing]\<close> line; the average of the delta levels is \<open>tl_total_delta\<close> over \<open>tl_n\<close>.\<close>

record TimingReport =
  tl_n :: nat
  tl_lock_wait :: Summary
  tl_book_apply :: Summary
  tl_merge :: Summary
  tl_peak_merged_depth :: u32
  tl_total_delta :: u64
  tl_peak_delta_levels :: u32
  tl_fast_path_sides :: u64
  tl_applied_sides :: u64

definition new_TimingBreakdown :: "u64 \<Rightarrow> u64 \<Rightarrow> TimingBreakdown" where
  "new_TimingBreakdown report_every warmup =
     \<lparr>tb_report_every = report_every, tb_warmup_remaining = warmup, tb_lock_wait = [], tb_book_apply = [], tb_merge = [],
      tb_total_fast_path_sides = 0, tb_total_applied_sides = 0, tb_peak_merged_depth = 0, tb_peak_delta_levels = 0,
      tb_total_delta_levels = 0\<rparr>"

definition Summarise :: "i64 list \<Rightarrow> Summary" where
  "Summarise samples =
     (let sorted = sort_key sint samples; n = length sorted
      in \<lparr>su_median = sorted ! (n div 2), su_p99 = sorted ! p99_index n, su_max = last sorted\<rparr>)"

definition TimingBreakdown_Report :: "TimingBreakdown \<Rightarrow> TimingReport option \<times> TimingBreakdown" where
  "TimingBreakdown_Report t =
     (if tb_lock_wait t = [] then (None, t)
      else (Some \<lparr>tl_n = length (tb_lock_wait t), tl_lock_wait = Summarise (tb_lock_wait t),
                  tl_book_apply = Summarise (tb_book_apply t), tl_merge = Summarise (tb_merge t),
                  tl_peak_merged_depth = tb_peak_merged_depth t, tl_total_delta = tb_total_delta_levels t,
                  tl_peak_delta_levels = tb_peak_delta_levels t, tl_fast_path_sides = tb_total_fast_path_sides t,
                  tl_applied_sides = tb_total_applied_sides t\<rparr>,
            t\<lparr>tb_lock_wait := [], tb_book_apply := [], tb_merge := [], tb_total_delta_levels := 0,
              tb_total_fast_path_sides := 0, tb_total_applied_sides := 0\<rparr>))"

definition TimingBreakdown_Record :: "ApplyTimings \<Rightarrow> TimingBreakdown \<Rightarrow> TimingReport option \<times> TimingBreakdown" where
  "TimingBreakdown_Record a t =
     (if tb_warmup_remaining t > 0 then (None, t\<lparr>tb_warmup_remaining := tb_warmup_remaining t - 1\<rparr>)
      else let t = t\<lparr>tb_lock_wait := tb_lock_wait t @ [at_lock_wait_ns a],
                     tb_book_apply := tb_book_apply t @ [at_book_apply_ns a],
                     tb_merge := tb_merge t @ [at_merge_ns a],
                     tb_peak_merged_depth := max (tb_peak_merged_depth t) (at_merged_depth a),
                     tb_peak_delta_levels := max (tb_peak_delta_levels t) (at_delta_levels a),
                     tb_total_delta_levels := tb_total_delta_levels t + ucast (at_delta_levels a),
                     tb_total_fast_path_sides := tb_total_fast_path_sides t + ucast (at_fast_path_sides a),
                     tb_total_applied_sides := tb_total_applied_sides t + ucast (at_applied_sides a)\<rparr>
           in if length (tb_lock_wait t) \<ge> unat (tb_report_every t) then TimingBreakdown_Report t else (None, t))"

section \<open>The index of the 99th percentile\<close>

lemma round_to_even_near:
  "v \<le> round_to_even k v + 2 ^ k div 2" "round_to_even k v \<le> v + 2 ^ k div 2"
proof -
  define d q r :: nat where "d = 2 ^ k" "q = v div 2 ^ k" "r = v mod 2 ^ k"
  have v: "v = q * d + r" unfolding d_q_r_def by (rule div_mult_mod_eq[symmetric])
  have r: "r < d" by (simp add: d_q_r_def)
  have up: "round_to_even k v = (if 2 * r > d \<or> 2 * r = d \<and> odd q then q * d + d else q * d)"
    by (simp add: round_to_even_def d_q_r_def Let_def)
  show "v \<le> round_to_even k v + 2 ^ k div 2"
    unfolding up d_q_r_def(1)[symmetric] using r by (auto simp: v)
  show "round_to_even k v \<le> v + 2 ^ k div 2"
    unfolding up d_q_r_def(1)[symmetric] using r by (auto simp: v)
qed

lemma to_double_near:
  "to_double v * 2 ^ 53 \<le> v * (2 ^ 53 + 1)" "v * (2 ^ 53 - 1) \<le> to_double v * 2 ^ 53"
proof -
  have "to_double v * 2 ^ 53 \<le> v * (2 ^ 53 + 1) \<and> v * (2 ^ 53 - 1) \<le> to_double v * 2 ^ 53"
  proof (cases "floorlog 2 v \<le> 53")
    case True
    then show ?thesis by (simp add: to_double_def round_to_even_def)
  next
    case False
    define k where "k = floorlog 2 v - 53"
    have k: "floorlog 2 v = k + 53" "0 < k" using False by (simp_all add: k_def)
    have "(2::nat) ^ (floorlog 2 v - 1) \<le> v" using k by (intro floorlog_geD) simp_all
    then have "2 ^ k div 2 * 2 ^ 53 \<le> v" using k by (cases k) (simp_all add: power_add)
    moreover have "v \<le> to_double v + 2 ^ k div 2" "to_double v \<le> v + 2 ^ k div 2"
      using round_to_even_near[of v k] round_to_even_near[where v = v and k = k] by (simp_all add: to_double_def k_def)
    ultimately show ?thesis by simp
  qed
  then show "to_double v * 2 ^ 53 \<le> v * (2 ^ 53 + 1)" "v * (2 ^ 53 - 1) \<le> to_double v * 2 ^ 53" by simp_all
qed

lemma p99_index_range:
  assumes "0 < n"
  shows "p99_index n < n" "n div 2 \<le> p99_index n"
proof -
  define a where "a = to_double n"
  define p where "p = to_double (a * double_0_99)"
  have "p < n * 2 ^ 53" "n * 2 ^ 52 \<le> p"
    using to_double_near[of n, folded a_def] to_double_near[of "a * double_0_99", folded p_def] assms by (simp_all add: double_0_99_def)
  then have "p div 2 ^ 53 < n" "(n * 2 ^ 52) div 2 ^ 53 \<le> p div 2 ^ 53"
    by (simp_all add: div_less_iff_less_mult div_le_mono)
  then show "p99_index n < n" "n div 2 \<le> p99_index n"
    by (simp_all add: p99_index_def p_def a_def)
qed


section \<open>What a line says\<close>

lemma sorted_key_mono:
  fixes xs :: "i64 list"
  assumes "i \<le> j" "j < length xs"
  shows "sint (sort_key sint xs ! i) \<le> sint (sort_key sint xs ! j)"
proof -
  have "map sint (sort_key sint xs) ! i \<le> map sint (sort_key sint xs) ! j"
    using sorted_nth_mono[OF sorted_sort_key[of sint xs] assms(1)] assms(2) by simp
  then show ?thesis using assms by simp
qed

lemma percentiles:
  fixes xs :: "i64 list"
  assumes "xs \<noteq> []"
  defines "s \<equiv> sort_key sint xs" and "n \<equiv> length xs"
  shows "n div 2 < n" "p99_index n < n" "sint (hd s) \<le> sint (s ! (n div 2))" "sint (s ! (n div 2)) \<le> sint (s ! p99_index n)"
    "sint (s ! p99_index n) \<le> sint (last s)" "hd s \<in> set xs"
proof -
  have n: "0 < n" using assms(1) by (simp add: n_def)
  have len: "length s = n" by (simp add: s_def n_def)
  then have ne: "s \<noteq> []" "length s = n" using n by auto
  show i: "n div 2 < n" using n by simp
  show j: "p99_index n < n" by (rule p99_index_range(1)[OF n])
  note m = sorted_key_mono[where xs = xs, folded s_def n_def]
  show "sint (hd s) \<le> sint (s ! (n div 2))" unfolding hd_conv_nth[OF ne(1)] by (rule m[OF le0 i])
  show "sint (s ! (n div 2)) \<le> sint (s ! p99_index n)" by (rule m[OF p99_index_range(2)[OF n] j])
  have l: "p99_index n \<le> n - 1" "n - 1 < n" using n j by arith+
  show "sint (s ! p99_index n) \<le> sint (last s)" unfolding last_conv_nth[OF ne(1)] ne(2) by (rule m[OF l])
  from list.set_sel(1)[OF ne(1)] show "hd s \<in> set xs" by (simp add: s_def)
qed

text \<open>Between two lines the samples are too few for one and none is negative.\<close>

definition recorder_ok :: "LatencyRecorder \<Rightarrow> bool" where
  "recorder_ok r \<longleftrightarrow> length (lr_samples r) < max 1 (unat (lr_report_every r)) \<and> (\<forall>s \<in> set (lr_samples r). 0 \<le> sint s)"

definition line_ok :: "u64 \<Rightarrow> LatencyReport \<Rightarrow> bool" where
  "line_ok every l \<longleftrightarrow>
     lp_n l = max 1 (unat every) \<and> lp_n l div 2 < lp_n l \<and> p99_index (lp_n l) < lp_n l \<and>
     0 \<le> sint (lp_min l) \<and> sint (lp_min l) \<le> sint (lp_median l) \<and> sint (lp_median l) \<le> sint (lp_p99 l) \<and>
     sint (lp_p99 l) \<le> sint (lp_max l)"

lemma Report_line:
  assumes "lr_samples r \<noteq> []" "length (lr_samples r) = max 1 (unat (lr_report_every r))" "\<forall>s \<in> set (lr_samples r). 0 \<le> sint s"
  shows "\<exists>l. LatencyRecorder_Report r = (Some l, r\<lparr>lr_samples := []\<rparr>) \<and> line_ok (lr_report_every r) l \<and>
    lp_n l = length (lr_samples r)"
proof -
  let ?n = "length (lr_samples r)"
  obtain l where l: "LatencyRecorder_Report r = (Some l, r\<lparr>lr_samples := []\<rparr>)" "lp_n l = ?n"
      "lp_min l = hd (sort_key sint (lr_samples r))" "lp_median l = sort_key sint (lr_samples r) ! (?n div 2)"
      "lp_p99 l = sort_key sint (lr_samples r) ! p99_index ?n" "lp_max l = last (sort_key sint (lr_samples r))"
    using assms(1) by (simp add: LatencyRecorder_Report_def Let_def)
  have "line_ok (lr_report_every r) l"
    unfolding line_ok_def l(2-) assms(2)[symmetric] using percentiles[OF assms(1)] assms(3) by (simp only: simp_thms)
  with l(1,2) show ?thesis by (intro exI[of _ l] conjI)
qed

text \<open>What one call adds: nothing, or to the count that explains it, or a sample, or the line of a full batch.\<close>

definition accounted :: "LatencyReport option \<Rightarrow> LatencyRecorder \<Rightarrow> u64" where
  "accounted line r = lr_unstamped r + lr_negative r + lr_warmed_up r +
     of_nat (length (lr_samples r) + (case line of None \<Rightarrow> 0 | Some l \<Rightarrow> lp_n l))"

lemma accounted_line: "accounted line r = accounted None r + of_nat (case line of None \<Rightarrow> 0 | Some l \<Rightarrow> lp_n l)"
  by (simp add: accounted_def)

lemma record_span_step:
  assumes "recorder_ok r" "record_span source now r = (line, r')"
  shows "recorder_ok r'" "\<forall>l. line = Some l \<longrightarrow> line_ok (lr_report_every r) l" "accounted line r' = accounted None r + 1"
    "lr_warmed_up r' + lr_warmup_remaining r' = lr_warmed_up r + lr_warmup_remaining r"
    "lr_report_every r' = lr_report_every r" "lr_peak_levels r' = lr_peak_levels r"
proof -
  define e where "e = now - source"
  let ?r = "r\<lparr>lr_samples := lr_samples r @ [e]\<rparr>"
  have rec: "(line, r') =
     (if source = 0 then (None, r\<lparr>lr_unstamped := lr_unstamped r + 1\<rparr>)
      else if e <s 0 then (None, r\<lparr>lr_negative := lr_negative r + 1\<rparr>)
      else if lr_warmup_remaining r > 0
      then (None, r\<lparr>lr_warmup_remaining := lr_warmup_remaining r - 1, lr_warmed_up := lr_warmed_up r + 1\<rparr>)
      else if length (lr_samples ?r) \<ge> unat (lr_report_every ?r) then LatencyRecorder_Report ?r else (None, ?r))"
    using assms(2)[symmetric] unfolding record_span_def Let_def e_def .
  consider (unstamped) "source = 0" | (crossed) "source \<noteq> 0" "e <s 0" | (warm) "source \<noteq> 0" "\<not> e <s 0" "lr_warmup_remaining r > 0"
    | (sample) "source \<noteq> 0" "\<not> e <s 0" "\<not> lr_warmup_remaining r > 0" by blast
  then consider (counted) "line = None" "r' = r\<lparr>lr_unstamped := lr_unstamped r + 1\<rparr> \<or> r' = r\<lparr>lr_negative := lr_negative r + 1\<rparr> \<or>
      r' = r\<lparr>lr_warmup_remaining := lr_warmup_remaining r - 1, lr_warmed_up := lr_warmed_up r + 1\<rparr>"
    | (kept) "line = None" "r' = ?r" "\<not> length (lr_samples ?r) \<ge> unat (lr_report_every ?r)" "0 \<le> sint e"
    | (full) "(line, r') = LatencyRecorder_Report ?r" "length (lr_samples ?r) \<ge> unat (lr_report_every ?r)" "0 \<le> sint e"
  proof cases
    case unstamped then show ?thesis using rec by (intro counted) simp_all
  next
    case crossed then show ?thesis using rec by (intro counted) simp_all
  next
    case warm then show ?thesis using rec by (intro counted) simp_all
  next
    case sample
    then have pos: "0 \<le> sint e" by (simp add: word_sless_alt)
    show ?thesis
    proof (cases "length (lr_samples ?r) \<ge> unat (lr_report_every ?r)")
      case True
      with sample rec have "(line, r') = LatencyRecorder_Report ?r" by (simp only: if_False if_True simp_thms)
      then show ?thesis using True pos by (rule full)
    next
      case False
      with sample rec have "(line, r') = (None, ?r)" by (simp only: if_False if_True simp_thms)
      then show ?thesis using False pos by (intro kept) simp_all
    qed
  qed
  then have "recorder_ok r' \<and> (\<forall>l. line = Some l \<longrightarrow> line_ok (lr_report_every r) l) \<and> accounted line r' = accounted None r + 1 \<and>
    lr_warmed_up r' + lr_warmup_remaining r' = lr_warmed_up r + lr_warmup_remaining r \<and>
    lr_report_every r' = lr_report_every r \<and> lr_peak_levels r' = lr_peak_levels r"
  proof cases
    case counted
    then show ?thesis using assms(1) by (auto simp: recorder_ok_def accounted_def)
  next
    case kept
    then show ?thesis using assms(1) by (auto simp: recorder_ok_def accounted_def)
  next
    case full
    have "length (lr_samples ?r) = max 1 (unat (lr_report_every ?r))"
      using full(2) assms(1) by (simp add: recorder_ok_def max_def split: if_splits)
    then obtain l where l: "LatencyRecorder_Report ?r = (Some l, ?r\<lparr>lr_samples := []\<rparr>)" "line_ok (lr_report_every r) l"
        "lp_n l = Suc (length (lr_samples r))"
      using Report_line[of ?r] full(3) assms(1) by (auto simp: recorder_ok_def)
    then show ?thesis using full(1) by (simp add: recorder_ok_def accounted_def)
  qed
  then show "recorder_ok r'" "\<forall>l. line = Some l \<longrightarrow> line_ok (lr_report_every r) l" "accounted line r' = accounted None r + 1"
    "lr_warmed_up r' + lr_warmup_remaining r' = lr_warmed_up r + lr_warmup_remaining r"
    "lr_report_every r' = lr_report_every r" "lr_peak_levels r' = lr_peak_levels r" by simp_all
qed

lemma record_step:
  assumes "recorder_ok r" "LatencyRecorder_Record source levels now r = (line, r')"
  shows "recorder_ok r'" "\<forall>l. line = Some l \<longrightarrow> line_ok (lr_report_every r) l" "accounted line r' = accounted None r + 1"
    "lr_warmed_up r' + lr_warmup_remaining r' = lr_warmed_up r + lr_warmup_remaining r"
    "lr_report_every r' = lr_report_every r" "lr_peak_levels r' = map2 max (lr_peak_levels r) levels"
proof -
  let ?r = "r\<lparr>lr_peak_levels := map2 max (lr_peak_levels r) levels\<rparr>"
  have "recorder_ok ?r" using assms(1) by (simp add: recorder_ok_def)
  note s = record_span_step[OF this assms(2)[unfolded LatencyRecorder_Record_def]]
  show "recorder_ok r'" "\<forall>l. line = Some l \<longrightarrow> line_ok (lr_report_every r) l" "accounted line r' = accounted None r + 1"
    "lr_warmed_up r' + lr_warmup_remaining r' = lr_warmed_up r + lr_warmup_remaining r"
    "lr_report_every r' = lr_report_every r" "lr_peak_levels r' = map2 max (lr_peak_levels r) levels"
    using s by (simp_all add: accounted_def)
qed

lemma record_all_ok:
  assumes "recorder_ok r" "record_all calls r = (reports, r')"
  shows "recorder_ok r' \<and> (\<forall>l \<in> set reports. line_ok (lr_report_every r) l) \<and>
    accounted None r' + of_nat (sum_list (map lp_n reports)) = accounted None r + of_nat (length calls) \<and>
    lr_warmed_up r' + lr_warmup_remaining r' = lr_warmed_up r + lr_warmup_remaining r"
  using assms
proof (induction calls arbitrary: r reports)
  case (Cons c calls)
  obtain source levels now where c: "c = (source, levels, now)" by (cases c) auto
  obtain line s where s: "LatencyRecorder_Record source levels now r = (line, s)" by (rule prod.exhaust)
  obtain more r2 where "record_all calls s = (more, r2)" by (rule prod.exhaust)
  then have m: "record_all calls s = (more, r')" "reports = (case line of None \<Rightarrow> [] | Some l \<Rightarrow> [l]) @ more"
    using Cons.prems(2) c s by simp_all
  note step = record_step[OF Cons.prems(1) s]
  note ih = Cons.IH[OF step(1) m(1)]
  have lines: "\<forall>l \<in> set reports. line_ok (lr_report_every r) l" using ih step(2,5) m(2) by (auto split: option.splits)
  have "sum_list (map lp_n reports) = (case line of None \<Rightarrow> 0 | Some l \<Rightarrow> lp_n l) + sum_list (map lp_n more)"
    using m(2) by (simp split: option.splits)
  then have "accounted None r' + of_nat (sum_list (map lp_n reports)) =
      accounted None s + of_nat (length calls) + of_nat (case line of None \<Rightarrow> 0 | Some l \<Rightarrow> lp_n l)"
    using ih by (simp add: add.assoc add.commute add.left_commute)
  also have "\<dots> = accounted line s + of_nat (length calls)" by (simp add: accounted_line[of line s])
  also have "\<dots> = accounted None r + of_nat (length (c # calls))" using step(3) by simp
  finally show ?case using ih step(4) lines by simp
qed simp

lemma map2_max_nth: "i < length xs \<Longrightarrow> i < length ys \<Longrightarrow> map2 max xs ys ! i = max (xs ! i) (ys ! i)"
  by simp

lemma record_all_peaks:
  assumes "recorder_ok r" "record_all calls r = (reports, r')" "length (lr_peak_levels r) = kMaxVenues"
    "\<forall>(source, levels, now) \<in> set calls. length levels = kMaxVenues"
  shows "length (lr_peak_levels r') = kMaxVenues \<and>
    (\<forall>i < kMaxVenues. lr_peak_levels r' ! i = fold (\<lambda>(source, levels, now). max (levels ! i)) calls (lr_peak_levels r ! i))"
  using assms
proof (induction calls arbitrary: r reports)
  case (Cons c calls)
  obtain source levels now where c: "c = (source, levels, now)" by (cases c) auto
  obtain line s where s: "LatencyRecorder_Record source levels now r = (line, s)" by (rule prod.exhaust)
  obtain more r2 where "record_all calls s = (more, r2)" by (rule prod.exhaust)
  then have m: "record_all calls s = (more, r')" using Cons.prems(2) c s by simp
  note step = record_step[OF Cons.prems(1) s]
  have len: "length levels = kMaxVenues" using Cons.prems(4) c by simp
  have "length (lr_peak_levels s) = kMaxVenues" using step(6) len Cons.prems(3) by simp
  from Cons.IH[OF step(1) m this] Cons.prems(4) show ?case
    using step(6) len Cons.prems(3) c by (simp add: max.commute)
qed simp

lemma new_recorder_ok: "recorder_ok (new_LatencyRecorder name every warmup)"
  by (simp add: recorder_ok_def new_LatencyRecorder_def)

section \<open>The three lists of a breakdown\<close>

text \<open>They are filled and cleared together, and no side is counted as fast that was not counted as applied.\<close>

definition breakdown_ok :: "TimingBreakdown \<Rightarrow> bool" where
  "breakdown_ok t \<longleftrightarrow>
     length (tb_book_apply t) = length (tb_lock_wait t) \<and> length (tb_merge t) = length (tb_lock_wait t) \<and>
     length (tb_lock_wait t) < max 1 (unat (tb_report_every t)) \<and>
     unat (tb_total_applied_sides t) \<le> 2 * length (tb_lock_wait t) \<and>
     tb_total_fast_path_sides t \<le> tb_total_applied_sides t"

definition timing_line_ok :: "u64 \<Rightarrow> TimingReport \<Rightarrow> bool" where
  "timing_line_ok every l \<longleftrightarrow>
     tl_n l = max 1 (unat every) \<and> tl_n l div 2 < tl_n l \<and> p99_index (tl_n l) < tl_n l \<and>
     (\<forall>s \<in> {tl_lock_wait l, tl_book_apply l, tl_merge l}. sint (su_median s) \<le> sint (su_p99 s) \<and> sint (su_p99 s) \<le> sint (su_max s)) \<and>
     tl_fast_path_sides l \<le> tl_applied_sides l"

lemma Summarise_ordered:
  "xs \<noteq> [] \<Longrightarrow> sint (su_median (Summarise xs)) \<le> sint (su_p99 (Summarise xs)) \<and> sint (su_p99 (Summarise xs)) \<le> sint (su_max (Summarise xs))"
  using percentiles(4,5)[of xs] by (simp add: Summarise_def Let_def)

text \<open>The timings of an update that the flat book has applied: a side is applied or not, and fast only if applied.\<close>

definition timings_ok :: "ApplyTimings \<Rightarrow> bool" where
  "timings_ok a \<longleftrightarrow> unat (at_applied_sides a) \<le> 2 \<and> at_fast_path_sides a \<le> at_applied_sides a"

lemma add_small:
  fixes x :: u64 and y :: u8
  assumes "unat x + unat y < 2 ^ 64"
  shows "unat (x + ucast y) = unat x + unat y"
  using assms by (simp add: unat_word_ariths unat_ucast_up)

lemma Timing_Report_line:
  assumes "tb_lock_wait t \<noteq> []" "length (tb_lock_wait t) = max 1 (unat (tb_report_every t))"
    "length (tb_book_apply t) = length (tb_lock_wait t)" "length (tb_merge t) = length (tb_lock_wait t)"
    "tb_total_fast_path_sides t \<le> tb_total_applied_sides t"
  shows "\<exists>l. fst (TimingBreakdown_Report t) = Some l \<and> timing_line_ok (tb_report_every t) l"
    "breakdown_ok (snd (TimingBreakdown_Report t))" "tb_report_every (snd (TimingBreakdown_Report t)) = tb_report_every t"
proof -
  have ne: "tb_book_apply t \<noteq> []" "tb_merge t \<noteq> []" using assms(1,3,4) by auto
  show "\<exists>l. fst (TimingBreakdown_Report t) = Some l \<and> timing_line_ok (tb_report_every t) l"
    using Summarise_ordered[OF assms(1)] Summarise_ordered[OF ne(1)] Summarise_ordered[OF ne(2)] assms(1,5)
      percentiles(1,2)[OF assms(1)] assms(2)[symmetric]
    by (simp add: TimingBreakdown_Report_def timing_line_ok_def)
  show "breakdown_ok (snd (TimingBreakdown_Report t))" "tb_report_every (snd (TimingBreakdown_Report t)) = tb_report_every t"
    using assms(1) by (simp_all add: TimingBreakdown_Report_def breakdown_ok_def)
qed

lemma TimingBreakdown_step:
  assumes "breakdown_ok t" "timings_ok a" "unat (tb_report_every t) < 2 ^ 60" "TimingBreakdown_Record a t = (line, t')"
  shows "breakdown_ok t' \<and> (\<forall>l. line = Some l \<longrightarrow> timing_line_ok (tb_report_every t) l) \<and> tb_report_every t' = tb_report_every t"
proof (cases "tb_warmup_remaining t > 0")
  case True
  then show ?thesis using assms(1,4) by (auto simp: TimingBreakdown_Record_def breakdown_ok_def)
next
  case False
  define s where "s = t\<lparr>tb_lock_wait := tb_lock_wait t @ [at_lock_wait_ns a],
                     tb_book_apply := tb_book_apply t @ [at_book_apply_ns a],
                     tb_merge := tb_merge t @ [at_merge_ns a],
                     tb_peak_merged_depth := max (tb_peak_merged_depth t) (at_merged_depth a),
                     tb_peak_delta_levels := max (tb_peak_delta_levels t) (at_delta_levels a),
                     tb_total_delta_levels := tb_total_delta_levels t + ucast (at_delta_levels a),
                     tb_total_fast_path_sides := tb_total_fast_path_sides t + ucast (at_fast_path_sides a),
                     tb_total_applied_sides := tb_total_applied_sides t + ucast (at_applied_sides a)\<rparr>"
  have rec: "(line, t') = (if length (tb_lock_wait s) \<ge> unat (tb_report_every s) then TimingBreakdown_Report s else (None, s))"
    using assms(4)[symmetric] False unfolding TimingBreakdown_Record_def Let_def s_def by (simp only: if_False)
  have t: "length (tb_lock_wait t) < max 1 (unat (tb_report_every t))" "unat (tb_total_applied_sides t) \<le> 2 * length (tb_lock_wait t)"
    "unat (tb_total_fast_path_sides t) \<le> unat (tb_total_applied_sides t)"
    using assms(1) by (simp_all add: breakdown_ok_def word_le_nat_alt)
  have a: "unat (at_applied_sides a) \<le> 2" "unat (at_fast_path_sides a) \<le> unat (at_applied_sides a)"
    using assms(2) by (simp_all add: timings_ok_def word_le_nat_alt)
  have "length (tb_lock_wait t) < 2 ^ 60" using t(1) assms(3) by (simp add: max_def split: if_splits)
  then have "unat (tb_total_applied_sides s) = unat (tb_total_applied_sides t) + unat (at_applied_sides a)"
    "unat (tb_total_fast_path_sides s) = unat (tb_total_fast_path_sides t) + unat (at_fast_path_sides a)"
    using t(2,3) a by (simp_all add: s_def add_small)
  then have s: "unat (tb_total_applied_sides s) \<le> 2 * length (tb_lock_wait s)" "tb_total_fast_path_sides s \<le> tb_total_applied_sides s"
    using t(2,3) a by (simp_all add: word_le_nat_alt s_def[THEN arg_cong[of _ _ tb_lock_wait]])
  have l: "length (tb_book_apply s) = length (tb_lock_wait s)" "length (tb_merge s) = length (tb_lock_wait s)" "tb_lock_wait s \<noteq> []"
      "length (tb_lock_wait s) = Suc (length (tb_lock_wait t))" "tb_report_every s = tb_report_every t"
    using assms(1) by (simp_all add: s_def breakdown_ok_def)
  show ?thesis
  proof (cases "length (tb_lock_wait s) \<ge> unat (tb_report_every s)")
    case True
    then have r: "(line, t') = TimingBreakdown_Report s" using rec by simp
    have "length (tb_lock_wait s) = max 1 (unat (tb_report_every s))" using True t(1) l(4,5) by (simp add: max_def split: if_splits)
    from Timing_Report_line[OF l(3) this l(1,2) s(2)] show ?thesis unfolding r[symmetric] fst_conv snd_conv l(5) by auto
  next
    case False
    then show ?thesis using rec s l by (simp add: breakdown_ok_def)
  qed
qed

lemma new_breakdown_ok: "breakdown_ok (new_TimingBreakdown every warmup)"
  by (simp add: breakdown_ok_def new_TimingBreakdown_def)

text \<open>One breakdown over the timings of a run.\<close>

fun time_all :: "ApplyTimings list \<Rightarrow> TimingBreakdown \<Rightarrow> TimingReport list \<times> TimingBreakdown" where
  "time_all [] t = ([], t)"
| "time_all (a # as) t =
     (let (line, t) = TimingBreakdown_Record a t; (reports, t) = time_all as t
      in ((case line of None \<Rightarrow> [] | Some l \<Rightarrow> [l]) @ reports, t))"

lemma time_all_ok:
  assumes "breakdown_ok t" "\<forall>a \<in> set as. timings_ok a" "unat (tb_report_every t) < 2 ^ 60" "time_all as t = (reports, t')"
  shows "breakdown_ok t' \<and> (\<forall>l \<in> set reports. timing_line_ok (tb_report_every t) l)"
  using assms
proof (induction as arbitrary: t reports)
  case (Cons a as)
  obtain line s where s: "TimingBreakdown_Record a t = (line, s)" by (rule prod.exhaust)
  obtain more t2 where "time_all as s = (more, t2)" by (rule prod.exhaust)
  then have m: "time_all as s = (more, t')" "reports = (case line of None \<Rightarrow> [] | Some l \<Rightarrow> [l]) @ more"
    using Cons.prems(4) s by simp_all
  have a: "timings_ok a" "\<forall>a \<in> set as. timings_ok a" using Cons.prems(2) by simp_all
  note step = TimingBreakdown_step[OF Cons.prems(1) a(1) Cons.prems(3) s]
  note ih = Cons.IH[OF conjunct1[OF step] a(2) _ m(1)]
  show ?case using ih step m(2) Cons.prems(3) by (auto split: option.splits)
qed simp


section \<open>What the core measures\<close>

text \<open>
  \<^verbatim>\<open>ProcessUpdate\<close> with a clock set: the readings are the one at its start, the one after the book's own update and the
  one after the consolidation. An update that finds no book reports nothing.
\<close>

definition update_timings :: "i64 \<Rightarrow> i64 \<Rightarrow> i64 \<Rightarrow> i64 \<Rightarrow> Core \<Rightarrow> VenueSlot \<Rightarrow> BookUpdate \<Rightarrow> ApplyTimings option" where
  "update_timings lock_wait_ns t_locked t_applied t_merged c slot update =
     (case co_venue_books c (bu_instrument update) of
        None \<Rightarrow> None
      | Some books \<Rightarrow>
          (case books ! VenueSlotIndex slot of
             None \<Rightarrow> None
           | Some book \<Rightarrow>
               (let book' = ApplyUpdate book update;
                    state = map_at (co_consolidated_state (ProcessUpdate c slot update)) (bu_instrument update) new_State
                in Some \<lparr>at_lock_wait_ns = lock_wait_ns, at_book_apply_ns = t_applied - t_locked,
                         at_merge_ns = if co_has_book_callback c then t_merged - t_applied else 0,
                         at_merged_depth = if co_has_book_callback c then of_nat (length (bk_bids (st_book state))) else 0,
                         at_delta_levels = of_nat (length (bu_bids update) + length (bu_asks update)),
                         at_fast_path_sides = fb_last_fast_path_sides book',
                         at_applied_sides = fb_last_applied_sides book'\<rparr>)))"

lemma ApplySide_counts: "sr_applied (ApplySide storage_less side levels collect) \<le> 1"
  "sr_fast (ApplySide storage_less side levels collect) = 0 \<or> sr_fast (ApplySide storage_less side levels collect) = 1 \<and> sr_applied (ApplySide storage_less side levels collect) = 1"
  by (simp_all add: ApplySide_def Let_def split: prod.splits)

lemma ApplyUpdate_counts:
  "unat (fb_last_applied_sides (ApplyUpdate book update)) \<le> 2"
  "fb_last_fast_path_sides (ApplyUpdate book update) \<le> fb_last_applied_sides (ApplyUpdate book update)"
proof -
  have small: "x = 0 \<or> x = 1" if "x \<le> 1" for x :: u8
    using that by (auto simp: word_le_nat_alt word_unat_eq_iff)
  note counts = ApplySide_counts(1)[THEN small] ApplySide_counts(2)
  show "unat (fb_last_applied_sides (ApplyUpdate book update)) \<le> 2"
    using counts(1)[of "(<)" "if bu_is_snapshot update then [] else fb_bids book" "bu_bids update" "\<not> bu_is_snapshot update"]
      counts(1)[of "\<lambda>x y. y < x" "if bu_is_snapshot update then [] else fb_asks book" "bu_asks update" "\<not> bu_is_snapshot update"]
    unfolding ApplyUpdate_def Let_def by (elim disjE) simp_all
  show "fb_last_fast_path_sides (ApplyUpdate book update) \<le> fb_last_applied_sides (ApplyUpdate book update)"
    using counts[of "(<)" "if bu_is_snapshot update then [] else fb_bids book" "bu_bids update" "\<not> bu_is_snapshot update"]
      counts[of "\<lambda>x y. y < x" "if bu_is_snapshot update then [] else fb_asks book" "bu_asks update" "\<not> bu_is_snapshot update"]
    unfolding ApplyUpdate_def Let_def by (elim disjE conjE) simp_all
qed

lemma update_timings_ok: "update_timings w t1 t2 t3 c slot update = Some a \<Longrightarrow> timings_ok a"
  using ApplyUpdate_counts by (auto simp: update_timings_def timings_ok_def Let_def split: option.splits)

text \<open>What a run of updates, each with its clock readings, tells the breakdown.\<close>

definition run_timings :: "(i64 \<times> i64 \<times> i64 \<times> i64 \<times> Core \<times> VenueSlot \<times> BookUpdate) list \<Rightarrow> ApplyTimings list" where
  "run_timings = List.map_filter (\<lambda>(w, t1, t2, t3, c, slot, update). update_timings w t1 t2 t3 c slot update)"

lemma run_timings_ok: "\<forall>a \<in> set (run_timings runs). timings_ok a"
  using update_timings_ok by (auto simp: run_timings_def List.map_filter_def)

text \<open>
  Whatever updates the core processes, every line of the breakdown is about a full batch, reads only samples that exist, and
  never reports more sides on the fast path than sides that carried a delta.
\<close>

lemma timing_lines_honest:
  assumes "unat every < 2 ^ 60" "time_all (run_timings runs) (new_TimingBreakdown every warmup) = (reports, t)"
  shows "\<forall>l \<in> set reports. timing_line_ok every l"
proof -
  have "unat (tb_report_every (new_TimingBreakdown every warmup)) < 2 ^ 60" using assms(1) by (simp add: new_TimingBreakdown_def)
  from conjunct2[OF time_all_ok[OF new_breakdown_ok run_timings_ok this assms(2)]] show ?thesis
    by (simp only: new_TimingBreakdown_def TimingBreakdown.simps)
qed

end
