(* ===== verification/Sequencing.thy ===== *)
theory Sequencing
  imports Flat_Order_Book
begin

text \<open>
  The sequencing rules between a venue's socket and its order book: duplicate rejection for redundant connections
  (\<open>SeqDedup\<close>, md_provider/seq_dedup.h and .cpp) and the continuity rules of the venues with the snapshot
  reconciliation of Binance (md_provider/continuity.h and .cpp).

  The contract a provider relies on is the locale \<open>continuity_rule\<close>: what a rule's verdict says about the message
  and about the stored sequence number. It is interpreted by the rules of all four streams. Its client lemma says
  that a book built from the messages a rule passes follows the venue's book.
\<close>

section \<open>Duplicate rejection\<close>

record SeqDedup =
  sd_last :: u64
  sd_seen :: bool
  sd_seen_mask :: u8
  sd_last_mask :: u8
  sd_consecutive_drops :: u32

definition new_dedup :: SeqDedup where
  "new_dedup = \<lparr>sd_last = 0, sd_seen = False, sd_seen_mask = 0, sd_last_mask = 0, sd_consecutive_drops = 0\<rparr>"

definition kSuspiciousDropStreak :: u32 where "kSuspiciousDropStreak = 1000"

definition conn_bit :: "u32 \<Rightarrow> u8" where
  "conn_bit conn_index = (if conn_index < 8 then push_bit (unat conn_index) 1 else 0)"

definition Rotate :: "SeqDedup \<Rightarrow> u64 \<Rightarrow> u8 \<Rightarrow> SeqDedup" where
  "Rotate d i b =
     d\<lparr>sd_last_mask := sd_seen_mask d, sd_seen_mask := b, sd_last := i, sd_seen := True, sd_consecutive_drops := 0\<rparr>"

definition drop_copy :: "SeqDedup \<Rightarrow> u8 \<Rightarrow> SeqDedup" where
  "drop_copy d b = d\<lparr>sd_seen_mask := sd_seen_mask d OR b, sd_consecutive_drops := sd_consecutive_drops d + 1\<rparr>"

definition Accept :: "SeqDedup \<Rightarrow> u64 \<Rightarrow> u32 \<Rightarrow> bool \<Rightarrow> bool \<times> SeqDedup" where
  "Accept d i conn_index is_reset =
     (if is_reset then
        if sd_seen d \<and> i = sd_last d then (False, drop_copy d (conn_bit conn_index))
        else (True, Rotate d i (conn_bit conn_index))
      else if sd_seen d \<and> i \<le> sd_last d then (False, drop_copy d (conn_bit conn_index))
      else (True, Rotate d i (conn_bit conn_index)))"

text \<open>
  A copy of a reset that arrives after another connection has moved past it is not the last number any more, and passes:
  the number moves back.
\<close>

lemma late_reset_copy_passes:
  "let d = snd (Accept (snd (Accept (snd (Accept new_dedup 5 0 True)) 6 0 False)) 7 0 False)
   in sd_last d = 7 \<and> fst (Accept d 5 1 True) \<and> sd_last (snd (Accept d 5 1 True)) = 5"
  by (simp add: Accept_def Rotate_def new_dedup_def)

definition LastMask :: "SeqDedup \<Rightarrow> u8" where "LastMask d = sd_last_mask d"

definition LastConnectionCount :: "SeqDedup \<Rightarrow> nat" where
  "LastConnectionCount d = length (filter (bit (sd_last_mask d)) [0..<8])"

definition ConsecutiveDrops :: "SeqDedup \<Rightarrow> u32" where "ConsecutiveDrops d = sd_consecutive_drops d"

definition LooksStuck :: "SeqDedup \<Rightarrow> bool" where
  "LooksStuck d \<longleftrightarrow> sd_consecutive_drops d \<ge> kSuspiciousDropStreak"

text \<open>A stream of copies, each an identifier and the connection that delivered it, none of them a venue reset.\<close>

fun accepted :: "SeqDedup \<Rightarrow> (u64 \<times> u32) list \<Rightarrow> u64 list" where
  "accepted d [] = []"
| "accepted d ((i, c) # ms) = (let (ok, d') = Accept d i c False in if ok then i # accepted d' ms else accepted d' ms)"

fun dedup_after :: "SeqDedup \<Rightarrow> (u64 \<times> u32) list \<Rightarrow> SeqDedup" where
  "dedup_after d [] = d"
| "dedup_after d ((i, c) # ms) = dedup_after (snd (Accept d i c False)) ms"

section \<open>Continuity rules\<close>

datatype ContinuityAction = kApply | kReset | kIgnore | kGap

definition CheckBybitContinuity :: "BookUpdate \<Rightarrow> u64 \<Rightarrow> ContinuityAction \<times> u64" where
  "CheckBybitContinuity update last_u =
     (if bu_is_snapshot update then (kReset, bu_seq update)
      else if bu_seq update = last_u then (kIgnore, last_u)
      else if bu_seq update = last_u + 1 then (kApply, bu_seq update)
      else (kGap, last_u))"

text \<open>\<^verbatim>\<open>prev_seq\<close> is a signed number; the cast to \<^verbatim>\<open>uint64_t\<close> is the word itself.\<close>

definition CheckOkxContinuity :: "BookUpdate \<Rightarrow> u64 \<Rightarrow> ContinuityAction \<times> u64" where
  "CheckOkxContinuity update last_seq =
     (if bu_is_snapshot update then (kReset, bu_seq update)
      else if sint (bu_prev_seq update) < 0 \<or> bu_prev_seq update \<noteq> last_seq then (kGap, last_seq)
      else if bu_seq update = bu_prev_seq update then (kIgnore, last_seq)
      else (kApply, bu_seq update))"

definition CheckBinanceSpotContinuity :: "BookUpdate \<Rightarrow> u64 \<Rightarrow> ContinuityAction \<times> u64" where
  "CheckBinanceSpotContinuity update last_u =
     (if bu_seq update \<le> last_u then (kIgnore, last_u)
      else if bu_prev_seq update \<le> last_u + 1 then (kApply, bu_seq update)
      else (kGap, last_u))"

definition CheckBinanceFuturesContinuity :: "u64 \<Rightarrow> u64 \<Rightarrow> u64 \<Rightarrow> ContinuityAction \<times> u64" where
  "CheckBinanceFuturesContinuity chain_seq event_seq last_u =
     (if event_seq \<le> last_u then (kIgnore, last_u)
      else if chain_seq = last_u then (kApply, event_seq)
      else (kGap, last_u))"

definition first_after :: "u64 \<Rightarrow> BookUpdate list \<Rightarrow> nat" where
  "first_after last_update_id pending = length (takeWhile (\<lambda>u. bu_seq u \<le> last_update_id) pending)"

definition ReconcileBinanceSnapshot :: "u64 \<Rightarrow> BookUpdate list \<Rightarrow> nat option" where
  "ReconcileBinanceSnapshot last_update_id pending =
     (let first = first_after last_update_id pending
      in if first = length pending then Some first
         else if bu_prev_seq (pending ! first) > last_update_id + 1 then None
         else Some first)"

section \<open>Redundant lines deliver each message once\<close>

lemma Accept_last:
  "Accept d i c False = (ok, d') \<Longrightarrow> ok \<longleftrightarrow> \<not> (sd_seen d \<and> i \<le> sd_last d)"
  "Accept d i c False = (ok, d') \<Longrightarrow> sd_seen d' \<and> sd_last d' = (if sd_seen d \<and> i \<le> sd_last d then sd_last d else i)"
  by (auto simp: Accept_def drop_copy_def Rotate_def split: if_splits)

lemma accepted_append: "accepted d (xs @ ys) = accepted d xs @ accepted (dedup_after d xs) ys"
  by (induction d xs rule: accepted.induct) (auto split: prod.splits)

lemma dedup_after_append: "dedup_after d (xs @ ys) = dedup_after (dedup_after d xs) ys"
  by (induction d xs rule: dedup_after.induct) auto

text \<open>After any stream the filter remembers the greatest identifier it has seen.\<close>

lemma dedup_state:
  "(sd_seen (dedup_after new_dedup ms) \<longleftrightarrow> ms \<noteq> []) \<and>
   (ms \<noteq> [] \<longrightarrow> sd_last (dedup_after new_dedup ms) = Max (fst ` set ms))"
proof (induction ms rule: rev_induct)
  case (snoc m ms)
  obtain i c where m: "m = (i, c)" by force
  let ?d = "dedup_after new_dedup ms"
  obtain ok d' where a: "Accept ?d i c False = (ok, d')" by force
  have l: "sd_seen d'" "sd_last d' = (if sd_seen ?d \<and> i \<le> sd_last ?d then sd_last ?d else i)" using Accept_last(2)[OF a] by auto
  show ?case
  proof (cases "ms = []")
    case True
    then show ?thesis using l a by (simp add: m new_dedup_def)
  next
    case False
    then have "Max (fst ` set (ms @ [m])) = max i (Max (fst ` set ms))" by (simp add: m)
    then show ?thesis using l a snoc False by (auto simp: m dedup_after_append max_def)
  qed
qed (simp add: new_dedup_def)

text \<open>A copy is passed exactly if its identifier is greater than every identifier before it.\<close>

lemma accepted_snoc:
  "accepted new_dedup (ms @ [(i, c)]) = accepted new_dedup ms @ (if \<forall>j \<in> fst ` set ms. j < i then [i] else [])"
proof -
  let ?d = "dedup_after new_dedup ms"
  obtain ok d' where a: "Accept ?d i c False = (ok, d')" by force
  have "ok \<longleftrightarrow> \<not> (ms \<noteq> [] \<and> i \<le> Max (fst ` set ms))" using Accept_last(1)[OF a] dedup_state[of ms] by auto
  also have "\<dots> \<longleftrightarrow> (\<forall>j \<in> fst ` set ms. j < i)" by (cases "ms = []") (auto simp: not_le)
  finally show ?thesis using a by (simp add: accepted_append)
qed

definition line :: "(u64 \<times> u32) list \<Rightarrow> u32 \<Rightarrow> u64 list" where
  "line ms c = map fst (filter (\<lambda>m. snd m = c) ms)"

text \<open>Every connection has delivered a prefix of the venue's messages, the copies interleaved in any way.\<close>

definition redundant_lines :: "u64 list \<Rightarrow> (u64 \<times> u32) list \<Rightarrow> bool" where
  "redundant_lines xs ms \<longleftrightarrow> (\<forall>c. line ms c = take (length (line ms c)) xs)"

lemma line_snoc: "line (ms @ [(i, c)]) c' = line ms c' @ (if c = c' then [i] else [])"
  by (simp add: line_def)

lemma redundant_lines_snocD:
  assumes "redundant_lines xs (ms @ [(i, c)])"
  shows "redundant_lines xs ms" "length (line ms c) < length xs" "i = xs ! length (line ms c)"
proof -
  show "redundant_lines xs ms"
    unfolding redundant_lines_def
  proof
    fix c'
    show "line ms c' = take (length (line ms c')) xs"
    proof (cases "c' = c")
      case True
      have "line ms c @ [i] = take (Suc (length (line ms c))) xs"
        using assms unfolding redundant_lines_def by (auto simp: line_snoc dest: spec[of _ c])
      then have "take (length (line ms c)) (line ms c @ [i]) = take (length (line ms c)) (take (Suc (length (line ms c))) xs)" by simp
      then show ?thesis using True by simp
    next
      case False
      then show ?thesis using assms unfolding redundant_lines_def by (auto simp: line_snoc dest: spec[of _ c'])
    qed
  qed
  have e: "line ms c @ [i] = take (Suc (length (line ms c))) xs"
    using assms unfolding redundant_lines_def by (auto simp: line_snoc dest: spec[of _ c])
  from arg_cong[OF e, of length] show len: "length (line ms c) < length xs" by simp
  from arg_cong[OF e, of "\<lambda>l. l ! length (line ms c)"] show "i = xs ! length (line ms c)" using len by simp
qed

lemma accepted_prefix:
  assumes "redundant_lines xs ms" "sorted_wrt (<) xs"
  shows "\<exists>n \<le> length xs. accepted new_dedup ms = take n xs \<and> fst ` set ms = set (take n xs) \<and>
    (\<forall>c. length (line ms c) \<le> n) \<and> (n \<noteq> 0 \<longrightarrow> (\<exists>c. length (line ms c) = n))"
  using assms(1)
proof (induction ms rule: rev_induct)
  case Nil
  show ?case by (rule exI[of _ 0]) (simp add: line_def)
next
  case (snoc m ms)
  obtain i c where m: "m = (i, c)" by force
  note D = redundant_lines_snocD[OF snoc.prems[unfolded m]]
  obtain n where n: "n \<le> length xs" "accepted new_dedup ms = take n xs" "fst ` set ms = set (take n xs)"
    "\<forall>c. length (line ms c) \<le> n" "n \<noteq> 0 \<longrightarrow> (\<exists>c. length (line ms c) = n)" using snoc.IH[OF D(1)] by blast
  let ?k = "length (line ms c)"
  have less: "j < i" if "j \<in> set (take ?k xs)" for j
    using assms(2) D(2,3) that by (auto simp: in_set_conv_nth sorted_wrt_iff_nth_less)
  show ?case
  proof (cases "?k = n")
    case True
    have "\<forall>j \<in> fst ` set ms. j < i" using less n(3) True by simp
    then have "accepted new_dedup (ms @ [m]) = take (Suc n) xs"
      using n(2) D(2,3) True by (simp add: m accepted_snoc take_Suc_conv_app_nth)
    moreover have "fst ` set (ms @ [m]) = set (take (Suc n) xs)"
      using n(3) D(2,3) True by (simp add: m take_Suc_conv_app_nth)
    moreover have "length (line (ms @ [m]) c') \<le> Suc n" for c' using n(4)[rule_format, of c'] by (auto simp: m line_snoc)
    moreover have "length (line (ms @ [m]) c) = Suc n" using True by (simp add: m line_snoc)
    ultimately show ?thesis using D(2) True by (metis Suc_leI)
  next
    case False
    then have k: "?k < n" using n(4) by (simp add: le_neq_implies_less)
    then have mem: "i \<in> set (take n xs)" using D(2,3) n(1) by (auto simp: in_set_conv_nth intro!: exI[of _ ?k])
    then have "\<not> (\<forall>j \<in> fst ` set ms. j < i)" using n(3) by auto
    then have "accepted new_dedup (ms @ [m]) = take n xs" using n(2) by (simp add: m accepted_snoc)
    moreover have "fst ` set (ms @ [m]) = set (take n xs)" using n(3) mem by (auto simp: m)
    moreover have "length (line (ms @ [m]) c') \<le> n" for c' using n(4)[rule_format, of c'] k by (auto simp: m line_snoc)
    moreover have "\<exists>c'. length (line (ms @ [m]) c') = n"
    proof -
      obtain c1 where c1: "length (line ms c1) = n" using n(5) k by auto
      then have "c1 \<noteq> c" using k by auto
      then show ?thesis using c1 by (intro exI[of _ c1]) (simp add: m line_snoc)
    qed
    ultimately show ?thesis using n(1) by (intro exI[of _ n]) blast
  qed
qed

section \<open>What a continuity rule promises\<close>

text \<open>
  The provider keeps one number, the identifier of the last message it passed on. A rule's verdict is sound if a
  message is passed only when it joins onto that number or replaces the book, the number then becomes the message's
  own, and the other two verdicts leave it alone.
\<close>

locale continuity_rule =
  fixes check :: "'m \<Rightarrow> u64 \<Rightarrow> ContinuityAction \<times> u64"
    and id_of :: "'m \<Rightarrow> u64"
    and joins :: "'m \<Rightarrow> u64 \<Rightarrow> bool"
    and replaces :: "'m \<Rightarrow> bool"
  assumes apply_joins: "check m l = (kApply, l') \<Longrightarrow> joins m l \<and> \<not> replaces m \<and> l' = id_of m"
    and reset_replaces: "check m l = (kReset, l') \<Longrightarrow> replaces m \<and> l' = id_of m"
    and ignore_keeps: "check m l = (kIgnore, l') \<Longrightarrow> l' = l"
    and gap_keeps: "check m l = (kGap, l') \<Longrightarrow> l' = l"
begin

fun passed :: "u64 \<Rightarrow> 'm list \<Rightarrow> 'm list" where
  "passed l [] = []"
| "passed l (m # ms) =
     (case check m l of
        (kGap, l') \<Rightarrow> []
      | (kIgnore, l') \<Rightarrow> passed l' ms
      | (_, l') \<Rightarrow> m # passed l' ms)"

fun chain :: "u64 \<Rightarrow> 'm list \<Rightarrow> bool" where
  "chain l [] = True"
| "chain l (m # ms) = ((joins m l \<or> replaces m) \<and> chain (id_of m) ms)"

lemma passed_chain: "chain l (passed l ms)"
  by (induction l ms rule: passed.induct)
     (auto split: prod.splits ContinuityAction.splits dest: apply_joins reset_replaces ignore_keeps)

lemma step_follows:
  assumes "\<And>l b. \<not> replaces m \<Longrightarrow> joins m l \<Longrightarrow> ok l b \<Longrightarrow> ok (id_of m) (f b m)"
    and "\<And>l b. replaces m \<Longrightarrow> ok l b \<Longrightarrow> ok (id_of m) (f b m)"
    and "ok l b" "check m l = (a, l')"
  shows "ok l' (if a = kApply \<or> a = kReset then f b m else b)"
proof (cases a)
  case kApply
  then show ?thesis using apply_joins[of m l l'] assms by auto
next
  case kReset
  then show ?thesis using reset_replaces[of m l l'] assms by auto
next
  case kIgnore
  then show ?thesis using ignore_keeps[of m l l'] assms(3,4) by simp
next
  case kGap
  then show ?thesis using gap_keeps[of m l l'] assms(3,4) by simp
qed

end

interpretation bybit: continuity_rule CheckBybitContinuity bu_seq
    "\<lambda>u l. bu_seq u = l + 1" bu_is_snapshot
  by unfold_locales (auto simp: CheckBybitContinuity_def split: if_splits)

interpretation okx: continuity_rule CheckOkxContinuity bu_seq
    "\<lambda>u l. bu_prev_seq u = l" bu_is_snapshot
  by unfold_locales (auto simp: CheckOkxContinuity_def split: if_splits)

interpretation binance_spot: continuity_rule CheckBinanceSpotContinuity bu_seq
    "\<lambda>u l. bu_prev_seq u \<le> l + 1 \<and> l < bu_seq u" "\<lambda>_. False"
  by unfold_locales (auto simp: CheckBinanceSpotContinuity_def split: if_splits)

interpretation binance_futures: continuity_rule "\<lambda>(pu, u). CheckBinanceFuturesContinuity pu u" snd
    "\<lambda>(pu, u) l. pu = l \<and> l < u" "\<lambda>_. False"
  by unfold_locales (auto simp: CheckBinanceFuturesContinuity_def split: if_splits prod.splits)

section \<open>Following the venue's book\<close>

text \<open>
  A venue's two sides at every sequence number of a session: the bids \<open>B n\<close> and asks \<open>A n\<close> after message \<open>n\<close>, each a
  map from prices to quantities. A message explains itself if it says what the venue documents: a snapshot lists the
  book at its number, and a delta turns the book at every number it joins onto into the book at its own.
\<close>

type_synonym history = "u64 \<Rightarrow> u64 \<Rightarrow> u64 option"

definition follows :: "history \<Rightarrow> history \<Rightarrow> u64 \<Rightarrow> FlatOrderBook \<Rightarrow> bool" where
  "follows B A l b \<longleftrightarrow> book_ok b \<and> bid_lookup b = B l \<and> ask_lookup b = A l"

definition explains :: "history \<Rightarrow> history \<Rightarrow> (BookUpdate \<Rightarrow> u64 \<Rightarrow> bool) \<Rightarrow> BookUpdate \<Rightarrow> bool" where
  "explains B A joins u \<longleftrightarrow> wf_update u \<and>
     (bu_is_snapshot u \<longrightarrow>
        apply_delta (\<lambda>_. None) (bu_bids u) = B (bu_seq u) \<and> apply_delta (\<lambda>_. None) (bu_asks u) = A (bu_seq u)) \<and>
     (\<not> bu_is_snapshot u \<longrightarrow> (\<forall>l. joins u l \<longrightarrow>
        apply_delta (B l) (bu_bids u) = B (bu_seq u) \<and> apply_delta (A l) (bu_asks u) = A (bu_seq u)))"

lemma explains_delta:
  "explains B A joins u \<Longrightarrow> \<not> bu_is_snapshot u \<Longrightarrow> joins u l \<Longrightarrow> follows B A l b \<Longrightarrow> follows B A (bu_seq u) (ApplyUpdate b u)"
  by (auto simp: follows_def explains_def ApplyUpdate_ok bid_lookup_ApplyUpdate ask_lookup_ApplyUpdate)

lemma explains_snapshot:
  "explains B A joins u \<Longrightarrow> bu_is_snapshot u \<Longrightarrow> book_ok b \<Longrightarrow> follows B A (bu_seq u) (ApplyUpdate b u)"
  by (auto simp: follows_def explains_def ApplyUpdate_ok bid_lookup_ApplyUpdate ask_lookup_ApplyUpdate)

lemma follows_ok: "follows B A l b \<Longrightarrow> book_ok b"
  by (simp add: follows_def)

lemma bybit_step:
  assumes "explains B A (\<lambda>u l. bu_seq u = l + 1) u" "follows B A l b" "CheckBybitContinuity u l = (a, l')"
  shows "follows B A l' (if a = kApply \<or> a = kReset then ApplyUpdate b u else b)"
  by (rule bybit.step_follows[where ok = "follows B A" and f = ApplyUpdate, OF _ _ assms(2,3)])
     (use assms(1) explains_delta explains_snapshot follows_ok in blast)+

lemma okx_step:
  assumes "explains B A (\<lambda>u l. bu_prev_seq u = l) u" "follows B A l b" "CheckOkxContinuity u l = (a, l')"
  shows "follows B A l' (if a = kApply \<or> a = kReset then ApplyUpdate b u else b)"
  by (rule okx.step_follows[where ok = "follows B A" and f = ApplyUpdate, OF _ _ assms(2,3)])
     (use assms(1) explains_delta explains_snapshot follows_ok in blast)+

lemma binance_spot_step:
  assumes "explains B A (\<lambda>u l. bu_prev_seq u \<le> l + 1 \<and> l < bu_seq u) u" "\<not> bu_is_snapshot u" "follows B A l b"
    "CheckBinanceSpotContinuity u l = (a, l')"
  shows "follows B A l' (if a = kApply \<or> a = kReset then ApplyUpdate b u else b)"
  by (rule binance_spot.step_follows[where ok = "follows B A" and f = ApplyUpdate, OF _ _ assms(3,4)])
     (use assms(1,2) explains_delta in blast)+

section \<open>Replaying overlapping events\<close>

text \<open>
  Binance numbers single price changes and sends events that cover a range of them, \<^verbatim>\<open>U\<close> to \<^verbatim>\<open>u\<close>, with the
  quantities at \<^verbatim>\<open>u\<close>. Such an event turns the book at any number it overlaps into the book at its end. A run of
  events without a hole may therefore start before the snapshot it is replayed onto: once the run has reached the
  snapshot's number the result is the venue's book again, although in between it need not be the book at any number.
\<close>

definition covers_side :: "history \<Rightarrow> u64 \<Rightarrow> u64 \<Rightarrow> PriceLevel list \<Rightarrow> bool" where
  "covers_side B U u levels \<longleftrightarrow> U \<le> u \<and>
     (\<forall>k. unat U \<le> unat k + 1 \<and> k \<le> u \<longrightarrow> apply_delta (B k) levels = B u)"

definition covers :: "history \<Rightarrow> history \<Rightarrow> BookUpdate \<Rightarrow> bool" where
  "covers B A e \<longleftrightarrow> wf_update e \<and> \<not> bu_is_snapshot e \<and>
     covers_side B (bu_prev_seq e) (bu_seq e) (bu_bids e) \<and> covers_side A (bu_prev_seq e) (bu_seq e) (bu_asks e)"

fun unbroken :: "BookUpdate list \<Rightarrow> bool" where
  "unbroken (e # f # es) \<longleftrightarrow> unat (bu_prev_seq f) \<le> unat (bu_seq e) + 1 \<and> bu_seq e \<le> bu_seq f \<and> unbroken (f # es)"
| "unbroken es \<longleftrightarrow> True"

definition touched :: "PriceLevel list \<Rightarrow> u64 \<Rightarrow> bool" where
  "touched levels p \<longleftrightarrow> side_lookup levels p \<noteq> None"

lemma covers_sideD:
  assumes "covers_side B U u levels"
  shows "touched levels p \<Longrightarrow> apply_delta m levels p = B u p"
    and "\<not> touched levels p \<Longrightarrow> apply_delta m levels p = m p"
    and "\<not> touched levels p \<Longrightarrow> unat U \<le> unat k + 1 \<Longrightarrow> k \<le> u \<Longrightarrow> B k p = B u p"
proof -
  have "unat U \<le> unat u + 1" using assms by (simp add: covers_side_def word_le_nat_alt)
  then have "apply_delta (B u) levels = B u" using assms by (simp add: covers_side_def)
  then show "touched levels p \<Longrightarrow> apply_delta m levels p = B u p"
    by (auto simp: touched_def apply_delta_def fun_eq_iff qty_at_def split: option.splits dest: spec[of _ p])
  show n: "apply_delta m levels p = m p" if "\<not> touched levels p" for m
    using that by (simp add: touched_def apply_delta_def)
  show "\<not> touched levels p \<Longrightarrow> unat U \<le> unat k + 1 \<Longrightarrow> k \<le> u \<Longrightarrow> B k p = B u p"
    using n[of "B k"] assms unfolding covers_side_def by metis
qed

lemma unbroken_snoc:
  "unbroken (es @ [f]) \<longleftrightarrow> unbroken es \<and>
     (es \<noteq> [] \<longrightarrow> unat (bu_prev_seq f) \<le> unat (bu_seq (last es)) + 1 \<and> bu_seq (last es) \<le> bu_seq f)"
  by (induction es rule: unbroken.induct) auto

text \<open>One side of a replay; \<open>side\<close> picks the levels of that side.\<close>

lemma replay_side:
  assumes "es \<noteq> []" "unbroken es" "\<forall>e \<in> set es. covers_side B (bu_prev_seq e) (bu_seq e) (side e)"
  shows "fold (\<lambda>e m. apply_delta m (side e)) es m p =
      (if \<exists>e \<in> set es. touched (side e) p then B (bu_seq (last es)) p else m p) \<and>
    ((\<forall>e \<in> set es. \<not> touched (side e) p) \<longrightarrow>
      (\<forall>k. unat (bu_prev_seq (hd es)) \<le> unat k + 1 \<and> k \<le> bu_seq (last es) \<longrightarrow> B k p = B (bu_seq (last es)) p))"
  using assms
proof (induction es rule: rev_induct)
  case (snoc e es)
  note c = covers_sideD[OF snoc.prems(3)[rule_format, of e, simplified]]
  show ?case
  proof (cases "es = []")
    case True
    then show ?thesis using c by (auto simp: c)
  next
    case False
    let ?u = "bu_seq (last es)"
    have j: "unat (bu_prev_seq e) \<le> unat ?u + 1" "?u \<le> bu_seq e" "unbroken es"
      using snoc.prems(2) False by (auto simp: unbroken_snoc)
    have IH: "fold (\<lambda>e m. apply_delta m (side e)) es m p = (if \<exists>e \<in> set es. touched (side e) p then B ?u p else m p)"
      "(\<forall>e \<in> set es. \<not> touched (side e) p) \<Longrightarrow> unat (bu_prev_seq (hd es)) \<le> unat k + 1 \<Longrightarrow> k \<le> ?u \<Longrightarrow> B k p = B ?u p" for k
      using snoc.IH[OF False j(3)] snoc.prems(3) by auto
    have u: "\<not> touched (side e) p \<Longrightarrow> B ?u p = B (bu_seq e) p" using c(3)[of p ?u] j by simp
    have "B k p = B (bu_seq e) p" if "\<not> touched (side e) p" "\<forall>e \<in> set es. \<not> touched (side e) p"
      "unat (bu_prev_seq (hd es)) \<le> unat k + 1" "k \<le> bu_seq e" for k
    proof (cases "k \<le> ?u")
      case True
      then show ?thesis using IH(2)[OF that(2,3)] u that(1) by simp
    next
      case False
      then have "unat (bu_prev_seq e) \<le> unat k + 1" using j(1) by (simp add: word_le_nat_alt)
      then show ?thesis using c(3) that(1,4) by blast
    qed
    then show ?thesis using False c(1,2) IH(1) u by (cases "touched (side e) p") auto
  qed
qed simp

lemma replay_reaches:
  assumes "es \<noteq> []" "unbroken es" "\<forall>e \<in> set es. covers_side B (bu_prev_seq e) (bu_seq e) (side e)"
    and "unat (bu_prev_seq (hd es)) \<le> unat s + 1" "s \<le> bu_seq (last es)"
  shows "fold (\<lambda>e m. apply_delta m (side e)) es (B s) = B (bu_seq (last es))"
  using replay_side[OF assms(1-3), where m = "B s"] assms(4,5) by (force simp: fun_eq_iff)

lemma fold_ApplyUpdate:
  assumes "book_ok b" "\<forall>e \<in> set es. wf_update e \<and> \<not> bu_is_snapshot e"
  shows "book_ok (fold (\<lambda>e b. ApplyUpdate b e) es b) \<and>
    bid_lookup (fold (\<lambda>e b. ApplyUpdate b e) es b) = fold (\<lambda>e m. apply_delta m (bu_bids e)) es (bid_lookup b) \<and>
    ask_lookup (fold (\<lambda>e b. ApplyUpdate b e) es b) = fold (\<lambda>e m. apply_delta m (bu_asks e)) es (ask_lookup b)"
  using assms
proof (induction es arbitrary: b)
  case (Cons e es)
  have "bid_lookup (ApplyUpdate b e) = apply_delta (bid_lookup b) (bu_bids e)"
    "ask_lookup (ApplyUpdate b e) = apply_delta (ask_lookup b) (bu_asks e)"
    using Cons.prems by (auto simp: fun_eq_iff bid_lookup_ApplyUpdate ask_lookup_ApplyUpdate)
  then show ?case using Cons.IH[of "ApplyUpdate b e"] Cons.prems ApplyUpdate_ok[of b e] by simp
qed simp

lemma replay_follows:
  assumes "follows B A s b" "es \<noteq> []" "unbroken es" "\<forall>e \<in> set es. covers B A e"
    and "unat (bu_prev_seq (hd es)) \<le> unat s + 1" "s \<le> bu_seq (last es)"
  shows "follows B A (bu_seq (last es)) (fold (\<lambda>e b. ApplyUpdate b e) es b)"
proof -
  have "\<forall>e \<in> set es. wf_update e \<and> \<not> bu_is_snapshot e" using assms(4) by (simp add: covers_def)
  from fold_ApplyUpdate[OF _ this, of b] show ?thesis
    using assms(1,4) replay_reaches[OF assms(2,3) _ assms(5,6), of B bu_bids] replay_reaches[OF assms(2,3) _ assms(5,6), of A bu_asks]
    by (simp add: follows_def covers_def)
qed

end
