(* ===== verification/Provider_Base.thy ===== *)
theory Provider_Base
  imports Sequencing
begin

text \<open>
  The venue-agnostic base of a provider (md_provider/md_provider.h and .cpp): the liveness stamps and verdicts, the
  duplicate filters, the exit points \<open>Emit\<close> and \<open>EmitQuote\<close>, resynchronisation and the reconnect loop around the
  io_context. The calls on the three callbacks are recorded in the order they are made (\<open>pv_out\<close>).

  A handler reads the monotonic clock several times. Each call site of a handler gets its own reading: \<open>clk 0\<close>,
  \<open>clk 1\<close> and so on. The virtual \<^verbatim>\<open>OnReconnect\<close> is a parameter of the functions that call it; the record is extended
  by the state of each venue's provider. The sockets themselves are third-party and not modelled: what remains of
  them is the number of live ones and whether the io_context runs.
\<close>

section \<open>State\<close>

datatype ProviderEvent = Emitted BookUpdate | Quoted BboQuote | HealthChanged VenueHealthEvent

record Provider =
  pv_venue :: VenueId
  pv_instrument :: InstrumentKey
  pv_connections :: u32
  pv_depth_backstop_ns :: i64
  pv_bbo_backstop_ns :: i64
  pv_running :: bool
  pv_io_running :: bool
  pv_depth_dedup :: SeqDedup
  pv_bbo_dedup :: SeqDedup
  pv_depth_live :: u32
  pv_bbo_live :: u32
  pv_last_depth_health :: VenueHealth
  pv_last_bbo_health :: VenueHealth
  pv_last_depth_message_mono_ns :: i64
  pv_last_bbo_message_mono_ns :: i64
  pv_reconnect_count :: u32
  pv_resync_requested :: bool
  pv_has_callback :: bool
  pv_has_quote_callback :: bool
  pv_has_health_callback :: bool
  pv_out :: "ProviderEvent list"

definition MAX_RECONNECT_ATTEMPTS :: u32 where "MAX_RECONNECT_ATTEMPTS = 10"
definition INITIAL_RECONNECT_DELAY_MS :: u64 where "INITIAL_RECONNECT_DELAY_MS = 1000"
definition MAX_RECONNECT_DELAY_MS :: u64 where "MAX_RECONNECT_DELAY_MS = 60000"
definition RESYNC_DELAY_MS :: u64 where "RESYNC_DELAY_MS = 200"

text \<open>\<^verbatim>\<open>GetCurrentTimeMs() * kTsNsMultiplier\<close>, from milliseconds of wall clock.\<close>

definition recv_stamp :: "int \<Rightarrow> i64" where
  "recv_stamp now_ms = word_of_int (now_ms * kTsNsMultiplier)"

section \<open>Health\<close>

definition NeedsImmediatePromotion :: "VenueHealth \<Rightarrow> bool" where
  "NeedsImmediatePromotion health \<longleftrightarrow> health = kNoData \<or> health = kResyncing"

definition PublishHealth :: "StreamKind \<Rightarrow> VenueHealth \<Rightarrow> i64 \<Rightarrow> 'a Provider_scheme \<Rightarrow> 'a Provider_scheme" where
  "PublishHealth stream health decided p =
     (let previous = (if stream = kDepth then pv_last_depth_health p else pv_last_bbo_health p)
      in if health = previous then p
         else let p = (if stream = kDepth then p\<lparr>pv_last_depth_health := health\<rparr> else p\<lparr>pv_last_bbo_health := health\<rparr>)
              in if pv_has_health_callback p
                 then p\<lparr>pv_out := pv_out p @
                         [HealthChanged \<lparr>he_venue = pv_venue p, he_stream = stream, he_health = health, he_decided_mono_ns = decided\<rparr>]\<rparr>
                 else p)"

definition NoteDepthActivity :: "i64 \<Rightarrow> i64 \<Rightarrow> 'a Provider_scheme \<Rightarrow> 'a Provider_scheme" where
  "NoteDepthActivity now decided p =
     (let p = p\<lparr>pv_last_depth_message_mono_ns := now\<rparr>
      in if NeedsImmediatePromotion (pv_last_depth_health p) then PublishHealth kDepth kLive decided p else p)"

definition NoteBboActivity :: "i64 \<Rightarrow> i64 \<Rightarrow> 'a Provider_scheme \<Rightarrow> 'a Provider_scheme" where
  "NoteBboActivity now decided p =
     (let p = p\<lparr>pv_last_bbo_message_mono_ns := now\<rparr>
      in if NeedsImmediatePromotion (pv_last_bbo_health p) then PublishHealth kBbo kLive decided p else p)"

definition CheckHealth :: "(nat \<Rightarrow> i64) \<Rightarrow> 'a Provider_scheme \<Rightarrow> 'a Provider_scheme" where
  "CheckHealth clk p =
     (let now = sint (clk 0);
          p = (if pv_last_depth_health p \<noteq> kResyncing
               then PublishHealth kDepth (ClassifyFeed (pv_depth_live p > 0) (sint (pv_last_depth_message_mono_ns p)) now
                      (sint (pv_depth_backstop_ns p))) (clk 1) p
               else p)
      in if pv_last_bbo_health p \<noteq> kResyncing
         then PublishHealth kBbo (ClassifyFeed (pv_bbo_live p > 0) (sint (pv_last_bbo_message_mono_ns p)) now
                (sint (pv_bbo_backstop_ns p))) (clk 2) p
         else p)"

text \<open>The timer's handler: check, and rearm only while a socket is left; the flag says whether it rearmed.\<close>

definition health_tick :: "(nat \<Rightarrow> i64) \<Rightarrow> 'a Provider_scheme \<Rightarrow> bool \<times> 'a Provider_scheme" where
  "health_tick clk p =
     (let p = CheckHealth clk p in (pv_running p \<and> (pv_depth_live p > 0 \<or> pv_bbo_live p > 0), p))"

section \<open>Filters and exit points\<close>

definition AcceptDepth :: "u64 \<Rightarrow> u32 \<Rightarrow> bool \<Rightarrow> 'a Provider_scheme \<Rightarrow> bool \<times> 'a Provider_scheme" where
  "AcceptDepth i conn_index venue_reset p =
     (let (ok, d) = Accept (pv_depth_dedup p) i conn_index venue_reset in (ok, p\<lparr>pv_depth_dedup := d\<rparr>))"

definition AcceptBbo :: "u64 \<Rightarrow> u32 \<Rightarrow> 'a Provider_scheme \<Rightarrow> bool \<times> 'a Provider_scheme" where
  "AcceptBbo i conn_index p =
     (let (ok, d) = Accept (pv_bbo_dedup p) i conn_index False in (ok, p\<lparr>pv_bbo_dedup := d\<rparr>))"

definition Emit :: "BookUpdate \<Rightarrow> i64 \<Rightarrow> 'a Provider_scheme \<Rightarrow> 'a Provider_scheme" where
  "Emit update now p =
     (if pv_has_callback p then p\<lparr>pv_out := pv_out p @ [Emitted (update\<lparr>bu_recv_mono_ns := now\<rparr>)]\<rparr> else p)"

definition EmitQuote :: "BboQuote \<Rightarrow> i64 \<Rightarrow> 'a Provider_scheme \<Rightarrow> 'a Provider_scheme" where
  "EmitQuote quote now p =
     (if pv_has_quote_callback p then p\<lparr>pv_out := pv_out p @ [Quoted (quote\<lparr>q_recv_mono_ns := now\<rparr>)]\<rparr> else p)"

definition RequestResync :: "i64 \<Rightarrow> i64 \<Rightarrow> 'a Provider_scheme \<Rightarrow> 'a Provider_scheme" where
  "RequestResync decided_depth decided_bbo p =
     (PublishHealth kBbo kResyncing decided_bbo (PublishHealth kDepth kResyncing decided_depth (p\<lparr>pv_resync_requested := True\<rparr>)))
       \<lparr>pv_io_running := False\<rparr>"

section \<open>Connection lifecycle\<close>

definition Start :: "'a Provider_scheme \<Rightarrow> 'a Provider_scheme" where
  "Start p = p\<lparr>pv_running := True\<rparr>"

definition Stop :: "'a Provider_scheme \<Rightarrow> 'a Provider_scheme" where
  "Stop p = (if pv_running p then p\<lparr>pv_running := False, pv_io_running := False\<rparr> else p)"

definition CreateCombinedSession :: "'a Provider_scheme \<Rightarrow> 'a Provider_scheme" where
  "CreateCombinedSession p = p\<lparr>pv_depth_live := pv_depth_live p + 1, pv_bbo_live := pv_bbo_live p + 1\<rparr>"

text \<open>\<open>hook\<close> is \<^verbatim>\<open>OnReconnect\<close>; its result is not looked at here.\<close>

definition OnCombinedSessionClosed ::
  "('a Provider_scheme \<Rightarrow> bool \<times> 'a Provider_scheme) \<Rightarrow> 'a Provider_scheme \<Rightarrow> 'a Provider_scheme" where
  "OnCombinedSessionClosed hook p =
     (let p = (if pv_depth_live p > 0 then p\<lparr>pv_depth_live := pv_depth_live p - 1\<rparr> else p);
          p = (if pv_bbo_live p > 0 then p\<lparr>pv_bbo_live := pv_bbo_live p - 1\<rparr> else p)
      in if pv_depth_live p = 0 then snd (hook p) else p)"

text \<open>The delay slept, in milliseconds, if the loop goes on.\<close>

definition HandleReconnection :: "'a Provider_scheme \<Rightarrow> u64 option \<times> 'a Provider_scheme" where
  "HandleReconnection p =
     (if \<not> pv_running p then (None, p)
      else let p = p\<lparr>pv_reconnect_count := pv_reconnect_count p + 1\<rparr>
           in if pv_reconnect_count p > MAX_RECONNECT_ATTEMPTS then (None, p\<lparr>pv_running := False\<rparr>)
              else (Some (min (INITIAL_RECONNECT_DELAY_MS * push_bit (unat (pv_reconnect_count p - 1)) 1) MAX_RECONNECT_DELAY_MS), p))"

text \<open>
  One pass of the loop in \<^verbatim>\<open>Run\<close> up to \<^verbatim>\<open>ioc.run()\<close>: it either goes on with every socket created, or the hook
  refused and the pass counts as a dropped connection.
\<close>

definition begin_run ::
  "('a Provider_scheme \<Rightarrow> bool \<times> 'a Provider_scheme) \<Rightarrow> 'a Provider_scheme \<Rightarrow> u64 option \<times> 'a Provider_scheme" where
  "begin_run hook p =
     (case hook p of
        (False, p) \<Rightarrow> if pv_running p then HandleReconnection p else (None, p)
      | (True, p) \<Rightarrow>
          (None,
           (CreateCombinedSession ^^ unat (max 1 (pv_connections p)))
             (p\<lparr>pv_io_running := True, pv_depth_dedup := new_dedup, pv_bbo_dedup := new_dedup,
                pv_depth_live := 0, pv_bbo_live := 0\<rparr>)))"

text \<open>The rest of the pass, after \<^verbatim>\<open>ioc.run()\<close> has returned.\<close>

definition end_run :: "'a Provider_scheme \<Rightarrow> u64 option \<times> 'a Provider_scheme" where
  "end_run p =
     (if \<not> pv_running p then (None, p)
      else if pv_resync_requested p then (Some RESYNC_DELAY_MS, p\<lparr>pv_resync_requested := False\<rparr>)
      else HandleReconnection p)"

section \<open>What the calls leave alone\<close>

named_theorems provider_frame

lemma PublishHealth_frame [provider_frame, simp]:
  "pv_venue (PublishHealth s h t p) = pv_venue p" "pv_instrument (PublishHealth s h t p) = pv_instrument p"
  "pv_connections (PublishHealth s h t p) = pv_connections p"
  "pv_running (PublishHealth s h t p) = pv_running p" "pv_io_running (PublishHealth s h t p) = pv_io_running p"
  "pv_depth_dedup (PublishHealth s h t p) = pv_depth_dedup p" "pv_bbo_dedup (PublishHealth s h t p) = pv_bbo_dedup p"
  "pv_depth_live (PublishHealth s h t p) = pv_depth_live p" "pv_bbo_live (PublishHealth s h t p) = pv_bbo_live p"
  "pv_last_depth_message_mono_ns (PublishHealth s h t p) = pv_last_depth_message_mono_ns p"
  "pv_last_bbo_message_mono_ns (PublishHealth s h t p) = pv_last_bbo_message_mono_ns p"
  "pv_reconnect_count (PublishHealth s h t p) = pv_reconnect_count p"
  "pv_resync_requested (PublishHealth s h t p) = pv_resync_requested p"
  "pv_has_callback (PublishHealth s h t p) = pv_has_callback p" "pv_has_quote_callback (PublishHealth s h t p) = pv_has_quote_callback p"
  "pv_has_health_callback (PublishHealth s h t p) = pv_has_health_callback p"
  "Provider.more (PublishHealth s h t p) = Provider.more p"
  by (simp_all add: PublishHealth_def Let_def)

lemma Note_frame [provider_frame, simp]:
  "pv_depth_dedup (NoteDepthActivity t d p) = pv_depth_dedup p" "pv_bbo_dedup (NoteBboActivity t d p) = pv_bbo_dedup p"
  "pv_instrument (NoteDepthActivity t d p) = pv_instrument p" "pv_instrument (NoteBboActivity t d p) = pv_instrument p"
  "pv_venue (NoteDepthActivity t d p) = pv_venue p" "pv_venue (NoteBboActivity t d p) = pv_venue p"
  "pv_has_callback (NoteDepthActivity t d p) = pv_has_callback p"
  "pv_has_health_callback (NoteDepthActivity t d p) = pv_has_health_callback p"
  "pv_has_health_callback (NoteBboActivity t d p) = pv_has_health_callback p"
  "pv_io_running (NoteDepthActivity t d p) = pv_io_running p"
  "pv_resync_requested (NoteDepthActivity t d p) = pv_resync_requested p"
  "Provider.more (NoteDepthActivity t d p) = Provider.more p" "Provider.more (NoteBboActivity t d p) = Provider.more p"
  by (simp_all add: NoteDepthActivity_def NoteBboActivity_def Let_def)

section \<open>Emitted updates\<close>

text \<open>The updates handed to the callback, in order, and the book they build.\<close>

fun updates_of :: "ProviderEvent list \<Rightarrow> BookUpdate list" where
  "updates_of [] = []"
| "updates_of (Emitted u # es) = u # updates_of es"
| "updates_of (_ # es) = updates_of es"

definition book_from :: "FlatOrderBook \<Rightarrow> ProviderEvent list \<Rightarrow> FlatOrderBook" where
  "book_from b es = fold (\<lambda>u b. ApplyUpdate b u) (updates_of es) b"

lemma updates_of_append [simp]: "updates_of (xs @ ys) = updates_of xs @ updates_of ys"
  by (induction xs rule: updates_of.induct) auto

lemma book_from_append: "book_from b (xs @ ys) = book_from (book_from b xs) ys"
  by (simp add: book_from_def)

lemma updates_PublishHealth [provider_frame, simp]: "updates_of (pv_out (PublishHealth s h t p)) = updates_of (pv_out p)"
  by (simp add: PublishHealth_def Let_def)

lemma updates_Note [provider_frame, simp]:
  "updates_of (pv_out (NoteDepthActivity t d p)) = updates_of (pv_out p)"
  "updates_of (pv_out (NoteBboActivity t d p)) = updates_of (pv_out p)"
  by (simp_all add: NoteDepthActivity_def NoteBboActivity_def Let_def)

lemma updates_RequestResync [provider_frame, simp]: "updates_of (pv_out (RequestResync t d p)) = updates_of (pv_out p)"
  by (simp add: RequestResync_def)

text \<open>A book cares for a message's sides and its snapshot mark only, not for its stamps.\<close>

lemma stamps_irrelevant:
  "bid_lookup (ApplyUpdate b (u\<lparr>bu_recv_mono_ns := t\<rparr>)) = bid_lookup (ApplyUpdate b u)"
  "ask_lookup (ApplyUpdate b (u\<lparr>bu_recv_mono_ns := t\<rparr>)) = ask_lookup (ApplyUpdate b u)"
  "bid_lookup (ApplyUpdate b (u\<lparr>bu_recv_ts_ns := t\<rparr>)) = bid_lookup (ApplyUpdate b u)"
  "ask_lookup (ApplyUpdate b (u\<lparr>bu_recv_ts_ns := t\<rparr>)) = ask_lookup (ApplyUpdate b u)"
  "book_ok (ApplyUpdate b (u\<lparr>bu_recv_mono_ns := t\<rparr>)) = book_ok (ApplyUpdate b u)"
  "book_ok (ApplyUpdate b (u\<lparr>bu_recv_ts_ns := t\<rparr>)) = book_ok (ApplyUpdate b u)"
  by (simp_all add: ApplyUpdate_def Let_def bid_lookup_def ask_lookup_def book_ok_def)

section \<open>Published verdicts\<close>

fun verdicts :: "StreamKind \<Rightarrow> ProviderEvent list \<Rightarrow> VenueHealth list" where
  "verdicts s [] = []"
| "verdicts s (HealthChanged e # es) = (if he_stream e = s then he_health e # verdicts s es else verdicts s es)"
| "verdicts s (_ # es) = verdicts s es"

fun edges :: "VenueHealth \<Rightarrow> VenueHealth list \<Rightarrow> bool" where
  "edges h [] = True"
| "edges h (h' # hs) = (h' \<noteq> h \<and> edges h' hs)"

lemma verdicts_append [simp]: "verdicts s (xs @ ys) = verdicts s xs @ verdicts s ys"
  by (induction s xs rule: verdicts.induct) auto

lemma edges_snoc: "edges h (hs @ [h']) \<longleftrightarrow> edges h hs \<and> h' \<noteq> last (h # hs)"
  by (induction hs arbitrary: h) auto

text \<open>
  What the core is told and what the provider believes are the same: the verdicts published for a stream start from
  \<open>kNoData\<close>, each differs from the one before, and the last one is the provider's current verdict.
\<close>

definition told :: "'a Provider_scheme \<Rightarrow> bool" where
  "told p \<longleftrightarrow> pv_has_health_callback p \<longrightarrow>
     edges kNoData (verdicts kDepth (pv_out p)) \<and> last (kNoData # verdicts kDepth (pv_out p)) = pv_last_depth_health p \<and>
     edges kNoData (verdicts kBbo (pv_out p)) \<and> last (kNoData # verdicts kBbo (pv_out p)) = pv_last_bbo_health p"

lemma told_PublishHealth [inv_intros]: "told p \<Longrightarrow> s = kDepth \<or> s = kBbo \<Longrightarrow> told (PublishHealth s h t p)"
  by (auto simp: told_def PublishHealth_def Let_def edges_snoc)

lemma told_frame:
  assumes "told p" "pv_has_health_callback p' = pv_has_health_callback p"
    "pv_last_depth_health p' = pv_last_depth_health p" "pv_last_bbo_health p' = pv_last_bbo_health p"
    "verdicts kDepth (pv_out p') = verdicts kDepth (pv_out p)" "verdicts kBbo (pv_out p') = verdicts kBbo (pv_out p)"
  shows "told p'"
  using assms by (simp add: told_def)

lemma told_Note [inv_intros]: "told p \<Longrightarrow> told (NoteDepthActivity t d p)" "told p \<Longrightarrow> told (NoteBboActivity t d p)"
  by (auto simp: NoteDepthActivity_def NoteBboActivity_def Let_def intro!: told_PublishHealth elim: told_frame)

lemma told_CheckHealth [inv_intros]: "told p \<Longrightarrow> told (CheckHealth clk p)"
  by (simp add: CheckHealth_def Let_def told_PublishHealth)

lemma told_RequestResync [inv_intros]:
  assumes "told p"
  shows "told (RequestResync t d p)"
proof -
  have "told (PublishHealth kBbo kResyncing d (PublishHealth kDepth kResyncing t (p\<lparr>pv_resync_requested := True\<rparr>)))"
    by (intro told_PublishHealth told_frame[OF assms]) simp_all
  then show ?thesis unfolding RequestResync_def by (rule told_frame) simp_all
qed

lemma told_Emit [inv_intros]: "told p \<Longrightarrow> told (Emit u t p)" "told p \<Longrightarrow> told (EmitQuote q t p)"
  by (auto simp: Emit_def EmitQuote_def elim: told_frame)

lemma told_Accept [inv_intros]:
  "told p \<Longrightarrow> told (snd (AcceptDepth i c r p))" "told p \<Longrightarrow> told (snd (AcceptBbo i c p))"
  by (auto simp: AcceptDepth_def AcceptBbo_def elim: told_frame split: prod.splits)

lemma RequestResync_verdicts:
  "pv_last_depth_health (RequestResync t d p) = kResyncing" "pv_last_bbo_health (RequestResync t d p) = kResyncing"
  by (simp_all add: RequestResync_def PublishHealth_def Let_def)

text \<open>A resync outlasts every tick of the watchdog and ends with the first message of the stream.\<close>

lemma resync_latch:
  assumes "pv_last_depth_health p = kResyncing" "pv_last_bbo_health p = kResyncing"
  shows "CheckHealth clk p = p" "pv_last_depth_health (NoteDepthActivity t d p) = kLive"
    "pv_last_bbo_health (NoteBboActivity t d p) = kLive"
  using assms by (simp_all add: CheckHealth_def NoteDepthActivity_def NoteBboActivity_def NeedsImmediatePromotion_def PublishHealth_def Let_def)

section \<open>The reconnect budget\<close>

text \<open>
  The passes of the loop as a list: a pass ends in a resync (\<open>True\<close>) or because every socket is gone (\<open>False\<close>). The
  result holds the delays slept. \<open>io\<close> is what the handlers do to the provider during a pass.
\<close>

fun run_passes :: "('a Provider_scheme \<Rightarrow> 'a Provider_scheme) \<Rightarrow> bool list \<Rightarrow> 'a Provider_scheme \<Rightarrow> u64 list \<times> 'a Provider_scheme" where
  "run_passes io [] p = ([], p)"
| "run_passes io (resync # passes) p =
     (if \<not> pv_running p then ([], p)
      else case end_run ((io p)\<lparr>pv_resync_requested := resync\<rparr>) of
             (delay, p') \<Rightarrow> let r = run_passes io passes p' in ((case delay of None \<Rightarrow> [] | Some d \<Rightarrow> [d]) @ fst r, snd r))"

definition reconnect_delay :: "nat \<Rightarrow> nat" where
  "reconnect_delay n = min (1000 * 2 ^ n) 60000"

lemma delay_word:
  assumes "n < 10"
  shows "unat (min (INITIAL_RECONNECT_DELAY_MS * push_bit n 1) MAX_RECONNECT_DELAY_MS) = reconnect_delay n"
proof -
  have "n \<in> {0..<10}" using assms by simp
  then have "n = 0 \<or> n = 1 \<or> n = 2 \<or> n = 3 \<or> n = 4 \<or> n = 5 \<or> n = 6 \<or> n = 7 \<or> n = 8 \<or> n = 9" by auto
  then show ?thesis
    by (elim disjE) (simp_all add: INITIAL_RECONNECT_DELAY_MS_def MAX_RECONNECT_DELAY_MS_def reconnect_delay_def push_bit_eq_mult)
qed

lemma HandleReconnection_count:
  assumes "pv_running p" "unat (pv_reconnect_count p) \<le> 10"
  shows "HandleReconnection p =
    (if unat (pv_reconnect_count p) = 10 then (None, p\<lparr>pv_reconnect_count := 11, pv_running := False\<rparr>)
     else (Some (min (INITIAL_RECONNECT_DELAY_MS * push_bit (unat (pv_reconnect_count p)) 1) MAX_RECONNECT_DELAY_MS),
           p\<lparr>pv_reconnect_count := pv_reconnect_count p + 1\<rparr>))"
proof (cases "unat (pv_reconnect_count p) = 10")
  case True
  then have "pv_reconnect_count p = 10" by (simp add: word_unat_eq_iff)
  then show ?thesis using assms(1) by (simp add: HandleReconnection_def MAX_RECONNECT_ATTEMPTS_def)
next
  case False
  then have "unat (pv_reconnect_count p + 1) = unat (pv_reconnect_count p) + 1" using assms(2) by (simp add: unat_word_ariths)
  then have "\<not> pv_reconnect_count p + 1 > 10" using assms(2) False by (simp add: word_less_nat_alt)
  then show ?thesis using assms(1) False by (simp add: HandleReconnection_def MAX_RECONNECT_ATTEMPTS_def)
qed

lemma HandleReconnection_stops: "\<not> pv_running p \<Longrightarrow> HandleReconnection p = (None, p)"
  by (simp add: HandleReconnection_def)

definition dropped :: "bool list \<Rightarrow> nat" where "dropped passes = length (filter Not passes)"

lemma run_passes_stopped: "\<not> pv_running p \<Longrightarrow> run_passes io passes p = ([], p)"
  by (cases passes) simp_all

lemma run_passes_count:
  assumes "\<And>p. pv_running (io p) = pv_running p \<and> pv_reconnect_count (io p) = pv_reconnect_count p"
    and "pv_running p" "unat (pv_reconnect_count p) \<le> 10"
  shows "(pv_running (snd (run_passes io passes p)) \<longleftrightarrow> unat (pv_reconnect_count p) + dropped passes \<le> 10) \<and>
    filter (\<lambda>d. d \<noteq> RESYNC_DELAY_MS) (fst (run_passes io passes p)) =
      map (\<lambda>n. of_nat (reconnect_delay n))
        [unat (pv_reconnect_count p)..<min 10 (unat (pv_reconnect_count p) + dropped passes)]"
  using assms(2,3)
proof (induction passes arbitrary: p)
  case (Cons resync passes)
  let ?q = "(io p)\<lparr>pv_resync_requested := resync\<rparr>" and ?n = "unat (pv_reconnect_count p)"
  have q: "pv_running ?q" "pv_reconnect_count ?q = pv_reconnect_count p" using assms(1)[of p] Cons.prems(1) by simp_all
  show ?case
  proof (cases resync)
    case True
    have e: "end_run ?q = (Some RESYNC_DELAY_MS, ?q\<lparr>pv_resync_requested := False\<rparr>)" using q True by (simp add: end_run_def)
    show ?thesis
      using Cons.IH[of "?q\<lparr>pv_resync_requested := False\<rparr>"] q Cons.prems True e by (simp add: dropped_def Let_def)
  next
    case False
    have e: "end_run ?q = HandleReconnection ?q" using q False by (simp add: end_run_def)
    note h = HandleReconnection_count[of ?q, unfolded q(2), OF q(1) Cons.prems(2)]
    show ?thesis
    proof (cases "?n = 10")
      case True
      then show ?thesis using Cons.prems False e h by (simp add: dropped_def run_passes_stopped Let_def)
    next
      case less: False
      let ?d = "min (INITIAL_RECONNECT_DELAY_MS * push_bit ?n 1) MAX_RECONNECT_DELAY_MS"
      let ?q' = "?q\<lparr>pv_reconnect_count := pv_reconnect_count p + 1\<rparr>"
      have n: "?n < 10" using less Cons.prems(2) by simp
      have u: "unat (pv_reconnect_count p + 1) = ?n + 1" using n by (simp add: unat_word_ariths)
      have d: "?d = of_nat (reconnect_delay ?n)" unfolding delay_word[OF n, symmetric] by simp
      have "unat ?d \<noteq> unat RESYNC_DELAY_MS" using delay_word[OF n] by (simp add: reconnect_delay_def RESYNC_DELAY_MS_def min_def)
      then have nd: "?d \<noteq> RESYNC_DELAY_MS" by auto
      have IH: "(pv_running (snd (run_passes io passes ?q')) \<longleftrightarrow> ?n + 1 + dropped passes \<le> 10) \<and>
        filter (\<lambda>d. d \<noteq> RESYNC_DELAY_MS) (fst (run_passes io passes ?q')) =
          map (\<lambda>n. of_nat (reconnect_delay n)) [?n + 1..<min 10 (?n + 1 + dropped passes)]"
        using Cons.IH[of ?q'] q(1) u n by simp
      have r: "[?n..<min 10 (?n + (1 + dropped passes))] = ?n # [?n + 1..<min 10 (?n + 1 + dropped passes)]"
        using n by (subst upt_conv_Cons) auto
      have e': "end_run ?q = (Some ?d, ?q')" using e h less q(2) by simp
      have dp: "dropped (resync # passes) = 1 + dropped passes" using False by (simp add: dropped_def)
      show ?thesis
        using IH Cons.prems(1) nd d r e' unfolding dp by (simp add: Let_def)
    qed
  qed
qed (simp add: dropped_def)

end
