(* ===== verification/Venue_Providers.thy ===== *)
theory Venue_Providers
  imports Provider_Base
begin

text \<open>
  The providers of the three venues (md_provider/binance, bybit and okx, *_provider.h and .cpp): what each does with a
  parsed message. The parsers walk JSON documents with a third-party library; a handler takes the parser's result,
  \<open>None\<close> for a message that is none of the channel's. \<open>now_ms\<close> is the wall clock, \<open>clk\<close> the monotonic clock at each call
  site of the handler. A handler runs only while the io_context does (\<open>handle_stream\<close>).
\<close>

section \<open>Bybit\<close>

record BybitProvider = Provider +
  by_last_depth_u :: u64
  by_depth_topic :: string
  by_bbo_topic :: string

definition Bybit_OnDepthMessage ::
  "BookUpdate option \<Rightarrow> u32 \<Rightarrow> int \<Rightarrow> (nat \<Rightarrow> i64) \<Rightarrow> BybitProvider \<Rightarrow> BybitProvider" where
  "Bybit_OnDepthMessage parsed conn_index now_ms clk p =
     (case parsed of
        None \<Rightarrow> p
      | Some update \<Rightarrow>
          (let p = NoteDepthActivity (clk 0) (clk 1) p;
               venue_reset = (bu_seq update = 1)
           in case AcceptDepth (bu_seq update) conn_index venue_reset p of
                (False, p) \<Rightarrow> p
              | (True, p) \<Rightarrow>
                  (case CheckBybitContinuity update (by_last_depth_u p) of
                     (kIgnore, l) \<Rightarrow> p\<lparr>by_last_depth_u := l\<rparr>
                   | (kGap, l) \<Rightarrow> RequestResync (clk 2) (clk 3) (p\<lparr>by_last_depth_u := 0\<rparr>)
                   | (_, l) \<Rightarrow> Emit (update\<lparr>bu_recv_ts_ns := recv_stamp now_ms\<rparr>) (clk 4) (p\<lparr>by_last_depth_u := l\<rparr>))))"

text \<open>The quote both Bybit and OKX build from the first level of each side.\<close>

definition quote_of :: "'a Provider_scheme \<Rightarrow> BookUpdate \<Rightarrow> int \<Rightarrow> BboQuote" where
  "quote_of p update now_ms =
     \<lparr>q_venue = pv_venue p, q_instrument = pv_instrument p, q_seq = bu_seq update, q_recv_ts_ns = recv_stamp now_ms,
      q_exch_ts_ns = bu_exch_ts_ns update, q_recv_mono_ns = 0,
      q_bid_price = price (hd (bu_bids update)), q_bid_qty = qty (hd (bu_bids update)),
      q_ask_price = price (hd (bu_asks update)), q_ask_qty = qty (hd (bu_asks update))\<rparr>"

definition Bybit_OnBboMessage ::
  "BookUpdate option \<Rightarrow> u32 \<Rightarrow> int \<Rightarrow> (nat \<Rightarrow> i64) \<Rightarrow> BybitProvider \<Rightarrow> BybitProvider" where
  "Bybit_OnBboMessage parsed conn_index now_ms clk p =
     (case parsed of
        None \<Rightarrow> p
      | Some update \<Rightarrow>
          (let p = NoteBboActivity (clk 0) (clk 1) p
           in case AcceptBbo (bu_seq update) conn_index p of
                (False, p) \<Rightarrow> p
              | (True, p) \<Rightarrow>
                  if bu_bids update = [] \<or> bu_asks update = [] then p
                  else EmitQuote (quote_of p update now_ms) (clk 2) p))"

text \<open>\<open>topic\<close> is what \<^verbatim>\<open>PeekTopic\<close> finds.\<close>

definition Bybit_OnCombinedMessage ::
  "string option \<Rightarrow> BookUpdate option \<Rightarrow> u32 \<Rightarrow> int \<Rightarrow> (nat \<Rightarrow> i64) \<Rightarrow> BybitProvider \<Rightarrow> BybitProvider" where
  "Bybit_OnCombinedMessage topic parsed conn_index now_ms clk p =
     (case topic of
        None \<Rightarrow> p
      | Some t \<Rightarrow> if t = by_depth_topic p then Bybit_OnDepthMessage parsed conn_index now_ms clk p
                  else Bybit_OnBboMessage parsed conn_index now_ms clk p)"

section \<open>OKX\<close>

record OKXProvider = Provider +
  ok_last_depth_seq :: u64
  ok_contract_size :: QtyUnits
  ok_contract_size_resolved :: bool

text \<open>\<open>fetched\<close> is the contract size the REST call and its parser yield.\<close>

definition OKX_OnReconnect :: "QtyUnits option \<Rightarrow> OKXProvider \<Rightarrow> bool \<times> OKXProvider" where
  "OKX_OnReconnect fetched p =
     (if Market (pv_instrument p) \<noteq> kFutures \<or> ok_contract_size_resolved p then (True, p)
      else case fetched of
             None \<Rightarrow> (False, p)
           | Some contract_size \<Rightarrow> (True, p\<lparr>ok_contract_size := contract_size, ok_contract_size_resolved := True\<rparr>))"

definition OKX_OnDepthMessage ::
  "BookUpdate option \<Rightarrow> u32 \<Rightarrow> int \<Rightarrow> (nat \<Rightarrow> i64) \<Rightarrow> OKXProvider \<Rightarrow> OKXProvider" where
  "OKX_OnDepthMessage parsed conn_index now_ms clk p =
     (case parsed of
        None \<Rightarrow> p
      | Some update \<Rightarrow>
          (let p = NoteDepthActivity (clk 0) (clk 1) p;
               venue_reset = (sint (bu_prev_seq update) > 0 \<and> bu_seq update < bu_prev_seq update)
           in case AcceptDepth (bu_seq update) conn_index venue_reset p of
                (False, p) \<Rightarrow> p
              | (True, p) \<Rightarrow>
                  (case CheckOkxContinuity update (ok_last_depth_seq p) of
                     (kIgnore, l) \<Rightarrow> p\<lparr>ok_last_depth_seq := l\<rparr>
                   | (kGap, l) \<Rightarrow> RequestResync (clk 2) (clk 3) (p\<lparr>ok_last_depth_seq := 0\<rparr>)
                   | (_, l) \<Rightarrow> Emit (update\<lparr>bu_recv_ts_ns := recv_stamp now_ms\<rparr>) (clk 4) (p\<lparr>ok_last_depth_seq := l\<rparr>))))"

definition OKX_OnBboMessage ::
  "BookUpdate option \<Rightarrow> u32 \<Rightarrow> int \<Rightarrow> (nat \<Rightarrow> i64) \<Rightarrow> OKXProvider \<Rightarrow> OKXProvider" where
  "OKX_OnBboMessage parsed conn_index now_ms clk p =
     (case parsed of
        None \<Rightarrow> p
      | Some update \<Rightarrow>
          (let p = NoteBboActivity (clk 0) (clk 1) p
           in case AcceptBbo (bu_seq update) conn_index p of
                (False, p) \<Rightarrow> p
              | (True, p) \<Rightarrow>
                  if bu_bids update = [] \<or> bu_asks update = [] then p
                  else EmitQuote (quote_of p update now_ms) (clk 2) p))"

definition OKX_OnCombinedMessage ::
  "string option \<Rightarrow> BookUpdate option \<Rightarrow> u32 \<Rightarrow> int \<Rightarrow> (nat \<Rightarrow> i64) \<Rightarrow> OKXProvider \<Rightarrow> OKXProvider" where
  "OKX_OnCombinedMessage channel parsed conn_index now_ms clk p =
     (case channel of
        None \<Rightarrow> p
      | Some ch \<Rightarrow> if ch = ''bbo-tbt'' then OKX_OnBboMessage parsed conn_index now_ms clk p
                   else OKX_OnDepthMessage parsed conn_index now_ms clk p)"

section \<open>Binance\<close>

datatype SyncState = kSyncing | kLiveSync

record BinanceProvider = Provider +
  bn_sync_state :: SyncState
  bn_snapshot_requested :: bool
  bn_snapshot_attempts :: nat
  bn_pending :: "BookUpdate list"
  bn_last_depth_u :: u64
  bn_bbo_stream_name :: string

definition kMaxPendingEvents :: nat where "kMaxPendingEvents = 2000"
definition kMaxSnapshotAttempts :: nat where "kMaxSnapshotAttempts = 5"

definition Binance_OnReconnect :: "BinanceProvider \<Rightarrow> bool \<times> BinanceProvider" where
  "Binance_OnReconnect p =
     (True, p\<lparr>bn_sync_state := kSyncing, bn_snapshot_requested := False, bn_snapshot_attempts := 0, bn_pending := [],
              bn_last_depth_u := 0\<rparr>)"

text \<open>The request itself runs on a thread of its own; its result comes back as \<open>OnSnapshotFetched\<close>.\<close>

definition FetchSnapshotAsync :: "BinanceProvider \<Rightarrow> BinanceProvider" where
  "FetchSnapshotAsync p = p\<lparr>bn_snapshot_requested := True, bn_snapshot_attempts := bn_snapshot_attempts p + 1\<rparr>"

fun replay_pending :: "(nat \<Rightarrow> i64) \<Rightarrow> nat \<Rightarrow> BookUpdate list \<Rightarrow> BinanceProvider \<Rightarrow> BinanceProvider" where
  "replay_pending clk k [] p = p"
| "replay_pending clk k (u # us) p = replay_pending clk (Suc k) us (Emit u (clk k) (p\<lparr>bn_last_depth_u := bu_seq u\<rparr>))"

definition ReconcileSnapshot :: "BookUpdate \<Rightarrow> int \<Rightarrow> (nat \<Rightarrow> i64) \<Rightarrow> BinanceProvider \<Rightarrow> bool \<times> BinanceProvider" where
  "ReconcileSnapshot snapshot now_ms clk p =
     (let last_update_id = bu_seq snapshot
      in case ReconcileBinanceSnapshot last_update_id (bn_pending p) of
           None \<Rightarrow> (False, p)
         | Some first \<Rightarrow>
             (let pending = bn_pending p;
                  p = Emit (snapshot\<lparr>bu_recv_ts_ns := recv_stamp now_ms\<rparr>) (clk 0) p;
                  p = p\<lparr>bn_last_depth_u := last_update_id\<rparr>;
                  p = replay_pending clk 1 (drop first pending) p;
                  p = (if Market (pv_instrument p) = kFutures \<and> pending \<noteq> []
                       then p\<lparr>bn_last_depth_u := bu_seq (last pending)\<rparr> else p)
              in (True, p\<lparr>bn_pending := [], bn_sync_state := kLiveSync\<rparr>)))"

definition OnSnapshotFetched :: "BookUpdate option \<Rightarrow> int \<Rightarrow> (nat \<Rightarrow> i64) \<Rightarrow> BinanceProvider \<Rightarrow> BinanceProvider" where
  "OnSnapshotFetched fetched now_ms clk p =
     (case fetched of
        None \<Rightarrow> if bn_snapshot_attempts p \<ge> kMaxSnapshotAttempts then RequestResync (clk 0) (clk 1) p
                else FetchSnapshotAsync p
      | Some snapshot \<Rightarrow>
          (case ReconcileSnapshot snapshot now_ms clk p of
             (True, p) \<Rightarrow> p
           | (False, p) \<Rightarrow> if bn_snapshot_attempts p \<ge> kMaxSnapshotAttempts then RequestResync (clk 0) (clk 1) p
                           else FetchSnapshotAsync p))"

text \<open>\<open>chain_seq\<close> is what \<^verbatim>\<open>LastChainSeq\<close> holds after the parse.\<close>

definition Binance_OnDepthMessage ::
  "BookUpdate option \<Rightarrow> u64 option \<Rightarrow> u32 \<Rightarrow> int \<Rightarrow> (nat \<Rightarrow> i64) \<Rightarrow> BinanceProvider \<Rightarrow> BinanceProvider" where
  "Binance_OnDepthMessage parsed chain_seq conn_index now_ms clk p =
     (case parsed of
        None \<Rightarrow> p
      | Some update \<Rightarrow>
          (let update = update\<lparr>bu_recv_ts_ns := recv_stamp now_ms\<rparr>;
               p = NoteDepthActivity (clk 0) (clk 1) p
           in case AcceptDepth (bu_seq update) conn_index False p of
                (False, p) \<Rightarrow> p
              | (True, p) \<Rightarrow>
                  if bn_sync_state p = kSyncing
                  then let p = (if \<not> bn_snapshot_requested p then FetchSnapshotAsync p else p)
                       in if length (bn_pending p) \<ge> kMaxPendingEvents then RequestResync (clk 2) (clk 3) p
                          else p\<lparr>bn_pending := bn_pending p @ [update]\<rparr>
                  else let (action, l) =
                             (if Market (pv_instrument p) = kFutures
                              then (case chain_seq of
                                      None \<Rightarrow> (kGap, bn_last_depth_u p)
                                    | Some pu \<Rightarrow> CheckBinanceFuturesContinuity pu (bu_seq update) (bn_last_depth_u p))
                              else CheckBinanceSpotContinuity update (bn_last_depth_u p));
                           p = p\<lparr>bn_last_depth_u := l\<rparr>
                       in if action = kGap then RequestResync (clk 2) (clk 3) p else Emit update (clk 4) p))"

definition Binance_OnBboMessage :: "BboQuote option \<Rightarrow> u32 \<Rightarrow> int \<Rightarrow> (nat \<Rightarrow> i64) \<Rightarrow> BinanceProvider \<Rightarrow> BinanceProvider" where
  "Binance_OnBboMessage parsed conn_index now_ms clk p =
     (case parsed of
        None \<Rightarrow> p
      | Some quote \<Rightarrow>
          (let p = NoteBboActivity (clk 0) (clk 1) p
           in case AcceptBbo (q_seq quote) conn_index p of
                (False, p) \<Rightarrow> p
              | (True, p) \<Rightarrow> EmitQuote (quote\<lparr>q_recv_ts_ns := recv_stamp now_ms\<rparr>) (clk 2) p))"

text \<open>\<open>stream\<close> is the envelope's field; the two results are the parses of its data.\<close>

definition Binance_OnCombinedMessage ::
  "string option \<Rightarrow> BookUpdate option \<Rightarrow> u64 option \<Rightarrow> BboQuote option \<Rightarrow> u32 \<Rightarrow> int \<Rightarrow> (nat \<Rightarrow> i64) \<Rightarrow>
   BinanceProvider \<Rightarrow> BinanceProvider" where
  "Binance_OnCombinedMessage stream parsed chain_seq parsed_quote conn_index now_ms clk p =
     (case stream of
        None \<Rightarrow> p
      | Some s \<Rightarrow> if s = bn_bbo_stream_name p then Binance_OnBboMessage parsed_quote conn_index now_ms clk p
                  else Binance_OnDepthMessage parsed chain_seq conn_index now_ms clk p)"

section \<open>Names and paths\<close>

text \<open>\<^verbatim>\<open>std::tolower\<close> in the C locale.\<close>

definition to_lower :: "char \<Rightarrow> char" where
  "to_lower c = (let n = (of_char c :: nat) in if 65 \<le> n \<and> n \<le> 90 then char_of (n + 32) else c)"

definition ToLowerSymbol :: "InstrumentKey \<Rightarrow> string" where
  "ToLowerSymbol instrument = map to_lower (ToInstrumentString (Symbol instrument))"

definition UpperSymbol :: "InstrumentKey \<Rightarrow> string" where
  "UpperSymbol instrument = ToInstrumentString (Symbol instrument)"

definition StripWsPrefix :: "string \<Rightarrow> string" where
  "StripWsPrefix path = (if take 4 path = ''/ws/'' then drop 4 path else path)"

text \<open>\<^verbatim>\<open>symbol.find(\"USDT\")\<close>, then \<^verbatim>\<open>insert\<close> of the hyphen there.\<close>

fun hyphenate :: "string \<Rightarrow> string" where
  "hyphenate [] = []"
| "hyphenate (c # cs) = (if take 4 (c # cs) = ''USDT'' then CHR ''-'' # c # cs else c # hyphenate cs)"

definition ToOkxInstId :: "InstrumentKey \<Rightarrow> string" where
  "ToOkxInstId instrument =
     hyphenate (ToInstrumentString (Symbol instrument)) @ (if Market instrument = kFutures then ''-SWAP'' else [])"

section \<open>What the handlers leave alone\<close>

lemma venue_fields_frame [provider_frame, simp]:
  "by_last_depth_u (NoteDepthActivity t d q) = by_last_depth_u q"
  "ok_last_depth_seq (NoteDepthActivity t d q') = ok_last_depth_seq q'"
  "bn_last_depth_u (NoteDepthActivity t d r) = bn_last_depth_u r" "bn_sync_state (NoteDepthActivity t d r) = bn_sync_state r"
  "bn_pending (NoteDepthActivity t d r) = bn_pending r" "bn_snapshot_requested (NoteDepthActivity t d r) = bn_snapshot_requested r"
  by (simp_all add: NoteDepthActivity_def PublishHealth_def Let_def)

lemma RequestResync_frame [provider_frame, simp]:
  "pv_has_callback (RequestResync t d p) = pv_has_callback p" "\<not> pv_io_running (RequestResync t d p)"
  "pv_has_health_callback (RequestResync t d p) = pv_has_health_callback p"
  by (simp_all add: RequestResync_def)

text \<open>What a handler has emitted so far builds the book of the venue, or the provider has given up on this connection.\<close>

definition delivers :: "history \<Rightarrow> history \<Rightarrow> FlatOrderBook \<Rightarrow> ('a Provider_scheme \<Rightarrow> u64) \<Rightarrow> 'a Provider_scheme \<Rightarrow> bool" where
  "delivers B A b last_seq p \<longleftrightarrow> pv_has_callback p \<and>
     (if pv_io_running p then follows B A (last_seq p) (book_from b (pv_out p))
      else pv_last_depth_health p = kResyncing \<and> pv_last_bbo_health p = kResyncing)"

lemma delivers_resync: "pv_has_callback p \<Longrightarrow> delivers B A b last_seq (RequestResync t d p)"
  by (simp add: delivers_def RequestResync_verdicts)

lemma follows_stamps:
  "follows B A l (ApplyUpdate b (u\<lparr>bu_recv_ts_ns := s, bu_recv_mono_ns := t\<rparr>)) = follows B A l (ApplyUpdate b u)"
  by (simp add: follows_def stamps_irrelevant)

lemma book_from_Emit:
  "pv_has_callback p \<Longrightarrow> follows B A l (book_from b (pv_out (Emit (u\<lparr>bu_recv_ts_ns := s\<rparr>) t p))) =
    follows B A l (ApplyUpdate (book_from b (pv_out p)) u)"
  by (simp add: Emit_def book_from_def follows_stamps)

lemma Emit_frame [provider_frame, simp]:
  "pv_has_callback (Emit u t p) = pv_has_callback p" "pv_io_running (Emit u t p) = pv_io_running p"
  "by_last_depth_u (Emit u t q) = by_last_depth_u q" "ok_last_depth_seq (Emit u t q') = ok_last_depth_seq q'"
  "bn_last_depth_u (Emit u t r) = bn_last_depth_u r" "bn_pending (Emit u t r) = bn_pending r" "bn_sync_state (Emit u t r) = bn_sync_state r"
  "pv_instrument (Emit u t p) = pv_instrument p"
  by (simp_all add: Emit_def)

lemma book_from_updates: "updates_of es = updates_of es' \<Longrightarrow> book_from b es = book_from b es'"
  by (simp add: book_from_def)

lemma bybit_depth_delivers:
  assumes "explains B A (\<lambda>u l. bu_seq u = l + 1) u" "pv_io_running p" "delivers B A b by_last_depth_u p"
  shows "delivers B A b by_last_depth_u (Bybit_OnDepthMessage (Some u) c now_ms clk p)"
proof -
  let ?p = "NoteDepthActivity (clk 0) (clk 1) p"
  obtain ok q where a: "AcceptDepth (bu_seq u) c (bu_seq u = 1) ?p = (ok, q)" by force
  have q: "pv_has_callback q" "pv_io_running q" "by_last_depth_u q = by_last_depth_u p"
    "follows B A (by_last_depth_u q) (book_from b (pv_out q))"
    using a assms(2,3) book_from_updates[of "pv_out ?p" "pv_out p"]
    by (auto simp: AcceptDepth_def delivers_def split: prod.splits)
  obtain act l where s: "CheckBybitContinuity u (by_last_depth_u q) = (act, l)" by force
  note step = bybit_step[OF assms(1) q(4) s]
  show ?thesis
  proof (cases ok)
    case True
    then show ?thesis using a s q step
      by (cases act) (auto simp: Bybit_OnDepthMessage_def Let_def delivers_resync delivers_def book_from_Emit RequestResync_verdicts)
  next
    case False
    then show ?thesis using a q by (simp add: Bybit_OnDepthMessage_def Let_def delivers_def)
  qed
qed

lemma okx_depth_delivers:
  assumes "explains B A (\<lambda>u l. bu_prev_seq u = l) u" "pv_io_running p" "delivers B A b ok_last_depth_seq p"
  shows "delivers B A b ok_last_depth_seq (OKX_OnDepthMessage (Some u) c now_ms clk p)"
proof -
  let ?p = "NoteDepthActivity (clk 0) (clk 1) p"
  obtain ok q where a: "AcceptDepth (bu_seq u) c (sint (bu_prev_seq u) > 0 \<and> bu_seq u < bu_prev_seq u) ?p = (ok, q)" by force
  have q: "pv_has_callback q" "pv_io_running q" "ok_last_depth_seq q = ok_last_depth_seq p"
    "follows B A (ok_last_depth_seq q) (book_from b (pv_out q))"
    using a assms(2,3) book_from_updates[of "pv_out ?p" "pv_out p"]
    by (auto simp: AcceptDepth_def delivers_def split: prod.splits)
  obtain act l where s: "CheckOkxContinuity u (ok_last_depth_seq q) = (act, l)" by force
  note step = okx_step[OF assms(1) q(4) s]
  show ?thesis
  proof (cases ok)
    case True
    then show ?thesis using a s q step
      by (cases act) (auto simp: OKX_OnDepthMessage_def Let_def delivers_resync delivers_def book_from_Emit RequestResync_verdicts)
  next
    case False
    then show ?thesis using a q by (simp add: OKX_OnDepthMessage_def Let_def delivers_def)
  qed
qed

section \<open>Streams of messages\<close>

text \<open>
  A stream of parsed messages, each with its connection and the clock readings of its handler. After \<^verbatim>\<open>ioc.stop()\<close>
  nothing more is handled.
\<close>

type_synonym message = "BookUpdate \<times> u32 \<times> int \<times> (nat \<Rightarrow> i64)"

definition handle_stream ::
  "(BookUpdate option \<Rightarrow> u32 \<Rightarrow> int \<Rightarrow> (nat \<Rightarrow> i64) \<Rightarrow> 'a Provider_scheme \<Rightarrow> 'a Provider_scheme) \<Rightarrow>
   message list \<Rightarrow> 'a Provider_scheme \<Rightarrow> 'a Provider_scheme" where
  "handle_stream handle ms p =
     fold (\<lambda>(u, c, now_ms, clk) p. if pv_io_running p then handle (Some u) c now_ms clk p else p) ms p"

lemma stream_delivers:
  assumes "\<And>m c now_ms clk p. m \<in> fst ` set ms \<Longrightarrow> pv_io_running p \<Longrightarrow> delivers B A b last_seq p \<Longrightarrow>
      delivers B A b last_seq (handle (Some m) c now_ms clk p)"
    and "delivers B A b last_seq p"
  shows "delivers B A b last_seq (handle_stream handle ms p)"
  using assms
proof (induction ms arbitrary: p)
  case (Cons m ms)
  obtain u c now_ms clk where m: "m = (u, c, now_ms, clk)" by (cases m) auto
  let ?p = "if pv_io_running p then handle (Some u) c now_ms clk p else p"
  have "delivers B A b last_seq ?p" using Cons.prems(1)[of u p c now_ms clk] Cons.prems(2) m by auto
  from Cons.IH[OF Cons.prems(1) this] show ?case by (simp add: handle_stream_def m)
qed (simp add: handle_stream_def)

lemma bybit_stream_delivers:
  assumes "\<forall>m \<in> set ms. explains B A (\<lambda>u l. bu_seq u = l + 1) (fst m)" "delivers B A b by_last_depth_u p"
  shows "delivers B A b by_last_depth_u (handle_stream Bybit_OnDepthMessage ms p)"
  by (rule stream_delivers[OF _ assms(2)]) (use assms(1) bybit_depth_delivers in auto)

lemma okx_stream_delivers:
  assumes "\<forall>m \<in> set ms. explains B A (\<lambda>u l. bu_prev_seq u = l) (fst m)" "delivers B A b ok_last_depth_seq p"
  shows "delivers B A b ok_last_depth_seq (handle_stream OKX_OnDepthMessage ms p)"
  by (rule stream_delivers[OF _ assms(2)]) (use assms(1) okx_depth_delivers in auto)

section \<open>Binance: joining the snapshot\<close>

definition stamped :: "int \<Rightarrow> i64 \<Rightarrow> BookUpdate \<Rightarrow> BookUpdate" where
  "stamped now_ms t u = u\<lparr>bu_recv_ts_ns := recv_stamp now_ms, bu_recv_mono_ns := t\<rparr>"

definition same_message :: "BookUpdate \<Rightarrow> BookUpdate \<Rightarrow> bool" where
  "same_message u v \<longleftrightarrow> (\<exists>s t. v = u\<lparr>bu_recv_ts_ns := s, bu_recv_mono_ns := t\<rparr>)"

lemma same_message_fields:
  "same_message u v \<Longrightarrow> bu_seq v = bu_seq u \<and> bu_prev_seq v = bu_prev_seq u \<and> bu_bids v = bu_bids u \<and> bu_asks v = bu_asks u \<and>
     bu_is_snapshot v = bu_is_snapshot u"
  by (auto simp: same_message_def)

lemma same_message_refl: "same_message u (u\<lparr>bu_recv_mono_ns := t\<rparr>)" "same_message u (stamped n t u)"
proof -
  have "u\<lparr>bu_recv_mono_ns := t\<rparr> = u\<lparr>bu_recv_ts_ns := bu_recv_ts_ns u, bu_recv_mono_ns := t\<rparr>" by simp
  then show "same_message u (u\<lparr>bu_recv_mono_ns := t\<rparr>)" unfolding same_message_def by blast
qed (auto simp: same_message_def stamped_def)

lemma same_covers: "same_message u v \<Longrightarrow> covers B A v = covers B A u"
  by (auto simp: covers_def wf_update_def dest!: same_message_fields)

lemma same_unbroken: "list_all2 same_message es es' \<Longrightarrow> unbroken es' = unbroken es"
proof (induction es arbitrary: es' rule: unbroken.induct)
  case (1 e f es)
  then obtain e' f' es'' where "es' = e' # f' # es''" "same_message e e'" "same_message f f'" "list_all2 same_message (f # es) (f' # es'')"
    by (auto simp: list_all2_Cons1)
  then show ?case using 1 by (auto dest!: same_message_fields)
qed (auto simp: list_all2_Cons1)

lemma replay_follows_stamped:
  assumes "follows B A s b" "es \<noteq> []" "unbroken es" "\<forall>e \<in> set es. covers B A e" "list_all2 same_message es es'"
    and "unat (bu_prev_seq (hd es)) \<le> unat s + 1" "s \<le> bu_seq (last es)"
  shows "follows B A (bu_seq (last es)) (fold (\<lambda>e b. ApplyUpdate b e) es' b)"
proof -
  have ne: "es' \<noteq> []" using assms(2,5) by auto
  have l: "length es = length es'" using assms(5) by (rule list_all2_lengthD)
  have "same_message (hd es) (hd es')" using assms(2,5) ne by (cases es; cases es') auto
  moreover have "same_message (last es) (last es')"
    using list_all2_nthD[OF assms(5), of "length es - 1"] assms(2) ne l by (simp add: last_conv_nth)
  moreover have "\<forall>e \<in> set es'. covers B A e"
    using assms(4,5) same_covers by (fastforce simp: list_all2_conv_all_nth in_set_conv_nth)
  ultimately show ?thesis
    using replay_follows[OF assms(1) ne _ _, of] assms(6,7) same_unbroken[OF assms(5)] assms(3)
    by (auto dest!: same_message_fields)
qed

lemma replay_pending_out:
  "pv_has_callback p \<Longrightarrow>
   (\<exists>es'. updates_of (pv_out (replay_pending clk k es p)) = updates_of (pv_out p) @ es' \<and> list_all2 same_message es es') \<and>
   bn_last_depth_u (replay_pending clk k es p) = (if es = [] then bn_last_depth_u p else bu_seq (last es)) \<and>
   pv_instrument (replay_pending clk k es p) = pv_instrument p \<and>
   pv_has_callback (replay_pending clk k es p) \<and> pv_io_running (replay_pending clk k es p) = pv_io_running p"
proof (induction es arbitrary: p k)
  case (Cons u es)
  let ?p = "Emit u (clk k) (p\<lparr>bn_last_depth_u := bu_seq u\<rparr>)"
  obtain es' where IH: "updates_of (pv_out (replay_pending clk (Suc k) es ?p)) = updates_of (pv_out ?p) @ es'"
    "list_all2 same_message es es'"
    "bn_last_depth_u (replay_pending clk (Suc k) es ?p) = (if es = [] then bn_last_depth_u ?p else bu_seq (last es))"
    "pv_instrument (replay_pending clk (Suc k) es ?p) = pv_instrument ?p" "pv_has_callback (replay_pending clk (Suc k) es ?p)"
    "pv_io_running (replay_pending clk (Suc k) es ?p) = pv_io_running ?p"
    using Cons.IH[of ?p "Suc k"] Cons.prems by auto
  have "updates_of (pv_out ?p) = updates_of (pv_out p) @ [u\<lparr>bu_recv_mono_ns := clk k\<rparr>]" using Cons.prems by (simp add: Emit_def)
  then have "updates_of (pv_out (replay_pending clk k (u # es) p)) = updates_of (pv_out p) @ (u\<lparr>bu_recv_mono_ns := clk k\<rparr> # es')"
    using IH(1) by simp
  then show ?case using IH(2-) same_message_refl(1)[of u "clk k"] by auto
qed simp

lemma unbroken_le_last: "unbroken es \<Longrightarrow> e \<in> set es \<Longrightarrow> bu_seq e \<le> bu_seq (last es)"
proof (induction es arbitrary: e rule: unbroken.induct)
  case (1 a f es)
  then have "bu_seq f \<le> bu_seq (last (f # es))" "bu_seq a \<le> bu_seq f" by auto
  then have "bu_seq a \<le> bu_seq (last (f # es))" by (rule order_trans[rotated])
  then show ?case using 1 by auto
qed auto

lemma unbroken_drop: "unbroken es \<Longrightarrow> unbroken (drop n es)"
proof (induction n arbitrary: es)
  case (Suc n)
  then show ?case by (cases es rule: unbroken.cases) auto
qed simp

lemma first_after_props:
  fixes s es
  defines "n \<equiv> first_after s es"
  shows "n \<le> length es" "\<forall>i < n. bu_seq (es ! i) \<le> s" "n < length es \<Longrightarrow> s < bu_seq (es ! n)"
proof -
  show "n \<le> length es" unfolding n_def first_after_def by (rule length_takeWhile_le)
  show "\<forall>i < n. bu_seq (es ! i) \<le> s" unfolding n_def first_after_def
    by (metis nth_length_takeWhile set_takeWhileD nth_mem takeWhile_nth)
  show "n < length es \<Longrightarrow> s < bu_seq (es ! n)" unfolding n_def first_after_def using nth_length_takeWhile by (metis not_le)
qed

lemma ReconcileSnapshot_follows:
  assumes "ReconcileSnapshot snapshot now_ms clk p = (True, p')" "pv_has_callback p" "book_ok (book_from b (pv_out p))"
    and "explains B A J snapshot" "bu_is_snapshot snapshot"
    and "unbroken (bn_pending p)" "\<forall>e \<in> set (bn_pending p). covers B A e"
  defines "reached \<equiv> (if bn_pending p = [] then bu_seq snapshot else max (bu_seq snapshot) (bu_seq (last (bn_pending p))))"
  shows "follows B A reached (book_from b (pv_out p')) \<and> bn_sync_state p' = kLiveSync \<and> bn_pending p' = [] \<and>
    (Market (pv_instrument p) \<noteq> kFutures \<longrightarrow> bn_last_depth_u p' = reached)"
proof -
  let ?s = "bu_seq snapshot" and ?es = "bn_pending p"
  let ?n = "first_after ?s ?es"
  note F = first_after_props[of ?s ?es]
  obtain first where f: "ReconcileBinanceSnapshot ?s ?es = Some first"
    using assms(1) by (auto simp: ReconcileSnapshot_def Let_def split: option.splits)
  then have n: "first = ?n" and join: "?n < length ?es \<Longrightarrow> bu_prev_seq (?es ! ?n) \<le> ?s + 1"
    by (auto simp: ReconcileBinanceSnapshot_def Let_def split: if_splits)
  let ?q = "Emit (snapshot\<lparr>bu_recv_ts_ns := recv_stamp now_ms\<rparr>) (clk 0) p"
  let ?r = "replay_pending clk 1 (drop ?n ?es) (?q\<lparr>bn_last_depth_u := ?s\<rparr>)"
  have q: "pv_has_callback (?q\<lparr>bn_last_depth_u := ?s\<rparr>)" using assms(2) by simp
  obtain es' where r: "updates_of (pv_out ?r) = updates_of (pv_out ?q) @ es'" "list_all2 same_message (drop ?n ?es) es'"
    "bn_last_depth_u ?r = (if drop ?n ?es = [] then ?s else bu_seq (last (drop ?n ?es)))" "pv_instrument ?r = pv_instrument p"
    using replay_pending_out[OF q, of clk 1 "drop ?n ?es"] by auto
  have p': "pv_out p' = pv_out ?r" "bn_sync_state p' = kLiveSync" "bn_pending p' = []"
    "Market (pv_instrument p) \<noteq> kFutures \<Longrightarrow> bn_last_depth_u p' = bn_last_depth_u ?r"
    using assms(1) f n r(4) by (auto simp: ReconcileSnapshot_def Let_def)
  have snap: "follows B A ?s (book_from b (pv_out ?q))"
    using explains_snapshot[OF assms(4,5,3)] assms(2) by (simp add: book_from_Emit)
  have fold: "book_from b (pv_out p') = fold (\<lambda>e b. ApplyUpdate b e) es' (book_from b (pv_out ?q))"
    using r(1) p'(1) by (simp add: book_from_def)
  have main: "follows B A reached (book_from b (pv_out p')) \<and> reached = bn_last_depth_u ?r"
  proof (cases "?n < length ?es")
    case True
    let ?e = "?es ! ?n"
    have d: "drop ?n ?es \<noteq> []" "hd (drop ?n ?es) = ?e" "last (drop ?n ?es) = last ?es" using True by (simp_all add: hd_drop_conv_nth)
    have lt: "?s < bu_seq ?e" using F(3) True by blast
    have "bu_seq ?e \<le> bu_seq (last ?es)" using unbroken_le_last[OF assms(6)] True by simp
    then have sl: "?s \<le> bu_seq (last ?es)" "?s < bu_seq (last ?es)" using lt by auto
    have "unat (?s + 1) = unat ?s + 1" using lt by (rule word_less_succ)
    then have "unat (bu_prev_seq ?e) \<le> unat ?s + 1" using join[OF True] by (simp add: word_le_nat_alt)
    moreover have "\<forall>e \<in> set (drop ?n ?es). covers B A e" using assms(7) set_drop_subset by fastforce
    ultimately have "follows B A (bu_seq (last ?es)) (fold (\<lambda>e b. ApplyUpdate b e) es' (book_from b (pv_out ?q)))"
      using replay_follows_stamped[OF snap d(1) unbroken_drop[OF assms(6)] _ r(2)] d sl(1) by simp
    moreover have "reached = bu_seq (last ?es)" using sl True by (auto simp: reached_def max_def)
    ultimately show ?thesis using fold r(3) d by simp
  next
    case False
    then have d: "drop ?n ?es = []" and "\<forall>e \<in> set ?es. bu_seq e \<le> ?s" using F(1,2) by (auto simp: in_set_conv_nth)
    then have "reached = ?s" by (auto simp: reached_def max_def dest!: bspec[of _ _ "last ?es"])
    then show ?thesis using d r(2,3) fold snap by simp
  qed
  then show ?thesis using p' by auto
qed

section \<open>Binance: the live stream\<close>

lemma handle_stream_snoc:
  "handle_stream handle (ms @ [(u, c, now_ms, clk)]) p =
    (let q = handle_stream handle ms p in if pv_io_running q then handle (Some u) c now_ms clk q else q)"
  by (simp add: handle_stream_def Let_def)

text \<open>One live message of the spot stream, known to pass the filter.\<close>

lemma spot_live_message:
  fixes clk now_ms c chain_seq
  assumes "pv_io_running p" "pv_has_callback p" "Market (pv_instrument p) \<noteq> kFutures" "bn_sync_state p = kLiveSync"
    and "\<not> (sd_seen (pv_depth_dedup p) \<and> bu_seq u \<le> sd_last (pv_depth_dedup p))"
    and "bn_last_depth_u p < bu_seq u \<Longrightarrow> bu_prev_seq u \<le> bn_last_depth_u p + 1"
  defines "p' \<equiv> Binance_OnDepthMessage (Some u) chain_seq c now_ms clk p"
  shows "pv_io_running p' \<and> pv_has_callback p' \<and> pv_instrument p' = pv_instrument p \<and> bn_sync_state p' = kLiveSync \<and>
    sd_last (pv_depth_dedup p') = bu_seq u \<and> sd_seen (pv_depth_dedup p') \<and>
    bn_last_depth_u p' = max (bn_last_depth_u p) (bu_seq u) \<and>
    updates_of (pv_out p') = updates_of (pv_out p) @ [stamped now_ms (clk 4) u]"
proof -
  let ?u = "u\<lparr>bu_recv_ts_ns := recv_stamp now_ms\<rparr>"
  let ?p = "NoteDepthActivity (clk 0) (clk 1) p"
  have e: "stamped now_ms t u = ?u\<lparr>bu_recv_mono_ns := t\<rparr>" for t by (simp add: stamped_def)
  obtain ok q where a: "AcceptDepth (bu_seq u) c False ?p = (ok, q)" by force
  have q: "ok" "pv_io_running q" "pv_has_callback q" "pv_instrument q = pv_instrument p" "bn_sync_state q = kLiveSync"
    "bn_last_depth_u q = bn_last_depth_u p" "sd_last (pv_depth_dedup q) = bu_seq u" "sd_seen (pv_depth_dedup q)"
    "updates_of (pv_out q) = updates_of (pv_out p)"
    using a assms(1-5) by (auto simp: AcceptDepth_def Accept_def Rotate_def split: if_splits prod.splits)
  have c: "CheckBinanceSpotContinuity ?u (bn_last_depth_u p) =
      (if bu_seq u \<le> bn_last_depth_u p then kIgnore else kApply, max (bn_last_depth_u p) (bu_seq u))"
    using assms(6) by (auto simp: CheckBinanceSpotContinuity_def max_def not_le)
  have "p' = Emit ?u (clk 4) (q\<lparr>bn_last_depth_u := max (bn_last_depth_u p) (bu_seq u)\<rparr>)"
    using a c q(1,4-6) assms(3) by (simp add: p'_def Binance_OnDepthMessage_def Let_def)
  then show ?thesis using q by (simp add: Emit_def e)
qed

text \<open>What is emitted for a message: the message with the two stamps of its handling.\<close>

definition handed_on :: "message \<Rightarrow> BookUpdate" where
  "handed_on m = (case m of (u, c, now_ms, clk) \<Rightarrow> stamped now_ms (clk 4) u)"

lemma handed_on_same: "list_all2 same_message (map fst ms) (map handed_on ms)"
  using same_message_refl(2) by (induction ms) (auto simp: handed_on_def split: prod.splits)

lemma spot_live_run:
  fixes chain_seq
  assumes "pv_io_running p" "pv_has_callback p" "Market (pv_instrument p) \<noteq> kFutures" "bn_sync_state p = kLiveSync"
    and "bn_last_depth_u p = s"
    and "sorted_wrt (<) (map (\<lambda>m. bu_seq (fst m)) ms)" "unbroken (map fst ms)"
    and "ms \<noteq> [] \<Longrightarrow> unat (bu_prev_seq (fst (hd ms))) \<le> unat s + 1"
    and "\<forall>m \<in> set ms. sd_seen (pv_depth_dedup p) \<longrightarrow> sd_last (pv_depth_dedup p) < bu_seq (fst m)"
  defines "p' \<equiv> handle_stream (\<lambda>parsed. Binance_OnDepthMessage parsed chain_seq) ms p"
  shows "pv_io_running p' \<and> pv_has_callback p' \<and> pv_instrument p' = pv_instrument p \<and> bn_sync_state p' = kLiveSync \<and>
    (if ms = [] then pv_depth_dedup p' = pv_depth_dedup p
     else sd_seen (pv_depth_dedup p') \<and> sd_last (pv_depth_dedup p') = bu_seq (fst (last ms))) \<and>
    bn_last_depth_u p' = (if ms = [] then s else max s (bu_seq (fst (last ms)))) \<and>
    updates_of (pv_out p') = updates_of (pv_out p) @ map handed_on ms"
  using assms(6-9) unfolding p'_def
proof (induction ms rule: rev_induct)
  case Nil
  then show ?case using assms(1-5) by (simp add: handle_stream_def)
next
  case (snoc m ms)
  obtain u c now_ms clk where m: "m = (u, c, now_ms, clk)" by (cases m) auto
  let ?q = "handle_stream (\<lambda>parsed. Binance_OnDepthMessage parsed chain_seq) ms p"
  have ub: "unbroken (map fst ms)" and j: "ms \<noteq> [] \<Longrightarrow> unat (bu_prev_seq u) \<le> unat (bu_seq (fst (last ms))) + 1"
    using snoc.prems(2) by (auto simp: unbroken_snoc m last_map)
  have inc: "sorted_wrt (<) (map (\<lambda>m. bu_seq (fst m)) ms)" "\<forall>m \<in> set ms. bu_seq (fst m) < bu_seq u"
    using snoc.prems(1) by (auto simp: m sorted_wrt_append)
  have "ms \<noteq> [] \<Longrightarrow> unat (bu_prev_seq (fst (hd ms))) \<le> unat s + 1"
    "\<forall>m \<in> set ms. sd_seen (pv_depth_dedup p) \<longrightarrow> sd_last (pv_depth_dedup p) < bu_seq (fst m)"
    using snoc.prems(3,4) by (cases ms; simp)+
  note I = snoc.IH[OF inc(1) ub this]
  have IH: "pv_io_running ?q" "pv_has_callback ?q" "pv_instrument ?q = pv_instrument p" "bn_sync_state ?q = kLiveSync"
    "if ms = [] then pv_depth_dedup ?q = pv_depth_dedup p
     else sd_seen (pv_depth_dedup ?q) \<and> sd_last (pv_depth_dedup ?q) = bu_seq (fst (last ms))"
    "bn_last_depth_u ?q = (if ms = [] then s else max s (bu_seq (fst (last ms))))"
    "updates_of (pv_out ?q) = updates_of (pv_out p) @ map handed_on ms"
    using I by blast+
  have new: "\<not> (sd_seen (pv_depth_dedup ?q) \<and> bu_seq u \<le> sd_last (pv_depth_dedup ?q))"
    using IH(5) inc(2) snoc.prems(4) by (cases "ms = []") (auto simp: m not_le)
  have join: "bu_prev_seq u \<le> bn_last_depth_u ?q + 1" if less: "bn_last_depth_u ?q < bu_seq u"
  proof -
    have "unat (bu_prev_seq u) \<le> unat (bn_last_depth_u ?q) + 1"
      using IH(6) j snoc.prems(3) by (cases "ms = []") (auto simp: m max_def word_le_nat_alt not_le)
    then show ?thesis using word_less_succ[OF less] by (simp add: word_le_nat_alt)
  qed
  have fut: "Market (pv_instrument ?q) \<noteq> kFutures" using IH(3) assms(3) by simp
  note step = spot_live_message[OF IH(1,2) fut IH(4) new join, of chain_seq c now_ms clk]
  have p': "handle_stream (\<lambda>parsed. Binance_OnDepthMessage parsed chain_seq) (ms @ [m]) p =
      Binance_OnDepthMessage (Some u) chain_seq c now_ms clk ?q" using IH(1) by (simp add: m handle_stream_snoc Let_def)
  have mx: "max (bn_last_depth_u ?q) (bu_seq u) = max s (bu_seq u)"
    using IH(6) inc(2) by (cases "ms = []") (auto simp: max_def dest!: bspec[of _ _ "last ms"])
  show ?case unfolding p' using step IH(3) mx IH(7) by (simp add: m handed_on_def)
qed

lemma spot_live_follows:
  fixes chain_seq
  assumes "pv_io_running p" "pv_has_callback p" "Market (pv_instrument p) \<noteq> kFutures" "bn_sync_state p = kLiveSync"
    and "bn_last_depth_u p = s" "follows B A s (book_from b (pv_out p))"
    and "sorted_wrt (<) (map (\<lambda>m. bu_seq (fst m)) ms)" "unbroken (map fst ms)" "ms \<noteq> []"
    and "unat (bu_prev_seq (fst (hd ms))) \<le> unat s + 1"
    and "\<forall>m \<in> set ms. covers B A (fst m) \<and> (sd_seen (pv_depth_dedup p) \<longrightarrow> sd_last (pv_depth_dedup p) < bu_seq (fst m))"
  defines "p' \<equiv> handle_stream (\<lambda>parsed. Binance_OnDepthMessage parsed chain_seq) ms p"
  shows "pv_io_running p' \<and> bn_last_depth_u p' = max s (bu_seq (fst (last ms))) \<and>
    updates_of (pv_out p') = updates_of (pv_out p) @ map handed_on ms \<and>
    (s \<le> bu_seq (fst (last ms)) \<longrightarrow> follows B A (bu_seq (fst (last ms))) (book_from b (pv_out p')))"
proof -
  have d: "\<forall>m \<in> set ms. sd_seen (pv_depth_dedup p) \<longrightarrow> sd_last (pv_depth_dedup p) < bu_seq (fst m)" using assms(11) by blast
  note R = spot_live_run[OF assms(1-5,7,8) assms(10) d, of chain_seq, folded p'_def]
  then have es: "updates_of (pv_out p') = updates_of (pv_out p) @ map handed_on ms" by blast
  have "follows B A (bu_seq (last (map fst ms))) (fold (\<lambda>e b. ApplyUpdate b e) (map handed_on ms) (book_from b (pv_out p)))"
    if "s \<le> bu_seq (fst (last ms))"
    by (rule replay_follows_stamped[OF assms(6) _ assms(8) _ handed_on_same])
       (use assms(9-11) that in \<open>auto simp: hd_map last_map\<close>)
  then show ?thesis using R assms(9) es by (simp add: book_from_def last_map)
qed

text \<open>An event the rule tells to ignore is handed on all the same.\<close>

lemma ignored_event_emitted:
  assumes "pv_io_running p" "pv_has_callback p" "Market (pv_instrument p) \<noteq> kFutures" "bn_sync_state p = kLiveSync"
    and "\<not> (sd_seen (pv_depth_dedup p) \<and> bu_seq u \<le> sd_last (pv_depth_dedup p))" "bu_seq u \<le> bn_last_depth_u p"
  shows "CheckBinanceSpotContinuity u (bn_last_depth_u p) = (kIgnore, bn_last_depth_u p) \<and>
    updates_of (pv_out (Binance_OnDepthMessage (Some u) chain_seq c now_ms clk p)) =
      updates_of (pv_out p) @ [stamped now_ms (clk 4) u]"
  using spot_live_message[OF assms(1-5)] assms(6) by (simp add: CheckBinanceSpotContinuity_def)

section \<open>What the core is told\<close>

lemma told_lifecycle [inv_intros]:
  "told p \<Longrightarrow> told (Start p)" "told p \<Longrightarrow> told (Stop p)" "told p \<Longrightarrow> told (snd (end_run p))" "told p \<Longrightarrow> told (CreateCombinedSession p)"
  "told p \<Longrightarrow> told (snd (HandleReconnection p))"
  by (auto simp: Start_def Stop_def end_run_def HandleReconnection_def CreateCombinedSession_def Let_def elim: told_frame)

lemma told_sessions: "told p \<Longrightarrow> told ((CreateCombinedSession ^^ n) p)"
  by (induction n) (auto intro: inv_intros)

lemma told_begin_run [inv_intros]: "told (snd (hook p)) \<Longrightarrow> told (snd (begin_run hook p))"
  by (auto simp: begin_run_def split: prod.splits bool.splits intro!: told_lifecycle told_sessions elim: told_frame)

lemma told_closed [inv_intros]:
  assumes "told p" "\<And>p. told p \<Longrightarrow> told (snd (hook p))"
  shows "told (OnCombinedSessionClosed hook p)"
proof -
  define q where "q = (let p = (if pv_depth_live p > 0 then p\<lparr>pv_depth_live := pv_depth_live p - 1\<rparr> else p)
    in if pv_bbo_live p > 0 then p\<lparr>pv_bbo_live := pv_bbo_live p - 1\<rparr> else p)"
  have "told q" by (rule told_frame[OF assms(1)]) (simp_all add: q_def Let_def)
  moreover have "OnCombinedSessionClosed hook p = (if pv_depth_live q = 0 then snd (hook q) else q)"
    unfolding OnCombinedSessionClosed_def q_def by (simp only: Let_def)
  ultimately show ?thesis using assms(2) by simp
qed

lemma told_bybit [inv_intros]:
  assumes "told p"
  shows "told (Bybit_OnDepthMessage m c n clk p)" "told (Bybit_OnBboMessage m c n clk p)"
    "told (Bybit_OnCombinedMessage t m c n clk p)"
proof -
  have f: "told p \<Longrightarrow> told (p\<lparr>by_last_depth_u := l\<rparr>)" for p :: BybitProvider and l by (erule told_frame) simp_all
  show d: "told (Bybit_OnDepthMessage m c n clk p)"
  proof (cases m)
    case (Some u)
    obtain ok q where a: "AcceptDepth (bu_seq u) c (bu_seq u = 1) (NoteDepthActivity (clk 0) (clk 1) p) = (ok, q)" by force
    then have "told q" using told_Accept(1)[OF told_Note(1)[OF assms]] by (metis snd_conv)
    then show ?thesis using a
      by (cases ok) (auto simp: Some Bybit_OnDepthMessage_def Let_def split: prod.splits ContinuityAction.splits
            intro!: told_Emit told_RequestResync f)
  qed (simp add: Bybit_OnDepthMessage_def assms)
  show b: "told (Bybit_OnBboMessage m c n clk p)"
  proof (cases m)
    case (Some u)
    obtain ok q where a: "AcceptBbo (bu_seq u) c (NoteBboActivity (clk 0) (clk 1) p) = (ok, q)" by force
    then have "told q" using told_Accept(2)[OF told_Note(2)[OF assms]] by (metis snd_conv)
    then show ?thesis using a by (cases ok) (auto simp: Some Bybit_OnBboMessage_def Let_def intro!: told_Emit)
  qed (simp add: Bybit_OnBboMessage_def assms)
  show "told (Bybit_OnCombinedMessage t m c n clk p)" using d b assms by (simp add: Bybit_OnCombinedMessage_def split: option.split)
qed

lemma told_okx [inv_intros]:
  assumes "told p"
  shows "told (OKX_OnDepthMessage m c n clk p)" "told (OKX_OnBboMessage m c n clk p)"
    "told (OKX_OnCombinedMessage t m c n clk p)" "told (snd (OKX_OnReconnect fetched p))"
proof -
  have f: "told p \<Longrightarrow> told (p\<lparr>ok_last_depth_seq := l\<rparr>)" for p :: OKXProvider and l by (erule told_frame) simp_all
  show d: "told (OKX_OnDepthMessage m c n clk p)"
  proof (cases m)
    case (Some u)
    obtain ok q where a: "AcceptDepth (bu_seq u) c (sint (bu_prev_seq u) > 0 \<and> bu_seq u < bu_prev_seq u) (NoteDepthActivity (clk 0) (clk 1) p) = (ok, q)"
      by force
    then have "told q" using told_Accept(1)[OF told_Note(1)[OF assms]] by (metis snd_conv)
    then show ?thesis using a
      by (cases ok) (auto simp: Some OKX_OnDepthMessage_def Let_def split: prod.splits ContinuityAction.splits
            intro!: told_Emit told_RequestResync f)
  qed (simp add: OKX_OnDepthMessage_def assms)
  show b: "told (OKX_OnBboMessage m c n clk p)"
  proof (cases m)
    case (Some u)
    obtain ok q where a: "AcceptBbo (bu_seq u) c (NoteBboActivity (clk 0) (clk 1) p) = (ok, q)" by force
    then have "told q" using told_Accept(2)[OF told_Note(2)[OF assms]] by (metis snd_conv)
    then show ?thesis using a by (cases ok) (auto simp: Some OKX_OnBboMessage_def Let_def intro!: told_Emit)
  qed (simp add: OKX_OnBboMessage_def assms)
  show "told (OKX_OnCombinedMessage t m c n clk p)" using d b assms by (simp add: OKX_OnCombinedMessage_def split: option.split)
  show "told (snd (OKX_OnReconnect fetched p))" using assms
    by (auto simp: OKX_OnReconnect_def split: option.split elim: told_frame)
qed

section \<open>Executions of the Binance provider\<close>

text \<open>\<open>binance_idle\<close> is \<^verbatim>\<open>ioc.run()\<close> running out of work, \<open>binance_failed\<close> the handler of an exception in \<^verbatim>\<open>Run\<close>.\<close>

inductive binance_step :: "BinanceProvider \<Rightarrow> BinanceProvider \<Rightarrow> bool" where
  binance_message: "pv_io_running p \<Longrightarrow> binance_step p (Binance_OnCombinedMessage s m pu q c n clk p)"
| binance_fetched: "pv_io_running p \<Longrightarrow> binance_step p (OnSnapshotFetched snapshot n clk p)"
| binance_tick: "pv_io_running p \<Longrightarrow> binance_step p (snd (health_tick clk p))"
| binance_closed: "pv_io_running p \<Longrightarrow> binance_step p (OnCombinedSessionClosed Binance_OnReconnect p)"
| binance_resync: "binance_step p (RequestResync t d p)"
| binance_start: "binance_step p (Start p)"
| binance_stop: "binance_step p (Stop p)"
| binance_begin: "\<not> pv_io_running p \<Longrightarrow> binance_step p (snd (begin_run Binance_OnReconnect p))"
| binance_end: "binance_step p (snd (end_run p))"
| binance_idle: "binance_step p (p\<lparr>pv_io_running := False\<rparr>)"
| binance_failed: "binance_step p (snd (HandleReconnection p))"

inductive_cases binance_stepE: "binance_step p p'"

definition new_binance :: "VenueId \<Rightarrow> InstrumentKey \<Rightarrow> u32 \<Rightarrow> i64 \<Rightarrow> i64 \<Rightarrow> string \<Rightarrow> BinanceProvider" where
  "new_binance venue instrument connections depth_backstop bbo_backstop bbo_stream =
     \<lparr>pv_venue = venue, pv_instrument = instrument, pv_connections = connections, pv_depth_backstop_ns = depth_backstop,
      pv_bbo_backstop_ns = bbo_backstop, pv_running = False, pv_io_running = False, pv_depth_dedup = new_dedup, pv_bbo_dedup = new_dedup,
      pv_depth_live = 0, pv_bbo_live = 0, pv_last_depth_health = kNoData, pv_last_bbo_health = kNoData,
      pv_last_depth_message_mono_ns = 0, pv_last_bbo_message_mono_ns = 0, pv_reconnect_count = 0, pv_resync_requested = False,
      pv_has_callback = True, pv_has_quote_callback = True, pv_has_health_callback = True, pv_out = [],
      bn_sync_state = kSyncing, bn_snapshot_requested = False, bn_snapshot_attempts = 0, bn_pending = [], bn_last_depth_u = 0,
      bn_bbo_stream_name = bbo_stream\<rparr>"

text \<open>The bounds on buffering and refetching.\<close>

definition sync_ok :: "BinanceProvider \<Rightarrow> bool" where
  "sync_ok p \<longleftrightarrow> length (bn_pending p) \<le> kMaxPendingEvents \<and> bn_snapshot_attempts p \<le> kMaxSnapshotAttempts \<and>
     (\<not> bn_snapshot_requested p \<longrightarrow> bn_snapshot_attempts p = 0) \<and> (bn_sync_state p = kLiveSync \<longrightarrow> bn_pending p = [])"

lemma sync_ok_frame:
  assumes "sync_ok p" "bn_pending p' = bn_pending p" "bn_snapshot_attempts p' = bn_snapshot_attempts p"
    "bn_snapshot_requested p' = bn_snapshot_requested p" "bn_sync_state p' = bn_sync_state p"
  shows "sync_ok p'"
  using assms by (simp add: sync_ok_def)

lemma binance_fields_frame [provider_frame, simp]:
  fixes p :: BinanceProvider
  shows "bn_pending (PublishHealth s h t p) = bn_pending p" "bn_snapshot_attempts (PublishHealth s h t p) = bn_snapshot_attempts p"
    "bn_snapshot_requested (PublishHealth s h t p) = bn_snapshot_requested p" "bn_sync_state (PublishHealth s h t p) = bn_sync_state p"
    "bn_snapshot_attempts (NoteDepthActivity t d p) = bn_snapshot_attempts p"
    "bn_pending (NoteBboActivity t d p) = bn_pending p" "bn_snapshot_attempts (NoteBboActivity t d p) = bn_snapshot_attempts p"
    "bn_snapshot_requested (NoteBboActivity t d p) = bn_snapshot_requested p" "bn_sync_state (NoteBboActivity t d p) = bn_sync_state p"
    "bn_snapshot_attempts (Emit u t p) = bn_snapshot_attempts p" "bn_snapshot_requested (Emit u t p) = bn_snapshot_requested p"
    "bn_pending (RequestResync t d p) = bn_pending p" "bn_snapshot_attempts (RequestResync t d p) = bn_snapshot_attempts p"
    "bn_snapshot_requested (RequestResync t d p) = bn_snapshot_requested p" "bn_sync_state (RequestResync t d p) = bn_sync_state p"
  by (simp_all add: NoteDepthActivity_def NoteBboActivity_def PublishHealth_def Emit_def RequestResync_def Let_def)

lemma replay_pending_fields:
  "bn_pending (replay_pending clk k us p) = bn_pending p" "bn_snapshot_attempts (replay_pending clk k us p) = bn_snapshot_attempts p"
  "bn_snapshot_requested (replay_pending clk k us p) = bn_snapshot_requested p" "bn_sync_state (replay_pending clk k us p) = bn_sync_state p"
  by (induction clk k us p rule: replay_pending.induct) (simp_all add: Emit_def)

lemma told_replay: "told p \<Longrightarrow> told (replay_pending clk k us p)"
proof (induction clk k us p rule: replay_pending.induct)
  case (2 clk k u us p)
  have "told (p\<lparr>bn_last_depth_u := bu_seq u\<rparr>)" by (rule told_frame[OF 2(2)]) simp_all
  then show ?case using 2(1)[OF told_Emit(1)] by simp
qed simp

definition binance_ok :: "BinanceProvider \<Rightarrow> bool" where
  "binance_ok p \<longleftrightarrow> told p \<and> sync_ok p"

lemma told_pending:
  fixes p :: BinanceProvider
  assumes "told p"
  shows "told (p\<lparr>bn_pending := es\<rparr>)" "told (p\<lparr>bn_last_depth_u := l\<rparr>)" "told (p\<lparr>bn_pending := es, bn_sync_state := s\<rparr>)"
    "told (FetchSnapshotAsync p)" "told (snd (Binance_OnReconnect p))"
  by (rule told_frame[OF assms]; simp add: FetchSnapshotAsync_def Binance_OnReconnect_def)+

lemma told_ReconcileSnapshot [inv_intros]:
  assumes "told p"
  shows "told (snd (ReconcileSnapshot u n clk p))"
proof (cases "ReconcileBinanceSnapshot (bu_seq u) (bn_pending p)")
  case (Some first)
  let ?p = "replay_pending clk 1 (drop first (bn_pending p))
    ((Emit (u\<lparr>bu_recv_ts_ns := recv_stamp n\<rparr>) (clk 0) p)\<lparr>bn_last_depth_u := bu_seq u\<rparr>)"
  have t: "told ?p" by (intro told_replay told_pending told_Emit assms)
  show ?thesis
    using told_pending(3)[OF t, where es="[]" and s=kLiveSync]
      told_pending(3)[OF told_pending(2)[OF t, where l="bu_seq (last (bn_pending p))"], where es="[]" and s=kLiveSync] Some
    by (simp add: ReconcileSnapshot_def Let_def)
qed (simp add: ReconcileSnapshot_def Let_def assms)

lemma sync_ReconcileSnapshot:
  "ReconcileSnapshot u n clk p = (ok, p') \<Longrightarrow> sync_ok p \<Longrightarrow> sync_ok p' \<and> (\<not> ok \<longrightarrow> p' = p)"
  by (auto simp: ReconcileSnapshot_def sync_ok_def Let_def replay_pending_fields split: option.splits)

lemma sync_fetch: "sync_ok p \<Longrightarrow> bn_snapshot_attempts p < kMaxSnapshotAttempts \<Longrightarrow> sync_ok (FetchSnapshotAsync p)"
  by (simp add: sync_ok_def FetchSnapshotAsync_def)

lemma sync_resync: "sync_ok p \<Longrightarrow> sync_ok (RequestResync t d p)"
  by (erule sync_ok_frame) simp_all

lemma OnSnapshotFetched_ok [inv_intros]:
  assumes "binance_ok p"
  shows "binance_ok (OnSnapshotFetched fetched n clk p)"
proof (cases fetched)
  case None
  then show ?thesis using assms
    by (auto simp: binance_ok_def OnSnapshotFetched_def not_le intro: sync_fetch sync_resync told_RequestResync told_pending)
next
  case (Some u)
  obtain ok p' where r: "ReconcileSnapshot u n clk p = (ok, p')" by force
  have "told p'" "sync_ok p'" "\<not> ok \<longrightarrow> p' = p"
    using told_ReconcileSnapshot[of p u n clk] sync_ReconcileSnapshot[OF r] assms r by (auto simp: binance_ok_def)
  then show ?thesis using Some r
    by (cases ok) (auto simp: binance_ok_def OnSnapshotFetched_def not_le intro: sync_fetch sync_resync told_RequestResync told_pending)
qed

lemma Binance_OnDepthMessage_ok [inv_intros]:
  assumes "binance_ok p"
  shows "binance_ok (Binance_OnDepthMessage m pu c n clk p)"
proof (cases m)
  case (Some u)
  let ?u = "u\<lparr>bu_recv_ts_ns := recv_stamp n\<rparr>"
  obtain ok q where a: "AcceptDepth (bu_seq u) c False (NoteDepthActivity (clk 0) (clk 1) p) = (ok, q)" by force
  have t: "told q" using told_Accept(1)[OF told_Note(1)] assms a by (metis binance_ok_def snd_conv)
  have s: "sync_ok q"
    using a assms unfolding binance_ok_def
    by (elim conjE, elim sync_ok_frame) (auto simp: AcceptDepth_def split: prod.splits)
  show ?thesis
  proof (cases "ok \<and> bn_sync_state q = kSyncing")
    case True
    define r where "r = (if \<not> bn_snapshot_requested q then FetchSnapshotAsync q else q)"
    have tr: "told r" using t told_pending(4) by (simp add: r_def)
    have r: "sync_ok r" "bn_sync_state r = kSyncing"
      using s True by (auto simp: r_def sync_ok_def kMaxSnapshotAttempts_def FetchSnapshotAsync_def)
    have "Binance_OnDepthMessage m pu c n clk p =
        (if length (bn_pending r) \<ge> kMaxPendingEvents then RequestResync (clk 2) (clk 3) r else r\<lparr>bn_pending := bn_pending r @ [?u]\<rparr>)"
      using a True by (simp add: Some Binance_OnDepthMessage_def Let_def r_def)
    moreover have "told (r\<lparr>bn_pending := bn_pending r @ [?u]\<rparr>)" using tr by (rule told_pending(1))
    moreover have "length (bn_pending r) < kMaxPendingEvents \<Longrightarrow> sync_ok (r\<lparr>bn_pending := bn_pending r @ [?u]\<rparr>)"
      using r by (simp add: sync_ok_def)
    ultimately show ?thesis using r tr by (auto simp: binance_ok_def sync_resync told_RequestResync not_le)
  next
    case False
    obtain action l where c: "(if Market (pv_instrument q) = kFutures
        then (case pu of None \<Rightarrow> (kGap, bn_last_depth_u q) | Some pu \<Rightarrow> CheckBinanceFuturesContinuity pu (bu_seq ?u) (bn_last_depth_u q))
        else CheckBinanceSpotContinuity ?u (bn_last_depth_u q)) = (action, l)" by force
    let ?q = "q\<lparr>bn_last_depth_u := l\<rparr>"
    have "Binance_OnDepthMessage m pu c n clk p = (if \<not> ok then q
        else if action = kGap then RequestResync (clk 2) (clk 3) ?q else Emit ?u (clk 4) ?q)"
      using a c False by (cases ok) (simp_all add: Some Binance_OnDepthMessage_def Let_def)
    moreover have q: "told ?q" "sync_ok ?q" using told_pending(2)[OF t] sync_ok_frame[OF s, of ?q] by simp_all
    moreover have "sync_ok (Emit ?u (clk 4) ?q)" by (rule sync_ok_frame[OF q(2)]) simp_all
    ultimately show ?thesis using t s by (simp add: binance_ok_def sync_resync told_RequestResync told_Emit)
  qed
qed (simp add: Binance_OnDepthMessage_def assms)

lemma Binance_OnBboMessage_ok [inv_intros]:
  assumes "binance_ok p"
  shows "binance_ok (Binance_OnBboMessage m c n clk p)"
proof (cases m)
  case (Some u)
  obtain ok q where a: "AcceptBbo (q_seq u) c (NoteBboActivity (clk 0) (clk 1) p) = (ok, q)" by force
  have t: "told q" using told_Accept(2)[OF told_Note(2)] assms a by (metis binance_ok_def snd_conv)
  have s: "sync_ok q"
    using a assms unfolding binance_ok_def
    by (elim conjE, elim sync_ok_frame) (auto simp: AcceptBbo_def split: prod.splits)
  have "sync_ok (EmitQuote v w q)" for v w by (rule sync_ok_frame[OF s]) (simp_all add: EmitQuote_def)
  then show ?thesis using a t s by (cases ok) (auto simp: Some Binance_OnBboMessage_def Let_def binance_ok_def intro: told_Emit)
qed (simp add: Binance_OnBboMessage_def assms)

lemma binance_step_ok: "binance_step p p' \<Longrightarrow> binance_ok p \<Longrightarrow> binance_ok p'"
proof (induction rule: binance_step.induct)
  case (binance_message p s m pu q c n clk)
  then show ?case
    by (simp add: Binance_OnCombinedMessage_def Binance_OnDepthMessage_ok Binance_OnBboMessage_ok split: option.split)
next
  case (binance_tick p clk)
  moreover have "sync_ok p \<Longrightarrow> sync_ok (CheckHealth clk p)"
    by (erule sync_ok_frame) (simp_all add: CheckHealth_def Let_def)
  ultimately show ?case by (simp add: binance_ok_def health_tick_def Let_def told_CheckHealth)
next
  case (binance_closed p)
  have "sync_ok (OnCombinedSessionClosed Binance_OnReconnect p)"
    using binance_closed by (simp add: binance_ok_def OnCombinedSessionClosed_def Binance_OnReconnect_def sync_ok_def Let_def)
  then show ?case using binance_closed by (simp add: binance_ok_def told_closed told_pending)
next
  case (binance_begin p)
  have b: "sync_ok ((CreateCombinedSession ^^ k) q)" if "sync_ok q" for k and q :: BinanceProvider
    using that by (induction k) (auto simp: CreateCombinedSession_def elim: sync_ok_frame)
  have "sync_ok (snd (begin_run Binance_OnReconnect p))"
    by (auto simp: begin_run_def Binance_OnReconnect_def sync_ok_def intro!: b[unfolded sync_ok_def])
  then show ?case using binance_begin by (simp add: binance_ok_def told_begin_run told_pending)
next
  case (binance_end p)
  have "sync_ok p \<Longrightarrow> sync_ok (snd (end_run p))"
    by (erule sync_ok_frame) (simp_all add: end_run_def HandleReconnection_def Let_def)
  then show ?case using binance_end by (simp add: binance_ok_def told_lifecycle)
next
  case (binance_start p)
  have "sync_ok p \<Longrightarrow> sync_ok (Start p)" by (erule sync_ok_frame) (simp_all add: Start_def)
  then show ?case using binance_start by (simp add: binance_ok_def told_lifecycle)
next
  case (binance_stop p)
  have "sync_ok p \<Longrightarrow> sync_ok (Stop p)" by (erule sync_ok_frame) (simp_all add: Stop_def)
  then show ?case using binance_stop by (simp add: binance_ok_def told_lifecycle)
next
  case (binance_idle p)
  have "told p \<Longrightarrow> told (p\<lparr>pv_io_running := False\<rparr>)" by (erule told_frame) simp_all
  moreover have "sync_ok p \<Longrightarrow> sync_ok (p\<lparr>pv_io_running := False\<rparr>)" by (erule sync_ok_frame) simp_all
  ultimately show ?case using binance_idle by (simp add: binance_ok_def)
next
  case (binance_failed p)
  have "sync_ok p \<Longrightarrow> sync_ok (snd (HandleReconnection p))"
    by (erule sync_ok_frame) (simp_all add: HandleReconnection_def Let_def)
  then show ?case using binance_failed by (simp add: binance_ok_def told_lifecycle)
qed (auto simp: binance_ok_def intro: sync_resync told_RequestResync OnSnapshotFetched_ok[unfolded binance_ok_def, THEN conjunct1]
      OnSnapshotFetched_ok[unfolded binance_ok_def, THEN conjunct2])

definition binance_reachable :: "BinanceProvider \<Rightarrow> bool" where
  "binance_reachable p \<longleftrightarrow> (\<exists>v k n d b s. binance_step\<^sup>*\<^sup>* (new_binance v k n d b s) p)"

lemma new_binance_ok: "binance_ok (new_binance v k n d b s)"
  by (simp add: binance_ok_def told_def sync_ok_def new_binance_def)

lemma binance_reachable_ok: "binance_reachable p \<Longrightarrow> binance_ok p"
proof -
  assume "binance_reachable p"
  then obtain v k n d b s where "binance_step\<^sup>*\<^sup>* (new_binance v k n d b s) p" by (auto simp: binance_reachable_def)
  then show ?thesis by (induction rule: rtranclp_induct) (use new_binance_ok binance_step_ok in auto)
qed

lemma find_first_after:
  "find (\<lambda>e. s < bu_seq e) es = (if first_after s es < length es then Some (es ! first_after s es) else None)"
  by (induction es) (auto simp: first_after_def not_le)

lemma ReconcileSnapshot_accepts:
  "fst (ReconcileSnapshot snapshot now_ms clk p) \<longleftrightarrow>
     (case find (\<lambda>e. bu_seq snapshot < bu_seq e) (bn_pending p) of
        None \<Rightarrow> True | Some e \<Rightarrow> bu_prev_seq e \<le> bu_seq snapshot + 1)"
  using first_after_props(1)[of "bu_seq snapshot" "bn_pending p"]
  by (auto simp: ReconcileSnapshot_def ReconcileBinanceSnapshot_def find_first_after Let_def not_le split: option.splits)

text \<open>
  Nothing ties a snapshot to the connection that asked for it: one that comes in late, when the provider is already
  live, is joined onto the empty buffer whatever its age, and the stored number goes back to it.
\<close>

lemma late_snapshot_rewinds:
  assumes "bn_sync_state p = kLiveSync" "bn_pending p = []" "pv_has_callback p"
  shows "bn_last_depth_u (OnSnapshotFetched (Some snapshot) now_ms clk p) = bu_seq snapshot \<and>
    updates_of (pv_out (OnSnapshotFetched (Some snapshot) now_ms clk p)) = updates_of (pv_out p) @ [stamped now_ms (clk 0) snapshot]"
  using assms by (simp add: OnSnapshotFetched_def ReconcileSnapshot_def ReconcileBinanceSnapshot_def first_after_def Emit_def stamped_def Let_def)

end
