(* ===== verification/Decimal.thy ===== *)
theory Decimal
  imports Md_Types
begin

text \<open>
  Decimal text read into scaled integers (src/md_provider/decimal.h): prices and quantities reach the program as decimal
  strings and are kept as words scaled by a power of ten. \<open>digits_value\<close> is the number a digit string denotes; the
  lemmas say that the reader returns the exact value, scaled, truncated, and reduced modulo the word.
\<close>


section \<open>Decimal digits\<close>

definition is_digit :: "char \<Rightarrow> bool" where
  "is_digit c \<longleftrightarrow> 48 \<le> (of_char c :: nat) \<and> (of_char c :: nat) \<le> 57"

definition digit :: "char \<Rightarrow> nat" where
  "digit c = of_char c - 48"

definition digits_value :: "string \<Rightarrow> nat" where
  "digits_value cs = foldl (\<lambda>v c. v * 10 + digit c) 0 cs"

lemma foldl_digits: "foldl (\<lambda>v c. v * 10 + digit c) a cs = a * 10 ^ length cs + digits_value cs"
proof (induction cs arbitrary: a)
  case (Cons c cs)
  show ?case
    using Cons[of "a * 10 + digit c"] Cons[of "digit c"] by (simp add: digits_value_def algebra_simps)
qed (simp add: digits_value_def)

lemma digits_value_Nil [simp]: "digits_value [] = 0"
  by (simp add: digits_value_def)

lemma digits_value_append: "digits_value (xs @ ys) = digits_value xs * 10 ^ length ys + digits_value ys"
  using foldl_digits[of "digits_value xs" ys] by (simp add: digits_value_def)

lemma digits_value_Cons: "digits_value (c # cs) = digit c * 10 ^ length cs + digits_value cs"
  using digits_value_append[of "[c]" cs] by (simp add: digits_value_def)

lemma digit_less: "is_digit c \<Longrightarrow> digit c < 10"
  unfolding is_digit_def digit_def by linarith

lemma digits_value_less: "list_all is_digit cs \<Longrightarrow> digits_value cs < 10 ^ length cs"
proof (induction cs)
  case (Cons c cs)
  have "digit c * 10 ^ length cs + digits_value cs < (digit c + 1) * 10 ^ length cs" using Cons by (simp add: algebra_simps)
  also have "\<dots> \<le> 10 * 10 ^ length cs" using Cons.prems digit_less[of c] by (intro mult_right_mono) auto
  finally show ?case by (simp add: digits_value_Cons)
qed simp

lemma digits_value_take: "list_all is_digit cs \<Longrightarrow> digits_value (take n cs) = digits_value cs div 10 ^ (length cs - n)"
proof -
  assume d: "list_all is_digit cs"
  have "digits_value cs = digits_value (take n cs) * 10 ^ (length cs - n) + digits_value (drop n cs)"
    using digits_value_append[of "take n cs" "drop n cs"] by simp
  moreover have "digits_value (drop n cs) < 10 ^ (length cs - n)"
    using digits_value_less[of "drop n cs"] d by (simp add: list_all_length)
  ultimately show ?thesis by simp
qed

section \<open>Reading (md_provider/decimal.h)\<close>

definition kMultipliers :: "u64 list" where
  "kMultipliers = [1, 10, 100, 1000, 10000, 100000, 1000000, 10000000, 100000000]"

text \<open>\<^verbatim>\<open>static_cast<uint64_t>(c - '0')\<close> with a signed \<^verbatim>\<open>char\<close>.\<close>

definition char_digit :: "char \<Rightarrow> u64" where
  "char_digit c = word_of_int (sint (of_nat (of_char c) :: 8 word) - 48)"

fun scan_integer :: "u64 \<Rightarrow> string \<Rightarrow> u64 \<times> string option" where
  "scan_integer value [] = (value, None)"
| "scan_integer value (c # cs) = (if c = CHR ''.'' then (value, Some cs) else scan_integer (value * 10 + char_digit c) cs)"

definition ParseScaledDecimal :: "nat \<Rightarrow> string \<Rightarrow> u64" where
  "ParseScaledDecimal scale sv =
     (case scan_integer 0 sv of
        (value, None) \<Rightarrow> value * kMultipliers ! scale
      | (value, Some fractional) \<Rightarrow>
          (let digits_to_parse = min (length fractional) scale;
               value = foldl (\<lambda>value c. value * 10 + char_digit c) value (take digits_to_parse fractional)
           in value * kMultipliers ! (scale - digits_to_parse)))"

lemma char_digit: "is_digit c \<Longrightarrow> char_digit c = of_nat (digit c)"
proof -
  assume d: "is_digit c"
  then have c: "(of_char c :: nat) < 128" by (simp add: is_digit_def)
  have "sint (word_of_int (int (of_char c)) :: 8 word) = signed_take_bit 7 (int (of_char c))" by (subst sint_sbintrunc') simp
  also have "\<dots> = int (of_char c)" using c by (intro signed_take_bit_int_eq_self) auto
  finally have "sint (of_nat (of_char c) :: 8 word) = int (of_char c)" by simp
  then show ?thesis using d by (simp add: char_digit_def digit_def is_digit_def of_nat_diff)
qed

lemma kMultipliers_nth: "n \<le> 8 \<Longrightarrow> kMultipliers ! n = of_nat (10 ^ n)"
proof -
  assume "n \<le> 8"
  then have "n \<in> {0..8}" by simp
  then have "n = 0 \<or> n = 1 \<or> n = 2 \<or> n = 3 \<or> n = 4 \<or> n = 5 \<or> n = 6 \<or> n = 7 \<or> n = 8" by auto
  then show ?thesis by (elim disjE) (simp_all add: kMultipliers_def)
qed

lemma dot_no_digit: "\<not> is_digit (CHR ''.'')"
  by (simp add: is_digit_def)

lemma scan_digits:
  "list_all is_digit ip \<Longrightarrow> scan_integer (of_nat a) ip = (of_nat (a * 10 ^ length ip + digits_value ip), None)"
  "list_all is_digit ip \<Longrightarrow> scan_integer (of_nat a) (ip @ CHR ''.'' # fr) = (of_nat (a * 10 ^ length ip + digits_value ip), Some fr)"
proof (induction ip arbitrary: a)
  case (Cons c cs)
  { case 1
    then show ?case using Cons(1)[of "a * 10 + digit c"] dot_no_digit
      by (auto simp: char_digit digits_value_Cons algebra_simps) }
  { case 2
    then show ?case using Cons(2)[of "a * 10 + digit c"] dot_no_digit
      by (auto simp: char_digit digits_value_Cons algebra_simps) }
qed simp_all

lemma foldl_char_digit:
  "list_all is_digit cs \<Longrightarrow> foldl (\<lambda>v c. v * 10 + char_digit c) (of_nat a) cs = (of_nat (a * 10 ^ length cs + digits_value cs) :: u64)"
proof (induction cs arbitrary: a)
  case (Cons c cs)
  then show ?case using Cons.IH[of "a * 10 + digit c"] by (simp add: char_digit digits_value_Cons algebra_simps)
qed simp

text \<open>The exact value, scaled and truncated, modulo the word.\<close>

lemma parse_integer:
  assumes "list_all is_digit ip" "scale \<le> 8"
  shows "ParseScaledDecimal scale ip = of_nat (digits_value ip * 10 ^ scale)"
  using scan_digits(1)[OF assms(1), of 0] kMultipliers_nth[OF assms(2)] by (simp add: ParseScaledDecimal_def)

lemma parse_decimal:
  assumes "list_all is_digit ip" "list_all is_digit fr" "scale \<le> 8"
  shows "ParseScaledDecimal scale (ip @ CHR ''.'' # fr) = of_nat (digits_value (ip @ fr) * 10 ^ scale div 10 ^ length fr)"
proof -
  let ?n = "min (length fr) scale"
  have t: "list_all is_digit (take ?n fr)" using assms(2) by (simp add: list_all_length)
  have "ParseScaledDecimal scale (ip @ CHR ''.'' # fr) =
      of_nat ((digits_value ip * 10 ^ ?n + digits_value (take ?n fr)) * 10 ^ (scale - ?n))"
    using scan_digits(2)[OF assms(1), of 0 fr] foldl_char_digit[OF t, of "digits_value ip"] kMultipliers_nth[of "scale - ?n"] assms(3)
    by (simp add: ParseScaledDecimal_def Let_def)
  also have "digits_value ip * 10 ^ ?n + digits_value (take ?n fr) = digits_value (take (length ip + ?n) (ip @ fr))"
    by (simp add: digits_value_append)
  also have "\<dots> = digits_value (ip @ fr) div 10 ^ (length fr - ?n)"
    using digits_value_take[of "ip @ fr" "length ip + ?n"] assms(1,2) by simp
  also have "digits_value (ip @ fr) div 10 ^ (length fr - ?n) * 10 ^ (scale - ?n) = digits_value (ip @ fr) * 10 ^ scale div 10 ^ length fr"
  proof (cases "length fr \<le> scale")
    case True
    have "(10 :: nat) ^ scale = 10 ^ length fr * 10 ^ (scale - length fr)" using True by (simp flip: power_add)
    then show ?thesis using True by (simp add: mult.assoc mult.left_commute)
  next
    case False
    have "(10 :: nat) ^ length fr = 10 ^ (length fr - scale) * 10 ^ scale" using False by (simp flip: power_add)
    then show ?thesis using False by simp
  qed
  finally show ?thesis .
qed

section \<open>Printing integers\<close>

text \<open>
  The text is laid out by a formatting library. What the program relies on: an unsigned number prints as its decimal
  digits, padded with zeros to the width asked for. \<open>fmt w n\<close> is that output; width zero asks for no padding.
\<close>

definition prints_decimal :: "(nat \<Rightarrow> nat \<Rightarrow> string) \<Rightarrow> bool" where
  "prints_decimal fmt \<longleftrightarrow>
     (\<forall>w n. list_all is_digit (fmt w n) \<and> digits_value (fmt w n) = n \<and> fmt w n \<noteq> [] \<and> w \<le> length (fmt w n) \<and>
            (w > 0 \<and> n < 10 ^ w \<longrightarrow> length (fmt w n) = w))"

text \<open>A printer as the library documents it.\<close>

fun show_nat :: "nat \<Rightarrow> string" where
  "show_nat n = (if n < 10 then [char_of (48 + n)] else show_nat (n div 10) @ [char_of (48 + n mod 10)])"

declare show_nat.simps [simp del]

definition padded :: "nat \<Rightarrow> nat \<Rightarrow> string" where
  "padded w n = replicate (w - length (show_nat n)) (CHR ''0'') @ show_nat n"

lemma digit_char: "n < 10 \<Longrightarrow> is_digit (char_of (48 + n)) \<and> digit (char_of (48 + n)) = n"
  by (simp add: is_digit_def digit_def)

lemma show_nat_digits: "list_all is_digit (show_nat n) \<and> digits_value (show_nat n) = n \<and> show_nat n \<noteq> []"
proof (induction n rule: show_nat.induct)
  case (1 n)
  show ?case
  proof (cases "n < 10")
    case True
    then show ?thesis using digit_char[of n] by (subst (1 2 3) show_nat.simps) (simp add: digits_value_Cons)
  next
    case False
    then show ?thesis using 1 digit_char[of "n mod 10"]
      by (subst (1 2 3) show_nat.simps) (simp add: digits_value_append digits_value_Cons)
  qed
qed

lemma show_nat_length: "0 < w \<Longrightarrow> n < 10 ^ w \<Longrightarrow> length (show_nat n) \<le> w"
proof (induction w arbitrary: n)
  case (Suc w)
  show ?case
  proof (cases "n < 10")
    case True
    then show ?thesis by (simp add: show_nat.simps)
  next
    case False
    then have "w \<noteq> 0" using Suc.prems(2) by (cases w) auto
    moreover have "n div 10 < 10 ^ w" using Suc.prems(2) by (simp add: less_mult_imp_div_less mult.commute)
    ultimately show ?thesis using Suc.IH[of "n div 10"] False by (subst show_nat.simps) simp
  qed
qed simp

lemma padded_prints: "prints_decimal padded"
proof -
  have z: "is_digit (CHR ''0'')" "digits_value (replicate k (CHR ''0'')) = 0" for k
    by (simp add: is_digit_def) (induction k; simp add: digits_value_Cons digit_def)
  show ?thesis unfolding prints_decimal_def padded_def
    using show_nat_digits show_nat_length z by (auto simp: digits_value_append list_all_iff)
qed

end
