(* ===== verification/Message_Parsers.thy ===== *)
theory Message_Parsers
  imports Venue_Providers Decimal
begin

text \<open>
  The message parsers (md_provider/bybit/bybit_parser.cpp, okx/okx_parser.cpp, binance/binance_parser.cpp): which fields a
  message's update is made of, how its levels are read, which messages are refused, and what the handlers of
  \<open>Venue_Providers\<close> make of the text of a message. Documents are walked with simdjson, which is not part of the program:
  its readers are the record \<open>OnDemand\<close>, an argument of every parser. The lemmas say that levels are read exactly, that
  an unreadable level refuses its whole message, that a provider's output carries its own venue and instrument, and that
  an OKX futures provider knows its contract size before its first message.
\<close>


section \<open>The document reader\<close>

text \<open>
  What the parsers ask of simdjson's on-demand documents: \<open>od_iterate\<close> opens the text (\<open>None\<close> for an exception),
  \<open>od_field\<close> is \<^verbatim>\<open>operator[]\<close> on a document, an object or a value, \<open>od_array\<close> the values a loop over an array meets, one that
  is an error as \<open>None\<close>, and \<open>od_pair\<close> what the first two elements of a level read as strings. \<open>None\<close> is an error result.
\<close>

record 'v OnDemand =
  od_iterate :: "string \<Rightarrow> 'v option"
  od_field :: "'v \<Rightarrow> string \<Rightarrow> 'v option"
  od_object :: "'v \<Rightarrow> 'v option"
  od_array :: "'v \<Rightarrow> 'v option list option"
  od_pair :: "'v \<Rightarrow> string option \<times> string option"
  od_string :: "'v \<Rightarrow> string option"
  od_int64 :: "'v \<Rightarrow> i64 option"
  od_uint64 :: "'v \<Rightarrow> u64 option"
  od_raw_json :: "'v \<Rightarrow> string option"

text \<open>\<^verbatim>\<open>node[key].get_...()\<close>: an error of either call is the error of the result, and so is one carried by the node.\<close>

definition get_field :: "'v OnDemand \<Rightarrow> 'v option \<Rightarrow> string \<Rightarrow> 'v option" where
  "get_field J node key = Option.bind node (\<lambda>v. od_field J v key)"

definition get_string :: "'v OnDemand \<Rightarrow> 'v option \<Rightarrow> string \<Rightarrow> string option" where
  "get_string J node key = Option.bind (get_field J node key) (od_string J)"

definition get_int64 :: "'v OnDemand \<Rightarrow> 'v option \<Rightarrow> string \<Rightarrow> i64 option" where
  "get_int64 J node key = Option.bind (get_field J node key) (od_int64 J)"

definition get_uint64 :: "'v OnDemand \<Rightarrow> 'v option \<Rightarrow> string \<Rightarrow> u64 option" where
  "get_uint64 J node key = Option.bind (get_field J node key) (od_uint64 J)"

definition get_array :: "'v OnDemand \<Rightarrow> 'v option \<Rightarrow> string \<Rightarrow> 'v option list option" where
  "get_array J node key = Option.bind (get_field J node key) (od_array J)"

definition value_or :: "'a \<Rightarrow> 'a option \<Rightarrow> 'a" where
  "value_or d r = (case r of None \<Rightarrow> d | Some x \<Rightarrow> x)"

section \<open>Levels\<close>

definition kBinanceScale :: nat where "kBinanceScale = 8"
definition kBybitScale :: nat where "kBybitScale = 8"
definition kOkxScale :: nat where "kOkxScale = 8"
definition kOkxTsScale :: nat where "kOkxTsScale = 0"

text \<open>
  The loop of each \<^verbatim>\<open>AppendLevels\<close>; \<open>make_level\<close> is what its body makes of the two texts. An unreadable text throws, and
  the exception leaves the whole parse: \<open>None\<close>.
\<close>

definition level_texts :: "'v OnDemand \<Rightarrow> 'v option \<Rightarrow> (string \<times> string) option" where
  "level_texts J level =
     (case level of
        None \<Rightarrow> None
      | Some v \<Rightarrow> (case od_pair J v of (Some price_sv, Some qty_sv) \<Rightarrow> Some (price_sv, qty_sv) | _ \<Rightarrow> None))"

fun append_levels ::
  "'v OnDemand \<Rightarrow> (string \<Rightarrow> string \<Rightarrow> PriceLevel) \<Rightarrow> 'v option list \<Rightarrow> PriceLevel list \<Rightarrow> PriceLevel list option" where
  "append_levels J make_level [] out = Some out"
| "append_levels J make_level (level # levels) out =
     (case level_texts J level of
        None \<Rightarrow> None
      | Some (price_sv, qty_sv) \<Rightarrow> append_levels J make_level levels (out @ [make_level price_sv qty_sv]))"

definition Binance_AppendLevels :: "'v OnDemand \<Rightarrow> 'v option list \<Rightarrow> PriceLevel list \<Rightarrow> PriceLevel list option" where
  "Binance_AppendLevels J = append_levels J (\<lambda>price_sv qty_sv.
     \<lparr>price = ParseScaledDecimal kBinanceScale price_sv, qty = ParseScaledDecimal kBinanceScale qty_sv\<rparr>)"

definition Bybit_AppendLevels :: "'v OnDemand \<Rightarrow> 'v option list \<Rightarrow> PriceLevel list \<Rightarrow> PriceLevel list option" where
  "Bybit_AppendLevels J = append_levels J (\<lambda>price_sv qty_sv.
     \<lparr>price = ParseScaledDecimal kBybitScale price_sv, qty = ParseScaledDecimal kBybitScale qty_sv\<rparr>)"

text \<open>The product is formed in 128 bits.\<close>

definition contracts_to_base :: "QtyUnits \<Rightarrow> QtyUnits \<Rightarrow> QtyUnits" where
  "contracts_to_base contract_size raw_qty =
     (if contract_size \<noteq> kScaleFactor
      then ucast ((ucast raw_qty :: Notional) * ucast contract_size div ucast kScaleFactor) else raw_qty)"

definition OKX_AppendLevels :: "'v OnDemand \<Rightarrow> QtyUnits \<Rightarrow> 'v option list \<Rightarrow> PriceLevel list \<Rightarrow> PriceLevel list option" where
  "OKX_AppendLevels J contract_size = append_levels J (\<lambda>price_sv qty_sv.
     \<lparr>price = ParseScaledDecimal kOkxScale price_sv,
      qty = contracts_to_base contract_size (ParseScaledDecimal kOkxScale qty_sv)\<rparr>)"

text \<open>\<^verbatim>\<open>if (!result.error()) AppendLevels(...)\<close>: a side that is not an array adds nothing.\<close>

definition read_side ::
  "('v option list \<Rightarrow> PriceLevel list \<Rightarrow> PriceLevel list option) \<Rightarrow> 'v option list option \<Rightarrow> PriceLevel list option" where
  "read_side append_to result = (case result of None \<Rightarrow> Some [] | Some levels \<Rightarrow> append_to levels [])"

definition with_sides :: "BookUpdate \<Rightarrow> PriceLevel list option \<Rightarrow> PriceLevel list option \<Rightarrow> BookUpdate option" where
  "with_sides update bids asks =
     (case (bids, asks) of (Some b, Some a) \<Rightarrow> Some (update\<lparr>bu_bids := b, bu_asks := a\<rparr>) | _ \<Rightarrow> None)"

text \<open>The constructor of \<^verbatim>\<open>BookUpdate\<close>, its last two arguments defaulted to false and 0 by the callers that give none.\<close>

definition new_update :: "VenueId \<Rightarrow> InstrumentKey \<Rightarrow> bool \<Rightarrow> u64 \<Rightarrow> BookUpdate" where
  "new_update venue instrument is_snapshot seq =
     \<lparr>bu_venue = venue, bu_instrument = instrument, bu_seq = seq, bu_prev_seq = 0, bu_recv_ts_ns = 0, bu_exch_ts_ns = 0,
      bu_recv_mono_ns = 0, bu_is_snapshot = is_snapshot, bu_bids = [], bu_asks = []\<rparr>"

definition ms_to_ns :: "64 word \<Rightarrow> i64" where
  "ms_to_ns ts = ts * word_of_int kTsNsMultiplier"

section \<open>Bybit (bybit_parser.cpp)\<close>

definition ParseOrderbookMessage :: "'v OnDemand \<Rightarrow> string \<Rightarrow> VenueId \<Rightarrow> InstrumentKey \<Rightarrow> BookUpdate option" where
  "ParseOrderbookMessage J message venue instrument =
     (case od_iterate J message of
        None \<Rightarrow> None
      | Some doc \<Rightarrow>
          if get_string J (Some doc) ''topic'' = None then None
          else let is_snapshot = (get_string J (Some doc) ''type'' = Some ''snapshot'');
                   exch_ts_ns = (case get_int64 J (Some doc) ''ts'' of None \<Rightarrow> 0 | Some ts \<Rightarrow> ms_to_ns ts)
               in case Option.bind (get_field J (Some doc) ''data'') (od_object J) of
                    None \<Rightarrow> None
                  | Some data \<Rightarrow>
                      let seq = value_or 0 (get_uint64 J (Some data) ''u'');
                          update = (new_update venue instrument is_snapshot 0)
                            \<lparr>bu_exch_ts_ns := exch_ts_ns, bu_seq := seq, bu_is_snapshot := is_snapshot \<or> seq = 1\<rparr>
                      in with_sides update
                           (read_side (Bybit_AppendLevels J) (get_array J (Some data) ''b''))
                           (read_side (Bybit_AppendLevels J) (get_array J (Some data) ''a'')))"

definition PeekTopic :: "'v OnDemand \<Rightarrow> string \<Rightarrow> string option" where
  "PeekTopic J message = get_string J (od_iterate J message) ''topic''"

section \<open>OKX (okx_parser.cpp)\<close>

text \<open>The loop over \<^verbatim>\<open>data\<close> returns in its first turn. The entry may be an error: then every read of it is one.\<close>

definition read_entry_ts :: "'v OnDemand \<Rightarrow> 'v option \<Rightarrow> i64" where
  "read_entry_ts J entry =
     (case get_string J entry ''ts'' of None \<Rightarrow> 0 | Some ts \<Rightarrow> ms_to_ns (ParseScaledDecimal kOkxTsScale ts))"

definition OKX_sides :: "'v OnDemand \<Rightarrow> QtyUnits \<Rightarrow> 'v option \<Rightarrow> BookUpdate \<Rightarrow> BookUpdate option" where
  "OKX_sides J contract_size entry update =
     with_sides update
       (read_side (OKX_AppendLevels J contract_size) (get_array J entry ''bids''))
       (read_side (OKX_AppendLevels J contract_size) (get_array J entry ''asks''))"

definition ParseBooksMessage ::
  "'v OnDemand \<Rightarrow> QtyUnits \<Rightarrow> string \<Rightarrow> VenueId \<Rightarrow> InstrumentKey \<Rightarrow> BookUpdate option" where
  "ParseBooksMessage J contract_size message venue instrument =
     (case od_iterate J message of
        None \<Rightarrow> None
      | Some doc \<Rightarrow>
          (case get_string J (Some doc) ''action'' of
             None \<Rightarrow> None
           | Some action \<Rightarrow>
               (case get_array J (Some doc) ''data'' of
                  None \<Rightarrow> None
                | Some [] \<Rightarrow> None
                | Some (entry # _) \<Rightarrow>
                    OKX_sides J contract_size entry
                      ((new_update venue instrument (action = ''snapshot'') 0)
                         \<lparr>bu_exch_ts_ns := read_entry_ts J entry,
                          bu_prev_seq := value_or 0 (get_int64 J entry ''prevSeqId''),
                          bu_seq := value_or 0 (get_int64 J entry ''seqId'')\<rparr>))))"

definition OKX_ParseBboMessage ::
  "'v OnDemand \<Rightarrow> QtyUnits \<Rightarrow> string \<Rightarrow> VenueId \<Rightarrow> InstrumentKey \<Rightarrow> BookUpdate option" where
  "OKX_ParseBboMessage J contract_size message venue instrument =
     (case od_iterate J message of
        None \<Rightarrow> None
      | Some doc \<Rightarrow>
          (case get_array J (Some doc) ''data'' of
             None \<Rightarrow> None
           | Some [] \<Rightarrow> None
           | Some (entry # _) \<Rightarrow>
               OKX_sides J contract_size entry
                 ((new_update venue instrument True 0)
                    \<lparr>bu_exch_ts_ns := read_entry_ts J entry, bu_seq := value_or 0 (get_int64 J entry ''seqId'')\<rparr>)))"

definition PeekChannel :: "'v OnDemand \<Rightarrow> string \<Rightarrow> string option" where
  "PeekChannel J message = get_string J (get_field J (od_iterate J message) ''arg'') ''channel''"

text \<open>The loop over the instruments of a REST response.\<close>

fun find_contract :: "'v OnDemand \<Rightarrow> string \<Rightarrow> 'v option list \<Rightarrow> QtyUnits option" where
  "find_contract J inst_id [] = None"
| "find_contract J inst_id (entry # entries) =
     (if get_string J entry ''instId'' \<noteq> Some inst_id then find_contract J inst_id entries
      else if get_string J entry ''ctType'' \<noteq> Some ''linear'' then None
      else case get_string J entry ''ctMult'' of
             None \<Rightarrow> None
           | Some ct_mult \<Rightarrow>
               if ParseScaledDecimal kOkxScale ct_mult \<noteq> kScaleFactor then None
               else case get_string J entry ''ctVal'' of
                      None \<Rightarrow> None
                    | Some ct_val \<Rightarrow>
                        let contract_size = ParseScaledDecimal kOkxScale ct_val
                        in if contract_size = 0 then None else Some contract_size)"

definition ParseOkxContractSize :: "'v OnDemand \<Rightarrow> string \<Rightarrow> string \<Rightarrow> QtyUnits option" where
  "ParseOkxContractSize J body inst_id =
     (case od_iterate J body of
        None \<Rightarrow> None
      | Some doc \<Rightarrow>
          if get_string J (Some doc) ''code'' \<noteq> Some ''0'' then None
          else case get_array J (Some doc) ''data'' of None \<Rightarrow> None | Some entries \<Rightarrow> find_contract J inst_id entries)"

section \<open>Binance (binance_parser.cpp)\<close>

text \<open>The parser's own state is \<^verbatim>\<open>last_chain_seq_\<close>, set before the levels are read.\<close>

definition ParseDepthMessage ::
  "'v OnDemand \<Rightarrow> string \<Rightarrow> VenueId \<Rightarrow> InstrumentKey \<Rightarrow> u64 option \<Rightarrow> BookUpdate option \<times> u64 option" where
  "ParseDepthMessage J message venue instrument last_chain_seq =
     (case od_iterate J message of
        None \<Rightarrow> (None, last_chain_seq)
      | Some doc \<Rightarrow>
          if get_string J (Some doc) ''e'' \<noteq> Some ''depthUpdate'' then (None, last_chain_seq)
          else let update = (new_update venue instrument False 0)
                     \<lparr>bu_exch_ts_ns := (case get_int64 J (Some doc) ''E'' of None \<Rightarrow> 0 | Some ts \<Rightarrow> ms_to_ns ts),
                      bu_prev_seq := value_or 0 (get_uint64 J (Some doc) ''U''),
                      bu_seq := value_or 0 (get_uint64 J (Some doc) ''u'')\<rparr>
               in (with_sides update
                     (read_side (Binance_AppendLevels J) (get_array J (Some doc) ''b''))
                     (read_side (Binance_AppendLevels J) (get_array J (Some doc) ''a'')),
                   get_uint64 J (Some doc) ''pu''))"

definition ParseDepthSnapshot :: "'v OnDemand \<Rightarrow> string \<Rightarrow> VenueId \<Rightarrow> InstrumentKey \<Rightarrow> BookUpdate option" where
  "ParseDepthSnapshot J body venue instrument =
     (case od_iterate J body of
        None \<Rightarrow> None
      | Some doc \<Rightarrow>
          (case get_uint64 J (Some doc) ''lastUpdateId'' of
             None \<Rightarrow> None
           | Some last_update_id \<Rightarrow>
               with_sides (new_update venue instrument True last_update_id)
                 (read_side (Binance_AppendLevels J) (get_array J (Some doc) ''bids''))
                 (read_side (Binance_AppendLevels J) (get_array J (Some doc) ''asks''))))"

definition Binance_ParseBboMessage :: "'v OnDemand \<Rightarrow> string \<Rightarrow> VenueId \<Rightarrow> InstrumentKey \<Rightarrow> BboQuote option" where
  "Binance_ParseBboMessage J message venue instrument =
     (case od_iterate J message of
        None \<Rightarrow> None
      | Some doc \<Rightarrow>
          (case get_uint64 J (Some doc) ''u'' of
             None \<Rightarrow> None
           | Some update_id \<Rightarrow>
               (case (get_string J (Some doc) ''b'', get_string J (Some doc) ''B'',
                      get_string J (Some doc) ''a'', get_string J (Some doc) ''A'') of
                  (Some bid_price, Some bid_qty, Some ask_price, Some ask_qty) \<Rightarrow>
                    Some (empty_quote\<lparr>q_venue := venue, q_instrument := instrument, q_seq := update_id,
                      q_bid_price := ParseScaledDecimal kBinanceScale bid_price,
                      q_bid_qty := ParseScaledDecimal kBinanceScale bid_qty,
                      q_ask_price := ParseScaledDecimal kBinanceScale ask_price,
                      q_ask_qty := ParseScaledDecimal kBinanceScale ask_qty\<rparr>)
                | _ \<Rightarrow> None)))"

definition UnwrapCombinedMessage :: "'v OnDemand \<Rightarrow> string \<Rightarrow> (string \<times> string) option" where
  "UnwrapCombinedMessage J message =
     (case od_iterate J message of
        None \<Rightarrow> None
      | Some doc \<Rightarrow>
          (case get_string J (Some doc) ''stream'' of
             None \<Rightarrow> None
           | Some stream \<Rightarrow>
               (case Option.bind (get_field J (Some doc) ''data'') (od_raw_json J) of
                  None \<Rightarrow> None
                | Some data \<Rightarrow> Some (stream, data))))"


section \<open>From a message to the provider\<close>

text \<open>
  \<^verbatim>\<open>OnCombinedMessage\<close> of each venue on the text of a message: the peek, the parse the channel calls for, the handler. The
  Binance parser carries \<^verbatim>\<open>last_chain_seq_\<close> from one message to the next.
\<close>

definition Bybit_OnRaw :: "'v OnDemand \<Rightarrow> string \<Rightarrow> u32 \<Rightarrow> int \<Rightarrow> (nat \<Rightarrow> i64) \<Rightarrow> BybitProvider \<Rightarrow> BybitProvider" where
  "Bybit_OnRaw J message conn_index now_ms clk p =
     Bybit_OnCombinedMessage (PeekTopic J message) (ParseOrderbookMessage J message (pv_venue p) (pv_instrument p))
       conn_index now_ms clk p"

definition OKX_OnRaw :: "'v OnDemand \<Rightarrow> string \<Rightarrow> u32 \<Rightarrow> int \<Rightarrow> (nat \<Rightarrow> i64) \<Rightarrow> OKXProvider \<Rightarrow> OKXProvider" where
  "OKX_OnRaw J message conn_index now_ms clk p =
     (let channel = PeekChannel J message;
          parsed = (if channel = Some ''bbo-tbt''
                    then OKX_ParseBboMessage J (ok_contract_size p) message (pv_venue p) (pv_instrument p)
                    else ParseBooksMessage J (ok_contract_size p) message (pv_venue p) (pv_instrument p))
      in OKX_OnCombinedMessage channel parsed conn_index now_ms clk p)"

definition Binance_OnRaw ::
  "'v OnDemand \<Rightarrow> string \<Rightarrow> u32 \<Rightarrow> int \<Rightarrow> (nat \<Rightarrow> i64) \<Rightarrow> BinanceProvider \<times> u64 option \<Rightarrow> BinanceProvider \<times> u64 option" where
  "Binance_OnRaw J message conn_index now_ms clk s =
     (case s of (p, last_chain_seq) \<Rightarrow>
       (case UnwrapCombinedMessage J message of
          None \<Rightarrow> (p, last_chain_seq)
        | Some (stream, data) \<Rightarrow>
            if stream = bn_bbo_stream_name p
            then (Binance_OnCombinedMessage (Some stream) None None
                    (Binance_ParseBboMessage J data (pv_venue p) (pv_instrument p)) conn_index now_ms clk p, last_chain_seq)
            else (case ParseDepthMessage J data (pv_venue p) (pv_instrument p) last_chain_seq of
                    (parsed, chain_seq) \<Rightarrow>
                      (Binance_OnCombinedMessage (Some stream) parsed chain_seq None conn_index now_ms clk p, chain_seq))))"

text \<open>A REST body, if the request yielded one: the depth snapshot, and the contract size \<^verbatim>\<open>OnReconnect\<close> asks for.\<close>

definition fetch_snapshot :: "'v OnDemand \<Rightarrow> string option \<Rightarrow> 'a Provider_scheme \<Rightarrow> BookUpdate option" where
  "fetch_snapshot J body p = Option.bind body (\<lambda>b. ParseDepthSnapshot J b (pv_venue p) (pv_instrument p))"

definition fetch_contract_size :: "'v OnDemand \<Rightarrow> string option \<Rightarrow> 'a Provider_scheme \<Rightarrow> QtyUnits option" where
  "fetch_contract_size J body p = Option.bind body (\<lambda>b. ParseOkxContractSize J b (ToOkxInstId (pv_instrument p)))"

text \<open>
  The life of a provider: \<open>H\<close> is what one of its handlers may do to it while the io_context runs, \<open>K\<close> the hooks
  \<^verbatim>\<open>OnReconnect\<close> may be, one for each answer of the network.
\<close>

inductive provider_step ::
  "('a Provider_scheme \<Rightarrow> 'a Provider_scheme \<Rightarrow> bool) \<Rightarrow> ('a Provider_scheme \<Rightarrow> bool \<times> 'a Provider_scheme) set \<Rightarrow>
   'a Provider_scheme \<Rightarrow> 'a Provider_scheme \<Rightarrow> bool" for H K where
  ps_handler: "pv_io_running p \<Longrightarrow> H p p' \<Longrightarrow> provider_step H K p p'"
| ps_tick: "pv_io_running p \<Longrightarrow> provider_step H K p (snd (health_tick clk p))"
| ps_closed: "pv_io_running p \<Longrightarrow> hook \<in> K \<Longrightarrow> provider_step H K p (OnCombinedSessionClosed hook p)"
| ps_idle: "provider_step H K p (p\<lparr>pv_io_running := False\<rparr>)"
| ps_start: "provider_step H K p (Start p)"
| ps_stop: "provider_step H K p (Stop p)"
| ps_begin: "\<not> pv_io_running p \<Longrightarrow> hook \<in> K \<Longrightarrow> provider_step H K p (snd (begin_run hook p))"
| ps_end: "\<not> pv_io_running p \<Longrightarrow> provider_step H K p (snd (end_run p))"
| ps_failed: "\<not> pv_io_running p \<Longrightarrow> provider_step H K p (snd (HandleReconnection p))"

definition bybit_run_step :: "'v OnDemand \<Rightarrow> BybitProvider \<Rightarrow> BybitProvider \<Rightarrow> bool" where
  "bybit_run_step J = provider_step (\<lambda>p p'. \<exists>m c n clk. p' = Bybit_OnRaw J m c n clk p) {\<lambda>p. (True, p)}"

definition okx_run_step :: "'v OnDemand \<Rightarrow> OKXProvider \<Rightarrow> OKXProvider \<Rightarrow> bool" where
  "okx_run_step J = provider_step (\<lambda>p p'. \<exists>m c n clk. p' = OKX_OnRaw J m c n clk p)
     {\<lambda>p. OKX_OnReconnect (fetch_contract_size J body p) p | body. True}"

definition binance_run_step :: "'v OnDemand \<Rightarrow> BinanceProvider \<Rightarrow> BinanceProvider \<Rightarrow> bool" where
  "binance_run_step J = provider_step
     (\<lambda>p p'. (\<exists>m c n clk chain_seq. p' = fst (Binance_OnRaw J m c n clk (p, chain_seq))) \<or>
             (\<exists>body n clk. p' = OnSnapshotFetched (fetch_snapshot J body p) n clk p))
     {Binance_OnReconnect}"

definition new_bybit :: "VenueId \<Rightarrow> InstrumentKey \<Rightarrow> u32 \<Rightarrow> i64 \<Rightarrow> i64 \<Rightarrow> string \<Rightarrow> string \<Rightarrow> BybitProvider" where
  "new_bybit venue instrument connections depth_backstop bbo_backstop depth_topic bbo_topic =
     \<lparr>pv_venue = venue, pv_instrument = instrument, pv_connections = connections, pv_depth_backstop_ns = depth_backstop,
      pv_bbo_backstop_ns = bbo_backstop, pv_running = False, pv_io_running = False, pv_depth_dedup = new_dedup, pv_bbo_dedup = new_dedup,
      pv_depth_live = 0, pv_bbo_live = 0, pv_last_depth_health = kNoData, pv_last_bbo_health = kNoData,
      pv_last_depth_message_mono_ns = 0, pv_last_bbo_message_mono_ns = 0, pv_reconnect_count = 0, pv_resync_requested = False,
      pv_has_callback = True, pv_has_quote_callback = True, pv_has_health_callback = True, pv_out = [],
      by_last_depth_u = 0, by_depth_topic = depth_topic, by_bbo_topic = bbo_topic\<rparr>"

definition new_okx :: "VenueId \<Rightarrow> InstrumentKey \<Rightarrow> u32 \<Rightarrow> i64 \<Rightarrow> i64 \<Rightarrow> OKXProvider" where
  "new_okx venue instrument connections depth_backstop bbo_backstop =
     \<lparr>pv_venue = venue, pv_instrument = instrument, pv_connections = connections, pv_depth_backstop_ns = depth_backstop,
      pv_bbo_backstop_ns = bbo_backstop, pv_running = False, pv_io_running = False, pv_depth_dedup = new_dedup, pv_bbo_dedup = new_dedup,
      pv_depth_live = 0, pv_bbo_live = 0, pv_last_depth_health = kNoData, pv_last_bbo_health = kNoData,
      pv_last_depth_message_mono_ns = 0, pv_last_bbo_message_mono_ns = 0, pv_reconnect_count = 0, pv_resync_requested = False,
      pv_has_callback = True, pv_has_quote_callback = True, pv_has_health_callback = True, pv_out = [],
      ok_last_depth_seq = 0, ok_contract_size = kScaleFactor, ok_contract_size_resolved = False\<rparr>"

section \<open>Levels are read exactly, or the message is refused\<close>

definition readable :: "'v OnDemand \<Rightarrow> 'v option list \<Rightarrow> bool" where
  "readable J levels \<longleftrightarrow> (\<forall>l \<in> set levels. level_texts J l \<noteq> None)"

lemma readable_Cons: "readable J (l # ls) \<longleftrightarrow> level_texts J l \<noteq> None \<and> readable J ls"
  by (simp add: readable_def)

lemma append_levels_spec:
  "append_levels J f levels out =
     (if readable J levels then Some (out @ map (\<lambda>l. case_prod f (the (level_texts J l))) levels) else None)"
  by (induction levels arbitrary: out) (auto simp: readable_Cons readable_def[of J "[]"] split: option.splits)

lemma read_side_spec:
  "read_side (append_levels J f) result =
     (case result of
        None \<Rightarrow> Some []
      | Some levels \<Rightarrow> if readable J levels then Some (map (\<lambda>l. case_prod f (the (level_texts J l))) levels) else None)"
  by (simp add: read_side_def append_levels_spec split: option.split)

lemmas append_defs = Binance_AppendLevels_def Bybit_AppendLevels_def OKX_AppendLevels_def

definition unreadable :: "'v OnDemand \<Rightarrow> 'v option list option \<Rightarrow> bool" where
  "unreadable J side \<longleftrightarrow> (case side of None \<Rightarrow> False | Some levels \<Rightarrow> \<not> readable J levels)"

lemma read_side_unreadable: "read_side (append_levels J f) side = None \<longleftrightarrow> unreadable J side"
  by (simp add: read_side_spec unreadable_def split: option.split)

lemma with_sides_None: "with_sides u b a = None \<longleftrightarrow> b = None \<or> a = None"
  by (auto simp: with_sides_def split: option.split)

lemma with_sides_SomeD:
  "with_sides u b a = Some v \<Longrightarrow> \<exists>bids asks. b = Some bids \<and> a = Some asks \<and> v = u\<lparr>bu_bids := bids, bu_asks := asks\<rparr>"
  by (auto simp: with_sides_def split: option.splits)

text \<open>The number a decimal text denotes, in units of \<open>10\<^sup>-\<^sup>8\<close>, truncated.\<close>

definition whole_part :: "string \<Rightarrow> string" where "whole_part sv = takeWhile (\<lambda>c. c \<noteq> CHR ''.'') sv"
definition fraction_part :: "string \<Rightarrow> string" where "fraction_part sv = drop (Suc (length (whole_part sv))) sv"

definition is_decimal :: "string \<Rightarrow> bool" where
  "is_decimal sv \<longleftrightarrow> list_all is_digit (whole_part sv) \<and> list_all is_digit (fraction_part sv)"

definition decimal_units :: "string \<Rightarrow> nat" where
  "decimal_units sv = digits_value (whole_part sv @ fraction_part sv) * 10 ^ 8 div 10 ^ length (fraction_part sv)"

lemma decimal_cases: "sv = whole_part sv \<and> fraction_part sv = [] \<or> sv = whole_part sv @ CHR ''.'' # fraction_part sv"
proof (cases "dropWhile (\<lambda>c. c \<noteq> CHR ''.'') sv")
  case Nil
  then have "whole_part sv = sv" by (simp add: whole_part_def dropWhile_eq_Nil_conv takeWhile_eq_all_conv)
  then show ?thesis by (simp add: fraction_part_def)
next
  case (Cons c cs)
  then have "c = CHR ''.''" using hd_dropWhile[of "\<lambda>c. c \<noteq> CHR ''.''" sv] by simp
  moreover have "sv = whole_part sv @ c # cs"
    using takeWhile_dropWhile_id[of "\<lambda>c. c \<noteq> CHR ''.''" sv] Cons by (simp add: whole_part_def)
  moreover from this have "fraction_part sv = cs"
    by (metis append_eq_conv_conj drop_Suc drop_append fraction_part_def list.sel(3) tl_drop)
  ultimately show ?thesis by simp
qed

lemma ParseScaledDecimal_units: "is_decimal sv \<Longrightarrow> ParseScaledDecimal 8 sv = of_nat (decimal_units sv)"
proof -
  assume d: "is_decimal sv"
  from decimal_cases[of sv] show ?thesis
  proof
    assume e: "sv = whole_part sv \<and> fraction_part sv = []"
    have "ParseScaledDecimal 8 (whole_part sv) = of_nat (digits_value (whole_part sv) * 10 ^ 8)"
      using d by (intro parse_integer) (simp_all add: is_decimal_def)
    then show ?thesis using e by (simp add: decimal_units_def)
  next
    assume e: "sv = whole_part sv @ CHR ''.'' # fraction_part sv"
    have "ParseScaledDecimal 8 (whole_part sv @ CHR ''.'' # fraction_part sv) = of_nat (decimal_units sv)"
      unfolding decimal_units_def using d by (intro parse_decimal) (simp_all add: is_decimal_def)
    then show ?thesis using e by simp
  qed
qed

lemma ParseScaledDecimal_exact: "is_decimal sv \<Longrightarrow> decimal_units sv < 2 ^ 64 \<Longrightarrow> unat (ParseScaledDecimal 8 sv) = decimal_units sv"
  by (simp add: ParseScaledDecimal_units unat_of_nat take_bit_nat_eq_self)

section \<open>Contracts\<close>

lemma contracts_to_base_value:
  "unat (contracts_to_base c r) = (if c = kScaleFactor then unat r else unat r * unat c div 10 ^ 8 mod 2 ^ 64)"
proof -
  have l: "unat r < 2 ^ 64" "unat c < 2 ^ 64"
    using unsigned_less[of r, where ?'a = nat] unsigned_less[of c, where ?'a = nat] by simp_all
  have "unat r * unat c < 2 ^ 64 * 2 ^ 64" using l by (intro mult_strict_mono) auto
  then have m: "unat ((ucast r :: Notional) * ucast c) = unat r * unat c" by (simp add: unat_word_ariths unat_widen)
  have "unat ((ucast r :: Notional) * ucast c div ucast kScaleFactor) = unat r * unat c div 10 ^ 8"
    unfolding unat_div m unat_widen by (simp add: kScaleFactor_def)
  then have "unat (ucast ((ucast r :: Notional) * ucast c div ucast kScaleFactor) :: u64) = unat r * unat c div 10 ^ 8 mod 2 ^ 64"
    unfolding unsigned_ucast_eq by (simp add: take_bit_eq_mod)
  then show ?thesis by (simp add: contracts_to_base_def)
qed


section \<open>A provider speaks for its own feed only\<close>

fun own_event :: "VenueId \<Rightarrow> InstrumentKey \<Rightarrow> ProviderEvent \<Rightarrow> bool" where
  "own_event v k (Emitted u) \<longleftrightarrow> bu_venue u = v \<and> bu_instrument u = k"
| "own_event v k (Quoted q) \<longleftrightarrow> q_venue q = v \<and> q_instrument q = k"
| "own_event v k (HealthChanged e) \<longleftrightarrow> he_venue e = v"

definition own :: "VenueId \<Rightarrow> InstrumentKey \<Rightarrow> 'a Provider_scheme \<Rightarrow> bool" where
  "own v k p \<longleftrightarrow> pv_venue p = v \<and> pv_instrument p = k \<and> list_all (own_event v k) (pv_out p)"

lemma own_frame:
  "own v k p \<Longrightarrow> pv_venue p' = pv_venue p \<Longrightarrow> pv_instrument p' = pv_instrument p \<Longrightarrow> pv_out p' = pv_out p \<Longrightarrow> own v k p'"
  by (simp add: own_def)

lemma own_PublishHealth [inv_intros]: "own v k p \<Longrightarrow> own v k (PublishHealth s h t p)"
  by (auto simp: own_def PublishHealth_def Let_def)

lemma own_Note [inv_intros]: "own v k p \<Longrightarrow> own v k (NoteDepthActivity t d p)" "own v k p \<Longrightarrow> own v k (NoteBboActivity t d p)"
  by (auto simp: NoteDepthActivity_def NoteBboActivity_def Let_def intro!: own_PublishHealth elim: own_frame)

lemma own_CheckHealth [inv_intros]: "own v k p \<Longrightarrow> own v k (CheckHealth clk p)"
  by (simp add: CheckHealth_def Let_def own_PublishHealth)

lemma own_RequestResync [inv_intros]:
  assumes "own v k p"
  shows "own v k (RequestResync t d p)"
proof -
  have "own v k (PublishHealth kBbo kResyncing d (PublishHealth kDepth kResyncing t (p\<lparr>pv_resync_requested := True\<rparr>)))"
    by (intro own_PublishHealth own_frame[OF assms]) simp_all
  then show ?thesis unfolding RequestResync_def by (rule own_frame) simp_all
qed

lemma own_Emit [inv_intros]:
  "own v k p \<Longrightarrow> bu_venue u = v \<Longrightarrow> bu_instrument u = k \<Longrightarrow> own v k (Emit u t p)"
  "own v k p \<Longrightarrow> q_venue q = v \<Longrightarrow> q_instrument q = k \<Longrightarrow> own v k (EmitQuote q t p)"
  by (auto simp: own_def Emit_def EmitQuote_def)

lemma own_Accept:
  "own v k p \<Longrightarrow> own v k (snd (AcceptDepth i c r p))" "own v k p \<Longrightarrow> own v k (snd (AcceptBbo i c p))"
  by (auto simp: AcceptDepth_def AcceptBbo_def elim: own_frame split: prod.splits)

lemma own_lifecycle [inv_intros]:
  "own v k p \<Longrightarrow> own v k (Start p)" "own v k p \<Longrightarrow> own v k (Stop p)" "own v k p \<Longrightarrow> own v k (snd (end_run p))"
  "own v k p \<Longrightarrow> own v k (CreateCombinedSession p)" "own v k p \<Longrightarrow> own v k (snd (HandleReconnection p))"
  "own v k p \<Longrightarrow> own v k (p\<lparr>pv_io_running := b\<rparr>)"
  by (auto simp: Start_def Stop_def end_run_def HandleReconnection_def CreateCombinedSession_def Let_def elim: own_frame)

lemma own_begin_run [inv_intros]:
  assumes "own v k (snd (hook p))"
  shows "own v k (snd (begin_run hook p))"
proof -
  have c: "own v k p \<Longrightarrow> own v k ((CreateCombinedSession ^^ n) p)" for n and p :: "'a Provider_scheme"
    by (induction n) (auto intro: own_lifecycle)
  have r: "own v k p \<Longrightarrow> own v k (p\<lparr>pv_io_running := True, pv_depth_dedup := d, pv_bbo_dedup := e, pv_depth_live := 0, pv_bbo_live := 0\<rparr>)"
    for d e and p :: "'a Provider_scheme" by (erule own_frame) simp_all
  show ?thesis using assms
    by (auto simp: begin_run_def split: prod.splits bool.splits intro!: own_lifecycle c r)
qed

lemma own_closed [inv_intros]:
  assumes "own v k p" "\<And>p. own v k p \<Longrightarrow> own v k (snd (hook p))"
  shows "own v k (OnCombinedSessionClosed hook p)"
proof -
  define q where "q = (let p = (if pv_depth_live p > 0 then p\<lparr>pv_depth_live := pv_depth_live p - 1\<rparr> else p)
    in if pv_bbo_live p > 0 then p\<lparr>pv_bbo_live := pv_bbo_live p - 1\<rparr> else p)"
  have "own v k q" by (rule own_frame[OF assms(1)]) (simp_all add: q_def Let_def)
  moreover have "OnCombinedSessionClosed hook p = (if pv_depth_live q = 0 then snd (hook q) else q)"
    unfolding OnCombinedSessionClosed_def q_def by (simp only: Let_def)
  ultimately show ?thesis using assms(2) by simp
qed

text \<open>
  What a property must satisfy to hold of a provider all its life, whatever the venue: the base class keeps it, and so do
  the venue's handlers and hook.
\<close>

locale provider_invariant =
  fixes I :: "'a Provider_scheme \<Rightarrow> bool"
    and H :: "'a Provider_scheme \<Rightarrow> 'a Provider_scheme \<Rightarrow> bool"
    and K :: "('a Provider_scheme \<Rightarrow> bool \<times> 'a Provider_scheme) set"
  assumes tick: "I p \<Longrightarrow> I (snd (health_tick clk p))"
    and idle: "I p \<Longrightarrow> I (p\<lparr>pv_io_running := False\<rparr>)"
    and start_stop: "I p \<Longrightarrow> I (Start p)" "I p \<Longrightarrow> I (Stop p)"
    and ended: "I p \<Longrightarrow> I (snd (end_run p))" "I p \<Longrightarrow> I (snd (HandleReconnection p))"
    and handled: "I p \<Longrightarrow> pv_io_running p \<Longrightarrow> H p p' \<Longrightarrow> I p'"
    and closed: "I p \<Longrightarrow> pv_io_running p \<Longrightarrow> hook \<in> K \<Longrightarrow> I (OnCombinedSessionClosed hook p)"
    and begun: "I p \<Longrightarrow> \<not> pv_io_running p \<Longrightarrow> hook \<in> K \<Longrightarrow> I (snd (begin_run hook p))"
begin

lemma step: "provider_step H K p p' \<Longrightarrow> I p \<Longrightarrow> I p'"
  by (induction rule: provider_step.induct) (auto intro: tick idle start_stop ended handled closed begun)

lemma run: "(provider_step H K)\<^sup>*\<^sup>* p p' \<Longrightarrow> I p \<Longrightarrow> I p'"
  by (induction rule: rtranclp_induct) (auto intro: step)

end

lemma own_tick: "own v k p \<Longrightarrow> own v k (snd (health_tick clk p))"
  by (simp add: health_tick_def Let_def own_CheckHealth)

lemma own_bybit:
  assumes "own v k p" "\<And>u. m = Some u \<Longrightarrow> bu_venue u = v \<and> bu_instrument u = k"
  shows "own v k (Bybit_OnCombinedMessage t m c n clk p)"
proof -
  have f: "own v k p \<Longrightarrow> own v k (p\<lparr>by_last_depth_u := l\<rparr>)" for p :: BybitProvider and l v k by (erule own_frame) simp_all
  have d: "own v k (Bybit_OnDepthMessage m c n clk p)"
  proof (cases m)
    case (Some u)
    obtain ok q where a: "AcceptDepth (bu_seq u) c (bu_seq u = 1) (NoteDepthActivity (clk 0) (clk 1) p) = (ok, q)" by force
    then have "own v k q" using own_Accept(1)[OF own_Note(1)[OF assms(1)]] by (metis snd_conv)
    then show ?thesis using a assms(2)[OF Some]
      by (cases ok) (auto simp: Some Bybit_OnDepthMessage_def Let_def split: prod.splits ContinuityAction.splits
            intro!: own_Emit own_RequestResync f)
  qed (simp add: Bybit_OnDepthMessage_def assms)
  have b: "own v k (Bybit_OnBboMessage m c n clk p)"
  proof (cases m)
    case (Some u)
    obtain ok q where a: "AcceptBbo (bu_seq u) c (NoteBboActivity (clk 0) (clk 1) p) = (ok, q)" by force
    then have "own v k q" using own_Accept(2)[OF own_Note(2)[OF assms(1)]] by (metis snd_conv)
    then show ?thesis using a
      by (cases ok) (auto simp: Some Bybit_OnBboMessage_def Let_def quote_of_def own_def EmitQuote_def)
  qed (simp add: Bybit_OnBboMessage_def assms)
  show ?thesis using d b assms by (simp add: Bybit_OnCombinedMessage_def split: option.split)
qed

lemma own_okx:
  assumes "own v k p" "\<And>u. m = Some u \<Longrightarrow> bu_venue u = v \<and> bu_instrument u = k"
  shows "own v k (OKX_OnCombinedMessage t m c n clk p)"
proof -
  have f: "own v k p \<Longrightarrow> own v k (p\<lparr>ok_last_depth_seq := l\<rparr>)" for p :: OKXProvider and l v k by (erule own_frame) simp_all
  have d: "own v k (OKX_OnDepthMessage m c n clk p)"
  proof (cases m)
    case (Some u)
    obtain ok q where a: "AcceptDepth (bu_seq u) c (sint (bu_prev_seq u) > 0 \<and> bu_seq u < bu_prev_seq u) (NoteDepthActivity (clk 0) (clk 1) p) = (ok, q)"
      by force
    then have "own v k q" using own_Accept(1)[OF own_Note(1)[OF assms(1)]] by (metis snd_conv)
    then show ?thesis using a assms(2)[OF Some]
      by (cases ok) (auto simp: Some OKX_OnDepthMessage_def Let_def split: prod.splits ContinuityAction.splits
            intro!: own_Emit own_RequestResync f)
  qed (simp add: OKX_OnDepthMessage_def assms)
  have b: "own v k (OKX_OnBboMessage m c n clk p)"
  proof (cases m)
    case (Some u)
    obtain ok q where a: "AcceptBbo (bu_seq u) c (NoteBboActivity (clk 0) (clk 1) p) = (ok, q)" by force
    then have "own v k q" using own_Accept(2)[OF own_Note(2)[OF assms(1)]] by (metis snd_conv)
    then show ?thesis using a
      by (cases ok) (auto simp: Some OKX_OnBboMessage_def Let_def quote_of_def own_def EmitQuote_def)
  qed (simp add: OKX_OnBboMessage_def assms)
  show ?thesis using d b assms by (simp add: OKX_OnCombinedMessage_def split: option.split)
qed


section \<open>What a parse says of its feed\<close>

lemma new_update_fields [simp]:
  "bu_venue (new_update v k s n) = v" "bu_instrument (new_update v k s n) = k" "bu_seq (new_update v k s n) = n"
  "bu_is_snapshot (new_update v k s n) = s"
  by (simp_all add: new_update_def)

lemma parse_bybit_own: "ParseOrderbookMessage J m v k = Some u \<Longrightarrow> bu_venue u = v \<and> bu_instrument u = k"
  by (auto simp: ParseOrderbookMessage_def Let_def dest!: with_sides_SomeD split: option.splits if_splits)

lemma parse_okx_own:
  "ParseBooksMessage J cs m v k = Some u \<Longrightarrow> bu_venue u = v \<and> bu_instrument u = k"
  "OKX_ParseBboMessage J cs m v k = Some u \<Longrightarrow> bu_venue u = v \<and> bu_instrument u = k"
  by (auto simp: ParseBooksMessage_def OKX_ParseBboMessage_def OKX_sides_def dest!: with_sides_SomeD split: option.splits list.splits)

lemma parse_binance_own:
  "ParseDepthMessage J m v k c = (Some u, c') \<Longrightarrow> bu_venue u = v \<and> bu_instrument u = k"
  "ParseDepthSnapshot J m v k = Some u \<Longrightarrow> bu_venue u = v \<and> bu_instrument u = k"
  "Binance_ParseBboMessage J m v k = Some q \<Longrightarrow> q_venue q = v \<and> q_instrument q = k"
  by (auto simp: ParseDepthMessage_def ParseDepthSnapshot_def Binance_ParseBboMessage_def Let_def dest!: with_sides_SomeD
      split: option.splits if_splits)

interpretation bybit_own: provider_invariant "own v k"
    "\<lambda>p p'. \<exists>m c n clk. p' = Bybit_OnRaw J m c n clk p" "{\<lambda>p :: BybitProvider. (True, p)}" for v k J
proof (unfold_locales, goal_cases)
  case (7 p p')
  have i: "pv_venue p = v" "pv_instrument p = k" using 7(1) by (simp_all add: own_def)
  from 7(3) obtain m c n clk where "p' = Bybit_OnRaw J m c n clk p" by blast
  then show ?case using own_bybit[OF 7(1)] parse_bybit_own[of J m v k] by (auto simp: Bybit_OnRaw_def i)
qed (auto intro: own_tick own_lifecycle own_closed own_begin_run)

interpretation okx_own: provider_invariant "own v k"
    "\<lambda>p p'. \<exists>m c n clk. p' = OKX_OnRaw J m c n clk p"
    "{\<lambda>p :: OKXProvider. OKX_OnReconnect (fetch_contract_size J body p) p | body. True}" for v k J
proof (unfold_locales, goal_cases)
  case (7 p p')
  have i: "pv_venue p = v" "pv_instrument p = k" using 7(1) by (simp_all add: own_def)
  from 7(3) obtain m c n clk where "p' = OKX_OnRaw J m c n clk p" by blast
  then show ?case using own_okx[OF 7(1)] parse_okx_own[of J "ok_contract_size p" m v k] by (auto simp: OKX_OnRaw_def Let_def i)
next
  case (8 p hook)
  have "own v k (snd (OKX_OnReconnect f q))" if "own v k q" for f q
    using that by (auto simp: OKX_OnReconnect_def split: option.split elim: own_frame)
  then show ?case using 8 by (auto intro: own_closed)
next
  case (9 p hook)
  have "own v k (snd (OKX_OnReconnect f q))" if "own v k q" for f q
    using that by (auto simp: OKX_OnReconnect_def split: option.split elim: own_frame)
  then show ?case using 9 by (auto intro: own_begin_run)
qed (auto intro: own_tick own_lifecycle)


section \<open>Binance: what is buffered is its own as well\<close>

definition own_update :: "VenueId \<Rightarrow> InstrumentKey \<Rightarrow> BookUpdate \<Rightarrow> bool" where
  "own_update v k u \<longleftrightarrow> bu_venue u = v \<and> bu_instrument u = k"

definition own_buffered :: "VenueId \<Rightarrow> InstrumentKey \<Rightarrow> BinanceProvider \<Rightarrow> bool" where
  "own_buffered v k p \<longleftrightarrow> own v k p \<and> list_all (own_update v k) (bn_pending p)"

lemma own_buffered_pending:
  "own_buffered v k p \<Longrightarrow> own v k p' \<Longrightarrow> bn_pending p' = bn_pending p \<Longrightarrow> own_buffered v k p'"
  by (simp add: own_buffered_def)

lemma own_bn_frame [inv_intros]:
  fixes p :: BinanceProvider
  shows "own v k p \<Longrightarrow> own v k (p\<lparr>bn_last_depth_u := l\<rparr>)" "own v k p \<Longrightarrow> own v k (p\<lparr>bn_pending := us\<rparr>)"
    "own v k p \<Longrightarrow> own v k (FetchSnapshotAsync p)" "own v k p \<Longrightarrow> own v k (p\<lparr>bn_pending := us, bn_sync_state := s\<rparr>)"
  by (auto simp: FetchSnapshotAsync_def elim: own_frame)

lemma own_replay: "own v k p \<Longrightarrow> list_all (own_update v k) us \<Longrightarrow> own v k (replay_pending clk i us p)"
  by (induction clk i us p rule: replay_pending.induct) (auto simp: own_update_def intro!: own_Emit own_bn_frame)

lemma own_drop: "list_all P us \<Longrightarrow> list_all P (drop n us)"
  by (auto simp: list_all_iff dest: in_set_dropD)

lemma own_Reconcile:
  assumes "own_buffered v k p" "own_update v k s"
  shows "own_buffered v k (snd (ReconcileSnapshot s n clk p))"
proof (cases "ReconcileBinanceSnapshot (bu_seq s) (bn_pending p)")
  case (Some first)
  let ?p = "(Emit (s\<lparr>bu_recv_ts_ns := recv_stamp n\<rparr>) (clk 0) p)\<lparr>bn_last_depth_u := bu_seq s\<rparr>"
  have "own v k ?p" using assms by (intro own_bn_frame own_Emit) (simp_all add: own_buffered_def own_update_def)
  then have r: "own v k (replay_pending clk 1 (drop first (bn_pending p)) ?p)"
    using assms(1) by (intro own_replay own_drop) (simp_all add: own_buffered_def)
  have "own v k (snd (ReconcileSnapshot s n clk p))" "bn_pending (snd (ReconcileSnapshot s n clk p)) = []"
    using r by (auto simp: ReconcileSnapshot_def Some Let_def intro!: own_bn_frame elim: own_frame)
  then show ?thesis by (simp add: own_buffered_def)
qed (simp add: ReconcileSnapshot_def assms Let_def)

lemma own_buffered_fetch: "own_buffered v k p \<Longrightarrow> own_buffered v k (FetchSnapshotAsync p)"
  using own_bn_frame(3)[of v k p] by (simp add: own_buffered_def) (simp add: FetchSnapshotAsync_def)

lemma own_buffered_resync: "own_buffered v k p \<Longrightarrow> own_buffered v k (RequestResync t d p)"
  using own_RequestResync[of v k p t d] by (simp add: own_buffered_def)

lemma own_fetched:
  assumes "own_buffered v k p" "\<And>s. fetched = Some s \<Longrightarrow> own_update v k s"
  shows "own_buffered v k (OnSnapshotFetched fetched n clk p)"
proof (cases fetched)
  case None
  then show ?thesis using assms by (simp add: OnSnapshotFetched_def own_buffered_fetch own_buffered_resync)
next
  case (Some u)
  obtain ok p' where r: "ReconcileSnapshot u n clk p = (ok, p')" by force
  then have "own_buffered v k p'" using own_Reconcile[OF assms(1) assms(2)[OF Some], of n clk] by simp
  then show ?thesis using Some r by (cases ok) (auto simp: OnSnapshotFetched_def own_buffered_fetch own_buffered_resync)
qed

lemma own_binance_depth:
  assumes "own_buffered v k p" "\<And>u. m = Some u \<Longrightarrow> own_update v k u"
  shows "own_buffered v k (Binance_OnDepthMessage m pu c n clk p)"
proof (cases m)
  case (Some u)
  let ?u = "u\<lparr>bu_recv_ts_ns := recv_stamp n\<rparr>"
  have u: "own_update v k ?u" using assms(2)[OF Some] by (simp add: own_update_def)
  obtain ok q where a: "AcceptDepth (bu_seq ?u) c False (NoteDepthActivity (clk 0) (clk 1) p) = (ok, q)" by force
  have q: "own_buffered v k q"
    using own_Accept(1)[OF own_Note(1), of v k p "bu_seq ?u" c False "clk 0" "clk 1"] assms(1) a
    by (auto simp: own_buffered_def AcceptDepth_def split: prod.splits)
  show ?thesis
  proof (cases "bn_sync_state q = kSyncing")
    case True
    define r where "r = (if \<not> bn_snapshot_requested q then FetchSnapshotAsync q else q)"
    have r: "own_buffered v k r" using q own_buffered_fetch by (simp add: r_def)
    then have "own_buffered v k (r\<lparr>bn_pending := bn_pending r @ [?u]\<rparr>)" using u own_bn_frame(2)[of v k r] by (simp add: own_buffered_def)
    moreover have "Binance_OnDepthMessage m pu c n clk p = (if \<not> ok then q
        else if length (bn_pending r) \<ge> kMaxPendingEvents then RequestResync (clk 2) (clk 3) r else r\<lparr>bn_pending := bn_pending r @ [?u]\<rparr>)"
      using a True by (simp add: Some Binance_OnDepthMessage_def Let_def r_def)
    ultimately show ?thesis using q r by (simp add: own_buffered_resync)
  next
    case False
    obtain action l where c: "(if Market (pv_instrument q) = kFutures
        then (case pu of None \<Rightarrow> (kGap, bn_last_depth_u q) | Some pu \<Rightarrow> CheckBinanceFuturesContinuity pu (bu_seq ?u) (bn_last_depth_u q))
        else CheckBinanceSpotContinuity ?u (bn_last_depth_u q)) = (action, l)" by force
    let ?q = "q\<lparr>bn_last_depth_u := l\<rparr>"
    have "Binance_OnDepthMessage m pu c n clk p = (if \<not> ok then q
        else if action = kGap then RequestResync (clk 2) (clk 3) ?q else Emit ?u (clk 4) ?q)"
      using a c False by (cases ok) (simp_all add: Some Binance_OnDepthMessage_def Let_def)
    moreover have w: "own_buffered v k ?q" using q own_bn_frame(1)[of v k q l] by (simp add: own_buffered_def)
    moreover have "own_buffered v k (Emit ?u (clk 4) ?q)"
      using w own_Emit(1)[of v k ?q ?u "clk 4"] u by (simp add: own_buffered_def own_update_def)
    ultimately show ?thesis using q by (simp add: own_buffered_resync)
  qed
qed (simp add: Binance_OnDepthMessage_def assms)

lemma own_binance_bbo:
  assumes "own_buffered v k p" "\<And>q. m = Some q \<Longrightarrow> q_venue q = v \<and> q_instrument q = k"
  shows "own_buffered v k (Binance_OnBboMessage m c n clk p)"
proof (cases m)
  case (Some u)
  obtain ok q where a: "AcceptBbo (q_seq u) c (NoteBboActivity (clk 0) (clk 1) p) = (ok, q)" by force
  have q: "own_buffered v k q"
    using own_Accept(2)[OF own_Note(2), of v k p "q_seq u" c "clk 0" "clk 1"] assms(1) a
    by (auto simp: own_buffered_def AcceptBbo_def split: prod.splits)
  have "own_buffered v k (EmitQuote (u\<lparr>q_recv_ts_ns := recv_stamp n\<rparr>) (clk 2) q)"
    using q own_Emit(2)[of v k q "u\<lparr>q_recv_ts_ns := recv_stamp n\<rparr>" "clk 2"] assms(2)[OF Some]
    by (simp add: own_buffered_def EmitQuote_def)
  then show ?thesis using a q by (cases ok) (auto simp: Some Binance_OnBboMessage_def Let_def)
qed (simp add: Binance_OnBboMessage_def assms)

lemma own_binance_raw:
  assumes "own_buffered v k p"
  shows "own_buffered v k (fst (Binance_OnRaw J m c n clk (p, chain_seq)))"
proof (cases "UnwrapCombinedMessage J m")
  case (Some sd)
  obtain s d where sd: "sd = (s, d)" by (cases sd)
  have i: "pv_venue p = v" "pv_instrument p = k" using assms by (simp_all add: own_buffered_def own_def)
  obtain parsed chain where d: "ParseDepthMessage J d v k chain_seq = (parsed, chain)" by force
  show ?thesis
    using own_binance_depth[OF assms, of parsed] own_binance_bbo[OF assms, of "Binance_ParseBboMessage J d v k"]
      parse_binance_own(1)[of J d v k chain_seq] parse_binance_own(3)[of J d v k] d
    by (auto simp: Binance_OnRaw_def Some sd i Binance_OnCombinedMessage_def own_update_def)
qed (simp add: Binance_OnRaw_def assms)

lemma own_buffered_frame:
  "own_buffered v k p \<Longrightarrow> pv_venue p' = pv_venue p \<Longrightarrow> pv_instrument p' = pv_instrument p \<Longrightarrow> pv_out p' = pv_out p \<Longrightarrow>
   list_all (own_update v k) (bn_pending p') \<Longrightarrow> own_buffered v k p'"
  by (simp add: own_buffered_def own_def)

interpretation binance_own: provider_invariant "own_buffered v k"
    "\<lambda>p p'. (\<exists>m c n clk chain_seq. p' = fst (Binance_OnRaw J m c n clk (p, chain_seq))) \<or>
            (\<exists>body n clk. p' = OnSnapshotFetched (fetch_snapshot J body p) n clk p)"
    "{Binance_OnReconnect}" for v k J
proof (unfold_locales, goal_cases)
  case (1 p clk)
  then show ?case using own_tick[of v k p clk] by (simp add: own_buffered_def health_tick_def CheckHealth_def Let_def)
next
  case (7 p p')
  have i: "pv_venue p = v" "pv_instrument p = k" using 7(1) by (simp_all add: own_buffered_def own_def)
  have "own_update v k s" if "fetch_snapshot J body p = Some s" for body s
    using that parse_binance_own(2)[of J _ v k s] by (auto simp: fetch_snapshot_def own_update_def i Option.bind_eq_Some_conv)
  then show ?case using 7(1,3) own_binance_raw own_fetched by metis
next
  case (8 p hook)
  then have "own v k (OnCombinedSessionClosed Binance_OnReconnect p)"
    by (intro own_closed) (auto simp: own_buffered_def Binance_OnReconnect_def elim: own_frame)
  then show ?case using 8 by (simp add: own_buffered_def OnCombinedSessionClosed_def Binance_OnReconnect_def Let_def)
next
  case (9 p hook)
  have b: "bn_pending ((CreateCombinedSession ^^ j) q) = bn_pending q" for j and q :: BinanceProvider
    by (induction j) (auto simp: CreateCombinedSession_def)
  from 9 have "own v k (snd (begin_run Binance_OnReconnect p))"
    by (intro own_begin_run) (auto simp: own_buffered_def Binance_OnReconnect_def elim: own_frame)
  then show ?case using 9 by (simp add: own_buffered_def begin_run_def Binance_OnReconnect_def b)
qed (auto simp: own_buffered_def Start_def Stop_def end_run_def HandleReconnection_def Let_def elim: own_frame)


section \<open>OKX futures: no message before the contract size\<close>

lemma find_contract_Some:
  "find_contract J i entries = Some c \<Longrightarrow>
     c \<noteq> 0 \<and> (\<exists>entry \<in> set entries. get_string J entry ''instId'' = Some i \<and> get_string J entry ''ctType'' = Some ''linear'' \<and>
       (\<exists>ct_val. get_string J entry ''ctVal'' = Some ct_val \<and> c = ParseScaledDecimal kOkxScale ct_val))"
  by (induction J i entries rule: find_contract.induct) (auto simp: Let_def split: if_splits option.splits)

text \<open>
  What a running provider believes of its contract size: the neutral factor off the futures market, and there a size the
  exchange has answered.
\<close>

definition scale_ok :: "'v OnDemand \<Rightarrow> OKXProvider \<Rightarrow> bool" where
  "scale_ok J p \<longleftrightarrow>
     (if ok_contract_size_resolved p
      then Market (pv_instrument p) = kFutures \<and>
           (\<exists>body. ParseOkxContractSize J body (ToOkxInstId (pv_instrument p)) = Some (ok_contract_size p))
      else ok_contract_size p = kScaleFactor \<and> (pv_io_running p \<longrightarrow> Market (pv_instrument p) \<noteq> kFutures))"

lemma scale_frame:
  "scale_ok J p \<Longrightarrow> ok_contract_size_resolved p' = ok_contract_size_resolved p \<Longrightarrow> ok_contract_size p' = ok_contract_size p \<Longrightarrow>
   pv_instrument p' = pv_instrument p \<Longrightarrow> (pv_io_running p' \<longrightarrow> pv_io_running p) \<Longrightarrow> scale_ok J p'"
  by (auto simp: scale_ok_def split: if_splits)

lemma okx_fields_frame [provider_frame, simp]:
  fixes p :: OKXProvider
  shows "ok_contract_size (PublishHealth s h t p) = ok_contract_size p" "ok_contract_size (NoteDepthActivity t d p) = ok_contract_size p"
    "ok_contract_size (NoteBboActivity t d p) = ok_contract_size p" "ok_contract_size (Emit u t p) = ok_contract_size p"
    "ok_contract_size (EmitQuote q t p) = ok_contract_size p" "ok_contract_size (RequestResync t d p) = ok_contract_size p"
    "ok_contract_size_resolved (PublishHealth s h t p) = ok_contract_size_resolved p"
    "ok_contract_size_resolved (NoteDepthActivity t d p) = ok_contract_size_resolved p"
    "ok_contract_size_resolved (NoteBboActivity t d p) = ok_contract_size_resolved p"
    "ok_contract_size_resolved (Emit u t p) = ok_contract_size_resolved p"
    "ok_contract_size_resolved (EmitQuote q t p) = ok_contract_size_resolved p"
    "ok_contract_size_resolved (RequestResync t d p) = ok_contract_size_resolved p"
  by (simp_all add: NoteDepthActivity_def NoteBboActivity_def PublishHealth_def Emit_def EmitQuote_def RequestResync_def Let_def)

lemma running_frame [provider_frame, simp]:
  "pv_io_running (NoteBboActivity t d p) = pv_io_running p" "pv_io_running (EmitQuote q t p) = pv_io_running p"
  "pv_instrument (EmitQuote q t p) = pv_instrument p" "pv_instrument (RequestResync t d p) = pv_instrument p"
  by (simp_all add: NoteBboActivity_def EmitQuote_def RequestResync_def Let_def)

lemma scale_note:
  "scale_ok J p \<Longrightarrow> scale_ok J (PublishHealth s h t p)" "scale_ok J p \<Longrightarrow> scale_ok J (NoteDepthActivity t d p)"
  "scale_ok J p \<Longrightarrow> scale_ok J (NoteBboActivity t d p)" "scale_ok J p \<Longrightarrow> scale_ok J (Emit u t p)"
  "scale_ok J p \<Longrightarrow> scale_ok J (EmitQuote q t p)" "scale_ok J p \<Longrightarrow> scale_ok J (RequestResync t d p)"
  "scale_ok J p \<Longrightarrow> scale_ok J (p\<lparr>ok_last_depth_seq := l\<rparr>)" "scale_ok J p \<Longrightarrow> scale_ok J (snd (AcceptDepth i c r p))"
  "scale_ok J p \<Longrightarrow> scale_ok J (snd (AcceptBbo i c p))"
  by (erule scale_frame; auto simp: AcceptDepth_def AcceptBbo_def split: prod.split)+

lemma scale_depth:
  assumes "scale_ok J p"
  shows "scale_ok J (OKX_OnDepthMessage m c n clk p)"
proof (cases m)
  case (Some u)
  obtain ok q where a: "AcceptDepth (bu_seq u) c (sint (bu_prev_seq u) > 0 \<and> bu_seq u < bu_prev_seq u) (NoteDepthActivity (clk 0) (clk 1) p) = (ok, q)"
    by force
  then have "scale_ok J q" using scale_note(8)[OF scale_note(2)[OF assms]] by (metis snd_conv)
  then show ?thesis using a
    by (cases ok) (auto simp: Some OKX_OnDepthMessage_def Let_def split: prod.splits ContinuityAction.splits
          intro: scale_note(4,6,7))
qed (simp add: OKX_OnDepthMessage_def assms)

lemma scale_bbo:
  assumes "scale_ok J p"
  shows "scale_ok J (OKX_OnBboMessage m c n clk p)"
proof (cases m)
  case (Some u)
  obtain ok q where a: "AcceptBbo (bu_seq u) c (NoteBboActivity (clk 0) (clk 1) p) = (ok, q)" by force
  then have "scale_ok J q" using scale_note(9)[OF scale_note(3)[OF assms]] by (metis snd_conv)
  then show ?thesis using a by (cases ok) (auto simp: Some OKX_OnBboMessage_def Let_def intro: scale_note(5))
qed (simp add: OKX_OnBboMessage_def assms)

lemma fetched_size:
  "fetch_contract_size J body p = Some c \<Longrightarrow> \<exists>b. ParseOkxContractSize J b (ToOkxInstId (pv_instrument p)) = Some c"
  by (cases body) (auto simp: fetch_contract_size_def)

lemma scale_hook:
  assumes "scale_ok J p"
  shows "scale_ok J (snd (OKX_OnReconnect (fetch_contract_size J body p) p))"
proof (cases "Market (pv_instrument p) \<noteq> kFutures \<or> ok_contract_size_resolved p")
  case False
  show ?thesis
  proof (cases "fetch_contract_size J body p")
    case (Some c)
    from fetched_size[OF this] False Some show ?thesis by (simp add: OKX_OnReconnect_def scale_ok_def)
  qed (use False assms in \<open>simp add: OKX_OnReconnect_def\<close>)
qed (simp add: OKX_OnReconnect_def assms)

lemma hook_resolves:
  "fst (OKX_OnReconnect f p) \<Longrightarrow>
     Market (pv_instrument p) \<noteq> kFutures \<or> ok_contract_size_resolved (snd (OKX_OnReconnect f p))"
  by (auto simp: OKX_OnReconnect_def split: option.splits if_splits)

lemma scale_lifecycle:
  "scale_ok J p \<Longrightarrow> scale_ok J (Start p)" "scale_ok J p \<Longrightarrow> scale_ok J (Stop p)" "scale_ok J p \<Longrightarrow> scale_ok J (snd (end_run p))"
  "scale_ok J p \<Longrightarrow> scale_ok J (snd (HandleReconnection p))" "scale_ok J p \<Longrightarrow> scale_ok J (p\<lparr>pv_io_running := False\<rparr>)"
  by (erule scale_frame; simp add: Start_def Stop_def end_run_def HandleReconnection_def Let_def)+

lemma hook_frame:
  "pv_instrument (snd (OKX_OnReconnect f p)) = pv_instrument p" "pv_io_running (snd (OKX_OnReconnect f p)) = pv_io_running p"
  by (auto simp: OKX_OnReconnect_def split: option.split)

lemma scale_running:
  assumes "scale_ok J q" "Market (pv_instrument q) \<noteq> kFutures \<or> ok_contract_size_resolved q"
  shows "scale_ok J ((CreateCombinedSession ^^ n)
    (q\<lparr>pv_io_running := True, pv_depth_dedup := d, pv_bbo_dedup := e, pv_depth_live := x, pv_bbo_live := y\<rparr>))"
proof -
  have "scale_ok J (q\<lparr>pv_io_running := True, pv_depth_dedup := d, pv_bbo_dedup := e, pv_depth_live := x, pv_bbo_live := y\<rparr>)"
    using assms by (cases "ok_contract_size_resolved q") (simp_all add: scale_ok_def)
  moreover have "scale_ok J p \<Longrightarrow> scale_ok J ((CreateCombinedSession ^^ n) p)" for p
  proof (induction n)
    case (Suc n)
    have "scale_ok J ((CreateCombinedSession ^^ n) p)" by (rule Suc.IH) (rule Suc.prems)
    then have "scale_ok J (CreateCombinedSession ((CreateCombinedSession ^^ n) p))"
      by (rule scale_frame) (simp_all add: CreateCombinedSession_def)
    then show ?case by simp
  qed simp
  ultimately show ?thesis by blast
qed

interpretation okx_scale: provider_invariant "scale_ok J"
    "\<lambda>p p'. \<exists>m c n clk. p' = OKX_OnRaw J m c n clk p"
    "{\<lambda>p :: OKXProvider. OKX_OnReconnect (fetch_contract_size J body p) p | body. True}" for J
proof (unfold_locales, goal_cases)
  case (1 p clk)
  then show ?case by (simp add: health_tick_def CheckHealth_def Let_def scale_note)
next
  case (7 p p')
  then show ?case using scale_depth scale_bbo by (auto simp: OKX_OnRaw_def OKX_OnCombinedMessage_def Let_def split: option.split)
next
  case (8 p hook)
  define q where "q = (let p = (if pv_depth_live p > 0 then p\<lparr>pv_depth_live := pv_depth_live p - 1\<rparr> else p)
    in if pv_bbo_live p > 0 then p\<lparr>pv_bbo_live := pv_bbo_live p - 1\<rparr> else p)"
  have "scale_ok J q" by (rule scale_frame[OF 8(1)]) (simp_all add: q_def Let_def)
  moreover have "OnCombinedSessionClosed hook p = (if pv_depth_live q = 0 then snd (hook q) else q)"
    unfolding OnCombinedSessionClosed_def q_def by (simp only: Let_def)
  ultimately show ?case using 8(3) scale_hook by auto
next
  case (9 p hook)
  then obtain body where h: "hook = (\<lambda>p. OKX_OnReconnect (fetch_contract_size J body p) p)" by auto
  obtain ok q where q: "OKX_OnReconnect (fetch_contract_size J body p) p = (ok, q)" by force
  have s: "scale_ok J q" "ok \<Longrightarrow> Market (pv_instrument q) \<noteq> kFutures \<or> ok_contract_size_resolved q" "\<not> pv_io_running q"
    using scale_hook[OF 9(1), of body] hook_resolves[of "fetch_contract_size J body p" p]
      hook_frame[of "fetch_contract_size J body p" p] 9(2) q by auto
  show ?case
  proof (cases ok)
    case True
    have "scale_ok J (snd (begin_run hook p)) = scale_ok J ((CreateCombinedSession ^^ unat (max 1 (pv_connections q)))
        (q\<lparr>pv_io_running := True, pv_depth_dedup := new_dedup, pv_bbo_dedup := new_dedup, pv_depth_live := 0, pv_bbo_live := 0\<rparr>))"
      using True q by (simp add: h begin_run_def)
    then show ?thesis using scale_running[OF s(1) s(2)[OF True]] by simp
  next
    case False
    then have "snd (begin_run hook p) = (if pv_running q then snd (HandleReconnection q) else q)" using q by (simp add: h begin_run_def)
    then show ?thesis using s(1) scale_lifecycle(4)[of J q] by simp
  qed
qed (auto intro: scale_lifecycle)

lemma new_okx_scale: "scale_ok J (new_okx v k n d b)"
  by (simp add: scale_ok_def new_okx_def)

lemma ParseOkxContractSize_Some: "ParseOkxContractSize J body i = Some c \<Longrightarrow> c \<noteq> 0"
  by (auto simp: ParseOkxContractSize_def dest: find_contract_Some split: option.splits if_splits)

section \<open>A message with an unreadable level\<close>

text \<open>The sides of the update a message's text holds, as each parser finds them.\<close>

definition bybit_sides :: "'v OnDemand \<Rightarrow> string \<Rightarrow> ('v option list option \<times> 'v option list option)" where
  "bybit_sides J message =
     (let data = Option.bind (get_field J (od_iterate J message) ''data'') (od_object J) in (get_array J data ''b'', get_array J data ''a''))"

definition okx_sides :: "'v OnDemand \<Rightarrow> string \<Rightarrow> ('v option list option \<times> 'v option list option)" where
  "okx_sides J message =
     (case get_array J (od_iterate J message) ''data'' of
        Some (entry # _) \<Rightarrow> (get_array J entry ''bids'', get_array J entry ''asks'')
      | _ \<Rightarrow> (None, None))"

definition binance_sides :: "'v OnDemand \<Rightarrow> string \<Rightarrow> ('v option list option \<times> 'v option list option)" where
  "binance_sides J message = (get_array J (od_iterate J message) ''b'', get_array J (od_iterate J message) ''a'')"

definition unreadable_sides :: "'v OnDemand \<Rightarrow> ('v option list option \<times> 'v option list option) \<Rightarrow> bool" where
  "unreadable_sides J sides \<longleftrightarrow> unreadable J (fst sides) \<or> unreadable J (snd sides)"

lemma refused_bybit: "unreadable_sides J (bybit_sides J m) \<Longrightarrow> ParseOrderbookMessage J m v k = None"
  by (auto simp: unreadable_sides_def bybit_sides_def ParseOrderbookMessage_def append_defs Let_def with_sides_None
      read_side_unreadable split: option.split)

lemma refused_okx:
  "unreadable_sides J (okx_sides J m) \<Longrightarrow> ParseBooksMessage J cs m v k = None \<and> OKX_ParseBboMessage J cs m v k = None"
  by (auto simp: unreadable_sides_def okx_sides_def ParseBooksMessage_def OKX_ParseBboMessage_def OKX_sides_def append_defs
      with_sides_None read_side_unreadable unreadable_def split: option.splits list.splits)

lemma refused_binance: "unreadable_sides J (binance_sides J m) \<Longrightarrow> fst (ParseDepthMessage J m v k c) = None"
  by (auto simp: unreadable_sides_def binance_sides_def ParseDepthMessage_def append_defs Let_def with_sides_None
      read_side_unreadable split: option.split)

lemma no_message:
  "Bybit_OnCombinedMessage t None c n clk p = p" "OKX_OnCombinedMessage t None c n clk q = q"
  "Binance_OnCombinedMessage t None chain None c n clk r = r"
  by (auto simp: Bybit_OnCombinedMessage_def Bybit_OnDepthMessage_def Bybit_OnBboMessage_def OKX_OnCombinedMessage_def
      OKX_OnDepthMessage_def OKX_OnBboMessage_def Binance_OnCombinedMessage_def Binance_OnDepthMessage_def Binance_OnBboMessage_def
      split: option.split)

text \<open>\<^verbatim>\<open>LastChainSeq\<close> after a parse that returned an update is that message's own.\<close>

lemma chain_seq_fresh:
  "ParseDepthMessage J m v k c = (Some u, chain_seq) \<Longrightarrow> chain_seq = get_uint64 J (od_iterate J m) ''pu''"
  by (auto simp: ParseDepthMessage_def Let_def split: option.splits if_splits)

text \<open>A depth message refused for an unreadable level has already replaced it.\<close>

lemma refused_message_moves_chain_seq:
  assumes "od_iterate J m = Some doc" "get_string J (Some doc) ''e'' = Some ''depthUpdate''" "unreadable_sides J (binance_sides J m)"
  shows "ParseDepthMessage J m v k c = (None, get_uint64 J (Some doc) ''pu'')"
proof -
  have "fst (ParseDepthMessage J m v k c) = None" by (rule refused_binance[OF assms(3)])
  moreover have "snd (ParseDepthMessage J m v k c) = get_uint64 J (Some doc) ''pu''" using assms(1,2) by (simp add: ParseDepthMessage_def Let_def)
  ultimately show ?thesis by (metis prod.collapse)
qed

lemma chain_seq_irrelevant: "fst (Binance_OnRaw J m c n clk (r, s)) = fst (Binance_OnRaw J m c n clk (r, s'))"
proof (cases "UnwrapCombinedMessage J m")
  case (Some x)
  obtain stream data where x: "x = (stream, data)" by (cases x)
  have "fst (ParseDepthMessage J data v k s) = fst (ParseDepthMessage J data v k s') \<and>
      (fst (ParseDepthMessage J data v k s) \<noteq> None \<longrightarrow> ParseDepthMessage J data v k s = ParseDepthMessage J data v k s')" for v k
    by (simp add: ParseDepthMessage_def Let_def split: option.split)
  note same = this
  have "Binance_OnDepthMessage (fst (ParseDepthMessage J data v k s)) (snd (ParseDepthMessage J data v k s)) c n clk r =
      Binance_OnDepthMessage (fst (ParseDepthMessage J data v k s')) (snd (ParseDepthMessage J data v k s')) c n clk r" for v k
  proof (cases "fst (ParseDepthMessage J data v k s) = None")
    case True
    then have "fst (ParseDepthMessage J data v k s') = None" using same[of v k] by (elim conjE) (erule subst)
    with True show ?thesis by (simp only: Binance_OnDepthMessage_def option.case)
  next
    case False
    with same[of v k] have "ParseDepthMessage J data v k s = ParseDepthMessage J data v k s'" by (elim conjE) (erule mp)
    then show ?thesis by (simp only:)
  qed
  then show ?thesis by (simp add: Some x Binance_OnRaw_def Binance_OnCombinedMessage_def split_beta)
qed (simp add: Binance_OnRaw_def)

section \<open>Exact levels\<close>

text \<open>A level whose texts are decimals that fit; \<open>level_value\<close> is what they denote, the quantity times \<open>scale / 10\<^sup>8\<close>, truncated.\<close>

definition level_value :: "'v OnDemand \<Rightarrow> nat \<Rightarrow> 'v option \<Rightarrow> nat \<times> nat" where
  "level_value J scale level =
     (case level_texts J level of None \<Rightarrow> (0, 0) | Some (p, q) \<Rightarrow> (decimal_units p, decimal_units q * scale div 10 ^ 8))"

definition fits :: "'v OnDemand \<Rightarrow> 'v option \<Rightarrow> bool" where
  "fits J level \<longleftrightarrow>
     (case level_texts J level of None \<Rightarrow> False
      | Some (p, q) \<Rightarrow> is_decimal p \<and> is_decimal q \<and> decimal_units p < 2 ^ 64 \<and> decimal_units q < 2 ^ 64)"

definition level_units :: "PriceLevel \<Rightarrow> nat \<times> nat" where
  "level_units l = (unat (price l), unat (qty l))"

lemma fits_readable: "list_all (fits J) levels \<Longrightarrow> readable J levels"
  by (fastforce simp: list_all_iff fits_def readable_def split: option.splits)

lemma plain_level_value:
  "fits J l \<Longrightarrow> level_texts J l = Some (p, q) \<Longrightarrow>
   level_units \<lparr>price = ParseScaledDecimal 8 p, qty = ParseScaledDecimal 8 q\<rparr> = level_value J (10 ^ 8) l"
  by (simp add: level_units_def level_value_def fits_def ParseScaledDecimal_exact)

lemma contract_level_value:
  assumes "fits J l" "level_texts J l = Some (p, q)" "unat c \<le> 10 ^ 8"
  shows "level_units \<lparr>price = ParseScaledDecimal 8 p, qty = contracts_to_base c (ParseScaledDecimal 8 q)\<rparr> = level_value J (unat c) l"
proof -
  have f: "is_decimal p" "is_decimal q" "decimal_units p < 2 ^ 64" "decimal_units q < 2 ^ 64" using assms(1,2) by (simp_all add: fits_def)
  have "decimal_units q * unat c div 10 ^ 8 \<le> decimal_units q * 10 ^ 8 div 10 ^ 8" using assms(3) by (intro div_le_mono mult_left_mono) simp_all
  then have "decimal_units q * unat c div 10 ^ 8 mod 2 ^ 64 = decimal_units q * unat c div 10 ^ 8" using f(4) by (intro mod_less) simp
  moreover have "unat kScaleFactor = 10 ^ 8" by (simp add: kScaleFactor_def)
  ultimately show ?thesis
    using f by (auto simp: level_units_def level_value_def assms(2) contracts_to_base_value ParseScaledDecimal_exact)
qed

lemma side_exact:
  assumes "list_all (fits J) levels"
    and "\<And>l p q. fits J l \<Longrightarrow> level_texts J l = Some (p, q) \<Longrightarrow> level_units (f p q) = level_value J s l"
  shows "\<exists>ls. read_side (append_levels J f) (Some levels) = Some ls \<and> map level_units ls = map (level_value J s) levels"
proof -
  have "level_units (case_prod f (the (level_texts J l))) = level_value J s l" if "l \<in> set levels" for l
  proof -
    have "fits J l" using that assms(1) by (simp add: list_all_iff)
    moreover from this obtain p q where "level_texts J l = Some (p, q)" by (cases "level_texts J l") (auto simp: fits_def)
    ultimately show ?thesis using assms(2) by simp
  qed
  then show ?thesis using fits_readable[OF assms(1)] by (simp add: read_side_spec)
qed

lemma plain_side_exact:
  assumes "list_all (fits J) levels"
  shows "\<exists>ls. read_side (Binance_AppendLevels J) (Some levels) = Some ls \<and> map level_units ls = map (level_value J (10 ^ 8)) levels"
  unfolding Binance_AppendLevels_def kBinanceScale_def by (rule side_exact[OF assms]) (rule plain_level_value)

lemma contract_side_exact:
  assumes "list_all (fits J) levels" "unat c \<le> 10 ^ 8"
  shows "\<exists>ls. read_side (OKX_AppendLevels J c) (Some levels) = Some ls \<and> map level_units ls = map (level_value J (unat c)) levels"
  unfolding OKX_AppendLevels_def kOkxScale_def by (rule side_exact[OF assms(1)]) (rule contract_level_value[OF _ _ assms(2)])

text \<open>A level in contracts read as one of the base currency: the quantity is the product rounded down to the unit.\<close>

definition contracts_read :: "'v OnDemand \<Rightarrow> nat \<Rightarrow> PriceLevel \<Rightarrow> 'v option \<Rightarrow> bool" where
  "contracts_read J scale l level \<longleftrightarrow>
     (case level_texts J level of None \<Rightarrow> False
      | Some (p, q) \<Rightarrow> unat (price l) = decimal_units p \<and> unat (qty l) * 10 ^ 8 \<le> decimal_units q * scale \<and>
          decimal_units q * scale < (unat (qty l) + 1) * 10 ^ 8)"

lemma contracts_read_value:
  assumes "fits J level" "level_units l = level_value J scale level"
  shows "contracts_read J scale l level"
proof -
  obtain p q where t: "level_texts J level = Some (p, q)" using assms(1) by (cases "level_texts J level") (auto simp: fits_def)
  have v: "unat (price l) = decimal_units p" "unat (qty l) = decimal_units q * scale div 10 ^ 8"
    using assms(2) by (simp_all add: level_units_def level_value_def t)
  have "x div y * y \<le> x \<and> x < (x div y + 1) * y" if "y > 0" for x y :: nat
    using that div_times_less_eq_dividend[of x y] dividend_less_div_times[of y x] by simp
  from this[of "10 ^ 8" "decimal_units q * scale"] show ?thesis by (simp add: contracts_read_def t v)
qed

lemma contracts_read_all:
  assumes "list_all (fits J) levels" "map level_units ls = map (level_value J scale) levels"
  shows "list_all2 (contracts_read J scale) ls levels"
proof -
  have n: "length ls = length levels" using map_eq_imp_length_eq[OF assms(2)] .
  have "level_units (ls ! i) = level_value J scale (levels ! i)" if "i < length ls" for i
    using arg_cong[OF assms(2), of "\<lambda>xs. xs ! i"] that n by simp
  then show ?thesis using assms(1) n by (auto simp: list_all2_conv_all_nth list_all_length intro: contracts_read_value)
qed

end
