(* ===== verification/Sessions.thy ===== *)
theory Sessions
  imports Message_Parsers
begin

text \<open>
  One websocket (\<^verbatim>\<open>md_provider/ws/ws.cpp\<close>) and the sockets of one provider with the thread that serves them
  (\<^verbatim>\<open>md_provider/md_provider.cpp\<close>: \<^verbatim>\<open>Run\<close>, \<^verbatim>\<open>CreateCombinedSession\<close>, \<^verbatim>\<open>OnCombinedSessionClosed\<close>,
  \<^verbatim>\<open>RequestResync\<close>, \<^verbatim>\<open>Start\<close>, \<^verbatim>\<open>Stop\<close>, the destructor).

  A session has at most one asynchronous operation outstanding; each handler is a function of how the operation ended, and
  \<open>session_step\<close> completes it. \<open>Net\<close> is a provider (whose own state and handlers are those of \<open>Provider_Base\<close>,
  \<open>Venue_Providers\<close> and \<open>Message_Parsers\<close>) with every session the io_context still knows, the watchdog's timer, where the worker
  thread stands in \<^verbatim>\<open>Run\<close> and what the owner is doing; \<open>net_step\<close> interleaves the two threads. The network is
  unconstrained: any operation may fail, any message may arrive. An exception may leave any handler and any part of \<^verbatim>\<open>Run\<close> up to
  \<^verbatim>\<open>ioc.run()\<close> (\<open>cut_short\<close>), and the catch clause goes on from there (\<open>caught\<close>); \<open>net_step_of False\<close> are the runs in which none
  does. Stop's own accesses to the provider are one step, and so is
  the part of \<^verbatim>\<open>Run\<close> from \<^verbatim>\<open>ioc.restart()\<close> to \<^verbatim>\<open>ioc.run()\<close>; the test of the loop and the restart are two, with
  \<^verbatim>\<open>OnReconnect\<close>, which may block, between them.

  \<open>connection_client\<close> is what this needs of a venue: its handlers leave the counts of live connections alone. The three venues
  are its interpretations. The lemmas show \<open>net_ok\<close> in every state reached without an exception (the counts are the sessions that have not
  reported their end; no session is forgotten; one that was stopped says nothing) and \<open>net_sound\<close> in every state (the counts are
  never too high; an exception can make them too low, \<open>thrown_miscounts\<close>), that a total outage is given out and ends the run, that a
  call of \<^verbatim>\<open>Stop\<close> joins the thread under every schedule unless it comes between the test and the restart, and what happens
  to a provider that has given up.

  \<open>process_step\<close> is the provider process around it (\<^verbatim>\<open>aggregator/md_provider_main.cpp\<close>): its main thread says hello on the
  socket to the core, starts the provider, stops it at a signal and says goodbye.
\<close>


section \<open>One websocket (ws.cpp)\<close>

text \<open>The asynchronous operation a session has outstanding; its completion runs the handler of the same stage.\<close>

datatype PendingOp = Resolving | Connecting | SslHandshaking | Handshaking | SubscribeWriting | Reading

text \<open>\<open>ss_subscribed\<close>: the subscribe frame has been written. \<open>ss_conn_index\<close> is what the provider's callbacks have captured.\<close>

record WsSession =
  ss_op :: "PendingOp option"
  ss_host :: string
  ss_target :: string
  ss_subscribe_message :: string
  ss_subscribed :: bool
  ss_has_on_message :: bool
  ss_has_on_closed :: bool
  ss_closed_notified :: bool
  ss_stopped :: bool
  ss_conn_index :: u32

text \<open>The arguments of \<^verbatim>\<open>Run\<close>: where to connect, what to ask for there, the frame to send once there.\<close>

record Dial =
  dl_host :: string
  dl_port :: string
  dl_target :: string
  dl_subscribe :: string

text \<open>What a handler calls of its owner.\<close>

datatype SessionCall = NoCall | ClosedCall | MessageCall string

definition new_session :: "u32 \<Rightarrow> WsSession" where
  "new_session conn_index =
     \<lparr>ss_op = None, ss_host = [], ss_target = [], ss_subscribe_message = [], ss_subscribed = False, ss_has_on_message = True, ss_has_on_closed = True,
      ss_closed_notified = False, ss_stopped = False, ss_conn_index = conn_index\<rparr>"

definition Session_Run :: "Dial \<Rightarrow> WsSession \<Rightarrow> WsSession" where
  "Session_Run dial s =
     (if ss_stopped s then s
      else s\<lparr>ss_host := dl_host dial, ss_target := dl_target dial, ss_subscribe_message := dl_subscribe dial, ss_op := Some Resolving\<rparr>)"

definition Session_Stop :: "WsSession \<Rightarrow> WsSession" where
  "Session_Stop s = s\<lparr>ss_stopped := True\<rparr>"

definition NotifyClosed :: "WsSession \<Rightarrow> SessionCall \<times> WsSession" where
  "NotifyClosed s =
     (if ss_stopped s \<or> ss_closed_notified s then (NoCall, s)
      else (if ss_has_on_closed s then ClosedCall else NoCall, s\<lparr>ss_closed_notified := True\<rparr>))"

definition OnResolve :: "bool \<Rightarrow> WsSession \<Rightarrow> SessionCall \<times> WsSession" where
  "OnResolve ec s =
     (if ec then NotifyClosed s else if ss_stopped s then (NoCall, s) else (NoCall, s\<lparr>ss_op := Some Connecting\<rparr>))"

definition OnConnect :: "bool \<Rightarrow> bool \<Rightarrow> WsSession \<Rightarrow> SessionCall \<times> WsSession" where
  "OnConnect ec sni_ok s =
     (if ec then NotifyClosed s else if ss_stopped s then (NoCall, s)
      else if \<not> sni_ok then NotifyClosed s else (NoCall, s\<lparr>ss_op := Some SslHandshaking\<rparr>))"

definition OnSslHandshake :: "bool \<Rightarrow> WsSession \<Rightarrow> SessionCall \<times> WsSession" where
  "OnSslHandshake ec s =
     (if ec then NotifyClosed s else if ss_stopped s then (NoCall, s) else (NoCall, s\<lparr>ss_op := Some Handshaking\<rparr>))"

definition OnHandshake :: "bool \<Rightarrow> WsSession \<Rightarrow> SessionCall \<times> WsSession" where
  "OnHandshake ec s =
     (if ec then NotifyClosed s else if ss_stopped s then (NoCall, s)
      else if ss_subscribe_message s \<noteq> [] then (NoCall, s\<lparr>ss_op := Some SubscribeWriting\<rparr>)
      else (NoCall, s\<lparr>ss_op := Some Reading\<rparr>))"

definition OnSubscribeWrite :: "bool \<Rightarrow> WsSession \<Rightarrow> SessionCall \<times> WsSession" where
  "OnSubscribeWrite ec s =
     (if ec then NotifyClosed s
      else let s = s\<lparr>ss_subscribed := True\<rparr>
           in if ss_stopped s then (NoCall, s) else (NoCall, s\<lparr>ss_op := Some Reading\<rparr>))"

text \<open>\<open>None\<close> is an error, the peer's close among them. The callback runs before the next read is issued.\<close>

definition OnRead :: "string option \<Rightarrow> WsSession \<Rightarrow> SessionCall \<times> WsSession" where
  "OnRead received s =
     (case received of
        None \<Rightarrow> NotifyClosed s
      | Some message \<Rightarrow>
          if ss_stopped s then (NoCall, s)
          else (if message \<noteq> [] \<and> ss_has_on_message s then MessageCall message else NoCall, s\<lparr>ss_op := Some Reading\<rparr>))"

inductive session_step :: "WsSession \<Rightarrow> SessionCall \<times> WsSession \<Rightarrow> bool" where
  resolved: "ss_op s = Some Resolving \<Longrightarrow> session_step s (OnResolve ec (s\<lparr>ss_op := None\<rparr>))"
| connected: "ss_op s = Some Connecting \<Longrightarrow> session_step s (OnConnect ec sni_ok (s\<lparr>ss_op := None\<rparr>))"
| ssl_done: "ss_op s = Some SslHandshaking \<Longrightarrow> session_step s (OnSslHandshake ec (s\<lparr>ss_op := None\<rparr>))"
| handshaken: "ss_op s = Some Handshaking \<Longrightarrow> session_step s (OnHandshake ec (s\<lparr>ss_op := None\<rparr>))"
| subscribed: "ss_op s = Some SubscribeWriting \<Longrightarrow> session_step s (OnSubscribeWrite ec (s\<lparr>ss_op := None\<rparr>))"
| received: "ss_op s = Some Reading \<Longrightarrow> session_step s (OnRead message (s\<lparr>ss_op := None\<rparr>))"

inductive_cases session_stepE: "session_step s r"

section \<open>What a session never does\<close>

text \<open>
  A session that its owner has not stopped and that has not reported its end has exactly one operation outstanding: it
  will be heard of again. It reads only what it has subscribed to. \<open>session_sound\<close> is what is left of this for a session whose
  handler an exception has ended.
\<close>

definition session_sound :: "WsSession \<Rightarrow> bool" where
  "session_sound s \<longleftrightarrow>
     (ss_op s = Some Reading \<longrightarrow> ss_subscribed s \<or> ss_subscribe_message s = []) \<and>
     ss_has_on_closed s \<and> ss_has_on_message s \<and> (ss_closed_notified s \<longrightarrow> ss_op s = None)"

definition websocket_ok :: "WsSession \<Rightarrow> bool" where
  "websocket_ok s \<longleftrightarrow> (ss_op s = None \<longrightarrow> ss_stopped s \<or> ss_closed_notified s) \<and> session_sound s"

lemmas session_handlers = OnResolve_def OnConnect_def OnSslHandshake_def OnHandshake_def OnSubscribeWrite_def OnRead_def
  NotifyClosed_def Let_def

lemma session_step_ok: "session_step s (call, s') \<Longrightarrow> websocket_ok s \<Longrightarrow> websocket_ok s'"
  by (erule session_stepE) (auto simp: session_handlers websocket_ok_def session_sound_def split: if_splits option.splits)

lemma session_step_sound: "session_step s (call, s') \<Longrightarrow> session_sound s \<Longrightarrow> session_sound s'"
  by (erule session_stepE) (auto simp: session_handlers session_sound_def split: if_splits option.splits)

lemma websocket_sound: "websocket_ok s \<Longrightarrow> session_sound s"
  by (simp add: websocket_ok_def)

text \<open>The owner hears of the end once, and of nothing after it has stopped the session.\<close>

lemma session_step_call:
  assumes "session_step s (call, s')" "session_sound s"
  shows "ss_closed_notified s' \<longleftrightarrow> call = ClosedCall" "ss_stopped s \<Longrightarrow> call = NoCall" "ss_stopped s' = ss_stopped s"
    "ss_conn_index s' = ss_conn_index s" "\<not> ss_closed_notified s"
proof -
  have n: "\<not> ss_closed_notified s" using assms by (auto simp: session_sound_def elim: session_stepE)
  then show "\<not> ss_closed_notified s" .
  show "ss_closed_notified s' \<longleftrightarrow> call = ClosedCall" "ss_stopped s \<Longrightarrow> call = NoCall" "ss_stopped s' = ss_stopped s"
    "ss_conn_index s' = ss_conn_index s"
    using assms n by (auto elim!: session_stepE simp: session_handlers session_sound_def split: if_splits option.splits)
qed

lemma new_session_ok: "websocket_ok (Session_Run m (new_session c))"
  by (simp add: websocket_ok_def session_sound_def Session_Run_def new_session_def)

text \<open>What a session has been told to ask for, it keeps.\<close>

definition dialled :: "Dial \<Rightarrow> WsSession \<Rightarrow> bool" where
  "dialled dial s \<longleftrightarrow> ss_host s = dl_host dial \<and> ss_target s = dl_target dial \<and> ss_subscribe_message s = dl_subscribe dial"

lemma session_step_dialled: "session_step s (call, s') \<Longrightarrow> dialled dial s \<Longrightarrow> dialled dial s'"
  by (erule session_stepE) (auto simp: session_handlers dialled_def split: if_splits option.splits)

lemma new_session_dialled: "dialled dial (Session_Run dial (new_session c))"
  by (simp add: dialled_def Session_Run_def new_session_def)

lemma Session_Stop_ok: "websocket_ok s \<Longrightarrow> websocket_ok (Session_Stop s)"
  by (simp add: websocket_ok_def session_sound_def Session_Stop_def)

lemma Session_Stop_sound: "session_sound s \<Longrightarrow> session_sound (Session_Stop s)"
  by (simp add: session_sound_def Session_Stop_def)


section \<open>A provider and its sessions\<close>

text \<open>
  Where the worker thread stands in \<^verbatim>\<open>Provider::Run\<close>: no thread (never started, or thread_joined), before the test of the
  loop, between the test and \<^verbatim>\<open>ioc.run()\<close>, inside it, after it, returned but not thread_joined.
\<close>

datatype RunPhase = NoThread | AtTop | Starting | InRun | AfterRun | Finished

text \<open>The thread that owns the provider: free to call, blocked in the join of \<^verbatim>\<open>Stop\<close>, done with the provider's destruction,
  or ended with the process by \<^verbatim>\<open>std::terminate\<close>.\<close>

datatype ProviderOwner = Free | Joining | Gone | Terminated

text \<open>
  Every session whose operations the io_context may still complete, in the order of creation; those from \<open>nt_first\<close> on are
  the ones in \<^verbatim>\<open>sessions_\<close>. An earlier one is kept alive by its outstanding operation alone.
\<close>

record 'p Net =
  nt_provider :: 'p
  nt_sessions :: "WsSession list"
  nt_first :: nat
  nt_timer :: bool
  nt_phase :: RunPhase
  nt_owner :: ProviderOwner

definition new_net :: "'p \<Rightarrow> 'p Net" where
  "new_net p = \<lparr>nt_provider = p, nt_sessions = [], nt_first = 0, nt_timer = False, nt_phase = NoThread, nt_owner = Free\<rparr>"

definition current_sessions :: "'p Net \<Rightarrow> WsSession list" where
  "current_sessions n = drop (nt_first n) (nt_sessions n)"

definition stop_sessions :: "'p Net \<Rightarrow> 'p Net" where
  "stop_sessions n = n\<lparr>nt_sessions := take (nt_first n) (nt_sessions n) @ map Session_Stop (current_sessions n)\<rparr>"

text \<open>A handler has run; it has ended the run only in \<^verbatim>\<open>RequestResync\<close>, which stops the sessions as well.\<close>

definition after_handler :: "'a Provider_scheme \<Rightarrow> 'a Provider_scheme Net \<Rightarrow> 'a Provider_scheme Net" where
  "after_handler p n =
     (let n = n\<lparr>nt_provider := p\<rparr> in if pv_io_running p then n else stop_sessions n)"

text \<open>What the counts and the loop are about.\<close>

definition connection_state :: "'a Provider_scheme \<Rightarrow> u32 \<times> u32 \<times> bool" where
  "connection_state p = (pv_depth_live p, pv_bbo_live p, pv_running p)"

text \<open>
  The catch clause of \<^verbatim>\<open>Run\<close>. \<open>cut_short n p n'\<close>: an exception leaves a handler, \<^verbatim>\<open>OnReconnect\<close> or the set-up of the run; the
  provider is by then some \<open>p\<close>, of which only what the cut code had done to the counts and \<^verbatim>\<open>running\<close> is said. A session whose
  handler is cut issues no further operation, the timer is not set again, and the other sessions keep their operations: nothing
  stops them. \<open>caught\<close> is the clause itself.
\<close>

inductive cut_short ::
  "('a Provider_scheme \<Rightarrow> 'a Provider_scheme \<Rightarrow> bool) \<Rightarrow> ('a Provider_scheme \<Rightarrow> bool \<times> 'a Provider_scheme) set \<Rightarrow> Dial \<Rightarrow>
   'a Provider_scheme Net \<Rightarrow> 'a Provider_scheme \<Rightarrow> 'a Provider_scheme Net \<Rightarrow> bool"
  for G K dial where
  cut_message: "nt_phase n = InRun \<Longrightarrow> pv_io_running (nt_provider n) \<Longrightarrow> i < length (nt_sessions n) \<Longrightarrow>
    ss_op (nt_sessions n ! i) \<noteq> None \<Longrightarrow> connection_state p = connection_state (nt_provider n) \<Longrightarrow>
    cut_short G K dial n p (n\<lparr>nt_sessions := (nt_sessions n)[i := (nt_sessions n ! i)\<lparr>ss_op := None\<rparr>]\<rparr>)"
| cut_closed: "nt_phase n = InRun \<Longrightarrow> pv_io_running (nt_provider n) \<Longrightarrow> i < length (nt_sessions n) \<Longrightarrow>
    session_step (nt_sessions n ! i) (ClosedCall, s) \<Longrightarrow>
    connection_state p = connection_state (OnCombinedSessionClosed (\<lambda>q. (True, q)) (nt_provider n)) \<Longrightarrow>
    cut_short G K dial n p (n\<lparr>nt_sessions := (nt_sessions n)[i := s]\<rparr>)"
| cut_posted: "nt_phase n = InRun \<Longrightarrow> pv_io_running (nt_provider n) \<Longrightarrow> G (nt_provider n) q \<Longrightarrow>
    connection_state p = connection_state (nt_provider n) \<Longrightarrow> cut_short G K dial n p n"
| cut_tick: "nt_phase n = InRun \<Longrightarrow> pv_io_running (nt_provider n) \<Longrightarrow> nt_timer n \<Longrightarrow>
    connection_state p = connection_state (nt_provider n) \<Longrightarrow> cut_short G K dial n p (n\<lparr>nt_timer := False\<rparr>)"
| cut_hook: "nt_phase n = Starting \<Longrightarrow> connection_state p = connection_state (nt_provider n) \<Longrightarrow> cut_short G K dial n p n"
| cut_setup: "nt_phase n = Starting \<Longrightarrow> hook \<in> K \<Longrightarrow> fst (hook (nt_provider n)) \<Longrightarrow>
    j \<le> unat (max 1 (pv_connections (nt_provider n))) \<Longrightarrow>
    pv_bbo_live p = pv_depth_live p \<Longrightarrow> pv_running p = pv_running (nt_provider n) \<Longrightarrow>
    cut_short G K dial n p
      (n\<lparr>nt_first := length (nt_sessions n),
         nt_sessions := nt_sessions n @ map (\<lambda>i. Session_Run dial (new_session (of_nat i))) [0..<j]\<rparr>)"

definition caught :: "'a Provider_scheme \<Rightarrow> 'a Provider_scheme Net \<Rightarrow> 'a Provider_scheme Net" where
  "caught p n = n\<lparr>nt_phase := AtTop, nt_provider := snd (HandleReconnection (p\<lparr>pv_io_running := False\<rparr>))\<rparr>"

lemma cut_short_phase: "cut_short G K dial n p n' \<Longrightarrow> nt_phase n = InRun \<and> pv_io_running (nt_provider n) \<or> nt_phase n = Starting"
  by (erule cut_short.cases) auto

text \<open>A thread object that may still be thread_joined is destroyed or assigned to: the process ends.\<close>

definition terminated :: "'p Net \<Rightarrow> 'p Net" where
  "terminated n = n\<lparr>nt_phase := NoThread, nt_owner := Terminated\<rparr>"

text \<open>
  The steps of the worker thread, which the sessions, the timer and the posted handlers run on, and the owner's calls. The
  destructor's own \<^verbatim>\<open>Stop\<close> is \<open>net_stop\<close> and \<open>net_join\<close>; a call of \<^verbatim>\<open>Stop\<close> that finds \<^verbatim>\<open>running\<close> unset does nothing.
  \<open>H\<close> is what a message may do to the
  provider, \<open>G\<close> what a posted handler may, \<open>K\<close> the hooks \<^verbatim>\<open>OnReconnect\<close> may be, \<open>dial\<close> what the sessions are run with.
\<close>

inductive net_step_of ::
  "bool \<Rightarrow> (string \<Rightarrow> u32 \<Rightarrow> 'a Provider_scheme \<Rightarrow> 'a Provider_scheme \<Rightarrow> bool) \<Rightarrow> ('a Provider_scheme \<Rightarrow> 'a Provider_scheme \<Rightarrow> bool) \<Rightarrow>
   ('a Provider_scheme \<Rightarrow> bool \<times> 'a Provider_scheme) set \<Rightarrow> Dial \<Rightarrow> 'a Provider_scheme Net \<Rightarrow> 'a Provider_scheme Net \<Rightarrow> bool"
  for throws H G K dial where
  net_quiet: "nt_phase n = InRun \<Longrightarrow> pv_io_running (nt_provider n) \<Longrightarrow> i < length (nt_sessions n) \<Longrightarrow>
    session_step (nt_sessions n ! i) (NoCall, s) \<Longrightarrow> net_step_of throws H G K dial n (n\<lparr>nt_sessions := (nt_sessions n)[i := s]\<rparr>)"
| net_closed: "nt_phase n = InRun \<Longrightarrow> pv_io_running (nt_provider n) \<Longrightarrow> i < length (nt_sessions n) \<Longrightarrow>
    session_step (nt_sessions n ! i) (ClosedCall, s) \<Longrightarrow> hook \<in> K \<Longrightarrow>
    net_step_of throws H G K dial n
      (n\<lparr>nt_sessions := (nt_sessions n)[i := s], nt_provider := OnCombinedSessionClosed hook (nt_provider n)\<rparr>)"
| net_message: "nt_phase n = InRun \<Longrightarrow> pv_io_running (nt_provider n) \<Longrightarrow> i < length (nt_sessions n) \<Longrightarrow>
    session_step (nt_sessions n ! i) (MessageCall m, s) \<Longrightarrow> H m (ss_conn_index s) (nt_provider n) p \<Longrightarrow>
    net_step_of throws H G K dial n (after_handler p (n\<lparr>nt_sessions := (nt_sessions n)[i := s]\<rparr>))"
| net_posted: "nt_phase n = InRun \<Longrightarrow> pv_io_running (nt_provider n) \<Longrightarrow> G (nt_provider n) p \<Longrightarrow>
    net_step_of throws H G K dial n (after_handler p n)"
| net_tick: "nt_phase n = InRun \<Longrightarrow> pv_io_running (nt_provider n) \<Longrightarrow> nt_timer n \<Longrightarrow>
    health_tick clk (nt_provider n) = (again, p) \<Longrightarrow>
    net_step_of throws H G K dial n (n\<lparr>nt_timer := again, nt_provider := p\<rparr>)"
| net_return: "nt_phase n = InRun \<Longrightarrow>
    \<not> pv_io_running (nt_provider n) \<or> \<not> nt_timer n \<and> list_all (\<lambda>s. ss_op s = None) (nt_sessions n) \<Longrightarrow>
    net_step_of throws H G K dial n (n\<lparr>nt_phase := AfterRun, nt_provider := (nt_provider n)\<lparr>pv_io_running := False\<rparr>\<rparr>)"
| net_after: "nt_phase n = AfterRun \<Longrightarrow>
    net_step_of throws H G K dial n (n\<lparr>nt_phase := AtTop, nt_provider := snd (end_run (nt_provider n))\<rparr>)"
| net_top: "nt_phase n = AtTop \<Longrightarrow>
    net_step_of throws H G K dial n (n\<lparr>nt_phase := if pv_running (nt_provider n) then Starting else Finished\<rparr>)"
| net_refused: "nt_phase n = Starting \<Longrightarrow> hook \<in> K \<Longrightarrow> \<not> fst (hook (nt_provider n)) \<Longrightarrow>
    net_step_of throws H G K dial n (n\<lparr>nt_phase := AtTop, nt_provider := snd (begin_run hook (nt_provider n))\<rparr>)"
| net_begin: "nt_phase n = Starting \<Longrightarrow> hook \<in> K \<Longrightarrow> fst (hook (nt_provider n)) \<Longrightarrow>
    net_step_of throws H G K dial n
      (n\<lparr>nt_phase := InRun, nt_provider := snd (begin_run hook (nt_provider n)), nt_timer := True,
         nt_first := length (nt_sessions n),
         nt_sessions := nt_sessions n @
           map (\<lambda>i. Session_Run dial (new_session (of_nat i))) [0..<unat (max 1 (pv_connections (nt_provider n)))]\<rparr>)"
| net_start: "nt_owner n = Free \<Longrightarrow> \<not> pv_running (nt_provider n) \<Longrightarrow>
    net_step_of throws H G K dial n
      (if nt_phase n = NoThread then n\<lparr>nt_provider := Start (nt_provider n), nt_phase := AtTop\<rparr> else terminated n)"
| net_stop: "nt_owner n = Free \<Longrightarrow> pv_running (nt_provider n) \<Longrightarrow>
    net_step_of throws H G K dial n ((stop_sessions n)\<lparr>nt_provider := Stop (nt_provider n), nt_owner := Joining\<rparr>)"
| net_join: "nt_owner n = Joining \<Longrightarrow> nt_phase n = Finished \<Longrightarrow>
    net_step_of throws H G K dial n (n\<lparr>nt_phase := NoThread, nt_owner := Free\<rparr>)"
| net_destroy: "nt_owner n = Free \<Longrightarrow> \<not> pv_running (nt_provider n) \<Longrightarrow>
    net_step_of throws H G K dial n (if nt_phase n = NoThread then n\<lparr>nt_owner := Gone\<rparr> else terminated n)"
| net_thrown: "throws \<Longrightarrow> cut_short G K dial n p n' \<Longrightarrow> net_step_of throws H G K dial n (caught p n')"

text \<open>The program is the relation in which handlers may throw; the other one is its runs without an exception.\<close>

abbreviation net_step ::
  "(string \<Rightarrow> u32 \<Rightarrow> 'a Provider_scheme \<Rightarrow> 'a Provider_scheme \<Rightarrow> bool) \<Rightarrow> ('a Provider_scheme \<Rightarrow> 'a Provider_scheme \<Rightarrow> bool) \<Rightarrow>
   ('a Provider_scheme \<Rightarrow> bool \<times> 'a Provider_scheme) set \<Rightarrow> Dial \<Rightarrow> 'a Provider_scheme Net \<Rightarrow> 'a Provider_scheme Net \<Rightarrow> bool" where
  "net_step \<equiv> net_step_of True"

lemma thrown_allowed: "net_step_of throws H G K dial n n' \<Longrightarrow> net_step H G K dial n n'"
  by (induction rule: net_step_of.induct) (rule net_step_of.intros; simp)+

section \<open>The count of live connections\<close>

text \<open>
  The provider's counters are the number of its sessions that have not reported their end; sessions of an earlier run have
  nothing left to say.
\<close>

definition silent :: "WsSession \<Rightarrow> bool" where
  "silent s \<longleftrightarrow> ss_stopped s \<or> ss_closed_notified s"

definition open_count :: "WsSession list \<Rightarrow> nat" where
  "open_count ss = length (filter (\<lambda>s. \<not> ss_closed_notified s) ss)"

definition net_ok :: "'a Provider_scheme Net \<Rightarrow> bool" where
  "net_ok n \<longleftrightarrow>
     list_all websocket_ok (nt_sessions n) \<and> nt_first n \<le> length (nt_sessions n) \<and>
     list_all silent (take (nt_first n) (nt_sessions n)) \<and>
     unat (pv_depth_live (nt_provider n)) = open_count (current_sessions n) \<and> pv_bbo_live (nt_provider n) = pv_depth_live (nt_provider n) \<and>
     (\<not> pv_io_running (nt_provider n) \<longrightarrow> list_all silent (nt_sessions n)) \<and>
     (nt_phase n \<noteq> InRun \<longrightarrow> \<not> pv_io_running (nt_provider n)) \<and>
     (pv_running (nt_provider n) \<longrightarrow> nt_phase n \<noteq> NoThread \<and> nt_phase n \<noteq> Finished) \<and>
     (nt_owner n = Free \<and> \<not> pv_running (nt_provider n) \<longrightarrow>
        nt_phase n = NoThread \<or> nt_phase n = AtTop \<or> nt_phase n = Finished) \<and>
     (nt_owner n = Joining \<longrightarrow> \<not> pv_running (nt_provider n) \<and> nt_phase n \<noteq> NoThread) \<and>
     (nt_phase n \<noteq> NoThread \<longrightarrow> nt_owner n \<noteq> Gone \<and> nt_owner n \<noteq> Terminated)"

text \<open>
  What is left once an exception has ended a run: sockets it has left behind may still speak, and take their end off the counts
  of the next run, so the counts may be too low, but never too high.
\<close>

definition phases_ok :: "'a Provider_scheme Net \<Rightarrow> bool" where
  "phases_ok n \<longleftrightarrow>
     (nt_phase n \<noteq> InRun \<longrightarrow> \<not> pv_io_running (nt_provider n)) \<and>
     (pv_running (nt_provider n) \<longrightarrow> nt_phase n \<noteq> NoThread \<and> nt_phase n \<noteq> Finished) \<and>
     (nt_owner n = Free \<and> \<not> pv_running (nt_provider n) \<longrightarrow>
        nt_phase n = NoThread \<or> nt_phase n = AtTop \<or> nt_phase n = Finished) \<and>
     (nt_owner n = Joining \<longrightarrow> \<not> pv_running (nt_provider n) \<and> nt_phase n \<noteq> NoThread) \<and>
     (nt_phase n \<noteq> NoThread \<longrightarrow> nt_owner n \<noteq> Gone \<and> nt_owner n \<noteq> Terminated)"

definition net_sound :: "'a Provider_scheme Net \<Rightarrow> bool" where
  "net_sound n \<longleftrightarrow>
     list_all session_sound (nt_sessions n) \<and> nt_first n \<le> length (nt_sessions n) \<and>
     pv_bbo_live (nt_provider n) = pv_depth_live (nt_provider n) \<and>
     (nt_phase n = InRun \<longrightarrow> unat (pv_depth_live (nt_provider n)) \<le> open_count (current_sessions n)) \<and> phases_ok n"

lemma net_ok_sound: "net_ok n \<Longrightarrow> net_sound n"
  unfolding net_ok_def net_sound_def phases_ok_def
  by (elim conjE, intro conjI; (assumption | simp add: list_all_iff websocket_sound))

lemma open_count_update:
  "i < length ss \<Longrightarrow> \<not> ss_closed_notified (ss ! i) \<Longrightarrow>
   open_count ss = open_count (ss[i := s]) + (if ss_closed_notified s then 1 else 0)"
proof (induction ss arbitrary: i)
  case (Cons x ss)
  then show ?case by (cases i) (auto simp: open_count_def)
qed simp

lemma open_count_stopped: "open_count (map Session_Stop ss) = open_count ss"
  by (induction ss) (simp_all add: open_count_def Session_Stop_def)

lemma drop_update_if: "i < length xs \<Longrightarrow> drop k (xs[i := x]) = (if i < k then drop k xs else (drop k xs)[i - k := x])"
  by (simp add: drop_update_swap)

text \<open>One session takes a step: what becomes of the counts.\<close>

lemma session_in_net:
  assumes "net_ok n" "i < length (nt_sessions n)" "session_step (nt_sessions n ! i) (call, s)"
  defines "n' \<equiv> n\<lparr>nt_sessions := (nt_sessions n)[i := s]\<rparr>"
  shows "list_all websocket_ok (nt_sessions n')" "list_all silent (take (nt_first n) (nt_sessions n'))"
    "open_count (current_sessions n) = open_count (current_sessions n') + (if call = ClosedCall then 1 else 0)"
    "call \<noteq> NoCall \<Longrightarrow> nt_first n \<le> i"
proof -
  let ?s = "nt_sessions n ! i"
  have all: "list_all websocket_ok (nt_sessions n)" "list_all silent (take (nt_first n) (nt_sessions n))" "nt_first n \<le> length (nt_sessions n)"
    using assms(1) by (simp_all add: net_ok_def)
  have ok: "websocket_ok ?s" using all(1) assms(2) by (simp add: list_all_length)
  note step = session_step_ok[OF assms(3) ok] session_step_call[OF assms(3) websocket_sound[OF ok]]
  have mem: "silent ?s" if "i < nt_first n" using that all(2,3) assms(2) by (auto simp: list_all_length)
  show "list_all websocket_ok (nt_sessions n')"
    using all(1) step(1) by (auto simp: n'_def list_all_iff dest!: set_update_subset_insert[THEN subsetD])
  show "list_all silent (take (nt_first n) (nt_sessions n'))"
  proof (cases "i < nt_first n")
    case True
    then have "ss_stopped ?s" using mem step(6) by (auto simp: silent_def)
    then have "silent s" using step(4) by (simp add: silent_def)
    then show ?thesis using all(2) by (auto simp: n'_def take_update_swap list_all_iff dest!: set_update_subset_insert[THEN subsetD])
  qed (use all(2) in \<open>simp add: n'_def\<close>)
  show late: "nt_first n \<le> i" if "call \<noteq> NoCall"
  proof (rule ccontr)
    assume "\<not> nt_first n \<le> i"
    then have "ss_stopped ?s" using mem step(6) by (auto simp: silent_def)
    then show False using step(3) that by simp
  qed
  show "open_count (current_sessions n) = open_count (current_sessions n') + (if call = ClosedCall then 1 else 0)"
  proof (cases "i < nt_first n")
    case True
    then have "call = NoCall" using late by fastforce
    then show ?thesis using True assms(2) by (simp add: n'_def current_sessions_def drop_update_if)
  next
    case False
    then have "i - nt_first n < length (current_sessions n)" "current_sessions n ! (i - nt_first n) = ?s" using assms(2) all(3) by (simp_all add: current_sessions_def)
    then show ?thesis using open_count_update[of "i - nt_first n" "current_sessions n" s] step(2,6) False assms(2)
      by (simp add: n'_def current_sessions_def drop_update_if)
  qed
qed


text \<open>What the net relies on of a venue: its handlers and its hook leave the two counters alone, and only end the run.\<close>

locale connection_client =
  fixes H :: "string \<Rightarrow> u32 \<Rightarrow> 'a Provider_scheme \<Rightarrow> 'a Provider_scheme \<Rightarrow> bool"
    and G :: "'a Provider_scheme \<Rightarrow> 'a Provider_scheme \<Rightarrow> bool"
    and K :: "('a Provider_scheme \<Rightarrow> bool \<times> 'a Provider_scheme) set"
  assumes message_live: "H m c p p' \<Longrightarrow> connection_state p' = connection_state p"
    and posted_live: "G p p' \<Longrightarrow> connection_state p' = connection_state p"
    and hook_live: "hook \<in> K \<Longrightarrow> connection_state (snd (hook p)) = connection_state p \<and> pv_io_running (snd (hook p)) = pv_io_running p \<and> pv_connections (snd (hook p)) = pv_connections p"
begin

lemma handled_ok:
  assumes "net_ok n" "nt_phase n = InRun" "connection_state p = connection_state (nt_provider n)"
  shows "net_ok (after_handler p n)"
proof (cases "pv_io_running p")
  case True
  then show ?thesis using assms by (simp add: net_ok_def after_handler_def current_sessions_def connection_state_def)
next
  case False
  have l: "nt_first n \<le> length (nt_sessions n)" "list_all websocket_ok (nt_sessions n)" "list_all silent (take (nt_first n) (nt_sessions n))"
    using assms(1) by (simp_all add: net_ok_def)
  have "list_all websocket_ok (take (nt_first n) (nt_sessions n) @ map Session_Stop (current_sessions n))"
    using l(2) Session_Stop_ok by (auto simp: list_all_iff current_sessions_def dest: in_set_takeD in_set_dropD)
  moreover have "list_all silent (map Session_Stop (current_sessions n))" by (auto simp: list_all_iff silent_def Session_Stop_def)
  ultimately show ?thesis using assms False l
    by (simp add: net_ok_def after_handler_def stop_sessions_def current_sessions_def open_count_stopped connection_state_def)
qed

lemma closed_live:
  assumes "hook \<in> K" "0 < unat (pv_depth_live p)" "pv_bbo_live p = pv_depth_live p"
  shows "unat (pv_depth_live (OnCombinedSessionClosed hook p)) = unat (pv_depth_live p) - 1"
    "pv_bbo_live (OnCombinedSessionClosed hook p) = pv_depth_live (OnCombinedSessionClosed hook p)"
    "pv_io_running (OnCombinedSessionClosed hook p) = pv_io_running p" "pv_running (OnCombinedSessionClosed hook p) = pv_running p"
proof -
  have "pv_depth_live p > 0" using assms(2) by (simp add: word_less_nat_alt)
  then have "unat (pv_depth_live p - 1) = unat (pv_depth_live p) - 1" by (simp add: unat_minus_one word_gt_0)
  then show "unat (pv_depth_live (OnCombinedSessionClosed hook p)) = unat (pv_depth_live p) - 1"
    "pv_bbo_live (OnCombinedSessionClosed hook p) = pv_depth_live (OnCombinedSessionClosed hook p)"
    "pv_io_running (OnCombinedSessionClosed hook p) = pv_io_running p" "pv_running (OnCombinedSessionClosed hook p) = pv_running p"
    using hook_live[OF assms(1)] \<open>pv_depth_live p > 0\<close> assms(3)
    by (simp_all add: OnCombinedSessionClosed_def Let_def connection_state_def)
qed

end

lemma health_tick_live:
  "pv_depth_live (snd (health_tick clk p)) = pv_depth_live p" "pv_bbo_live (snd (health_tick clk p)) = pv_bbo_live p"
  "pv_io_running (snd (health_tick clk p)) = pv_io_running p" "pv_running (snd (health_tick clk p)) = pv_running p"
  by (simp_all add: health_tick_def CheckHealth_def Let_def)

lemma PublishHealth_verdict:
  "pv_last_depth_health (PublishHealth kDepth h t p) = h" "pv_last_depth_health (PublishHealth kBbo h t p) = pv_last_depth_health p"
  by (simp_all add: PublishHealth_def Let_def)

lemma end_run_live:
  "pv_depth_live (snd (end_run p)) = pv_depth_live p" "pv_bbo_live (snd (end_run p)) = pv_bbo_live p"
  "pv_io_running (snd (end_run p)) = pv_io_running p" "\<not> pv_running p \<Longrightarrow> \<not> pv_running (snd (end_run p))"
  by (simp_all add: end_run_def HandleReconnection_def Let_def)

lemma HandleReconnection_live:
  "pv_depth_live (snd (HandleReconnection p)) = pv_depth_live p" "pv_bbo_live (snd (HandleReconnection p)) = pv_bbo_live p"
  "pv_io_running (snd (HandleReconnection p)) = pv_io_running p" "\<not> pv_running p \<Longrightarrow> \<not> pv_running (snd (HandleReconnection p))"
  by (simp_all add: HandleReconnection_def Let_def)

lemma created_live:
  "pv_depth_live ((CreateCombinedSession ^^ k) p) = pv_depth_live p + of_nat k"
  "pv_bbo_live ((CreateCombinedSession ^^ k) p) = pv_bbo_live p + of_nat k"
  "pv_io_running ((CreateCombinedSession ^^ k) p) = pv_io_running p" "pv_running ((CreateCombinedSession ^^ k) p) = pv_running p"
  by (induction k) (simp_all add: CreateCombinedSession_def algebra_simps)

lemma begin_run_live:
  assumes "fst (hook p)"
  shows "pv_depth_live (snd (begin_run hook p)) = max 1 (pv_connections (snd (hook p)))"
    "pv_bbo_live (snd (begin_run hook p)) = max 1 (pv_connections (snd (hook p)))" "pv_io_running (snd (begin_run hook p))"
    "pv_running (snd (begin_run hook p)) = pv_running (snd (hook p))"
  using assms by (auto simp: begin_run_def created_live split: prod.splits bool.splits)

lemma refused_live:
  assumes "\<not> fst (hook p)"
  shows "pv_depth_live (snd (begin_run hook p)) = pv_depth_live (snd (hook p))"
    "pv_bbo_live (snd (begin_run hook p)) = pv_bbo_live (snd (hook p))" "pv_io_running (snd (begin_run hook p)) = pv_io_running (snd (hook p))"
    "\<not> pv_running (snd (hook p)) \<Longrightarrow> \<not> pv_running (snd (begin_run hook p))"
  using assms by (auto simp: begin_run_def HandleReconnection_live split: prod.splits bool.splits)

lemma new_sessions_open: "open_count (map (\<lambda>i. Session_Run m (new_session (of_nat i))) [0..<k]) = k"
  by (simp add: open_count_def Session_Run_def new_session_def)

context connection_client
begin

lemma net_step_ok:
  assumes "net_step_of False H G K dial n n'" "net_ok n"
  shows "net_ok n'"
  using assms
proof (induction rule: net_step_of.induct)
  case (net_quiet n i s)
  note s = session_in_net[OF net_quiet(5,3,4)]
  show ?case using net_quiet(1,2,5) s(1-3) by (simp add: net_ok_def current_sessions_def)
next
  case (net_closed n i s hook)
  note s = session_in_net[OF net_closed(6,3,4)]
  have live: "0 < unat (pv_depth_live (nt_provider n))" "pv_bbo_live (nt_provider n) = pv_depth_live (nt_provider n)"
    using net_closed(6) s(3) by (simp_all add: net_ok_def current_sessions_def)
  show ?case using net_closed(1,2,6) s(1-3) closed_live[OF net_closed(5) live] by (simp add: net_ok_def current_sessions_def)
next
  case (net_message n i m s p)
  note s = session_in_net[OF net_message(6,3,4)]
  have "net_ok (n\<lparr>nt_sessions := (nt_sessions n)[i := s]\<rparr>)"
    using net_message(1,2,6) s(1-3) by (simp add: net_ok_def current_sessions_def)
  then show ?case using message_live[OF net_message(5)] net_message(1) by (intro handled_ok) simp_all
next
  case (net_posted n p)
  then show ?case using posted_live by (intro handled_ok) simp_all
next
  case (net_tick n clk again p)
  have "p = snd (health_tick clk (nt_provider n))" using net_tick(4) by simp
  then show ?case using net_tick(1,2,5) by (simp add: net_ok_def current_sessions_def health_tick_live)
next
  case (net_return n)
  have "list_all silent (nt_sessions n)"
  proof (cases "pv_io_running (nt_provider n)")
    case True
    then have "list_all (\<lambda>s. ss_op s = None) (nt_sessions n)" using net_return(2) by simp
    then show ?thesis using net_return(3) by (auto simp: net_ok_def list_all_iff websocket_ok_def silent_def)
  qed (use net_return(3) in \<open>simp add: net_ok_def\<close>)
  then show ?case using net_return(1,3) by (simp add: net_ok_def current_sessions_def)
next
  case (net_after n)
  then show ?case by (simp add: net_ok_def current_sessions_def end_run_live)
next
  case (net_top n)
  then show ?case by (simp add: net_ok_def current_sessions_def)
next
  case (net_refused n hook)
  then show ?case using hook_live[OF net_refused(2)] refused_live[of hook "nt_provider n"] net_refused(3)
    by (auto simp: net_ok_def current_sessions_def connection_state_def)
next
  case (net_begin n hook)
  have "list_all silent (nt_sessions n)" using net_begin(1,4) by (simp add: net_ok_def)
  moreover have "list_all websocket_ok (map (\<lambda>i. Session_Run dial (new_session (of_nat i))) [0..<k])" for k
    using new_session_ok by (simp add: list_all_iff)
  ultimately show ?case
    using net_begin(1,4) begin_run_live[of hook "nt_provider n"] net_begin(3) hook_live[OF net_begin(2)] new_sessions_open
    by (simp add: net_ok_def current_sessions_def connection_state_def)
next
  case (net_start n)
  then show ?case by (auto simp: net_ok_def current_sessions_def Start_def terminated_def)
next
  case (net_stop n)
  have l: "nt_first n \<le> length (nt_sessions n)" "list_all websocket_ok (nt_sessions n)" "list_all silent (take (nt_first n) (nt_sessions n))"
    using net_stop(3) by (simp_all add: net_ok_def)
  have "list_all websocket_ok (take (nt_first n) (nt_sessions n) @ map Session_Stop (current_sessions n))"
    using l(2) Session_Stop_ok by (auto simp: list_all_iff current_sessions_def dest: in_set_takeD in_set_dropD)
  moreover have "list_all silent (map Session_Stop (current_sessions n))" by (auto simp: list_all_iff silent_def Session_Stop_def)
  ultimately show ?case using net_stop l
    by (simp add: net_ok_def stop_sessions_def current_sessions_def open_count_stopped Stop_def)
next
  case (net_join n)
  then show ?case by (simp add: net_ok_def current_sessions_def)
next
  case (net_destroy n)
  then show ?case by (auto simp: net_ok_def current_sessions_def terminated_def)
qed simp

lemma net_run_ok: "(net_step_of False H G K dial)\<^sup>*\<^sup>* n n' \<Longrightarrow> net_ok n \<Longrightarrow> net_ok n'"
  by (induction rule: rtranclp_induct) (auto intro: net_step_ok)

end

text \<open>With exceptions.\<close>

lemma session_in_sound_net:
  assumes "net_sound n" "i < length (nt_sessions n)" "session_step (nt_sessions n ! i) (call, s)"
  defines "n' \<equiv> n\<lparr>nt_sessions := (nt_sessions n)[i := s]\<rparr>"
  shows "list_all session_sound (nt_sessions n')"
    "call \<noteq> ClosedCall \<Longrightarrow> open_count (current_sessions n') = open_count (current_sessions n)"
    "open_count (current_sessions n) \<le> Suc (open_count (current_sessions n'))"
proof -
  let ?s = "nt_sessions n ! i"
  have all: "list_all session_sound (nt_sessions n)" "nt_first n \<le> length (nt_sessions n)"
    using assms(1) by (simp_all add: net_sound_def)
  have ok: "session_sound ?s" using all(1) assms(2) by (simp add: list_all_length)
  note step = session_step_sound[OF assms(3) ok] session_step_call[OF assms(3) ok]
  show "list_all session_sound (nt_sessions n')"
    using all(1) step(1) by (auto simp: n'_def list_all_iff dest!: set_update_subset_insert[THEN subsetD])
  have c: "open_count (current_sessions n) = open_count (current_sessions n') + (if nt_first n \<le> i \<and> call = ClosedCall then 1 else 0)"
  proof (cases "i < nt_first n")
    case True
    then show ?thesis using assms(2) by (simp add: n'_def current_sessions_def drop_update_if)
  next
    case False
    then have "i - nt_first n < length (current_sessions n)" "current_sessions n ! (i - nt_first n) = ?s"
      using assms(2) all(2) by (simp_all add: current_sessions_def)
    then show ?thesis using open_count_update[of "i - nt_first n" "current_sessions n" s] step(2,6) False assms(2)
      by (simp add: n'_def current_sessions_def drop_update_if)
  qed
  then show "call \<noteq> ClosedCall \<Longrightarrow> open_count (current_sessions n') = open_count (current_sessions n)"
    "open_count (current_sessions n) \<le> Suc (open_count (current_sessions n'))" by simp_all
qed

lemma sound_stopped: "net_sound n \<Longrightarrow> list_all session_sound (take (nt_first n) (nt_sessions n) @ map Session_Stop (current_sessions n))"
  using Session_Stop_sound by (auto simp: net_sound_def list_all_iff current_sessions_def dest: in_set_takeD in_set_dropD)

lemma new_sessions_sound: "list_all session_sound (map (\<lambda>i. Session_Run dial (new_session (of_nat i))) [0..<k])"
  using new_session_ok websocket_sound by (simp add: list_all_iff)

lemma caught_sound:
  assumes "list_all session_sound (nt_sessions n)" "nt_first n \<le> length (nt_sessions n)" "pv_bbo_live p = pv_depth_live p"
    "pv_running p = pv_running (nt_provider n0)" "net_sound n0" "nt_phase n0 = InRun \<or> nt_phase n0 = Starting" "nt_owner n = nt_owner n0"
  shows "net_sound (caught p n)"
proof -
  have "\<not> pv_running p \<Longrightarrow> \<not> pv_running (snd (HandleReconnection (p\<lparr>pv_io_running := False\<rparr>)))"
    by (simp add: HandleReconnection_live)
  moreover have "nt_owner n = Joining \<Longrightarrow> \<not> pv_running p" "nt_owner n \<noteq> Gone" "nt_owner n \<noteq> Terminated"
    using assms(4-7) by (auto simp: net_sound_def phases_ok_def)
  ultimately show ?thesis using assms(1-3)
    by (simp add: net_sound_def phases_ok_def caught_def HandleReconnection_live)
qed

lemma cut_short_sound:
  assumes "cut_short G K dial n p n'" "net_sound n"
  shows "net_sound (caught p n')"
  using assms(1)
proof cases
  case (cut_message i)
  have "list_all session_sound (nt_sessions n')"
  proof -
    have "session_sound ((nt_sessions n ! i)\<lparr>ss_op := None\<rparr>)"
      using assms(2) cut_message(4) by (simp add: net_sound_def list_all_length session_sound_def)
    then show ?thesis using assms(2) cut_message(1)
      by (auto simp: net_sound_def list_all_iff dest!: set_update_subset_insert[THEN subsetD])
  qed
  then show ?thesis
    by (rule caught_sound[where ?n0.0 = n]) (use assms(2) cut_message in \<open>simp_all add: connection_state_def net_sound_def\<close>)
next
  case (cut_closed i s)
  then have "list_all session_sound (nt_sessions n')" using session_in_sound_net(1)[OF assms(2) cut_closed(4,5)] by simp
  then show ?thesis
    by (rule caught_sound[where ?n0.0 = n])
      (use assms(2) cut_closed in \<open>simp_all add: connection_state_def net_sound_def OnCombinedSessionClosed_def Let_def\<close>)
next
  case (cut_posted q)
  show ?thesis
    by (rule caught_sound[where ?n0.0 = n]) (use assms(2) cut_posted in \<open>simp_all add: connection_state_def net_sound_def\<close>)
next
  case cut_tick
  show ?thesis
    by (rule caught_sound[where ?n0.0 = n]) (use assms(2) cut_tick in \<open>simp_all add: connection_state_def net_sound_def\<close>)
next
  case cut_hook
  show ?thesis
    by (rule caught_sound[where ?n0.0 = n]) (use assms(2) cut_hook in \<open>simp_all add: connection_state_def net_sound_def\<close>)
next
  case (cut_setup hook j)
  show ?thesis
    by (rule caught_sound[where ?n0.0 = n]) (use assms(2) cut_setup new_sessions_sound in \<open>simp_all add: net_sound_def\<close>)
qed

context connection_client
begin

lemma handled_sound:
  assumes "net_sound n" "nt_phase n = InRun" "connection_state p = connection_state (nt_provider n)"
  shows "net_sound (after_handler p n)"
proof (cases "pv_io_running p")
  case True
  then show ?thesis using assms by (simp add: net_sound_def phases_ok_def after_handler_def current_sessions_def connection_state_def)
next
  case False
  then show ?thesis using assms sound_stopped[OF assms(1)]
    by (simp add: net_sound_def phases_ok_def after_handler_def stop_sessions_def current_sessions_def open_count_stopped connection_state_def)
qed

lemma closed_sound:
  assumes "hook \<in> K" "pv_bbo_live p = pv_depth_live p"
  shows "unat (pv_depth_live (OnCombinedSessionClosed hook p)) = unat (pv_depth_live p) - 1"
    "pv_bbo_live (OnCombinedSessionClosed hook p) = pv_depth_live (OnCombinedSessionClosed hook p)"
    "pv_io_running (OnCombinedSessionClosed hook p) = pv_io_running p" "pv_running (OnCombinedSessionClosed hook p) = pv_running p"
proof -
  have "unat (pv_depth_live (OnCombinedSessionClosed hook p)) = unat (pv_depth_live p) - 1 \<and>
    pv_bbo_live (OnCombinedSessionClosed hook p) = pv_depth_live (OnCombinedSessionClosed hook p) \<and>
    pv_io_running (OnCombinedSessionClosed hook p) = pv_io_running p \<and> pv_running (OnCombinedSessionClosed hook p) = pv_running p"
  proof (cases "pv_depth_live p = 0")
    case True
    then show ?thesis using hook_live[OF assms(1)] assms(2) by (simp add: OnCombinedSessionClosed_def Let_def connection_state_def)
  next
    case False
    then have "0 < unat (pv_depth_live p)" by (simp add: unat_gt_0)
    from closed_live[OF assms(1) this assms(2)] show ?thesis by simp
  qed
  then show "unat (pv_depth_live (OnCombinedSessionClosed hook p)) = unat (pv_depth_live p) - 1"
    "pv_bbo_live (OnCombinedSessionClosed hook p) = pv_depth_live (OnCombinedSessionClosed hook p)"
    "pv_io_running (OnCombinedSessionClosed hook p) = pv_io_running p" "pv_running (OnCombinedSessionClosed hook p) = pv_running p"
    by simp_all
qed

lemma net_step_sound:
  assumes "net_step_of throws H G K dial n n'" "net_sound n"
  shows "net_sound n'"
  using assms
proof (induction rule: net_step_of.induct)
  case (net_quiet n i s)
  then show ?case using session_in_sound_net[OF net_quiet(5,3,4)] by (simp add: net_sound_def phases_ok_def current_sessions_def)
next
  case (net_closed n i s hook)
  note s = session_in_sound_net(1,3)[OF net_closed(6,3,4)]
  have "pv_bbo_live (nt_provider n) = pv_depth_live (nt_provider n)" "unat (pv_depth_live (nt_provider n)) \<le> open_count (current_sessions n)"
    using net_closed(1,6) by (simp_all add: net_sound_def)
  then have "unat (pv_depth_live (nt_provider n)) - 1 \<le> open_count (current_sessions (n\<lparr>nt_sessions := (nt_sessions n)[i := s]\<rparr>))"
    using s(2) by linarith
  with closed_sound[OF net_closed(5) \<open>pv_bbo_live (nt_provider n) = _\<close>] show ?case using net_closed(1,2,6) s(1)
    by (simp add: net_sound_def phases_ok_def current_sessions_def)
next
  case (net_message n i m s p)
  have "net_sound (n\<lparr>nt_sessions := (nt_sessions n)[i := s]\<rparr>)"
    using net_message(1,2,6) session_in_sound_net(1,2)[OF net_message(6,3,4)] by (simp add: net_sound_def phases_ok_def current_sessions_def)
  then show ?case using message_live[OF net_message(5)] net_message(1) by (intro handled_sound) simp_all
next
  case (net_posted n p)
  then show ?case using posted_live by (intro handled_sound) simp_all
next
  case (net_tick n clk again p)
  have "p = snd (health_tick clk (nt_provider n))" using net_tick(4) by simp
  then show ?case using net_tick(1,2,5) by (simp add: net_sound_def phases_ok_def current_sessions_def health_tick_live)
next
  case (net_return n)
  then show ?case by (simp add: net_sound_def phases_ok_def current_sessions_def)
next
  case (net_after n)
  then show ?case by (simp add: net_sound_def phases_ok_def current_sessions_def end_run_live)
next
  case (net_top n)
  then show ?case by (simp add: net_sound_def phases_ok_def current_sessions_def)
next
  case (net_refused n hook)
  then show ?case using hook_live[OF net_refused(2)] refused_live[of hook "nt_provider n"] net_refused(3)
    by (auto simp: net_sound_def phases_ok_def current_sessions_def connection_state_def)
next
  case (net_begin n hook)
  then show ?case
    using begin_run_live[of hook "nt_provider n"] hook_live[OF net_begin(2)] new_sessions_open new_sessions_sound
    by (simp add: net_sound_def phases_ok_def current_sessions_def connection_state_def)
next
  case (net_start n)
  then show ?case by (auto simp: net_sound_def phases_ok_def current_sessions_def Start_def terminated_def)
next
  case (net_stop n)
  then show ?case using sound_stopped[OF net_stop(3)]
    by (simp add: net_sound_def phases_ok_def stop_sessions_def current_sessions_def open_count_stopped Stop_def)
next
  case (net_join n)
  then show ?case by (simp add: net_sound_def phases_ok_def current_sessions_def)
next
  case (net_destroy n)
  then show ?case by (auto simp: net_sound_def phases_ok_def current_sessions_def terminated_def)
next
  case (net_thrown n p n')
  show ?case by (rule cut_short_sound[OF net_thrown(2,3)])
qed

lemma net_run_sound: "(net_step_of throws H G K dial)\<^sup>*\<^sup>* n n' \<Longrightarrow> net_sound n \<Longrightarrow> net_sound n'"
  by (induction rule: rtranclp_induct) (auto intro: net_step_sound)

end

text \<open>Every session of every run has been sent to the same place.\<close>

lemma stopped_dialled: "list_all (dialled dial) (nt_sessions n) \<Longrightarrow> list_all (dialled dial) (nt_sessions (stop_sessions n))"
  by (auto simp: stop_sessions_def current_sessions_def list_all_iff dialled_def Session_Stop_def dest: in_set_takeD in_set_dropD)

lemma handled_dialled: "list_all (dialled dial) (nt_sessions n) \<Longrightarrow> list_all (dialled dial) (nt_sessions (after_handler p n))"
  using stopped_dialled[of dial "n\<lparr>nt_provider := p\<rparr>"] by (simp add: after_handler_def Let_def)

lemma net_step_dialled:
  assumes "net_step_of throws H G K dial n n'" "list_all (dialled dial) (nt_sessions n)"
  shows "list_all (dialled dial) (nt_sessions n')"
proof -
  have upd: "list_all (dialled dial) ((nt_sessions n)[i := s])"
    if "i < length (nt_sessions n)" "session_step (nt_sessions n ! i) (call, s)" for i call s
    using that assms(2) session_step_dialled[OF that(2)]
    by (auto simp: list_all_iff dest!: set_update_subset_insert[THEN subsetD])
  have new: "list_all (dialled dial) (map (\<lambda>i. Session_Run dial (new_session (of_nat i))) [0..<k])" for k
    by (simp add: list_all_iff new_session_dialled)
  show ?thesis using assms(1)
  proof cases
    case (net_message i m s p)
    then show ?thesis using upd handled_dialled[of dial "n\<lparr>nt_sessions := (nt_sessions n)[i := s]\<rparr>"] by simp
  next
    case (net_thrown p n2)
    have "list_all (dialled dial) (nt_sessions n2)" using net_thrown(3)
    proof cases
      case (cut_message i)
      then have "dialled dial ((nt_sessions n ! i)\<lparr>ss_op := None\<rparr>)" using assms(2) by (simp add: list_all_length dialled_def)
      then show ?thesis using assms(2) cut_message(1) by (auto simp: list_all_iff dest!: set_update_subset_insert[THEN subsetD])
    qed (use assms(2) upd new in simp_all)
    then show ?thesis using net_thrown(1) by (simp add: caught_def)
  qed (use assms(2) upd new stopped_dialled handled_dialled in \<open>simp_all add: terminated_def\<close>)
qed

lemma net_dialled: "(net_step_of throws H G K dial)\<^sup>*\<^sup>* (new_net p) n \<Longrightarrow> list_all (dialled dial) (nt_sessions n)"
  by (induction rule: rtranclp_induct) (auto simp: new_net_def intro: net_step_dialled)

lemma new_net_ok: "pv_depth_live p = 0 \<Longrightarrow> pv_bbo_live p = 0 \<Longrightarrow> \<not> pv_io_running p \<Longrightarrow> \<not> pv_running p \<Longrightarrow> net_ok (new_net p)"
  by (simp add: net_ok_def new_net_def current_sessions_def open_count_def)


section \<open>The venues' handlers and the counters\<close>

definition live_is :: "u32 \<times> u32 \<times> bool \<Rightarrow> 'a Provider_scheme \<Rightarrow> bool" where
  "live_is con p \<longleftrightarrow> connection_state p = con"

lemma live_frame:
  "live_is con p \<Longrightarrow> pv_depth_live p' = pv_depth_live p \<Longrightarrow> pv_bbo_live p' = pv_bbo_live p \<Longrightarrow> pv_running p' = pv_running p \<Longrightarrow>
   live_is con p'"
  by (simp add: live_is_def connection_state_def)

lemma live_handlers [inv_intros]:
  "live_is con p \<Longrightarrow> live_is con (NoteDepthActivity t t' p)" "live_is con p \<Longrightarrow> live_is con (NoteBboActivity t t' p)"
  "live_is con p \<Longrightarrow> live_is con (Emit u t p)" "live_is con p \<Longrightarrow> live_is con (EmitQuote q t p)"
  "live_is con p \<Longrightarrow> live_is con (RequestResync t t' p)"
  by (auto simp: NoteDepthActivity_def NoteBboActivity_def Emit_def EmitQuote_def RequestResync_def Let_def elim: live_frame)

lemma live_Accept:
  "AcceptDepth i c r p = (ok, q) \<Longrightarrow> live_is con p \<Longrightarrow> live_is con q" "AcceptBbo i c p = (ok, q) \<Longrightarrow> live_is con p \<Longrightarrow> live_is con q"
  by (auto simp: AcceptDepth_def AcceptBbo_def live_is_def connection_state_def split: prod.splits)

lemma live_bybit:
  assumes "live_is con p"
  shows "live_is con (Bybit_OnRaw J m c n clk p)"
proof -
  have f: "live_is con p \<Longrightarrow> live_is con (p\<lparr>by_last_depth_u := l\<rparr>)" for p :: BybitProvider and l by (simp add: live_is_def connection_state_def)
  have "live_is con (Bybit_OnDepthMessage r c n clk p)" for r
  proof (cases r)
    case (Some u)
    obtain ok q where a: "AcceptDepth (bu_seq u) c (bu_seq u = 1) (NoteDepthActivity (clk 0) (clk 1) p) = (ok, q)" by force
    note q = live_Accept(1)[OF a live_handlers(1)[OF assms]]
    then show ?thesis using a
      by (cases ok) (auto simp: Some Bybit_OnDepthMessage_def Let_def split: prod.splits ContinuityAction.splits intro!: live_handlers f)
  qed (simp add: Bybit_OnDepthMessage_def assms)
  moreover have "live_is con (Bybit_OnBboMessage r c n clk p)" for r
  proof (cases r)
    case (Some u)
    obtain ok q where a: "AcceptBbo (bu_seq u) c (NoteBboActivity (clk 0) (clk 1) p) = (ok, q)" by force
    note q = live_Accept(2)[OF a live_handlers(2)[OF assms]]
    then show ?thesis using a by (cases ok) (auto simp: Some Bybit_OnBboMessage_def Let_def intro!: live_handlers)
  qed (simp add: Bybit_OnBboMessage_def assms)
  ultimately show ?thesis using assms by (simp add: Bybit_OnRaw_def Bybit_OnCombinedMessage_def split: option.split)
qed

lemma live_okx:
  assumes "live_is con p"
  shows "live_is con (OKX_OnRaw J m c n clk p)"
proof -
  have f: "live_is con p \<Longrightarrow> live_is con (p\<lparr>ok_last_depth_seq := l\<rparr>)" for p :: OKXProvider and l by (simp add: live_is_def connection_state_def)
  have "live_is con (OKX_OnDepthMessage r c n clk p)" for r
  proof (cases r)
    case (Some u)
    obtain ok q where a: "AcceptDepth (bu_seq u) c (sint (bu_prev_seq u) > 0 \<and> bu_seq u < bu_prev_seq u) (NoteDepthActivity (clk 0) (clk 1) p) = (ok, q)"
      by force
    note q = live_Accept(1)[OF a live_handlers(1)[OF assms]]
    then show ?thesis using a
      by (cases ok) (auto simp: Some OKX_OnDepthMessage_def Let_def split: prod.splits ContinuityAction.splits intro!: live_handlers f)
  qed (simp add: OKX_OnDepthMessage_def assms)
  moreover have "live_is con (OKX_OnBboMessage r c n clk p)" for r
  proof (cases r)
    case (Some u)
    obtain ok q where a: "AcceptBbo (bu_seq u) c (NoteBboActivity (clk 0) (clk 1) p) = (ok, q)" by force
    note q = live_Accept(2)[OF a live_handlers(2)[OF assms]]
    then show ?thesis using a by (cases ok) (auto simp: Some OKX_OnBboMessage_def Let_def intro!: live_handlers)
  qed (simp add: OKX_OnBboMessage_def assms)
  ultimately show ?thesis using assms by (simp add: OKX_OnRaw_def Let_def OKX_OnCombinedMessage_def split: option.split)
qed

lemma live_bn_frame:
  fixes p :: BinanceProvider
  shows "live_is con p \<Longrightarrow> live_is con (p\<lparr>bn_last_depth_u := l\<rparr>)" "live_is con p \<Longrightarrow> live_is con (p\<lparr>bn_pending := us\<rparr>)"
    "live_is con p \<Longrightarrow> live_is con (FetchSnapshotAsync p)" "live_is con p \<Longrightarrow> live_is con (p\<lparr>bn_pending := us, bn_sync_state := s\<rparr>)"
  by (simp_all add: FetchSnapshotAsync_def live_is_def connection_state_def)

lemma live_replay: "live_is con p \<Longrightarrow> live_is con (replay_pending clk i us p)"
  by (induction clk i us p rule: replay_pending.induct) (auto intro!: live_handlers live_bn_frame)

lemma live_Reconcile: "live_is con p \<Longrightarrow> live_is con (snd (ReconcileSnapshot s n clk p))"
  by (auto simp: ReconcileSnapshot_def Let_def split: option.split intro!: live_bn_frame live_replay live_handlers)

lemma live_fetched:
  assumes "live_is con p"
  shows "live_is con (OnSnapshotFetched r n clk p)"
proof (cases r)
  case None
  then show ?thesis using assms by (auto simp: OnSnapshotFetched_def intro!: live_handlers live_bn_frame)
next
  case (Some u)
  obtain ok q where q: "ReconcileSnapshot u n clk p = (ok, q)" by force
  then have "live_is con q" using live_Reconcile[OF assms, of u n clk] by simp
  then show ?thesis using Some q by (cases ok) (auto simp: OnSnapshotFetched_def intro!: live_handlers live_bn_frame)
qed

lemma live_binance_depth:
  assumes "live_is con p"
  shows "live_is con (Binance_OnDepthMessage r pu c n clk p)"
proof (cases r)
  case (Some u)
  let ?u = "u\<lparr>bu_recv_ts_ns := recv_stamp n\<rparr>"
  obtain ok q where a: "AcceptDepth (bu_seq ?u) c False (NoteDepthActivity (clk 0) (clk 1) p) = (ok, q)" by force
  note q = live_Accept(1)[OF a live_handlers(1)[OF assms]]
  show ?thesis
  proof (cases "bn_sync_state q = kSyncing")
    case True
    then show ?thesis using a q
      by (cases ok) (auto simp: Some Binance_OnDepthMessage_def Let_def intro!: live_handlers live_bn_frame)
  next
    case False
    obtain action l where c: "(if Market (pv_instrument q) = kFutures
        then (case pu of None \<Rightarrow> (kGap, bn_last_depth_u q) | Some pu \<Rightarrow> CheckBinanceFuturesContinuity pu (bu_seq ?u) (bn_last_depth_u q))
        else CheckBinanceSpotContinuity ?u (bn_last_depth_u q)) = (action, l)" by force
    have "Binance_OnDepthMessage r pu c n clk p = (if \<not> ok then q
        else if action = kGap then RequestResync (clk 2) (clk 3) (q\<lparr>bn_last_depth_u := l\<rparr>) else Emit ?u (clk 4) (q\<lparr>bn_last_depth_u := l\<rparr>))"
      using a c False by (cases ok) (simp_all add: Some Binance_OnDepthMessage_def Let_def)
    then show ?thesis using q by (auto intro!: live_handlers live_bn_frame)
  qed
qed (simp add: Binance_OnDepthMessage_def assms)

lemma live_binance:
  assumes "live_is con p"
  shows "live_is con (fst (Binance_OnRaw J m c n clk (p, chain_seq)))"
proof -
  have "live_is con (Binance_OnBboMessage r c n clk p)" for r
  proof (cases r)
    case (Some u)
    obtain ok q where a: "AcceptBbo (q_seq u) c (NoteBboActivity (clk 0) (clk 1) p) = (ok, q)" by force
    note q = live_Accept(2)[OF a live_handlers(2)[OF assms]]
    then show ?thesis using a by (cases ok) (auto simp: Some Binance_OnBboMessage_def Let_def intro!: live_handlers)
  qed (simp add: Binance_OnBboMessage_def assms)
  then show ?thesis using assms live_binance_depth[OF assms]
    by (simp add: Binance_OnRaw_def Binance_OnCombinedMessage_def split: option.split prod.split)
qed

lemma live_same:
  "connection_state (Bybit_OnRaw J m c n clk p) = connection_state p"
  "connection_state (OKX_OnRaw J m c n clk q) = connection_state q"
  "connection_state (fst (Binance_OnRaw J m c n clk (r, s))) = connection_state r"
  "connection_state (OnSnapshotFetched f n clk r) = connection_state r"
  using live_bybit[of "connection_state p" p J m c n clk] live_okx[of "connection_state q" q J m c n clk]
    live_binance[of "connection_state r" r J m c n clk s] live_fetched[of "connection_state r" r f n clk]
  unfolding live_is_def by simp_all

lemma live_hook:
  "connection_state (snd (OKX_OnReconnect f p)) = connection_state p \<and>
   pv_io_running (snd (OKX_OnReconnect f p)) = pv_io_running p \<and> pv_connections (snd (OKX_OnReconnect f p)) = pv_connections p"
  by (simp add: OKX_OnReconnect_def connection_state_def split: option.split)

lemma live_binance_hook:
  "connection_state (snd (Binance_OnReconnect p)) = connection_state p \<and>
   pv_io_running (snd (Binance_OnReconnect p)) = pv_io_running p \<and> pv_connections (snd (Binance_OnReconnect p)) = pv_connections p"
  by (simp add: Binance_OnReconnect_def connection_state_def)

section \<open>The nets of the three venues\<close>

definition bybit_net_step_of :: "bool \<Rightarrow> 'v OnDemand \<Rightarrow> Dial \<Rightarrow> BybitProvider Net \<Rightarrow> BybitProvider Net \<Rightarrow> bool" where
  "bybit_net_step_of throws J = net_step_of throws (\<lambda>m c p p'. \<exists>n clk. p' = Bybit_OnRaw J m c n clk p) (\<lambda>_ _. False) {\<lambda>p. (True, p)}"

definition okx_net_step_of :: "bool \<Rightarrow> 'v OnDemand \<Rightarrow> Dial \<Rightarrow> OKXProvider Net \<Rightarrow> OKXProvider Net \<Rightarrow> bool" where
  "okx_net_step_of throws J = net_step_of throws (\<lambda>m c p p'. \<exists>n clk. p' = OKX_OnRaw J m c n clk p) (\<lambda>_ _. False)
     {\<lambda>p. OKX_OnReconnect (fetch_contract_size J body p) p | body. True}"

definition binance_net_step_of :: "bool \<Rightarrow> 'v OnDemand \<Rightarrow> Dial \<Rightarrow> BinanceProvider Net \<Rightarrow> BinanceProvider Net \<Rightarrow> bool" where
  "binance_net_step_of throws J = net_step_of throws (\<lambda>m c p p'. \<exists>n clk chain_seq. p' = fst (Binance_OnRaw J m c n clk (p, chain_seq)))
     (\<lambda>p p'. \<exists>body n clk. p' = OnSnapshotFetched (fetch_snapshot J body p) n clk p) {Binance_OnReconnect}"

abbreviation bybit_net_step :: "'v OnDemand \<Rightarrow> Dial \<Rightarrow> BybitProvider Net \<Rightarrow> BybitProvider Net \<Rightarrow> bool" where
  "bybit_net_step \<equiv> bybit_net_step_of True"

abbreviation okx_net_step :: "'v OnDemand \<Rightarrow> Dial \<Rightarrow> OKXProvider Net \<Rightarrow> OKXProvider Net \<Rightarrow> bool" where
  "okx_net_step \<equiv> okx_net_step_of True"

abbreviation binance_net_step :: "'v OnDemand \<Rightarrow> Dial \<Rightarrow> BinanceProvider Net \<Rightarrow> BinanceProvider Net \<Rightarrow> bool" where
  "binance_net_step \<equiv> binance_net_step_of True"

interpretation bybit_net: connection_client
  "\<lambda>m c p p'. \<exists>n clk. p' = Bybit_OnRaw J m c n clk p" "\<lambda>_ _. False" "{\<lambda>p :: BybitProvider. (True, p)}" for J
  by unfold_locales (auto simp: live_same)

interpretation okx_net: connection_client
  "\<lambda>m c p p'. \<exists>n clk. p' = OKX_OnRaw J m c n clk p" "\<lambda>_ _. False"
  "{\<lambda>p :: OKXProvider. OKX_OnReconnect (fetch_contract_size J body p) p | body. True}" for J
  using live_hook by unfold_locales (auto simp: live_same)

interpretation binance_net: connection_client
  "\<lambda>m c p p'. \<exists>n clk chain_seq. p' = fst (Binance_OnRaw J m c n clk (p, chain_seq))"
  "\<lambda>p p'. \<exists>body n clk. p' = OnSnapshotFetched (fetch_snapshot J body p) n clk p" "{Binance_OnReconnect}" for J
  using live_binance_hook by unfold_locales (auto simp: live_same)


section \<open>The end of the worker thread\<close>

text \<open>The owner waits, and its call of \<^verbatim>\<open>Stop\<close> cannot be undone: the thread is not between the test of the loop and the restart.\<close>

definition ending :: "'a Provider_scheme Net \<Rightarrow> bool" where
  "ending n \<longleftrightarrow>
     nt_owner n = Joining \<and> \<not> pv_running (nt_provider n) \<and> \<not> pv_io_running (nt_provider n) \<and>
     (nt_phase n = InRun \<or> nt_phase n = AfterRun \<or> nt_phase n = AtTop \<or> nt_phase n = Finished)"

definition thread_joined :: "'p Net \<Rightarrow> bool" where
  "thread_joined n \<longleftrightarrow> nt_owner n = Free \<and> nt_phase n = NoThread"

fun steps_left :: "RunPhase \<Rightarrow> nat" where
  "steps_left InRun = 3"
| "steps_left AfterRun = 2"
| "steps_left AtTop = 1"
| "steps_left _ = 0"

inductive_cases net_stepE: "net_step_of throws H G K dial n n'"

lemma end_run_stopped: "\<not> pv_running p \<Longrightarrow> snd (end_run p) = p"
  by (simp add: end_run_def)

lemma ending_step:
  assumes "net_step_of throws H G K dial n n'" "ending n"
  shows "thread_joined n' \<or> ending n' \<and> steps_left (nt_phase n') < steps_left (nt_phase n)"
  using assms by cases (auto simp: ending_def thread_joined_def end_run_stopped dest: cut_short_phase)

lemma ending_progress:
  assumes "ending n"
  shows "\<exists>n'. net_step_of throws H G K dial n n'"
proof -
  consider "nt_phase n = InRun" | "nt_phase n = AfterRun" | "nt_phase n = AtTop" | "nt_phase n = Finished"
    using assms by (auto simp: ending_def)
  then show ?thesis
  proof cases
    case 1 then show ?thesis using assms by (intro exI) (rule net_return, simp_all add: ending_def)
  next
    case 2 then show ?thesis by (intro exI) (rule net_after)
  next
    case 3 then show ?thesis by (intro exI) (rule net_top)
  next
    case 4 then show ?thesis using assms by (intro exI) (rule net_join, simp_all add: ending_def)
  qed
qed

text \<open>Every schedule joins the thread, and none is stuck before it has.\<close>

lemma ending_joins:
  assumes "ending (f 0)" "\<And>i. net_step_of throws H G K dial (f i) (f (Suc i))"
  shows "\<exists>i\<le>Suc (steps_left (nt_phase (f 0))). thread_joined (f i)"
  using assms
proof (induction "steps_left (nt_phase (f 0))" arbitrary: f rule: less_induct)
  case less
  from ending_step[OF less(3)[of 0] less(2)] show ?case
  proof
    assume "thread_joined (f (Suc 0))" then show ?thesis by (intro exI[of _ "Suc 0"]) simp
  next
    assume e: "ending (f (Suc 0)) \<and> steps_left (nt_phase (f (Suc 0))) < steps_left (nt_phase (f 0))"
    then obtain i where "i \<le> Suc (steps_left (nt_phase (f (Suc 0))))" "thread_joined (f (Suc i))"
      using less(1)[of "\<lambda>i. f (Suc i)"] less(3) by auto
    then show ?thesis using e by (intro exI[of _ "Suc i"]) auto
  qed
qed

lemma ending_reaches:
  assumes "ending n"
  shows "\<exists>n'. (net_step_of throws H G K dial)\<^sup>*\<^sup>* n n' \<and> thread_joined n'"
  using assms
proof (induction "steps_left (nt_phase n)" arbitrary: n rule: less_induct)
  case less
  obtain n1 where n1: "net_step_of throws H G K dial n n1" using ending_progress[OF less(2)] by blast
  from ending_step[OF n1 less(2)] show ?case
  proof
    assume "thread_joined n1" then show ?thesis using n1 by blast
  next
    assume "ending n1 \<and> steps_left (nt_phase n1) < steps_left (nt_phase n)"
    then obtain n' where "(net_step_of throws H G K dial)\<^sup>*\<^sup>* n1 n'" "thread_joined n'" using less(1)[of n1] by blast
    then show ?thesis using n1 by (meson converse_rtranclp_into_rtranclp)
  qed
qed

text \<open>A schedule that has not joined the thread yet can go on.\<close>

lemma ending_unstuck:
  assumes "(\<lambda>a b. net_step_of throws H G K dial a b \<and> \<not> thread_joined b)\<^sup>*\<^sup>* n n'" "ending n"
  shows "\<exists>n''. net_step_of throws H G K dial n' n''"
proof -
  have "ending n'" using assms
  proof (induction rule: rtranclp_induct)
    case (step y z)
    then show ?case using ending_step by blast
  qed
  then show ?thesis by (rule ending_progress)
qed

text \<open>What the call of \<^verbatim>\<open>Stop\<close> leaves.\<close>

definition stop_called :: "'a Provider_scheme Net \<Rightarrow> 'a Provider_scheme Net" where
  "stop_called n = (stop_sessions n)\<lparr>nt_provider := Stop (nt_provider n), nt_owner := Joining\<rparr>"

lemma stop_called_ends:
  assumes "net_sound n" "nt_owner n = Free" "pv_running (nt_provider n)" "nt_phase n \<noteq> Starting"
  shows "ending (stop_called n)"
proof -
  have "nt_phase n \<noteq> NoThread" using assms(1,3) by (simp add: net_sound_def phases_ok_def)
  then show ?thesis using assms(3,4) by (cases "nt_phase n") (simp_all add: ending_def stop_called_def stop_sessions_def Stop_def)
qed

section \<open>A call of Stop that comes too early\<close>

lemma OnRead_again: "session_step s (NoCall, s)" if "ss_op s = Some Reading" "\<not> ss_stopped s"
proof -
  have "OnRead (Some []) (s\<lparr>ss_op := None\<rparr>) = (NoCall, s)" using that by (cases s) (simp add: OnRead_def)
  then show ?thesis using received[OF that(1), of "Some []"] by simp
qed

lemma session_opens:
  assumes "ss_op s = Some Resolving" "\<not> ss_stopped s"
  shows "session_step s (NoCall, s\<lparr>ss_op := Some Connecting\<rparr>)"
    "session_step (s\<lparr>ss_op := Some Connecting\<rparr>) (NoCall, s\<lparr>ss_op := Some SslHandshaking\<rparr>)"
    "session_step (s\<lparr>ss_op := Some SslHandshaking\<rparr>) (NoCall, s\<lparr>ss_op := Some Handshaking\<rparr>)"
    "ss_subscribe_message s = [] \<Longrightarrow>
       session_step (s\<lparr>ss_op := Some Handshaking\<rparr>) (NoCall, s\<lparr>ss_op := Some Reading\<rparr>)"
    "ss_subscribe_message s \<noteq> [] \<Longrightarrow>
       session_step (s\<lparr>ss_op := Some Handshaking\<rparr>) (NoCall, s\<lparr>ss_op := Some SubscribeWriting\<rparr>)"
    "session_step (s\<lparr>ss_op := Some SubscribeWriting\<rparr>) (NoCall, s\<lparr>ss_subscribed := True, ss_op := Some Reading\<rparr>)"
proof -
  show "session_step s (NoCall, s\<lparr>ss_op := Some Connecting\<rparr>)"
    using resolved[OF assms(1), of False] assms(2) by (simp add: OnResolve_def)
  show "session_step (s\<lparr>ss_op := Some Connecting\<rparr>) (NoCall, s\<lparr>ss_op := Some SslHandshaking\<rparr>)"
    using connected[of "s\<lparr>ss_op := Some Connecting\<rparr>" False True] assms(2) by (simp add: OnConnect_def)
  show "session_step (s\<lparr>ss_op := Some SslHandshaking\<rparr>) (NoCall, s\<lparr>ss_op := Some Handshaking\<rparr>)"
    using ssl_done[of "s\<lparr>ss_op := Some SslHandshaking\<rparr>" False] assms(2) by (simp add: OnSslHandshake_def)
  show "ss_subscribe_message s = [] \<Longrightarrow>
       session_step (s\<lparr>ss_op := Some Handshaking\<rparr>) (NoCall, s\<lparr>ss_op := Some Reading\<rparr>)"
    "ss_subscribe_message s \<noteq> [] \<Longrightarrow>
       session_step (s\<lparr>ss_op := Some Handshaking\<rparr>) (NoCall, s\<lparr>ss_op := Some SubscribeWriting\<rparr>)"
    using handshaken[of "s\<lparr>ss_op := Some Handshaking\<rparr>" False] assms(2) by (simp_all add: OnHandshake_def)
  show "session_step (s\<lparr>ss_op := Some SubscribeWriting\<rparr>) (NoCall, s\<lparr>ss_subscribed := True, ss_op := Some Reading\<rparr>)"
    using subscribed[of "s\<lparr>ss_op := Some SubscribeWriting\<rparr>" False] assms(2) by (cases s) (simp add: OnSubscribeWrite_def Let_def)
qed

text \<open>A session that nobody has stopped comes to read.\<close>

lemma session_reads:
  assumes "nt_phase n = InRun" "pv_io_running (nt_provider n)" "nt_sessions n = [s]" "ss_op s = Some Resolving" "\<not> ss_stopped s"
  shows "\<exists>s'. (net_step_of throws H G K dial)\<^sup>*\<^sup>* n (n\<lparr>nt_sessions := [s']\<rparr>) \<and> ss_op s' = Some Reading \<and> \<not> ss_stopped s'"
proof -
  let ?N = "net_step_of throws H G K dial"
  have q: "?N (n\<lparr>nt_sessions := [t]\<rparr>) (n\<lparr>nt_sessions := [t']\<rparr>)" if "session_step t (NoCall, t')" for t t'
    using net_quiet[of "n\<lparr>nt_sessions := [t]\<rparr>" 0 t' throws H G K dial] assms(1,2) that by simp
  have n: "n\<lparr>nt_sessions := [s]\<rparr> = n" using assms(3) by (cases n) simp
  note o = session_opens[OF assms(4,5)]
  have h: "?N\<^sup>*\<^sup>* n (n\<lparr>nt_sessions := [s\<lparr>ss_op := Some Handshaking\<rparr>]\<rparr>)"
    using q[OF o(1)] q[OF o(2)] q[OF o(3)] unfolding n by (meson converse_rtranclp_into_rtranclp rtranclp.rtrancl_refl)
  show ?thesis
  proof (cases "ss_subscribe_message s = []")
    case True
    then show ?thesis using h q[OF o(4)[OF True]] assms(5)
      by (intro exI[of _ "s\<lparr>ss_op := Some Reading\<rparr>"]) (auto intro: rtranclp.rtrancl_into_rtrancl)
  next
    case False
    have "?N\<^sup>*\<^sup>* n (n\<lparr>nt_sessions := [s\<lparr>ss_subscribed := True, ss_op := Some Reading\<rparr>]\<rparr>)"
      using h q[OF o(5)[OF False]] q[OF o(6)] by (meson rtranclp.rtrancl_into_rtrancl)
    then show ?thesis using assms(5) by (intro exI conjI) (assumption, simp_all)
  qed
qed


lemma late_stop:
  assumes "\<not> pv_running p" "pv_connections p \<le> 1" "hook \<in> K" "\<And>q. hook q = (True, q)"
  shows "\<exists>n. (net_step_of throws H G K dial)\<^sup>*\<^sup>* (new_net p) n \<and> nt_owner n = Joining \<and> nt_phase n = InRun \<and> net_step_of throws H G K dial n n"
proof -
  let ?N = "net_step_of throws H G K dial"
  let ?p = "Start p"
  let ?n0 = "(new_net p)\<lparr>nt_provider := ?p, nt_phase := AtTop\<rparr>"
  let ?n1 = "?n0\<lparr>nt_phase := Starting\<rparr>"
  let ?n2 = "stop_called ?n1"
  let ?s = "Session_Run dial (new_session 0)"
  let ?n3 = "?n2\<lparr>nt_phase := InRun, nt_provider := snd (begin_run hook (nt_provider ?n2)), nt_timer := True, nt_first := 0, nt_sessions := [?s]\<rparr>"
  have one: "unat (max 1 (pv_connections p)) = 1" using assms(2) by (simp add: max_def)
  have a: "?N (new_net p) ?n0" using net_start[of "new_net p" throws H G K dial] assms(1) by (simp add: new_net_def)
  have b: "?N ?n0 ?n1"
    using net_top[of ?n0 throws H G K dial] by (simp add: new_net_def Start_def)
  have c: "?N ?n1 ?n2"
    using net_stop[of ?n1 throws H G K dial] unfolding stop_called_def by (simp add: new_net_def Start_def)
  have d: "?N ?n2 ?n3"
    using net_begin[of ?n2 hook K throws H G dial] assms(3,4) one
    by (simp add: new_net_def Start_def stop_called_def stop_sessions_def current_sessions_def Stop_def)
  have n3: "?N\<^sup>*\<^sup>* (new_net p) ?n3"
    by (rule converse_rtranclp_into_rtranclp[where r = ?N, OF a converse_rtranclp_into_rtranclp[where r = ?N, OF b
      converse_rtranclp_into_rtranclp[where r = ?N, OF c r_into_rtranclp[where r = ?N, OF d]]]])
  have io: "pv_io_running (nt_provider ?n3)" using begin_run_live(3)[of hook] assms(4) by simp
  have s: "ss_op ?s = Some Resolving" "\<not> ss_stopped ?s" by (simp_all add: Session_Run_def new_session_def)
  obtain s' where r: "?N\<^sup>*\<^sup>* ?n3 (?n3\<lparr>nt_sessions := [s']\<rparr>)" "ss_op s' = Some Reading" "\<not> ss_stopped s'"
    using session_reads[of ?n3 ?s throws H G K dial] io s by auto
  let ?n = "?n3\<lparr>nt_sessions := [s']\<rparr>"
  have "?N ?n (?n\<lparr>nt_sessions := (nt_sessions ?n)[0 := s']\<rparr>)"
    by (rule net_quiet) (use io OnRead_again[OF r(2,3)] in simp_all)
  then have "?N ?n ?n" by simp
  then show ?thesis using rtranclp_trans[OF n3 r(1)] by (intro exI[of _ ?n]) (simp add: stop_called_def)
qed

section \<open>A provider that has given up\<close>

definition gave_up :: "'a Provider_scheme Net \<Rightarrow> bool" where
  "gave_up n \<longleftrightarrow> nt_phase n = Finished \<and> nt_owner n = Free \<and> \<not> pv_running (nt_provider n)"

lemma gave_up_step: "net_step_of throws H G K dial n n' \<Longrightarrow> gave_up n \<Longrightarrow> nt_owner n' = Terminated"
  by (erule net_stepE) (auto simp: gave_up_def terminated_def dest: cut_short_phase)

text \<open>Passes of the loop that \<^verbatim>\<open>OnReconnect\<close> refuses, one hook for each, and the net between two of them.\<close>

fun refused_passes :: "('a Provider_scheme \<Rightarrow> bool \<times> 'a Provider_scheme) list \<Rightarrow> 'a Provider_scheme \<Rightarrow> 'a Provider_scheme" where
  "refused_passes [] p = p"
| "refused_passes (hook # hooks) p = refused_passes hooks (snd (begin_run hook p))"

definition between_passes :: "'a Provider_scheme \<Rightarrow> 'a Provider_scheme Net" where
  "between_passes p = (new_net p)\<lparr>nt_phase := AtTop\<rparr>"

lemma refused_passes_snoc: "refused_passes (hooks @ [hook]) p = snd (begin_run hook (refused_passes hooks p))"
  by (induction hooks arbitrary: p) simp_all

definition counted :: "'a Provider_scheme \<Rightarrow> nat \<Rightarrow> 'a Provider_scheme" where
  "counted p k = p\<lparr>pv_running := k < 11, pv_reconnect_count := of_nat k\<rparr>"

lemma refused_pass:
  assumes "k \<le> 10" "\<And>r c. hook (p\<lparr>pv_running := r, pv_reconnect_count := c\<rparr>) = (False, p\<lparr>pv_running := r, pv_reconnect_count := c\<rparr>)"
  shows "snd (begin_run hook (counted p k)) = counted p (Suc k)"
proof -
  have "unat (of_nat (Suc k) :: u32) = Suc k" using assms(1) by (subst unat_of_nat) simp
  then have "((of_nat (Suc k) :: u32) > MAX_RECONNECT_ATTEMPTS) = (\<not> Suc k < 11)"
    by (simp only: word_less_nat_alt MAX_RECONNECT_ATTEMPTS_def) auto
  then show ?thesis using assms by (simp add: counted_def begin_run_def HandleReconnection_def Let_def add.commute)
qed

lemma passes_counted:
  assumes "length hooks \<le> 11"
    "\<And>hook r c. hook \<in> set hooks \<Longrightarrow> hook (p\<lparr>pv_running := r, pv_reconnect_count := c\<rparr>) = (False, p\<lparr>pv_running := r, pv_reconnect_count := c\<rparr>)"
  shows "refused_passes hooks (counted p 0) = counted p (length hooks)"
  using assms
proof (induction hooks rule: rev_induct)
  case (snoc hook hooks)
  then show ?case using refused_pass[of "length hooks" hook p] by (simp add: refused_passes_snoc)
qed simp

lemma gives_up:
  assumes "\<not> pv_running p" "pv_reconnect_count p = 0" "length hooks = 11"
    "\<forall>hook\<in>set hooks. \<forall>r c. hook (p\<lparr>pv_running := r, pv_reconnect_count := c\<rparr>) = (False, p\<lparr>pv_running := r, pv_reconnect_count := c\<rparr>)"
    "set hooks \<subseteq> K"
  shows "k \<le> 11 \<Longrightarrow> (net_step_of throws H G K dial)\<^sup>*\<^sup>* (new_net p) (between_passes (refused_passes (take k hooks) (Start p)))"
    "k \<le> 11 \<Longrightarrow> refused_passes (take k hooks) (Start p) = counted p k"
    "\<exists>n. (net_step_of throws H G K dial)\<^sup>*\<^sup>* (new_net p) n \<and> nt_provider n = refused_passes hooks (Start p) \<and> gave_up n"
proof -
  note refuses = assms(4)[rule_format]
  let ?N = "net_step_of throws H G K dial"
  have p0: "Start p = counted p 0" using assms(2) by (cases p) (simp add: Start_def counted_def)
  have at: "refused_passes (take k hooks) (Start p) = counted p k" if "k \<le> 11" for k
    using passes_counted[of "take k hooks" p] that assms(3) refuses in_set_takeD[of _ k hooks] by (fastforce simp: p0)
  then show "k \<le> 11 \<Longrightarrow> refused_passes (take k hooks) (Start p) = counted p k" .
  have start: "?N (new_net p) (between_passes (counted p 0))"
    using net_start[of "new_net p" throws H G K dial] assms(1) unfolding p0[symmetric] by (simp add: new_net_def between_passes_def)
  have pass: "?N\<^sup>*\<^sup>* (between_passes (counted p k)) (between_passes (counted p (Suc k)))" if "k \<le> 10" for k
  proof -
    let ?m = "(between_passes (counted p k))\<lparr>nt_phase := Starting\<rparr>"
    let ?hook = "hooks ! k"
    have h: "?hook \<in> set hooks" using that assms(3) by simp
    have a: "?N (between_passes (counted p k)) ?m" using net_top[of "between_passes (counted p k)" throws H G K dial] that
      by (simp add: between_passes_def new_net_def counted_def)
    have "?N ?m (between_passes (counted p (Suc k)))"
      using net_refused[of ?m ?hook K throws H G dial] subsetD[OF assms(5) h] refused_pass[OF that refuses[OF h]] refuses[OF h]
      by (simp add: between_passes_def new_net_def) (simp add: counted_def)
    with a show ?thesis by (meson converse_rtranclp_into_rtranclp r_into_rtranclp)
  qed
  have reach: "?N\<^sup>*\<^sup>* (new_net p) (between_passes (counted p k))" if "k \<le> 11" for k
    using that
  proof (induction k)
    case 0
    show ?case by (rule r_into_rtranclp[where r = ?N, OF start])
  next
    case (Suc k)
    have a: "?N\<^sup>*\<^sup>* (new_net p) (between_passes (counted p k))" by (rule Suc.IH) (use Suc.prems in simp)
    have b: "?N\<^sup>*\<^sup>* (between_passes (counted p k)) (between_passes (counted p (Suc k)))" by (rule pass) (use Suc.prems in simp)
    show ?case by (rule rtranclp_trans[OF a b])
  qed
  then show "k \<le> 11 \<Longrightarrow> ?N\<^sup>*\<^sup>* (new_net p) (between_passes (refused_passes (take k hooks) (Start p)))" by (simp only: at)
  have "?N (between_passes (counted p 11)) ((between_passes (counted p 11))\<lparr>nt_phase := Finished\<rparr>)"
    using net_top[of "between_passes (counted p 11)" throws H G K dial] by (simp add: between_passes_def new_net_def counted_def)
  with reach[OF order_refl] have "?N\<^sup>*\<^sup>* (new_net p) ((between_passes (counted p 11))\<lparr>nt_phase := Finished\<rparr>)" by (rule rtranclp.rtrancl_into_rtrancl)
  moreover have "refused_passes hooks (Start p) = counted p 11" using at[of 11] assms(3) by simp
  ultimately show "\<exists>n. ?N\<^sup>*\<^sup>* (new_net p) n \<and> nt_provider n = refused_passes hooks (Start p) \<and> gave_up n"
    by (intro exI conjI) (assumption, simp_all add: gave_up_def between_passes_def new_net_def counted_def)
qed

section \<open>An exception leaves sockets behind\<close>

text \<open>
  An exception ends a run with one socket open. The next run opens its own and counts it; the old one, which nobody has stopped,
  then reports its end, and the count is that of a total outage while the new socket is open.
\<close>

lemma thrown_miscounts:
  assumes "\<not> pv_running p" "pv_reconnect_count p = 0" "pv_connections p \<le> 1" "hook \<in> K" "\<And>q. hook q = (True, q)"
  shows "\<exists>n. (net_step H G K dial)\<^sup>*\<^sup>* (new_net p) n \<and> nt_phase n = InRun \<and> pv_depth_live (nt_provider n) = 0 \<and>
    open_count (current_sessions n) = 1"
proof -
  let ?N = "net_step H G K dial"
  let ?s = "Session_Run dial (new_session 0)"
  have one: "unat (max 1 (pv_connections q)) = 1" if "pv_connections q = pv_connections p" for q :: "'a Provider_scheme"
    using assms(3) that by (simp add: max_def)
  have opens: "?N m (m\<lparr>nt_phase := InRun, nt_provider := snd (begin_run hook (nt_provider m)), nt_timer := True,
      nt_first := length (nt_sessions m), nt_sessions := nt_sessions m @ [?s]\<rparr>)"
    if "nt_phase m = Starting" "pv_connections (nt_provider m) = pv_connections p" for m
    using net_begin[of m hook K True H G dial] that assms(4,5) one[OF that(2)] by simp
  let ?n0 = "(new_net p)\<lparr>nt_provider := Start p, nt_phase := AtTop\<rparr>"
  let ?n1 = "?n0\<lparr>nt_phase := Starting\<rparr>"
  let ?q = "snd (begin_run hook (Start p))"
  let ?n2 = "?n1\<lparr>nt_phase := InRun, nt_provider := ?q, nt_timer := True, nt_first := 0, nt_sessions := [?s]\<rparr>"
  let ?n3 = "caught ?q (?n2\<lparr>nt_timer := False\<rparr>)"
  let ?n4 = "?n3\<lparr>nt_phase := Starting\<rparr>"
  let ?r = "snd (begin_run hook (nt_provider ?n3))"
  let ?n5 = "?n4\<lparr>nt_phase := InRun, nt_provider := ?r, nt_timer := True, nt_first := 1, nt_sessions := [?s, ?s]\<rparr>"
  let ?t = "?s\<lparr>ss_op := None, ss_closed_notified := True\<rparr>"
  let ?n6 = "?n5\<lparr>nt_sessions := [?t, ?s], nt_provider := OnCombinedSessionClosed hook ?r\<rparr>"
  have q: "pv_io_running ?q" "pv_running ?q" "pv_reconnect_count ?q = 0" "pv_connections ?q = pv_connections p"
  proof -
    have "pv_reconnect_count ((CreateCombinedSession ^^ k) x) = pv_reconnect_count x \<and>
      pv_connections ((CreateCombinedSession ^^ k) x) = pv_connections x" for k and x :: "'a Provider_scheme"
      by (induction k) (simp_all add: CreateCombinedSession_def)
    then show "pv_io_running ?q" "pv_running ?q" "pv_reconnect_count ?q = 0" "pv_connections ?q = pv_connections p"
      using assms(2,5) by (simp_all add: begin_run_def created_live Start_def)
  qed
  have c: "nt_provider ?n3 = (?q\<lparr>pv_io_running := False, pv_reconnect_count := 1\<rparr>)"
    using q(2,3) by (simp add: caught_def HandleReconnection_def Let_def MAX_RECONNECT_ATTEMPTS_def)
  have r: "pv_depth_live ?r = 1" "pv_bbo_live ?r = 1" "pv_io_running ?r"
    using begin_run_live[of hook "nt_provider ?n3"] assms(3,5) c q(4) by (simp_all add: max_def)
  have s1: "?N (new_net p) ?n0" using net_start[of "new_net p" True H G K dial] assms(1) by (simp add: new_net_def)
  have s2: "?N ?n0 ?n1" using net_top[of ?n0 True H G K dial] by (simp add: new_net_def Start_def)
  have s3: "?N ?n1 ?n2" using opens[of ?n1] by (simp add: new_net_def Start_def)
  have s4: "?N ?n2 ?n3" by (rule net_thrown) (simp, rule cut_tick, use q(1) in simp_all)
  have s5: "?N ?n3 ?n4" using net_top[of ?n3 True H G K dial] q(2) c by (simp add: caught_def)
  have s6: "?N ?n4 ?n5" using opens[of ?n4] c q(4) by (simp add: caught_def)
  have "session_step ?s (ClosedCall, ?t)"
    using resolved[of ?s True] by (simp add: OnResolve_def NotifyClosed_def Session_Run_def new_session_def)
  then have s7: "?N ?n5 ?n6" using net_closed[of ?n5 0 ?t hook K True H G dial] r(3) assms(4) by simp
  have "?N\<^sup>*\<^sup>* (new_net p) ?n6"
    by (rule converse_rtranclp_into_rtranclp[where r = ?N, OF s1 converse_rtranclp_into_rtranclp[where r = ?N, OF s2
      converse_rtranclp_into_rtranclp[where r = ?N, OF s3 converse_rtranclp_into_rtranclp[where r = ?N, OF s4
      converse_rtranclp_into_rtranclp[where r = ?N, OF s5 converse_rtranclp_into_rtranclp[where r = ?N, OF s6
      r_into_rtranclp[where r = ?N, OF s7]]]]]]])
  then show ?thesis
    by (rule exI[where x = ?n6, OF conjI])
      (use r assms(5) in \<open>simp add: OnCombinedSessionClosed_def Let_def current_sessions_def open_count_def Session_Run_def new_session_def\<close>)
qed

section \<open>A lost line is not replaced\<close>

lemma handled_count: "open_count (current_sessions (after_handler p n)) = open_count (current_sessions n)"
proof (cases "nt_first n \<le> length (nt_sessions n)")
  case True
  then show ?thesis
    using open_count_stopped[of "current_sessions n"] by (simp add: after_handler_def stop_sessions_def current_sessions_def Let_def)
next
  case False
  then show ?thesis by (simp add: after_handler_def stop_sessions_def current_sessions_def Let_def)
qed

text \<open>While a run goes on, the number of its open connections only falls: the others are left, and none is opened.\<close>

lemma lost_line_not_replaced:
  assumes "net_step_of throws H G K dial n n'" "net_ok n" "nt_phase n = InRun"
  shows "open_count (current_sessions n') \<le> open_count (current_sessions n) \<and> length (nt_sessions n') = length (nt_sessions n)"
  using assms(1)
proof cases
  case (net_quiet i s)
  then show ?thesis using session_in_net(3)[OF assms(2) net_quiet(4,5)] by (simp add: current_sessions_def)
next
  case (net_closed i s hook)
  then show ?thesis using session_in_net(3)[OF assms(2) net_closed(4,5)] by (simp add: current_sessions_def)
next
  case (net_message i m s p)
  have "length (nt_sessions (after_handler p x)) = length (nt_sessions x)" if "nt_first x \<le> length (nt_sessions x)" for p and x :: "'a Provider_scheme Net"
    using that by (simp add: after_handler_def stop_sessions_def current_sessions_def Let_def)
  then show ?thesis using net_message(1) session_in_net(3)[OF assms(2) net_message(4,5)] assms(2)
    by (simp add: handled_count) (simp add: current_sessions_def net_ok_def)
next
  case (net_posted p)
  then show ?thesis using assms(2)
    by (simp add: handled_count) (simp add: after_handler_def stop_sessions_def current_sessions_def Let_def net_ok_def)
next
  case net_stop
  then show ?thesis using assms(2) open_count_stopped[of "current_sessions n"]
    by (simp add: stop_sessions_def current_sessions_def net_ok_def)
next
  case (net_thrown p n2)
  from net_thrown(3) have "open_count (current_sessions n2) \<le> open_count (current_sessions n) \<and> length (nt_sessions n2) = length (nt_sessions n)"
  proof cases
    case (cut_message i)
    have l: "nt_first n \<le> length (nt_sessions n)" using assms(2) by (simp add: net_ok_def)
    have "open_count (ss[j := (ss ! j)\<lparr>ss_op := None\<rparr>]) = open_count ss" if "j < length ss" for ss j
      using that by (induction ss arbitrary: j) (auto simp: open_count_def less_Suc_eq_0_disj)
    note same = this[of "i - nt_first n" "current_sessions n"]
    have "nt_first n \<le> i \<Longrightarrow> current_sessions n ! (i - nt_first n) = nt_sessions n ! i" using l by (simp add: current_sessions_def)
    then show ?thesis using cut_message(1,4) l same by (cases "i < nt_first n") (simp_all add: current_sessions_def drop_update_if)
  next
    case (cut_closed i s)
    then show ?thesis using session_in_net(3)[OF assms(2) cut_closed(4,5)] by (simp add: current_sessions_def)
  qed (use assms(3) in \<open>simp_all add: current_sessions_def\<close>)
  then show ?thesis using net_thrown(1) by (simp add: caught_def current_sessions_def)
qed (use assms(3) in \<open>simp_all add: current_sessions_def terminated_def\<close>)


section \<open>After a total outage\<close>

text \<open>A run whose connections are all gone, with no socket waiting.\<close>

definition run_idle :: "'a Provider_scheme Net \<Rightarrow> bool" where
  "run_idle n \<longleftrightarrow>
     nt_phase n = InRun \<and> list_all (\<lambda>s. ss_op s = None) (nt_sessions n) \<and>
     pv_depth_live (nt_provider n) = 0 \<and> pv_bbo_live (nt_provider n) = 0"

definition stalls :: "'p Net \<Rightarrow> nat" where
  "stalls n = (if nt_timer n then 1 else 0) + (if nt_owner n = Free then 1 else 0)"

lemma no_op_no_step: "ss_op s = None \<Longrightarrow> \<not> session_step s r"
  by (auto elim: session_stepE)

text \<open>What the watchdog says of a venue without a connection: each stream's verdict, if it is a new one and the provider is not
  rebuilding that stream, is given out at the time of the tick and kept.\<close>

definition told_down :: "'a Provider_scheme \<Rightarrow> StreamKind \<Rightarrow> VenueHealth \<Rightarrow> i64 \<Rightarrow> ProviderEvent list" where
  "told_down p stream before t =
     (if before = kResyncing \<or> before = kDisconnected \<or> \<not> pv_has_health_callback p then []
      else [HealthChanged \<lparr>he_venue = pv_venue p, he_stream = stream, he_health = kDisconnected, he_decided_mono_ns = t\<rparr>])"

definition down :: "VenueHealth \<Rightarrow> VenueHealth" where
  "down before = (if before = kResyncing then kResyncing else kDisconnected)"

definition outage_told :: "'a Provider_scheme \<Rightarrow> 'a Provider_scheme \<Rightarrow> bool" where
  "outage_told p p' \<longleftrightarrow>
     pv_last_depth_health p' = down (pv_last_depth_health p) \<and> pv_last_bbo_health p' = down (pv_last_bbo_health p) \<and>
     (\<exists>t t'. pv_out p' = pv_out p @ told_down p kDepth (pv_last_depth_health p) t @ told_down p kBbo (pv_last_bbo_health p) t')"

text \<open>The run is over, and the timer, if it was set, has fired once and is not set again.\<close>

definition run_ended :: "'a Provider_scheme Net \<Rightarrow> 'a Provider_scheme Net \<Rightarrow> bool" where
  "run_ended n n' \<longleftrightarrow>
     nt_phase n' = AfterRun \<and> \<not> nt_timer n' \<and> \<not> pv_io_running (nt_provider n') \<and>
     (if nt_timer n then outage_told (nt_provider n) (nt_provider n')
      else nt_provider n' = (nt_provider n)\<lparr>pv_io_running := False\<rparr>)"

lemma PublishHealth_down:
  "PublishHealth kDepth kDisconnected t p =
     p\<lparr>pv_last_depth_health := kDisconnected, pv_out := pv_out p @
        (if pv_last_depth_health p = kResyncing then told_down p kDepth kLive t else told_down p kDepth (pv_last_depth_health p) t)\<rparr>"
  "PublishHealth kBbo kDisconnected t p =
     p\<lparr>pv_last_bbo_health := kDisconnected, pv_out := pv_out p @
        (if pv_last_bbo_health p = kResyncing then told_down p kBbo kLive t else told_down p kBbo (pv_last_bbo_health p) t)\<rparr>"
  by (cases p; auto simp: PublishHealth_def told_down_def Let_def)+

lemma outage_tick:
  assumes "pv_depth_live p = 0" "pv_bbo_live p = 0"
  shows "\<not> fst (health_tick clk p)" "outage_told p (snd (health_tick clk p))"
proof -
  have c: "ClassifyFeed False last_seen now backstop = kDisconnected" for last_seen now backstop by (simp add: ClassifyFeed_def)
  show "\<not> fst (health_tick clk p)"
    using assms health_tick_live(1,2)[of clk p] unfolding health_tick_def Let_def by simp
  let ?out = "told_down p kDepth (pv_last_depth_health p) (clk 1) @ told_down p kBbo (pv_last_bbo_health p) (clk 2)"
  have "pv_last_depth_health (CheckHealth clk p) = down (pv_last_depth_health p) \<and>
    pv_last_bbo_health (CheckHealth clk p) = down (pv_last_bbo_health p) \<and> pv_out (CheckHealth clk p) = pv_out p @ ?out"
    by (cases "pv_last_depth_health p = kResyncing"; cases "pv_last_bbo_health p = kResyncing")
      (simp_all add: CheckHealth_def Let_def assms c PublishHealth_down down_def told_down_def)
  then show "outage_told p (snd (health_tick clk p))" by (auto simp: outage_told_def health_tick_def Let_def)
qed

text \<open>On the way from a total outage \<open>n\<close> to the end of the run.\<close>

definition outage_path :: "'a Provider_scheme Net \<Rightarrow> 'a Provider_scheme Net \<Rightarrow> bool" where
  "outage_path n m \<longleftrightarrow>
     run_idle m \<and> net_sound m \<and> pv_io_running (nt_provider n) \<and>
     (nt_owner m = Free \<longrightarrow>
        nt_timer m = nt_timer n \<and> nt_provider m = nt_provider n \<or>
        \<not> nt_timer m \<and> nt_timer n \<and> outage_told (nt_provider n) (nt_provider m))"

definition outage_over :: "'a Provider_scheme Net \<Rightarrow> 'a Provider_scheme Net \<Rightarrow> bool" where
  "outage_over n m \<longleftrightarrow> nt_phase m = AtTop \<or> nt_phase m = AfterRun \<and> (nt_owner m = Free \<longrightarrow> run_ended n m)"

lemma told_io: "outage_told p (p'\<lparr>pv_io_running := b\<rparr>) = outage_told p p'"
  by (simp add: outage_told_def)

lemma outage_path_step:
  assumes "net_step_of throws H (\<lambda>_ _. False) K dial m m'" "net_sound m'" "outage_path n m"
  shows "outage_over n m' \<or> outage_path n m' \<and> stalls m' < stalls m"
proof -
  have none: "\<not> session_step (nt_sessions m ! i) r" "ss_op (nt_sessions m ! i) = None" if "i < length (nt_sessions m)" for i r
    using assms(3) that no_op_no_step by (simp_all add: outage_path_def run_idle_def list_all_length)
  have i: "nt_phase m = InRun" "list_all (\<lambda>s. ss_op s = None) (nt_sessions m)" "pv_depth_live (nt_provider m) = 0" "pv_bbo_live (nt_provider m) = 0"
    "net_sound m" "pv_io_running (nt_provider n)"
    using assms(3) by (simp_all add: outage_path_def run_idle_def)
  have q: "nt_owner m = Free \<Longrightarrow> nt_timer m = nt_timer n \<and> nt_provider m = nt_provider n \<or>
      \<not> nt_timer m \<and> nt_timer n \<and> outage_told (nt_provider n) (nt_provider m)"
    using assms(3) by (simp add: outage_path_def)
  show ?thesis using assms(1)
  proof cases
    case (net_tick clk again p)
    have p: "p = snd (health_tick clk (nt_provider m))" "again = fst (health_tick clk (nt_provider m))" using net_tick(5) by simp_all
    note t = outage_tick[OF i(3,4), of clk]
    have "nt_owner m = Free \<Longrightarrow> nt_timer n \<and> outage_told (nt_provider n) p" using q net_tick(4) t(2) p by auto
    then show ?thesis using net_tick(1,4) i p t(1) assms(2)
      by (simp add: outage_path_def run_idle_def stalls_def health_tick_live)
  next
    case net_return
    then show ?thesis using q i(6) by (auto simp: outage_over_def run_ended_def told_io)
  next
    case net_stop
    have "list_all (\<lambda>s. ss_op s = None) (nt_sessions (stop_sessions m))"
      using i(2) by (auto simp: stop_sessions_def current_sessions_def list_all_iff Session_Stop_def dest: in_set_takeD in_set_dropD)
    then show ?thesis using net_stop i assms(2) by (simp add: outage_path_def run_idle_def stalls_def Stop_def stop_sessions_def)
  next
    case net_start
    then show ?thesis using i(1,5) by (auto simp: net_sound_def phases_ok_def)
  next
    case net_destroy
    then show ?thesis using i(1,5) by (auto simp: net_sound_def phases_ok_def)
  next
    case (net_thrown p m2)
    then show ?thesis by (simp add: outage_over_def caught_def)
  qed (use none i(1) in simp_all)
qed

context connection_client
begin

lemma outage_chain:
  assumes "\<And>p p'. \<not> G p p'" "outage_path n (f 0)" "\<And>i. net_step_of throws H G K dial (f i) (f (Suc i))"
  shows "\<exists>i\<le>Suc (stalls (f 0)). outage_over n (f i)"
  using assms(2,3)
proof (induction "stalls (f 0)" arbitrary: f rule: less_induct)
  case less
  have "G = (\<lambda>_ _. False)" using assms(1) by blast
  have "net_sound (f (Suc 0))" using net_step_sound[OF less(3)] less(2) by (simp add: outage_path_def)
  from outage_path_step[OF less(3)[of 0, unfolded \<open>G = _\<close>] this less(2)] show ?case
  proof
    assume "outage_over n (f (Suc 0))" then show ?thesis by (intro exI[of _ "Suc 0"]) simp
  next
    assume e: "outage_path n (f (Suc 0)) \<and> stalls (f (Suc 0)) < stalls (f 0)"
    then obtain i where "i \<le> Suc (stalls (f (Suc 0)))" "outage_over n (f (Suc i))"
      using less(1)[of "\<lambda>i. f (Suc i)"] less(3) by auto
    then show ?thesis using e by (intro exI[of _ "Suc i"]) auto
  qed
qed

end

text \<open>What is left of a run whose last connection is gone, when earlier runs have left nothing behind.\<close>

lemma outage_idle:
  assumes "net_ok n" "nt_phase n = InRun" "pv_depth_live (nt_provider n) = 0"
    "list_all (\<lambda>s. ss_op s = None) (take (nt_first n) (nt_sessions n))"
  shows "run_idle n"
proof -
  have ok: "list_all websocket_ok (nt_sessions n)" "open_count (current_sessions n) = 0" "pv_bbo_live (nt_provider n) = 0"
    using assms(1,3) by (simp_all add: net_ok_def)
  have "ss_closed_notified s" if "s \<in> set (current_sessions n)" for s
    using that ok(2) by (auto simp: open_count_def filter_empty_conv)
  then have "list_all (\<lambda>s. ss_op s = None) (current_sessions n)"
    using ok(1) by (auto simp: list_all_iff websocket_ok_def session_sound_def current_sessions_def dest: in_set_dropD)
  then have "list_all (\<lambda>s. ss_op s = None) (nt_sessions n)"
    using assms(4) unfolding current_sessions_def by (metis append_take_drop_id list_all_append)
  then show ?thesis using assms(2,3) ok(3) by (simp add: run_idle_def)
qed

context connection_client
begin

text \<open>A total outage ends the pass: the watchdog fires once more and does not rearm, and nothing else keeps the run alive.\<close>

lemma outage_ends_run:
  assumes "net_ok n" "nt_phase n = InRun" "pv_io_running (nt_provider n)" "pv_depth_live (nt_provider n) = 0"
    "list_all (\<lambda>s. ss_op s = None) (take (nt_first n) (nt_sessions n))"
  shows "\<exists>n'. (net_step_of throws H G K dial)\<^sup>*\<^sup>* n n' \<and> run_ended n n'"
proof -
  let ?N = "net_step_of throws H G K dial"
  have idle: "list_all (\<lambda>s. ss_op s = None) (nt_sessions n)" and live: "pv_bbo_live (nt_provider n) = 0"
    using outage_idle[OF assms(1,2,4,5)] by (simp_all add: run_idle_def)
  have return: "?N m (m\<lparr>nt_phase := AfterRun, nt_provider := (nt_provider m)\<lparr>pv_io_running := False\<rparr>\<rparr>)"
    if "nt_phase m = InRun" "\<not> nt_timer m" "nt_sessions m = nt_sessions n" for m
    using that idle by (intro net_step_of.net_return) simp_all
  show ?thesis
  proof (cases "nt_timer n")
    case True
    obtain again p where t: "health_tick (\<lambda>_. 0) (nt_provider n) = (again, p)" by (rule prod.exhaust)
    then have a: "\<not> again" "outage_told (nt_provider n) p" using outage_tick[OF assms(4) live, of "\<lambda>_. 0"] by simp_all
    let ?m = "n\<lparr>nt_timer := again, nt_provider := p\<rparr>"
    have "?N n ?m" by (rule net_step_of.net_tick[OF assms(2,3) True t])
    moreover note return[of ?m]
    ultimately have "?N\<^sup>*\<^sup>* n (?m\<lparr>nt_phase := AfterRun, nt_provider := (nt_provider ?m)\<lparr>pv_io_running := False\<rparr>\<rparr>)"
      using assms(2) a(1) by (intro converse_rtranclp_into_rtranclp[where r = ?N, OF _ r_into_rtranclp[where r = ?N]]) simp_all
    then show ?thesis using True a by (intro exI conjI) (assumption, simp add: run_ended_def told_io)
  next
    case False
    have "?N n (n\<lparr>nt_phase := AfterRun, nt_provider := (nt_provider n)\<lparr>pv_io_running := False\<rparr>\<rparr>)" using return assms(2) False by simp
    then show ?thesis using False by (intro exI conjI) (rule r_into_rtranclp, assumption, simp add: run_ended_def)
  qed
qed

end


section \<open>The provider process (md_provider_main.cpp)\<close>

text \<open>Where the main thread stands once the provider has been built.\<close>

datatype MainPhase = MainHello | MainStart | MainRunning | MainStop | MainJoin | MainGoodbye | MainDestroy | MainDone

text \<open>A step of the worker: one that is not the owner's.\<close>

definition worker_step :: "('p Net \<Rightarrow> 'p Net \<Rightarrow> bool) \<Rightarrow> 'p Net \<Rightarrow> 'p Net \<Rightarrow> bool" where
  "worker_step N n n' \<longleftrightarrow> N n n' \<and> nt_phase n \<noteq> NoThread \<and> nt_owner n' = nt_owner n"

inductive process_step ::
  "('a Provider_scheme Net \<Rightarrow> 'a Provider_scheme Net \<Rightarrow> bool) \<Rightarrow>
   MainPhase \<times> 'a Provider_scheme Net \<Rightarrow> MainPhase \<times> 'a Provider_scheme Net \<Rightarrow> bool" for N where
  process_worker: "worker_step N n n' \<Longrightarrow> process_step N (m, n) (m, n')"
| process_hello: "process_step N (MainHello, n) (MainStart, n)"
| process_start: "process_step N (MainStart, n) (MainRunning, n\<lparr>nt_provider := Start (nt_provider n), nt_phase := AtTop\<rparr>)"
| process_signal: "process_step N (MainRunning, n) (MainStop, n)"
| process_stop: "pv_running (nt_provider n) \<Longrightarrow> process_step N (MainStop, n) (MainJoin, stop_called n)"
| process_no_stop: "\<not> pv_running (nt_provider n) \<Longrightarrow> process_step N (MainStop, n) (MainGoodbye, n)"
| process_joined: "nt_phase n = Finished \<Longrightarrow> process_step N (MainJoin, n) (MainGoodbye, n\<lparr>nt_phase := NoThread, nt_owner := Free\<rparr>)"
| process_goodbye: "process_step N (MainGoodbye, n) (MainDestroy, n)"
| process_destroy: "process_step N (MainDestroy, n)
    (MainDone, if nt_phase n = NoThread then n\<lparr>nt_owner := Gone\<rparr> else terminated n)"

definition process_ok :: "MainPhase \<times> 'a Provider_scheme Net \<Rightarrow> bool" where
  "process_ok s \<longleftrightarrow>
     (case s of (m, n) \<Rightarrow> net_sound n \<and>
       (case m of
          MainHello \<Rightarrow> nt_owner n = Free \<and> nt_phase n = NoThread
        | MainStart \<Rightarrow> nt_owner n = Free \<and> nt_phase n = NoThread
        | MainRunning \<Rightarrow> nt_owner n = Free
        | MainStop \<Rightarrow> nt_owner n = Free
        | MainJoin \<Rightarrow> nt_owner n = Joining
        | MainGoodbye \<Rightarrow> nt_owner n = Free \<and> \<not> pv_running (nt_provider n)
        | MainDestroy \<Rightarrow> nt_owner n = Free \<and> \<not> pv_running (nt_provider n)
        | MainDone \<Rightarrow> True))"

text \<open>A provider that has stopped running while nobody waits for it is past its last run.\<close>

lemma past_last_run:
  assumes "worker_step (net_step_of throws H G K dial) n n'" "net_sound n" "nt_owner n = Free" "\<not> pv_running (nt_provider n)"
  shows "nt_provider n' = nt_provider n \<and> nt_phase n' = Finished"
proof -
  have p: "nt_phase n = AtTop \<or> nt_phase n = Finished" and s: "net_step_of throws H G K dial n n'" and o: "nt_owner n' = Free"
    using assms by (auto simp: worker_step_def net_sound_def phases_ok_def)
  from s show ?thesis
  proof cases
    case net_start
    then show ?thesis using p o by (auto simp: terminated_def)
  next
    case net_destroy
    then show ?thesis using p o by (auto simp: terminated_def)
  next
    case (net_thrown p n2)
    then show ?thesis using p cut_short_phase[OF net_thrown(3)] by auto
  qed (use p o assms(3,4) in auto)
qed

context connection_client
begin

lemma process_step_ok:
  assumes "process_step (net_step_of throws H G K dial) s s'" "process_ok s"
  shows "process_ok s'"
  using assms
proof (induction rule: process_step.induct)
  case (process_worker n n' m)
  have n: "net_sound n" "net_sound n'" "nt_owner n' = nt_owner n" "nt_phase n \<noteq> NoThread"
    using process_worker net_step_sound by (auto simp: process_ok_def worker_step_def)
  then show ?case using process_worker past_last_run[OF process_worker(1) n(1)] by (cases m) (auto simp: process_ok_def)
next
  case (process_start n)
  then have n: "net_sound n" "nt_owner n = Free" "nt_phase n = NoThread" by (simp_all add: process_ok_def)
  then have "\<not> pv_running (nt_provider n)" by (auto simp: net_sound_def phases_ok_def)
  from net_step_sound[OF net_start[OF n(2) this] n(1)] show ?case using n(2,3) by (simp add: process_ok_def)
next
  case (process_stop n)
  then have n: "net_sound n" "nt_owner n = Free" by (simp_all add: process_ok_def)
  from net_step_sound[OF net_stop[OF n(2) process_stop(1)] n(1)] show ?case
    unfolding stop_called_def[symmetric] by (simp add: process_ok_def stop_called_def)
next
  case (process_joined n)
  then have n: "net_sound n" "nt_owner n = Joining" by (simp_all add: process_ok_def)
  then have "\<not> pv_running (nt_provider n)" by (simp add: net_sound_def phases_ok_def)
  with net_step_sound[OF net_join[OF n(2) process_joined(1)] n(1)] show ?case by (simp add: process_ok_def)
next
  case (process_destroy n)
  then have n: "net_sound n" "nt_owner n = Free" "\<not> pv_running (nt_provider n)" by (simp_all add: process_ok_def)
  from net_step_sound[OF net_destroy[OF n(2,3)] n(1)] show ?case by (simp add: process_ok_def)
qed (simp_all add: process_ok_def)

text \<open>While the main thread uses the sink, the worker neither is in a run nor gets into one.\<close>

lemma sink_one_user:
  assumes "process_ok (m, n)" "m = MainHello \<or> m = MainGoodbye" "(worker_step (net_step_of throws H G K dial))\<^sup>*\<^sup>* n n'"
  shows "nt_phase n' \<noteq> InRun"
proof -
  have "process_ok (m, n')" using assms(3,1)
  proof (induction rule: rtranclp_induct)
    case (step y z)
    then show ?case using process_step_ok[OF process_worker[OF step(2)]] by blast
  qed
  then show ?thesis using assms(2) by (auto simp: process_ok_def net_sound_def phases_ok_def)
qed

lemma process_reaches_ok:
  assumes "(process_step (net_step_of throws H G K dial))\<^sup>*\<^sup>* (MainHello, new_net p) s" "net_sound (new_net p)"
  shows "process_ok s"
  using assms(1)
proof (induction rule: rtranclp_induct)
  case base
  then show ?case using assms(2) by (simp add: process_ok_def new_net_def)
qed (rule process_step_ok)

end

end
