(* ===== verification/Config.thy ===== *)
theory Config
  imports Venue_Types
begin

text \<open>
  Configuration (src/config/) and the configurations providers are built from (src/aggregator/provider_factory.cpp):
  depth tiers, the validation of a loaded session configuration, endpoint paths and their placeholder. The loop that
  substitutes the placeholder is a partial function, and the lemmas show that it always ends and what it gives.
\<close>


section \<open>Depth tiers\<close>

definition kBinanceDepthTiers :: "u32 list" where "kBinanceDepthTiers = [5, 10, 20, 50, 100, 500, 1000, 5000]"
definition kBybitDepthTiers :: "u32 list" where "kBybitDepthTiers = [1, 50, 200, 1000]"
definition kOkxDepthTiers :: "u32 list" where "kOkxDepthTiers = [1, 5, 400]"

definition SelectDepthTier :: "u32 list \<Rightarrow> u32 \<Rightarrow> u32" where
  "SelectDepthTier tiers desired = (case find (\<lambda>tier. tier \<ge> desired) tiers of Some tier \<Rightarrow> tier | None \<Rightarrow> last tiers)"

lemma SelectDepthTier_spec:
  assumes "sorted tiers" "tiers \<noteq> []"
  shows "SelectDepthTier tiers d \<in> set tiers \<and>
    (if d \<le> last tiers then d \<le> SelectDepthTier tiers d \<and> (\<forall>t \<in> set tiers. d \<le> t \<longrightarrow> SelectDepthTier tiers d \<le> t)
     else SelectDepthTier tiers d = last tiers)"
  using assms
proof (induction tiers)
  case (Cons t ts)
  have e: "SelectDepthTier (t # ts) d = (if d \<le> t then t else if ts = [] then t else SelectDepthTier ts d)"
    by (cases ts) (auto simp: SelectDepthTier_def split: option.splits)
  have "ts \<noteq> [] \<Longrightarrow> t \<le> last ts" using Cons.prems(1) by simp
  then show ?case using Cons.IH Cons.prems unfolding e by (auto split: if_splits dest: order_trans)
qed simp

fun ResolveDepth :: "VenueId \<Rightarrow> u32 \<Rightarrow> u32" where
  "ResolveDepth BINANCE desired = SelectDepthTier kBinanceDepthTiers desired"
| "ResolveDepth BYBIT desired = SelectDepthTier kBybitDepthTiers desired"
| "ResolveDepth OKX desired = SelectDepthTier kOkxDepthTiers desired"
| "ResolveDepth COUNT desired = desired"

lemma tiers_sorted: "sorted kBinanceDepthTiers" "sorted kBybitDepthTiers" "sorted kOkxDepthTiers"
  by (simp_all add: kBinanceDepthTiers_def kBybitDepthTiers_def kOkxDepthTiers_def)

section \<open>The session configuration\<close>

definition kDefaultConnections :: u32 where "kDefaultConnections = 1"
definition kMaxConnections :: u32 where "kMaxConnections = 8"

definition ConfigFileForMarket :: "MarketType \<Rightarrow> string" where
  "ConfigFileForMarket market =
     (if market = kSpot then ''user_config/server_config_spot.json'' else ''user_config/server_config_futures.json'')"

record InstrumentEntry =
  ie_id :: InstrumentId
  ie_symbol :: string
  ie_markets :: "MarketType list"

record ServerConfig =
  sc_venues :: "VenueId list"
  sc_instruments :: "InstrumentEntry list"
  sc_grpc_port :: int
  sc_depth :: u32
  sc_connections :: u32

datatype ValidateError = NoVenue | NoInstrument | ZeroDepth | ZeroConnections | TooManyConnections

definition Validate :: "ServerConfig \<Rightarrow> ValidateError option" where
  "Validate c =
     (if sc_venues c = [] then Some NoVenue
      else if sc_instruments c = [] then Some NoInstrument
      else if sc_depth c = 0 then Some ZeroDepth
      else if sc_connections c = 0 then Some ZeroConnections
      else if sc_connections c > kMaxConnections then Some TooManyConnections
      else None)"

fun ParseMarketFlag :: "string list \<Rightarrow> MarketType option" where
  "ParseMarketFlag [] = None"
| "ParseMarketFlag (arg # args) =
     (if take 9 arg = ''--market='' then ToMarketType (drop 9 arg) else ParseMarketFlag args)"

section \<open>Endpoint paths\<close>

definition kSymbolPlaceholder :: string where "kSymbolPlaceholder = ''{symbol}''"

text \<open>\<^verbatim>\<open>std::string::find\<close> from a position on.\<close>

definition find_from :: "string \<Rightarrow> string \<Rightarrow> nat \<Rightarrow> nat option" where
  "find_from pat s pos = find (\<lambda>i. take (length pat) (drop i s) = pat) [pos..<length s + 1 - length pat]"

partial_function (option) resolve_loop :: "string \<Rightarrow> string \<Rightarrow> nat \<Rightarrow> string option" where
  "resolve_loop symbol resolved pos =
     (case find_from kSymbolPlaceholder resolved pos of
        None \<Rightarrow> Some resolved
      | Some pos \<Rightarrow> resolve_loop symbol (take pos resolved @ symbol @ drop (pos + length kSymbolPlaceholder) resolved) (pos + length symbol))"

definition ResolvePath :: "string \<Rightarrow> string \<Rightarrow> string option" where
  "ResolvePath path_template symbol = resolve_loop symbol path_template 0"

text \<open>Every placeholder, from the left, gives way to the symbol; what is put in is not searched again.\<close>

function replace_placeholders :: "string \<Rightarrow> string \<Rightarrow> string" where
  "replace_placeholders symbol [] = []"
| "replace_placeholders symbol (c # cs) =
     (if take (length kSymbolPlaceholder) (c # cs) = kSymbolPlaceholder
      then symbol @ replace_placeholders symbol (drop (length kSymbolPlaceholder) (c # cs))
      else c # replace_placeholders symbol cs)"
  by pat_completeness auto
termination by (relation "measure (length \<circ> snd)") (auto simp: kSymbolPlaceholder_def)

lemma placeholder_nonempty: "kSymbolPlaceholder \<noteq> []" "0 < length kSymbolPlaceholder"
  by (simp_all add: kSymbolPlaceholder_def)

lemma find_from_step:
  assumes "pos < length s"
  shows "find_from pat s pos = (if take (length pat) (drop pos s) = pat then Some pos else find_from pat s (Suc pos))"
proof (cases "pos < length s + 1 - length pat")
  case True
  then show ?thesis by (simp add: find_from_def upt_conv_Cons)
next
  case False
  then have "length (take (length pat) (drop pos s)) < length pat" using assms by auto
  then have "take (length pat) (drop pos s) \<noteq> pat" by (metis less_irrefl)
  then show ?thesis using False by (simp add: find_from_def)
qed

lemma find_from_end: "pat \<noteq> [] \<Longrightarrow> length s \<le> pos \<Longrightarrow> find_from pat s pos = None"
  by (cases pat) (auto simp: find_from_def)

lemma replace_step:
  "pos < length s \<Longrightarrow> replace_placeholders symbol (drop pos s) =
     (if take (length kSymbolPlaceholder) (drop pos s) = kSymbolPlaceholder
      then symbol @ replace_placeholders symbol (drop (pos + length kSymbolPlaceholder) s)
      else s ! pos # replace_placeholders symbol (drop (Suc pos) s))"
proof -
  assume p: "pos < length s"
  have d: "drop (length kSymbolPlaceholder) (drop pos s) = drop (pos + length kSymbolPlaceholder) s" by (simp add: add.commute)
  show ?thesis using p d by (simp add: Cons_nth_drop_Suc[symmetric])
qed

lemma find_replace:
  assumes "pos \<le> length s"
  shows "replace_placeholders symbol (drop pos s) =
    (case find_from kSymbolPlaceholder s pos of
       None \<Rightarrow> drop pos s
     | Some p \<Rightarrow> drop pos (take p s) @ symbol @ replace_placeholders symbol (drop (p + length kSymbolPlaceholder) s)) \<and>
    (\<forall>p. find_from kSymbolPlaceholder s pos = Some p \<longrightarrow> pos \<le> p \<and> p + length kSymbolPlaceholder \<le> length s)"
  using assms
proof (induction "length s - pos" arbitrary: pos)
  case 0
  then show ?case using find_from_end[OF placeholder_nonempty(1), of s pos] by simp
next
  case (Suc n)
  then have p: "pos < length s" by simp
  show ?case
  proof (cases "take (length kSymbolPlaceholder) (drop pos s) = kSymbolPlaceholder")
    case True
    then have "length (take (length kSymbolPlaceholder) (drop pos s)) = length kSymbolPlaceholder" by simp
    then have "pos + length kSymbolPlaceholder \<le> length s" using p by (simp add: min_def split: if_splits)
    then show ?thesis using True p by (simp add: find_from_step replace_step)
  next
    case False
    have "n = length s - Suc pos" "Suc pos \<le> length s" using Suc.hyps(2) p by simp_all
    note IH = Suc.hyps(1)[OF this]
    have d: "drop pos (take q s) = s ! pos # drop (Suc pos) (take q s)" if "Suc pos \<le> q" for q
      using that p Cons_nth_drop_Suc[of pos "take q s"] by simp
    show ?thesis using False p IH d Cons_nth_drop_Suc[OF p]
      by (auto simp: find_from_step[OF p] replace_step[OF p] split: option.splits)
  qed
qed

lemma resolve_loop_total:
  assumes "pos \<le> length s"
  shows "resolve_loop symbol s pos = Some (take pos s @ replace_placeholders symbol (drop pos s))"
  using assms
proof (induction "length s - pos" arbitrary: s pos rule: less_induct)
  case less
  note F = find_replace[OF less.prems, of symbol]
  show ?case
  proof (cases "find_from kSymbolPlaceholder s pos")
    case None
    then show ?thesis using F by (simp add: resolve_loop.simps)
  next
    case (Some p)
    let ?s = "take p s @ symbol @ drop (p + length kSymbolPlaceholder) s" and ?pos = "p + length symbol"
    have p: "pos \<le> p" "p + length kSymbolPlaceholder \<le> length s" using F Some by auto
    have l: "length ?s - ?pos < length s - pos" "?pos \<le> length ?s" using p placeholder_nonempty(2) by (simp_all del: length_greater_0_conv)
    have "take ?pos ?s = take p s @ symbol" "drop ?pos ?s = drop (p + length kSymbolPlaceholder) s" using p by simp_all
    moreover have "take p s = take pos s @ drop pos (take p s)" using p(1) by (metis append_take_drop_id min.absorb1 take_take)
    ultimately show ?thesis using less.hyps[OF l] F Some by (subst resolve_loop.simps) simp
  qed
qed

lemma ResolvePath_total: "ResolvePath path_template symbol = Some (replace_placeholders symbol path_template)"
  by (simp add: ResolvePath_def resolve_loop_total)


section \<open>Endpoints and the providers built from them\<close>

definition kMarketTypeCount :: nat where "kMarketTypeCount = 2"

record VenueEndpoints =
  ep_ws_host :: string
  ep_ws_port :: string
  ep_depth_path :: string
  ep_bbo_path :: string
  ep_rest_host :: string
  ep_rest_port :: string
  ep_rest_depth_path :: string
  ep_rest_instruments_path :: string

type_synonym VenuesConfig = "VenueEndpoints option list"

definition IndexOf :: "VenueId \<Rightarrow> MarketType \<Rightarrow> nat" where
  "IndexOf venue market = venue_index venue * kMarketTypeCount + unat (u8_of_market market)"

definition empty_config :: VenuesConfig where
  "empty_config = replicate (kVenueCount * kMarketTypeCount) None"

lemma IndexOf_inj:
  assumes "m = kSpot \<or> m = kFutures" "m' = kSpot \<or> m' = kFutures" "IndexOf v m = IndexOf v' m'"
  shows "v = v' \<and> m = m'"
proof -
  have "venue_index v * 2 + a = venue_index v' * 2 + b \<Longrightarrow> a < 2 \<Longrightarrow> b < 2 \<Longrightarrow> venue_index v = venue_index v' \<and> a = b" for a b :: nat
    by presburger
  from this[of "unat (u8_of_market m)" "unat (u8_of_market m')"] show ?thesis
    using assms by (auto simp: IndexOf_def kMarketTypeCount_def dest: venue_index_inj)
qed

record ProviderConfig =
  pc_venue_id :: VenueId
  pc_instrument :: InstrumentKey
  pc_host :: string
  pc_port :: string
  pc_depth_path :: string
  pc_bbo_path :: string
  pc_rest_host :: string
  pc_rest_port :: string
  pc_rest_depth_path :: string
  pc_rest_instruments_path :: string
  pc_depth :: u32
  pc_connections :: u32
  pc_depth_backstop_ns :: int
  pc_bbo_backstop_ns :: int

text \<open>The configuration a provider is built with; none for the number that is no venue.\<close>

definition BuildProvider :: "VenueId \<Rightarrow> InstrumentKey \<Rightarrow> VenueEndpoints \<Rightarrow> ServerConfig \<Rightarrow> ProviderConfig option" where
  "BuildProvider venue instrument endpoints server_config =
     (let config = \<lparr>pc_venue_id = venue, pc_instrument = instrument, pc_host = ep_ws_host endpoints, pc_port = ep_ws_port endpoints,
            pc_depth_path = ep_depth_path endpoints, pc_bbo_path = ep_bbo_path endpoints, pc_rest_host = [], pc_rest_port = [],
            pc_rest_depth_path = [], pc_rest_instruments_path = [], pc_depth = ResolveDepth venue (sc_depth server_config),
            pc_connections = sc_connections server_config, pc_depth_backstop_ns = 90 * kSecondNs, pc_bbo_backstop_ns = 30 * kSecondNs\<rparr>
      in case venue of
           BINANCE \<Rightarrow> Some (config\<lparr>pc_rest_host := ep_rest_host endpoints, pc_rest_port := ep_rest_port endpoints,
                        pc_rest_depth_path := ep_rest_depth_path endpoints,
                        pc_depth_backstop_ns := depth_backstop_ns BINANCE, pc_bbo_backstop_ns := bbo_backstop_ns BINANCE\<rparr>)
         | BYBIT \<Rightarrow> Some (config\<lparr>pc_depth_backstop_ns := depth_backstop_ns BYBIT, pc_bbo_backstop_ns := bbo_backstop_ns BYBIT\<rparr>)
         | OKX \<Rightarrow> Some (config\<lparr>pc_rest_host := ep_rest_host endpoints, pc_rest_port := ep_rest_port endpoints,
                        pc_rest_instruments_path := ep_rest_instruments_path endpoints,
                        pc_depth_backstop_ns := depth_backstop_ns OKX, pc_bbo_backstop_ns := bbo_backstop_ns OKX\<rparr>)
         | COUNT \<Rightarrow> None)"

text \<open>A provider gets a depth its venue publishes, no less than what was asked unless the venue publishes no more.\<close>

definition venue_tiers :: "VenueId \<Rightarrow> u32 list" where
  "venue_tiers venue = (case venue of BINANCE \<Rightarrow> kBinanceDepthTiers | BYBIT \<Rightarrow> kBybitDepthTiers | OKX \<Rightarrow> kOkxDepthTiers | COUNT \<Rightarrow> [])"

lemma ResolveDepth_spec:
  assumes "venue \<noteq> COUNT"
  shows "ResolveDepth venue d \<in> set (venue_tiers venue) \<and>
    (if d \<le> last (venue_tiers venue) then d \<le> ResolveDepth venue d \<and> (\<forall>t \<in> set (venue_tiers venue). d \<le> t \<longrightarrow> ResolveDepth venue d \<le> t)
     else ResolveDepth venue d = last (venue_tiers venue))"
proof -
  have "sorted (venue_tiers venue)" "venue_tiers venue \<noteq> []" "ResolveDepth venue d = SelectDepthTier (venue_tiers venue) d"
    using assms tiers_sorted by (cases venue; simp add: venue_tiers_def kBinanceDepthTiers_def kBybitDepthTiers_def kOkxDepthTiers_def)+
  then show ?thesis using SelectDepthTier_spec by metis
qed

end
