(* ===== verification/Config_Json.thy ===== *)
theory Config_Json
  imports Config Registries Decimal
begin

text \<open>
  The configuration documents (src/config/config.cpp, venues_config.cpp) and the start of the two processes
  (src/aggregator/md_core_main.cpp, md_provider_main.cpp): which documents are accepted, what they become, and the checks
  each process makes before it serves. Documents are parsed with simdjson, which is not part of the program: its readers
  are the record \<open>Dom\<close>, an argument of the loaders; the file system is a function from paths to contents. The lemmas
  say what an accepted configuration satisfies and what the two processes read from the same files.
\<close>


section \<open>The document tree\<close>

text \<open>
  What the loaders ask of simdjson's parsed documents: \<open>dm_parse\<close> is the parser (\<open>None\<close> for text that is not JSON), the
  others read a value as an object (its fields in the order of the text), an array, a string or a signed integer; \<open>None\<close>
  is an error result.
\<close>

record 'v Dom =
  dm_parse :: "string \<Rightarrow> 'v option"
  dm_object :: "'v \<Rightarrow> (string \<times> 'v) list option"
  dm_array :: "'v \<Rightarrow> 'v list option"
  dm_string :: "'v \<Rightarrow> string option"
  dm_int64 :: "'v \<Rightarrow> i64 option"

text \<open>\<^verbatim>\<open>object[key]\<close> is the first field of that name; its only error is that there is none.\<close>

abbreviation at_key :: "(string \<times> 'v) list \<Rightarrow> string \<Rightarrow> 'v option" where
  "at_key \<equiv> map_of"

definition ToUpper :: "string \<Rightarrow> string" where
  "ToUpper value = map to_upper value"

section \<open>The session configuration (config.cpp)\<close>

datatype ConfigError =
    InvalidJson | TopLevelNotObject | UnknownKey string | VenuesNotArray | VenueNotString | UnknownVenue string
  | DuplicateVenue string | InstrumentsNotArray | EntryNotObject nat | SymbolMissing nat | SymbolRejected nat SymbolStatus
  | RegistryFull nat | MarketNotArray nat | MarketNotString nat | UnknownMarket nat string | ConfiguredTwice nat
  | NoMarketNamed nat | NotAnInteger string | NegativeInteger string | CannotOpen string

definition kKnownKeys :: "string list" where
  "kKnownKeys = [''venues'', ''depth'', ''connections'', ''grpc_port'', ''instruments'']"

definition IsKnownKey :: "string \<Rightarrow> bool" where
  "IsKnownKey key = (key \<in> set kKnownKeys)"

definition ParseOptionalUint32 :: "'v Dom \<Rightarrow> (string \<times> 'v) list \<Rightarrow> string \<Rightarrow> u32 \<Rightarrow> ConfigError + u32" where
  "ParseOptionalUint32 J root key out =
     (case at_key root key of
        None \<Rightarrow> Inr out
      | Some element \<Rightarrow>
          (case dm_int64 J element of
             None \<Rightarrow> Inl (NotAnInteger key)
           | Some value \<Rightarrow> if sint value < 0 then Inl (NegativeInteger key) else Inr (ucast value)))"

definition ParseOptionalInt :: "'v Dom \<Rightarrow> (string \<times> 'v) list \<Rightarrow> string \<Rightarrow> int \<Rightarrow> ConfigError + int" where
  "ParseOptionalInt J root key out =
     (case at_key root key of
        None \<Rightarrow> Inr out
      | Some element \<Rightarrow>
          (case dm_int64 J element of
             None \<Rightarrow> Inl (NotAnInteger key)
           | Some value \<Rightarrow> Inr (sint (ucast value :: u32))))"

fun parse_venues :: "'v Dom \<Rightarrow> 'v list \<Rightarrow> VenueId list \<Rightarrow> ConfigError + VenueId list" where
  "parse_venues J [] venues = Inr venues"
| "parse_venues J (venue_element # elements) venues =
     (case dm_string J venue_element of
        None \<Rightarrow> Inl VenueNotString
      | Some venue_name \<Rightarrow>
          (let venue_id = ToVenueId (ToUpper venue_name)
           in if venue_id = COUNT then Inl (UnknownVenue venue_name)
              else if venue_id \<in> set venues then Inl (DuplicateVenue venue_name)
              else parse_venues J elements (venues @ [venue_id])))"

fun parse_markets ::
  "'v Dom \<Rightarrow> nat \<Rightarrow> InstrumentId \<Rightarrow> 'v list \<Rightarrow> u32 list \<Rightarrow> MarketType list \<Rightarrow> ConfigError + u32 list \<times> MarketType list" where
  "parse_markets J index i [] seen_keys markets = Inr (seen_keys, markets)"
| "parse_markets J index i (market_element # elements) seen_keys markets =
     (case dm_string J market_element of
        None \<Rightarrow> Inl (MarketNotString index)
      | Some market_name \<Rightarrow>
          (case ToMarketType market_name of
             None \<Rightarrow> Inl (UnknownMarket index market_name)
           | Some market \<Rightarrow>
               (let packed_key = Packed (MakeKey i market)
                in if packed_key \<in> set seen_keys then Inl (ConfiguredTwice index)
                   else parse_markets J index i elements (seen_keys @ [packed_key]) (markets @ [market]))))"

text \<open>One turn of the loop over the instruments; the registry keeps what was registered even when the turn fails.\<close>

definition parse_instrument ::
  "'v Dom \<Rightarrow> nat \<Rightarrow> 'v \<Rightarrow> u32 list \<Rightarrow> InstrumentRegistry \<Rightarrow> (ConfigError + u32 list \<times> InstrumentEntry) \<times> InstrumentRegistry" where
  "parse_instrument J index entry_element seen_keys registry =
     (case dm_object J entry_element of
        None \<Rightarrow> (Inl (EntryNotObject index), registry)
      | Some entry_object \<Rightarrow>
          (case Option.bind (at_key entry_object ''symbol'') (dm_string J) of
             None \<Rightarrow> (Inl (SymbolMissing index), registry)
           | Some symbol \<Rightarrow>
               (let status = ValidateSymbol (NormalizeSymbol symbol)
                in if status \<noteq> kOk then (Inl (SymbolRejected index status), registry)
                   else case RegisterInstrument registry symbol of
                          (None, registry) \<Rightarrow> (Inl (RegistryFull index), registry)
                        | (Some i, registry) \<Rightarrow>
                            (case Option.bind (at_key entry_object ''market'') (dm_array J) of
                               None \<Rightarrow> (Inl (MarketNotArray index), registry)
                             | Some markets_array \<Rightarrow>
                                 (case parse_markets J index i markets_array seen_keys [] of
                                    Inl e \<Rightarrow> (Inl e, registry)
                                  | Inr (seen_keys, markets) \<Rightarrow>
                                      if markets = [] then (Inl (NoMarketNamed index), registry)
                                      else (Inr (seen_keys, \<lparr>ie_id = i, ie_symbol = InstrumentName registry i, ie_markets = markets\<rparr>),
                                            registry))))))"

fun parse_instruments ::
  "'v Dom \<Rightarrow> nat \<Rightarrow> 'v list \<Rightarrow> u32 list \<Rightarrow> InstrumentEntry list \<Rightarrow> InstrumentRegistry \<Rightarrow>
   (ConfigError + InstrumentEntry list) \<times> InstrumentRegistry" where
  "parse_instruments J index [] seen_keys instruments registry = (Inr instruments, registry)"
| "parse_instruments J index (entry_element # elements) seen_keys instruments registry =
     (case parse_instrument J index entry_element seen_keys registry of
        (Inl e, registry) \<Rightarrow> (Inl e, registry)
      | (Inr (seen_keys, entry), registry) \<Rightarrow>
          parse_instruments J (Suc index) elements seen_keys (instruments @ [entry]) registry)"

definition default_server_config :: ServerConfig where
  "default_server_config = \<lparr>sc_venues = [], sc_instruments = [], sc_grpc_port = 50051, sc_depth = 500, sc_connections = kDefaultConnections\<rparr>"

definition parse_scalars :: "'v Dom \<Rightarrow> (string \<times> 'v) list \<Rightarrow> ServerConfig \<Rightarrow> ConfigError + ServerConfig" where
  "parse_scalars J root c =
     (case ParseOptionalUint32 J root ''depth'' (sc_depth c) of
        Inl e \<Rightarrow> Inl e
      | Inr depth \<Rightarrow>
          (case ParseOptionalUint32 J root ''connections'' (sc_connections c) of
             Inl e \<Rightarrow> Inl e
           | Inr connections \<Rightarrow>
               (case ParseOptionalInt J root ''grpc_port'' (sc_grpc_port c) of
                  Inl e \<Rightarrow> Inl e
                | Inr port \<Rightarrow> Inr (c\<lparr>sc_depth := depth, sc_connections := connections, sc_grpc_port := port\<rparr>))))"

text \<open>The result's \<^verbatim>\<open>config\<close> is meaningless when \<^verbatim>\<open>error\<close> is set: the model returns one or the other.\<close>

definition ServerConfig_ParseJson ::
  "'v Dom \<Rightarrow> string \<Rightarrow> InstrumentRegistry \<Rightarrow> (ConfigError + ServerConfig) \<times> InstrumentRegistry" where
  "ServerConfig_ParseJson J json registry =
     (case dm_parse J json of
        None \<Rightarrow> (Inl InvalidJson, registry)
      | Some doc \<Rightarrow>
     (case dm_object J doc of
        None \<Rightarrow> (Inl TopLevelNotObject, registry)
      | Some root \<Rightarrow>
     (case find (\<lambda>(key, value). \<not> IsKnownKey key) root of
        Some (key, value) \<Rightarrow> (Inl (UnknownKey key), registry)
      | None \<Rightarrow>
     (case Option.bind (at_key root ''venues'') (dm_array J) of
        None \<Rightarrow> (Inl VenuesNotArray, registry)
      | Some venues_array \<Rightarrow>
     (case parse_venues J venues_array [] of
        Inl e \<Rightarrow> (Inl e, registry)
      | Inr venues \<Rightarrow>
     (case Option.bind (at_key root ''instruments'') (dm_array J) of
        None \<Rightarrow> (Inl InstrumentsNotArray, registry)
      | Some instruments_array \<Rightarrow>
     (case parse_instruments J 0 instruments_array [] [] registry of
        (Inl e, registry) \<Rightarrow> (Inl e, registry)
      | (Inr instruments, registry) \<Rightarrow>
          (parse_scalars J root (default_server_config\<lparr>sc_venues := venues, sc_instruments := instruments\<rparr>), registry))))))))"

text \<open>\<open>files\<close> is what the file system holds.\<close>

definition ServerConfig_LoadFile ::
  "'v Dom \<Rightarrow> (string \<Rightarrow> string option) \<Rightarrow> string \<Rightarrow> InstrumentRegistry \<Rightarrow> (ConfigError + ServerConfig) \<times> InstrumentRegistry" where
  "ServerConfig_LoadFile J files path registry =
     (case files path of None \<Rightarrow> (Inl (CannotOpen path), registry) | Some contents \<Rightarrow> ServerConfig_ParseJson J contents registry)"

section \<open>Endpoints (venues_config.cpp)\<close>

datatype VenuesError =
    VInvalidJson | VTopLevelNotObject | VUnknownVenue string | VenueNotObject string | VUnknownMarket string string
  | MarketNotObject string string | VUnknownKey string string string | DefinedTwice string string
  | FieldMissing string | FieldEmpty string | FieldNotString string | IncompleteRest string string | NoEndpoints | VCannotOpen string

definition kMarketKeys :: "string list" where
  "kMarketKeys = [''ws_host'', ''ws_port'', ''depth_path'', ''bbo_path'', ''rest_host'', ''rest_port'', ''rest_depth_path'',
     ''rest_instruments_path'']"

definition IsKnownMarketKey :: "string \<Rightarrow> bool" where
  "IsKnownMarketKey key = (key \<in> set kMarketKeys)"

definition ParseRequiredString :: "'v Dom \<Rightarrow> (string \<times> 'v) list \<Rightarrow> string \<Rightarrow> VenuesError + string" where
  "ParseRequiredString J market_object key =
     (case Option.bind (at_key market_object key) (dm_string J) of
        None \<Rightarrow> Inl (FieldMissing key)
      | Some value \<Rightarrow> if value = [] then Inl (FieldEmpty key) else Inr value)"

definition ParseOptionalString :: "'v Dom \<Rightarrow> (string \<times> 'v) list \<Rightarrow> string \<Rightarrow> VenuesError + string" where
  "ParseOptionalString J market_object key =
     (case at_key market_object key of
        None \<Rightarrow> Inr []
      | Some element \<Rightarrow> (case dm_string J element of None \<Rightarrow> Inl (FieldNotString key) | Some value \<Rightarrow> Inr value))"

fun read_fields :: "('k \<Rightarrow> 'e + 'b) \<Rightarrow> 'k list \<Rightarrow> 'e + 'b list" where
  "read_fields parse [] = Inr []"
| "read_fields parse (key # keys) =
     (case parse key of
        Inl e \<Rightarrow> Inl e
      | Inr value \<Rightarrow> (case read_fields parse keys of Inl e \<Rightarrow> Inl e | Inr values \<Rightarrow> Inr (value # values)))"

definition rest_complete :: "VenueEndpoints \<Rightarrow> bool" where
  "rest_complete ep =
     (let has_path = (ep_rest_depth_path ep \<noteq> [] \<or> ep_rest_instruments_path ep \<noteq> []);
          has_host_or_port = (ep_rest_host ep \<noteq> [] \<or> ep_rest_port ep \<noteq> [])
      in \<not> ((has_path \<or> has_host_or_port) \<and> (ep_rest_host ep = [] \<or> ep_rest_port ep = [] \<or> \<not> has_path)))"

definition parse_endpoints :: "'v Dom \<Rightarrow> string \<Rightarrow> string \<Rightarrow> (string \<times> 'v) list \<Rightarrow> VenuesError + VenueEndpoints" where
  "parse_endpoints J venue_name market_name market_object =
     (case read_fields (ParseRequiredString J market_object) [''ws_host'', ''ws_port'', ''depth_path'', ''bbo_path''] of
        Inl e \<Rightarrow> Inl e
      | Inr required \<Rightarrow>
          (case read_fields (ParseOptionalString J market_object) [''rest_host'', ''rest_port'', ''rest_depth_path'', ''rest_instruments_path''] of
             Inl e \<Rightarrow> Inl e
           | Inr optional \<Rightarrow>
               (let endpoints = \<lparr>ep_ws_host = required ! 0, ep_ws_port = required ! 1, ep_depth_path = required ! 2,
                      ep_bbo_path = required ! 3, ep_rest_host = optional ! 0, ep_rest_port = optional ! 1,
                      ep_rest_depth_path = optional ! 2, ep_rest_instruments_path = optional ! 3\<rparr>
                in if \<not> rest_complete endpoints then Inl (IncompleteRest venue_name market_name) else Inr endpoints)))"

fun parse_venue_markets ::
  "'v Dom \<Rightarrow> VenueId \<Rightarrow> string \<Rightarrow> (string \<times> 'v) list \<Rightarrow> VenuesConfig \<Rightarrow> VenuesError + VenuesConfig" where
  "parse_venue_markets J venue venue_name [] entries = Inr entries"
| "parse_venue_markets J venue venue_name ((market_name, market_value) # markets) entries =
     (case ToMarketType market_name of
        None \<Rightarrow> Inl (VUnknownMarket venue_name market_name)
      | Some market \<Rightarrow>
     (case dm_object J market_value of
        None \<Rightarrow> Inl (MarketNotObject venue_name market_name)
      | Some market_object \<Rightarrow>
     (case find (\<lambda>(key, value). \<not> IsKnownMarketKey key) market_object of
        Some (key, value) \<Rightarrow> Inl (VUnknownKey venue_name market_name key)
      | None \<Rightarrow>
     if entries ! IndexOf venue market \<noteq> None then Inl (DefinedTwice venue_name market_name)
     else case parse_endpoints J venue_name market_name market_object of
            Inl e \<Rightarrow> Inl e
          | Inr endpoints \<Rightarrow> parse_venue_markets J venue venue_name markets (entries[IndexOf venue market := Some endpoints]))))"

fun parse_venue_entries :: "'v Dom \<Rightarrow> (string \<times> 'v) list \<Rightarrow> VenuesConfig \<Rightarrow> VenuesError + VenuesConfig" where
  "parse_venue_entries J [] entries = Inr entries"
| "parse_venue_entries J ((venue_name, venue_value) # venues) entries =
     (let venue = ToVenueId (ToUpper venue_name)
      in if venue = COUNT then Inl (VUnknownVenue venue_name)
         else case dm_object J venue_value of
                None \<Rightarrow> Inl (VenueNotObject venue_name)
              | Some venue_object \<Rightarrow>
                  (case parse_venue_markets J venue venue_name venue_object entries of
                     Inl e \<Rightarrow> Inl e
                   | Inr entries \<Rightarrow> parse_venue_entries J venues entries))"

text \<open>\<^verbatim>\<open>any_entry\<close> is whether an entry was stored.\<close>

definition VenuesConfig_ParseJson :: "'v Dom \<Rightarrow> string \<Rightarrow> VenuesError + VenuesConfig" where
  "VenuesConfig_ParseJson J json =
     (case dm_parse J json of
        None \<Rightarrow> Inl VInvalidJson
      | Some doc \<Rightarrow>
          (case dm_object J doc of
             None \<Rightarrow> Inl VTopLevelNotObject
           | Some root \<Rightarrow>
               (case parse_venue_entries J root empty_config of
                  Inl e \<Rightarrow> Inl e
                | Inr entries \<Rightarrow> if list_all (\<lambda>e. e = None) entries then Inl NoEndpoints else Inr entries)))"

definition VenuesConfig_LoadFile :: "'v Dom \<Rightarrow> (string \<Rightarrow> string option) \<Rightarrow> string \<Rightarrow> VenuesError + VenuesConfig" where
  "VenuesConfig_LoadFile J files path =
     (case files path of None \<Rightarrow> Inl (VCannotOpen path) | Some contents \<Rightarrow> VenuesConfig_ParseJson J contents)"

definition VenuesConfig_Find :: "VenuesConfig \<Rightarrow> VenueId \<Rightarrow> MarketType \<Rightarrow> VenueEndpoints option" where
  "VenuesConfig_Find entries venue market = (if venue = COUNT then None else entries ! IndexOf venue market)"


section \<open>Command lines\<close>

datatype CliError = InvalidArgument | OutOfRange

text \<open>\<^verbatim>\<open>std::stoul\<close> and \<^verbatim>\<open>std::stoi\<close> in base ten: blanks, a sign, the longest run of digits; the exceptions as errors.\<close>

definition strip_sign :: "string \<Rightarrow> bool \<times> string" where
  "strip_sign s =
     (let s = dropWhile is_space s
      in (s \<noteq> [] \<and> hd s = CHR ''-'', if s \<noteq> [] \<and> (hd s = CHR ''-'' \<or> hd s = CHR ''+'') then tl s else s))"

definition stoul :: "string \<Rightarrow> CliError + u64" where
  "stoul s =
     (case strip_sign s of (negative, rest) \<Rightarrow>
       (let digits = takeWhile is_digit rest; n = digits_value digits
        in if digits = [] then Inl InvalidArgument else if n \<ge> 2 ^ 64 then Inl OutOfRange
           else Inr (if negative then - of_nat n else of_nat n)))"

definition stoi :: "string \<Rightarrow> CliError + int" where
  "stoi s =
     (case strip_sign s of (negative, rest) \<Rightarrow>
       (let digits = takeWhile is_digit rest; n = (if negative then - int (digits_value digits) else int (digits_value digits))
        in if digits = [] then Inl InvalidArgument else if n < - (2 ^ 31) \<or> n \<ge> 2 ^ 31 then Inl OutOfRange else Inr n))"

definition has_prefix :: "string \<Rightarrow> string \<Rightarrow> bool" where
  "has_prefix pre s \<longleftrightarrow> take (length pre) s = pre"

record CliOverrides =
  co_depth :: "u32 option"
  co_grpc_port :: "int option"

text \<open>An argument of any other form is reported and skipped.\<close>

fun parse_cli :: "string list \<Rightarrow> CliOverrides \<Rightarrow> CliError + CliOverrides" where
  "parse_cli [] overrides = Inr overrides"
| "parse_cli (arg # args) overrides =
     (if has_prefix ''--depth='' arg
      then (case stoul (drop 8 arg) of Inl e \<Rightarrow> Inl e | Inr v \<Rightarrow> parse_cli args (overrides\<lparr>co_depth := Some (ucast v)\<rparr>))
      else if has_prefix ''--grpc_port='' arg
      then (case stoi (drop 12 arg) of Inl e \<Rightarrow> Inl e | Inr v \<Rightarrow> parse_cli args (overrides\<lparr>co_grpc_port := Some v\<rparr>))
      else parse_cli args overrides)"

definition CliOverrides_ParseFromArgs :: "string list \<Rightarrow> CliError + CliOverrides" where
  "CliOverrides_ParseFromArgs args = parse_cli args \<lparr>co_depth = None, co_grpc_port = None\<rparr>"

section \<open>Starting the two processes (md_core_main.cpp, md_provider_main.cpp)\<close>

definition kDefaultEndpoint :: string where "kDefaultEndpoint = ''ipc:///run/md/core.ipc''"
definition kVenuesConfigFileName :: string where "kVenuesConfigFileName = ''user_config/venues_config.json''"

text \<open>Why a process stops before it serves: exit code 2 in the code, apart from the uncaught exception of \<^verbatim>\<open>std::stoi\<close>.\<close>

datatype StartError =
    UncaughtException CliError | UnknownFlagGiven string | MarketRequired | Usage | VenueArgument | MarketArgument
  | ConfigRejected ConfigError | ConfigInvalid ValidateError | NotOneInstrument | MarketMismatch
  | EndpointsRejected VenuesError | VenueNotListed | NoEndpointsFor | NoProvider

fun core_flags :: "string list \<Rightarrow> string \<Rightarrow> int option \<Rightarrow> StartError + string \<times> int option" where
  "core_flags [] endpoint port = Inr (endpoint, port)"
| "core_flags (arg # args) endpoint port =
     (if has_prefix ''--grpc_port='' arg
      then (case stoi (drop 12 arg) of Inl e \<Rightarrow> Inl (UncaughtException e) | Inr v \<Rightarrow> core_flags args endpoint (Some v))
      else if has_prefix ''--market='' arg then core_flags args endpoint port
      else if has_prefix ''--'' arg then Inl (UnknownFlagGiven arg)
      else core_flags args arg port)"

record CoreStart =
  cs_endpoint :: string
  cs_config :: ServerConfig
  cs_core_config :: CoreConfig

text \<open>The one instrument and market both processes are limited to.\<close>

definition single_entry :: "ServerConfig \<Rightarrow> (InstrumentEntry \<times> MarketType) option" where
  "single_entry c =
     (case sc_instruments c of
        [entry] \<Rightarrow> (case ie_markets entry of [market] \<Rightarrow> Some (entry, market) | _ \<Rightarrow> None)
      | _ \<Rightarrow> None)"

definition core_start :: "'v Dom \<Rightarrow> (string \<Rightarrow> string option) \<Rightarrow> string list \<Rightarrow> StartError + CoreStart" where
  "core_start J files args =
     (case core_flags args kDefaultEndpoint None of
        Inl e \<Rightarrow> Inl e
      | Inr (endpoint, port) \<Rightarrow>
     (case ParseMarketFlag args of
        None \<Rightarrow> Inl MarketRequired
      | Some market_flag \<Rightarrow>
     (case fst (ServerConfig_LoadFile J files (ConfigFileForMarket market_flag) \<lparr>ir_names = []\<rparr>) of
        Inl e \<Rightarrow> Inl (ConfigRejected e)
      | Inr config \<Rightarrow>
     (let config = (case port of None \<Rightarrow> config | Some v \<Rightarrow> config\<lparr>sc_grpc_port := v\<rparr>)
      in case Validate config of
           Some e \<Rightarrow> Inl (ConfigInvalid e)
         | None \<Rightarrow>
     (case single_entry config of
        None \<Rightarrow> Inl NotOneInstrument
      | Some (entry, market) \<Rightarrow>
          if market \<noteq> market_flag then Inl MarketMismatch
          else Inr \<lparr>cs_endpoint = endpoint, cs_config = config,
                    cs_core_config = \<lparr>cfg_venues = sc_venues config,
                      cfg_default_instruments = [MakeKey (ie_id entry) market]\<rparr>\<rparr>)))))"

record ProviderStart =
  pr_endpoint :: string
  pr_venue_name :: string
  pr_instrument :: InstrumentKey
  pr_config :: ProviderConfig

definition provider_start :: "'v Dom \<Rightarrow> 'v Dom \<Rightarrow> (string \<Rightarrow> string option) \<Rightarrow> string list \<Rightarrow> StartError + ProviderStart" where
  "provider_start J J' files args =
     (if length args < 2 \<or> length args > 3 then Inl Usage
      else let venue_arg = ToUpper (args ! 0); endpoint = (if length args = 3 then args ! 2 else kDefaultEndpoint);
               venue = ToVenueId venue_arg
           in if venue = COUNT then Inl VenueArgument
              else case ToMarketType (args ! 1) of
                     None \<Rightarrow> Inl MarketArgument
                   | Some market \<Rightarrow>
     (case fst (ServerConfig_LoadFile J files (ConfigFileForMarket market) \<lparr>ir_names = []\<rparr>) of
        Inl e \<Rightarrow> Inl (ConfigRejected e)
      | Inr config \<Rightarrow>
     (case Validate config of
        Some e \<Rightarrow> Inl (ConfigInvalid e)
      | None \<Rightarrow>
     (case VenuesConfig_LoadFile J' files kVenuesConfigFileName of
        Inl e \<Rightarrow> Inl (EndpointsRejected e)
      | Inr venues_config \<Rightarrow>
     (case single_entry config of
        None \<Rightarrow> Inl NotOneInstrument
      | Some (entry, entry_market) \<Rightarrow>
          if venue \<notin> set (sc_venues config) then Inl VenueNotListed
          else if market \<noteq> entry_market then Inl MarketMismatch
          else case VenuesConfig_Find venues_config venue market of
                 None \<Rightarrow> Inl NoEndpointsFor
               | Some endpoints \<Rightarrow>
                   (case BuildProvider venue (MakeKey (ie_id entry) market) endpoints config of
                      None \<Rightarrow> Inl NoProvider
                    | Some provider \<Rightarrow> Inr \<lparr>pr_endpoint = endpoint, pr_venue_name = venue_arg,
                        pr_instrument = MakeKey (ie_id entry) market, pr_config = provider\<rparr>))))))"

section \<open>What an accepted session configuration is\<close>

definition entry_keys :: "InstrumentEntry \<Rightarrow> u32 list" where
  "entry_keys e = map (\<lambda>m. Packed (MakeKey (ie_id e) m)) (ie_markets e)"

definition known_markets :: "MarketType list \<Rightarrow> bool" where
  "known_markets ms \<longleftrightarrow> set ms \<subseteq> {kSpot, kFutures}"

definition entry_ok :: "InstrumentRegistry \<Rightarrow> InstrumentEntry \<Rightarrow> bool" where
  "entry_ok r e \<longleftrightarrow> unat (ie_id e) < length (ir_names r) \<and> ie_symbol e = InstrumentName r (ie_id e) \<and> ie_markets e \<noteq> [] \<and>
     known_markets (ie_markets e)"

lemma parse_venues_ok:
  "parse_venues J vs acc = Inr venues \<Longrightarrow> distinct acc \<Longrightarrow> COUNT \<notin> set acc \<Longrightarrow> distinct venues \<and> COUNT \<notin> set venues"
  by (induction J vs acc rule: parse_venues.induct)
     (auto simp: Let_def split: option.splits if_splits)

lemma ToMarketType_known: "ToMarketType s = Some m \<Longrightarrow> m = kSpot \<or> m = kFutures"
  by (auto simp: ToMarketType_def split: if_splits)

lemma parse_markets_ok:
  "parse_markets J x i els seen ms = Inr (seen', ms') \<Longrightarrow> distinct seen \<Longrightarrow> known_markets ms \<Longrightarrow>
     distinct seen' \<and> known_markets ms' \<and> (\<exists>new. ms' = ms @ new \<and> seen' = seen @ map (\<lambda>m. Packed (MakeKey i m)) new)"
proof (induction J x i els seen ms rule: parse_markets.induct)
  case (2 J x i el els seen ms)
  obtain name market where m: "dm_string J el = Some name" "ToMarketType name = Some market" "Packed (MakeKey i market) \<notin> set seen"
    and rest: "parse_markets J x i els (seen @ [Packed (MakeKey i market)]) (ms @ [market]) = Inr (seen', ms')"
    using 2(2) by (auto simp: Let_def split: option.splits if_splits)
  have k: "known_markets (ms @ [market])" using 2(4) ToMarketType_known[OF m(2)] by (auto simp: known_markets_def)
  have "distinct seen' \<and> known_markets ms' \<and>
      (\<exists>new. ms' = (ms @ [market]) @ new \<and> seen' = (seen @ [Packed (MakeKey i market)]) @ map (\<lambda>m. Packed (MakeKey i m)) new)"
    by (rule 2(1)[OF m(1,2) refl m(3) rest _ k]) (use 2(3) m(3) in simp)
  then obtain new where n: "distinct seen'" "known_markets ms'" "ms' = ms @ market # new"
    "seen' = seen @ map (\<lambda>m. Packed (MakeKey i m)) (market # new)" by auto
  then show ?case by blast
qed simp

lemma Register_name_stable:
  "unat i < length (ir_names r) \<Longrightarrow> RegisterInstrument r s = (x, r') \<Longrightarrow>
     InstrumentName r' i = InstrumentName r i \<and> unat i < length (ir_names r')"
  by (auto simp: RegisterInstrument_def InstrumentName_def nth_append Let_def split: if_splits option.splits)

lemma Register_id_valid:
  assumes "instruments_ok r" "RegisterInstrument r s = (Some i, r')"
  shows "unat i < length (ir_names r') \<and> InstrumentName r' i = NormalizeSymbol s"
proof -
  have ok: "instruments_ok r'" using RegisterInstrument_ok[OF assms(1), of s] assms(2) by simp
  have f: "FindInstrument r' s = Some i" by (rule instrument_reg.register_lookup[OF assms])
  have n: "InstrumentName r' i = NormalizeSymbol s" by (rule InstrumentName_Find[OF ok f])
  have "ValidateSymbol (NormalizeSymbol s) = kOk" using FindNormalized_validD[OF ok] f by (simp add: FindInstrument_def)
  then have "NormalizeSymbol s \<noteq> []" by (auto simp: ValidateSymbol_def)
  then show ?thesis using n by (auto simp: InstrumentName_def split: if_splits)
qed


definition entries_ok :: "InstrumentRegistry \<Rightarrow> u32 list \<Rightarrow> InstrumentEntry list \<Rightarrow> bool" where
  "entries_ok r seen es \<longleftrightarrow> instruments_ok r \<and> distinct seen \<and> seen = concat (map entry_keys es) \<and> list_all (entry_ok r) es"

lemma entry_ok_registered: "entry_ok r e \<Longrightarrow> RegisterInstrument r s = (x, r') \<Longrightarrow> entry_ok r' e"
  using Register_name_stable[of "ie_id e" r s x r'] by (simp add: entry_ok_def)

lemma parse_instrument_registry:
  "parse_instrument J x el seen r = (res, r') \<Longrightarrow> r' = r \<or> (\<exists>s i. RegisterInstrument r s = (i, r'))"
  by (auto simp: parse_instrument_def Let_def split: option.splits if_splits prod.splits sum.splits)

lemma parse_instrument_keeps: "parse_instrument J x el seen r = (res, r') \<Longrightarrow> instruments_ok r \<Longrightarrow> instruments_ok r'"
  using parse_instrument_registry[of J x el seen r res r'] RegisterInstrument_ok[of r] by (metis snd_conv)

lemma parse_instrument_ok:
  assumes "parse_instrument J x el seen r = (Inr (seen', e), r')" "entries_ok r seen es"
  shows "entries_ok r' seen' (es @ [e])"
proof -
  obtain entry symbol i elements ms where
    r: "RegisterInstrument r symbol = (Some i, r')" and p: "parse_markets J x i elements seen [] = Inr (seen', ms)" and ne: "ms \<noteq> []"
    and e: "e = \<lparr>ie_id = i, ie_symbol = InstrumentName r' i, ie_markets = ms\<rparr>"
    using assms(1) by (auto simp: parse_instrument_def Let_def split: option.splits if_splits prod.splits sum.splits)
  have o: "instruments_ok r" "distinct seen" "seen = concat (map entry_keys es)" "list_all (entry_ok r) es"
    using assms(2) unfolding entries_ok_def by blast+
  have "known_markets []" by (simp add: known_markets_def)
  from parse_markets_ok[OF p o(2) this]
  have m: "distinct seen'" "known_markets ms" "seen' = seen @ map (\<lambda>m. Packed (MakeKey i m)) ms" unfolding append_Nil by blast+
  have "list_all (entry_ok r') es" using o(4) entry_ok_registered[OF _ r] by (auto simp: list_all_iff)
  moreover have "entry_ok r' e" using Register_id_valid[OF o(1) r] m(2) ne by (simp add: entry_ok_def e)
  moreover have "instruments_ok r'" using parse_instrument_keeps[OF assms(1) o(1)] .
  ultimately show ?thesis using m o(3) by (simp add: entries_ok_def entry_keys_def e)
qed

lemma parse_instruments_ok:
  "parse_instruments J x els seen es r = (Inr es', r') \<Longrightarrow> entries_ok r seen es \<Longrightarrow> \<exists>seen'. entries_ok r' seen' es'"
proof (induction J x els seen es r rule: parse_instruments.induct)
  case (2 J x el els seen es r)
  obtain seen1 e r1 where p: "parse_instrument J x el seen r = (Inr (seen1, e), r1)"
    and rest: "parse_instruments J (Suc x) els seen1 (es @ [e]) r1 = (Inr es', r')"
    using 2(2) by (auto split: prod.splits sum.splits)
  show ?case by (rule 2(1)[OF p[symmetric] refl refl rest parse_instrument_ok[OF p 2(3)]])
qed auto

lemma parse_instruments_keeps:
  "parse_instruments J x els seen es r = (res, r') \<Longrightarrow> instruments_ok r \<Longrightarrow> instruments_ok r'"
proof (induction J x els seen es r rule: parse_instruments.induct)
  case (2 J x el els seen es r)
  obtain res1 r1 where p: "parse_instrument J x el seen r = (res1, r1)" by force
  have o: "instruments_ok r1" by (rule parse_instrument_keeps[OF p 2(3)])
  show ?case
  proof (cases res1)
    case (Inl e)
    then show ?thesis using 2(2) p o by simp
  next
    case (Inr se)
    obtain seen1 e where se: "se = (seen1, e)" by (cases se)
    have "parse_instruments J (Suc x) els seen1 (es @ [e]) r1 = (res, r')" using 2(2) p Inr se by simp
    from 2(1)[OF p[unfolded Inr se, symmetric] refl refl this o] show ?thesis .
  qed
qed simp

definition session_config_ok :: "InstrumentRegistry \<Rightarrow> ServerConfig \<Rightarrow> bool" where
  "session_config_ok r c \<longleftrightarrow> distinct (sc_venues c) \<and> COUNT \<notin> set (sc_venues c) \<and>
     list_all (entry_ok r) (sc_instruments c) \<and> distinct (concat (map entry_keys (sc_instruments c)))"

lemma parse_scalars_fields:
  "parse_scalars J root c = Inr c' \<Longrightarrow> sc_venues c' = sc_venues c \<and> sc_instruments c' = sc_instruments c"
  by (auto simp: parse_scalars_def split: sum.splits)

lemma ServerConfig_ParseJson_registry:
  assumes "ServerConfig_ParseJson J json r = (res, r')" "instruments_ok r"
  shows "instruments_ok r'"
  using assms parse_instruments_keeps
  by (auto simp: ServerConfig_ParseJson_def split: option.splits prod.splits sum.splits)

lemma ServerConfig_ParseJson_ok:
  assumes "ServerConfig_ParseJson J json r = (Inr c, r')" "instruments_ok r"
  shows "session_config_ok r' c"
proof -
  obtain root vs venues els es where
    v: "parse_venues J vs [] = Inr venues" and i: "parse_instruments J 0 els [] [] r = (Inr es, r')"
    and c: "parse_scalars J root (default_server_config\<lparr>sc_venues := venues, sc_instruments := es\<rparr>) = Inr c"
    using assms(1) by (auto simp: ServerConfig_ParseJson_def split: option.splits prod.splits sum.splits)
  have "entries_ok r [] []" using assms(2) by (simp add: entries_ok_def)
  from parse_instruments_ok[OF i this] obtain seen where "entries_ok r' seen es" by blast
  then have "list_all (entry_ok r') es" "distinct (concat (map entry_keys es))" unfolding entries_ok_def by blast+
  moreover have "distinct venues \<and> COUNT \<notin> set venues" using parse_venues_ok[OF v] by simp
  ultimately show ?thesis using parse_scalars_fields[OF c] by (simp add: session_config_ok_def)
qed

section \<open>What accepted endpoints are\<close>

lemma rest_complete_alt:
  "rest_complete ep \<longleftrightarrow>
     ep_rest_host ep = [] \<and> ep_rest_port ep = [] \<and> ep_rest_depth_path ep = [] \<and> ep_rest_instruments_path ep = [] \<or>
     ep_rest_host ep \<noteq> [] \<and> ep_rest_port ep \<noteq> [] \<and> (ep_rest_depth_path ep \<noteq> [] \<or> ep_rest_instruments_path ep \<noteq> [])"
  by (cases "ep_rest_host ep = []"; cases "ep_rest_port ep = []"; cases "ep_rest_depth_path ep = []"; cases "ep_rest_instruments_path ep = []")
     (simp_all add: rest_complete_def)

definition endpoints_ok :: "VenueEndpoints \<Rightarrow> bool" where
  "endpoints_ok ep \<longleftrightarrow> ep_ws_host ep \<noteq> [] \<and> ep_ws_port ep \<noteq> [] \<and> ep_depth_path ep \<noteq> [] \<and> ep_bbo_path ep \<noteq> [] \<and> rest_complete ep"

definition venues_config_ok :: "VenuesConfig \<Rightarrow> bool" where
  "venues_config_ok entries \<longleftrightarrow> length entries = kVenueCount * kMarketTypeCount \<and> (\<forall>ep. Some ep \<in> set entries \<longrightarrow> endpoints_ok ep)"

lemma parse_endpoints_ok: "parse_endpoints J v m obj = Inr ep \<Longrightarrow> endpoints_ok ep"
  by (auto simp: parse_endpoints_def endpoints_ok_def ParseRequiredString_def Let_def split: sum.splits option.splits if_splits)

lemma venues_config_update: "venues_config_ok es \<Longrightarrow> endpoints_ok ep \<Longrightarrow> venues_config_ok (es[i := Some ep])"
  using set_update_subset_insert[of es i "Some ep"] by (auto simp: venues_config_ok_def)

lemma parse_venue_markets_ok:
  "parse_venue_markets J v vn ms es = Inr es' \<Longrightarrow> venues_config_ok es \<Longrightarrow> venues_config_ok es'"
proof (induction ms arbitrary: es)
  case (Cons nv ms)
  obtain name val where nv: "nv = (name, val)" by (cases nv)
  obtain market obj ep where ep: "parse_endpoints J vn name obj = Inr ep"
    and rest: "parse_venue_markets J v vn ms (es[IndexOf v market := Some ep]) = Inr es'"
    using Cons.prems(1) by (auto simp: nv split: option.splits if_splits sum.splits)
  show ?case by (rule Cons.IH[OF rest venues_config_update[OF Cons.prems(2) parse_endpoints_ok[OF ep]]])
qed simp

lemma parse_venue_entries_ok:
  "parse_venue_entries J vs es = Inr es' \<Longrightarrow> venues_config_ok es \<Longrightarrow> venues_config_ok es'"
proof (induction vs arbitrary: es)
  case (Cons nv vs)
  obtain name val where nv: "nv = (name, val)" by (cases nv)
  obtain obj es1 where m: "parse_venue_markets J (ToVenueId (ToUpper name)) name obj es = Inr es1"
    and rest: "parse_venue_entries J vs es1 = Inr es'"
    using Cons.prems(1) by (auto simp: nv Let_def split: option.splits if_splits sum.splits)
  show ?case by (rule Cons.IH[OF rest parse_venue_markets_ok[OF m Cons.prems(2)]])
qed simp

lemma VenuesConfig_ParseJson_ok: "VenuesConfig_ParseJson J json = Inr es \<Longrightarrow> venues_config_ok es \<and> (\<exists>ep. Some ep \<in> set es)"
  using parse_venue_entries_ok[of J _ empty_config es]
  by (auto simp: VenuesConfig_ParseJson_def venues_config_ok_def empty_config_def list_all_iff split: option.splits if_splits sum.splits)

lemma IndexOf_less: "v \<noteq> COUNT \<Longrightarrow> m = kSpot \<or> m = kFutures \<Longrightarrow> IndexOf v m < kVenueCount * kMarketTypeCount"
  by (cases v) (auto simp: IndexOf_def kVenueCount_def kMarketTypeCount_def)

lemma VenuesConfig_Find_ok:
  "venues_config_ok es \<Longrightarrow> m = kSpot \<or> m = kFutures \<Longrightarrow> VenuesConfig_Find es v m = Some ep \<Longrightarrow> endpoints_ok ep"
proof -
  assume o: "venues_config_ok es" and m: "m = kSpot \<or> m = kFutures" and f: "VenuesConfig_Find es v m = Some ep"
  have v: "v \<noteq> COUNT" "es ! IndexOf v m = Some ep" using f by (auto simp: VenuesConfig_Find_def split: if_splits)
  have "IndexOf v m < length es" using o IndexOf_less[OF v(1) m] by (simp add: venues_config_ok_def)
  then have "Some ep \<in> set es" using v(2) nth_mem[of "IndexOf v m" es] by simp
  then show "endpoints_ok ep" using o by (simp add: venues_config_ok_def)
qed


section \<open>The two processes agree\<close>

lemma single_entry_fields:
  "single_entry c = Some (e, m) \<Longrightarrow> sc_instruments c = [e] \<and> ie_markets e = [m]"
  by (auto simp: single_entry_def split: list.splits)

lemma LoadFile_ok:
  assumes "fst (ServerConfig_LoadFile J files path \<lparr>ir_names = []\<rparr>) = Inr c"
  shows "\<exists>r. instruments_ok r \<and> session_config_ok r c"
proof -
  have e: "instruments_ok \<lparr>ir_names = []\<rparr>" by (simp add: instruments_ok_def)
  obtain contents r where "ServerConfig_ParseJson J contents \<lparr>ir_names = []\<rparr> = (Inr c, r)"
    using assms by (cases "files path"; cases "ServerConfig_ParseJson J (the (files path)) \<lparr>ir_names = []\<rparr>")
      (auto simp: ServerConfig_LoadFile_def)
  then show ?thesis using ServerConfig_ParseJson_ok[OF _ e] ServerConfig_ParseJson_registry[OF _ e] by blast
qed

lemma port_override:
  "single_entry (c\<lparr>sc_grpc_port := v\<rparr>) = single_entry c"
  by (simp add: single_entry_def)

lemma core_start_Some:
  assumes "core_start J files args = Inr s"
  shows "\<exists>m c entry. ParseMarketFlag args = Some m \<and> fst (ServerConfig_LoadFile J files (ConfigFileForMarket m) \<lparr>ir_names = []\<rparr>) = Inr c \<and>
    single_entry c = Some (entry, m) \<and> cs_core_config s = \<lparr>cfg_venues = sc_venues c, cfg_default_instruments = [MakeKey (ie_id entry) m]\<rparr>"
  using assms
  by (auto simp: core_start_def Let_def port_override split: sum.splits option.splits if_splits)

lemma provider_start_Some:
  assumes "provider_start J J' files args = Inr s"
  shows "\<exists>m c vc entry endpoints. ToMarketType (args ! 1) = Some m \<and> ToVenueId (ToUpper (args ! 0)) \<noteq> COUNT \<and>
    fst (ServerConfig_LoadFile J files (ConfigFileForMarket m) \<lparr>ir_names = []\<rparr>) = Inr c \<and> Validate c = None \<and>
    VenuesConfig_LoadFile J' files kVenuesConfigFileName = Inr vc \<and> single_entry c = Some (entry, m) \<and>
    ToVenueId (ToUpper (args ! 0)) \<in> set (sc_venues c) \<and>
    VenuesConfig_Find vc (ToVenueId (ToUpper (args ! 0))) m = Some endpoints \<and>
    BuildProvider (ToVenueId (ToUpper (args ! 0))) (MakeKey (ie_id entry) m) endpoints c = Some (pr_config s) \<and>
    pr_instrument s = MakeKey (ie_id entry) m \<and> pr_venue_name s = ToUpper (args ! 0)"
  using assms
  by (auto simp: provider_start_def Let_def split: sum.splits option.splits if_splits)

lemma Validate_connections: "Validate c = None \<Longrightarrow> sc_connections c \<noteq> 0 \<and> sc_connections c \<le> kMaxConnections \<and> sc_depth c \<noteq> 0"
  by (auto simp: Validate_def split: if_splits)

lemma BuildProvider_fields:
  "BuildProvider v k ep c = Some pc \<Longrightarrow> pc_venue_id pc = v \<and> pc_instrument pc = k \<and> pc_host pc = ep_ws_host ep \<and>
     pc_port pc = ep_ws_port ep \<and> pc_depth_path pc = ep_depth_path ep \<and> pc_bbo_path pc = ep_bbo_path ep \<and>
     pc_depth pc = ResolveDepth v (sc_depth c) \<and> pc_connections pc = sc_connections c"
  by (cases v) (auto simp: BuildProvider_def Let_def)

lemma ToVenueString_ToVenueId: "ToVenueId s \<noteq> COUNT \<Longrightarrow> ToVenueString (ToVenueId s) = s"
  by (auto simp: ToVenueId_def split: if_splits)

text \<open>A number beyond 32 bits is cut to its low half before it is validated.\<close>

lemma optional_uint32_truncates:
  "at_key root key = Some v \<Longrightarrow> dm_int64 J v = Some 4294967297 \<Longrightarrow> ParseOptionalUint32 J root key d = Inr 1"
proof -
  have "sint (4294967297 :: i64) = 4294967297"
    by (simp add: sint_uint signed_take_bit_int_eq_self)
  moreover have "(ucast (4294967297 :: i64) :: u32) = 1" by simp
  ultimately show "at_key root key = Some v \<Longrightarrow> dm_int64 J v = Some 4294967297 \<Longrightarrow> ParseOptionalUint32 J root key d = Inr 1"
    by (simp add: ParseOptionalUint32_def)
qed

text \<open>A field given twice is accepted; the first one counts.\<close>

lemma repeated_field_first_wins:
  "ParseRequiredString J ((key, v) # (key, w) # obj) key = ParseRequiredString J [(key, v)] key"
  by (simp add: ParseRequiredString_def)

end
