(* ===== verification/Provider_Setup.thy ===== *)
theory Provider_Setup
  imports Sessions Config_Json
begin

text \<open>
  How a provider is put together and what it asks the network for: the venues' constructors
  (\<^verbatim>\<open>bybit_provider.cpp\<close>, \<^verbatim>\<open>okx_provider.cpp\<close>, \<^verbatim>\<open>binance_provider.cpp\<close>, with \<^verbatim>\<open>ResolveStreamPaths\<close> of
  \<^verbatim>\<open>md_provider.cpp\<close>), their subscription frames and combined paths, and the blocking requests over HTTPS
  (\<^verbatim>\<open>rest.cpp\<close>) for a swap's contract size and for a depth snapshot. \<open>dial_of\<close> is what every session of a
  provider is run with (\<open>net_step\<close> of \<open>Sessions\<close>). The socket, TLS and HTTP libraries are the parameter \<open>Https\<close>, the
  printing of numbers the parameter \<open>fmt\<close>.

  The lemmas show that Bybit's two topics differ for every depth above one, and what OKX's hook does with each answer.
\<close>


section \<open>What a provider is built with (md_provider.cpp and the venues' constructors)\<close>

text \<open>A provider with the members its constructor sets once.\<close>

record 'p Built =
  bt_config :: ProviderConfig
  bt_depth_path :: string
  bt_bbo_path :: string
  bt_combined_path :: string
  bt_provider :: 'p

definition ResolveStreamPaths :: "ProviderConfig \<Rightarrow> string \<Rightarrow> (string \<times> string) option" where
  "ResolveStreamPaths config venue_symbol =
     (case ResolvePath (pc_depth_path config) venue_symbol of
        None \<Rightarrow> None
      | Some depth_path \<Rightarrow> map_option (Pair depth_path) (ResolvePath (pc_bbo_path config) venue_symbol))"

text \<open>A path that both streams share is the combined one.\<close>

definition built :: "ProviderConfig \<Rightarrow> string \<times> string \<Rightarrow> 'p \<Rightarrow> 'p Built" where
  "built config paths p =
     \<lparr>bt_config = config, bt_depth_path = fst paths, bt_bbo_path = snd paths, bt_combined_path = fst paths, bt_provider = p\<rparr>"

definition depth_topic :: "(nat \<Rightarrow> nat \<Rightarrow> string) \<Rightarrow> u32 \<Rightarrow> string \<Rightarrow> string" where
  "depth_topic fmt depth symbol = ''orderbook.'' @ fmt 0 (unat depth) @ ''.'' @ symbol"

definition bbo_topic :: "string \<Rightarrow> string" where
  "bbo_topic symbol = ''orderbook.1.'' @ symbol"

definition BuildBybit :: "(nat \<Rightarrow> nat \<Rightarrow> string) \<Rightarrow> ProviderConfig \<Rightarrow> BybitProvider Built option" where
  "BuildBybit fmt config =
     (let symbol = ToInstrumentString (Symbol (pc_instrument config))
      in map_option (\<lambda>paths. built config paths
           (new_bybit (pc_venue_id config) (pc_instrument config) (pc_connections config) (of_int (pc_depth_backstop_ns config))
             (of_int (pc_bbo_backstop_ns config)) (depth_topic fmt (pc_depth config) symbol) (bbo_topic symbol)))
           (ResolveStreamPaths config symbol))"

definition Bybit_CombinedSubscriptionMessage :: "BybitProvider \<Rightarrow> string" where
  "Bybit_CombinedSubscriptionMessage p =
     ''{\"op\":\"subscribe\",\"args\":[\"'' @ by_depth_topic p @ ''\",\"'' @ by_bbo_topic p @ ''\"]}''"

definition BuildOkx :: "ProviderConfig \<Rightarrow> OKXProvider Built option" where
  "BuildOkx config =
     map_option (\<lambda>paths. built config paths
         (new_okx (pc_venue_id config) (pc_instrument config) (pc_connections config) (of_int (pc_depth_backstop_ns config))
           (of_int (pc_bbo_backstop_ns config))))
       (ResolveStreamPaths config (ToOkxInstId (pc_instrument config)))"

definition Okx_CombinedSubscriptionMessage :: "ProviderConfig \<Rightarrow> string" where
  "Okx_CombinedSubscriptionMessage config =
     (let inst_id = ToOkxInstId (pc_instrument config)
      in ''{\"op\":\"subscribe\",\"args\":[{\"channel\":\"books\",\"instId\":\"'' @ inst_id @
         ''\"},{\"channel\":\"bbo-tbt\",\"instId\":\"'' @ inst_id @ ''\"}]}'')"

definition BuildBinance :: "ProviderConfig \<Rightarrow> BinanceProvider Built option" where
  "BuildBinance config =
     map_option (\<lambda>paths.
         let depth_stream = StripWsPrefix (fst paths); bbo_stream_name = StripWsPrefix (snd paths)
         in (built config paths
              (new_binance (pc_venue_id config) (pc_instrument config) (pc_connections config) (of_int (pc_depth_backstop_ns config))
                (of_int (pc_bbo_backstop_ns config)) bbo_stream_name))
            \<lparr>bt_combined_path := ''/stream?streams='' @ depth_stream @ ''/'' @ bbo_stream_name\<rparr>)
       (ResolveStreamPaths config (ToLowerSymbol (pc_instrument config)))"

text \<open>What \<^verbatim>\<open>CreateCombinedSession\<close> runs each session with; Binance's streams are named in the path, so its frame is empty.\<close>

definition dial_of :: "'p Built \<Rightarrow> string \<Rightarrow> Dial" where
  "dial_of b subscribe =
     \<lparr>dl_host = pc_host (bt_config b), dl_port = pc_port (bt_config b), dl_target = bt_combined_path b, dl_subscribe = subscribe\<rparr>"

definition bybit_dial :: "BybitProvider Built \<Rightarrow> Dial" where
  "bybit_dial b = dial_of b (Bybit_CombinedSubscriptionMessage (bt_provider b))"

definition okx_dial :: "OKXProvider Built \<Rightarrow> Dial" where
  "okx_dial b = dial_of b (Okx_CombinedSubscriptionMessage (bt_config b))"

definition binance_dial :: "BinanceProvider Built \<Rightarrow> Dial" where
  "binance_dial b = dial_of b []"

section \<open>Requests over HTTPS (rest.cpp)\<close>

record HttpRequest =
  rq_target :: string
  rq_version :: nat
  rq_host :: string

text \<open>
  The network and the libraries under \<^verbatim>\<open>HttpsGet\<close>: whether the host name is taken for the handshake, and what comes of the
  exchange with a host and port - the status and the body of the response, or nothing when resolving, connecting, the handshake,
  writing or reading throws. The error of the closing handshake is not looked at.
\<close>

record Https =
  hs_sni :: "string \<Rightarrow> bool"
  hs_exchange :: "string \<Rightarrow> string \<Rightarrow> HttpRequest \<Rightarrow> (nat \<times> string) option"

definition HttpsGet :: "Https \<Rightarrow> string \<Rightarrow> string \<Rightarrow> string \<Rightarrow> string option" where
  "HttpsGet net host port target =
     (if \<not> hs_sni net host then None
      else case hs_exchange net host port \<lparr>rq_target = target, rq_version = 11, rq_host = host\<rparr> of
             None \<Rightarrow> None
           | Some (status, body) \<Rightarrow> if status \<noteq> 200 then None else Some body)"

lemma HttpsGet_Some:
  "HttpsGet net host port target = Some body \<longleftrightarrow>
     hs_sni net host \<and> hs_exchange net host port \<lparr>rq_target = target, rq_version = 11, rq_host = host\<rparr> = Some (200, body)"
  by (auto simp: HttpsGet_def split: option.splits if_splits prod.splits)

definition contract_target :: "ProviderConfig \<Rightarrow> string" where
  "contract_target config =
     pc_rest_instruments_path config @ ''?instType=SWAP&instId='' @ ToOkxInstId (pc_instrument config)"

text \<open>\<^verbatim>\<open>OKXProvider::OnReconnect\<close> with its request: the network is asked only when the size is wanted and not known.\<close>

definition OKX_Reconnect :: "'v OnDemand \<Rightarrow> Https \<Rightarrow> ProviderConfig \<Rightarrow> OKXProvider \<Rightarrow> bool \<times> OKXProvider" where
  "OKX_Reconnect J net config p =
     (if Market (pv_instrument p) \<noteq> kFutures \<or> ok_contract_size_resolved p then (True, p)
      else OKX_OnReconnect
             (fetch_contract_size J (HttpsGet net (pc_rest_host config) (pc_rest_port config) (contract_target config)) p) p)"

definition snapshot_target :: "(nat \<Rightarrow> nat \<Rightarrow> string) \<Rightarrow> ProviderConfig \<Rightarrow> string" where
  "snapshot_target fmt config =
     pc_rest_depth_path config @ ''?symbol='' @ UpperSymbol (pc_instrument config) @ ''&limit='' @ fmt 0 (unat (pc_depth config))"

text \<open>The detached thread of \<^verbatim>\<open>FetchSnapshotAsync\<close>, and the handler it posts.\<close>

definition Binance_Snapshot ::
  "'v OnDemand \<Rightarrow> (nat \<Rightarrow> nat \<Rightarrow> string) \<Rightarrow> Https \<Rightarrow> ProviderConfig \<Rightarrow> int \<Rightarrow> (nat \<Rightarrow> i64) \<Rightarrow> BinanceProvider \<Rightarrow> BinanceProvider" where
  "Binance_Snapshot J fmt net config n clk p =
     OnSnapshotFetched
       (fetch_snapshot J (HttpsGet net (pc_rest_host config) (pc_rest_port config) (snapshot_target fmt config)) p) n clk p"

section \<open>Lemmas\<close>

lemma ResolveStreamPaths_total:
  "ResolveStreamPaths config s =
     Some (replace_placeholders s (pc_depth_path config), replace_placeholders s (pc_bbo_path config))"
  by (simp add: ResolveStreamPaths_def ResolvePath_total)

lemma prints_inj: "prints_decimal fmt \<Longrightarrow> fmt 0 m = fmt 0 n \<longleftrightarrow> m = n"
  by (metis prints_decimal_def)

text \<open>A digit ends where the dot begins, so a topic determines its depth.\<close>

lemma before_dot: "\<not> P x \<Longrightarrow> list_all P xs \<Longrightarrow> list_all P ys \<Longrightarrow> xs @ x # zs = ys @ x # zs' \<Longrightarrow> xs = ys"
proof (induction xs arbitrary: ys)
  case Nil then show ?case by (cases ys) auto
next
  case (Cons a xs) then show ?case by (cases ys) auto
qed

lemma topics_differ:
  assumes "prints_decimal fmt" "1 < depth"
  shows "depth_topic fmt depth symbol \<noteq> bbo_topic symbol'"
proof
  assume "depth_topic fmt depth symbol = bbo_topic symbol'"
  then have e: "fmt 0 (unat depth) @ CHR ''.'' # symbol = ''1'' @ CHR ''.'' # symbol'" by (simp add: depth_topic_def bbo_topic_def)
  have "list_all is_digit (fmt 0 (unat depth))" "digits_value (fmt 0 (unat depth)) = unat depth"
    using assms(1) by (simp_all add: prints_decimal_def)
  moreover have "list_all is_digit ''1''" "\<not> is_digit (CHR ''.'')" "digits_value ''1'' = 1"
    by (simp_all add: is_digit_def digits_value_def digit_def)
  ultimately have "unat depth = 1" using before_dot[of is_digit, OF _ _ _ e] by metis
  then show False using assms(2) by (simp add: word_less_nat_alt)
qed

lemma bybit_depth_above_one: "1 < d \<Longrightarrow> 1 < ResolveDepth BYBIT d"
  using ResolveDepth_spec[of BYBIT d] by (auto simp: venue_tiers_def kBybitDepthTiers_def split: if_splits)

lemma dialled_asks:
  "list_all (dialled dial) ss \<Longrightarrow> dl_host dial = h \<Longrightarrow> dl_subscribe dial = m \<Longrightarrow>
     list_all (\<lambda>s. ss_host s = h \<and> ss_subscribe_message s = m) ss"
  "list_all (dialled dial) ss \<Longrightarrow> dl_host dial = h \<Longrightarrow> dl_target dial = t \<Longrightarrow>
     list_all (\<lambda>s. ss_host s = h \<and> ss_target s = t) ss"
  by (simp_all add: list_all_iff dialled_def)

text \<open>What \<^verbatim>\<open>OnReconnect\<close> does with the answer.\<close>

lemma OKX_Reconnect_asks:
  assumes "Market (pv_instrument p) = kFutures" "\<not> ok_contract_size_resolved p" "pc_instrument config = pv_instrument p"
  shows "OKX_Reconnect J net config p =
    (case HttpsGet net (pc_rest_host config) (pc_rest_port config) (contract_target config) of
       None \<Rightarrow> (False, p)
     | Some body \<Rightarrow> (case ParseOkxContractSize J body (ToOkxInstId (pv_instrument p)) of
                      None \<Rightarrow> (False, p)
                    | Some units \<Rightarrow> (True, p\<lparr>ok_contract_size := units, ok_contract_size_resolved := True\<rparr>)))"
  using assms by (simp add: OKX_Reconnect_def OKX_OnReconnect_def fetch_contract_size_def split: option.split)

text \<open>The hook is one of those the provider's steps allow for, and so is the handler a snapshot posts.\<close>

lemma OKX_Reconnect_hook: "\<exists>body. OKX_Reconnect J net config p = OKX_OnReconnect (fetch_contract_size J body p) p"
  by (auto simp: OKX_Reconnect_def OKX_OnReconnect_def)

lemma Binance_Snapshot_posted: "\<exists>body n clk. Binance_Snapshot J fmt net config m clk' p = OnSnapshotFetched (fetch_snapshot J body p) n clk p"
  unfolding Binance_Snapshot_def by blast

text \<open>
  A session document that asks for more than a thousand levels makes Binance's provider ask for five thousand on either
  market, although the futures market refuses more than a thousand.
\<close>

lemma futures_snapshot_too_deep:
  assumes "BuildProvider BINANCE k ep c = Some pc" "1000 < sc_depth c"
  shows "snapshot_target fmt pc = ep_rest_depth_path ep @ ''?symbol='' @ UpperSymbol k @ ''&limit='' @ fmt 0 5000"
proof -
  have "ResolveDepth BINANCE (sc_depth c) = 5000"
    using ResolveDepth_spec[of BINANCE "sc_depth c"] assms(2)
    by (auto simp: venue_tiers_def kBinanceDepthTiers_def word_less_nat_alt word_le_nat_alt simp del: ResolveDepth.simps split: if_splits)
  then show ?thesis using assms(1) by (auto simp: snapshot_target_def BuildProvider_def Let_def)
qed

end
