(* ===== verification/Wire_Codec.thy ===== *)
theory Wire_Codec
  imports Md_Core
begin

text \<open>
  The wire format and its codec (md_wire/wire_format.h, wire_codec.h, wire_codec.cpp): integers as little-endian bytes,
  every structure with its fields at the offsets the source asserts, and one encoder and decoder per message type.
  A buffer is a list of bytes, an encoder returns the buffer the code writes into the cleared vector, and a decoder
  returns its verdict with the target as it is left. The padding bytes the compiler inserts are an argument: no
  statement depends on what they hold.

  The contract the codec relies on is the locale \<open>pod\<close>: a fixed size and reading back what was written. Every structure
  interprets it; the round trips of the messages rest on its facts.
\<close>


section \<open>Integers as bytes\<close>

text \<open>The bytes of a fixed-width integer in memory, least significant first (the byte order of the supported machines).\<close>

type_synonym bytes = "u8 list"

fun le_bytes :: "nat \<Rightarrow> nat \<Rightarrow> bytes" where
  "le_bytes 0 n = []"
| "le_bytes (Suc k) n = of_nat n # le_bytes k (n div 256)"

fun le_value :: "bytes \<Rightarrow> nat" where
  "le_value [] = 0"
| "le_value (b # bs) = unat b + 256 * le_value bs"

lemma length_le_bytes [simp]: "length (le_bytes k n) = k"
  by (induction k arbitrary: n) simp_all

lemma le_value_bytes: "le_value (le_bytes k n) = n mod 256 ^ k"
proof (induction k arbitrary: n)
  case (Suc k)
  have "n mod 256 ^ Suc k = n mod 256 + 256 * (n div 256 mod 256 ^ k)" by (simp add: mod_mult2_eq add.commute)
  then show ?case using Suc by (simp add: unat_of_nat)
qed simp

definition word_bytes :: "'a :: len word \<Rightarrow> bytes" where
  "word_bytes w = le_bytes (LENGTH('a) div 8) (unat w)"

definition word_of_bytes :: "bytes \<Rightarrow> 'a :: len word" where
  "word_of_bytes bs = of_nat (le_value bs)"

lemma length_word_bytes: "length (word_bytes (w :: 'a :: len word)) = LENGTH('a) div 8"
  by (simp add: word_bytes_def)

lemma word_bytes_inverse: "8 dvd LENGTH('a) \<Longrightarrow> word_of_bytes (word_bytes (w :: 'a :: len word)) = w"
proof -
  assume d: "8 dvd LENGTH('a)"
  have "(256 :: nat) ^ (LENGTH('a) div 8) = 2 ^ (8 * (LENGTH('a) div 8))" by (simp add: power_mult)
  then have "(256 :: nat) ^ (LENGTH('a) div 8) = 2 ^ LENGTH('a)" using d by simp
  then show ?thesis by (simp add: word_of_bytes_def word_bytes_def le_value_bytes)
qed

section \<open>Plain objects\<close>

text \<open>\<open>chunk o n bs\<close>: the \<open>n\<close> bytes of a buffer from offset \<open>o\<close>.\<close>

definition chunk :: "nat \<Rightarrow> nat \<Rightarrow> bytes \<Rightarrow> bytes" where
  "chunk off n bs = take n (drop off bs)"

lemma chunk_whole: "length b = n \<Longrightarrow> chunk 0 n b = b"
  by (simp add: chunk_def)

lemma chunk_here: "length b = n \<Longrightarrow> chunk 0 n (b @ rest) = b"
  by (simp add: chunk_def)

lemma chunk_skip: "length b \<le> off \<Longrightarrow> chunk off n (b @ rest) = chunk (off - length b) n rest"
  by (simp add: chunk_def)

lemmas chunk_simps = chunk_here chunk_whole chunk_skip

definition AppendPod :: "('a \<Rightarrow> bytes) \<Rightarrow> 'a \<Rightarrow> bytes \<Rightarrow> bytes" where
  "AppendPod bytes_of value out = out @ bytes_of value"

text \<open>The value read and the new offset, unless the buffer is too short.\<close>

definition ReadPod :: "nat \<Rightarrow> (bytes \<Rightarrow> 'a) \<Rightarrow> bytes \<Rightarrow> nat \<Rightarrow> ('a \<times> nat) option" where
  "ReadPod sizeof of_bytes buf offset =
     (if offset + sizeof > length buf then None else Some (of_bytes (chunk offset sizeof buf), offset + sizeof))"

text \<open>\<open>n\<close> structures side by side.\<close>

fun pods_of :: "nat \<Rightarrow> (bytes \<Rightarrow> 'a) \<Rightarrow> nat \<Rightarrow> bytes \<Rightarrow> 'a list" where
  "pods_of sizeof of_bytes 0 bs = []"
| "pods_of sizeof of_bytes (Suc n) bs = of_bytes (chunk 0 sizeof bs) # pods_of sizeof of_bytes n (drop sizeof bs)"

text \<open>
  What the codec relies on for every structure it copies to or from a buffer: a fixed size, and reading back what was
  written. \<open>valid\<close> holds of the values of the structure's type.
\<close>

locale pod =
  fixes sizeof :: nat
    and bytes_of :: "'a \<Rightarrow> bytes"
    and of_bytes :: "bytes \<Rightarrow> 'a"
    and valid :: "'a \<Rightarrow> bool"
  assumes size_bytes: "valid v \<Longrightarrow> length (bytes_of v) = sizeof"
    and read_back: "valid v \<Longrightarrow> of_bytes (bytes_of v) = v"
begin

lemma read_written: "valid v \<Longrightarrow> ReadPod sizeof of_bytes (pre @ bytes_of v @ rest) (length pre) = Some (v, length pre + sizeof)"
  by (simp add: ReadPod_def chunk_def size_bytes read_back)

lemma read_first: "valid v \<Longrightarrow> ReadPod sizeof of_bytes (bytes_of v @ rest) 0 = Some (v, sizeof)"
  using read_written[of v "[]"] by simp

lemma read_truncated: "length buf < offset + sizeof \<Longrightarrow> ReadPod sizeof of_bytes buf offset = None"
  by (simp add: ReadPod_def)

lemma read_all_written: "\<forall>v \<in> set vs. valid v \<Longrightarrow> pods_of sizeof of_bytes (length vs) (concat (map bytes_of vs) @ rest) = vs"
  by (induction vs) (simp_all add: chunk_def size_bytes read_back)

lemma length_all: "\<forall>v \<in> set vs. valid v \<Longrightarrow> length (concat (map bytes_of vs)) = length vs * sizeof"
  by (induction vs) (simp_all add: size_bytes)

end

interpretation u8_pod: pod 1 "word_bytes :: u8 \<Rightarrow> bytes" word_of_bytes "\<lambda>_. True"
  by unfold_locales (simp_all add: length_word_bytes word_bytes_inverse)

interpretation u16_pod: pod 2 "word_bytes :: u16 \<Rightarrow> bytes" word_of_bytes "\<lambda>_. True"
  by unfold_locales (simp_all add: length_word_bytes word_bytes_inverse)

interpretation u32_pod: pod 4 "word_bytes :: u32 \<Rightarrow> bytes" word_of_bytes "\<lambda>_. True"
  by unfold_locales (simp_all add: length_word_bytes word_bytes_inverse)

interpretation u64_pod: pod 8 "word_bytes :: u64 \<Rightarrow> bytes" word_of_bytes "\<lambda>_. True"
  by unfold_locales (simp_all add: length_word_bytes word_bytes_inverse)

lemmas word_pods = u8_pod.size_bytes[simplified] u16_pod.size_bytes[simplified] u32_pod.size_bytes[simplified]
  u64_pod.size_bytes[simplified] u8_pod.read_back[simplified] u16_pod.read_back[simplified] u32_pod.read_back[simplified]
  u64_pod.read_back[simplified]

section \<open>The structures of the wire (wire_format.h)\<close>

definition kWireVersion :: u16 where "kWireVersion = 1"

datatype WireMsgType = kHello | kBookUpdate | kBboQuote | kHealth | kGoodbye

fun u16_of_msg :: "WireMsgType \<Rightarrow> u16" where
  "u16_of_msg kHello = 1"
| "u16_of_msg kBookUpdate = 2"
| "u16_of_msg kBboQuote = 3"
| "u16_of_msg kHealth = 4"
| "u16_of_msg kGoodbye = 5"

record WireHeader =
  wh_msg_type :: u16
  wh_wire_version :: u16

definition header_bytes :: "WireHeader \<Rightarrow> bytes" where
  "header_bytes h = word_bytes (wh_msg_type h) @ word_bytes (wh_wire_version h)"

definition header_of :: "bytes \<Rightarrow> WireHeader" where
  "header_of bs = \<lparr>wh_msg_type = word_of_bytes (chunk 0 2 bs), wh_wire_version = word_of_bytes (chunk 2 2 bs)\<rparr>"

definition kVenueNameCapacity :: nat where "kVenueNameCapacity = 16"

record WireHelloPayload =
  hp_instrument_packed :: u32
  hp_venue_name :: bytes

definition hello_bytes :: "WireHelloPayload \<Rightarrow> bytes" where
  "hello_bytes h = word_bytes (hp_instrument_packed h) @ hp_venue_name h"

definition hello_of :: "bytes \<Rightarrow> WireHelloPayload" where
  "hello_of bs = \<lparr>hp_instrument_packed = word_of_bytes (chunk 0 4 bs), hp_venue_name = chunk 4 kVenueNameCapacity bs\<rparr>"

text \<open>\<^verbatim>\<open>enum class GoodbyeReason : uint32_t\<close>, cast from any word.\<close>

datatype GoodbyeReason = kShutdown | kError | ReasonRaw u32

definition reason_of_u32 :: "u32 \<Rightarrow> GoodbyeReason" where
  "reason_of_u32 w = (if w = 0 then kShutdown else if w = 1 then kError else ReasonRaw w)"

fun u32_of_reason :: "GoodbyeReason \<Rightarrow> u32" where
  "u32_of_reason kShutdown = 0"
| "u32_of_reason kError = 1"
| "u32_of_reason (ReasonRaw w) = w"

text \<open>The four bytes the compiler leaves between the first two fields are a field of their own; nothing sets them.\<close>

record WireBookUpdateHeader =
  wb_instrument_packed :: u32
  wb_padding :: u32
  wb_seq :: u64
  wb_prev_seq :: i64
  wb_recv_ts_ns :: i64
  wb_exch_ts_ns :: i64
  wb_provider_mono_ns :: i64
  wb_bid_count :: u32
  wb_ask_count :: u32
  wb_is_snapshot :: u8
  wb_reserved :: bytes

definition book_header_bytes :: "WireBookUpdateHeader \<Rightarrow> bytes" where
  "book_header_bytes h =
     word_bytes (wb_instrument_packed h) @ word_bytes (wb_padding h) @ word_bytes (wb_seq h) @ word_bytes (wb_prev_seq h) @
     word_bytes (wb_recv_ts_ns h) @ word_bytes (wb_exch_ts_ns h) @ word_bytes (wb_provider_mono_ns h) @
     word_bytes (wb_bid_count h) @ word_bytes (wb_ask_count h) @ word_bytes (wb_is_snapshot h) @ wb_reserved h"

definition book_header_of :: "bytes \<Rightarrow> WireBookUpdateHeader" where
  "book_header_of bs =
     \<lparr>wb_instrument_packed = word_of_bytes (chunk 0 4 bs), wb_padding = word_of_bytes (chunk 4 4 bs),
      wb_seq = word_of_bytes (chunk 8 8 bs), wb_prev_seq = word_of_bytes (chunk 16 8 bs),
      wb_recv_ts_ns = word_of_bytes (chunk 24 8 bs), wb_exch_ts_ns = word_of_bytes (chunk 32 8 bs),
      wb_provider_mono_ns = word_of_bytes (chunk 40 8 bs), wb_bid_count = word_of_bytes (chunk 48 4 bs),
      wb_ask_count = word_of_bytes (chunk 52 4 bs), wb_is_snapshot = word_of_bytes (chunk 56 1 bs),
      wb_reserved = chunk 57 7 bs\<rparr>"

definition level_bytes :: "PriceLevel \<Rightarrow> bytes" where
  "level_bytes l = word_bytes (price l) @ word_bytes (qty l)"

definition wire_level_of :: "bytes \<Rightarrow> PriceLevel" where
  "wire_level_of bs = \<lparr>price = word_of_bytes (chunk 0 8 bs), qty = word_of_bytes (chunk 8 8 bs)\<rparr>"

record WireBboQuotePayload =
  wq_instrument_packed :: u32
  wq_padding :: u32
  wq_seq :: u64
  wq_recv_ts_ns :: i64
  wq_exch_ts_ns :: i64
  wq_provider_mono_ns :: i64
  wq_bid_price :: u64
  wq_bid_qty :: u64
  wq_ask_price :: u64
  wq_ask_qty :: u64

definition quote_bytes :: "WireBboQuotePayload \<Rightarrow> bytes" where
  "quote_bytes q =
     word_bytes (wq_instrument_packed q) @ word_bytes (wq_padding q) @ word_bytes (wq_seq q) @ word_bytes (wq_recv_ts_ns q) @
     word_bytes (wq_exch_ts_ns q) @ word_bytes (wq_provider_mono_ns q) @ word_bytes (wq_bid_price q) @
     word_bytes (wq_bid_qty q) @ word_bytes (wq_ask_price q) @ word_bytes (wq_ask_qty q)"

definition quote_payload_of :: "bytes \<Rightarrow> WireBboQuotePayload" where
  "quote_payload_of bs =
     \<lparr>wq_instrument_packed = word_of_bytes (chunk 0 4 bs), wq_padding = word_of_bytes (chunk 4 4 bs),
      wq_seq = word_of_bytes (chunk 8 8 bs), wq_recv_ts_ns = word_of_bytes (chunk 16 8 bs),
      wq_exch_ts_ns = word_of_bytes (chunk 24 8 bs), wq_provider_mono_ns = word_of_bytes (chunk 32 8 bs),
      wq_bid_price = word_of_bytes (chunk 40 8 bs), wq_bid_qty = word_of_bytes (chunk 48 8 bs),
      wq_ask_price = word_of_bytes (chunk 56 8 bs), wq_ask_qty = word_of_bytes (chunk 64 8 bs)\<rparr>"

record WireHealthPayload =
  wl_stream :: u8
  wl_health :: u8
  wl_reserved :: bytes
  wl_decided_mono_ns :: i64

definition health_bytes :: "WireHealthPayload \<Rightarrow> bytes" where
  "health_bytes h = word_bytes (wl_stream h) @ word_bytes (wl_health h) @ wl_reserved h @ word_bytes (wl_decided_mono_ns h)"

definition health_payload_of :: "bytes \<Rightarrow> WireHealthPayload" where
  "health_payload_of bs =
     \<lparr>wl_stream = word_of_bytes (chunk 0 1 bs), wl_health = word_of_bytes (chunk 1 1 bs), wl_reserved = chunk 2 6 bs,
      wl_decided_mono_ns = word_of_bytes (chunk 8 8 bs)\<rparr>"

text \<open>Every structure of the wire honours the contract, at the sizes and offsets the source asserts.\<close>

interpretation header_pod: pod 4 header_bytes header_of "\<lambda>_. True"
  by unfold_locales (simp_all add: header_bytes_def header_of_def word_pods chunk_simps)

interpretation hello_pod: pod 20 hello_bytes hello_of "\<lambda>h. length (hp_venue_name h) = kVenueNameCapacity"
  by unfold_locales (simp_all add: hello_bytes_def hello_of_def kVenueNameCapacity_def word_pods chunk_simps)

interpretation book_header_pod: pod 64 book_header_bytes book_header_of "\<lambda>h. length (wb_reserved h) = 7"
  by unfold_locales (simp_all add: book_header_bytes_def book_header_of_def word_pods chunk_simps)

interpretation level_pod: pod 16 level_bytes wire_level_of "\<lambda>_. True"
  by unfold_locales (simp_all add: level_bytes_def wire_level_of_def word_pods chunk_simps)

interpretation quote_pod: pod 72 quote_bytes quote_payload_of "\<lambda>_. True"
  by unfold_locales (simp_all add: quote_bytes_def quote_payload_of_def word_pods chunk_simps)

interpretation health_pod: pod 16 health_bytes health_payload_of "\<lambda>h. length (wl_reserved h) = 6"
  by unfold_locales (simp_all add: health_bytes_def health_payload_of_def word_pods chunk_simps)


section \<open>Encoders and decoders (wire_codec.cpp)\<close>

definition AppendBytes :: "bytes \<Rightarrow> bytes \<Rightarrow> bytes" where
  "AppendBytes data out = out @ data"

definition ReadBytes :: "bytes \<Rightarrow> nat \<Rightarrow> nat \<Rightarrow> (bytes \<times> nat) option" where
  "ReadBytes buf offset nbytes = (if offset + nbytes > length buf then None else Some (chunk offset nbytes buf, offset + nbytes))"

definition WriteHeader :: "WireMsgType \<Rightarrow> bytes \<Rightarrow> bytes" where
  "WriteHeader t out = AppendPod header_bytes \<lparr>wh_msg_type = u16_of_msg t, wh_wire_version = kWireVersion\<rparr> out"

definition DecodeHeader :: "bytes \<Rightarrow> WireHeader option" where
  "DecodeHeader buf = map_option fst (ReadPod 4 header_of buf 0)"

definition byte_of_char :: "char \<Rightarrow> u8" where
  "byte_of_char c = of_nat (of_char c)"

definition char_of_byte :: "u8 \<Rightarrow> char" where
  "char_of_byte b = char_of (unat b)"

subsection \<open>Registration and goodbye\<close>

definition EncodeHello :: "InstrumentKey \<Rightarrow> string \<Rightarrow> bytes" where
  "EncodeHello instrument venue_name =
     (let copy_len = min (length venue_name) (kVenueNameCapacity - 1);
          payload = \<lparr>hp_instrument_packed = Packed instrument,
                     hp_venue_name = map byte_of_char (take copy_len venue_name) @ replicate (kVenueNameCapacity - copy_len) 0\<rparr>
      in AppendPod hello_bytes payload (WriteHeader kHello []))"

text \<open>
  The name is read up to its first NUL. A frame without one inside the field's capacity makes the read run past the
  structure: the code's behaviour is undefined there, the value \<open>OverRead\<close>.
\<close>

datatype 'a decoded = Rejected | Decoded 'a | OverRead

definition DecodeHello :: "bytes \<Rightarrow> (InstrumentKey \<times> string) decoded" where
  "DecodeHello buf =
     (case ReadPod 4 header_of buf 0 of
        None \<Rightarrow> Rejected
      | Some (header, offset) \<Rightarrow>
          if wh_msg_type header \<noteq> u16_of_msg kHello then Rejected
          else case ReadPod 20 hello_of buf offset of
                 None \<Rightarrow> Rejected
               | Some (payload, offset) \<Rightarrow>
                   if 0 \<in> set (hp_venue_name payload)
                   then Decoded (InstrumentKey (hp_instrument_packed payload),
                                 map char_of_byte (takeWhile (\<lambda>b. b \<noteq> 0) (hp_venue_name payload)))
                   else OverRead)"

definition EncodeGoodbye :: "GoodbyeReason \<Rightarrow> bytes" where
  "EncodeGoodbye reason = AppendPod word_bytes (u32_of_reason reason) (WriteHeader kGoodbye [])"

definition DecodeGoodbye :: "bytes \<Rightarrow> GoodbyeReason option" where
  "DecodeGoodbye buf =
     (case ReadPod 4 header_of buf 0 of
        None \<Rightarrow> None
      | Some (header, offset) \<Rightarrow>
          if wh_msg_type header \<noteq> u16_of_msg kGoodbye then None
          else map_option (\<lambda>(w, _). reason_of_u32 w) (ReadPod 4 word_of_bytes buf offset))"

subsection \<open>Book updates\<close>

text \<open>\<open>padding\<close> is what the compiler's four bytes happen to hold.\<close>

definition EncodeBookUpdate :: "u32 \<Rightarrow> BookUpdate \<Rightarrow> bytes" where
  "EncodeBookUpdate padding update =
     (let header = \<lparr>wb_instrument_packed = Packed (bu_instrument update), wb_padding = padding, wb_seq = bu_seq update,
                    wb_prev_seq = bu_prev_seq update, wb_recv_ts_ns = bu_recv_ts_ns update, wb_exch_ts_ns = bu_exch_ts_ns update,
                    wb_provider_mono_ns = bu_recv_mono_ns update, wb_bid_count = of_nat (length (bu_bids update)),
                    wb_ask_count = of_nat (length (bu_asks update)), wb_is_snapshot = (if bu_is_snapshot update then 1 else 0),
                    wb_reserved = replicate 7 0\<rparr>;
          out = AppendPod book_header_bytes header (WriteHeader kBookUpdate []);
          out = (if bu_bids update \<noteq> [] then AppendBytes (concat (map level_bytes (bu_bids update))) out else out)
      in if bu_asks update \<noteq> [] then AppendBytes (concat (map level_bytes (bu_asks update))) out else out)"

definition zero_level :: PriceLevel where
  "zero_level = \<lparr>price = 0, qty = 0\<rparr>"

definition ReadLevels :: "bytes \<Rightarrow> nat \<Rightarrow> nat \<Rightarrow> (PriceLevel list \<times> nat) option" where
  "ReadLevels buf offset nlevels =
     (if nlevels > 0 then map_option (\<lambda>(bs, offset). (pods_of 16 wire_level_of nlevels bs, offset)) (ReadBytes buf offset (nlevels * 16))
      else Some ([], offset))"

text \<open>
  The target is written as the decoder goes: a rejected frame may leave the header's fields and freshly sized sides
  behind. The target's venue is never touched.
\<close>

definition DecodeBookUpdate :: "bytes \<Rightarrow> BookUpdate \<Rightarrow> bool \<times> BookUpdate" where
  "DecodeBookUpdate buf out =
     (case ReadPod 4 header_of buf 0 of
        None \<Rightarrow> (False, out)
      | Some (header, offset) \<Rightarrow>
          if wh_msg_type header \<noteq> u16_of_msg kBookUpdate then (False, out)
          else case ReadPod 64 book_header_of buf offset of
                 None \<Rightarrow> (False, out)
               | Some (body, offset) \<Rightarrow>
                   (let out = out\<lparr>bu_instrument := InstrumentKey (wb_instrument_packed body), bu_seq := wb_seq body,
                              bu_prev_seq := wb_prev_seq body, bu_recv_ts_ns := wb_recv_ts_ns body,
                              bu_exch_ts_ns := wb_exch_ts_ns body, bu_recv_mono_ns := wb_provider_mono_ns body,
                              bu_is_snapshot := (wb_is_snapshot body \<noteq> 0), bu_bids := [], bu_asks := []\<rparr>
                    in case ReadLevels buf offset (unat (wb_bid_count body)) of
                         None \<Rightarrow> (False, out\<lparr>bu_bids := replicate (unat (wb_bid_count body)) zero_level\<rparr>)
                       | Some (bids, offset) \<Rightarrow>
                           (case ReadLevels buf offset (unat (wb_ask_count body)) of
                              None \<Rightarrow> (False, out\<lparr>bu_bids := bids, bu_asks := replicate (unat (wb_ask_count body)) zero_level\<rparr>)
                            | Some (asks, offset) \<Rightarrow> (True, out\<lparr>bu_bids := bids, bu_asks := asks\<rparr>))))"

subsection \<open>Quotes and health events\<close>

definition EncodeBboQuote :: "u32 \<Rightarrow> BboQuote \<Rightarrow> bytes" where
  "EncodeBboQuote padding quote =
     AppendPod quote_bytes
       \<lparr>wq_instrument_packed = Packed (q_instrument quote), wq_padding = padding, wq_seq = q_seq quote,
        wq_recv_ts_ns = q_recv_ts_ns quote, wq_exch_ts_ns = q_exch_ts_ns quote, wq_provider_mono_ns = q_recv_mono_ns quote,
        wq_bid_price = q_bid_price quote, wq_bid_qty = q_bid_qty quote, wq_ask_price = q_ask_price quote,
        wq_ask_qty = q_ask_qty quote\<rparr>
       (WriteHeader kBboQuote [])"

definition DecodeBboQuote :: "bytes \<Rightarrow> BboQuote \<Rightarrow> bool \<times> BboQuote" where
  "DecodeBboQuote buf out =
     (case ReadPod 4 header_of buf 0 of
        None \<Rightarrow> (False, out)
      | Some (header, offset) \<Rightarrow>
          if wh_msg_type header \<noteq> u16_of_msg kBboQuote then (False, out)
          else case ReadPod 72 quote_payload_of buf offset of
                 None \<Rightarrow> (False, out)
               | Some (payload, offset) \<Rightarrow>
                   (True, out\<lparr>q_instrument := InstrumentKey (wq_instrument_packed payload), q_seq := wq_seq payload,
                      q_recv_ts_ns := wq_recv_ts_ns payload, q_exch_ts_ns := wq_exch_ts_ns payload,
                      q_recv_mono_ns := wq_provider_mono_ns payload, q_bid_price := wq_bid_price payload,
                      q_bid_qty := wq_bid_qty payload, q_ask_price := wq_ask_price payload, q_ask_qty := wq_ask_qty payload\<rparr>))"

definition EncodeHealth :: "VenueHealthEvent \<Rightarrow> bytes" where
  "EncodeHealth event =
     AppendPod health_bytes
       \<lparr>wl_stream = u8_of_stream (he_stream event), wl_health = u8_of_health (he_health event), wl_reserved = replicate 6 0,
        wl_decided_mono_ns = he_decided_mono_ns event\<rparr>
       (WriteHeader kHealth [])"

definition DecodeHealth :: "bytes \<Rightarrow> VenueHealthEvent \<Rightarrow> bool \<times> VenueHealthEvent" where
  "DecodeHealth buf out =
     (case ReadPod 4 header_of buf 0 of
        None \<Rightarrow> (False, out)
      | Some (header, offset) \<Rightarrow>
          if wh_msg_type header \<noteq> u16_of_msg kHealth then (False, out)
          else case ReadPod 16 health_payload_of buf offset of
                 None \<Rightarrow> (False, out)
               | Some (payload, offset) \<Rightarrow>
                   (True, out\<lparr>he_stream := stream_of_u8 (wl_stream payload), he_health := health_of_u8 (wl_health payload),
                      he_decided_mono_ns := wl_decided_mono_ns payload\<rparr>))"

section \<open>Round trips\<close>

lemma WriteHeader_bytes:
  "WriteHeader t [] = header_bytes \<lparr>wh_msg_type = u16_of_msg t, wh_wire_version = kWireVersion\<rparr>" "length (WriteHeader t []) = 4"
  by (simp_all add: WriteHeader_def AppendPod_def header_pod.size_bytes)

lemma read_header:
  "ReadPod 4 header_of (WriteHeader t [] @ rest) 0 = Some (\<lparr>wh_msg_type = u16_of_msg t, wh_wire_version = kWireVersion\<rparr>, 4)"
  unfolding WriteHeader_bytes(1) by (rule header_pod.read_first) simp

lemma u16_of_msg_inj [simp]: "u16_of_msg t = u16_of_msg t' \<longleftrightarrow> t = t'"
  by (cases t; cases t') simp_all

lemma header_decoded: "DecodeHeader (WriteHeader t [] @ rest) = Some \<lparr>wh_msg_type = u16_of_msg t, wh_wire_version = kWireVersion\<rparr>"
  by (simp add: DecodeHeader_def read_header)

text \<open>The type of every encoded frame.\<close>

lemma encoded_header:
  "\<exists>body. EncodeHello k n = WriteHeader kHello [] @ body" "\<exists>body. EncodeGoodbye r = WriteHeader kGoodbye [] @ body"
  "\<exists>body. EncodeBookUpdate pad u = WriteHeader kBookUpdate [] @ body" "\<exists>body. EncodeBboQuote pad q = WriteHeader kBboQuote [] @ body"
  "\<exists>body. EncodeHealth h = WriteHeader kHealth [] @ body"
  by (simp_all add: EncodeHello_def EncodeGoodbye_def EncodeBookUpdate_def EncodeBboQuote_def EncodeHealth_def AppendPod_def AppendBytes_def
      Let_def)

lemma reason_inverse [simp]: "u32_of_reason (reason_of_u32 w) = w"
  by (simp add: reason_of_u32_def)

lemma goodbye_roundtrip:
  "DecodeGoodbye (EncodeGoodbye r @ rest) = Some (reason_of_u32 (u32_of_reason r))"
  using u32_pod.read_written[where v = "u32_of_reason r" and pre = "WriteHeader kGoodbye []" and rest = rest]
  by (simp add: DecodeGoodbye_def EncodeGoodbye_def AppendPod_def read_header WriteHeader_bytes(2))

lemma byte_char: "char_of_byte (byte_of_char c) = c"
proof -
  have "unat (of_nat (of_char c) :: u8) = of_char c" by (simp add: unat_of_nat)
  then show ?thesis by (simp add: char_of_byte_def byte_of_char_def)
qed

lemma byte_of_char_zero: "byte_of_char c = 0 \<longleftrightarrow> c = CHR 0x00"
proof
  assume "byte_of_char c = 0"
  then have "char_of_byte 0 = c" using byte_char[of c] by simp
  then show "c = CHR 0x00" by (simp add: char_of_byte_def char_of_def)
qed (simp add: byte_of_char_def)

lemma hello_roundtrip:
  "DecodeHello (EncodeHello k n @ rest) = Decoded (k, takeWhile (\<lambda>c. c \<noteq> CHR 0x00) (take 15 n))"
proof -
  let ?name = "map byte_of_char (take 15 n)"
  let ?p = "\<lparr>hp_instrument_packed = Packed k, hp_venue_name = ?name @ replicate (16 - min (length n) 15) 0\<rparr>"
  have e: "EncodeHello k n = WriteHeader kHello [] @ hello_bytes ?p"
    by (simp add: EncodeHello_def AppendPod_def kVenueNameCapacity_def Let_def min_def)
  have "ReadPod 20 hello_of (WriteHeader kHello [] @ hello_bytes ?p @ rest) 4 = Some (?p, 24)"
    using hello_pod.read_written[where v = ?p and pre = "WriteHeader kHello []" and rest = rest]
    by (simp add: kVenueNameCapacity_def WriteHeader_bytes(2))
  moreover have "replicate (16 - min (length n) 15) (0 :: u8) = 0 # replicate (15 - min (length n) 15) 0"
    by (metis Suc_diff_le diff_Suc_Suc min.cobounded2 numeral_eq_Suc pred_numeral_simps(2) replicate_Suc semiring_norm(26,27))
  moreover have "takeWhile (\<lambda>b. b \<noteq> 0) (map byte_of_char n' @ 0 # bs) = map byte_of_char (takeWhile (\<lambda>c. c \<noteq> CHR 0x00) n')" for bs n'
    by (induction n' rule: list.induct) (simp_all add: byte_of_char_zero)
  ultimately show ?thesis
    by (simp add: DecodeHello_def e read_header byte_char comp_def)
qed

lemma update_roundtrip:
  assumes "length (bu_bids u) < 2 ^ 32" "length (bu_asks u) < 2 ^ 32"
  shows "DecodeBookUpdate (EncodeBookUpdate padding u @ rest) out = (True, u\<lparr>bu_venue := bu_venue out\<rparr>)"
proof -
  let ?h = "\<lparr>wb_instrument_packed = Packed (bu_instrument u), wb_padding = padding, wb_seq = bu_seq u,
    wb_prev_seq = bu_prev_seq u, wb_recv_ts_ns = bu_recv_ts_ns u, wb_exch_ts_ns = bu_exch_ts_ns u,
    wb_provider_mono_ns = bu_recv_mono_ns u, wb_bid_count = of_nat (length (bu_bids u)),
    wb_ask_count = of_nat (length (bu_asks u)), wb_is_snapshot = (if bu_is_snapshot u then 1 else 0), wb_reserved = replicate 7 0\<rparr>"
  let ?H = "WriteHeader kBookUpdate []" and ?B = "concat (map level_bytes (bu_bids u))" and ?A = "concat (map level_bytes (bu_asks u))"
  have e: "EncodeBookUpdate padding u @ rest = ?H @ book_header_bytes ?h @ ?B @ ?A @ rest"
    by (simp add: EncodeBookUpdate_def AppendPod_def AppendBytes_def Let_def)
  have b: "ReadPod 64 book_header_of (?H @ book_header_bytes ?h @ ?B @ ?A @ rest) 4 = Some (?h, 68)"
    using book_header_pod.read_written[where v = ?h and pre = ?H and rest = "?B @ ?A @ rest"] by (simp add: WriteHeader_bytes(2))
  have l: "length (?H @ book_header_bytes ?h) = 68" by (simp add: WriteHeader_bytes(2) book_header_pod.size_bytes)
  have l2: "length (?H @ book_header_bytes ?h @ ?B) = 68 + 16 * length (bu_bids u)"
    using l level_pod.length_all[where vs = "bu_bids u"] by simp
  have c: "unat (wb_bid_count ?h) = length (bu_bids u)" "unat (wb_ask_count ?h) = length (bu_asks u)"
    using assms by (simp_all add: unat_of_nat)
  have r: "ReadLevels (pre @ concat (map level_bytes ls) @ rest) (length pre) (length ls) = Some (ls, length pre + 16 * length ls)" for pre ls rest
    using level_pod.read_all_written[where vs = ls and rest = "[]"] level_pod.length_all[where vs = ls]
    by (cases "ls = []") (simp_all add: ReadLevels_def ReadBytes_def chunk_def)
  have bids: "ReadLevels (?H @ book_header_bytes ?h @ ?B @ ?A @ rest) 68 (length (bu_bids u)) = Some (bu_bids u, 68 + 16 * length (bu_bids u))"
    using r[of "?H @ book_header_bytes ?h" "bu_bids u" "?A @ rest"] unfolding l append_assoc .
  have asks: "ReadLevels (?H @ book_header_bytes ?h @ ?B @ ?A @ rest) (68 + 16 * length (bu_bids u)) (length (bu_asks u)) =
      Some (bu_asks u, 68 + 16 * length (bu_bids u) + 16 * length (bu_asks u))"
    using r[of "?H @ book_header_bytes ?h @ ?B" "bu_asks u" rest] unfolding l2 append_assoc .
  have hd: "ReadPod 4 header_of (?H @ book_header_bytes ?h @ ?B @ ?A @ rest) 0 =
      Some (\<lparr>wh_msg_type = u16_of_msg kBookUpdate, wh_wire_version = kWireVersion\<rparr>, 4)" by (rule read_header)
  have "DecodeBookUpdate (?H @ book_header_bytes ?h @ ?B @ ?A @ rest) out =
      (True, out\<lparr>bu_instrument := InstrumentKey (wb_instrument_packed ?h), bu_seq := wb_seq ?h, bu_prev_seq := wb_prev_seq ?h,
        bu_recv_ts_ns := wb_recv_ts_ns ?h, bu_exch_ts_ns := wb_exch_ts_ns ?h, bu_recv_mono_ns := wb_provider_mono_ns ?h,
        bu_is_snapshot := (wb_is_snapshot ?h \<noteq> 0), bu_bids := bu_bids u, bu_asks := bu_asks u\<rparr>)"
    unfolding DecodeBookUpdate_def hd b option.case prod.case Let_def c bids asks by simp
  then show ?thesis unfolding e by simp
qed

lemma quote_roundtrip: "DecodeBboQuote (EncodeBboQuote padding q @ rest) out = (True, q\<lparr>q_venue := q_venue out\<rparr>)"
proof -
  let ?p = "\<lparr>wq_instrument_packed = Packed (q_instrument q), wq_padding = padding, wq_seq = q_seq q,
        wq_recv_ts_ns = q_recv_ts_ns q, wq_exch_ts_ns = q_exch_ts_ns q, wq_provider_mono_ns = q_recv_mono_ns q,
        wq_bid_price = q_bid_price q, wq_bid_qty = q_bid_qty q, wq_ask_price = q_ask_price q, wq_ask_qty = q_ask_qty q\<rparr>"
  have "ReadPod 72 quote_payload_of (WriteHeader kBboQuote [] @ quote_bytes ?p @ rest) 4 = Some (?p, 76)"
    using quote_pod.read_written[where v = ?p and pre = "WriteHeader kBboQuote []" and rest = rest] by (simp add: WriteHeader_bytes(2))
  then show ?thesis by (simp add: DecodeBboQuote_def EncodeBboQuote_def AppendPod_def read_header)
qed

lemma health_roundtrip:
  "DecodeHealth (EncodeHealth e @ rest) out =
     (True, e\<lparr>he_venue := he_venue out, he_stream := stream_of_u8 (u8_of_stream (he_stream e)),
              he_health := health_of_u8 (u8_of_health (he_health e))\<rparr>)"
proof -
  let ?p = "\<lparr>wl_stream = u8_of_stream (he_stream e), wl_health = u8_of_health (he_health e), wl_reserved = replicate 6 0,
        wl_decided_mono_ns = he_decided_mono_ns e\<rparr>"
  have "ReadPod 16 health_payload_of (WriteHeader kHealth [] @ health_bytes ?p @ rest) 4 = Some (?p, 20)"
    using health_pod.read_written[where v = ?p and pre = "WriteHeader kHealth []" and rest = rest] by (simp add: WriteHeader_bytes(2))
  then show ?thesis by (simp add: DecodeHealth_def EncodeHealth_def AppendPod_def read_header)
qed

section \<open>Truncated frames and other frames\<close>

lemma wrong_type_rejected:
  assumes "DecodeHeader buf = Some h"
  shows "wh_msg_type h \<noteq> u16_of_msg kBookUpdate \<Longrightarrow> DecodeBookUpdate buf u = (False, u)"
    "wh_msg_type h \<noteq> u16_of_msg kBboQuote \<Longrightarrow> DecodeBboQuote buf q = (False, q)"
    "wh_msg_type h \<noteq> u16_of_msg kHealth \<Longrightarrow> DecodeHealth buf e = (False, e)"
    "wh_msg_type h \<noteq> u16_of_msg kHello \<Longrightarrow> DecodeHello buf = Rejected"
    "wh_msg_type h \<noteq> u16_of_msg kGoodbye \<Longrightarrow> DecodeGoodbye buf = None"
  using assms
  by (auto simp: DecodeHeader_def DecodeBookUpdate_def DecodeBboQuote_def DecodeHealth_def DecodeHello_def DecodeGoodbye_def)

text \<open>A book update is accepted exactly when the frame holds the levels its header announces.\<close>

lemma update_length:
  assumes "fst (DecodeBookUpdate buf out)"
  shows "68 + 16 * (length (bu_bids (snd (DecodeBookUpdate buf out))) + length (bu_asks (snd (DecodeBookUpdate buf out)))) \<le> length buf"
proof -
  have p: "length (pods_of 16 wire_level_of n bs) = n" for n bs by (induction n arbitrary: bs) simp_all
  have r: "ReadLevels buf off n = Some (ls, off') \<Longrightarrow> off' = off + 16 * n \<and> length ls = n \<and> (n > 0 \<longrightarrow> off' \<le> length buf)" for off n ls off'
    by (auto simp: ReadLevels_def ReadBytes_def p split: if_splits)
  have q: "ReadPod n f buf off = Some (v, off') \<Longrightarrow> off' = off + n \<and> off' \<le> length buf" for n :: nat and f :: "bytes \<Rightarrow> 'b" and off v off'
    by (auto simp: ReadPod_def split: if_splits)
  obtain h off where h: "ReadPod 4 header_of buf 0 = Some (h, off)" "wh_msg_type h = u16_of_msg kBookUpdate"
    using assms by (auto simp: DecodeBookUpdate_def split: option.splits if_splits)
  obtain b off' where b: "ReadPod 64 book_header_of buf off = Some (b, off')"
    using assms h by (auto simp: DecodeBookUpdate_def split: option.splits)
  obtain bids off2 where bids: "ReadLevels buf off' (unat (wb_bid_count b)) = Some (bids, off2)"
    using assms h b by (auto simp: DecodeBookUpdate_def Let_def split: option.splits)
  obtain asks off3 where asks: "ReadLevels buf off2 (unat (wb_ask_count b)) = Some (asks, off3)"
    using assms h b bids by (auto simp: DecodeBookUpdate_def Let_def split: option.splits)
  have "bu_bids (snd (DecodeBookUpdate buf out)) = bids" "bu_asks (snd (DecodeBookUpdate buf out)) = asks"
    using h b bids asks by (simp_all add: DecodeBookUpdate_def Let_def)
  then show ?thesis using q[OF h(1)] q[OF b] r[OF bids] r[OF asks] by (cases "asks = []"; cases "bids = []") auto
qed

lemma fixed_length:
  "fst (DecodeBboQuote buf q) \<Longrightarrow> 76 \<le> length buf" "fst (DecodeHealth buf e) \<Longrightarrow> 20 \<le> length buf"
  "DecodeHello buf \<noteq> Rejected \<Longrightarrow> 24 \<le> length buf" "DecodeGoodbye buf \<noteq> None \<Longrightarrow> 8 \<le> length buf"
  by (auto simp: DecodeBboQuote_def DecodeHealth_def DecodeHello_def DecodeGoodbye_def ReadPod_def split: option.splits if_splits)


text \<open>What a decoder has accepted does not change when the frame goes on.\<close>

lemma ReadPod_longer: "ReadPod n f buf off = Some r \<Longrightarrow> ReadPod n f (buf @ rest) off = Some r"
  by (auto simp: ReadPod_def chunk_def split: if_splits)

lemma ReadLevels_longer: "ReadLevels buf off n = Some r \<Longrightarrow> ReadLevels (buf @ rest) off n = Some r"
  by (auto simp: ReadLevels_def ReadBytes_def chunk_def split: if_splits)

lemma DecodeBookUpdate_longer:
  assumes "DecodeBookUpdate buf out = (True, u)"
  shows "DecodeBookUpdate (buf @ rest) out = (True, u)"
proof -
  obtain h off where h: "ReadPod 4 header_of buf 0 = Some (h, off)" "wh_msg_type h = u16_of_msg kBookUpdate"
    using assms by (auto simp: DecodeBookUpdate_def split: option.splits if_splits)
  obtain b off' where b: "ReadPod 64 book_header_of buf off = Some (b, off')"
    using assms h by (auto simp: DecodeBookUpdate_def split: option.splits)
  obtain bids off2 where bids: "ReadLevels buf off' (unat (wb_bid_count b)) = Some (bids, off2)"
    using assms h b by (auto simp: DecodeBookUpdate_def Let_def split: option.splits)
  obtain asks off3 where asks: "ReadLevels buf off2 (unat (wb_ask_count b)) = Some (asks, off3)"
    using assms h b bids by (auto simp: DecodeBookUpdate_def Let_def split: option.splits)
  note longer = ReadPod_longer[OF h(1), of rest] ReadPod_longer[OF b, of rest] ReadLevels_longer[OF bids, of rest]
    ReadLevels_longer[OF asks, of rest]
  show ?thesis using assms h(2) longer by (simp add: DecodeBookUpdate_def h(1) b bids asks)
qed

lemma length_EncodeBookUpdate: "length (EncodeBookUpdate padding u) = 68 + 16 * (length (bu_bids u) + length (bu_asks u))"
  using level_pod.length_all[where vs = "bu_bids u"] level_pod.length_all[where vs = "bu_asks u"]
  by (simp add: EncodeBookUpdate_def AppendPod_def AppendBytes_def Let_def WriteHeader_bytes(2) book_header_pod.size_bytes)

lemma update_truncated:
  assumes "length (bu_bids u) < 2 ^ 32" "length (bu_asks u) < 2 ^ 32" "k < length (EncodeBookUpdate padding u)"
  shows "\<not> fst (DecodeBookUpdate (take k (EncodeBookUpdate padding u)) out)"
proof
  let ?f = "take k (EncodeBookUpdate padding u)"
  assume ok: "fst (DecodeBookUpdate ?f out)"
  then have d: "DecodeBookUpdate ?f out = (True, snd (DecodeBookUpdate ?f out))" by (simp add: prod_eq_iff)
  from DecodeBookUpdate_longer[OF this, of "drop k (EncodeBookUpdate padding u)"]
  have "snd (DecodeBookUpdate ?f out) = u\<lparr>bu_venue := bu_venue out\<rparr>"
    using update_roundtrip[OF assms(1,2), of padding "[]" out] by simp
  then show False using update_length[OF ok] assms(3) by (simp add: length_EncodeBookUpdate)
qed

lemma fixed_encoded_length:
  "length (EncodeBboQuote padding q) = 76" "length (EncodeHealth e) = 20" "length (EncodeHello k n) = 24" "length (EncodeGoodbye r) = 8"
  by (simp_all add: EncodeBboQuote_def EncodeHealth_def EncodeHello_def EncodeGoodbye_def AppendPod_def WriteHeader_bytes(2)
      quote_pod.size_bytes health_pod.size_bytes hello_pod.size_bytes kVenueNameCapacity_def Let_def word_pods)

lemma fixed_truncated:
  "k < 76 \<Longrightarrow> \<not> fst (DecodeBboQuote (take k buf) q)" "k < 20 \<Longrightarrow> \<not> fst (DecodeHealth (take k buf) e)"
  "k < 24 \<Longrightarrow> DecodeHello (take k buf) = Rejected" "k < 8 \<Longrightarrow> DecodeGoodbye (take k buf) = None"
  using fixed_length(1)[of "take k buf" q] fixed_length(2)[of "take k buf" e] fixed_length(3)[of "take k buf"] fixed_length(4)[of "take k buf"]
  by (cases "DecodeGoodbye (take k buf)"; auto)+

text \<open>
  A frame of 68 bytes can announce any number of levels. It is rejected, but the decoder has by then sized its target
  for them: the check comes after the allocation.
\<close>

definition greedy_frame :: "u32 \<Rightarrow> bytes" where
  "greedy_frame n = AppendPod book_header_bytes
     \<lparr>wb_instrument_packed = 0, wb_padding = 0, wb_seq = 0, wb_prev_seq = 0, wb_recv_ts_ns = 0, wb_exch_ts_ns = 0,
      wb_provider_mono_ns = 0, wb_bid_count = n, wb_ask_count = 0, wb_is_snapshot = 0, wb_reserved = replicate 7 0\<rparr>
     (WriteHeader kBookUpdate [])"

lemma greedy_frame_allocates:
  assumes "n > 0"
  shows "length (greedy_frame n) = 68 \<and> fst (DecodeBookUpdate (greedy_frame n) out) = False \<and>
    length (bu_bids (snd (DecodeBookUpdate (greedy_frame n) out))) = unat n"
proof -
  let ?h = "\<lparr>wb_instrument_packed = 0, wb_padding = 0, wb_seq = 0, wb_prev_seq = 0, wb_recv_ts_ns = 0, wb_exch_ts_ns = 0,
      wb_provider_mono_ns = 0, wb_bid_count = n, wb_ask_count = 0, wb_is_snapshot = 0, wb_reserved = replicate 7 0\<rparr>"
  have g: "greedy_frame n = WriteHeader kBookUpdate [] @ book_header_bytes ?h" by (simp add: greedy_frame_def AppendPod_def)
  have l: "length (greedy_frame n) = 68" by (simp add: g WriteHeader_bytes(2) book_header_pod.size_bytes)
  have h: "ReadPod 4 header_of (greedy_frame n) 0 = Some (\<lparr>wh_msg_type = u16_of_msg kBookUpdate, wh_wire_version = kWireVersion\<rparr>, 4)"
    unfolding g by (rule read_header)
  have b: "ReadPod 64 book_header_of (greedy_frame n) 4 = Some (?h, 68)"
    using book_header_pod.read_written[where v = ?h and pre = "WriteHeader kBookUpdate []" and rest = "[]"]
    by (simp add: g WriteHeader_bytes(2))
  have "unat n > 0" using assms by (simp add: word_less_nat_alt)
  then have "ReadLevels (greedy_frame n) 68 (unat n) = None" using l by (simp add: ReadLevels_def ReadBytes_def)
  then show ?thesis using l by (simp add: DecodeBookUpdate_def h b)
qed

end
