(* ===== verification/Transport.thy ===== *)
theory Transport
  imports Wire_Codec
begin

text \<open>
  The two ends of the transport (md_wire/zmq_provider_sink.* and zmq_core_ingress.*). The sockets belong to a third
  party: a send is refused or takes the whole frame, and what arrives is a list of messages, each the sender's identity
  with its frames, where an empty frame announces that the connection has opened or closed. The sink turns a
  provider's calls into frames; the ingress turns frames into calls of the core. The lemmas at the end compose them:
  whatever providers send, the core only takes its own steps, and a connection's updates reach its queue in order.
\<close>


section \<open>The provider's end (zmq_provider_sink.cpp)\<close>

text \<open>
  The socket is a third-party object: what the sink uses of it is that a non-blocking send either takes the whole frame
  or refuses it. \<open>accepts\<close> is that answer, and \<open>sk_sent\<close> the frames taken so far. Whether the resync hook is bound is
  part of the state; calling it is counted.
\<close>

record Sink =
  sk_instrument :: InstrumentKey
  sk_venue_name :: string
  sk_encode_buf :: bytes
  sk_has_resync_hook :: bool
  sk_ever_sent_successfully :: bool
  sk_overflow_count :: u64
  sk_quote_drop_count :: u64
  sk_sent :: "bytes list"
  sk_resyncs :: nat

definition new_sink :: "InstrumentKey \<Rightarrow> string \<Rightarrow> Sink" where
  "new_sink instrument venue_name =
     \<lparr>sk_instrument = instrument, sk_venue_name = venue_name, sk_encode_buf = [], sk_has_resync_hook = False,
      sk_ever_sent_successfully = False, sk_overflow_count = 0, sk_quote_drop_count = 0, sk_sent = [], sk_resyncs = 0\<rparr>"

definition SetResyncHook :: "Sink \<Rightarrow> Sink" where
  "SetResyncHook s = s\<lparr>sk_has_resync_hook := True\<rparr>"

definition SendFrame :: "bool \<Rightarrow> Sink \<Rightarrow> bool \<times> Sink" where
  "SendFrame accepts s =
     (if accepts then (True, s\<lparr>sk_sent := sk_sent s @ [sk_encode_buf s], sk_ever_sent_successfully := True\<rparr>) else (False, s))"

definition SendHello :: "bool \<Rightarrow> Sink \<Rightarrow> Sink" where
  "SendHello accepts s = snd (SendFrame accepts (s\<lparr>sk_encode_buf := EncodeHello (sk_instrument s) (sk_venue_name s)\<rparr>))"

definition SendGoodbye :: "GoodbyeReason \<Rightarrow> bool \<Rightarrow> Sink \<Rightarrow> Sink" where
  "SendGoodbye reason accepts s = snd (SendFrame accepts (s\<lparr>sk_encode_buf := EncodeGoodbye reason\<rparr>))"

definition SendUpdate :: "u32 \<Rightarrow> BookUpdate \<Rightarrow> bool \<Rightarrow> Sink \<Rightarrow> bool \<times> Sink" where
  "SendUpdate padding update accepts s =
     (case SendFrame accepts (s\<lparr>sk_encode_buf := EncodeBookUpdate padding update\<rparr>) of
        (True, s) \<Rightarrow> (True, s)
      | (False, s) \<Rightarrow> (False, s\<lparr>sk_overflow_count := sk_overflow_count s + 1\<rparr>))"

definition call_resync_hook :: "Sink \<Rightarrow> Sink" where
  "call_resync_hook s = (if sk_has_resync_hook s then s\<lparr>sk_resyncs := sk_resyncs s + 1\<rparr> else s)"

definition OnUpdate :: "u32 \<Rightarrow> BookUpdate \<Rightarrow> bool \<Rightarrow> Sink \<Rightarrow> Sink" where
  "OnUpdate padding update accepts s =
     (case SendUpdate padding update accepts s of (True, s) \<Rightarrow> s | (False, s) \<Rightarrow> call_resync_hook s)"

definition OnQuote :: "u32 \<Rightarrow> BboQuote \<Rightarrow> bool \<Rightarrow> Sink \<Rightarrow> Sink" where
  "OnQuote padding quote accepts s =
     (case SendFrame accepts (s\<lparr>sk_encode_buf := EncodeBboQuote padding quote\<rparr>) of
        (True, s) \<Rightarrow> s
      | (False, s) \<Rightarrow> s\<lparr>sk_quote_drop_count := sk_quote_drop_count s + 1\<rparr>)"

definition SendHealth :: "VenueHealthEvent \<Rightarrow> bool \<Rightarrow> Sink \<Rightarrow> bool \<times> Sink" where
  "SendHealth event accepts s =
     (case SendFrame accepts (s\<lparr>sk_encode_buf := EncodeHealth event\<rparr>) of
        (True, s) \<Rightarrow> (True, s)
      | (False, s) \<Rightarrow> (False, s\<lparr>sk_overflow_count := sk_overflow_count s + 1\<rparr>))"

definition OnHealth :: "VenueHealthEvent \<Rightarrow> bool \<Rightarrow> Sink \<Rightarrow> Sink" where
  "OnHealth event accepts s =
     (case SendHealth event accepts s of (True, s) \<Rightarrow> s | (False, s) \<Rightarrow> call_resync_hook s)"

text \<open>What a provider hands to its sink, each with the socket's answer.\<close>

datatype SinkCall = CallUpdate u32 BookUpdate | CallQuote u32 BboQuote | CallHealth VenueHealthEvent | CallGoodbye GoodbyeReason

fun sink_call :: "SinkCall \<Rightarrow> bool \<Rightarrow> Sink \<Rightarrow> Sink" where
  "sink_call (CallUpdate padding u) = OnUpdate padding u"
| "sink_call (CallQuote padding q) = OnQuote padding q"
| "sink_call (CallHealth e) = OnHealth e"
| "sink_call (CallGoodbye r) = SendGoodbye r"

fun frame_of :: "SinkCall \<Rightarrow> bytes" where
  "frame_of (CallUpdate padding u) = EncodeBookUpdate padding u"
| "frame_of (CallQuote padding q) = EncodeBboQuote padding q"
| "frame_of (CallHealth e) = EncodeHealth e"
| "frame_of (CallGoodbye r) = EncodeGoodbye r"

fun must_arrive :: "SinkCall \<Rightarrow> bool" where
  "must_arrive (CallUpdate _ _) = True"
| "must_arrive (CallHealth _) = True"
| "must_arrive _ = False"

lemma sink_call_sent: "sk_sent (sink_call c accepts s) = sk_sent s @ (if accepts then [frame_of c] else [])"
  by (cases c; cases accepts)
     (simp_all add: OnUpdate_def SendUpdate_def OnQuote_def OnHealth_def SendHealth_def SendGoodbye_def SendFrame_def call_resync_hook_def)

lemma sink_call_resyncs:
  "sk_resyncs (sink_call c accepts s) = sk_resyncs s + (if sk_has_resync_hook s \<and> must_arrive c \<and> \<not> accepts then 1 else 0)"
  "sk_has_resync_hook (sink_call c accepts s) = sk_has_resync_hook s"
  by (cases c; cases accepts;
      simp add: OnUpdate_def SendUpdate_def OnQuote_def OnHealth_def SendHealth_def SendGoodbye_def SendFrame_def call_resync_hook_def)+

text \<open>
  Over a whole run: the frames sent are those of the accepted calls, in order, and the hook is called once for every
  refused message that must not be lost.
\<close>

lemma sink_run:
  "sk_sent (fold (\<lambda>(c, accepts). sink_call c accepts) calls s) = sk_sent s @ map frame_of (map fst (filter snd calls))"
  "sk_has_resync_hook s \<Longrightarrow> sk_resyncs (fold (\<lambda>(c, accepts). sink_call c accepts) calls s) =
     sk_resyncs s + length (filter (\<lambda>(c, accepts). must_arrive c \<and> \<not> accepts) calls)"
  by (induction calls arbitrary: s) (auto simp: sink_call_sent sink_call_resyncs split: if_splits)


lemma updates_sent: "sk_sent (fold (\<lambda>u. OnUpdate padding u True) us s) = sk_sent s @ map (EncodeBookUpdate padding) us"
  by (induction us arbitrary: s) (simp_all add: OnUpdate_def SendUpdate_def SendFrame_def)

section \<open>The core's end (zmq_core_ingress.cpp)\<close>

record Ingress =
  ig_core :: Core
  ig_expected_instrument :: InstrumentKey
  ig_identity_to_slot :: "string \<Rightarrow> VenueSlot option"
  ig_running :: bool
  ig_decode_update :: BookUpdate
  ig_decode_quote :: BboQuote
  ig_decode_health :: VenueHealthEvent
  ig_data_before_hello :: u64
  ig_enqueue_overflow :: u64
  ig_logged_data_before_hello :: bool
  ig_logged_unknown_msg_type :: bool

definition empty_update :: BookUpdate where
  "empty_update = \<lparr>bu_venue = BINANCE, bu_instrument = InstrumentKey 0, bu_seq = 0, bu_prev_seq = 0, bu_recv_ts_ns = 0,
     bu_exch_ts_ns = 0, bu_recv_mono_ns = 0, bu_is_snapshot = False, bu_bids = [], bu_asks = []\<rparr>"

definition new_ingress :: "Core \<Rightarrow> InstrumentKey \<Rightarrow> Ingress" where
  "new_ingress core expected_instrument =
     \<lparr>ig_core = core, ig_expected_instrument = expected_instrument, ig_identity_to_slot = Map.empty, ig_running = False,
      ig_decode_update = empty_update, ig_decode_quote = empty_quote,
      ig_decode_health = \<lparr>he_venue = BINANCE, he_stream = kDepth, he_health = kNoData, he_decided_mono_ns = 0\<rparr>,
      ig_data_before_hello = 0, ig_enqueue_overflow = 0, ig_logged_data_before_hello = False, ig_logged_unknown_msg_type = False\<rparr>"

definition Ingress_Start :: "Ingress \<Rightarrow> Ingress" where "Ingress_Start s = s\<lparr>ig_running := True\<rparr>"
definition Ingress_Stop :: "Ingress \<Rightarrow> Ingress" where "Ingress_Stop s = s\<lparr>ig_running := False\<rparr>"

text \<open>What follows every escalating call of the core.\<close>

definition note_enqueue :: "bool \<times> Core \<Rightarrow> Ingress \<Rightarrow> Ingress" where
  "note_enqueue r s =
     (case r of (True, c) \<Rightarrow> s\<lparr>ig_core := c\<rparr> | (False, c) \<Rightarrow> s\<lparr>ig_core := c, ig_enqueue_overflow := ig_enqueue_overflow s + 1\<rparr>)"

definition note_early :: "Ingress \<Rightarrow> Ingress" where
  "note_early s = s\<lparr>ig_data_before_hello := ig_data_before_hello s + 1, ig_logged_data_before_hello := True\<rparr>"

definition HandleNotify :: "string \<Rightarrow> Ingress \<Rightarrow> Ingress" where
  "HandleNotify identity s =
     (case ig_identity_to_slot s identity of
        None \<Rightarrow> s
      | Some slot \<Rightarrow>
          (let s = s\<lparr>ig_identity_to_slot := (ig_identity_to_slot s)(identity := None)\<rparr>
           in note_enqueue (EnqueueDisconnect (ig_core s) slot) s))"

text \<open>
  \<open>None\<close> is undefined behaviour: a hello whose name has no terminator. Moving the decoded update into the queue leaves
  the decode buffer's sides empty.
\<close>

definition HandlePayload :: "string \<Rightarrow> bytes \<Rightarrow> Ingress \<Rightarrow> Ingress option" where
  "HandlePayload identity buf s =
     (case DecodeHeader buf of
        None \<Rightarrow> Some s
      | Some header \<Rightarrow>
          if wh_msg_type header = u16_of_msg kHello
          then (case DecodeHello buf of
                  Rejected \<Rightarrow> Some s
                | OverRead \<Rightarrow> None
                | Decoded (instrument, venue_name) \<Rightarrow>
                    if instrument \<noteq> ig_expected_instrument s then Some s
                    else (case RegisterVenueName (ig_core s) venue_name of
                            (None, core) \<Rightarrow> Some (s\<lparr>ig_core := core\<rparr>)
                          | (Some slot, core) \<Rightarrow>
                              (let s = s\<lparr>ig_core := core, ig_identity_to_slot := (ig_identity_to_slot s)(identity \<mapsto> slot)\<rparr>
                               in Some (note_enqueue (EnqueueRegistration core slot) s))))
          else if wh_msg_type header = u16_of_msg kBookUpdate
          then (case ig_identity_to_slot s identity of
                  None \<Rightarrow> Some (note_early s)
                | Some slot \<Rightarrow>
                    (case DecodeBookUpdate buf (ig_decode_update s) of
                       (False, u) \<Rightarrow> Some (s\<lparr>ig_decode_update := u\<rparr>)
                     | (True, u) \<Rightarrow>
                         Some (note_enqueue (EnqueueUpdate (ig_core s) slot u)
                                 (s\<lparr>ig_decode_update := u\<lparr>bu_bids := [], bu_asks := []\<rparr>\<rparr>))))
          else if wh_msg_type header = u16_of_msg kBboQuote
          then (case ig_identity_to_slot s identity of
                  None \<Rightarrow> Some (note_early s)
                | Some slot \<Rightarrow>
                    (case DecodeBboQuote buf (ig_decode_quote s) of
                       (False, q) \<Rightarrow> Some (s\<lparr>ig_decode_quote := q\<rparr>)
                     | (True, q) \<Rightarrow> Some (s\<lparr>ig_decode_quote := q, ig_core := EnqueueQuote (ig_core s) slot q\<rparr>)))
          else if wh_msg_type header = u16_of_msg kHealth
          then (case ig_identity_to_slot s identity of
                  None \<Rightarrow> Some (note_early s)
                | Some slot \<Rightarrow>
                    (case DecodeHealth buf (ig_decode_health s) of
                       (False, e) \<Rightarrow> Some (s\<lparr>ig_decode_health := e\<rparr>)
                     | (True, e) \<Rightarrow> Some (note_enqueue (EnqueueHealth (ig_core s) slot e) (s\<lparr>ig_decode_health := e\<rparr>))))
          else if wh_msg_type header = u16_of_msg kGoodbye then Some s
          else Some (s\<lparr>ig_logged_unknown_msg_type := True\<rparr>))"

text \<open>
  One message of the socket: the sender's identity and the frames after it. The library delivers a connection's
  opening and closing as a message with one empty frame.
\<close>

definition receive :: "string \<times> bytes list \<Rightarrow> Ingress \<Rightarrow> Ingress option" where
  "receive m s =
     (if \<not> ig_running s then Some s
      else case m of
        (identity, []) \<Rightarrow> Some s
      | (identity, payload # _) \<Rightarrow> if payload = [] then Some (HandleNotify identity s) else HandlePayload identity payload s)"

fun Ingress_Run :: "(string \<times> bytes list) list \<Rightarrow> Ingress \<Rightarrow> Ingress option" where
  "Ingress_Run [] s = Some s"
| "Ingress_Run (m # ms) s = (case receive m s of None \<Rightarrow> None | Some s' \<Rightarrow> Ingress_Run ms s')"

section \<open>What the core sees\<close>

text \<open>The frames of every well-behaved sink, handled.\<close>

lemma frame_header:
  "DecodeHeader (EncodeHello k n) = Some \<lparr>wh_msg_type = u16_of_msg kHello, wh_wire_version = kWireVersion\<rparr>"
  "DecodeHeader (EncodeGoodbye r) = Some \<lparr>wh_msg_type = u16_of_msg kGoodbye, wh_wire_version = kWireVersion\<rparr>"
  "DecodeHeader (EncodeBookUpdate padding u) = Some \<lparr>wh_msg_type = u16_of_msg kBookUpdate, wh_wire_version = kWireVersion\<rparr>"
  "DecodeHeader (EncodeBboQuote padding q) = Some \<lparr>wh_msg_type = u16_of_msg kBboQuote, wh_wire_version = kWireVersion\<rparr>"
  "DecodeHeader (EncodeHealth e) = Some \<lparr>wh_msg_type = u16_of_msg kHealth, wh_wire_version = kWireVersion\<rparr>"
  using encoded_header header_decoded by metis+

lemma handle_update:
  assumes "length (bu_bids u) < 2 ^ 32" "length (bu_asks u) < 2 ^ 32" "ig_identity_to_slot s identity = Some slot"
  shows "HandlePayload identity (EncodeBookUpdate padding u) s =
    Some (note_enqueue (EnqueueUpdate (ig_core s) slot (u\<lparr>bu_venue := bu_venue (ig_decode_update s)\<rparr>))
            (s\<lparr>ig_decode_update := u\<lparr>bu_venue := bu_venue (ig_decode_update s), bu_bids := [], bu_asks := []\<rparr>\<rparr>))"
  using assms(3) update_roundtrip[OF assms(1,2), of padding "[]" "ig_decode_update s"]
  by (simp add: HandlePayload_def frame_header)

lemma handle_quote:
  "ig_identity_to_slot s identity = Some slot \<Longrightarrow> HandlePayload identity (EncodeBboQuote padding q) s =
    (let q = q\<lparr>q_venue := q_venue (ig_decode_quote s)\<rparr> in Some (s\<lparr>ig_decode_quote := q, ig_core := EnqueueQuote (ig_core s) slot q\<rparr>))"
  using quote_roundtrip[of padding q "[]" "ig_decode_quote s"] by (simp add: HandlePayload_def frame_header Let_def)

lemma handle_health:
  assumes "ig_identity_to_slot s identity = Some slot" "he_stream e = kDepth \<or> he_stream e = kBbo" "\<forall>b. he_health e \<noteq> HealthRaw b"
  shows "HandlePayload identity (EncodeHealth e) s =
    (let e = e\<lparr>he_venue := he_venue (ig_decode_health s)\<rparr>
     in Some (note_enqueue (EnqueueHealth (ig_core s) slot e) (s\<lparr>ig_decode_health := e\<rparr>)))"
proof -
  have "stream_of_u8 (u8_of_stream (he_stream e)) = he_stream e" using assms(2) by (auto simp: stream_of_u8_def)
  moreover have "health_of_u8 (u8_of_health (he_health e)) = he_health e"
    using assms(3) by (cases "he_health e") (auto simp: health_of_u8_def)
  ultimately show ?thesis
    using assms(1) health_roundtrip[of e "[]" "ig_decode_health s"] by (simp add: HandlePayload_def frame_header Let_def)
qed

lemma handle_hello:
  "HandlePayload identity (EncodeHello k n) s =
    (if k \<noteq> ig_expected_instrument s then Some s
     else case RegisterVenueName (ig_core s) (takeWhile (\<lambda>c. c \<noteq> CHR 0x00) (take 15 n)) of
            (None, core) \<Rightarrow> Some (s\<lparr>ig_core := core\<rparr>)
          | (Some slot, core) \<Rightarrow>
              Some (note_enqueue (EnqueueRegistration core slot)
                (s\<lparr>ig_core := core, ig_identity_to_slot := (ig_identity_to_slot s)(identity \<mapsto> slot)\<rparr>)))"
  using hello_roundtrip[of k n "[]"] by (simp add: HandlePayload_def frame_header Let_def split: prod.splits option.splits)

lemma data_before_hello:
  assumes "ig_identity_to_slot s identity = None" "DecodeHeader buf = Some h"
    "wh_msg_type h \<in> {u16_of_msg kBookUpdate, u16_of_msg kBboQuote, u16_of_msg kHealth}"
  shows "HandlePayload identity buf s = Some (note_early s)"
  using assms by (auto simp: HandlePayload_def)


section \<open>From the provider's calls to the core's\<close>

text \<open>
  The frames the ingress can take: any bytes but a hello whose name fills its field without a terminator, which the code
  reads past, and an update that names a price twice on one side or names price zero, which nothing on its way refuses and
  the books cannot represent. A sink's own frames are of this kind when the update it was given is.
\<close>

definition acceptable_frame :: "bytes \<Rightarrow> bool" where
  "acceptable_frame f \<longleftrightarrow>
     DecodeHello f \<noteq> OverRead \<and> (case DecodeBookUpdate f empty_update of (decoded, u) \<Rightarrow> decoded \<longrightarrow> wf_update u)"

lemma wf_update_levels: "bu_bids u = bu_bids v \<Longrightarrow> bu_asks u = bu_asks v \<Longrightarrow> wf_update u = wf_update v"
  by (simp add: wf_update_def)

lemma decoded_levels:
  "fst (DecodeBookUpdate buf out) = fst (DecodeBookUpdate buf out')"
  "fst (DecodeBookUpdate buf out) \<Longrightarrow> bu_bids (snd (DecodeBookUpdate buf out)) = bu_bids (snd (DecodeBookUpdate buf out')) \<and>
     bu_asks (snd (DecodeBookUpdate buf out)) = bu_asks (snd (DecodeBookUpdate buf out'))"
  by (auto simp: DecodeBookUpdate_def Let_def split: option.splits prod.splits if_splits)

lemma acceptable_update: "acceptable_frame f \<Longrightarrow> DecodeBookUpdate f out = (True, u) \<Longrightarrow> wf_update u"
  using decoded_levels[of f out empty_update] wf_update_levels[of u "snd (DecodeBookUpdate f empty_update)"]
  by (auto simp: acceptable_frame_def split: prod.splits)

lemma header_read: "DecodeHeader buf = map_option fst (ReadPod 4 header_of buf 0)"
  by (simp add: DecodeHeader_def split: option.splits)

lemma hello_only: "DecodeHeader f = Some h \<Longrightarrow> wh_msg_type h \<noteq> u16_of_msg kHello \<Longrightarrow> DecodeHello f = Rejected"
  by (auto simp: DecodeHello_def header_read split: option.splits)

lemma update_only: "DecodeHeader f = Some h \<Longrightarrow> wh_msg_type h \<noteq> u16_of_msg kBookUpdate \<Longrightarrow> \<not> fst (DecodeBookUpdate f out)"
  by (auto simp: DecodeBookUpdate_def header_read split: option.splits)

lemma sink_frames_acceptable:
  "acceptable_frame (EncodeHello k n)" "acceptable_frame (EncodeGoodbye r)" "acceptable_frame (EncodeBboQuote padding q)"
  "acceptable_frame (EncodeHealth e)"
  "wf_update u \<Longrightarrow> length (bu_bids u) < 2 ^ 32 \<Longrightarrow> length (bu_asks u) < 2 ^ 32 \<Longrightarrow> acceptable_frame (EncodeBookUpdate padding u)"
proof -
  have t: "u16_of_msg kHello \<noteq> u16_of_msg kBookUpdate" "u16_of_msg kGoodbye \<noteq> u16_of_msg kHello"
    "u16_of_msg kGoodbye \<noteq> u16_of_msg kBookUpdate" "u16_of_msg kBboQuote \<noteq> u16_of_msg kHello"
    "u16_of_msg kBboQuote \<noteq> u16_of_msg kBookUpdate" "u16_of_msg kHealth \<noteq> u16_of_msg kHello"
    "u16_of_msg kHealth \<noteq> u16_of_msg kBookUpdate" by simp_all
  note h = hello_only[OF frame_header(2)] hello_only[OF frame_header(3)] hello_only[OF frame_header(4)] hello_only[OF frame_header(5)]
  note u = update_only[OF frame_header(1)] update_only[OF frame_header(2)] update_only[OF frame_header(4)] update_only[OF frame_header(5)]
  have i: "acceptable_frame f" if "DecodeHello f \<noteq> OverRead" "\<not> fst (DecodeBookUpdate f empty_update)" for f
    using that by (auto simp: acceptable_frame_def)
  show "acceptable_frame (EncodeHello k n)" using u(1) hello_roundtrip[of k n "[]"] by (intro i) auto
  show "acceptable_frame (EncodeGoodbye r)" using h(1) u(2) by (intro i) auto
  show "acceptable_frame (EncodeBboQuote padding q)" using h(3) u(3) by (intro i) auto
  show "acceptable_frame (EncodeHealth e)" using h(4) u(4) by (intro i) auto
  assume "wf_update u" "length (bu_bids u) < 2 ^ 32" "length (bu_asks u) < 2 ^ 32"
  then show "acceptable_frame (EncodeBookUpdate padding u)"
    using h(2) update_roundtrip[of u padding "[]" empty_update] by (simp add: acceptable_frame_def wf_update_def)
qed

lemma note_enqueue_core [simp]: "ig_core (note_enqueue r s) = snd r"
  by (simp add: note_enqueue_def split: prod.split bool.split)

lemma note_early_core [simp]: "ig_core (note_early s) = ig_core s"
  by (simp add: note_early_def)

lemma note_frame [simp]:
  "ig_running (note_enqueue r s) = ig_running s" "ig_identity_to_slot (note_enqueue r s) = ig_identity_to_slot s"
  "ig_running (note_early s) = ig_running s"
  by (simp_all add: note_enqueue_def note_early_def split: prod.split bool.split)

lemma HandleNotify_steps: "core_step\<^sup>*\<^sup>* (ig_core s) (ig_core (HandleNotify identity s))"
  by (auto simp: HandleNotify_def Let_def split: option.split intro: step_enqueue_disconnect)

lemma HandlePayload_steps:
  assumes "acceptable_frame f"
  shows "\<exists>s'. HandlePayload identity f s = Some s' \<and> core_step\<^sup>*\<^sup>* (ig_core s) (ig_core s')"
proof (cases "DecodeHeader f")
  case None
  then show ?thesis by (simp add: HandlePayload_def)
next
  case (Some h)
  consider (hello) "wh_msg_type h = u16_of_msg kHello" | (update) "wh_msg_type h = u16_of_msg kBookUpdate"
    | (quote) "wh_msg_type h = u16_of_msg kBboQuote" | (health) "wh_msg_type h = u16_of_msg kHealth"
    | (other) "wh_msg_type h \<noteq> u16_of_msg kHello" "wh_msg_type h \<noteq> u16_of_msg kBookUpdate" "wh_msg_type h \<noteq> u16_of_msg kBboQuote"
        "wh_msg_type h \<noteq> u16_of_msg kHealth" by blast
  then show ?thesis
  proof cases
    case hello
    show ?thesis
    proof (cases "DecodeHello f")
      case (Decoded p)
      obtain k n where p: "p = (k, n)" by (rule prod.exhaust)
      let ?r = "RegisterVenueName (ig_core s) n"
      have 1: "core_step (ig_core s) (snd ?r)" by (rule step_register_name)
      have 2: "core_step\<^sup>*\<^sup>* (ig_core s) (snd (EnqueueRegistration (snd ?r) slot))" for slot
        using 1 step_enqueue_registration by (meson r_into_rtranclp rtranclp.rtrancl_into_rtrancl)
      show ?thesis using 1 2 by (cases ?r) (auto simp: HandlePayload_def Some hello Decoded p Let_def split: option.split)
    qed (use assms Some hello in \<open>simp_all add: HandlePayload_def acceptable_frame_def\<close>)
  next
    case update
    obtain d u where u: "DecodeBookUpdate f (ig_decode_update s) = (d, u)" by (rule prod.exhaust)
    have "core_step (ig_core s) (snd (EnqueueUpdate (ig_core s) slot u))" if "d" for slot
      using acceptable_update[OF assms, of _ u] u that by (intro step_enqueue_update) auto
    then show ?thesis
      by (cases "ig_identity_to_slot s identity"; cases d)
         (auto simp: HandlePayload_def Some update u intro!: r_into_rtranclp)
  next
    case quote
    obtain d q where q: "DecodeBboQuote f (ig_decode_quote s) = (d, q)" by (rule prod.exhaust)
    show ?thesis
      by (cases "ig_identity_to_slot s identity"; cases d)
         (auto simp: HandlePayload_def Some quote q intro!: r_into_rtranclp step_enqueue_quote)
  next
    case health
    obtain d e where e: "DecodeHealth f (ig_decode_health s) = (d, e)" by (rule prod.exhaust)
    have "core_step (ig_core s) (snd (EnqueueHealth (ig_core s) slot e))" for slot by (rule step_enqueue_health) simp
    then show ?thesis
      by (cases "ig_identity_to_slot s identity"; cases d)
         (auto simp: HandlePayload_def Some health e intro!: r_into_rtranclp)
  qed (simp add: HandlePayload_def Some)
qed

lemma receive_steps:
  assumes "\<forall>f \<in> set (snd m). acceptable_frame f"
  shows "\<exists>s'. receive m s = Some s' \<and> core_step\<^sup>*\<^sup>* (ig_core s) (ig_core s')"
  using assms HandleNotify_steps HandlePayload_steps
  by (cases m) (auto simp: receive_def split: list.split)

text \<open>
  Whatever acceptable frames arrive, on however many connections and in whichever order they open and close, the
  receive loop does not run into undefined behaviour and drives the core through its entry points only.
\<close>

lemma Ingress_Run_steps:
  assumes "\<forall>m \<in> set ms. \<forall>f \<in> set (snd m). acceptable_frame f"
  shows "\<exists>s'. Ingress_Run ms s = Some s' \<and> core_step\<^sup>*\<^sup>* (ig_core s) (ig_core s')"
  using assms
proof (induction ms arbitrary: s)
  case (Cons m ms)
  obtain s1 where 1: "receive m s = Some s1" "core_step\<^sup>*\<^sup>* (ig_core s) (ig_core s1)" using receive_steps[of m s] Cons.prems by auto
  obtain s2 where 2: "Ingress_Run ms s1 = Some s2" "core_step\<^sup>*\<^sup>* (ig_core s1) (ig_core s2)" using Cons.IH[of s1] Cons.prems by auto
  from 1(2) 2(2) have "core_step\<^sup>*\<^sup>* (ig_core s) (ig_core s2)" by (rule rtranclp_trans)
  then show ?case using 1(1) 2(1) by simp
qed simp

lemma ingress_core_ok:
  assumes "core_ok (ig_core s)" "\<forall>m \<in> set ms. \<forall>f \<in> set (snd m). acceptable_frame f"
  shows "\<exists>s'. Ingress_Run ms s = Some s' \<and> core_ok (ig_core s')"
proof -
  obtain s' where s': "Ingress_Run ms s = Some s'" "core_step\<^sup>*\<^sup>* (ig_core s) (ig_core s')" using Ingress_Run_steps[OF assms(2)] by blast
  from s'(2) have "core_ok (ig_core s')" using assms(1) by (induction rule: rtranclp_induct) (auto intro: core_step_ok)
  then show ?thesis using s'(1) by blast
qed

text \<open>
  The updates of one bound connection reach their queue in order as far as it has room; those after that are counted.
\<close>

lemma enqueue_room:
  assumes "queue_ok kProviderQueueCapacity (co_queues c ! slot)" "slot < length (co_queues c)"
    "length (contents kProviderQueueCapacity (co_queues c ! slot)) < kProviderQueueCapacity"
  shows "fst (enqueue_or_overflow c slot m) \<and>
    contents kProviderQueueCapacity (co_queues (snd (enqueue_or_overflow c slot m)) ! slot) =
      contents kProviderQueueCapacity (co_queues c ! slot) @ [m] \<and>
    queue_ok kProviderQueueCapacity (co_queues (snd (enqueue_or_overflow c slot m)) ! slot) \<and>
    length (co_queues (snd (enqueue_or_overflow c slot m))) = length (co_queues c)"
  using assms TryEnqueueBounded_items[OF assms(1), of m]
  by (auto simp: enqueue_or_overflow_def VenueSlotIndex_def Let_def split: prod.split)

lemma enqueue_full:
  assumes "queue_ok kProviderQueueCapacity (co_queues c ! slot)" "slot < length (co_queues c)"
    "\<not> length (contents kProviderQueueCapacity (co_queues c ! slot)) < kProviderQueueCapacity"
  shows "\<not> fst (enqueue_or_overflow c slot m) \<and> co_queues (snd (enqueue_or_overflow c slot m)) = co_queues c"
  using assms TryEnqueueBounded_items(1)[OF assms(1), of m]
  by (auto simp: enqueue_or_overflow_def VenueSlotIndex_def Let_def NoteOverflow_def split: prod.split)

lemma note_overflow: "ig_enqueue_overflow (note_enqueue r s) = (if fst r then ig_enqueue_overflow s else ig_enqueue_overflow s + 1)"
  by (simp add: note_enqueue_def split: prod.split bool.split)

lemma updates_arrive:
  assumes "queue_ok kProviderQueueCapacity (co_queues (ig_core s) ! slot)" "slot < length (co_queues (ig_core s))"
    and "ig_identity_to_slot s identity = Some slot" "ig_running s"
    and "\<forall>u \<in> set us. length (bu_bids u) < 2 ^ 32 \<and> length (bu_asks u) < 2 ^ 32"
  shows "\<exists>s'. Ingress_Run (map (\<lambda>u. (identity, [EncodeBookUpdate padding u])) us) s = Some s' \<and>
    contents kProviderQueueCapacity (co_queues (ig_core s') ! slot) =
      contents kProviderQueueCapacity (co_queues (ig_core s) ! slot) @
      map (\<lambda>u. MsgUpdate (u\<lparr>bu_venue := bu_venue (ig_decode_update s)\<rparr>))
        (take (kProviderQueueCapacity - length (contents kProviderQueueCapacity (co_queues (ig_core s) ! slot))) us) \<and>
    ig_enqueue_overflow s' = ig_enqueue_overflow s +
      of_nat (length us - (kProviderQueueCapacity - length (contents kProviderQueueCapacity (co_queues (ig_core s) ! slot))))"
  using assms
proof (induction us arbitrary: s)
  case (Cons u us)
  let ?v = "u\<lparr>bu_venue := bu_venue (ig_decode_update s)\<rparr>"
  let ?r = "EnqueueUpdate (ig_core s) slot ?v"
  let ?s = "note_enqueue ?r (s\<lparr>ig_decode_update := ?v\<lparr>bu_bids := [], bu_asks := []\<rparr>\<rparr>)"
  let ?c = "\<lambda>s. contents kProviderQueueCapacity (co_queues (ig_core s) ! slot)"
  have ne: "EncodeBookUpdate padding u \<noteq> []" using length_EncodeBookUpdate[of padding u] by auto
  have r: "receive (identity, [EncodeBookUpdate padding u]) s = Some ?s"
    using Cons.prems(3-5) ne handle_update[of u s identity slot padding] by (simp add: receive_def)
  have dv: "bu_venue (ig_decode_update ?s) = bu_venue (ig_decode_update s)" by (simp add: note_enqueue_def split: prod.split bool.split)
  have q: "queue_ok kProviderQueueCapacity (co_queues (ig_core ?s) ! slot)" "slot < length (co_queues (ig_core ?s))"
    "?c ?s = (if length (?c s) < kProviderQueueCapacity then ?c s @ [MsgUpdate ?v] else ?c s)"
    "ig_enqueue_overflow ?s = (if length (?c s) < kProviderQueueCapacity then ig_enqueue_overflow s else ig_enqueue_overflow s + 1)"
    using enqueue_room[OF Cons.prems(1,2), of "MsgUpdate ?v", folded EnqueueUpdate_def]
      enqueue_full[OF Cons.prems(1,2), of "MsgUpdate ?v", folded EnqueueUpdate_def] Cons.prems(1,2)
    by (cases "length (?c s) < kProviderQueueCapacity"; simp add: note_overflow)+
  have bound: "length (?c s) \<le> kProviderQueueCapacity" using Cons.prems(1) by (simp add: queue_ok_def)
  obtain s' where s': "Ingress_Run (map (\<lambda>u. (identity, [EncodeBookUpdate padding u])) us) ?s = Some s'"
    "?c s' = ?c ?s @ map (\<lambda>u. MsgUpdate (u\<lparr>bu_venue := bu_venue (ig_decode_update s)\<rparr>)) (take (kProviderQueueCapacity - length (?c ?s)) us)"
    "ig_enqueue_overflow s' = ig_enqueue_overflow ?s + of_nat (length us - (kProviderQueueCapacity - length (?c ?s)))"
    using Cons.IH[OF q(1,2)] Cons.prems(3-5) dv by auto
  have run: "Ingress_Run (map (\<lambda>u. (identity, [EncodeBookUpdate padding u])) (u # us)) s = Some s'" using r s'(1) by simp
  define a b where "a = ?c s" and "b = ?c ?s"
  note facts = q(3,4)[folded a_def b_def] bound[folded a_def] s'(2,3)[folded b_def]
  have "?c s' = a @ map (\<lambda>u. MsgUpdate (u\<lparr>bu_venue := bu_venue (ig_decode_update s)\<rparr>)) (take (kProviderQueueCapacity - length a) (u # us)) \<and>
      ig_enqueue_overflow s' = ig_enqueue_overflow s + of_nat (length (u # us) - (kProviderQueueCapacity - length a))"
  proof (cases "length a < kProviderQueueCapacity")
    case True
    then have b: "b = a @ [MsgUpdate ?v]" using facts(1) by simp
    then have k: "kProviderQueueCapacity - length a = Suc (kProviderQueueCapacity - length b)" using True by simp
    show ?thesis using facts(4,5) facts(2) True unfolding k by (simp add: b)
  next
    case False
    then have k: "b = a" "kProviderQueueCapacity - length a = 0" using facts(1,3) by simp_all
    show ?thesis using facts(4,5) facts(2) False unfolding k by (simp add: add.assoc)
  qed
  then show ?case using run unfolding a_def by blast
qed simp

text \<open>The venue field, which is not on the wire, is not read when the message is handled: the slot stands for the venue.\<close>

lemma ApplyUpdate_venue: "ApplyUpdate b (u\<lparr>bu_venue := v\<rparr>) = ApplyUpdate b u"
  by (simp add: ApplyUpdate_def)

lemma update_venue_unread: "dispatch slot (MsgUpdate (u\<lparr>bu_venue := v\<rparr>)) c = dispatch slot (MsgUpdate u) c"
proof -
  have i: "bu_instrument (u\<lparr>bu_venue := v\<rparr>) = bu_instrument u" "bu_recv_mono_ns (u\<lparr>bu_venue := v\<rparr>) = bu_recv_mono_ns u" by simp_all
  show ?thesis unfolding dispatch.simps ProcessUpdate_def ApplyUpdate_venue i by (rule refl)
qed

text \<open>
  Two connections of one venue share its slot. The close of the older one removes the venue although the newer one is
  live and stays bound.
\<close>

lemma stale_disconnect:
  assumes "core_ok (ig_core s)" "slot < kMaxVenues" "ig_identity_to_slot s old = Some slot" "ig_identity_to_slot s new = Some slot" "old \<noteq> new"
    and "length (contents kProviderQueueCapacity (co_queues (ig_core s) ! slot)) < kProviderQueueCapacity"
  shows "ig_identity_to_slot (HandleNotify old s) new = Some slot \<and>
    contents kProviderQueueCapacity (co_queues (ig_core (HandleNotify old s)) ! slot) =
      contents kProviderQueueCapacity (co_queues (ig_core s) ! slot) @ [VenueDisconnect]"
proof -
  have l: "slot < length (co_queues (ig_core s))" using core_okD(1)[OF assms(1)] assms(2) by (simp add: shape_ok_def)
  moreover have "queue_ok kProviderQueueCapacity (co_queues (ig_core s) ! slot)"
    using core_okD(2)[OF assms(1)] nth_mem[OF l] by (simp add: queues_ok_def)
  ultimately show ?thesis
    using enqueue_room[of "ig_core s" slot VenueDisconnect] assms(3-6)
    by (simp add: HandleNotify_def EnqueueDisconnect_def Let_def)
qed

text \<open>A hello whose name fills its field without a terminator is read past its end.\<close>

lemma unterminated_hello:
  assumes "length name = kVenueNameCapacity" "0 \<notin> set name"
  shows "HandlePayload identity (AppendPod hello_bytes \<lparr>hp_instrument_packed = k, hp_venue_name = name\<rparr> (WriteHeader kHello [])) s = None"
proof -
  let ?p = "\<lparr>hp_instrument_packed = k, hp_venue_name = name\<rparr>"
  have "ReadPod 20 hello_of (WriteHeader kHello [] @ hello_bytes ?p) 4 = Some (?p, 24)"
    using hello_pod.read_written[where v = ?p and pre = "WriteHeader kHello []" and rest = "[]"] assms(1)
    by (simp add: WriteHeader_bytes(2))
  then have "DecodeHello (WriteHeader kHello [] @ hello_bytes ?p) = OverRead"
    using assms(2) by (simp add: DecodeHello_def read_header)
  then show ?thesis by (simp add: HandlePayload_def AppendPod_def header_decoded)
qed

end
