(* ===== verification/Aggregator_Service.thy ===== *)
theory Aggregator_Service
  imports Md_Core "HOL-Library.AList" "HOL-Library.Sublist" "HOL-Library.Multiset"
begin

text \<open>
  The gRPC service that fans a book out to its clients (src/aggregator/): the conflated channel between a publication and
  a session's handler (conflated_channel.h), the protocol's messages (src/md_proto/aggregator.proto), the translation into them
  (wire_translation.cpp), and the service's state and entry points (aggregator_service.cpp). The session mutex makes a
  publication, a registration and an unregistration one step each; a handler's round is a step by itself. Lemmas: the slot
  yields a subsequence of what was pushed and the last value; the messages shared between sessions are those each session
  would be sent alone; every session's stream stays ordered and wanted under any interleaving of the steps.
\<close>


section \<open>The pending slot (conflated_channel.h)\<close>

text \<open>
  The channel's methods hold its mutex, so each is one step. \<open>WaitAndTake\<close> is the step at which the wait ends, because
  a value is there, the channel is closed, or the time is up.
\<close>

record 'a ConflatedChannel =
  ch_pending :: "'a option"
  ch_closed :: bool

definition new_channel :: "'a ConflatedChannel" where
  "new_channel = \<lparr>ch_pending = None, ch_closed = False\<rparr>"

definition Push :: "'a \<Rightarrow> 'a ConflatedChannel \<Rightarrow> 'a ConflatedChannel" where
  "Push v ch = ch\<lparr>ch_pending := Some v\<rparr>"

definition WaitAndTake :: "'a ConflatedChannel \<Rightarrow> 'a option \<times> 'a ConflatedChannel" where
  "WaitAndTake ch = (case ch_pending ch of None \<Rightarrow> (None, ch) | Some v \<Rightarrow> (Some v, ch\<lparr>ch_pending := None\<rparr>))"

definition Close :: "'a ConflatedChannel \<Rightarrow> 'a ConflatedChannel" where
  "Close ch = ch\<lparr>ch_closed := True\<rparr>"

definition IsClosed :: "'a ConflatedChannel \<Rightarrow> bool" where
  "IsClosed ch = ch_closed ch"

text \<open>What a publisher and a reader rely on: a slot that holds the last value pushed since the last take.\<close>

datatype 'v slot_op = SlotPush 'v | SlotTake

locale latest_slot =
  fixes push :: "'v \<Rightarrow> 'c \<Rightarrow> 'c" and take_out :: "'c \<Rightarrow> 'v option \<times> 'c" and pending :: "'c \<Rightarrow> 'v option"
  assumes pending_push: "pending (push v c) = Some v"
    and take_pending: "fst (take_out c) = pending c"
    and pending_take: "pending (snd (take_out c)) = None"
begin

fun slot_run :: "'v slot_op list \<Rightarrow> 'c \<Rightarrow> 'v list \<times> 'c" where
  "slot_run [] c = ([], c)"
| "slot_run (SlotPush v # ops) c = slot_run ops (push v c)"
| "slot_run (SlotTake # ops) c =
     (let (out, c') = slot_run ops (snd (take_out c)) in ((case fst (take_out c) of None \<Rightarrow> out | Some v \<Rightarrow> v # out), c'))"

lemma taken_subseq: "subseq (fst (slot_run ops c)) ((case pending c of None \<Rightarrow> [] | Some v \<Rightarrow> [v]) @ [v. SlotPush v \<leftarrow> ops])"
proof (induction ops c rule: slot_run.induct)
  case (2 v ops c)
  then show ?case by (simp add: pending_push subseq_append_le_same_iff list_emb_append2 split: option.splits)
next
  case (3 ops c)
  then show ?case by (auto simp: take_pending pending_take Let_def split: option.splits prod.splits)
qed simp

lemma last_pushed:
  assumes "ops = pre @ SlotPush v # replicate n SlotTake" "0 < n"
  shows "\<exists>out. fst (slot_run ops c) = out @ [v]"
proof -
  have fs: "fst (slot_run (SlotTake # ops) c') = (case fst (take_out c') of None \<Rightarrow> fst (slot_run ops (snd (take_out c')))
      | Some v \<Rightarrow> v # fst (slot_run ops (snd (take_out c'))))" for ops c'
    by (simp add: Let_def split: option.splits prod.splits)
  have rest: "fst (slot_run (replicate m SlotTake) c') = (case pending c' of None \<Rightarrow> [] | Some v \<Rightarrow> if m = 0 then [] else [v])" for m c'
    by (induction m arbitrary: c') (simp_all add: fs take_pending pending_take del: slot_run.simps(3) split: option.splits)
  have "\<exists>out. fst (slot_run (pre @ SlotPush v # replicate n SlotTake) c) = out @ [v]"
    by (induction pre c rule: slot_run.induct) (use assms(2) in \<open>auto simp: rest pending_push Let_def split: option.splits prod.splits\<close>)
  then show ?thesis using assms(1) by simp
qed

end

interpretation channel_slot: latest_slot Push WaitAndTake ch_pending
  by unfold_locales (auto simp: Push_def WaitAndTake_def split: option.splits)


section \<open>Messages (aggregator.proto)\<close>

datatype WireVenue = VENUE_UNSPECIFIED | WIRE_BINANCE | WIRE_BYBIT | WIRE_OKX

text \<open>Enumerations of the protocol are open: a client may send a number this build does not know.\<close>

datatype WireMarket = MARKET_UNSPECIFIED | SPOT | FUTURES | WireMarketRaw int

record SubscribeRequest =
  rq_symbol :: string
  rq_bbo :: bool
  rq_volume_bands :: "u64 list option"
  rq_price_bands :: "u32 list option"
  rq_market :: WireMarket

record WireLevel =
  wv_price :: u64
  wv_total_qty :: u64
  wv_venues :: "(WireVenue \<times> u64) list"

record WireBbo =
  wb_best_bid :: WireLevel
  wb_best_ask :: WireLevel
  wb_crossed :: bool

record VolumeBandResult =
  vr_notional_threshold :: u64
  vr_vwap :: u64
  vr_worst_price :: u64
  vr_filled_notional :: u64
  vr_filled_qty :: u64
  vr_insufficient_depth :: bool
  vr_level_count :: u32

record VolumeBands =
  vb_bid_bands :: "VolumeBandResult list"
  vb_ask_bands :: "VolumeBandResult list"
  vb_best_bid :: u64
  vb_best_ask :: u64

record PriceBandResult =
  pr_bps_threshold :: u32
  pr_cum_qty :: u64
  pr_cum_notional :: u64
  pr_vwap :: u64
  pr_level_count :: u32
  pr_limit_price :: u64
  pr_insufficient_depth :: bool

record PriceBands =
  pb_bid_bands :: "PriceBandResult list"
  pb_ask_bands :: "PriceBandResult list"

datatype Payload = PAYLOAD_NOT_SET | PayloadBbo WireBbo | PayloadVolumeBands VolumeBands | PayloadPriceBands PriceBands

text \<open>The field for the venues' status exists in the protocol and is never filled.\<close>

record Update =
  up_seq :: u64
  up_server_ts_ns :: u64
  up_symbol :: string
  up_price_scale :: u32
  up_qty_scale :: u32
  up_market :: WireMarket
  up_payload :: Payload

section \<open>Translation (wire_translation.cpp)\<close>

fun ToWire_venue :: "VenueId \<Rightarrow> WireVenue" where
  "ToWire_venue BINANCE = WIRE_BINANCE"
| "ToWire_venue BYBIT = WIRE_BYBIT"
| "ToWire_venue OKX = WIRE_OKX"
| "ToWire_venue COUNT = VENUE_UNSPECIFIED"

fun ToWire_market :: "MarketType \<Rightarrow> WireMarket" where
  "ToWire_market kSpot = SPOT"
| "ToWire_market kFutures = FUTURES"
| "ToWire_market (MarketRaw b) = MARKET_UNSPECIFIED"

definition FromWire :: "WireMarket \<Rightarrow> MarketType option" where
  "FromWire market = (case market of SPOT \<Rightarrow> Some kSpot | FUTURES \<Rightarrow> Some kFutures | _ \<Rightarrow> None)"

type_synonym VenueWireTable = "WireVenue list"

definition MakeVenueWireTable :: "(VenueSlot \<Rightarrow> string) \<Rightarrow> VenueWireTable" where
  "MakeVenueWireTable venue_name =
     map (\<lambda>i. if venue_name i = [] then VENUE_UNSPECIFIED else ToWire_venue (ToVenueId (venue_name i))) [0..<kMaxVenues]"

definition ToWire_level :: "ConsolidatedPriceLevel \<Rightarrow> VenueWireTable \<Rightarrow> WireLevel" where
  "ToWire_level level venues =
     \<lparr>wv_price = cl_price level, wv_total_qty = cl_total_qty level,
      wv_venues = map (\<lambda>q. (venues ! VenueSlotIndex (vq_slot q), vq_qty q)) (cl_venues level)\<rparr>"

definition ToWire_bbo :: "BBO \<Rightarrow> VenueWireTable \<Rightarrow> WireBbo" where
  "ToWire_bbo bbo venues =
     \<lparr>wb_best_bid = ToWire_level (best_bid bbo) venues, wb_best_ask = ToWire_level (best_ask bbo) venues, wb_crossed = crossed bbo\<rparr>"

definition ToWire_volume :: "NotionalFill \<Rightarrow> u64 \<Rightarrow> VolumeBandResult" where
  "ToWire_volume fill notional_threshold =
     \<lparr>vr_notional_threshold = notional_threshold, vr_vwap = nf_vwap fill, vr_worst_price = nf_worst_price fill,
      vr_filled_notional = nf_filled_notional fill, vr_filled_qty = nf_filled_qty fill,
      vr_insufficient_depth = nf_insufficient_depth fill, vr_level_count = nf_level_count fill\<rparr>"

definition ToWire_price :: "BpsFill \<Rightarrow> u32 \<Rightarrow> PriceBandResult" where
  "ToWire_price fill bps_threshold =
     \<lparr>pr_bps_threshold = bps_threshold, pr_cum_qty = bf_cum_qty fill, pr_cum_notional = bf_cum_notional fill,
      pr_vwap = bf_vwap fill, pr_level_count = bf_level_count fill, pr_limit_price = bf_limit_price fill,
      pr_insufficient_depth = bf_insufficient_depth fill\<rparr>"

lemma market_roundtrip: "m = kSpot \<or> m = kFutures \<longleftrightarrow> FromWire (ToWire_market m) = Some m"
  by (cases m) (simp_all add: FromWire_def)

section \<open>Sessions (aggregator_service.cpp)\<close>

record Subscription =
  sb_channel :: "Update ConflatedChannel"
  sb_instrument :: InstrumentKey
  sb_wants_bbo :: bool
  sb_wants_volume_bands :: bool
  sb_wants_price_bands :: bool
  sb_notional_bands :: "u64 list"
  sb_bps_bands :: "u32 list"
  sb_next_seq :: u64

text \<open>
  The session map is kept in the order the code's loops meet its entries. \<open>sv_written\<close> is what the handlers wrote to
  their clients, each update with its session.
\<close>

record Service =
  sv_venue_wire_table :: VenueWireTable
  sv_sessions :: "(u64 \<times> Subscription) list"
  sv_next_session_id :: u64
  sv_written :: "(u64 \<times> Update) list"

definition new_service :: Service where
  "new_service = \<lparr>sv_venue_wire_table = replicate kMaxVenues VENUE_UNSPECIFIED, sv_sessions = [], sv_next_session_id = 1, sv_written = []\<rparr>"

definition SetVenueWireTable :: "VenueWireTable \<Rightarrow> Service \<Rightarrow> Service" where
  "SetVenueWireTable venues s = s\<lparr>sv_venue_wire_table := venues\<rparr>"

definition kMillion :: u64 where "kMillion = 1000000 * kScaleFactor"
definition kDefaultNotionalBands :: "u64 list" where "kDefaultNotionalBands = [1 * kMillion]"
definition kDefaultBpsBands :: "u32 list" where "kDefaultBpsBands = [500]"

definition FillHeader :: "i64 \<Rightarrow> InstrumentKey \<Rightarrow> Update \<Rightarrow> Update" where
  "FillHeader now_ns instrument update =
     update\<lparr>up_server_ts_ns := now_ns, up_symbol := ToInstrumentString (Symbol instrument),
       up_market := ToWire_market (Market instrument), up_price_scale := kScaleExponent, up_qty_scale := kScaleExponent\<rparr>"

definition empty_Update :: Update where
  "empty_Update = \<lparr>up_seq = 0, up_server_ts_ns = 0, up_symbol = [], up_price_scale = 0, up_qty_scale = 0,
     up_market = MARKET_UNSPECIFIED, up_payload = PAYLOAD_NOT_SET\<rparr>"

definition RegisterSession :: "Subscription \<Rightarrow> Service \<Rightarrow> u64 \<times> Service" where
  "RegisterSession subscription s =
     (let i = sv_next_session_id s
      in (i, s\<lparr>sv_next_session_id := i + 1, sv_sessions := AList.update i subscription (sv_sessions s)\<rparr>))"

definition UnregisterSession :: "u64 \<Rightarrow> Service \<Rightarrow> Service" where
  "UnregisterSession session_id s = s\<lparr>sv_sessions := AList.delete session_id (sv_sessions s)\<rparr>"

datatype SubscribeError = UnknownSymbol | BadMarket | NoFeeds

text \<open>The part of \<^verbatim>\<open>Subscribe\<close> before its read loop: the request is rejected, or a session is registered.\<close>

definition Subscribe :: "SubscribeRequest \<Rightarrow> Service \<Rightarrow> SubscribeError + u64 \<times> Service" where
  "Subscribe request s =
     (case ToInstrumentId (rq_symbol request) of
        None \<Rightarrow> Inl UnknownSymbol
      | Some instrument \<Rightarrow>
          (case FromWire (rq_market request) of
             None \<Rightarrow> Inl BadMarket
           | Some market \<Rightarrow>
               if \<not> rq_bbo request \<and> rq_volume_bands request = None \<and> rq_price_bands request = None then Inl NoFeeds
               else Inr (RegisterSession
                      \<lparr>sb_channel = new_channel, sb_instrument = MakeKey instrument market, sb_wants_bbo = rq_bbo request,
                       sb_wants_volume_bands = (rq_volume_bands request \<noteq> None),
                       sb_wants_price_bands = (rq_price_bands request \<noteq> None),
                       sb_notional_bands = (case rq_volume_bands request of
                          None \<Rightarrow> [] | Some bands \<Rightarrow> sort (if bands = [] then kDefaultNotionalBands else bands)),
                       sb_bps_bands = (case rq_price_bands request of
                          None \<Rightarrow> [] | Some bands \<Rightarrow> sort (if bands = [] then kDefaultBpsBands else bands)),
                       sb_next_seq = 0\<rparr> s)))"

text \<open>
  One round of the read loop of a session: the handler ends because its client has cancelled, the channel is closed or
  a write fails, and then unregisters. The first result says whether it goes on.
\<close>

definition handler_round :: "bool \<Rightarrow> bool \<Rightarrow> u64 \<Rightarrow> Service \<Rightarrow> bool \<times> Service" where
  "handler_round cancelled write_ok session_id s =
     (case map_of (sv_sessions s) session_id of
        None \<Rightarrow> (False, s)
      | Some sub \<Rightarrow>
          if cancelled then (False, UnregisterSession session_id s)
          else case WaitAndTake (sb_channel sub) of
                 (None, ch) \<Rightarrow> if IsClosed ch then (False, UnregisterSession session_id s) else (True, s)
               | (Some update, ch) \<Rightarrow>
                   (let s = s\<lparr>sv_sessions := AList.update session_id (sub\<lparr>sb_channel := ch\<rparr>) (sv_sessions s)\<rparr>
                    in if write_ok then (True, s\<lparr>sv_written := sv_written s @ [(session_id, update)]\<rparr>)
                       else (False, UnregisterSession session_id s)))"

definition push_update :: "Update \<Rightarrow> Subscription \<Rightarrow> Subscription" where
  "push_update update sub =
     sub\<lparr>sb_channel := Push (update\<lparr>up_seq := sb_next_seq sub\<rparr>) (sb_channel sub), sb_next_seq := sb_next_seq sub + 1\<rparr>"

definition PublishBbo :: "i64 \<Rightarrow> InstrumentKey \<Rightarrow> BBO \<Rightarrow> Service \<Rightarrow> Service" where
  "PublishBbo now_ns instrument bbo s =
     (let update = (FillHeader now_ns instrument empty_Update)\<lparr>up_payload := PayloadBbo (ToWire_bbo bbo (sv_venue_wire_table s))\<rparr>
      in s\<lparr>sv_sessions :=
             map (\<lambda>(i, sub). (i, if sb_instrument sub \<noteq> instrument then sub
                                  else if \<not> sb_wants_bbo sub then sub else push_update update sub)) (sv_sessions s)\<rparr>)"

definition capped :: "MergedLevel list \<Rightarrow> MergedLevel list" where
  "capped side = take (min (length side) kDefaultMaxDepth) side"

definition top_price :: "MergedLevel list \<Rightarrow> u64" where
  "top_price side = (if side = [] then 0 else ml_price (hd side))"

definition volume_bands_update :: "i64 \<Rightarrow> InstrumentKey \<Rightarrow> MergedLevel list \<Rightarrow> MergedLevel list \<Rightarrow> u64 list \<Rightarrow> Update" where
  "volume_bands_update now_ns instrument bids asks thresholds =
     (let bid_fills = FillToNotionalBands bids thresholds; ask_fills = FillToNotionalBands asks thresholds
      in (FillHeader now_ns instrument empty_Update)\<lparr>up_payload := PayloadVolumeBands
           \<lparr>vb_bid_bands = map (\<lambda>i. ToWire_volume (bid_fills ! i) (thresholds ! i)) [0..<length thresholds],
            vb_ask_bands = map (\<lambda>i. ToWire_volume (ask_fills ! i) (thresholds ! i)) [0..<length thresholds],
            vb_best_bid = top_price bids, vb_best_ask = top_price asks\<rparr>\<rparr>)"

definition price_bands_update :: "i64 \<Rightarrow> InstrumentKey \<Rightarrow> MergedLevel list \<Rightarrow> MergedLevel list \<Rightarrow> u32 list \<Rightarrow> Update" where
  "price_bands_update now_ns instrument bids asks thresholds =
     (let bid_bps = FillToBpsBands bids thresholds True; ask_bps = FillToBpsBands asks thresholds False
      in (FillHeader now_ns instrument empty_Update)\<lparr>up_payload := PayloadPriceBands
           \<lparr>pb_bid_bands = map (\<lambda>i. ToWire_price (bid_bps ! i) (thresholds ! i)) [0..<length thresholds],
            pb_ask_bands = map (\<lambda>i. ToWire_price (ask_bps ! i) (thresholds ! i)) [0..<length thresholds]\<rparr>\<rparr>)"

text \<open>
  The messages built so far, keyed by their thresholds. Looking one up builds it if it is missing; then the session's
  sequence number is written into the shared message and a copy is pushed. \<open>clk k\<close> is the wall clock when the
  \<open>k\<close>-th message is built.
\<close>

type_synonym 'a memo = "('a list \<times> Update) list"

fun memo_index :: "'a list \<Rightarrow> 'a memo \<Rightarrow> nat option" where
  "memo_index thresholds [] = None"
| "memo_index thresholds ((t, u) # memo) =
     (if t = thresholds then Some 0 else map_option Suc (memo_index thresholds memo))"

definition memo_message :: "('a list \<Rightarrow> Update) \<Rightarrow> 'a list \<Rightarrow> 'a memo \<Rightarrow> nat \<times> 'a memo" where
  "memo_message build thresholds memo =
     (case memo_index thresholds memo of
        Some i \<Rightarrow> (i, memo)
      | None \<Rightarrow> (length memo, memo @ [(thresholds, build thresholds)]))"

definition send_memo :: "('a list \<Rightarrow> Update) \<Rightarrow> 'a list \<Rightarrow> 'a memo \<Rightarrow> Subscription \<Rightarrow> 'a memo \<times> Subscription" where
  "send_memo build thresholds memo sub =
     (let (i, memo) = memo_message build thresholds memo;
          memo = memo[i := (fst (memo ! i), (snd (memo ! i))\<lparr>up_seq := sb_next_seq sub\<rparr>)]
      in (memo, sub\<lparr>sb_next_seq := sb_next_seq sub + 1, sb_channel := Push (snd (memo ! i)) (sb_channel sub)\<rparr>))"

fun publish_loop ::
  "(nat \<Rightarrow> i64) \<Rightarrow> InstrumentKey \<Rightarrow> MergedLevel list \<Rightarrow> MergedLevel list \<Rightarrow> u64 memo \<Rightarrow> u32 memo \<Rightarrow>
   (u64 \<times> Subscription) list \<Rightarrow> (u64 \<times> Subscription) list" where
  "publish_loop clk instrument bids asks volume_memo price_memo [] = []"
| "publish_loop clk instrument bids asks volume_memo price_memo ((i, sub) # rest) =
     (if sb_instrument sub \<noteq> instrument then (i, sub) # publish_loop clk instrument bids asks volume_memo price_memo rest
      else let now = clk (length volume_memo + length price_memo);
               (volume_memo, sub) = (if sb_wants_volume_bands sub
                  then send_memo (volume_bands_update now instrument bids asks) (sb_notional_bands sub) volume_memo sub
                  else (volume_memo, sub));
               now = clk (length volume_memo + length price_memo);
               (price_memo, sub) = (if sb_wants_price_bands sub
                  then send_memo (price_bands_update now instrument bids asks) (sb_bps_bands sub) price_memo sub
                  else (price_memo, sub))
           in (i, sub) # publish_loop clk instrument bids asks volume_memo price_memo rest)"

definition PublishBook :: "(nat \<Rightarrow> i64) \<Rightarrow> InstrumentKey \<Rightarrow> Book \<Rightarrow> Service \<Rightarrow> Service" where
  "PublishBook clk instrument book s =
     s\<lparr>sv_sessions := publish_loop clk instrument (capped (bk_bids book)) (capped (bk_asks book)) [] [] (sv_sessions s)\<rparr>"


section \<open>The shared messages\<close>

text \<open>What one session would be sent if every message were built for it alone; the stamps are the clock's.\<close>

definition volume_bands_of :: "MergedLevel list \<Rightarrow> MergedLevel list \<Rightarrow> u64 list \<Rightarrow> Payload" where
  "volume_bands_of bids asks thresholds = PayloadVolumeBands
     \<lparr>vb_bid_bands = map (\<lambda>t. ToWire_volume (FillToNotional bids t) t) thresholds,
      vb_ask_bands = map (\<lambda>t. ToWire_volume (FillToNotional asks t) t) thresholds,
      vb_best_bid = top_price bids, vb_best_ask = top_price asks\<rparr>"

definition price_bands_of :: "MergedLevel list \<Rightarrow> MergedLevel list \<Rightarrow> u32 list \<Rightarrow> Payload" where
  "price_bands_of bids asks thresholds = PayloadPriceBands
     \<lparr>pb_bid_bands = map (\<lambda>t. ToWire_price (FillToBps bids t True) t) thresholds,
      pb_ask_bands = map (\<lambda>t. ToWire_price (FillToBps asks t False) t) thresholds\<rparr>"

definition stamped_update :: "i64 \<Rightarrow> InstrumentKey \<Rightarrow> Payload \<Rightarrow> Update" where
  "stamped_update now_ns instrument payload = (FillHeader now_ns instrument empty_Update)\<lparr>up_payload := payload\<rparr>"

lemma map_nth_pairs: "length ys = length xs \<Longrightarrow> map (\<lambda>i. f (ys ! i) (xs ! i)) [0..<length xs] = map2 f ys xs"
  by (rule nth_equalityI) simp_all

lemma map2_map_self: "map2 f (map g xs) xs = map (\<lambda>x. f (g x) x) xs"
  by (induction xs) simp_all

lemma volume_update_direct:
  assumes "sorted thresholds"
  shows "volume_bands_update now k bids asks thresholds = stamped_update now k (volume_bands_of bids asks thresholds)"
  by (simp add: volume_bands_update_def stamped_update_def volume_bands_of_def FillToNotionalBands_map[OF assms] Let_def
      map_nth_pairs[where ys = "map _ thresholds"] map2_map_self)

lemma price_update_direct:
  assumes "sorted thresholds" "\<forall>b \<in> set thresholds. asks \<noteq> [] \<longrightarrow> bps_fits (ml_price (hd asks)) False b"
  shows "price_bands_update now k bids asks thresholds = stamped_update now k (price_bands_of bids asks thresholds)"
proof -
  have "FillToBpsBands bids thresholds True = map (\<lambda>bps. FillToBps bids bps True) thresholds"
    using FillToBpsBands_map[OF assms(1), of bids True] by (simp add: bps_fits_def)
  then show ?thesis
    by (simp add: price_bands_update_def stamped_update_def price_bands_of_def FillToBpsBands_map[OF assms(1), of asks False] assms(2) Let_def
        map_nth_pairs[where ys = "map _ thresholds"] map2_map_self)
qed

text \<open>The shared messages are those of the thresholds they are filed under.\<close>

definition memo_ok :: "(i64 \<Rightarrow> 'a list \<Rightarrow> Update) \<Rightarrow> 'a memo \<Rightarrow> bool" where
  "memo_ok build memo \<longleftrightarrow> (\<forall>(th, u) \<in> set memo. \<exists>t q. u = (build t th)\<lparr>up_seq := q\<rparr>)"

lemma memo_index_Some: "memo_index th memo = Some i \<Longrightarrow> i < length memo \<and> fst (memo ! i) = th"
  by (induction th memo arbitrary: i rule: memo_index.induct) (auto split: if_splits)

lemma send_memo_spec:
  assumes "memo_ok build memo" "send_memo (build now) th memo sub = (memo', sub')"
  shows "memo_ok build memo' \<and> (\<exists>t. sub' = push_update (build t th) sub)"
proof -
  obtain i m where m: "memo_message (build now) th memo = (i, m)" by force
  have m1: "i < length m" "fst (m ! i) = th" "memo_ok build m"
  proof -
    have n: "\<exists>t q. build now th = (build t th)\<lparr>up_seq := q\<rparr>" by (rule exI[of _ now], rule exI[of _ "up_seq (build now th)"]) simp
    show "i < length m" "fst (m ! i) = th" using m memo_index_Some[of th memo]
      by (auto simp: memo_message_def split: option.splits)
    have "memo_ok build (memo @ [(th, build now th)])" unfolding memo_ok_def set_append ball_Un
      using assms(1)[unfolded memo_ok_def] n by simp
    then show "memo_ok build m" using m assms(1) by (auto simp: memo_message_def split: option.splits)
  qed
  have "m ! i \<in> set m" using m1(1) by simp
  then obtain t q where u: "snd (m ! i) = (build t th)\<lparr>up_seq := q\<rparr>" using m1(2,3) by (fastforce simp: memo_ok_def)
  have memo': "memo' = m[i := (th, (build t th)\<lparr>up_seq := sb_next_seq sub\<rparr>)]"
    and sub': "sub' = push_update (build t th) sub"
    using assms(2) m1(1,2) u by (auto simp: send_memo_def m Let_def push_update_def)
  have "memo_ok build memo'" unfolding memo' memo_ok_def
    using m1(3) by (auto simp: memo_ok_def dest!: mem_updateD)
  then show ?thesis using sub' by blast
qed

definition published :: "InstrumentKey \<Rightarrow> MergedLevel list \<Rightarrow> MergedLevel list \<Rightarrow> Subscription \<Rightarrow> Subscription \<Rightarrow> bool" where
  "published k bids asks sub sub' \<longleftrightarrow>
     (if sb_instrument sub \<noteq> k then sub' = sub
      else \<exists>t t'. let sub1 = (if sb_wants_volume_bands sub then push_update (volume_bands_update t k bids asks (sb_notional_bands sub)) sub else sub)
           in sub' = (if sb_wants_price_bands sub1 then push_update (price_bands_update t' k bids asks (sb_bps_bands sub1)) sub1 else sub1))"

lemma publish_loop_published:
  assumes "memo_ok (\<lambda>t. volume_bands_update t k bids asks) vm" "memo_ok (\<lambda>t. price_bands_update t k bids asks) pm"
  shows "list_all2 (\<lambda>(i, sub) (j, sub'). i = j \<and> published k bids asks sub sub') ss (publish_loop clk k bids asks vm pm ss)"
  using assms
proof (induction ss arbitrary: vm pm)
  case (Cons s ss)
  obtain i sub where s: "s = (i, sub)" by force
  show ?case
  proof (cases "sb_instrument sub = k")
    case False
    then show ?thesis using Cons by (simp add: s published_def)
  next
    case True
    let ?now = "clk (length vm + length pm)"
    obtain vm' sub1 where 1: "(if sb_wants_volume_bands sub
      then send_memo (volume_bands_update ?now k bids asks) (sb_notional_bands sub) vm sub else (vm, sub)) = (vm', sub1)" by force
    have v: "memo_ok (\<lambda>t. volume_bands_update t k bids asks) vm' \<and>
      (\<exists>t. sub1 = (if sb_wants_volume_bands sub then push_update (volume_bands_update t k bids asks (sb_notional_bands sub)) sub else sub))"
      using 1 Cons.prems(1) send_memo_spec[OF Cons.prems(1), of ?now "sb_notional_bands sub" sub vm' sub1] by (auto split: if_splits)
    let ?now' = "clk (length vm' + length pm)"
    obtain pm' sub2 where 2: "(if sb_wants_price_bands sub1
      then send_memo (price_bands_update ?now' k bids asks) (sb_bps_bands sub1) pm sub1 else (pm, sub1)) = (pm', sub2)" by force
    have p: "memo_ok (\<lambda>t. price_bands_update t k bids asks) pm' \<and>
      (\<exists>t. sub2 = (if sb_wants_price_bands sub1 then push_update (price_bands_update t k bids asks (sb_bps_bands sub1)) sub1 else sub1))"
      using 2 Cons.prems(2) send_memo_spec[OF Cons.prems(2), of ?now' "sb_bps_bands sub1" sub1 pm' sub2] by (auto split: if_splits)
    have "published k bids asks sub sub2" using v p True unfolding published_def Let_def by (auto simp only: simp_thms if_False)
    moreover have "publish_loop clk k bids asks vm pm (s # ss) = (i, sub2) # publish_loop clk k bids asks vm' pm' ss"
      using True 1 2 by (simp add: s Let_def)
    ultimately show ?thesis using Cons.IH[of vm' pm'] v p by (simp add: s)
  qed
qed simp

lemma PublishBook_published:
  "list_all2 (\<lambda>(i, sub) (j, sub'). i = j \<and> published k (capped (bk_bids book)) (capped (bk_asks book)) sub sub')
     (sv_sessions s) (sv_sessions (PublishBook clk k book s))"
  unfolding PublishBook_def Service.select_convs Service.update_convs
  by (simp add: publish_loop_published memo_ok_def)

lemma push_update_frame [simp]:
  "sb_instrument (push_update u sub) = sb_instrument sub" "sb_wants_bbo (push_update u sub) = sb_wants_bbo sub"
  "sb_wants_volume_bands (push_update u sub) = sb_wants_volume_bands sub" "sb_wants_price_bands (push_update u sub) = sb_wants_price_bands sub"
  "sb_notional_bands (push_update u sub) = sb_notional_bands sub" "sb_bps_bands (push_update u sub) = sb_bps_bands sub"
  "sb_next_seq (push_update u sub) = sb_next_seq sub + 1"
  "ch_pending (sb_channel (push_update u sub)) = Some (u\<lparr>up_seq := sb_next_seq sub\<rparr>)"
  by (simp_all add: push_update_def Push_def)


section \<open>What a client sees\<close>

text \<open>The updates written to one session's client.\<close>

definition stream :: "u64 \<Rightarrow> Service \<Rightarrow> Update list" where
  "stream i s = map snd (filter (\<lambda>w. fst w = i) (sv_written s))"

text \<open>An update belongs to a session: it carries the session's symbol and market and a feed the session asked for.\<close>

fun wanted_payload :: "Subscription \<Rightarrow> Payload \<Rightarrow> bool" where
  "wanted_payload sub PAYLOAD_NOT_SET = False"
| "wanted_payload sub (PayloadBbo _) = sb_wants_bbo sub"
| "wanted_payload sub (PayloadVolumeBands _) = sb_wants_volume_bands sub"
| "wanted_payload sub (PayloadPriceBands _) = sb_wants_price_bands sub"

definition wanted :: "Subscription \<Rightarrow> Update \<Rightarrow> bool" where
  "wanted sub u \<longleftrightarrow> up_symbol u = ToInstrumentString (Symbol (sb_instrument sub)) \<and>
     up_market u = ToWire_market (Market (sb_instrument sub)) \<and> wanted_payload sub (up_payload u)"

text \<open>
  One session with the updates it has been sent so far: their numbers ascend, the pending update comes after them, and
  the next number after that; all of them are wanted, and the thresholds ascend.
\<close>

definition session_ok :: "Subscription \<Rightarrow> Update list \<Rightarrow> bool" where
  "session_ok sub us \<longleftrightarrow>
     sorted_wrt (<) (map up_seq us @ (case ch_pending (sb_channel sub) of None \<Rightarrow> [] | Some u \<Rightarrow> [up_seq u])) \<and>
     (\<forall>u \<in> set us \<union> set_option (ch_pending (sb_channel sub)). up_seq u < sb_next_seq sub \<and> wanted sub u) \<and>
     sorted (sb_notional_bands sub) \<and> sorted (sb_bps_bands sub)"

lemma session_push:
  assumes "session_ok sub us" "wanted sub (u\<lparr>up_seq := sb_next_seq sub\<rparr>)" "unat (sb_next_seq sub) + 1 < 2 ^ 64"
  shows "session_ok (push_update u sub) us"
proof -
  have n: "unat (sb_next_seq sub + 1) = unat (sb_next_seq sub) + 1" using assms(3) by (rule unat_succ)
  then have lt: "v < sb_next_seq sub + 1 \<longleftrightarrow> v \<le> sb_next_seq sub" for v by (simp add: word_less_nat_alt word_le_nat_alt less_Suc_eq_le)
  have w: "wanted (push_update u sub) v = wanted sub v" for v
    by (cases "up_payload v") (simp_all add: wanted_def)
  show ?thesis using assms(1,2) unfolding session_ok_def
    by (auto simp: w lt sorted_wrt_append order.strict_implies_order)
qed

lemma session_take:
  assumes "session_ok sub us" "ch_pending (sb_channel sub) = Some u"
  shows "session_ok (sub\<lparr>sb_channel := (sb_channel sub)\<lparr>ch_pending := None\<rparr>\<rparr>) (us @ [u])"
proof -
  have w: "wanted (sub\<lparr>sb_channel := ch\<rparr>) v = wanted sub v" for v ch by (cases "up_payload v") (simp_all add: wanted_def)
  show ?thesis using assms unfolding session_ok_def by (auto simp: w)
qed

lemma wanted_update:
  "up_symbol (stamped_update t k p) = ToInstrumentString (Symbol k)" "up_market (stamped_update t k p) = ToWire_market (Market k)"
  "up_payload (stamped_update t k p) = p"
  by (simp_all add: stamped_update_def FillHeader_def)

lemma built_updates:
  "\<exists>v. volume_bands_update t k bids asks th = stamped_update t k (PayloadVolumeBands v)"
  "\<exists>v. price_bands_update t k bids asks bps = stamped_update t k (PayloadPriceBands v)"
  by (auto simp: volume_bands_update_def price_bands_update_def stamped_update_def Let_def)

lemma wanted_built:
  "sb_wants_volume_bands sub \<Longrightarrow> sb_instrument sub = k \<Longrightarrow> wanted sub ((volume_bands_update t k bids asks th)\<lparr>up_seq := q\<rparr>)"
  "sb_wants_price_bands sub \<Longrightarrow> sb_instrument sub = k \<Longrightarrow> wanted sub ((price_bands_update t k bids asks bps)\<lparr>up_seq := q\<rparr>)"
proof -
  obtain v w where v: "volume_bands_update t k bids asks th = stamped_update t k (PayloadVolumeBands v)"
    "price_bands_update t k bids asks bps = stamped_update t k (PayloadPriceBands w)" using built_updates by metis
  show "sb_wants_volume_bands sub \<Longrightarrow> sb_instrument sub = k \<Longrightarrow> wanted sub ((volume_bands_update t k bids asks th)\<lparr>up_seq := q\<rparr>)"
    "sb_wants_price_bands sub \<Longrightarrow> sb_instrument sub = k \<Longrightarrow> wanted sub ((price_bands_update t k bids asks bps)\<lparr>up_seq := q\<rparr>)"
    by (simp_all add: wanted_def v wanted_update)
qed

lemma published_ok:
  assumes "published k bids asks sub sub'" "session_ok sub us" "unat (sb_next_seq sub) + 2 < 2 ^ 64"
  shows "session_ok sub' us"
proof (cases "sb_instrument sub = k")
  case True
  obtain t t' sub1 where 1: "sub1 = (if sb_wants_volume_bands sub then push_update (volume_bands_update t k bids asks (sb_notional_bands sub)) sub else sub)"
    and 2: "sub' = (if sb_wants_price_bands sub1 then push_update (price_bands_update t' k bids asks (sb_bps_bands sub1)) sub1 else sub1)"
    using assms(1) True unfolding published_def Let_def by auto
  have s1: "session_ok sub1 us" using 1 assms(2,3) session_push[OF assms(2)] wanted_built(1) True by auto
  have "unat (sb_next_seq sub + 1) = unat (sb_next_seq sub) + 1" using assms(3) by (intro unat_succ) simp
  then have "unat (sb_next_seq sub1) + 1 < 2 ^ 64" using 1 assms(3) by auto
  moreover have "sb_instrument sub1 = k" using 1 True by simp
  ultimately show ?thesis using 2 session_push[OF s1] s1 wanted_built(2) by auto
qed (use assms in \<open>simp add: published_def\<close>)

section \<open>Executions\<close>

definition service_ok :: "Service \<Rightarrow> bool" where
  "service_ok s \<longleftrightarrow> distinct (map fst (sv_sessions s)) \<and>
     (\<forall>(i, sub) \<in> set (sv_sessions s). i < sv_next_session_id s \<and> session_ok sub (stream i s)) \<and>
     (\<forall>i. sorted_wrt (<) (map up_seq (stream i s))) \<and>
     (\<forall>i. sv_next_session_id s \<le> i \<longrightarrow> stream i s = [])"

text \<open>The updates a publication builds for a session.\<close>

inductive built_for :: "Subscription \<Rightarrow> Update \<Rightarrow> bool" for sub where
  built_bbo: "sb_wants_bbo sub \<Longrightarrow> built_for sub (stamped_update t (sb_instrument sub) (PayloadBbo (ToWire_bbo bbo table)))"
| built_volume: "sb_wants_volume_bands sub \<Longrightarrow> built_for sub (volume_bands_update t (sb_instrument sub) bids asks (sb_notional_bands sub))"
| built_price: "sb_wants_price_bands sub \<Longrightarrow> built_for sub (price_bands_update t (sb_instrument sub) bids asks (sb_bps_bands sub))"

lemma built_wanted: "built_for sub u \<Longrightarrow> wanted sub (u\<lparr>up_seq := q\<rparr>)"
proof (induction rule: built_for.induct)
  case built_bbo
  then show ?case by (simp add: wanted_def wanted_update)
qed (simp_all add: wanted_built)

text \<open>
  The entry points in any order and from any thread: each holds the session mutex. A handler takes from its channel
  under the channel's mutex alone, so it may run between two pushes of one publication: \<open>service_push\<close> is one such push
  by itself. No 64-bit counter runs out.
\<close>

definition room :: "Service \<Rightarrow> bool" where
  "room s \<longleftrightarrow> unat (sv_next_session_id s) + 1 < 2 ^ 64 \<and> (\<forall>(i, sub) \<in> set (sv_sessions s). unat (sb_next_seq sub) + 2 < 2 ^ 64)"

inductive service_step :: "Service \<Rightarrow> Service \<Rightarrow> bool" where
  service_subscribe: "room s \<Longrightarrow> Subscribe request s = Inr (i, s') \<Longrightarrow> service_step s s'"
| service_round: "service_step s (snd (handler_round cancelled write_ok i s))"
| service_bbo: "room s \<Longrightarrow> service_step s (PublishBbo now_ns k bbo s)"
| service_book: "room s \<Longrightarrow> service_step s (PublishBook clk k book s)"
| service_push: "room s \<Longrightarrow> map_of (sv_sessions s) i = Some sub \<Longrightarrow> built_for sub u \<Longrightarrow>
    service_step s (s\<lparr>sv_sessions := AList.update i (push_update u sub) (sv_sessions s)\<rparr>)"
| service_table: "service_step s (SetVenueWireTable table s)"

definition service_reachable :: "Service \<Rightarrow> bool" where
  "service_reachable s \<longleftrightarrow> service_step\<^sup>*\<^sup>* new_service s"

lemma stream_frame: "sv_written s' = sv_written s \<Longrightarrow> stream i s' = stream i s"
  by (simp add: stream_def)

lemma service_okD:
  assumes "service_ok s"
  shows "distinct (map fst (sv_sessions s))" "(i, sub) \<in> set (sv_sessions s) \<Longrightarrow> i < sv_next_session_id s \<and> session_ok sub (stream i s)"
    "sorted_wrt (<) (map up_seq (stream i s))" "sv_next_session_id s \<le> i \<Longrightarrow> stream i s = []"
  using assms by (auto simp: service_ok_def)

lemma Unregister_ok: "service_ok s \<Longrightarrow> service_ok (UnregisterSession i s)"
proof -
  assume ok: "service_ok s"
  have st: "stream j (UnregisterSession i s) = stream j s" for j by (simp add: stream_def UnregisterSession_def)
  have "set (AList.delete i (sv_sessions s)) \<subseteq> set (sv_sessions s)" by (auto simp: AList.delete_eq)
  then show ?thesis using ok unfolding service_ok_def st
    by (auto simp: UnregisterSession_def AList.distinct_delete)
qed

lemma sessions_map_ok:
  assumes "service_ok s" "list_all2 (\<lambda>(i, sub) (j, sub'). i = j \<and> (session_ok sub (stream i s) \<longrightarrow> session_ok sub' (stream i s))) (sv_sessions s) ss"
  shows "service_ok (s\<lparr>sv_sessions := ss\<rparr>)"
proof -
  have l: "length ss = length (sv_sessions s)" using assms(2) list_all2_lengthD by fastforce
  have nth: "fst (ss ! n) = fst (sv_sessions s ! n) \<and>
      (session_ok (snd (sv_sessions s ! n)) (stream (fst (ss ! n)) s) \<longrightarrow> session_ok (snd (ss ! n)) (stream (fst (ss ! n)) s))"
    if "n < length ss" for n
    using list_all2_nthD[OF assms(2), of n] that l by (auto split: prod.splits)
  have f: "map fst ss = map fst (sv_sessions s)" using l nth by (intro nth_equalityI) auto
  have "i < sv_next_session_id s \<and> session_ok sub (stream i s)" if m: "(i, sub) \<in> set ss" for i sub
  proof -
    obtain n where n: "n < length ss" "ss ! n = (i, sub)" using m by (auto simp: in_set_conv_nth)
    obtain sub0 where 0: "sv_sessions s ! n = (i, sub0)" using nth[OF n(1)] n(2) by (cases "sv_sessions s ! n") auto
    then have "(i, sub0) \<in> set (sv_sessions s)" using n(1) l by (metis nth_mem)
    then show ?thesis using service_okD(2)[OF assms(1)] nth[OF n(1)] n(2) 0 by fastforce
  qed
  then show ?thesis using assms(1) f by (auto simp: service_ok_def stream_def)
qed


lemma service_okI:
  assumes "distinct (map fst (sv_sessions s))"
    "\<And>i sub. (i, sub) \<in> set (sv_sessions s) \<Longrightarrow> i < sv_next_session_id s \<and> session_ok sub (stream i s)"
    "\<And>i. sorted_wrt (<) (map up_seq (stream i s))"
    "\<And>i. sv_next_session_id s \<le> i \<Longrightarrow> stream i s = []"
  shows "service_ok s"
  using assms by (auto simp: service_ok_def)

lemma session_ok_sorted: "session_ok sub us \<Longrightarrow> sorted_wrt (<) (map up_seq us)"
  by (simp add: session_ok_def sorted_wrt_append)

lemma in_update: "(j, v) \<in> set (AList.update k w xs) \<Longrightarrow> distinct (map fst xs) \<Longrightarrow> j = k \<and> v = w \<or> j \<noteq> k \<and> (j, v) \<in> set xs"
  by (induction xs) (auto split: if_splits simp: image_iff)

lemma Subscribe_new:
  assumes "Subscribe request s = Inr (i, s')"
  shows "\<exists>sub. i = sv_next_session_id s \<and> s' = s\<lparr>sv_next_session_id := i + 1, sv_sessions := AList.update i sub (sv_sessions s)\<rparr> \<and>
     session_ok sub []"
  using assms
  by (auto simp: Subscribe_def RegisterSession_def Let_def session_ok_def new_channel_def split: option.splits if_splits)

lemma subscribe_ok:
  assumes "service_ok s" "room s" "Subscribe request s = Inr (i, s')"
  shows "service_ok s'"
proof -
  obtain sub where i: "i = sv_next_session_id s"
    and s': "s' = s\<lparr>sv_next_session_id := i + 1, sv_sessions := AList.update i sub (sv_sessions s)\<rparr>" and ok: "session_ok sub []"
    using Subscribe_new[OF assms(3)] by blast
  note I = service_okD[OF assms(1)]
  have nxt: "sv_next_session_id s' = i + 1" by (simp add: s')
  have n: "unat (i + 1) = unat i + 1" using assms(2) by (intro unat_succ) (simp add: room_def i)
  then have lt: "j < i + 1 \<longleftrightarrow> j \<le> i" for j by (simp add: word_less_nat_alt word_le_nat_alt less_Suc_eq_le)
  have st: "stream j s' = stream j s" for j by (simp add: s' stream_def)
  show ?thesis
  proof (rule service_okI)
    show "distinct (map fst (sv_sessions s'))" using I(1) by (simp add: s' distinct_update)
  next
    fix j sub' assume "(j, sub') \<in> set (sv_sessions s')"
    then consider "j = i" "sub' = sub" | "(j, sub') \<in> set (sv_sessions s)" using in_update[OF _ I(1)] by (auto simp: s')
    then show "j < sv_next_session_id s' \<and> session_ok sub' (stream j s')"
    proof cases
      case 1
      then show ?thesis using I(4)[of i] ok lt[of i] i by (simp add: st nxt)
    next
      case 2
      then show ?thesis using I(2)[OF 2] by (simp add: st nxt lt i[symmetric] order.strict_implies_order)
    qed
  next
    show "sorted_wrt (<) (map up_seq (stream j s'))" for j using I(3) by (simp add: st)
  next
    fix j assume "sv_next_session_id s' \<le> j"
    then have "\<not> j \<le> i" using lt[of j] by (simp add: nxt not_less[symmetric])
    then show "stream j s' = []" using I(4)[of j] by (simp add: st i[symmetric])
  qed
qed

text \<open>A session given a new state, with one more update written to its client or none.\<close>

lemma session_written_ok:
  assumes "service_ok s" "map_of (sv_sessions s) i = Some sub" "session_ok sub' (stream i s @ us)"
  shows "service_ok (s\<lparr>sv_sessions := AList.update i sub' (sv_sessions s), sv_written := sv_written s @ map (Pair i) us\<rparr>)" (is "service_ok ?s")
proof -
  note I = service_okD[OF assms(1)]
  have i: "i < sv_next_session_id s" using I(2) map_of_SomeD[OF assms(2)] by blast
  have st: "stream j ?s = stream j s @ (if j = i then us else [])" for j by (simp add: stream_def filter_map o_def)
  show ?thesis
  proof (rule service_okI)
    show "distinct (map fst (sv_sessions ?s))" using I(1) by (simp add: distinct_update)
  next
    fix j sub2 assume "(j, sub2) \<in> set (sv_sessions ?s)"
    then consider "j = i" "sub2 = sub'" | "j \<noteq> i" "(j, sub2) \<in> set (sv_sessions s)" using in_update[OF _ I(1)] by auto
    then show "j < sv_next_session_id ?s \<and> session_ok sub2 (stream j ?s)"
      by cases (use I(2)[of j sub2] i assms(3) in \<open>auto simp: st\<close>)
  next
    show "sorted_wrt (<) (map up_seq (stream j ?s))" for j
      using I(3)[of j] session_ok_sorted[OF assms(3)] by (auto simp: st)
  next
    fix j assume "sv_next_session_id ?s \<le> j"
    then show "stream j ?s = []" using I(4)[of j] i by (auto simp: st)
  qed
qed

lemma session_drop: "session_ok sub us \<Longrightarrow> session_ok (sub\<lparr>sb_channel := (sb_channel sub)\<lparr>ch_pending := None\<rparr>\<rparr>) us"
proof -
  have w: "wanted (sub\<lparr>sb_channel := ch\<rparr>) v = wanted sub v" for v ch by (cases "up_payload v") (simp_all add: wanted_def)
  show "session_ok sub us \<Longrightarrow> ?thesis" unfolding session_ok_def by (auto simp: w sorted_wrt_append)
qed

lemma round_ok:
  assumes ok: "service_ok s"
  shows "service_ok (snd (handler_round cancelled write_ok i s))"
proof (cases "map_of (sv_sessions s) i")
  case (Some sub)
  have s: "session_ok sub (stream i s)" using service_okD(2)[OF ok] map_of_SomeD[OF Some] by blast
  show ?thesis
  proof (cases "ch_pending (sb_channel sub)")
    case None
    then show ?thesis using Some ok Unregister_ok[OF ok] by (simp add: handler_round_def WaitAndTake_def)
  next
    case (Some u)
    let ?sub = "sub\<lparr>sb_channel := (sb_channel sub)\<lparr>ch_pending := None\<rparr>\<rparr>"
    have 1: "service_ok (s\<lparr>sv_sessions := AList.update i ?sub (sv_sessions s), sv_written := sv_written s @ [(i, u)]\<rparr>)"
      using session_written_ok[OF ok \<open>map_of _ i = _\<close>, of ?sub "[u]"] session_take[OF s Some] by simp
    have "service_ok (s\<lparr>sv_sessions := AList.update i ?sub (sv_sessions s)\<rparr>)"
      using session_written_ok[OF ok \<open>map_of _ i = _\<close>, of ?sub "[]"] session_drop[OF s] by simp
    then show ?thesis using Some \<open>map_of _ i = _\<close> ok 1 Unregister_ok
      by (simp add: handler_round_def WaitAndTake_def Let_def)
  qed
qed (use ok in \<open>simp add: handler_round_def\<close>)

lemma room_session: "room s \<Longrightarrow> (i, sub) \<in> set (sv_sessions s) \<Longrightarrow> unat (sb_next_seq sub) + 2 < 2 ^ 64"
  by (auto simp: room_def)

lemma list_all2_mono_in:
  "list_all2 P xs ys \<Longrightarrow> (\<And>x y. x \<in> set xs \<Longrightarrow> P x y \<Longrightarrow> Q x y) \<Longrightarrow> list_all2 Q xs ys"
  by (auto simp: list_all2_conv_all_nth)

lemma book_ok:
  assumes ok: "service_ok s" "room s"
  shows "service_ok (PublishBook clk k book s)"
proof -
  have "service_ok (s\<lparr>sv_sessions := sv_sessions (PublishBook clk k book s)\<rparr>)"
    using list_all2_mono_in[OF PublishBook_published[where s = s]]
    by (rule sessions_map_ok[OF ok(1)]) (auto dest!: published_ok room_session[OF ok(2)])
  then show ?thesis by (simp add: PublishBook_def)
qed

lemma bbo_ok:
  assumes ok: "service_ok s" "room s"
  shows "service_ok (PublishBbo now_ns k bbo s)"
proof -
  have one: "session_ok (push_update (stamped_update now_ns (sb_instrument sub) (PayloadBbo b)) sub) us"
    if "(i, sub) \<in> set (sv_sessions s)" "sb_wants_bbo sub" "session_ok sub us" for i sub us b
  proof (rule session_push[OF that(3)])
    show "wanted sub ((stamped_update now_ns (sb_instrument sub) (PayloadBbo b))\<lparr>up_seq := sb_next_seq sub\<rparr>)"
      using that(2) by (simp add: wanted_def wanted_update)
    show "unat (sb_next_seq sub) + 1 < 2 ^ 64" using room_session[OF ok(2) that(1)] by simp
  qed
  have "list_all2 (\<lambda>(i, sub) (j, sub'). i = j \<and> (session_ok sub (stream i s) \<longrightarrow> session_ok sub' (stream i s)))
     (sv_sessions s) (sv_sessions (PublishBbo now_ns k bbo s))"
    unfolding PublishBbo_def Let_def stamped_update_def[symmetric] Service.simps list_all2_map2
    by (rule list_all2_all_nthI) (auto split: prod.splits dest!: nth_mem intro: one)
  from sessions_map_ok[OF ok(1) this] show ?thesis by (simp add: PublishBbo_def Let_def)
qed

lemma push_ok:
  assumes ok: "service_ok s" "room s" and i: "map_of (sv_sessions s) i = Some sub" and u: "built_for sub u"
  shows "service_ok (s\<lparr>sv_sessions := AList.update i (push_update u sub) (sv_sessions s)\<rparr>)"
proof -
  have m: "(i, sub) \<in> set (sv_sessions s)" using i by (rule map_of_SomeD)
  have "session_ok (push_update u sub) (stream i s)"
    using service_okD(2)[OF ok(1) m] session_push built_wanted[OF u] room_session[OF ok(2) m] by simp
  then show ?thesis using session_written_ok[OF ok(1) i, of _ "[]"] by simp
qed

lemma service_step_ok: "service_step s s' \<Longrightarrow> service_ok s \<Longrightarrow> service_ok s'"
proof (induction rule: service_step.induct)
  case (service_table s table)
  then show ?case by (auto simp: service_ok_def stream_def SetVenueWireTable_def)
qed (blast intro: subscribe_ok round_ok bbo_ok book_ok push_ok)+

lemma new_service_ok: "service_ok new_service"
  by (simp add: service_ok_def new_service_def stream_def)

lemma service_reachable_ok: "service_reachable s \<Longrightarrow> service_ok s"
  unfolding service_reachable_def by (induction rule: rtranclp_induct) (auto simp: new_service_ok service_step_ok)


section \<open>One session after a publication\<close>

text \<open>What \<open>PublishBook\<close> leaves in a session's slot: the slot holds one update, so price bands replace volume bands.\<close>

lemma list_all2_map_of:
  "list_all2 (\<lambda>(i, x) (j, y). i = j \<and> P x y) xs ys \<Longrightarrow> map_of xs i = Some x \<Longrightarrow> \<exists>y. map_of ys i = Some y \<and> P x y"
  by (induction xs ys rule: list_all2_induct) (auto split: if_splits)

definition book_update :: "i64 \<Rightarrow> InstrumentKey \<Rightarrow> Book \<Rightarrow> Subscription \<Rightarrow> Update option" where
  "book_update t k book sub =
     (let bids = capped (bk_bids book); asks = capped (bk_asks book)
      in if sb_instrument sub \<noteq> k then ch_pending (sb_channel sub)
         else if sb_wants_price_bands sub then Some ((stamped_update t k (price_bands_of bids asks (sb_bps_bands sub)))
           \<lparr>up_seq := if sb_wants_volume_bands sub then sb_next_seq sub + 1 else sb_next_seq sub\<rparr>)
         else if sb_wants_volume_bands sub then Some ((stamped_update t k (volume_bands_of bids asks (sb_notional_bands sub)))
           \<lparr>up_seq := sb_next_seq sub\<rparr>)
         else ch_pending (sb_channel sub))"

lemma published_pending:
  assumes "published k bids asks sub sub'" "sorted (sb_notional_bands sub)" "sorted (sb_bps_bands sub)"
    "\<forall>b \<in> set (sb_bps_bands sub). asks \<noteq> [] \<longrightarrow> bps_fits (ml_price (hd asks)) False b" "bids = capped (bk_bids book)" "asks = capped (bk_asks book)"
  shows "\<exists>t. ch_pending (sb_channel sub') = book_update t k book sub"
proof (cases "sb_instrument sub = k")
  case True
  obtain t t' sub1 where 1: "sub1 = (if sb_wants_volume_bands sub then push_update (volume_bands_update t k bids asks (sb_notional_bands sub)) sub else sub)"
    and 2: "sub' = (if sb_wants_price_bands sub1 then push_update (price_bands_update t' k bids asks (sb_bps_bands sub1)) sub1 else sub1)"
    using assms(1) True unfolding published_def Let_def by auto
  have v: "volume_bands_update t k bids asks (sb_notional_bands sub) = stamped_update t k (volume_bands_of bids asks (sb_notional_bands sub))"
    by (rule volume_update_direct[OF assms(2)])
  have p: "price_bands_update t' k bids asks (sb_bps_bands sub) = stamped_update t' k (price_bands_of bids asks (sb_bps_bands sub))"
    by (rule price_update_direct[OF assms(3,4)])
  show ?thesis
  proof (cases "sb_wants_price_bands sub")
    case True
    then show ?thesis using 1 2 p \<open>sb_instrument sub = k\<close> assms(5,6) by (intro exI[of _ t']) (simp add: book_update_def Let_def)
  next
    case False
    then show ?thesis using 1 2 v \<open>sb_instrument sub = k\<close> assms(5,6) by (intro exI[of _ t]) (simp add: book_update_def Let_def)
  qed
qed (use assms in \<open>simp add: published_def book_update_def\<close>)

lemma PublishBook_pending:
  assumes "service_ok s" "map_of (sv_sessions s) i = Some sub"
    "\<forall>b \<in> set (sb_bps_bands sub). bk_asks book \<noteq> [] \<longrightarrow> bps_fits (ml_price (hd (bk_asks book))) False b"
  shows "\<exists>sub' t. map_of (sv_sessions (PublishBook clk k book s)) i = Some sub' \<and> ch_pending (sb_channel sub') = book_update t k book sub"
proof -
  obtain sub' where m: "map_of (sv_sessions (PublishBook clk k book s)) i = Some sub'"
    and p: "published k (capped (bk_bids book)) (capped (bk_asks book)) sub sub'"
    using list_all2_map_of[OF PublishBook_published assms(2)] by blast
  have "session_ok sub (stream i s)" using service_okD(2)[OF assms(1)] map_of_SomeD[OF assms(2)] by blast
  then have st: "sorted (sb_notional_bands sub)" "sorted (sb_bps_bands sub)" by (simp_all add: session_ok_def)
  have "\<forall>b \<in> set (sb_bps_bands sub). capped (bk_asks book) \<noteq> [] \<longrightarrow> bps_fits (ml_price (hd (capped (bk_asks book)))) False b"
    using assms(3) by (auto simp: capped_def)
  from published_pending[OF p st this refl refl] m show ?thesis by blast
qed


text \<open>The session an accepted request registers.\<close>

lemma request_thresholds:
  fixes dflt :: "'a :: linorder list"
  shows "sorted (case req of None \<Rightarrow> [] | Some bands \<Rightarrow> sort (if bands = [] then dflt else bands))"
    "mset (case req of None \<Rightarrow> [] | Some bands \<Rightarrow> sort (if bands = [] then dflt else bands)) =
       (case req of None \<Rightarrow> {#} | Some [] \<Rightarrow> mset dflt | Some bands \<Rightarrow> mset bands)"
  by (auto split: option.splits list.splits)

lemma subscribe_session:
  assumes "service_ok s" "Subscribe request s = Inr (i, s')"
  shows "map_of (sv_sessions s) i = None \<and> (\<forall>j. j \<noteq> i \<longrightarrow> map_of (sv_sessions s') j = map_of (sv_sessions s) j) \<and>
    (\<exists>sub. map_of (sv_sessions s') i = Some sub \<and>
       Some (Symbol (sb_instrument sub)) = ToInstrumentId (rq_symbol request) \<and>
       Some (Market (sb_instrument sub)) = FromWire (rq_market request) \<and>
       sb_wants_bbo sub = rq_bbo request \<and>
       sb_wants_volume_bands sub = (rq_volume_bands request \<noteq> None) \<and> sb_wants_price_bands sub = (rq_price_bands request \<noteq> None) \<and>
       sorted (sb_notional_bands sub) \<and> sorted (sb_bps_bands sub) \<and>
       mset (sb_notional_bands sub) = (case rq_volume_bands request of None \<Rightarrow> {#} | Some [] \<Rightarrow> mset kDefaultNotionalBands | Some bands \<Rightarrow> mset bands) \<and>
       mset (sb_bps_bands sub) = (case rq_price_bands request of None \<Rightarrow> {#} | Some [] \<Rightarrow> mset kDefaultBpsBands | Some bands \<Rightarrow> mset bands) \<and>
       sb_next_seq sub = 0 \<and> ch_pending (sb_channel sub) = None)" (is "_ \<and> _ \<and> ?new")
proof -
  obtain sub where i: "i = sv_next_session_id s" and s': "s' = s\<lparr>sv_next_session_id := i + 1, sv_sessions := AList.update i sub (sv_sessions s)\<rparr>"
    and sub: "\<exists>k m. ToInstrumentId (rq_symbol request) = Some k \<and> FromWire (rq_market request) = Some m \<and>
      sub = \<lparr>sb_channel = new_channel, sb_instrument = MakeKey k m, sb_wants_bbo = rq_bbo request,
         sb_wants_volume_bands = (rq_volume_bands request \<noteq> None), sb_wants_price_bands = (rq_price_bands request \<noteq> None),
         sb_notional_bands = (case rq_volume_bands request of None \<Rightarrow> [] | Some bands \<Rightarrow> sort (if bands = [] then kDefaultNotionalBands else bands)),
         sb_bps_bands = (case rq_price_bands request of None \<Rightarrow> [] | Some bands \<Rightarrow> sort (if bands = [] then kDefaultBpsBands else bands)),
         sb_next_seq = 0\<rparr>"
    using assms(2) by (auto simp: Subscribe_def RegisterSession_def Let_def split: option.splits if_splits)
  have "i \<notin> fst ` set (sv_sessions s)" using service_okD(2)[OF assms(1)] i by fastforce
  then have 1: "map_of (sv_sessions s) i = None" by (simp add: map_of_eq_None_iff)
  have 2: "map_of (sv_sessions s') j = (if j = i then Some sub else map_of (sv_sessions s) j)" for j
    by (simp add: s' update_conv)
  have m: "FromWire (rq_market request) = Some m \<Longrightarrow> m = kSpot \<or> m = kFutures" for m
    by (auto simp: FromWire_def split: WireMarket.splits)
  obtain k m where km: "ToInstrumentId (rq_symbol request) = Some k" "FromWire (rq_market request) = Some m" "m = kSpot \<or> m = kFutures"
    and sub: "sub = \<lparr>sb_channel = new_channel, sb_instrument = MakeKey k m, sb_wants_bbo = rq_bbo request,
         sb_wants_volume_bands = (rq_volume_bands request \<noteq> None), sb_wants_price_bands = (rq_price_bands request \<noteq> None),
         sb_notional_bands = (case rq_volume_bands request of None \<Rightarrow> [] | Some bands \<Rightarrow> sort (if bands = [] then kDefaultNotionalBands else bands)),
         sb_bps_bands = (case rq_price_bands request of None \<Rightarrow> [] | Some bands \<Rightarrow> sort (if bands = [] then kDefaultBpsBands else bands)),
         sb_next_seq = 0\<rparr>" using sub m by blast
  have key: "Symbol (sb_instrument sub) = k" "Market (sb_instrument sub) = m"
    using km(3) by (auto simp: sub Symbol_MakeKey Market_MakeKey market_of_u8_def)
  have ?new
    using 2[of i] km(1,2) key request_thresholds[of kDefaultNotionalBands "rq_volume_bands request"]
      request_thresholds[of kDefaultBpsBands "rq_price_bands request"] by (simp add: sub new_channel_def)
  then show ?thesis using 1 2 by simp
qed

lemma book_delivered:
  assumes "service_ok s" "map_of (sv_sessions s) i = Some sub" "sb_instrument sub = k"
    and "sb_wants_volume_bands sub \<or> sb_wants_price_bands sub"
    and "\<forall>b \<in> set (sb_bps_bands sub). bk_asks book \<noteq> [] \<longrightarrow> bps_fits (ml_price (hd (bk_asks book))) False b"
  shows "\<exists>t u. book_update t k book sub = Some u \<and> stream i (snd (handler_round False True i (PublishBook clk k book s))) = stream i s @ [u]"
proof -
  obtain sub' t where p: "map_of (sv_sessions (PublishBook clk k book s)) i = Some sub'" "ch_pending (sb_channel sub') = book_update t k book sub"
    using PublishBook_pending[OF assms(1,2,5)] by blast
  have "book_update t k book sub \<noteq> None" using assms(3,4) by (auto simp: book_update_def Let_def)
  then obtain u where u: "book_update t k book sub = Some u" by blast
  have st: "sv_written (PublishBook clk k book s) = sv_written s" by (simp add: PublishBook_def)
  have "stream i (snd (handler_round False True i (PublishBook clk k book s))) = stream i s @ [u]"
    using p u by (simp add: handler_round_def WaitAndTake_def Let_def stream_def st)
  then show ?thesis using u by blast
qed

end
