(* ===== verification/Core_App.thy ===== *)
theory Core_App
  imports Aggregator_Service
begin

text \<open>
  The md_core process as a whole (src/aggregator/md_core_main.cpp): the core's two callbacks, each refreshing the service's
  table of venue names before it publishes, and the interleaving of the core's entry points, its callbacks and the clients'
  handlers. The core's operations only add venue names and events (\<open>grows\<close>), so the table is always the one of the
  venues it covers (\<open>table_ok\<close>), and core and service keep their invariants together (\<open>app_reachable_ok\<close>). Flag parsing,
  configuration checks and the order of shutdown are left out.
\<close>


section \<open>The callback seam (md_core_main.cpp)\<close>

text \<open>
  The core, the service, how many venues the service's table covers, and how many of the core's callbacks have run.
\<close>

record App =
  ap_core :: Core
  ap_service :: Service
  ap_published_venue_count :: nat
  ap_delivered :: nat

definition new_App :: "CoreConfig \<Rightarrow> App" where
  "new_App config = \<lparr>ap_core = Init (new_Core True True) config, ap_service = new_service, ap_published_venue_count = 0, ap_delivered = 0\<rparr>"

definition refresh_wire_table :: "App \<Rightarrow> App" where
  "refresh_wire_table a =
     (let n = venue_count (ap_core a)
      in if n = ap_published_venue_count a then a
         else a\<lparr>ap_service := SetVenueWireTable (MakeVenueWireTable (VenueName (ap_core a))) (ap_service a),
                ap_published_venue_count := n\<rparr>)"

text \<open>\<open>clk\<close> is the wall clock when a message is built.\<close>

definition on_event :: "(nat \<Rightarrow> i64) \<Rightarrow> CoreEvent \<Rightarrow> App \<Rightarrow> App" where
  "on_event clk e a =
     (let a = refresh_wire_table a
      in case e of
           BboPublished instrument bbo \<Rightarrow> a\<lparr>ap_service := PublishBbo (clk 0) instrument bbo (ap_service a)\<rparr>
         | BookPublished instrument book \<Rightarrow> a\<lparr>ap_service := PublishBook clk instrument book (ap_service a)\<rparr>)"

text \<open>
  The core's entry points, the callbacks they made, and the clients' handlers. The callbacks of one entry point run before the
  next one publishes; what publishes nothing, like the ingress naming a venue or filling a queue, may come in between.
\<close>

inductive client_step :: "Service \<Rightarrow> Service \<Rightarrow> bool" where
  client_subscribe: "room s \<Longrightarrow> Subscribe request s = Inr (i, s') \<Longrightarrow> client_step s s'"
| client_round: "client_step s (snd (handler_round cancelled write_ok i s))"

inductive app_step :: "App \<Rightarrow> App \<Rightarrow> bool" where
  app_core: "core_step (ap_core a) c \<Longrightarrow> ap_delivered a = length (co_events (ap_core a)) \<or> co_events c = co_events (ap_core a) \<Longrightarrow>
    app_step a (a\<lparr>ap_core := c\<rparr>)"
| app_callback: "ap_delivered a < length (co_events (ap_core a)) \<Longrightarrow> room (ap_service a) \<Longrightarrow>
    app_step a ((on_event clk (co_events (ap_core a) ! ap_delivered a) a)\<lparr>ap_delivered := ap_delivered a + 1\<rparr>)"
| app_client: "client_step (ap_service a) s \<Longrightarrow> app_step a (a\<lparr>ap_service := s\<rparr>)"

definition app_reachable :: "App \<Rightarrow> bool" where
  "app_reachable a \<longleftrightarrow> (\<exists>config. distinct (cfg_default_instruments config) \<and> app_step\<^sup>*\<^sup>* (new_App config) a)"

section \<open>The core only adds venues and events\<close>

definition grows :: "Core \<Rightarrow> Core \<Rightarrow> bool" where
  "grows c c' \<longleftrightarrow> prefix (vr_names (co_venue_registry c)) (vr_names (co_venue_registry c')) \<and> prefix (co_events c) (co_events c') \<and>
     co_has_bbo_callback c' = co_has_bbo_callback c \<and> co_has_book_callback c' = co_has_book_callback c"

named_theorems grow_intros \<open>operations that only add venues and events\<close>

lemma grows_refl [grow_intros]: "grows c c"
  by (simp add: grows_def)

lemma grows_trans: "grows a b \<Longrightarrow> grows b c \<Longrightarrow> grows a c"
  by (auto simp: grows_def)

lemma grows_MarkAll [grow_intros]: "grows c (MarkAllForRebuild c)"
  by (simp add: grows_def MarkAllForRebuild_def)

lemma grows_ProcessUpdate [grow_intros]: "grows c (ProcessUpdate c slot u)"
  by (simp add: grows_def ProcessUpdate_def Let_def split: option.split)

lemma grows_ProcessQuote [grow_intros]: "grows c (ProcessQuote c slot q)"
  by (simp add: grows_def ProcessQuote_def Let_def split: option.split)

lemma grows_ProcessHealth [grow_intros]: "grows c (ProcessHealth c slot e)"
  by (simp add: grows_def ProcessHealth_def MarkAllForRebuild_def Let_def)

lemma grows_ProcessRegistration [grow_intros]: "grows c (ProcessRegistration c slot)"
  by (simp add: grows_def ProcessRegistration_def MarkAllForRebuild_def Let_def)

lemma grows_RemoveVenue [grow_intros]: "grows c (RemoveVenue c slot)"
  by (simp add: grows_def RemoveVenue_def MarkAllForRebuild_def Let_def split: option.split)

lemma grows_RegisterVenueName [grow_intros]: "grows c (snd (RegisterVenueName c name))"
  by (simp add: grows_def RegisterVenueName_def Register_def Let_def split: option.split)

lemma grows_RegisterVenue [grow_intros]: "grows c (snd (RegisterVenue c name))"
  using grows_RegisterVenueName[of c name] grows_trans[OF _ grows_ProcessRegistration]
  by (auto simp: RegisterVenue_def split: prod.splits option.splits)

lemma grows_enqueue [grow_intros]: "grows c (snd (enqueue_or_overflow c slot m))"
  by (simp add: grows_def enqueue_or_overflow_def NoteOverflow_def Let_def split: prod.split)

lemma grows_EnqueueQuote [grow_intros]: "grows c (EnqueueQuote c slot q)"
  by (simp add: grows_def EnqueueQuote_def Let_def split: prod.split)

lemma grows_dispatch [grow_intros]: "grows c (dispatch slot m c)"
  by (cases m) (simp_all add: grow_intros)

lemma grows_drain_slot: "grows c (fst (drain_slot fuel index (c, n)))"
proof (induction fuel arbitrary: c n)
  case (Suc fuel)
  show ?case
  proof (cases "TryPop kProviderQueueCapacity (co_queues c ! index)")
    case (Pair m q)
    let ?c = "c\<lparr>co_queues := (co_queues c)[index := q]\<rparr>"
    have "grows c ?c" by (simp add: grows_def)
    then have "m = Some v \<Longrightarrow> grows c (fst (drain_slot fuel index (dispatch index v ?c, Suc n)))" for v
      using grows_trans grows_dispatch Suc by metis
    then show ?thesis using Pair by (simp add: grows_refl split: option.split)
  qed
qed (simp add: grows_refl)

lemma grows_DrainOnce [grow_intros]: "grows c (fst (DrainOnce c))"
proof -
  have "grows c (fst (fold (drain_slot f) is (c, n)))" for f "is" n
  proof (induction "is" arbitrary: c n)
    case (Cons i "is")
    obtain c' n' where d: "drain_slot f i (c, n) = (c', n')" by force
    have "grows c c'" using grows_drain_slot[of c f i n] d by simp
    then show ?case using Cons[of c' n'] d grows_trans by simp
  qed (simp add: grows_refl)
  then show ?thesis by (simp add: DrainOnce_def)
qed

lemma core_step_grows: "core_step c c' \<Longrightarrow> grows c c'"
proof (induction rule: core_step_of.induct)
  case (step_update u c)
  show ?case by (simp add: Core_ApplyUpdate_def grow_intros split: option.split)
next
  case (step_quote c q)
  show ?case by (simp add: Core_ApplyQuote_def grow_intros split: option.split)
next
  case (step_health e c)
  show ?case by (simp add: OnVenueHealth_def grow_intros split: option.split)
next
  case (step_add c k)
  show ?case by (simp add: AddInstrument_def grows_def)
next
  case (step_remove_instrument c k)
  show ?case by (simp add: RemoveInstrument_def grows_def)
qed (simp_all add: grow_intros EnqueueUpdate_def EnqueueHealth_def EnqueueRegistration_def EnqueueDisconnect_def)

section \<open>The invariant of the composition\<close>

text \<open>The service's table is the one of the venues it covers, and they are the first venues of the core.\<close>

definition covered_table :: "nat \<Rightarrow> Core \<Rightarrow> VenueWireTable" where
  "covered_table n c = MakeVenueWireTable (\<lambda>slot. if slot < n then VenueName c slot else [])"

definition table_ok :: "App \<Rightarrow> bool" where
  "table_ok a \<longleftrightarrow> ap_published_venue_count a \<le> venue_count (ap_core a) \<and>
     sv_venue_wire_table (ap_service a) = covered_table (ap_published_venue_count a) (ap_core a)"

definition app_ok :: "App \<Rightarrow> bool" where
  "app_ok a \<longleftrightarrow> core_ok (ap_core a) \<and> service_ok (ap_service a) \<and> table_ok a \<and> ap_delivered a \<le> length (co_events (ap_core a)) \<and>
     co_has_bbo_callback (ap_core a) \<and> co_has_book_callback (ap_core a)"

lemma MakeVenueWireTable_cong: "(\<And>i. i < kMaxVenues \<Longrightarrow> f i = g i) \<Longrightarrow> MakeVenueWireTable f = MakeVenueWireTable g"
  by (simp add: MakeVenueWireTable_def)

lemma VenueName_grows: "grows c c' \<Longrightarrow> slot < venue_count c \<Longrightarrow> VenueName c' slot = VenueName c slot"
  by (auto simp: grows_def VenueName_def Name_def VenueSlotIndex_def venue_count_def registry_size_def prefix_def nth_append)

lemma venue_count_grows: "grows c c' \<Longrightarrow> venue_count c \<le> venue_count c'"
  by (auto simp: grows_def venue_count_def registry_size_def dest: prefix_length_le)

lemma covered_all: "covered_table (venue_count c) c = MakeVenueWireTable (VenueName c)"
  unfolding covered_table_def by (rule MakeVenueWireTable_cong) (simp add: VenueName_def Name_def VenueSlotIndex_def venue_count_def)

lemma covered_grows: "grows c c' \<Longrightarrow> n \<le> venue_count c \<Longrightarrow> covered_table n c' = covered_table n c"
  unfolding covered_table_def by (rule MakeVenueWireTable_cong) (simp add: VenueName_grows)

lemma table_ok_core: "table_ok a \<Longrightarrow> grows (ap_core a) c \<Longrightarrow> table_ok (a\<lparr>ap_core := c\<rparr>)"
  using venue_count_grows[of "ap_core a" c] covered_grows[of "ap_core a" c] by (auto simp: table_ok_def)

lemma client_step_service: "client_step s s' \<Longrightarrow> service_step s s'"
  by (induction rule: client_step.induct) (auto intro: service_step.intros)

lemma client_step_table: "client_step s s' \<Longrightarrow> sv_venue_wire_table s' = sv_venue_wire_table s"
  by (induction rule: client_step.induct)
     (auto simp: Subscribe_def RegisterSession_def handler_round_def UnregisterSession_def Let_def split: option.splits if_splits prod.splits)

lemma refresh_table:
  assumes "table_ok a"
  shows "sv_venue_wire_table (ap_service (refresh_wire_table a)) = MakeVenueWireTable (VenueName (ap_core a)) \<and>
    ap_core (refresh_wire_table a) = ap_core a \<and> ap_delivered (refresh_wire_table a) = ap_delivered a \<and>
    ap_published_venue_count (refresh_wire_table a) = venue_count (ap_core a) \<and>
    sv_sessions (ap_service (refresh_wire_table a)) = sv_sessions (ap_service a) \<and> sv_written (ap_service (refresh_wire_table a)) = sv_written (ap_service a) \<and>
    (service_ok (ap_service a) \<longrightarrow> service_ok (ap_service (refresh_wire_table a))) \<and> (room (ap_service a) \<longrightarrow> room (ap_service (refresh_wire_table a)))"
  using assms covered_all[of "ap_core a"]
    by (auto simp: refresh_wire_table_def Let_def table_ok_def SetVenueWireTable_def service_ok_def stream_def room_def)

lemma published_tables:
  "sv_venue_wire_table (PublishBbo t k bbo s) = sv_venue_wire_table s" "sv_venue_wire_table (PublishBook clk k book s) = sv_venue_wire_table s"
  by (simp_all add: PublishBbo_def PublishBook_def Let_def)

lemma on_event_ok:
  assumes "app_ok a" "room (ap_service a)"
  shows "app_ok (on_event clk e a) \<and> ap_core (on_event clk e a) = ap_core a \<and> ap_delivered (on_event clk e a) = ap_delivered a"
proof -
  note I = assms(1)[unfolded app_ok_def]
  have t: "table_ok a" "service_ok (ap_service a)" using I by auto
  note R = refresh_table[OF t(1)]
  have s: "service_ok (ap_service (on_event clk e a))" using R t(2) assms(2)
    by (cases e) (simp_all add: on_event_def Let_def bbo_ok book_ok)
  have "sv_venue_wire_table (ap_service (on_event clk e a)) = MakeVenueWireTable (VenueName (ap_core a))"
    "ap_core (on_event clk e a) = ap_core a" "ap_delivered (on_event clk e a) = ap_delivered a"
    "ap_published_venue_count (on_event clk e a) = venue_count (ap_core a)"
    using R by (cases e; simp add: on_event_def Let_def published_tables)+
  then show ?thesis using I s covered_all[of "ap_core a"] by (simp add: app_ok_def table_ok_def)
qed

lemma app_step_ok: "app_step a a' \<Longrightarrow> app_ok a \<Longrightarrow> app_ok a'"
proof (induction rule: app_step.induct)
  case (app_core a c)
  have g: "grows (ap_core a) c" using app_core(1) by (rule core_step_grows)
  then have "length (co_events (ap_core a)) \<le> length (co_events c)" by (auto simp: grows_def dest: prefix_length_le)
  then show ?case using app_core core_step_ok table_ok_core[OF _ g] g by (auto simp: app_ok_def grows_def)
next
  case (app_callback a clk)
  then show ?case using on_event_ok[of a clk "co_events (ap_core a) ! ap_delivered a"]
    by (auto simp: app_ok_def table_ok_def)
next
  case (app_client a s)
  then show ?case using client_step_service service_step_ok client_step_table by (auto simp: app_ok_def table_ok_def)
qed

lemma Init_events: "co_events (Init c config) = co_events c \<and> co_venue_registry (Init c config) = co_venue_registry c \<and>
    co_has_bbo_callback (Init c config) = co_has_bbo_callback c \<and> co_has_book_callback (Init c config) = co_has_book_callback c"
proof -
  have "co_events (fold (\<lambda>k c. let c = AddInstrument c k in c\<lparr>co_consolidated_bbo := f c k\<rparr>) ks c) = co_events c \<and>
    co_venue_registry (fold (\<lambda>k c. let c = AddInstrument c k in c\<lparr>co_consolidated_bbo := f c k\<rparr>) ks c) = co_venue_registry c \<and>
    co_has_bbo_callback (fold (\<lambda>k c. let c = AddInstrument c k in c\<lparr>co_consolidated_bbo := f c k\<rparr>) ks c) = co_has_bbo_callback c \<and>
    co_has_book_callback (fold (\<lambda>k c. let c = AddInstrument c k in c\<lparr>co_consolidated_bbo := f c k\<rparr>) ks c) = co_has_book_callback c" for f ks
    by (induction ks arbitrary: c) (simp_all add: AddInstrument_def Let_def)
  then show ?thesis unfolding Init_def .
qed

lemma new_App_ok: "distinct (cfg_default_instruments config) \<Longrightarrow> app_ok (new_App config)"
proof -
  assume d: "distinct (cfg_default_instruments config)"
  have f: "co_events (new_Core True True) = []" "co_has_bbo_callback (new_Core True True)" "co_has_book_callback (new_Core True True)"
    by (simp_all add: new_Core_def)
  have "table_ok (new_App config)"
    by (simp add: table_ok_def new_App_def new_service_def covered_table_def MakeVenueWireTable_def map_replicate_const)
  then show ?thesis using Init_ok[OF d, of True True] Init_events[of "new_Core True True" config] new_service_ok f
    by (simp add: app_ok_def new_App_def)
qed

lemma app_reachable_ok: "app_reachable a \<Longrightarrow> app_ok a"
proof -
  assume "app_reachable a"
  then obtain config where d: "distinct (cfg_default_instruments config)" and r: "app_step\<^sup>*\<^sup>* (new_App config) a"
    by (auto simp: app_reachable_def)
  from r show ?thesis by (induction rule: rtranclp_induct) (use new_App_ok[OF d] app_step_ok in auto)
qed


section \<open>From the core to a client\<close>

lemma callback_bbo:
  assumes ok: "app_ok a" and i: "map_of (sv_sessions (ap_service a)) i = Some sub" "sb_instrument sub = k" "sb_wants_bbo sub"
  shows "\<exists>sub'. map_of (sv_sessions (ap_service (on_event clk (BboPublished k bbo) a))) i = Some sub' \<and>
    ch_pending (sb_channel sub') = Some ((stamped_update (clk 0) k
      (PayloadBbo (ToWire_bbo bbo (MakeVenueWireTable (VenueName (ap_core a))))))\<lparr>up_seq := sb_next_seq sub\<rparr>)"
proof -
  note R = refresh_table[of a] ok[unfolded app_ok_def]
  have s: "sv_sessions (ap_service (refresh_wire_table a)) = sv_sessions (ap_service a)"
    "sv_venue_wire_table (ap_service (refresh_wire_table a)) = MakeVenueWireTable (VenueName (ap_core a))" using R by auto
  have m: "map_of (map (\<lambda>(j, x). (j, g x)) xs) i = map_option g (map_of xs i)" for g and xs :: "(u64 \<times> Subscription) list"
    by (induction xs) auto
  show ?thesis using i
    by (simp add: on_event_def Let_def PublishBbo_def s m stamped_update_def[symmetric])
qed

lemma callback_book:
  assumes ok: "app_ok a" and r: "room (ap_service a)" and i: "map_of (sv_sessions (ap_service a)) i = Some sub" "sb_instrument sub = k"
    and w: "sb_wants_volume_bands sub \<or> sb_wants_price_bands sub"
    and f: "\<forall>b \<in> set (sb_bps_bands sub). bk_asks book \<noteq> [] \<longrightarrow> bps_fits (ml_price (hd (bk_asks book))) False b"
  shows "\<exists>t u. book_update t k book sub = Some u \<and>
    stream i (snd (handler_round False True i (ap_service (on_event clk (BookPublished k book) a)))) = stream i (ap_service a) @ [u]"
proof -
  let ?a = "refresh_wire_table a"
  note R = refresh_table[of a] ok[unfolded app_ok_def]
  have s: "sv_sessions (ap_service ?a) = sv_sessions (ap_service a)" "sv_written (ap_service ?a) = sv_written (ap_service a)"
    "service_ok (ap_service ?a)" using R by auto
  have "stream i (ap_service ?a) = stream i (ap_service a)" by (simp add: stream_def s)
  then show ?thesis using book_delivered[OF s(3), of i sub k book clk] i w f s by (simp add: on_event_def Let_def)
qed

lemma update_step_ok: "app_ok a \<Longrightarrow> wf_update u \<Longrightarrow> app_ok (a\<lparr>ap_core := Core_ApplyUpdate (ap_core a) u\<rparr>)"
proof -
  assume ok: "app_ok a" and u: "wf_update u"
  have st: "core_step (ap_core a) (Core_ApplyUpdate (ap_core a) u)" using u by (rule step_update)
  have g: "grows (ap_core a) (Core_ApplyUpdate (ap_core a) u)" using st by (rule core_step_grows)
  then have "length (co_events (ap_core a)) \<le> length (co_events (Core_ApplyUpdate (ap_core a) u))"
    by (auto simp: grows_def dest: prefix_length_le)
  then show ?thesis using ok core_step_ok[OF st] table_ok_core[OF _ g] g by (auto simp: app_ok_def grows_def)
qed

end
