(* ===== verification/Client.thy ===== *)
theory Client
  imports Decimal Aggregator_Service
begin

text \<open>
  The command-line clients (src/client/client_common.cpp and the four programs): how amounts and whole updates are printed, how
  the flags become a request, how a subscription is read and retried. The lemmas read a printed amount back, relate the accepted flags to the service's
  acceptance of the request, and show that the gap count of a stream whose numbers ascend is exact.
\<close>


section \<open>Printing (client_common.cpp)\<close>

primrec Pow10 :: "nat \<Rightarrow> u64" where
  "Pow10 0 = 1"
| "Pow10 (Suc n) = Pow10 n * 10"

definition FormatScaled :: "(nat \<Rightarrow> nat \<Rightarrow> string) \<Rightarrow> u64 \<Rightarrow> u32 \<Rightarrow> u32 \<Rightarrow> string" where
  "FormatScaled fmt value scale decimals =
     (let divisor = Pow10 (unat scale);
          integer_part = value div divisor;
          frac_part = value mod divisor
      in if decimals \<ge> scale then fmt 0 (unat integer_part) @ ''.'' @ fmt (unat scale) (unat frac_part)
         else if decimals = 0 then fmt 0 (unat integer_part)
         else let frac_part = frac_part div Pow10 (unat (scale - decimals))
              in fmt 0 (unat integer_part) @ ''.'' @ fmt (unat decimals) (unat frac_part))"

definition FormatScaled_full :: "(nat \<Rightarrow> nat \<Rightarrow> string) \<Rightarrow> u64 \<Rightarrow> u32 \<Rightarrow> string" where
  "FormatScaled_full fmt value scale = FormatScaled fmt value scale scale"

definition FormatCompact :: "(nat \<Rightarrow> nat \<Rightarrow> string) \<Rightarrow> u64 \<Rightarrow> u32 \<Rightarrow> string" where
  "FormatCompact fmt value scale =
     (let whole = value div Pow10 (unat scale)
      in if whole \<ge> 1000000 then fmt 0 (unat (whole div 1000000)) @ ''.'' @ fmt 0 (unat (whole mod 1000000 div 100000)) @ ''M''
         else if whole \<ge> 1000 then fmt 0 (unat (whole div 1000)) @ ''K''
         else fmt 0 (unat whole))"

definition FormatSlippageBps :: "(nat \<Rightarrow> nat \<Rightarrow> string) \<Rightarrow> u64 \<Rightarrow> u64 \<Rightarrow> bool \<Rightarrow> string" where
  "FormatSlippageBps fmt vwap reference is_bid =
     (if reference = 0 \<or> vwap = 0 then ''-''
      else let worse = (if is_bid then reference else vwap); better = (if is_bid then vwap else reference)
           in if worse < better then ''0.0bps''
              else let tenths_of_bps = (worse - better) * 100000 div reference
                   in fmt 0 (unat (tenths_of_bps div 10)) @ ''.'' @ fmt 0 (unat (tenths_of_bps mod 10)) @ ''bps'')"

lemma Pow10_nat: "n \<le> 19 \<Longrightarrow> unat (Pow10 n) = 10 ^ n"
proof (induction n)
  case (Suc n)
  have "(10 :: nat) ^ Suc n \<le> 10 ^ 19" using Suc.prems by (intro power_increasing) auto
  then have "(10 :: nat) ^ n * 10 < 2 ^ 64" by simp
  then show ?case using Suc by (simp add: unat_word_ariths)
qed simp

text \<open>
  Reading a printed amount back gives the amount with the digits not printed cut off: nothing is rounded, and with all
  eight decimals nothing is lost.
\<close>

lemma truncate_nat:
  fixes v d :: nat
  assumes "d \<le> 8"
  shows "(v div 10 ^ 8 * 10 ^ d + v mod 10 ^ 8 div 10 ^ (8 - d)) * 10 ^ (8 - d) = v - v mod 10 ^ (8 - d)"
proof -
  have q: "(10 :: nat) ^ 8 = 10 ^ d * 10 ^ (8 - d)" using assms by (simp flip: power_add)
  have "v div 10 ^ (8 - d) = (v div 10 ^ 8 * 10 ^ d * 10 ^ (8 - d) + v mod 10 ^ 8) div 10 ^ (8 - d)"
    using div_mult_mod_eq[of v "10 ^ 8"] unfolding q by (simp add: mult.assoc)
  also have "\<dots> = v div 10 ^ 8 * 10 ^ d + v mod 10 ^ 8 div 10 ^ (8 - d)" by simp
  finally show ?thesis using minus_mod_eq_div_mult[of v "10 ^ (8 - d)"] by simp
qed

lemma parse_format:
  assumes "prints_decimal fmt" "0 < decimals" "decimals \<le> 8"
  shows "ParseScaledDecimal 8 (FormatScaled fmt value 8 decimals) = value - value mod Pow10 (unat (8 - decimals))"
proof -
  let ?d = "unat decimals" and ?v = "unat value"
  have d: "0 < ?d" "?d \<le> 8" "unat (8 - decimals) = 8 - ?d"
    using assms(2,3) by (auto simp: word_less_nat_alt word_le_nat_alt unat_sub)
  let ?f = "?v mod 10 ^ 8 div 10 ^ (8 - ?d)"
  have p: "unat (Pow10 8) = 10 ^ 8" "unat (Pow10 (8 - ?d)) = 10 ^ (8 - ?d)" by (simp_all add: Pow10_nat)
  have e: "FormatScaled fmt value 8 decimals = fmt 0 (?v div 10 ^ 8) @ CHR ''.'' # fmt ?d ?f"
  proof (cases "decimals = 8")
    case True
    then show ?thesis using p(1) by (simp add: FormatScaled_def Let_def unat_div unat_mod)
  next
    case False
    then have "\<not> 8 \<le> decimals" using assms(3) by (meson order_antisym)
    then show ?thesis using p d(3) assms(2) by (auto simp: FormatScaled_def Let_def unat_div unat_mod)
  qed
  have "?v mod 10 ^ 8 < 10 ^ ?d * 10 ^ (8 - ?d)" using d(2) by (simp flip: power_add)
  then have "?f < 10 ^ ?d" by (rule less_mult_imp_div_less)
  then have fl: "length (fmt ?d ?f) = ?d" using assms(1) d(1) by (simp add: prints_decimal_def)
  have dg: "list_all is_digit (fmt w n)" "digits_value (fmt w n) = n" for w n using assms(1) by (simp_all add: prints_decimal_def)
  have q: "(10 :: nat) ^ 8 = 10 ^ (8 - ?d) * 10 ^ ?d" using d(2) by (simp flip: power_add)
  have m: "x * 10 ^ 8 div 10 ^ ?d = x * 10 ^ (8 - ?d)" for x :: nat unfolding q by simp
  have "digits_value (fmt 0 (?v div 10 ^ 8) @ fmt ?d ?f) = ?v div 10 ^ 8 * 10 ^ ?d + ?f"
    by (simp only: digits_value_append dg(2) fl)
  then have "digits_value (fmt 0 (?v div 10 ^ 8) @ fmt ?d ?f) * 10 ^ 8 div 10 ^ ?d = (?v div 10 ^ 8 * 10 ^ ?d + ?f) * 10 ^ (8 - ?d)"
    by (simp only: m)
  also have "\<dots> = ?v - ?v mod 10 ^ (8 - ?d)" by (rule truncate_nat[OF d(2)])
  finally have "ParseScaledDecimal 8 (FormatScaled fmt value 8 decimals) = of_nat (?v - ?v mod 10 ^ (8 - ?d))"
    using parse_decimal[OF dg(1)[of 0 "?v div 10 ^ 8"] dg(1)[of ?d ?f], of 8] unfolding e fl by simp
  also have "?v mod 10 ^ (8 - ?d) = unat (value mod Pow10 (8 - ?d))" using p(2) by (simp add: unat_mod)
  also have "of_nat (?v - unat (value mod Pow10 (8 - ?d))) = value - value mod Pow10 (8 - ?d)"
  proof -
    have "unat (value mod Pow10 (8 - ?d)) \<le> ?v" by (simp add: unat_mod)
    then show ?thesis by (simp add: of_nat_diff)
  qed
  finally show ?thesis using d(3) by simp
qed


definition kQtyDecimals :: u32 where "kQtyDecimals = 4"

text \<open>\<open>venue_name\<close> is the name the protocol compiler generates for an enumeration value.\<close>

definition FormatVenues :: "(nat \<Rightarrow> nat \<Rightarrow> string) \<Rightarrow> (WireVenue \<Rightarrow> string) \<Rightarrow> WireLevel \<Rightarrow> u32 \<Rightarrow> string" where
  "FormatVenues fmt venue_name level qty_scale =
     concat (map (\<lambda>i. (if i > 0 then '','' else []) @ venue_name (fst (wv_venues level ! i)) @ '':'' @
                      FormatScaled fmt (snd (wv_venues level ! i)) qty_scale kQtyDecimals)
              [0..<length (wv_venues level)])"

section \<open>Flags\<close>

definition kWireScaleFactor :: u64 where "kWireScaleFactor = 100000000"

fun scan_whole :: "u64 \<Rightarrow> string \<Rightarrow> u64 option" where
  "scan_whole whole [] = Some whole"
| "scan_whole whole (c # cs) = (if \<not> is_digit c then None else scan_whole (whole * 10 + char_digit c) cs)"

definition ParseNotional :: "string \<Rightarrow> u64 option" where
  "ParseNotional token =
     (if token = [] then None
      else let suffix = to_upper (last token);
               (multiplier, token) =
                 (if suffix = CHR ''K'' then (1000, butlast token)
                  else if suffix = CHR ''M'' then (1000000, butlast token)
                  else (1, token))
           in if token = [] then None
              else map_option (\<lambda>whole. whole * multiplier * kWireScaleFactor) (scan_whole 0 token))"

function SplitCsv :: "string \<Rightarrow> string list" where
  "SplitCsv text =
     (if text = [] then []
      else let comma = length (takeWhile (\<lambda>c. c \<noteq> CHR '','') text);
               token = take comma text;
               parts = (if comma = length text then [] else SplitCsv (drop (comma + 1) text))
           in if token \<noteq> [] then token # parts else parts)"
  by pat_completeness auto
termination by (relation "measure length") auto

declare SplitCsv.simps [simp del]

definition FlagValue :: "string \<Rightarrow> string \<Rightarrow> string option" where
  "FlagValue arg name =
     (if length arg \<le> length name + 1 \<or> take (length name) arg \<noteq> name \<or> arg ! length name \<noteq> CHR ''='' then None
      else Some (drop (length name + 1) arg))"

text \<open>\<^verbatim>\<open>std::strtoul\<close> in base ten: blanks, a sign, the longest run of digits; the largest value when they denote more.\<close>

definition strtoul10 :: "string \<Rightarrow> u64" where
  "strtoul10 s =
     (let s = dropWhile is_space s;
          negative = (s \<noteq> [] \<and> hd s = CHR ''-'');
          s = (if s \<noteq> [] \<and> (hd s = CHR ''-'' \<or> hd s = CHR ''+'') then tl s else s);
          n = digits_value (takeWhile is_digit s)
      in if n \<ge> 2 ^ 64 then - 1 else if negative then - of_nat n else of_nat n)"

record ClientConfig =
  cc_server_address :: string
  cc_symbol :: string
  cc_market :: "WireMarket option"
  cc_want_bbo :: bool
  cc_want_volume_bands :: bool
  cc_want_price_bands :: bool
  cc_notional_bands :: "u64 list"
  cc_bps_bands :: "u32 list"

definition default_config :: ClientConfig where
  "default_config =
     \<lparr>cc_server_address = ''localhost:50051'', cc_symbol = ''BTCUSDT'', cc_market = None, cc_want_bbo = False,
      cc_want_volume_bands = False, cc_want_price_bands = False, cc_notional_bands = [], cc_bps_bands = []\<rparr>"

text \<open>A flag the client rejects ends the process.\<close>

datatype FlagError = BadMarketFlag string | BadNotionalFlag string | UnknownFlag string

fun parse_notionals :: "string list \<Rightarrow> ClientConfig \<Rightarrow> FlagError + ClientConfig" where
  "parse_notionals [] config = Inr config"
| "parse_notionals (token # tokens) config =
     (case ParseNotional token of
        None \<Rightarrow> Inl (BadNotionalFlag token)
      | Some notional \<Rightarrow> parse_notionals tokens (config\<lparr>cc_notional_bands := cc_notional_bands config @ [notional]\<rparr>))"

definition parse_flag :: "string \<Rightarrow> ClientConfig \<Rightarrow> FlagError + ClientConfig" where
  "parse_flag arg config =
     (if arg = ''--bbo'' then Inr (config\<lparr>cc_want_bbo := True\<rparr>)
      else if arg = ''--volume_bands'' then Inr (config\<lparr>cc_want_volume_bands := True\<rparr>)
      else if arg = ''--price_bands'' then Inr (config\<lparr>cc_want_price_bands := True\<rparr>)
      else case FlagValue arg ''--server'' of Some value \<Rightarrow> Inr (config\<lparr>cc_server_address := value\<rparr>)
      | None \<Rightarrow> case FlagValue arg ''--symbol'' of Some value \<Rightarrow> Inr (config\<lparr>cc_symbol := value\<rparr>)
      | None \<Rightarrow> case FlagValue arg ''--market'' of
          Some value \<Rightarrow> if value = ''spot'' then Inr (config\<lparr>cc_market := Some SPOT\<rparr>)
                        else if value = ''futures'' then Inr (config\<lparr>cc_market := Some FUTURES\<rparr>)
                        else Inl (BadMarketFlag value)
      | None \<Rightarrow> case FlagValue arg ''--notional_band'' of
          Some value \<Rightarrow> parse_notionals (SplitCsv value) (config\<lparr>cc_want_volume_bands := True\<rparr>)
      | None \<Rightarrow> case FlagValue arg ''--price_band'' of
          Some value \<Rightarrow> Inr (config\<lparr>cc_want_price_bands := True,
                                     cc_bps_bands := cc_bps_bands config @ map (\<lambda>token. ucast (strtoul10 token)) (SplitCsv value)\<rparr>)
      | None \<Rightarrow> Inl (UnknownFlag arg))"

fun parse_flags :: "string list \<Rightarrow> ClientConfig \<Rightarrow> FlagError + ClientConfig" where
  "parse_flags [] config = Inr config"
| "parse_flags (arg # args) config = (case parse_flag arg config of Inl e \<Rightarrow> Inl e | Inr config \<Rightarrow> parse_flags args config)"

definition ClientParseFromArgs :: "string list \<Rightarrow> FlagError + ClientConfig" where
  "ClientParseFromArgs args = parse_flags args default_config"

definition HasAnyFeed :: "ClientConfig \<Rightarrow> bool" where
  "HasAnyFeed config \<longleftrightarrow> cc_want_bbo config \<or> cc_want_volume_bands config \<or> cc_want_price_bands config"

definition HasMarket :: "ClientConfig \<Rightarrow> bool" where
  "HasMarket config \<longleftrightarrow> cc_market config \<noteq> None"

definition ToRequest :: "ClientConfig \<Rightarrow> SubscribeRequest" where
  "ToRequest config =
     \<lparr>rq_symbol = cc_symbol config, rq_bbo = cc_want_bbo config,
      rq_volume_bands = (if cc_want_volume_bands config then Some (cc_notional_bands config) else None),
      rq_price_bands = (if cc_want_price_bands config then Some (cc_bps_bands config) else None),
      rq_market = (case cc_market config of None \<Rightarrow> MARKET_UNSPECIFIED | Some market \<Rightarrow> market)\<rparr>"

section \<open>Reading a subscription (RunSubscription)\<close>

datatype Notice = GapNotice u64 u64 u64 | SeqReset u64 u64

record ReadState =
  rd_last_seq :: "u64 option"
  rd_conflated_total :: u64
  rd_gap_reported :: bool
  rd_notices :: "Notice list"

definition new_reader :: ReadState where
  "new_reader = \<lparr>rd_last_seq = None, rd_conflated_total = 0, rd_gap_reported = False, rd_notices = []\<rparr>"

definition read_update :: "Update \<Rightarrow> ReadState \<Rightarrow> ReadState" where
  "read_update update r =
     (let r = (case rd_last_seq r of
          None \<Rightarrow> r
        | Some last_seq \<Rightarrow>
            if up_seq update = last_seq + 1 then r
            else if up_seq update > last_seq then
              (let r = r\<lparr>rd_conflated_total := rd_conflated_total r + (up_seq update - last_seq - 1)\<rparr>
               in if rd_gap_reported r then r
                  else r\<lparr>rd_gap_reported := True,
                         rd_notices := rd_notices r @ [GapNotice (last_seq + 1) (up_seq update) (up_seq update - last_seq - 1)]\<rparr>)
            else r\<lparr>rd_notices := rd_notices r @ [SeqReset last_seq (up_seq update)]\<rparr>)
      in r\<lparr>rd_last_seq := Some (up_seq update)\<rparr>)"

definition read_stream :: "Update list \<Rightarrow> ReadState" where
  "read_stream updates = fold read_update updates new_reader"

text \<open>The line at the end of a stream. A division by zero is an outcome of its own.\<close>

datatype GapLine = NoGapLine | GapLine u64 u64 u64 | DivisionByZero

definition gap_line :: "ReadState \<Rightarrow> GapLine" where
  "gap_line r =
     (case rd_last_seq r of
        None \<Rightarrow> NoGapLine
      | Some last_seq \<Rightarrow>
          if rd_conflated_total r > 0 then
            if last_seq = 0 then DivisionByZero
            else GapLine (rd_conflated_total r) last_seq (rd_conflated_total r * 100 div last_seq)
          else NoGapLine)"

text \<open>What the remote procedure call library reports when a stream ends.\<close>

datatype GrpcStatus = StatusOk | InvalidArgument | Unimplemented | OtherStatus

definition kMaxBackoffSeconds :: int where "kMaxBackoffSeconds = 8"

text \<open>
  One attempt to subscribe, by what the server sends and how the stream ends: the process returns, or sleeps and tries
  again with the next backoff.
\<close>

definition attempt :: "int \<Rightarrow> Update list \<times> GrpcStatus \<Rightarrow> int + int \<times> int" where
  "attempt backoff_seconds outcome =
     (let backoff_seconds = (if fst outcome = [] then backoff_seconds else 1)
      in if snd outcome = Unimplemented \<or> snd outcome = InvalidArgument then Inl 1
         else Inr (backoff_seconds, min (backoff_seconds * 2) kMaxBackoffSeconds))"

fun run_attempts :: "int \<Rightarrow> (Update list \<times> GrpcStatus) list \<Rightarrow> int list \<times> int option" where
  "run_attempts backoff_seconds [] = ([], None)"
| "run_attempts backoff_seconds (outcome # outcomes) =
     (case attempt backoff_seconds outcome of
        Inl code \<Rightarrow> ([], Some code)
      | Inr (sleep, next) \<Rightarrow> (case run_attempts next outcomes of (sleeps, code) \<Rightarrow> (sleep # sleeps, code)))"

definition RunSubscription :: "(Update list \<times> GrpcStatus) list \<Rightarrow> int list \<times> int option" where
  "RunSubscription outcomes = run_attempts 1 outcomes"


section \<open>What the flags mean\<close>

lemma scan_whole_digits: "list_all is_digit ds \<Longrightarrow> scan_whole (of_nat a) ds = Some (of_nat (a * 10 ^ length ds + digits_value ds))"
proof (induction ds arbitrary: a)
  case (Cons c cs)
  then show ?case using Cons.IH[of "a * 10 + digit c"] by (simp add: char_digit digits_value_Cons algebra_simps)
qed simp

lemma scan_whole_None: "scan_whole a ds = None \<longleftrightarrow> \<not> list_all is_digit ds"
  by (induction a ds rule: scan_whole.induct) auto

text \<open>The multiplier a suffix stands for, and the rest of the token.\<close>

definition notional_parts :: "string \<Rightarrow> nat \<times> string" where
  "notional_parts token =
     (if to_upper (last token) = CHR ''K'' then (1000, butlast token)
      else if to_upper (last token) = CHR ''M'' then (1000000, butlast token)
      else (1, token))"

lemma ParseNotional_exact:
  assumes "token \<noteq> []"
  shows "ParseNotional token = (case notional_parts token of (multiplier, digits) \<Rightarrow>
     if digits \<noteq> [] \<and> list_all is_digit digits then Some (of_nat (digits_value digits * multiplier * 10 ^ 8)) else None)"
proof -
  have s: "scan_whole 0 ds = (if list_all is_digit ds then Some (of_nat (digits_value ds)) else None)" for ds
    using scan_whole_digits[of ds 0] scan_whole_None[of 0 ds] by auto
  show ?thesis using assms
    by (simp add: ParseNotional_def notional_parts_def s kWireScaleFactor_def Let_def)
qed

lemma take_takeWhile_length: "take (length (takeWhile P xs)) xs = takeWhile P xs"
  by (metis takeWhile_eq_take)

lemma drop_after_takeWhile: "length (takeWhile P xs) < length xs \<Longrightarrow> xs = takeWhile P xs @ xs ! length (takeWhile P xs) # drop (length (takeWhile P xs) + 1) xs"
  using id_take_nth_drop[of "length (takeWhile P xs)" xs] by (simp add: take_takeWhile_length)

lemma SplitCsv_step:
  "SplitCsv csv =
     (let token = takeWhile (\<lambda>c. c \<noteq> CHR '','') csv;
          parts = (if length token = length csv then [] else SplitCsv (drop (length token + 1) csv))
      in if token \<noteq> [] then token # parts else parts)"
  by (subst SplitCsv.simps) (auto simp: Let_def take_takeWhile_length)

lemma SplitCsv_tokens:
  "(\<forall>t \<in> set (SplitCsv csv). t \<noteq> [] \<and> CHR '','' \<notin> set t) \<and> concat (SplitCsv csv) = filter (\<lambda>c. c \<noteq> CHR '','') csv"
proof (induction "length csv" arbitrary: csv rule: less_induct)
  case less
  let ?token = "takeWhile (\<lambda>c. c \<noteq> CHR '','') csv"
  have t: "CHR '','' \<notin> set ?token" "filter (\<lambda>c. c \<noteq> CHR '','') ?token = ?token"
    by (auto dest: set_takeWhileD simp: filter_id_conv)
  show ?case
  proof (cases "length ?token = length csv")
    case True
    then have c: "?token = csv" by (metis take_all take_takeWhile_length order_refl)
    have "SplitCsv csv = (if csv \<noteq> [] then [csv] else [])" by (subst SplitCsv_step) (simp only: c Let_def, simp)
    then show ?thesis using t unfolding c by simp
  next
    case False
    then have l: "length ?token < length csv" using length_takeWhile_le[of _ csv] by (simp add: le_neq_implies_less)
    have c: "csv ! length ?token = CHR '',''" using nth_length_takeWhile[OF l] by simp
    have csv: "filter (\<lambda>c. c \<noteq> CHR '','') csv = ?token @ filter (\<lambda>c. c \<noteq> CHR '','') (drop (length ?token + 1) csv)"
      using arg_cong[OF drop_after_takeWhile[OF l], of "filter (\<lambda>c. c \<noteq> CHR '','')"] t(2) c by simp
    let ?rest = "drop (length ?token + 1) csv"
    have st: "SplitCsv csv = (if ?token \<noteq> [] then ?token # SplitCsv ?rest else SplitCsv ?rest)"
      by (subst SplitCsv_step) (simp only: Let_def False if_False)
    have "length ?rest < length csv" using l by simp
    note IH = less[OF this]
    have "concat (SplitCsv csv) = ?token @ concat (SplitCsv ?rest)" "set (SplitCsv csv) \<subseteq> insert ?token (set (SplitCsv ?rest))"
      "?token = [] \<Longrightarrow> set (SplitCsv csv) = set (SplitCsv ?rest)" by (simp_all only: st split: if_split) auto
    note parts = this
    have "t \<noteq> [] \<and> CHR '','' \<notin> set t" if "t \<in> set (SplitCsv csv)" for t
    proof (cases "?token = []")
      case True
      then show ?thesis using parts(3) IH that by blast
    next
      case False
      moreover have "t = ?token \<or> t \<in> set (SplitCsv ?rest)" using subsetD[OF parts(2) that] by (simp only: insert_iff)
      ultimately show ?thesis using conjunct1[OF IH] t(1) by (elim disjE) (simp_all only: simp_thms)
    qed
    moreover have "concat (SplitCsv csv) = filter (\<lambda>c. c \<noteq> CHR '','') csv"
      using parts(1) conjunct2[OF IH] csv by argo
    ultimately show ?thesis by blast
  qed
qed

fun join_comma :: "string list \<Rightarrow> string" where
  "join_comma [] = []"
| "join_comma [t] = t"
| "join_comma (t # ts) = t @ '','' @ join_comma ts"

lemma SplitCsv_join: "\<forall>t \<in> set ts. t \<noteq> [] \<and> CHR '','' \<notin> set t \<Longrightarrow> SplitCsv (join_comma ts) = ts"
proof (induction ts rule: join_comma.induct)
  case (2 t)
  then have t: "takeWhile (\<lambda>c. c \<noteq> CHR '','') t = t" by (auto simp: takeWhile_eq_all_conv)
  show ?case using 2 by (subst SplitCsv_step) (simp only: join_comma.simps t Let_def, simp)
next
  case (3 t s ts)
  then have "takeWhile (\<lambda>c. c \<noteq> CHR '','') (t @ CHR '','' # join_comma (s # ts)) = t" by (subst takeWhile_append2) auto
  then have t: "takeWhile (\<lambda>c. c \<noteq> CHR '','') (join_comma (t # s # ts)) = t" by simp
  show ?case using 3 by (subst SplitCsv_step) (simp only: t Let_def, simp)
qed (simp add: SplitCsv.simps)

section \<open>Requests\<close>

definition config_ok :: "ClientConfig \<Rightarrow> bool" where
  "config_ok config \<longleftrightarrow> cc_market config \<in> {None, Some SPOT, Some FUTURES} \<and>
     (cc_notional_bands config \<noteq> [] \<longrightarrow> cc_want_volume_bands config) \<and>
     (cc_bps_bands config \<noteq> [] \<longrightarrow> cc_want_price_bands config)"

lemma parse_notionals_ok:
  "config_ok config \<Longrightarrow> cc_want_volume_bands config \<Longrightarrow> parse_notionals tokens config = Inr config' \<Longrightarrow> config_ok config'"
proof (induction tokens config rule: parse_notionals.induct)
  case (2 token tokens config)
  then show ?case by (auto simp: config_ok_def split: option.splits)
qed simp

lemma parse_flag_ok: "config_ok config \<Longrightarrow> parse_flag arg config = Inr config' \<Longrightarrow> config_ok config'"
  unfolding parse_flag_def
  by (auto split: if_splits option.splits elim!: parse_notionals_ok[rotated 2]) (auto simp: config_ok_def)

lemma parse_flags_ok: "config_ok config \<Longrightarrow> parse_flags args config = Inr config' \<Longrightarrow> config_ok config'"
  by (induction args config rule: parse_flags.induct) (auto split: sum.splits dest: parse_flag_ok)

lemma ClientParseFromArgs_ok: "ClientParseFromArgs args = Inr config \<Longrightarrow> config_ok config"
  using parse_flags_ok[of default_config args config] by (simp add: ClientParseFromArgs_def config_ok_def default_config_def)

lemma request_accepted:
  assumes "config_ok config"
  shows "(\<exists>r. Subscribe (ToRequest config) s = Inr r) \<longleftrightarrow>
     ToInstrumentId (cc_symbol config) \<noteq> None \<and> HasMarket config \<and> HasAnyFeed config"
  using assms
  by (auto simp: Subscribe_def ToRequest_def HasMarket_def HasAnyFeed_def config_ok_def FromWire_def split: option.splits)

section \<open>Gaps\<close>

definition reset_free :: "ReadState \<Rightarrow> bool" where
  "reset_free r \<longleftrightarrow> (\<forall>a b. SeqReset a b \<notin> set (rd_notices r))"

lemma read_snoc: "read_stream (us @ [u]) = read_update u (read_stream us)"
  by (simp add: read_stream_def)

lemma last_seq_update: "rd_last_seq (read_update u r) = Some (up_seq u)"
  by (simp add: read_update_def Let_def)

lemma read_increasing:
  assumes "sorted_wrt (<) (map up_seq us)" "us \<noteq> []"
  shows "rd_last_seq (read_stream us) = Some (up_seq (last us)) \<and> reset_free (read_stream us) \<and>
     unat (rd_conflated_total (read_stream us)) + length us = unat (up_seq (last us)) - unat (up_seq (hd us)) + 1 \<and>
     up_seq (hd us) \<le> up_seq (last us)"
  using assms
proof (induction us rule: rev_induct)
  case (snoc u us)
  show ?case
  proof (cases "us = []")
    case True
    then show ?thesis by (simp add: read_stream_def read_update_def new_reader_def reset_free_def)
  next
    case False
    let ?r = "read_stream us"
    have s: "sorted_wrt (<) (map up_seq us)" and lt: "up_seq (last us) < up_seq u"
      using snoc.prems(1) False by (simp_all add: sorted_wrt_append)
    have IH: "rd_last_seq ?r = Some (up_seq (last us))" "reset_free ?r"
      "unat (rd_conflated_total ?r) + length us = unat (up_seq (last us)) - unat (up_seq (hd us)) + 1" "up_seq (hd us) \<le> up_seq (last us)"
      using snoc.IH[OF s False] by auto
    have l: "0 < length us" using False by simp
    have n: "unat (up_seq (last us) + 1) = unat (up_seq (last us)) + 1"
      using lt unsigned_less[of "up_seq u", where ?'a = nat] by (intro unat_succ) (simp add: word_less_nat_alt)
    have eq: "up_seq u = up_seq (last us) + 1 \<longleftrightarrow> unat (up_seq u) = unat (up_seq (last us)) + 1"
      using n by (metis unsigned_word_eqI)
    have d: "unat (up_seq u - up_seq (last us) - 1) = unat (up_seq u) - unat (up_seq (last us)) - 1"
    proof -
      have "unat (up_seq u - (up_seq (last us) + 1)) = unat (up_seq u) - unat (up_seq (last us) + 1)"
        using lt n by (intro unat_sub) (simp add: word_less_nat_alt word_le_nat_alt)
      then show ?thesis using n by (simp add: diff_diff_eq)
    qed
    have r: "rd_conflated_total (read_update u ?r) = (if up_seq u = up_seq (last us) + 1 then rd_conflated_total ?r
        else rd_conflated_total ?r + (up_seq u - up_seq (last us) - 1))" "reset_free (read_update u ?r)"
      using IH(1,2) lt by (auto simp: read_update_def Let_def reset_free_def)
    have t: "unat (rd_conflated_total (read_update u ?r)) + length us + 1 = unat (up_seq u) - unat (up_seq (hd us)) + 1"
    proof (cases "up_seq u = up_seq (last us) + 1")
      case True
      then show ?thesis using IH(3,4) r(1) eq by (simp add: word_le_nat_alt)
    next
      case False
      have b: "unat (rd_conflated_total ?r) + (unat (up_seq u) - unat (up_seq (last us)) - 1) < 2 ^ 64"
        using IH(3,4) l lt unsigned_less[of "up_seq u", where ?'a = nat] by (simp add: word_less_nat_alt word_le_nat_alt)
      then have "unat (rd_conflated_total ?r + (up_seq u - up_seq (last us) - 1)) =
          unat (rd_conflated_total ?r) + (unat (up_seq u) - unat (up_seq (last us)) - 1)"
        using d by (simp add: unat_word_ariths)
      then show ?thesis using False r(1) IH(3,4) lt eq l by (simp add: word_less_nat_alt word_le_nat_alt)
    qed
    have "up_seq (hd us) \<le> up_seq u" using IH(4) lt by simp
    then show ?thesis using False t r(2) by (simp add: read_snoc last_seq_update)
  qed
qed simp

lemma gap_line_increasing: "sorted_wrt (<) (map up_seq us) \<Longrightarrow> gap_line (read_stream us) \<noteq> DivisionByZero"
proof (cases "us = []")
  case False
  assume s: "sorted_wrt (<) (map up_seq us)"
  note R = read_increasing[OF s False]
  show ?thesis
  proof (cases "up_seq (last us) = 0")
    case True
    then have "unat (rd_conflated_total (read_stream us)) + length us = 1" using R by simp
    then have "rd_conflated_total (read_stream us) = 0" using False by (cases us) (auto simp: unat_eq_0)
    then show ?thesis using R by (simp add: gap_line_def)
  qed (use R in \<open>simp add: gap_line_def\<close>)
qed (simp add: read_stream_def new_reader_def gap_line_def)

section \<open>Retries\<close>

definition rejected :: "GrpcStatus \<Rightarrow> bool" where
  "rejected status \<longleftrightarrow> status = Unimplemented \<or> status = InvalidArgument"

lemma run_attempts_spec:
  assumes "1 \<le> b" "b \<le> kMaxBackoffSeconds" "run_attempts b outcomes = (sleeps, code)"
  shows "(\<forall>t \<in> set sleeps. 1 \<le> t \<and> t \<le> kMaxBackoffSeconds) \<and>
     code = (if \<exists>(us, status) \<in> set outcomes. rejected status then Some 1 else None) \<and>
     length sleeps = length (takeWhile (\<lambda>(us, status). \<not> rejected status) outcomes)"
  using assms
proof (induction b outcomes arbitrary: sleeps code rule: run_attempts.induct)
  case (2 b outcome outcomes)
  obtain us status where o: "outcome = (us, status)" by force
  show ?case
  proof (cases "rejected status")
    case True
    then show ?thesis using 2(4) o by (auto simp: attempt_def rejected_def Let_def)
  next
    case False
    let ?b = "if us = [] then b else 1"
    have a: "attempt b outcome = Inr (?b, min (?b * 2) kMaxBackoffSeconds)"
      using False o by (simp add: attempt_def rejected_def Let_def)
    obtain ss c where r: "run_attempts (min (?b * 2) kMaxBackoffSeconds) outcomes = (ss, c)" by force
    have "1 \<le> min (?b * 2) kMaxBackoffSeconds" using 2(2) by (simp add: kMaxBackoffSeconds_def)
    from 2(1)[OF a refl this _ r] show ?thesis
      using 2(2,3,4) a r o False by (auto simp: kMaxBackoffSeconds_def)
  qed
qed simp

lemma run_quiet:
  assumes "\<forall>(us, status) \<in> set outcomes. us = [] \<and> \<not> rejected status"
  shows "fst (run_attempts (min (2 ^ k) 8) outcomes) = map (\<lambda>n. min (2 ^ (k + n)) 8) [0..<length outcomes]"
  using assms
proof (induction outcomes arbitrary: k)
  case (Cons outcome outcomes)
  have a: "attempt (min (2 ^ k) 8) outcome = Inr (min (2 ^ k) 8, min (2 ^ Suc k) 8)"
    using Cons.prems by (cases outcome) (auto simp: attempt_def rejected_def kMaxBackoffSeconds_def min_def Let_def)
  have "map (\<lambda>n. min (2 ^ (k + n)) 8) [0..<length (outcome # outcomes)] =
      min (2 ^ k) (8 :: int) # map (\<lambda>n. min (2 ^ (Suc k + n)) 8) [0..<length outcomes]"
    by (subst upt_conv_Cons) (simp_all add: map_Suc_upt[symmetric] del: upt_Suc map_Suc_upt)
  then show ?case using Cons.IH[of "Suc k"] Cons.prems a by (simp del: upt_Suc split: prod.split) force
qed simp


section \<open>Output (client_common.cpp)\<close>

definition kPriceDecimals :: u32 where "kPriceDecimals = 2"

text \<open>
  A line of output for each call of the library's \<^verbatim>\<open>print\<close>. \<open>al w s\<close> is its text for a field of width \<open>w\<close>, aligned to the
  right; what the client relies on is that it adds nothing but blanks.
\<close>

definition pads_with_blanks :: "(nat \<Rightarrow> string \<Rightarrow> string) \<Rightarrow> bool" where
  "pads_with_blanks al \<longleftrightarrow> (\<forall>w s. \<exists>k. al w s = replicate k (CHR '' '') @ s)"

definition PrintBbo :: "(nat \<Rightarrow> nat \<Rightarrow> string) \<Rightarrow> (WireVenue \<Rightarrow> string) \<Rightarrow> Update \<Rightarrow> WireBbo \<Rightarrow> string" where
  "PrintBbo fmt venue_name update bbo =
     ''seq='' @ fmt 0 (unat (up_seq update)) @ '' '' @ up_symbol update @
     ''  bid '' @ FormatScaled fmt (wv_total_qty (wb_best_bid bbo)) (up_qty_scale update) kQtyDecimals @
     '' ['' @ FormatVenues fmt venue_name (wb_best_bid bbo) (up_qty_scale update) @
     ''] : '' @ FormatScaled fmt (wv_price (wb_best_bid bbo)) (up_price_scale update) kPriceDecimals @
     '' | '' @ FormatScaled fmt (wv_price (wb_best_ask bbo)) (up_price_scale update) kPriceDecimals @
     '' : '' @ FormatScaled fmt (wv_total_qty (wb_best_ask bbo)) (up_qty_scale update) kQtyDecimals @
     '' ['' @ FormatVenues fmt venue_name (wb_best_ask bbo) (up_qty_scale update) @
     ''] ask'' @ (if wb_crossed bbo then ''  CROSSED'' else [])"

definition volume_line ::
  "(nat \<Rightarrow> nat \<Rightarrow> string) \<Rightarrow> (nat \<Rightarrow> string \<Rightarrow> string) \<Rightarrow> string \<Rightarrow> bool \<Rightarrow> u64 \<Rightarrow> Update \<Rightarrow> VolumeBandResult \<Rightarrow> string" where
  "volume_line fmt al side is_bid reference update band =
     (let shortfall = (if vr_insufficient_depth band
            then ''  INSUFFICIENT DEPTH (filled '' @ FormatCompact fmt (vr_filled_notional band) (up_price_scale update) @ '')'' else [])
      in ''  '' @ side @ '' '' @ al 6 (FormatCompact fmt (vr_notional_threshold band) (up_price_scale update)) @
         ''  vwap '' @ FormatScaled fmt (vr_vwap band) (up_price_scale update) kPriceDecimals @
         ''  worst '' @ FormatScaled fmt (vr_worst_price band) (up_price_scale update) kPriceDecimals @
         ''  qty '' @ FormatScaled fmt (vr_filled_qty band) (up_qty_scale update) kQtyDecimals @
         ''  lvls '' @ al 4 (fmt 0 (unat (vr_level_count band))) @
         ''  slip '' @ FormatSlippageBps fmt (vr_vwap band) reference is_bid @ shortfall)"

definition PrintVolumeSide ::
  "(nat \<Rightarrow> nat \<Rightarrow> string) \<Rightarrow> (nat \<Rightarrow> string \<Rightarrow> string) \<Rightarrow> string \<Rightarrow> bool \<Rightarrow> u64 \<Rightarrow> Update \<Rightarrow> VolumeBandResult list \<Rightarrow> string list" where
  "PrintVolumeSide fmt al side is_bid reference update bands = map (volume_line fmt al side is_bid reference update) bands"

definition price_line ::
  "(nat \<Rightarrow> nat \<Rightarrow> string) \<Rightarrow> (nat \<Rightarrow> string \<Rightarrow> string) \<Rightarrow> string \<Rightarrow> Update \<Rightarrow> PriceBandResult \<Rightarrow> string" where
  "price_line fmt al side update band =
     ''  '' @ side @ '' '' @ al 5 (fmt 0 (unat (pr_bps_threshold band))) @
     ''bps  limit '' @ FormatScaled fmt (pr_limit_price band) (up_price_scale update) kPriceDecimals @
     ''  vwap '' @ FormatScaled fmt (pr_vwap band) (up_price_scale update) kPriceDecimals @
     ''  qty '' @ FormatScaled fmt (pr_cum_qty band) (up_qty_scale update) kQtyDecimals @
     ''  notional '' @ FormatCompact fmt (pr_cum_notional band) (up_price_scale update) @
     ''  lvls '' @ al 4 (fmt 0 (unat (pr_level_count band))) @
     (if pr_insufficient_depth band then ''  BOOK EXHAUSTED (lower bound)'' else [])"

definition PrintPriceSide ::
  "(nat \<Rightarrow> nat \<Rightarrow> string) \<Rightarrow> (nat \<Rightarrow> string \<Rightarrow> string) \<Rightarrow> string \<Rightarrow> Update \<Rightarrow> PriceBandResult list \<Rightarrow> string list" where
  "PrintPriceSide fmt al side update bands = map (price_line fmt al side update) bands"

definition PrintVolumeBands ::
  "(nat \<Rightarrow> nat \<Rightarrow> string) \<Rightarrow> (nat \<Rightarrow> string \<Rightarrow> string) \<Rightarrow> Update \<Rightarrow> VolumeBands \<Rightarrow> string list" where
  "PrintVolumeBands fmt al update bands =
     (''seq='' @ fmt 0 (unat (up_seq update)) @ '' '' @ up_symbol update @
      ''  volume bands  (best bid '' @ FormatScaled fmt (vb_best_bid bands) (up_price_scale update) kPriceDecimals @
      '' / ask '' @ FormatScaled fmt (vb_best_ask bands) (up_price_scale update) kPriceDecimals @ '')'') #
     PrintVolumeSide fmt al ''BID'' True (vb_best_bid bands) update (vb_bid_bands bands) @
     PrintVolumeSide fmt al ''ASK'' False (vb_best_ask bands) update (vb_ask_bands bands)"

definition PrintPriceBands ::
  "(nat \<Rightarrow> nat \<Rightarrow> string) \<Rightarrow> (nat \<Rightarrow> string \<Rightarrow> string) \<Rightarrow> Update \<Rightarrow> PriceBands \<Rightarrow> string list" where
  "PrintPriceBands fmt al update bands =
     (''seq='' @ fmt 0 (unat (up_seq update)) @ '' '' @ up_symbol update @ ''  price bands'') #
     PrintPriceSide fmt al ''BID'' update (pb_bid_bands bands) @
     PrintPriceSide fmt al ''ASK'' update (pb_ask_bands bands)"

definition PrintUpdate ::
  "(nat \<Rightarrow> nat \<Rightarrow> string) \<Rightarrow> (nat \<Rightarrow> string \<Rightarrow> string) \<Rightarrow> (WireVenue \<Rightarrow> string) \<Rightarrow> Update \<Rightarrow> string list" where
  "PrintUpdate fmt al venue_name update =
     (case up_payload update of
        PayloadBbo bbo \<Rightarrow> [PrintBbo fmt venue_name update bbo]
      | PayloadVolumeBands bands \<Rightarrow> PrintVolumeBands fmt al update bands
      | PayloadPriceBands bands \<Rightarrow> PrintPriceBands fmt al update bands
      | PAYLOAD_NOT_SET \<Rightarrow> [])"

text \<open>A character that no printed amount contains.\<close>

definition foreign :: "char \<Rightarrow> bool" where
  "foreign c \<longleftrightarrow> \<not> is_digit c \<and> c \<notin> set ''.KM -bps''"

lemma digits_no_foreign: "prints_decimal fmt \<Longrightarrow> foreign c \<Longrightarrow> c \<notin> set (fmt w n)"
  by (auto simp: prints_decimal_def foreign_def list_all_iff)

lemma amounts_no_foreign:
  assumes "prints_decimal fmt" "foreign c"
  shows "c \<notin> set (FormatScaled fmt v s d)" "c \<notin> set (FormatCompact fmt v s)" "c \<notin> set (FormatSlippageBps fmt v r b)"
proof -
  have f: "c \<noteq> CHR ''.''" "c \<noteq> CHR ''K''" "c \<noteq> CHR ''M''" "c \<noteq> CHR ''-''" "c \<noteq> CHR ''b''" "c \<noteq> CHR ''p''" "c \<noteq> CHR ''s''" "\<not> is_digit c"
    using assms(2) by (simp_all add: foreign_def)
  moreover have "is_digit (CHR ''0'')" by (simp add: is_digit_def)
  ultimately have z: "c \<noteq> CHR ''0''" by blast
  note simps = digits_no_foreign[OF assms] f(1-7) z
  show "c \<notin> set (FormatScaled fmt v s d)" by (simp add: FormatScaled_def Let_def simps)
  show "c \<notin> set (FormatCompact fmt v s)" by (simp add: FormatCompact_def Let_def simps)
  show "c \<notin> set (FormatSlippageBps fmt v r b)" by (simp add: FormatSlippageBps_def Let_def simps)
qed

lemma padding_no_foreign: "pads_with_blanks al \<Longrightarrow> foreign c \<Longrightarrow> c \<in> set (al w s) \<longleftrightarrow> c \<in> set s"
proof -
  assume "pads_with_blanks al" "foreign c"
  moreover from this obtain k where "al w s = replicate k (CHR '' '') @ s" unfolding pads_with_blanks_def by blast
  ultimately show ?thesis by (auto simp: foreign_def)
qed

lemma sublist_set: "sublist xs ys \<Longrightarrow> x \<in> set xs \<Longrightarrow> x \<in> set ys"
  by (auto simp: sublist_def)

lemma volume_line_marks:
  assumes "prints_decimal fmt" "pads_with_blanks al" "CHR ''N'' \<notin> set side"
  shows "sublist ''INSUFFICIENT DEPTH'' (volume_line fmt al side is_bid reference update band) \<longleftrightarrow> vr_insufficient_depth band"
proof
  have f: "foreign (CHR ''N'')" by (simp add: foreign_def is_digit_def)
  assume "sublist ''INSUFFICIENT DEPTH'' (volume_line fmt al side is_bid reference update band)"
  then have "CHR ''N'' \<in> set (volume_line fmt al side is_bid reference update band)" by (rule sublist_set) simp
  then show "vr_insufficient_depth band"
    using assms(3) by (simp add: volume_line_def Let_def amounts_no_foreign[OF assms(1) f] digits_no_foreign[OF assms(1) f]
        padding_no_foreign[OF assms(2) f] split: if_splits)
next
  assume "vr_insufficient_depth band"
  then have "volume_line fmt al side is_bid reference update band =
      (volume_line fmt al side is_bid reference update (band\<lparr>vr_insufficient_depth := False\<rparr>) @ ''  '') @ ''INSUFFICIENT DEPTH'' @
      ('' (filled '' @ FormatCompact fmt (vr_filled_notional band) (up_price_scale update) @ '')'')"
    by (simp add: volume_line_def Let_def)
  then show "sublist ''INSUFFICIENT DEPTH'' (volume_line fmt al side is_bid reference update band)" unfolding sublist_def by blast
qed

lemma price_line_marks:
  assumes "prints_decimal fmt" "pads_with_blanks al" "CHR ''X'' \<notin> set side"
  shows "sublist ''BOOK EXHAUSTED'' (price_line fmt al side update band) \<longleftrightarrow> pr_insufficient_depth band"
proof
  have f: "foreign (CHR ''X'')" by (simp add: foreign_def is_digit_def)
  assume "sublist ''BOOK EXHAUSTED'' (price_line fmt al side update band)"
  then have "CHR ''X'' \<in> set (price_line fmt al side update band)" by (rule sublist_set) simp
  then show "pr_insufficient_depth band"
    using assms(3) by (simp add: price_line_def Let_def amounts_no_foreign[OF assms(1) f] digits_no_foreign[OF assms(1) f]
        padding_no_foreign[OF assms(2) f] split: if_splits)
next
  assume "pr_insufficient_depth band"
  then have "price_line fmt al side update band =
      (price_line fmt al side update (band\<lparr>pr_insufficient_depth := False\<rparr>) @ ''  '') @ ''BOOK EXHAUSTED'' @ '' (lower bound)''"
    by (simp add: price_line_def)
  then show "sublist ''BOOK EXHAUSTED'' (price_line fmt al side update band)" unfolding sublist_def by blast
qed

text \<open>The printed slippage is the distance from the reference in tenths of a basis point, rounded down.\<close>

lemma slippage_exact:
  assumes "reference \<noteq> 0" "vwap \<noteq> 0" "if is_bid then vwap \<le> reference else reference \<le> vwap"
    "(if is_bid then unat reference - unat vwap else unat vwap - unat reference) * 100000 < 2 ^ 64"
  shows "FormatSlippageBps fmt vwap reference is_bid =
    (let t = (if is_bid then unat reference - unat vwap else unat vwap - unat reference) * 100000 div unat reference
     in fmt 0 (t div 10) @ ''.'' @ fmt 0 (t mod 10) @ ''bps'')"
proof -
  define w where "w = (if is_bid then reference else vwap)"
  define b where "b = (if is_bid then vwap else reference)"
  have le: "b \<le> w" using assms(3) by (auto simp: w_def b_def)
  have u: "unat (w - b) = (if is_bid then unat reference - unat vwap else unat vwap - unat reference)"
    using unat_sub[OF le] by (simp add: w_def b_def)
  have "unat ((w - b) * 100000) = unat (w - b) * 100000" using assms(4) u by (subst unat_mult_lem[THEN iffD1]) simp_all
  then have "unat ((w - b) * 100000 div reference) = unat (w - b) * 100000 div unat reference" by (simp add: unat_div)
  then have t: "unat ((w - b) * 100000 div reference div 10) = unat (w - b) * 100000 div unat reference div 10"
    "unat ((w - b) * 100000 div reference mod 10) = unat (w - b) * 100000 div unat reference mod 10" by (simp_all add: unat_div unat_mod)
  have "\<not> w < b" using le by simp
  then show ?thesis
    using assms(1,2) unfolding FormatSlippageBps_def w_def[symmetric] b_def[symmetric] Let_def u[symmetric]
    by (simp only: t simp_thms if_False)
qed

section \<open>The four programs (client_app.cpp, bbo_sub.cpp, volume_band_sub.cpp, price_band_sub.cpp)\<close>

datatype ClientRun = ClientExit int | ClientSubscribes SubscribeRequest

definition client_app_main :: "string list \<Rightarrow> ClientRun" where
  "client_app_main args =
     (case ClientParseFromArgs args of
        Inl error \<Rightarrow> ClientExit 2
      | Inr config \<Rightarrow> if \<not> HasAnyFeed config \<or> \<not> HasMarket config then ClientExit 2 else ClientSubscribes (ToRequest config))"

definition bbo_sub_main :: ClientRun where
  "bbo_sub_main = ClientSubscribes (ToRequest (default_config\<lparr>cc_market := Some SPOT, cc_want_bbo := True\<rparr>))"

definition volume_band_sub_main :: ClientRun where
  "volume_band_sub_main = ClientSubscribes (ToRequest (default_config\<lparr>cc_market := Some SPOT, cc_want_volume_bands := True\<rparr>))"

definition price_band_sub_main :: ClientRun where
  "price_band_sub_main = ClientSubscribes (ToRequest (default_config\<lparr>cc_market := Some SPOT, cc_want_price_bands := True\<rparr>))"

text \<open>A client that gets as far as subscribing is turned away for its symbol only.\<close>

lemma subscribing_config_ok:
  assumes "client_app_main args = ClientSubscribes r \<or> ClientSubscribes r \<in> {bbo_sub_main, volume_band_sub_main, price_band_sub_main}"
  shows "\<exists>config. config_ok config \<and> HasMarket config \<and> HasAnyFeed config \<and> r = ToRequest config"
  using assms
proof
  assume "client_app_main args = ClientSubscribes r"
  then obtain config where "ClientParseFromArgs args = Inr config" "HasAnyFeed config" "HasMarket config" "r = ToRequest config"
    by (auto simp: client_app_main_def split: sum.splits if_splits)
  then show ?thesis using ClientParseFromArgs_ok by blast
next
  let ?c = "default_config\<lparr>cc_market := Some SPOT\<rparr>"
  assume "ClientSubscribes r \<in> {bbo_sub_main, volume_band_sub_main, price_band_sub_main}"
  then obtain config where "config \<in> {?c\<lparr>cc_want_bbo := True\<rparr>, ?c\<lparr>cc_want_volume_bands := True\<rparr>, ?c\<lparr>cc_want_price_bands := True\<rparr>}"
    "r = ToRequest config" unfolding bbo_sub_main_def volume_band_sub_main_def price_band_sub_main_def by blast
  moreover from this(1) have "config_ok config \<and> HasMarket config \<and> HasAnyFeed config"
    by (elim insertE emptyE) (simp_all add: config_ok_def HasMarket_def HasAnyFeed_def default_config_def)
  ultimately show ?thesis by blast
qed

lemma subscribing_accepted:
  assumes "client_app_main args = ClientSubscribes r \<or> ClientSubscribes r \<in> {bbo_sub_main, volume_band_sub_main, price_band_sub_main}"
  shows "(\<exists>x. Subscribe r s = Inr x) \<longleftrightarrow> ToInstrumentId (rq_symbol r) \<noteq> None"
proof -
  obtain config where c: "config_ok config" "HasMarket config" "HasAnyFeed config" "r = ToRequest config"
    using subscribing_config_ok[OF assms] by blast
  then show ?thesis using request_accepted[OF c(1), of s] by (simp add: ToRequest_def)
qed

section \<open>Where the client goes wrong\<close>

text \<open>A threshold beyond the word wraps around, a width that is no number counts as zero, and a stream whose numbers fall back to zero after a
  gap divides by zero when it ends.\<close>

lemma notional_flag_wraps: "ParseNotional ''184467440738'' = Some 90448384"
proof -
  have "notional_parts ''184467440738'' = (1, ''184467440738'')" by code_simp
  moreover have "list_all is_digit ''184467440738''" "digits_value ''184467440738'' = 184467440738" by (simp_all add: is_digit_def digits_value_def digit_def)
  moreover have "of_nat (184467440738 * 1 * 10 ^ 8) = (90448384 :: u64)" by simp
  ultimately show ?thesis by (simp only: ParseNotional_exact[of "''184467440738''"] list.distinct prod.case simp_thms if_True)
qed

lemma price_band_garbage:
  "ClientParseFromArgs [''--price_band=abc''] = Inr (default_config\<lparr>cc_want_price_bands := True, cc_bps_bands := [0]\<rparr>)"
proof -
  have f: "FlagValue ''--price_band=abc'' ''--server'' = None" "FlagValue ''--price_band=abc'' ''--symbol'' = None"
    "FlagValue ''--price_band=abc'' ''--market'' = None" "FlagValue ''--price_band=abc'' ''--notional_band'' = None"
    "FlagValue ''--price_band=abc'' ''--price_band'' = Some ''abc''" "SplitCsv ''abc'' = [''abc'']" by code_simp+
  have "strtoul10 ''abc'' = 0" by (simp add: strtoul10_def is_space_def is_digit_def Let_def)
  then show ?thesis by (simp add: ClientParseFromArgs_def parse_flag_def f default_config_def)
qed

lemma seq_reset_divides_by_zero:
  "gap_line (read_stream (map (\<lambda>q. empty_Update\<lparr>up_seq := q\<rparr>) [0, 2, 0])) = DivisionByZero"
  by (simp add: read_stream_def read_update_def new_reader_def gap_line_def empty_Update_def Let_def word_less_nat_alt)

end
