(* ===== verification/Logger.thy ===== *)
theory Logger
  imports Decimal
begin

text \<open>
  The log lines of every process (\<^verbatim>\<open>logger/logger.h\<close>): which levels are written, and the stamp in front of them. The text
  of a line is an argument, the printing of numbers the parameter \<open>fmt\<close>. The lemmas show that nothing but debug lines is
  suppressed, and that a stamp of fifteen characters names the time of the day to the microsecond.
\<close>


datatype LogLevel = kDebug | kInfo | kWarning | kError

fun log_rank :: "LogLevel \<Rightarrow> nat" where
  "log_rank kDebug = 0"
| "log_rank kInfo = 1"
| "log_rank kWarning = 2"
| "log_rank kError = 3"

lemma log_rank_inj: "log_rank l = log_rank l' \<Longrightarrow> l = l'"
  by (cases l; cases l'; simp)

text \<open>Levels are compared by the number of their enumerator.\<close>

instantiation LogLevel :: linorder
begin

definition less_eq_LogLevel :: "LogLevel \<Rightarrow> LogLevel \<Rightarrow> bool" where
  "l \<le> l' \<longleftrightarrow> log_rank l \<le> log_rank l'"

definition less_LogLevel :: "LogLevel \<Rightarrow> LogLevel \<Rightarrow> bool" where
  "l < l' \<longleftrightarrow> log_rank l < log_rank l'"

instance
  by standard (auto simp: less_eq_LogLevel_def less_LogLevel_def dest: log_rank_inj)

end

definition min_level :: LogLevel where "min_level = kInfo"

fun LogLevel_ToString :: "LogLevel \<Rightarrow> string" where
  "LogLevel_ToString kDebug = ''DEBUG''"
| "LogLevel_ToString kInfo = ''INFO''"
| "LogLevel_ToString kWarning = ''WARNING''"
| "LogLevel_ToString kError = ''ERROR''"

text \<open>The clock reads \<open>now\<close> microseconds since the epoch; the library's calendar time of a second is UTC.\<close>

definition Timestamp :: "(nat \<Rightarrow> nat \<Rightarrow> string) \<Rightarrow> nat \<Rightarrow> string" where
  "Timestamp fmt now =
     (let seconds = now div 1000000; micros = now - seconds * 1000000
      in fmt 2 (seconds div 3600 mod 24) @ '':'' @ fmt 2 (seconds div 60 mod 60) @ '':'' @ fmt 2 (seconds mod 60) @ ''.'' @ fmt 6 micros)"

text \<open>A suppressed line reads no clock and formats nothing.\<close>

definition Logger_Log :: "(nat \<Rightarrow> nat \<Rightarrow> string) \<Rightarrow> LogLevel \<Rightarrow> nat \<Rightarrow> string \<Rightarrow> string option" where
  "Logger_Log fmt level now line =
     (if level < min_level then None
      else Some (''['' @ Timestamp fmt now @ ''] ['' @ LogLevel_ToString level @ ''] '' @ line @ [char_of (10 :: nat)]))"

lemma only_debug_suppressed: "Logger_Log fmt level now line = None \<longleftrightarrow> level = kDebug"
  by (cases level) (simp_all add: Logger_Log_def less_LogLevel_def min_level_def)

text \<open>What a stamp says is read back from its fifteen characters: the time of the day, to the microsecond.\<close>

lemma timestamp_width:
  assumes "prints_decimal fmt"
  shows "length (Timestamp fmt now) = 15"
proof -
  have "length (fmt 2 n) = 2" if "n < 60" for n using assms that by (simp add: prints_decimal_def)
  moreover have "length (fmt 6 n) = 6" if "n < 1000000" for n using assms that by (simp add: prints_decimal_def)
  moreover have "now - now div 1000000 * 1000000 < 1000000" by (simp add: minus_div_mult_eq_mod)
  moreover have "a mod 24 < 60" for a :: nat using mod_less_divisor[of 24 a] by linarith
  ultimately show ?thesis by (simp add: Timestamp_def Let_def)
qed

lemma timestamp_exact:
  fixes now :: nat
  assumes "prints_decimal fmt"
  defines "s \<equiv> Timestamp fmt now"
  shows "((digits_value (take 2 s) * 60 + digits_value (take 2 (drop 3 s))) * 60 + digits_value (take 2 (drop 6 s))) * 1000000 +
    digits_value (drop 9 s) = now mod (24 * 60 * 60 * 1000000)"
proof -
  let ?secs = "now div 1000000"
  have two: "length (fmt 2 n) = 2" if "n < 60" for n using assms that by (simp add: prints_decimal_def)
  have v: "digits_value (fmt w n) = n" for w n using assms(1) by (simp add: prints_decimal_def)
  have h: "length (fmt 2 (?secs div 3600 mod 24)) = 2" "length (fmt 2 (?secs div 60 mod 60)) = 2" "length (fmt 2 (?secs mod 60)) = 2"
    by (rule two; simp add: order_less_trans[OF mod_less_divisor])+
  have parts: "take 2 s = fmt 2 (?secs div 3600 mod 24)" "take 2 (drop 3 s) = fmt 2 (?secs div 60 mod 60)"
    "take 2 (drop 6 s) = fmt 2 (?secs mod 60)" "drop 9 s = fmt 6 (now - ?secs * 1000000)"
    using h unfolding s_def Timestamp_def Let_def by simp_all
  have "now - ?secs * 1000000 = now mod 1000000" by (rule minus_div_mult_eq_mod)
  moreover have "((?secs div 3600 mod 24 * 60 + ?secs div 60 mod 60) * 60 + ?secs mod 60) = ?secs mod 86400"
    using mod_mult2_eq[of ?secs 60 1440] mod_mult2_eq[of "?secs div 60" 60 24] by (simp add: div_mult2_eq[symmetric])
  moreover have "now mod (24 * 60 * 60 * 1000000) = ?secs mod 86400 * 1000000 + now mod 1000000"
    using mod_mult2_eq[of now 1000000 86400] by simp
  ultimately show ?thesis unfolding parts v by simp
qed

end
