(* ===== verification/Spec2Isabelle.thy ===== *)
theory Spec2Isabelle
  imports Md_Core Consolidator Latency_Recorder Venue_Providers Message_Parsers Sessions Provider_Setup Transport Core_App Client Config Config_Json Logger
begin

text \<open>
Verification of the aggregated order book (C++, src/). The program merges the order books and best quotes of
  several exchanges into one consolidated book and one best bid and offer per instrument, and serves them to clients.

  Processes and their parts. One md_provider process per venue (src/md_provider, src/aggregator/md_provider_main.cpp)
  keeps redundant websocket connections to its venue, rejects duplicates, checks that the depth stream is unbroken,
  and hands updates, quotes and health verdicts to a sink, which sends them as frames (src/md_wire). One md_core process
  receives the frames, queues them per venue, drains the queues on one consolidator thread into the consolidated state
  (src/md_core), and publishes every new book and best bid and offer through callbacks to a gRPC service
  (src/aggregator), which selects each client's feeds and bands and conflates them for slow readers. The clients
  (src/client) build a request from flags, read the stream and count what was conflated. Configuration (src/config)
  names venues, instruments, depths and endpoints.

  Theories and sources.
    Prelude              machine words, sorted lists and positions, the ordering locales the books share
    Venue_Types          types/venue.h: venues, markets, packed instrument keys, spellings, staleness constants
    Registries           types/venue_registry.h, types/instrument_registry.h: name tables behind one locale
    Md_Types             md_core/types.h, md_core/venue_health.h: updates, quotes, verdicts, classifiers
    Flat_Order_Book      md_core/flat_order_book.*: a venue's book, the in-place walk, relocation, change lists
    Consolidated_Book    md_core/consolidated_book.*: the k-way merge
    Bands                md_core/consolidated_book.*: volume and price bands in 64- and 128-bit arithmetic
    Consolidated_State   md_core/consolidated_state.*: the merged book repaired from change lists
    Consolidated_Bbo     md_core/consolidated_bbo.*: best bid and offer, by scan and incrementally
    Spsc_Queue           md_core/spsc_queue.h, provider_message.h: the ring, alone and under two threads
    Md_Core              md_core/md_core.*: registration, removal, updates, quotes, health, queues, draining
    Consolidator         md_core/md_core.*: the consolidator thread with its doorbell, the producers and the owner, step by step
    Latency_Recorder     aggregator/latency_recorder.h and what the core measures for it
    Sequencing           md_provider/seq_dedup.*, continuity.*: duplicates and the venues' continuity rules
    Provider_Base        md_provider/md_provider.*: liveness, verdicts, resync, the reconnect loop
    Venue_Providers      md_provider/binance, bybit, okx (the providers): the handlers of parsed messages
    Message_Parsers      md_provider/binance, bybit, okx (the parsers): from the text of a message to its handler
    Sessions             md_provider/ws/ws.*, md_provider.*: the websockets and the worker thread of a provider, step by step
    Provider_Setup       md_provider/rest.* and the providers' constructors: endpoints, subscriptions, requests
    Wire_Codec           md_wire/wire_format.h, wire_codec.*: the five messages, byte by byte
    Transport            md_wire/zmq_provider_sink.*, zmq_core_ingress.*: both ends of the socket, composed with the core
    Decimal              md_provider/decimal.h: decimal text to scaled integers
    Logger               logger/logger.h: which lines are written and how they are stamped
    Aggregator_Service   aggregator/conflated_channel.h, wire_translation.*, aggregator_service.*, md_proto/aggregator.proto
    Core_App             aggregator/md_core_main.cpp: the callbacks that join core and service, and their interleaving
    Client               client/*: flags, requests, printed updates, gap counting, retries, the four programs
    Config               config/*, aggregator/provider_factory.cpp: tiers, validation, endpoint paths, provider configurations
    Config_Json          config/*, aggregator/md_core_main.cpp, md_provider_main.cpp: both documents, flags, the start of both processes

  State and operations. A class with mutable members is a record with the members' names, a method a function from the
  record to its new value; a handler is one function with its guards and early returns in the order of the code. An
  unordered map is a partial function, or a list of pairs where its iteration is visible; a vector is a list, a fixed array a list of
  its length. Integers are words of the width the code gives them, so they wrap as the code does; nanosecond stamps are
  64-bit words read as signed where the code compares them. Errors and early returns are values of an option or a sum.
  Where threads meet (the ring; the doorbell that wakes the consolidator; the sessions of the service) each atomic access or
  critical section is one step of an inductive relation, and the theorems hold for every interleaving of the steps. The doorbell
  and the ring's tails, whose acquire and release orders let a load overtake an earlier store of the same thread, are modelled with
  that: in \<open>Consolidator\<close> a store waits in its thread's buffer and becomes visible by a step of its own. A provider's handlers run on one
  io_context thread, so an execution is a sequence of handler calls; how that thread, its sockets, the exceptions that leave its
  handlers and the owner's calls interleave is the step relation of \<open>Sessions\<close>. What the outside world does (the socket refusing a frame, a snapshot
  failing, a client cancelling, the clocks) is an argument.

  What the lemmas show. Books: a venue's book stays ordered and maps prices to the quantities its updates name; the merge
  is the pointwise union of the admitted books; the incremental state and the running best bid and offer equal their
  full recomputation; every book the core publishes is such a merge. Queues and draining: nothing is lost, repeated or
  reordered but what a full ring counts; a consolidator that was told to stop is woken, one that misses the wake-up of a message
  handles it when the wait times out, and a stopped one has handled every message. Providers: redundant lines deliver each message once; the updates handed on
  build the venue's own book or the provider has resynced; a message is read exactly or refused whole, sizes in contracts
  are converted with the exchange's own contract size, and nothing is handed on under another venue or instrument; verdicts reach the core as edges; reconnection ends; the counts of live connections are exact until an exception ends a run, and never too high after that, a total
  outage is given out and ends a run, a call of Stop ends the thread except at one point of its loop, and every socket asks the configured host for the feeds its handler tells apart. Wire:
  what is encoded decodes to itself, what is cut short is rejected, and updates sent arrive in their queue in order.
  Service and clients: streams are numbered upwards and hold only what was asked for, a published book reaches a
  reader as its own bands, an accepted update reaches the clients of the server process, attributed to the venues of
  the moment, a client's gap count is exact, and printed amounts read back without rounding. Configuration: what is accepted is
  well formed, and two processes started from it agree. Self-measurement: every line is about samples that exist.

  Bounds and fuel. One definition runs on fuel: \<open>drain_slot\<close>, the loop that pops a venue's queue, gets one turn more than the ring
  has places, and \<open>drain_slot_all\<close> of \<open>Md_Core\<close> shows that this empties every queue. The placeholder substitution is a partial function whose result is proved
  to exist; the reconnect loop recurses on a list of passes and is proved to end after eleven losses. Theorems about arithmetic name the
  bounds they need (sums that fit 64 or 128 bits, sides of fewer than two to the 32 levels, session counters short
  of their last two values) as hypotheses.

  Parameters. The JSON library (simdjson): the accessors the parsers call are the fields of a record, \<open>OnDemand\<close> for the
  forward-only reader of the messages and \<open>Dom\<close> for the tree of the configuration, and every theorem holds for all
  accessors, a document being whatever they say it is; witnesses read small trees. The file system, a function from names
  to contents. The formatting library that prints numbers (its decimal digits and zero padding are the hypothesis
  \<open>prints_decimal\<close>, met by the printer \<open>padded\<close>), the venue names the protocol compiler generates, and the bytes a
  compiler leaves as structure padding.

  The libraries for sockets, TLS and HTTP: how an asynchronous operation ends is unconstrained in \<open>session_step\<close>, and what comes of
  a blocking request is the parameter \<open>Https\<close>.

  Not modelled. The embedded root certificates are data for the TLS library. The texts of log lines, the usage text, signal handling, the order
  of shutdown of md_core and the benchmarks produce output or end the process. Of the weak memory order what \<open>Consolidator\<close> has is
  the delay of stores, which is what x86 has, and old values of the running flag; no other load is delayed. A provider's Stop is one step of its owner, although the list of sockets it walks through is not
  guarded against the worker rebuilding it.
\<close>

section \<open>Sample inputs\<close>

text \<open>Small books and updates at which the properties below are instantiated.\<close>

definition lvl :: "u64 \<Rightarrow> u64 \<Rightarrow> PriceLevel" where
  "lvl p q = \<lparr>price = p, qty = q\<rparr>"

definition sample_key :: InstrumentKey where
  "sample_key = MakeKey BTCUSDT kSpot"

definition sample_update :: "VenueId \<Rightarrow> bool \<Rightarrow> PriceLevel list \<Rightarrow> PriceLevel list \<Rightarrow> BookUpdate" where
  "sample_update v snapshot bids asks =
     \<lparr>bu_venue = v, bu_instrument = sample_key, bu_seq = 7, bu_prev_seq = 6, bu_recv_ts_ns = 0, bu_exch_ts_ns = 0,
      bu_recv_mono_ns = 42, bu_is_snapshot = snapshot, bu_bids = bids, bu_asks = asks\<rparr>"

definition binance_snapshot :: BookUpdate where
  "binance_snapshot = sample_update BINANCE True [lvl 101 3, lvl 100 5] [lvl 102 4, lvl 103 1]"

definition binance_delta :: BookUpdate where
  "binance_delta = sample_update BINANCE False [lvl 101 0, lvl 99 2] [lvl 102 6]"

definition bybit_snapshot :: BookUpdate where
  "bybit_snapshot = sample_update BYBIT True [lvl 101 7, lvl 98 1] [lvl 102 2]"

definition binance_book :: FlatOrderBook where
  "binance_book = ApplyUpdate (new_book BINANCE sample_key) binance_snapshot"

definition bybit_book :: FlatOrderBook where
  "bybit_book = ApplyUpdate (new_book BYBIT sample_key) bybit_snapshot"

definition sample_books :: FlatBookArray where
  "sample_books =
     [Some binance_book, Some bybit_book, None, None, None, None, None, None]"

definition live :: VenueHealthArray where
  "live = replicate 8 kLive"

lemma sample_wf [simp]: "wf_update binance_snapshot" "wf_update binance_delta" "wf_update bybit_snapshot"
  by (simp_all add: wf_update_def wf_levels_def sample_update_def binance_snapshot_def binance_delta_def bybit_snapshot_def lvl_def)

lemma binance_book_ok [simp]: "book_ok binance_book"
  unfolding binance_book_def by (rule ApplyUpdate_ok) simp_all

lemma bybit_book_ok [simp]: "book_ok bybit_book"
  unfolding bybit_book_def by (rule ApplyUpdate_ok) simp_all

lemma sample_books_ok [simp]: "books_ok sample_books"
  by (simp add: books_ok_def sample_books_def kMaxVenues_def)

section \<open>Venue books\<close>

text \<open>C4. After an update a venue's book maps every price to the quantity the update names, to
  nothing where the update deletes, and to what it held before at every other price; a snapshot starts from the
  empty book. Bids and asks are handled independently.\<close>

theorem venue_book_update:
  assumes "book_ok b" "wf_update u"
  shows "bid_lookup (ApplyUpdate b u) p =
      apply_delta (if bu_is_snapshot u then (\<lambda>_. None) else bid_lookup b) (bu_bids u) p \<and>
    ask_lookup (ApplyUpdate b u) p =
      apply_delta (if bu_is_snapshot u then (\<lambda>_. None) else ask_lookup b) (bu_asks u) p"
  using bid_lookup_ApplyUpdate[OF assms] ask_lookup_ApplyUpdate[OF assms] by simp

theorem venue_book_update_witness:
  "bid_lookup (ApplyUpdate binance_book binance_delta) 99 = Some 2 \<and>
   bid_lookup (ApplyUpdate binance_book binance_delta) 101 = None \<and>
   bid_lookup (ApplyUpdate binance_book binance_delta) 100 = Some 5"
proof -
  have "apply_delta (bid_lookup binance_book) (bu_bids binance_delta) 99 = Some 2"
    "apply_delta (bid_lookup binance_book) (bu_bids binance_delta) 101 = None"
    "apply_delta (bid_lookup binance_book) (bu_bids binance_delta) 100 = Some 5" by code_simp+
  moreover have "\<not> bu_is_snapshot binance_delta" by (simp add: binance_delta_def sample_update_def)
  ultimately show ?thesis using venue_book_update[OF binance_book_ok sample_wf(2)] by simp
qed

text \<open>Note. An update keeps both sides of a venue's book strictly ordered with the best price at
  the back, free of zero quantities and of price zero.\<close>

theorem venue_book_invariant:
  assumes "book_ok b" "wf_update u"
  shows "sorted_wrt (<) (map price (fb_bids (ApplyUpdate b u))) \<and>
    sorted_wrt (\<lambda>x y. y < x) (map price (fb_asks (ApplyUpdate b u))) \<and>
    (\<forall>l \<in> set (fb_bids (ApplyUpdate b u)) \<union> set (fb_asks (ApplyUpdate b u)). qty l \<noteq> 0 \<and> price l \<noteq> 0)"
  using ApplyUpdate_ok[OF assms] by (auto simp: book_ok_def side_ok_def image_iff)

theorem venue_book_invariant_witness:
  "sorted_wrt (<) (map price (fb_bids (ApplyUpdate binance_book binance_delta)))"
  using venue_book_invariant[OF binance_book_ok sample_wf(2)] by blast

text \<open>Note. The change list of an incremental update is exact: it has an entry for a price if and
  only if the quantity there moved, with the old and the new quantity, and each price appears once, best first.\<close>

theorem level_changes_exact:
  assumes "book_ok b" "wf_update u" "\<not> bu_is_snapshot u"
  shows "find_key lc_price (fb_last_bid_changes (ApplyUpdate b u)) p =
      change_at (bid_lookup b) (bid_lookup (ApplyUpdate b u)) p \<and>
    find_key lc_price (fb_last_ask_changes (ApplyUpdate b u)) p =
      change_at (ask_lookup b) (ask_lookup (ApplyUpdate b u)) p \<and>
    sorted_wrt (\<lambda>x y. y < x) (map lc_price (fb_last_bid_changes (ApplyUpdate b u))) \<and>
    sorted_wrt (<) (map lc_price (fb_last_ask_changes (ApplyUpdate b u)))"
  using ApplyUpdate_bid_changes[OF assms] ApplyUpdate_ask_changes[OF assms] by blast

theorem level_changes_exact_witness:
  "find_key lc_price (fb_last_bid_changes (ApplyUpdate binance_book binance_delta)) 101 =
     Some \<lparr>lc_price = 101, old_qty = 3, new_qty = 0\<rparr>"
proof -
  have "\<not> bu_is_snapshot binance_delta" by (simp add: binance_delta_def sample_update_def)
  moreover have "change_at (bid_lookup binance_book) (bid_lookup (ApplyUpdate binance_book binance_delta)) 101 =
      Some \<lparr>lc_price = 101, old_qty = 3, new_qty = 0\<rparr>" by code_simp
  ultimately show ?thesis using level_changes_exact[OF binance_book_ok sample_wf(2), of 101] by simp
qed

text \<open>Note. A side counts as updated on the fast path, with nothing moved, exactly when no price enters
  or leaves the side: every entry sets the quantity of a level that is there or deletes one that is not.\<close>

theorem fast_path_iff:
  assumes "side_ok (<) side" "distinct (map price levels)" "levels \<noteq> []"
  shows "(sr_fast (ApplySide (<) side levels collect) = 1 \<longleftrightarrow>
      (\<forall>p. side_lookup side p = None \<longleftrightarrow> apply_delta (side_lookup side) levels p = None)) \<and>
    (sr_fast (ApplySide (<) side levels collect) = 1 \<longrightarrow> sr_bytes (ApplySide (<) side levels collect) = 0)"
  using up.ApplySide_fast_iff[OF assms] up.ApplySide_fast_bytes by blast

theorem fast_path_iff_witness:
  "sr_bytes (ApplySide (<) [lvl 100 5, lvl 101 3] [lvl 101 9] True) = 0"
proof -
  have ok: "side_ok (<) [lvl 100 5, lvl 101 3]" by (simp add: side_ok_def lvl_def)
  have "sr_fast (ApplySide (<) [lvl 100 5, lvl 101 3] [lvl 101 9] True) = 1" by code_simp
  then show ?thesis using fast_path_iff[OF ok, of "[lvl 101 9]" True] by simp
qed

text \<open>Note. The best bid of a venue is its highest bid with the quantity there and the best ask its lowest
  ask; a side has no best price exactly when it is empty.\<close>

theorem best_prices:
  assumes "book_ok b"
  shows "(case BestBid b of None \<Rightarrow> (\<forall>p. bid_lookup b p = None)
      | Some (p, q) \<Rightarrow> bid_lookup b p = Some q \<and> (\<forall>p' q'. bid_lookup b p' = Some q' \<longrightarrow> p' \<le> p)) \<and>
    (case BestAsk b of None \<Rightarrow> (\<forall>p. ask_lookup b p = None)
      | Some (p, q) \<Rightarrow> ask_lookup b p = Some q \<and> (\<forall>p' q'. ask_lookup b p' = Some q' \<longrightarrow> p \<le> p'))"
  using BestBid_Some[OF assms] BestAsk_Some[OF assms] BestBid_None[of b] BestAsk_None[of b]
  by (auto split: option.splits)

theorem best_prices_witness: "BestBid binance_book = Some (101, 3) \<and> bid_lookup binance_book 101 = Some 3"
proof -
  have "BestBid binance_book = Some (101, 3)" by code_simp
  then show ?thesis using best_prices[OF binance_book_ok] by simp
qed

text \<open>Note. Without the assumption that a delta names a price once the side loses its
  order: two entries for one price that both set a quantity leave two levels at that price.\<close>

theorem duplicate_price_corrupts_side:
  "map price (fb_bids (ApplyUpdate binance_book (sample_update BINANCE False [lvl 100 3, lvl 100 4] []))) = [100, 100, 101] \<and>
   \<not> book_ok (ApplyUpdate binance_book (sample_update BINANCE False [lvl 100 3, lvl 100 4] []))"
  by code_simp

section \<open>The consolidated book\<close>

text \<open>C6. The k-way merge produces, on each side, strictly ordered levels, best first; at every price
  there is a level exactly if some admitted venue quotes that price, and it lists the quantities of those venues
  in slot order with their sum. Venues that are absent or not live contribute nothing.\<close>

theorem merge_correct:
  fixes books k out health
  assumes "books_ok books"
  defines "n \<equiv> min k (length books)"
  defines "m \<equiv> MergeBooks books k out kUnboundedDepth health"
  shows "sorted_wrt (\<lambda>x y. y < x) (map ml_price (bk_bids m)) \<and> sorted_wrt (<) (map ml_price (bk_asks m)) \<and>
    (\<forall>p. find_key ml_price (bk_bids m) p = level_of p (contributions 0 (venue_maps bid_lookup books n health) p)) \<and>
    (\<forall>p. find_key ml_price (bk_asks m) p = level_of p (contributions 0 (venue_maps ask_lookup books n health) p))"
  using MergeBooks_consolidates[OF assms(1), of k health out]
  by (simp add: consolidates_def merges_def merged_at_def n_def m_def)

theorem merge_correct_witness:
  "find_key ml_price (bk_bids (MergeBooks sample_books 2 empty_Book kUnboundedDepth (Some live))) 101 =
     Some \<lparr>ml_price = 101, ml_venues = [\<lparr>vq_slot = 0, vq_qty = 3\<rparr>, \<lparr>vq_slot = 1, vq_qty = 7\<rparr>], ml_qty = 10\<rparr>"
proof -
  have "level_of 101 (contributions 0 (venue_maps bid_lookup sample_books (min 2 (length sample_books)) (Some live)) 101) =
      Some \<lparr>ml_price = 101, ml_venues = [\<lparr>vq_slot = 0, vq_qty = 3\<rparr>, \<lparr>vq_slot = 1, vq_qty = 7\<rparr>], ml_qty = 10\<rparr>" by code_simp
  then show ?thesis using merge_correct[OF sample_books_ok, of 2 empty_Book "Some live"] by simp
qed

text \<open>Note. A depth limit keeps the best levels of the unlimited merge and nothing else.\<close>

theorem merge_depth:
  assumes "books_ok books"
  shows "bk_bids (MergeBooks books n out d health) = take d (bk_bids (MergeBooks books n out kUnboundedDepth health)) \<and>
    bk_asks (MergeBooks books n out d health) = take d (bk_asks (MergeBooks books n out kUnboundedDepth health))"
  using MergeBooks_depth[OF assms] by blast

theorem merge_depth_witness:
  "bk_bids (MergeBooks sample_books 2 empty_Book kDefaultMaxDepth None) =
     take kDefaultMaxDepth (bk_bids (MergeBooks sample_books 2 empty_Book kUnboundedDepth None))"
  using merge_depth[OF sample_books_ok] by blast

text \<open>C3. Repairing the consolidated book from one venue's changes gives the book a full rebuild
  would give: if the state is the rebuild of the venue books, then after an incremental update of an admitted
  venue's book, folding in the changes that book reports yields the rebuild of the new venue books.\<close>

theorem incremental_is_rebuild:
  assumes "st_book st = st_book (FullRebuild st books n health)" "books_ok books" "slot < min n (length books)"
    and "books ! slot = Some b" "admitted health slot" "wf_update u" "\<not> bu_is_snapshot u"
  defines "b' \<equiv> ApplyUpdate b u"
  defines "st' \<equiv> ApplyDepthDelta st slot (fb_last_bid_changes b') (fb_last_ask_changes b')"
  shows "st_book st' = st_book (FullRebuild st' (books[slot := Some b']) n health)"
proof (rule consolidates_rebuild_eq)
  have old: "consolidates books n health (st_book st)" by (subst assms(1)) (rule FullRebuild_consolidates[OF assms(2)])
  show "consolidates (books[slot := Some b']) n health (st_book st')"
    unfolding st'_def b'_def by (rule ApplyDepthDelta_consolidates[OF old assms(2-7) refl])
  have "book_ok b" using assms(2-4) nth_Some_mem[of books slot b] by (simp add: books_ok_def)
  then show "books_ok (books[slot := Some b'])"
    using books_ok_update(1)[OF assms(2) ApplyUpdate_ok[OF _ assms(6)]] by (simp add: b'_def)
qed

theorem incremental_is_rebuild_witness:
  "let b' = ApplyUpdate binance_book binance_delta;
       st = FullRebuild new_State sample_books 2 (Some live);
       st' = ApplyDepthDelta st 0 (fb_last_bid_changes b') (fb_last_ask_changes b')
   in st_book st' = st_book (FullRebuild st' (sample_books[0 := Some b']) 2 (Some live))"
proof -
  let ?st = "FullRebuild new_State sample_books 2 (Some live)"
  have "st_book ?st = st_book (FullRebuild ?st sample_books 2 (Some live))"
    by (intro consolidates_rebuild_eq FullRebuild_consolidates) simp_all
  moreover have "0 < min 2 (length sample_books)" "sample_books ! 0 = Some binance_book" "admitted (Some live) 0"
    "\<not> bu_is_snapshot binance_delta"
    by (simp_all add: sample_books_def admitted_def live_def IsAdmissible_def binance_delta_def sample_update_def)
  ultimately show ?thesis
    using incremental_is_rebuild[of ?st sample_books 2 "Some live" 0 binance_book binance_delta] by (simp add: Let_def)
qed

text \<open>Note. One venue's change at one price leaves every level at another price, and every other venue's
  contribution at that price, as they were.\<close>

theorem one_change_local:
  assumes "merges (\<lambda>x y. y < x) ms side" "slot < length ms" "length ms \<le> kMaxVenues"
  shows "merges (\<lambda>x y. y < x) (ms[slot := set_level (ms ! slot) (lc_price c) (new_qty c)])
    (fst (ApplyOneChange side slot c (\<lambda>x y. y < x)))"
  by (rule down.ApplyOneChange_merges[OF assms])

theorem one_change_local_witness:
  "merges (\<lambda>x y. y < x) ([\<lambda>_. None, \<lambda>_. None][1 := set_level (\<lambda>_. None) 100 5])
     (fst (ApplyOneChange [] 1 \<lparr>lc_price = 100, old_qty = 0, new_qty = 5\<rparr> (\<lambda>x y. y < x)))"
proof -
  have "merges (\<lambda>x y. y < x) [\<lambda>_. None, \<lambda>_. None] []" by (simp add: merges_def merged_at_def level_of_def)
  from one_change_local[OF this, of 1 "\<lparr>lc_price = 100, old_qty = 0, new_qty = 5\<rparr>"] show ?thesis by (simp add: kMaxVenues_def)
qed

section \<open>Bands\<close>

definition sample_asks :: "MergedLevel list" where
  "sample_asks =
     [\<lparr>ml_price = 100, ml_venues = [\<lparr>vq_slot = 0, vq_qty = 3000000\<rparr>], ml_qty = 3000000\<rparr>,
      \<lparr>ml_price = 101, ml_venues = [\<lparr>vq_slot = 1, vq_qty = 5000000\<rparr>], ml_qty = 5000000\<rparr>]"

lemma sample_asks_fit [simp]: "depth_fits sample_asks"
  by (simp add: depth_fits_def sample_asks_def)

text \<open>Note. The one-walk computation of all volume bands gives, for ascending targets, exactly what
  computing each band on its own gives.\<close>

theorem volume_bands_one_walk:
  assumes "sorted targets"
  shows "FillToNotionalBands side targets = map (FillToNotional side) targets"
  by (rule FillToNotionalBands_map[OF assms])

theorem volume_bands_one_walk_witness:
  "FillToNotionalBands sample_asks [2, 4, 9] = map (FillToNotional sample_asks) [2, 4, 9]"
  using volume_bands_one_walk[of "[2, 4, 9]"] by simp

text \<open>C12. A volume band whose target the side can fill stops in the level \<open>k\<close> whose cumulative notional
  first reaches the target; the price there is not zero, so the division is defined, and the filled quantity,
  the filled notional and the average price are exactly those of the levels above it plus the truncated share of it.
  The 64-bit and 128-bit arithmetic loses nothing, and the fill misses the target by less than one unit at that price.\<close>

theorem volume_band_exact:
  assumes "depth_fits side" "t \<noteq> 0" "unat t * 10 ^ 8 \<le> side_notional side"
  defines "T \<equiv> unat t * 10 ^ 8"
  shows "\<exists>k. is_crossing side k T \<and> ml_price (side ! k) \<noteq> 0 \<and>
    nf_worst_price (FillToNotional side t) = ml_price (side ! k) \<and>
    unat (nf_filled_qty (FillToNotional side t)) = crossing_qty side k T \<and>
    unat (nf_filled_notional (FillToNotional side t)) = crossing_notional side k T div 10 ^ 8 \<and>
    unat (nf_vwap (FillToNotional side t)) = crossing_notional side k T div crossing_qty side k T \<and>
    crossing_notional side k T \<le> T \<and> T < crossing_notional side k T + unat (ml_price (side ! k))"
proof -
  obtain k q n where k: "k < length side" "unat q = side_qty (take k side)" "unat n = side_notional (take k side)"
    "unat n < T" "T \<le> side_notional (take (Suc k) side)" "FillToNotional side t = FillAtCrossing side k q n (target_raw t)"
    using FillToNotional_crossing[OF assms(1,3,2)] unfolding T_def by blast
  then have c: "is_crossing side k T" by (simp add: is_crossing_def)
  show ?thesis
    using c k(6) crossing_facts(1,3,4)[OF c] FillAtCrossing_values[OF assms(1) c[unfolded T_def] k(2,3)]
    by (intro exI[of _ k]) (auto simp: T_def)
qed

theorem volume_band_exact_witness:
  "\<exists>k. is_crossing sample_asks k (4 * 10 ^ 8) \<and>
    unat (nf_filled_qty (FillToNotional sample_asks 4)) = crossing_qty sample_asks k (4 * 10 ^ 8)"
proof -
  have "unat (4 :: u64) * 10 ^ 8 \<le> side_notional sample_asks" by (simp add: sample_asks_def)
  then show ?thesis using volume_band_exact[OF sample_asks_fit, of 4] by auto
qed

text \<open>Note. A volume band reports insufficient depth exactly when the whole side is worth less than the
  target, and it never reports more filled notional than was asked for.\<close>

theorem volume_band_honest:
  assumes "depth_fits side"
  shows "(nf_insufficient_depth (FillToNotional side t) \<longleftrightarrow> side_notional side < unat t * 10 ^ 8) \<and>
    unat (nf_filled_notional (FillToNotional side t)) \<le> unat t"
  using FillToNotional_insufficient[OF assms] FillToNotional_never_overfills[OF assms] by blast

theorem volume_band_honest_witness:
  "nf_insufficient_depth (FillToNotional sample_asks 9) \<and> \<not> nf_insufficient_depth (FillToNotional sample_asks 8)"
proof -
  have "side_notional sample_asks < unat (9 :: u64) * 10 ^ 8" "\<not> side_notional sample_asks < unat (8 :: u64) * 10 ^ 8"
    by (simp_all add: sample_asks_def)
  then show ?thesis using volume_band_honest[OF sample_asks_fit] by blast
qed

text \<open>Note. On a side ordered as asks the average price of a non-empty fill lies between the best price
  and the worst price touched.\<close>

theorem vwap_between_prices:
  assumes "depth_fits side" "side \<noteq> []" "sorted_wrt (<) (map ml_price side)" "nf_filled_qty (FillToNotional side t) \<noteq> 0"
  shows "ml_price (hd side) \<le> nf_vwap (FillToNotional side t) \<and>
    nf_vwap (FillToNotional side t) \<le> nf_worst_price (FillToNotional side t)"
proof -
  let ?f = "FillToNotional side t"
  have "\<forall>l \<in> set (take (Suc k) side). unat (ml_price (hd side)) \<le> unat (ml_price l) \<and> unat (ml_price l) \<le> unat (nf_worst_price ?f)"
    if "k < length side" "ml_price (side ! k) = nf_worst_price ?f" for k
    using prefix_between[OF assms(3) that(1)] that(2) by (fastforce simp: word_less_nat_alt)
  from FillToNotional_vwap[OF assms(1,2,4) this] show ?thesis by (simp add: word_le_nat_alt)
qed

theorem vwap_between_prices_witness:
  "ml_price (hd sample_asks) \<le> nf_vwap (FillToNotional sample_asks 4) \<and> nf_vwap (FillToNotional sample_asks 4) \<le> 101"
proof -
  have "nf_filled_qty (FillToNotional sample_asks 4) \<noteq> 0" "nf_worst_price (FillToNotional sample_asks 4) = 101" by code_simp+
  moreover have "sample_asks \<noteq> []" "sorted_wrt (<) (map ml_price sample_asks)" by (simp_all add: sample_asks_def)
  ultimately show ?thesis using vwap_between_prices[OF sample_asks_fit, of 4] by metis
qed

text \<open>Note. The one-walk computation of all price bands gives, for ascending widths, what computing each
  band on its own gives; ask limits must fit the 64-bit price.\<close>

theorem price_bands_one_walk:
  assumes "sorted bands" "\<forall>b \<in> set bands. side \<noteq> [] \<longrightarrow> bps_fits (ml_price (hd side)) is_bid b"
  shows "FillToBpsBands side bands is_bid = map (\<lambda>bps. FillToBps side bps is_bid) bands"
  by (rule FillToBpsBands_map[OF assms])

theorem price_bands_one_walk_witness:
  "FillToBpsBands sample_asks [50, 100, 200] False = map (\<lambda>bps. FillToBps sample_asks bps False) [50, 100, 200]"
proof (rule price_bands_one_walk)
  show "\<forall>b \<in> set [50, 100, 200]. sample_asks \<noteq> [] \<longrightarrow> bps_fits (ml_price (hd sample_asks)) False b"
    by (simp add: bps_fits_def sample_asks_def)
qed simp

text \<open>Note. On a side in price order a price band covers exactly the levels within its limit: their
  count, total quantity and notional are reported, and insufficient depth exactly when no level lies outside.\<close>

theorem price_band_exact:
  fixes side bps
  assumes "sorted_wrt (<) (map ml_price side)" "side \<noteq> []"
  defines "band \<equiv> filter (\<lambda>l. ml_price l \<le> bps_limit (ml_price (hd side)) bps False) side"
  shows "bf_cum_qty (FillToBps side bps False) = sum_list (map ml_qty band) \<and>
    bf_level_count (FillToBps side bps False) = of_nat (length band) \<and>
    bf_cum_notional (FillToBps side bps False) = ucast (sum_list (map level_notional band) div scale128) \<and>
    (bf_insufficient_depth (FillToBps side bps False) \<longleftrightarrow> band = side)"
proof -
  have b: "filter (bps_inside False (bps_limit (ml_price (hd side)) bps False)) side = band"
    unfolding band_def bps_inside_def by simp
  have "sorted_wrt (if False then (\<lambda>a b. b < a) else (<)) (map ml_price side)" using assms(1) by simp
  from FillToBps_exact[OF this assms(2), of bps, unfolded b] show ?thesis by blast
qed

theorem price_band_exact_witness:
  "bf_level_count (FillToBps sample_asks 50 False) = 1 \<and> \<not> bf_insufficient_depth (FillToBps sample_asks 50 False)"
proof -
  have "sorted_wrt (<) (map ml_price sample_asks)" "sample_asks \<noteq> []" by (simp_all add: sample_asks_def)
  moreover have "filter (\<lambda>l. ml_price l \<le> bps_limit (ml_price (hd sample_asks)) 50 False) sample_asks = [hd sample_asks]" by code_simp
  ultimately show ?thesis using price_band_exact[of sample_asks 50] by (auto simp: sample_asks_def)
qed

text \<open>Note. The limit of a bid band is the best bid scaled by one minus the width, truncated, and zero for a
  width of one hundred percent or more; it never exceeds the best bid.\<close>

theorem bid_limit_exact:
  "unat (bps_limit p bps True) = unat p * (10000 - min (unat bps) 10000) div 10000 \<and> bps_limit p bps True \<le> p"
proof -
  have "unat p * (10000 - min (unat bps) 10000) div 10000 \<le> unat p * 10000 div 10000"
    by (intro div_le_mono mult_left_mono) auto
  then show ?thesis by (simp add: bps_limit_bid word_le_nat_alt)
qed

text \<open>Note. On an empty side the two kinds of bands disagree: a volume band reports insufficient
  depth, a price band does not.\<close>

theorem empty_side_bands_disagree:
  "nf_insufficient_depth (FillToNotional [] 1) \<and> \<not> bf_insufficient_depth (FillToBps [] 1000 True)"
  by code_simp

section \<open>The best bid and offer\<close>

definition sample_quote :: "VenueId \<Rightarrow> u64 \<Rightarrow> u64 \<Rightarrow> u64 \<Rightarrow> u64 \<Rightarrow> BboQuote" where
  "sample_quote v bp bq ap aq = empty_quote\<lparr>q_venue := v, q_instrument := sample_key,
     q_bid_price := bp, q_bid_qty := bq, q_ask_price := ap, q_ask_qty := aq\<rparr>"

definition sample_quotes :: VenueQuoteArray where
  "sample_quotes = [sample_quote BINANCE 101 3 102 4, sample_quote BYBIT 101 7 102 2,
     empty_quote, empty_quote, empty_quote, empty_quote, empty_quote, empty_quote]"

text \<open>Note. Folding one venue's new quote into the running best bid and offer gives what a full
  scan of the stored quotes gives: the same prices, totals, crossed flag and attribution, up to the order in which
  tied venues are listed. The quote array already holds the new quote; venues that are not live are ignored.\<close>

theorem bbo_incremental_is_scan:
  assumes "bbo_ok quotes health bbo" "slot < length quotes" "slot < kMaxVenues"
  shows "same_bbo (UpdateBBOWithQuote bbo u slot (quotes[slot := u]) health)
    (ComputeBBOFromQuotes (quotes[slot := u]) health)"
  using bbo_ok_unique[OF UpdateBBOWithQuote_ok[OF assms] ComputeBBOFromQuotesInto_ok]
  by (simp add: ComputeBBOFromQuotes_def)

theorem bbo_incremental_is_scan_witness:
  "same_bbo (UpdateBBOWithQuote (ComputeBBOFromQuotes sample_quotes (Some live)) (sample_quote BINANCE 99 1 103 1) 0
      (sample_quotes[0 := sample_quote BINANCE 99 1 103 1]) (Some live))
    (ComputeBBOFromQuotes (sample_quotes[0 := sample_quote BINANCE 99 1 103 1]) (Some live))"
proof -
  have "bbo_ok sample_quotes (Some live) (ComputeBBOFromQuotes sample_quotes (Some live))"
    unfolding ComputeBBOFromQuotes_def by (rule ComputeBBOFromQuotesInto_ok)
  from bbo_incremental_is_scan[OF this, of 0] show ?thesis by (simp add: sample_quotes_def kMaxVenues_def)
qed

text \<open>Note. The scan of the quotes returns the highest usable bid and the lowest usable ask: no live venue
  shows a better price, the venues listed are exactly the live venues at that price with their quantities, the
  total is their sum, and without any usable price the level is empty.\<close>

theorem bbo_scan_correct:
  "best_level (\<lambda>x y. y < x) (tops q_bid_price q_bid_qty quotes health) (best_bid (ComputeBBOFromQuotes quotes health)) \<and>
   best_level (<) (tops q_ask_price q_ask_qty quotes health) (best_ask (ComputeBBOFromQuotes quotes health)) \<and>
   (crossed (ComputeBBOFromQuotes quotes health) \<longleftrightarrow>
      IsCrossed (best_bid (ComputeBBOFromQuotes quotes health)) (best_ask (ComputeBBOFromQuotes quotes health)))"
  using ComputeBBOFromQuotesInto_ok[of quotes health empty_BBO] by (simp add: ComputeBBOFromQuotes_def bbo_ok_def)

text \<open>Note. The best bid and offer of the depth books is the top of the merged book: same price, same
  total and same contributors on each side.\<close>

theorem bbo_is_top_of_merge:
  assumes "books_ok books"
  shows "same_level (best_bid (ComputeBBO books)) (top_level (bk_bids (MergeBooks books (length books) empty_Book kUnboundedDepth None))) \<and>
    same_level (best_ask (ComputeBBO books)) (top_level (bk_asks (MergeBooks books (length books) empty_Book kUnboundedDepth None)))"
  using ComputeBBO_top_of_merge[OF assms] by blast

theorem bbo_is_top_of_merge_witness:
  "same_level (best_bid (ComputeBBO sample_books))
     (top_level (bk_bids (MergeBooks sample_books (length sample_books) empty_Book kUnboundedDepth None)))"
  using bbo_is_top_of_merge[OF sample_books_ok] by blast

section \<open>The provider queues\<close>

text \<open>Note. The ring buffer with wrapping 64-bit cursors is a bounded first-in first-out list: a push
  succeeds exactly when fewer than \<open>cap\<close> items are queued and then appends, a failed push changes nothing, a pop
  returns and removes the oldest item, and the hints \<open>Empty\<close> and \<open>Full\<close> are exact.\<close>

theorem queue_refines_list:
  assumes "queue_ok cap q"
  shows "(fst (TryPush cap q v) \<longleftrightarrow> length (contents cap q) < cap) \<and>
    contents cap (snd (TryPush cap q v)) = (if length (contents cap q) < cap then contents cap q @ [v] else contents cap q) \<and>
    (length (contents cap q) = cap \<longrightarrow> snd (TryPush cap q v) = q) \<and>
    fst (TryPop cap q) = (case contents cap q of [] \<Rightarrow> None | x # _ \<Rightarrow> Some x) \<and>
    contents cap (snd (TryPop cap q)) = tl (contents cap q) \<and>
    queue_ok cap (snd (TryPush cap q v)) \<and> queue_ok cap (snd (TryPop cap q)) \<and>
    (Empty q \<longleftrightarrow> contents cap q = []) \<and> (Full cap q \<longleftrightarrow> length (contents cap q) = cap)"
  using spsc.push_items[OF assms, of v] spsc.pop_items[OF assms] spsc.push_full[OF assms, of v]
    Empty_contents Full_contents[OF assms] by auto

theorem queue_refines_list_witness:
  "contents 4 (snd (TryPush 4 (new_queue 4 (0 :: nat)) 1)) = [1] \<and>
   fst (TryPop 4 (snd (TryPush 4 (new_queue 4 (0 :: nat)) 1))) = Some 1"
proof -
  have sb: "single_bit 4" unfolding single_bit_def by (rule exI[of _ 2]) simp
  have n: "queue_ok 4 (new_queue 4 (0 :: nat))" "contents 4 (new_queue 4 (0 :: nat)) = []"
    using new_queue_ok[OF sb, of "0 :: nat"] by simp_all
  have q: "queue_ok 4 (snd (TryPush 4 (new_queue 4 (0 :: nat)) 1))"
    "contents 4 (snd (TryPush 4 (new_queue 4 (0 :: nat)) 1)) = [1]"
    using queue_refines_list[OF n(1), of 1] n(2) by (simp_all del: length_contents)
  show ?thesis using queue_refines_list[OF q(1), of 1] q(2) by (simp del: length_contents)
qed

text \<open>C8. Under every interleaving of one producer and one consumer between the loads and stores of
  their calls, the consumer receives exactly a prefix of what the producer sent, in order: nothing is lost,
  duplicated, reordered or read before it was written, and the ring never holds more than its capacity.\<close>

theorem queue_threads_fifo:
  assumes "single_bit cap" "(queue_step cap)\<^sup>*\<^sup>* (start_threads cap v) s"
  shows "th_pushed s = th_popped s @ contents cap (th_queue s) \<and> length (contents cap (th_queue s)) \<le> cap"
proof -
  have "threads_ok cap s" by (rule threads_ok_reachable[OF assms(2) threads_ok_start[OF assms(1)]])
  then show ?thesis by (simp add: threads_ok_def Let_def queue_ok_def)
qed

theorem queue_threads_fifo_witness:
  "th_pushed (start_threads 4 (0 :: nat)\<lparr>th_producer := PRoom 9\<rparr>) =
     th_popped (start_threads 4 (0 :: nat)\<lparr>th_producer := PRoom 9\<rparr>)
       @ contents 4 (th_queue (start_threads 4 (0 :: nat)\<lparr>th_producer := PRoom 9\<rparr>))"
proof -
  have sb: "single_bit 4" unfolding single_bit_def by (rule exI[of _ 2]) simp
  have "queue_step 4 (start_threads 4 (0 :: nat)) (start_threads 4 0\<lparr>th_producer := PRoom 9\<rparr>)"
    by (rule queue_step.push_check) (simp_all add: start_threads_def new_queue_def)
  then have "(queue_step 4)\<^sup>*\<^sup>* (start_threads 4 (0 :: nat)) (start_threads 4 0\<lparr>th_producer := PRoom 9\<rparr>)" by blast
  from queue_threads_fifo[OF sb this] show ?thesis by blast
qed

section \<open>The consolidator\<close>

definition sample_config :: CoreConfig where
  "sample_config = \<lparr>cfg_venues = [BINANCE, BYBIT], cfg_default_instruments = [sample_key]\<rparr>"

definition health_event :: "VenueId \<Rightarrow> StreamKind \<Rightarrow> VenueHealth \<Rightarrow> VenueHealthEvent" where
  "health_event v s h = \<lparr>he_venue = v, he_stream = s, he_health = h, he_decided_mono_ns = 0\<rparr>"

definition core0 :: Core where "core0 = Init (new_Core True True) sample_config"
definition core1 :: Core where "core1 = snd (RegisterVenue core0 ''BINANCE'')"
definition core2 :: Core where "core2 = OnVenueHealth core1 (health_event BINANCE kDepth kLive)"
definition core3 :: Core where "core3 = Core_ApplyUpdate core2 binance_snapshot"

lemmas core_run = Init_def AddInstrument_def new_Core_def RegisterVenue_def RegisterVenueName_def Register_def Find_def
  registry_size_def empty_registry_def ProcessRegistration_def MarkAllForRebuild_def Name_def VenueSlotIndex_def
  OnVenueHealth_def ProcessHealth_def SlotFor_def Core_ApplyUpdate_def Core_ApplyQuote_def ToVenueId_def
  sample_config_def health_event_def kMaxVenues_def kVenueCount_def map_at_def venue_count_def

lemma core1_fields:
  "co_bbo_health_version core1 = 0" "co_bbo_health core1 = replicate 8 kNoData" "co_depth_health core1 = replicate 8 kNoData"
  "co_venue_id_to_slot core1 = [Some 0, None, None]" "co_active_venues core1 = [Some BINANCE, None, None, None, None, None, None, None]"
  "co_venue_registry core1 = \<lparr>vr_names = [''BINANCE'']\<rparr>"
  "co_has_book_callback core1" "co_has_bbo_callback core1"
  "co_venue_books core1 = [sample_key \<mapsto> [Some (new_book BINANCE sample_key), None, None, None, None, None, None, None]]"
  "co_venue_quotes core1 = [sample_key \<mapsto> replicate 8 empty_quote]"
  "co_consolidated_bbo core1 = [sample_key \<mapsto> empty_BBO]"
  "co_bbo_health_version_seen core1 = Map.empty" "co_events core1 = []"
  "co_queues core1 = replicate 8 (new_queue kProviderQueueCapacity VenueRegistration)"
  by (simp_all add: core1_def core0_def core_run numeral_eq_Suc fun_eq_iff)

lemma core2_fields:
  "co_has_book_callback core2" "co_has_bbo_callback core2" "venue_count core2 = 1"
  "co_venue_registry core2 = co_venue_registry core1" "co_venue_id_to_slot core2 = co_venue_id_to_slot core1"
  "co_venue_books core2 = co_venue_books core1" "co_venue_quotes core2 = co_venue_quotes core1" "co_queues core2 = co_queues core1"
  by (simp_all add: core2_def core_run core1_fields)

lemma core3_step: "core3 = ProcessUpdate core2 0 binance_snapshot"
proof -
  have "SlotFor core2 (bu_venue binance_snapshot) = Some 0"
    by (simp add: core2_fields SlotFor_def core1_fields binance_snapshot_def sample_update_def)
  then show ?thesis by (simp add: core3_def Core_ApplyUpdate_def)
qed

lemma core3_fields:
  "co_has_book_callback core3" "co_has_bbo_callback core3" "SlotFor core3 BINANCE = Some 0" "venue_count core3 = 1"
  "co_venue_books core3 sample_key \<noteq> None" "co_venue_quotes core3 sample_key \<noteq> None"
  "co_queues core3 = replicate 8 (new_queue kProviderQueueCapacity VenueRegistration)"
  unfolding core3_step venue_count_def SlotFor_def
  by (simp_all add: ProcessUpdate_frame ProcessUpdate_books core2_fields core1_fields registry_size_def binance_snapshot_def
        sample_update_def)

lemma core0_reachable: "core_reachable core0"
  unfolding core_reachable_def core0_def sample_config_def
  by (rule exI[of _ True], rule exI[of _ True], rule exI[of _ "\<lparr>cfg_venues = [BINANCE, BYBIT], cfg_default_instruments = [sample_key]\<rparr>"]) simp

lemma reachable_step: "core_reachable c \<Longrightarrow> core_step c c' \<Longrightarrow> core_reachable c'"
  unfolding core_reachable_def by (meson rtranclp.rtrancl_into_rtrancl)

lemma core1_reachable: "core_reachable core1"
  unfolding core1_def by (rule reachable_step[OF core0_reachable step_register])

lemma core2_reachable: "core_reachable core2"
  unfolding core2_def
  by (rule reachable_step[OF core1_reachable step_health]) simp

lemma core3_reachable: "core_reachable core3"
  unfolding core3_def by (rule reachable_step[OF core2_reachable step_update]) simp

lemma core3_tidy: "tidy_reachable core3"
proof -
  note t = rtranclp.rtrancl_into_rtrancl[where r = "core_step_of True"]
  have "(core_step_of True)\<^sup>*\<^sup>* core0 core1" unfolding core1_def by (rule r_into_rtranclp, rule step_register)
  then have "(core_step_of True)\<^sup>*\<^sup>* core0 core2" unfolding core2_def
    by (rule t, intro step_health) (simp add: health_event_def core1_fields)
  then have "(core_step_of True)\<^sup>*\<^sup>* core0 core3" unfolding core3_def by (rule t, intro step_update) simp
  moreover have "distinct (cfg_default_instruments sample_config)" by (simp add: sample_config_def)
  ultimately show ?thesis unfolding tidy_reachable_def core0_def by blast
qed

lemma sample_keys [simp]:
  "bu_venue binance_delta = BINANCE" "bu_instrument binance_delta = sample_key"
  "q_venue (sample_quote v bp bq ap aq) = v" "q_instrument (sample_quote v bp bq ap aq) = sample_key"
  by (simp_all add: binance_delta_def sample_update_def sample_quote_def)

text \<open>C1. Whatever happened before, an update the core accepts publishes one book, and its levels
  are those a full merge of the current venue books under the current depth verdicts would produce, stamped with
  the update's arrival time and the depth of each venue's book.\<close>

theorem published_book_is_merge:
  assumes "core_reachable c" "co_has_book_callback c" "wf_update u" "SlotFor c (bu_venue u) = Some slot"
    and "co_venue_books c (bu_instrument u) = Some books"
  shows "\<exists>b books' published. books ! slot = Some b \<and> books' = books[slot := Some (ApplyUpdate b u)] \<and>
    co_venue_books (Core_ApplyUpdate c u) (bu_instrument u) = Some books' \<and>
    co_events (Core_ApplyUpdate c u) = co_events c @ [BookPublished (bu_instrument u) published] \<and>
    published = (MergeBooks books' (venue_count c) empty_Book kUnboundedDepth (Some (co_depth_health c)))
      \<lparr>bk_source_mono_ns := bu_recv_mono_ns u, bk_venue_levels := depth_levels books' (venue_count c)\<rparr>"
  using update_publishes_merge[OF core_reachable_ok[OF assms(1)] assms(2-5)]
  unfolding merged_book_def books_after_def by fastforce

theorem published_book_is_merge_witness:
  "\<exists>published. co_events (Core_ApplyUpdate core3 binance_delta) = co_events core3 @ [BookPublished sample_key published]"
  using published_book_is_merge[OF core3_reachable, of binance_delta 0] core3_fields by auto

text \<open>C5. A quote the core accepts publishes one best bid and offer, the one a full scan of the stored
  quotes under the current verdicts of the quote stream would give, in every state the core reaches while no instrument is added
  over the best bid and offer that an earlier life of it has left behind, every health event names one of the two streams, and
  the 64-bit health version does not run out. These are the conditions under which it holds: the notes on
  \<open>removed_instrument_keeps_bbo\<close> and \<open>unknown_stream_skips_rescan\<close> below are executions without the first two.\<close>

theorem published_bbo_is_scan:
  assumes "tidy_reachable c" "co_has_bbo_callback c" "SlotFor c (q_venue q) = Some slot"
    and "co_venue_quotes c (q_instrument q) = Some quotes"
  shows "\<exists>bbo. co_events (Core_ApplyQuote c q) = co_events c @ [BboPublished (q_instrument q) bbo] \<and>
    co_venue_quotes (Core_ApplyQuote c q) (q_instrument q) = Some (quotes[slot := q]) \<and>
    same_bbo bbo (ComputeBBOFromQuotes (quotes[slot := q]) (Some (co_bbo_health c)))"
proof -
  have ok: "core_ok c" "bbo_seen_ok c" using tidy_reachable_ok[OF assms(1)] quotes_okD(1) by blast+
  have slot: "slot < kMaxVenues" using SlotFor_active[OF ok(1) assms(3)] by blast
  obtain bbo where b: "co_venue_quotes (ProcessQuote c slot q) = (co_venue_quotes c)(q_instrument q \<mapsto> quotes[slot := q])"
    "co_events (ProcessQuote c slot q) = (if co_has_bbo_callback c then co_events c @ [BboPublished (q_instrument q) bbo] else co_events c)"
    "bbo_ok (quotes[slot := q]) (Some (co_bbo_health c)) bbo"
    by (rule ProcessQuote_state[OF ok slot assms(4)])
  then show ?thesis using assms(2,3) bbo_ok_unique[OF b(3) ComputeBBOFromQuotesInto_ok]
    by (auto simp: Core_ApplyQuote_def ComputeBBOFromQuotes_def)
qed

theorem published_bbo_is_scan_witness:
  "\<exists>bbo. co_events (Core_ApplyQuote core3 (sample_quote BINANCE 101 3 102 4)) = co_events core3 @ [BboPublished sample_key bbo]"
  using published_bbo_is_scan[OF core3_tidy, of "sample_quote BINANCE 101 3 102 4" 0] core3_fields by auto

text \<open>Note. One drain hands every message queued for a registered venue to its handler once, venue by
  venue and in the order it was queued, leaves those queues empty, and returns how many there were; the bound on
  the inner loop is never what stops it.\<close>

theorem drain_delivers_all:
  assumes "core_reachable c"
  shows "\<exists>qs. DrainOnce c = ((deliver (queued c) [0..<venue_count c] c)\<lparr>co_queues := qs\<rparr>,
      total_queued c [0..<venue_count c]) \<and>
    (\<forall>i < kMaxVenues. contents kProviderQueueCapacity (qs ! i) = (if i < venue_count c then [] else queued c i))"
  using DrainOnce_spec[OF core_reachable_ok[OF assms]] by metis

theorem drain_delivers_all_witness:
  "\<exists>qs. DrainOnce core3 = ((deliver (queued core3) [0..<venue_count core3] core3)\<lparr>co_queues := qs\<rparr>,
      total_queued core3 [0..<venue_count core3])"
  using drain_delivers_all[OF core3_reachable] by blast

text \<open>C7. In every reachable state a venue identifier resolves to a slot exactly when that slot is
  active for it; the slot was issued by the registry under the venue's name, no two identifiers share a slot, and
  every instrument holds a book for exactly the active slots, each created for the venue in its slot.\<close>

theorem venue_tables_agree:
  assumes "core_reachable c" "v \<noteq> COUNT"
  shows "(SlotFor c v = Some i \<longleftrightarrow> i < kMaxVenues \<and> co_active_venues c ! i = Some v) \<and>
    (SlotFor c v = Some i \<longrightarrow> i < venue_count c \<and> VenueName c i = ToVenueString v) \<and>
    (SlotFor c v = Some i \<longrightarrow> SlotFor c w = Some i \<longrightarrow> v = w) \<and>
    (co_venue_books c k = Some books \<longrightarrow> i < kMaxVenues \<longrightarrow> map_option fb_venue (books ! i) = co_active_venues c ! i)"
proof -
  have ok: "core_ok c" by (rule core_reachable_ok[OF assms(1)])
  note D = venues_okD[OF core_okD(3)[OF ok]]
  have len: "length (co_venue_id_to_slot c) = kVenueCount" using core_okD(1)[OF ok] by (simp add: shape_ok_def)
  have s: "SlotFor c v = co_venue_id_to_slot c ! venue_index v"
    using venue_index_less[OF assms(2)] len by (simp add: SlotFor_def Let_def)
  have iff: "SlotFor c v = Some i \<longleftrightarrow> i < kMaxVenues \<and> co_active_venues c ! i = Some v"
    using D(1)[of i v] D(2)[OF assms(2), of i] by (auto simp: s)
  have "VenueName c i = ToVenueString v" if "SlotFor c v = Some i"
    using D(1)[of i v] that iff ToVenueId_inj[of "VenueName c i" "ToVenueString v"] assms(2)
    by (simp add: ToVenueId_ToVenueString)
  then show ?thesis using iff D(1)[of i v] D(3)[of k books i] SlotFor_active[OF ok, of w i] by auto
qed

theorem venue_tables_agree_witness: "VenueName core3 0 = ToVenueString BINANCE"
  using venue_tables_agree[OF core3_reachable, of BINANCE 0] core3_fields(3) by simp

text \<open>C11. Removing an active venue frees its slot table entry and its books and clears its quotes and
  verdicts in every instrument, and latches every consolidated book for a rebuild; updates and quotes under its
  identifier are then dropped without effect, while its name keeps its slot for a reconnect.\<close>

theorem removed_venue_is_gone:
  assumes "core_reachable c" "SlotFor c v = Some slot"
  defines "c' \<equiv> RemoveVenue c slot"
  shows "SlotFor c' v = None \<and> VenueName c' slot = VenueName c slot \<and>
    (\<forall>k books. co_venue_books c' k = Some books \<longrightarrow> books ! slot = None) \<and>
    (\<forall>k quotes. co_venue_quotes c' k = Some quotes \<longrightarrow> quotes ! slot = empty_quote) \<and>
    (\<forall>k state. co_consolidated_state c' k = Some state \<longrightarrow> st_needs_rebuild state) \<and>
    \<not> IsAdmissible (co_depth_health c' ! slot) \<and> \<not> IsAdmissible (co_bbo_health c' ! slot) \<and>
    (bu_venue u = v \<longrightarrow> Core_ApplyUpdate c' u = c') \<and> (q_venue q = v \<longrightarrow> Core_ApplyQuote c' q = c')"
proof -
  have ok: "core_ok c" by (rule core_reachable_ok[OF assms(1)])
  have a: "v \<noteq> COUNT" "slot < venue_count c" "slot < kMaxVenues" "co_active_venues c ! slot = Some v"
    using SlotFor_active[OF ok assms(2)] by auto
  note R = RemoveVenue_active[OF a(2,4)] and sh = core_okD(1)[OF ok, unfolded shape_ok_def]
  have s: "SlotFor c' v = None"
    using sh venue_index_less[OF a(1)] unfolding c'_def by (simp add: R SlotFor_def Let_def)
  moreover have "\<forall>k books. co_venue_books c' k = Some books \<longrightarrow> books ! slot = None"
    "\<forall>k quotes. co_venue_quotes c' k = Some quotes \<longrightarrow> quotes ! slot = empty_quote"
    using sh a(3) unfolding c'_def by (auto simp: R)
  moreover have "\<forall>k state. co_consolidated_state c' k = Some state \<longrightarrow> st_needs_rebuild state"
    unfolding c'_def by (auto simp: R MarkAllForRebuild_def MarkForRebuild_def)
  moreover have "VenueName c' slot = VenueName c slot" "\<not> IsAdmissible (co_depth_health c' ! slot)"
    "\<not> IsAdmissible (co_bbo_health c' ! slot)"
    using sh a(3) unfolding c'_def by (simp_all add: R VenueName_def IsAdmissible_def)
  ultimately show ?thesis by (auto simp: Core_ApplyUpdate_def Core_ApplyQuote_def)
qed

theorem removed_venue_is_gone_witness: "SlotFor (RemoveVenue core3 0) BINANCE = None"
  using removed_venue_is_gone[OF core3_reachable core3_fields(3)] by blast

text \<open>Note. Handing a depth update to the core's queue either appends it, with the queue of every other venue
  untouched and nothing else changed, or, when the venue's ring is full, leaves all queues as they were and counts
  one overflow; it reports which.\<close>

theorem enqueue_bounded:
  fixes u
  assumes "core_reachable c" "slot < kMaxVenues"
  defines "r \<equiv> EnqueueUpdate c slot u"
  shows "(fst r \<longleftrightarrow> length (queued c slot) < kProviderQueueCapacity) \<and>
    (fst r \<longrightarrow> queued (snd r) slot = queued c slot @ [MsgUpdate u] \<and> (\<forall>j. j \<noteq> slot \<longrightarrow> co_queues (snd r) ! j = co_queues c ! j)) \<and>
    (\<not> fst r \<longrightarrow> snd r = c\<lparr>co_overflow_count := (co_overflow_count c)[slot := co_overflow_count c ! slot + 1]\<rparr>)"
proof -
  have ok: "core_ok c" by (rule core_reachable_ok[OF assms(1)])
  have len: "length (co_queues c) = kMaxVenues" using core_okD(1)[OF ok] by (simp add: shape_ok_def)
  then have "co_queues c ! slot \<in> set (co_queues c)" using assms(2) by simp
  then have "queue_ok kProviderQueueCapacity (co_queues c ! slot)" using core_okD(2)[OF ok] unfolding queues_ok_def by blast
  from TryEnqueueBounded_items[OF this, of "MsgUpdate u"] show ?thesis
    using len assms(2)
    by (auto simp: r_def EnqueueUpdate_def enqueue_or_overflow_def Let_def VenueSlotIndex_def NoteOverflow_def split: prod.splits)
qed

theorem enqueue_bounded_witness:
  "queued (snd (EnqueueUpdate core3 0 binance_delta)) 0 = queued core3 0 @ [MsgUpdate binance_delta]"
proof -
  have "queued core3 0 = []" using new_queue_ok[OF capacity_single_bit, of VenueRegistration] by (simp add: core3_fields)
  then have "length (queued core3 0) < kProviderQueueCapacity" by (simp add: kProviderQueueCapacity_def)
  then show ?thesis using enqueue_bounded[OF core3_reachable, of 0 binance_delta] by (simp add: kMaxVenues_def)
qed

text \<open>Note. A health event whose stream byte names neither stream changes the quote verdicts
  without advancing their version, so the best bid and offer keeps a venue that was just excluded.\<close>

theorem unknown_stream_skips_rescan:
  "let c = OnVenueHealth core1 (health_event BINANCE kBbo kLive);
       c' = OnVenueHealth c (health_event BINANCE (stream_of_u8 7) kStale)
   in co_bbo_health c ! 0 = kLive \<and> co_bbo_health c' ! 0 = kStale \<and> co_bbo_health_version c' = co_bbo_health_version c"
  by (simp add: core_run core1_fields Let_def stream_of_u8_def)

lemma replicate_eight: "replicate 8 x = [x, x, x, x, x, x, x, x]"
  by (simp add: numeral_eq_Suc)

definition core_two :: Core where
  "core_two = OnVenueHealth (OnVenueHealth (snd (RegisterVenue core1 ''BYBIT'')) (health_event BINANCE kBbo kLive)) (health_event BYBIT kBbo kLive)"

lemma core_two_fields:
  "co_bbo_health_version core_two = 2" "co_bbo_health core_two = [kLive, kLive, kNoData, kNoData, kNoData, kNoData, kNoData, kNoData]"
  "co_venue_id_to_slot core_two = [Some 0, Some 1, None]" "co_has_bbo_callback core_two"
  "co_venue_quotes core_two = [sample_key \<mapsto> replicate 8 empty_quote]"
  "co_consolidated_bbo core_two = [sample_key \<mapsto> empty_BBO]" "co_bbo_health_version_seen core_two = Map.empty" "co_events core_two = []"
  by (simp_all add: core_two_def core_run core1_fields Let_def replicate_eight)

definition quoted :: Core where "quoted = Core_ApplyQuote core_two (sample_quote BINANCE 101 3 102 4)"

lemmas bbo_run = ProcessQuote_def ComputeBBOFromQuotesInto_def ScanBestBid_def ScanBestAsk_def admitted_def IsAdmissible_def offer_def
  SetSingleVenue_def UpdateBBOWithQuote_def update_side_def leave_level_def UpdateWorstPrice_def find_venue_def empty_BBO_def empty_level_def
  empty_quote_def sample_quote_def IsCrossed_def

lemma quoted_fields:
  "co_bbo_health_version quoted = 2" "co_bbo_health quoted = co_bbo_health core_two"
  "co_venue_id_to_slot quoted = [Some 0, Some 1, None]" "co_has_bbo_callback quoted"
  "co_consolidated_bbo quoted sample_key
    = Some \<lparr>best_bid = \<lparr>cl_price = 101, cl_total_qty = 3, cl_venues = [\<lparr>vq_slot = 0, vq_qty = 3\<rparr>]\<rparr>,
            best_ask = \<lparr>cl_price = 102, cl_total_qty = 4, cl_venues = [\<lparr>vq_slot = 0, vq_qty = 4\<rparr>]\<rparr>, crossed = False\<rparr>"
  "co_bbo_health_version_seen quoted sample_key = Some 2"
  by (simp_all add: quoted_def core_two_fields core_run bbo_run Let_def replicate_eight)

text \<open>Note. Removing an instrument and adding it again leaves its old best bid and offer in place
  with the health version already seen: the next quote is folded into a price no stored quote supports, and the
  published best bid is the phantom one.\<close>

theorem removed_instrument_keeps_bbo:
  "let c = Core_ApplyQuote (AddInstrument (RemoveInstrument quoted sample_key) sample_key) (sample_quote BYBIT 90 1 110 1)
   in map_option (\<lambda>b. cl_price (best_bid b)) (co_consolidated_bbo c sample_key) = Some 101 \<and>
      map_option (map q_bid_price) (co_venue_quotes c sample_key) = Some [0, 90, 0, 0, 0, 0, 0, 0]"
  by (simp add: quoted_fields core_two_fields core_run RemoveInstrument_def bbo_run Let_def replicate_eight)

section \<open>The consolidator's thread\<close>

lemma room_for_venues: "0 < kMaxVenues"
  by (simp add: kMaxVenues_def)

text \<open>C9. The consolidator's sleep, when a store need not be visible to another thread before the next load of
  the thread that made it. Once it has been told to stop, a sleeping consolidator has been notified or is notified by the
  owner, who is on the way: this wake-up is never lost. For a message there is no such promise (\<open>wakeup_can_be_missed\<close> below);
  there the 50 ms bound the sleep: from every reachable state in which the consolidator sleeps, the wait may end by itself, and
  then, whoever holds the mutex, its own steps, those of threads on their way and stores becoming visible lead to a state in
  which no queue has a message, every message that was in a queue has been handled, each queue's in order, and the core is what
  those handlers made of it.\<close>

theorem sleep_is_bounded:
  assumes "threads_reachable t" "th_loop t = LSleep"
  defines "t1 \<equiv> t\<lparr>th_loop := LRelock True\<rparr>"
  shows "(\<not> th_running t \<longrightarrow> (\<exists>t'. wakers\<^sup>*\<^sup>* t t' \<and> th_notified t' \<and> th_loop t' = LSleep)) \<and>
    loop_step t t1 \<and>
    (\<exists>t' log. patient\<^sup>*\<^sup>* t1 t' \<and> \<not> HasPending (th_core t') \<and>
       th_core t' = (fold turn log (th_core t))\<lparr>co_queues := co_queues (th_core t')\<rparr> \<and>
       (\<forall>j < kMaxVenues. handled_in j log = queued (th_core t) j))"
proof -
  have ok: "consolidator_ok t" by (rule threads_reachable_ok[OF assms(1)])
  have s: "loop_step t t1" unfolding t1_def by (rule loop_wake[OF assms(2)])
  then have "consolidator_ok t1" using threads_step_ok[OF _ ok] by (simp add: threads_step_def)
  from timeout_drains[OF this] have "\<exists>t' log. patient\<^sup>*\<^sup>* t1 t' \<and> \<not> HasPending (th_core t') \<and>
       th_core t' = (fold turn log (th_core t))\<lparr>co_queues := co_queues (th_core t')\<rparr> \<and>
       (\<forall>j < kMaxVenues. handled_in j log = queued (th_core t) j)" by (simp add: t1_def)
  then show ?thesis using s stop_wakes[OF ok assms(2)] by blast
qed

text \<open>A core without venues that has been started and has gone to sleep, and its first message.\<close>

definition idle_threads :: "u32 \<Rightarrow> Threads" where
  "idle_threads spins =
     (new_threads (Init (new_Core True True) \<lparr>cfg_venues = [], cfg_default_instruments = []\<rparr>))\<lparr>th_running := True,
        th_idle_spins := spins, th_loop := LTest\<rparr>"

lemma loop_is_step: "loop_step t t' \<Longrightarrow> threads_step\<^sup>*\<^sup>* t t'"
  by (simp add: threads_step_def r_into_rtranclp)

lemma idle_turn: "threads_step\<^sup>*\<^sup>* (idle_threads s) ((idle_threads s)\<lparr>th_loop := LIdle\<rparr>)"
proof -
  let ?a = "idle_threads s"
  have vc: "venue_count (th_core ?a) = 0" using Init_idle(1) by (simp add: idle_threads_def new_threads_def)
  have "threads_step\<^sup>*\<^sup>* ?a (?a\<lparr>th_loop := LCount False\<rparr>)"
    using loop_is_step[OF loop_test[of ?a]] by (simp add: idle_threads_def)
  also have "threads_step\<^sup>*\<^sup>* \<dots> (?a\<lparr>th_loop := LPop False 0 0 0\<rparr>)"
    using loop_is_step[OF loop_count[of "?a\<lparr>th_loop := LCount False\<rparr>" False]] vc by simp
  also have "threads_step\<^sup>*\<^sup>* \<dots> (?a\<lparr>th_loop := LIdle\<rparr>)"
    using loop_is_step[OF loop_empty[of "?a\<lparr>th_loop := LPop False 0 0 0\<rparr>" 0]] by simp
  finally show ?thesis .
qed

lemma idle_spins: "k \<le> 200000 \<Longrightarrow> threads_step\<^sup>*\<^sup>* (idle_threads 0) (idle_threads (of_nat k))"
proof (induction k)
  case (Suc k)
  let ?a = "idle_threads (of_nat k)"
  have "unat (of_nat k :: u32) = k" using Suc.prems by (simp add: unat_of_nat take_bit_nat_eq_self)
  then have "(of_nat k :: u32) < kConsolidatorSpinLimit" using Suc.prems by (simp add: kConsolidatorSpinLimit_def word_less_nat_alt)
  then have s: "threads_step\<^sup>*\<^sup>* (?a\<lparr>th_loop := LIdle\<rparr>) (idle_threads (of_nat (Suc k)))"
    using loop_is_step[OF loop_spin[of "?a\<lparr>th_loop := LIdle\<rparr>"]] by (simp add: idle_threads_def add.commute)
  have "threads_step\<^sup>*\<^sup>* (idle_threads 0) ?a" using Suc by simp
  from rtranclp_trans[OF rtranclp_trans[OF this idle_turn] s] show ?case .
qed simp

definition idle_looking :: Threads where
  "idle_looking = (idle_threads 200000)\<lparr>th_stores := [True], th_doorbell := Some Consumer, th_loop := LPending\<rparr>"

lemma idle_looks: "threads_step\<^sup>*\<^sup>* (idle_threads 200000) idle_looking"
proof -
  let ?a = "(idle_threads 200000)\<lparr>th_loop := LIdle\<rparr>"
  note idle_turn[of 200000]
  also have "threads_step\<^sup>*\<^sup>* ?a (?a\<lparr>th_loop := LLock\<rparr>)"
    using loop_is_step[OF loop_give_up[of ?a]] by (simp add: idle_threads_def kConsolidatorSpinLimit_def)
  also have "threads_step\<^sup>*\<^sup>* \<dots> (?a\<lparr>th_doorbell := Some Consumer, th_loop := LSetWaiting\<rparr>)"
    using loop_is_step[OF loop_lock[of "?a\<lparr>th_loop := LLock\<rparr>"]] by (simp add: idle_threads_def new_threads_def)
  also have "threads_step\<^sup>*\<^sup>* \<dots> (?a\<lparr>th_stores := [True], th_doorbell := Some Consumer, th_loop := LRunning\<rparr>)"
    using loop_is_step[OF loop_set_waiting[of "?a\<lparr>th_doorbell := Some Consumer, th_loop := LSetWaiting\<rparr>"]]
    by (simp add: idle_threads_def new_threads_def)
  also have "threads_step\<^sup>*\<^sup>* \<dots> idle_looking"
    using loop_is_step[OF loop_running[of "?a\<lparr>th_stores := [True], th_doorbell := Some Consumer, th_loop := LRunning\<rparr>"]]
    by (simp add: idle_threads_def new_threads_def idle_looking_def)
  finally show ?thesis .
qed

lemma store_is_step: "store_step t t' \<Longrightarrow> threads_step\<^sup>*\<^sup>* t t'"
  by (simp add: threads_step_def r_into_rtranclp)

lemma idle_sleeps: "threads_step\<^sup>*\<^sup>* (idle_threads 200000) ((idle_threads 200000)\<lparr>th_waiting := True, th_loop := LSleep\<rparr>)"
proof -
  let ?a = "idle_looking\<lparr>th_loop := LPredicate 0 0\<rparr>" and ?b = "(idle_threads 200000)\<lparr>th_stores := [True], th_loop := LSleep\<rparr>"
  have vc: "venue_count (th_core idle_looking) = 0" using Init_idle(1) by (simp add: idle_looking_def idle_threads_def new_threads_def)
  note idle_looks
  also have "threads_step\<^sup>*\<^sup>* idle_looking ?a" using loop_is_step[OF loop_pending[of idle_looking]] vc by (simp add: idle_looking_def)
  also have "threads_step\<^sup>*\<^sup>* ?a ?b"
    using loop_is_step[OF loop_sleep[of ?a 0]] by (simp add: idle_looking_def idle_threads_def new_threads_def)
  also have "threads_step\<^sup>*\<^sup>* ?b ((idle_threads 200000)\<lparr>th_waiting := True, th_loop := LSleep\<rparr>)"
    using store_is_step[OF store_flag[of ?b True "[]"]] by (simp add: idle_threads_def new_threads_def)
  finally show ?thesis .
qed

lemma idle_starts: "threads_step\<^sup>*\<^sup>* (new_threads (Init (new_Core True True) \<lparr>cfg_venues = [], cfg_default_instruments = []\<rparr>)) (idle_threads 0)"
proof -
  let ?n = "new_threads (Init (new_Core True True) \<lparr>cfg_venues = [], cfg_default_instruments = []\<rparr>)"
  have "owner_step ?n (idle_threads 0)" using owner_start[of ?n] by (simp add: idle_threads_def new_threads_def)
  then show ?thesis by (simp add: threads_step_def r_into_rtranclp)
qed

definition one_venue :: Core where
  "one_venue = snd (RegisterVenueName (th_core (idle_threads 200000)) ''BINANCE'')"

definition asleep_with_message :: Threads where
  "asleep_with_message =
     (idle_threads 200000)\<lparr>th_core := snd (enqueue QRegistration 0 one_venue), th_waiting := True, th_loop := LSleep,
        th_producers := (\<lambda>_. BIdle)(0 := BRing)\<rparr>"

definition venue_announced :: "bool \<times> bool \<times> nat" where
  "venue_announced =
     (fst (enqueue QRegistration 0 one_venue), HasPending (snd (enqueue QRegistration 0 one_venue)), venue_count one_venue)"

lemma venue_is_announced: "venue_announced = (True, True, 1)"
  by code_simp

lemma push_registration:
  assumes "th_core t = one_venue" "th_producers t 0 = BIdle" "th_hidden t = (\<lambda>_. 0)"
  shows "threads_step\<^sup>*\<^sup>* t (t\<lparr>th_core := snd (enqueue QRegistration 0 one_venue), th_producers := (th_producers t)(0 := BRing),
    th_hidden := (\<lambda>_. 0)(0 := 1)\<rparr>)"
proof -
  have v: "fst (enqueue QRegistration 0 one_venue)" "0 < venue_count one_venue"
    using venue_is_announced by (simp_all add: venue_announced_def)
  have "enqueue QRegistration 0 one_venue = (True, snd (enqueue QRegistration 0 one_venue))" using v(1) by (simp add: prod_eq_iff)
  then show ?thesis using produce_push[of t 0 0 QRegistration] v(2) assms by (simp add: threads_step_def r_into_rtranclp)
qed

lemma nothing_hidden: "(\<lambda>_ :: nat. 0 :: nat)(0 := 0) = (\<lambda>_. 0)"
  by (simp add: fun_eq_iff)

lemma message_seen: "th_hidden t = (\<lambda>_. 0)(0 := 1) \<Longrightarrow> threads_step\<^sup>*\<^sup>* t (t\<lparr>th_hidden := \<lambda>_. 0\<rparr>)"
  using store_is_step[OF store_cursor[of t 0]] by (simp add: nothing_hidden)

lemma reaches_asleep: "threads_reachable asleep_with_message"
proof -
  let ?s = "(idle_threads 200000)\<lparr>th_waiting := True, th_loop := LSleep\<rparr>"
  let ?r = "?s\<lparr>th_core := one_venue\<rparr>"
  let ?p = "asleep_with_message\<lparr>th_hidden := (\<lambda>_. 0)(0 := 1)\<rparr>"
  have "owner_step ?s ?r" using owner_register[of ?s "''BINANCE''"] by (simp add: one_venue_def)
  then have r: "threads_step\<^sup>*\<^sup>* ?s ?r" by (simp add: threads_step_def r_into_rtranclp)
  have p: "threads_step\<^sup>*\<^sup>* ?r ?p"
    using push_registration[of ?r] by (simp add: asleep_with_message_def idle_threads_def new_threads_def)
  have h: "threads_step\<^sup>*\<^sup>* ?p asleep_with_message"
    using message_seen[of ?p] by (simp add: asleep_with_message_def idle_threads_def new_threads_def)
  have i: "threads_step\<^sup>*\<^sup>* (idle_threads 0) (idle_threads 200000)" using idle_spins[of 200000] by simp
  show ?thesis unfolding threads_reachable_def
    using rtranclp_trans[OF idle_starts rtranclp_trans[OF i rtranclp_trans[OF idle_sleeps rtranclp_trans[OF r rtranclp_trans[OF p h]]]]] by blast
qed

theorem sleep_is_bounded_witness:
  "\<exists>t' log. patient\<^sup>*\<^sup>* (asleep_with_message\<lparr>th_loop := LRelock True\<rparr>) t' \<and> \<not> HasPending (th_core t') \<and>
     handled_in 0 log = queued (th_core asleep_with_message) 0"
proof -
  have "th_loop asleep_with_message = LSleep" by (simp add: asleep_with_message_def)
  from sleep_is_bounded[OF reaches_asleep this] show ?thesis using room_for_venues by blast
qed

text \<open>Note. The execution in which a wake-up is missed: the consolidator has set the flag and the producer has
  pushed, neither sees the store of the other, so the producer does not ring and the consolidator goes to sleep. Afterwards
  both stores are visible, the message waits, and no thread is on its way.\<close>

definition missed :: Threads where
  "missed = (idle_threads 200000)\<lparr>th_core := snd (enqueue QRegistration 0 one_venue), th_waiting := True, th_loop := LSleep\<rparr>"

lemma reaches_missed: "threads_reachable missed"
proof -
  let ?r = "idle_looking\<lparr>th_core := one_venue\<rparr>" and ?c = "snd (enqueue QRegistration 0 one_venue)"
  let ?p = "?r\<lparr>th_core := ?c, th_producers := (\<lambda>_. BIdle)(0 := BRing), th_hidden := (\<lambda>_. 0)(0 := 1)\<rparr>"
  let ?q = "?p\<lparr>th_producers := \<lambda>_. BIdle\<rparr>"
  let ?a = "?q\<lparr>th_loop := LPredicate 1 0\<rparr>" and ?b = "?q\<lparr>th_loop := LPredicate 1 1\<rparr>"
  let ?m = "missed\<lparr>th_waiting := False, th_stores := [True], th_hidden := (\<lambda>_. 0)(0 := 1)\<rparr>"
  note w = idle_looking_def idle_threads_def new_threads_def missed_def
  have vc: "venue_count ?c = 1" using venue_is_announced enqueue_frame(1)[of QRegistration 0 one_venue] by (simp add: venue_announced_def prod_eq_iff)
  have l: "length (queued ?c 0) = 1" by code_simp
  have idle: "(\<lambda>_ :: nat. BIdle)(0 := BIdle) = (\<lambda>_. BIdle)" by (simp add: fun_eq_iff)
  have "ring_step ?p ?q" using ring_awake[of ?p 0] by (simp add: w idle)
  then have ring: "threads_step\<^sup>*\<^sup>* ?p ?q" by (simp add: threads_step_def r_into_rtranclp)
  have "owner_step idle_looking ?r" using owner_register[of idle_looking "''BINANCE''"] by (simp add: one_venue_def w)
  then have 1: "threads_step\<^sup>*\<^sup>* idle_looking ?r" by (simp add: threads_step_def r_into_rtranclp)
  have 2: "threads_step\<^sup>*\<^sup>* ?r ?p" using push_registration[of ?r] by (simp add: w)
  have 3: "threads_step\<^sup>*\<^sup>* ?q ?a" using loop_is_step[OF loop_pending[of ?q]] vc by (simp add: w)
  have 4: "threads_step\<^sup>*\<^sup>* ?a ?b" using loop_is_step[OF loop_predicate[of ?a 1 0]] l by (simp add: visible_def del: length_contents)
  have 5: "threads_step\<^sup>*\<^sup>* ?b ?m" using loop_is_step[OF loop_sleep[of ?b 1]] by (simp add: w)
  have 6: "threads_step\<^sup>*\<^sup>* ?m (?m\<lparr>th_hidden := \<lambda>_. 0\<rparr>)" by (rule message_seen) simp
  have 7: "threads_step\<^sup>*\<^sup>* (?m\<lparr>th_hidden := \<lambda>_. 0\<rparr>) missed"
    using store_is_step[OF store_flag[of "?m\<lparr>th_hidden := \<lambda>_. 0\<rparr>" True "[]"]] by (simp add: w)
  have "threads_step\<^sup>*\<^sup>* idle_looking ?q" by (rule rtranclp_trans[OF 1 rtranclp_trans[OF 2 ring]])
  moreover have "threads_step\<^sup>*\<^sup>* ?q ?m" by (rule rtranclp_trans[OF 3 rtranclp_trans[OF 4 5]])
  moreover have "threads_step\<^sup>*\<^sup>* ?m missed" by (rule rtranclp_trans[OF 6 7])
  ultimately have m: "threads_step\<^sup>*\<^sup>* idle_looking missed" by (meson rtranclp_trans)
  have i: "threads_step\<^sup>*\<^sup>* (idle_threads 0) (idle_threads 200000)" using idle_spins[of 200000] by simp
  show ?thesis unfolding threads_reachable_def
    using rtranclp_trans[OF idle_starts rtranclp_trans[OF i rtranclp_trans[OF idle_looks m]]] by blast
qed

theorem wakeup_can_be_missed:
  "threads_reachable missed \<and> th_loop missed = LSleep \<and> HasPending (th_core missed) \<and> th_running missed \<and> \<not> th_notified missed \<and>
   (\<forall>t'. \<not> wakers missed t')"
proof -
  have f: "th_producers missed = (\<lambda>_. BIdle)" "th_stopper missed = SIdle" "th_stores missed = []" "th_hidden missed = (\<lambda>_. 0)"
    "th_loop missed = LSleep" "th_running missed" "\<not> th_notified missed" "th_core missed = snd (enqueue QRegistration 0 one_venue)"
    by (simp_all add: missed_def idle_threads_def new_threads_def)
  have "\<not> ring_step missed t'" "\<not> store_step missed t'" for t'
    using f by (auto elim!: ring_stepE store_stepE)
  then show ?thesis using f reaches_missed venue_is_announced by (simp add: wakers_def venue_announced_def)
qed

text \<open>C10. When the consolidator thread ends, every message that was in a queue at any time \<open>t\<close> while it ran
  has been handled: no queue of a registered venue has a message, the messages that left each queue since \<open>t\<close> are those that
  were in it, in order, and the core is what their handlers, and the names registered meanwhile, made of it. Two conditions: no
  producer adds a message after \<open>t\<close> - one that is pushed into a queue the final drain has already passed stays there - and
  the cursors of the messages in the queues are visible to the consolidator at \<open>t\<close>.\<close>

theorem stop_leaves_nothing:
  assumes "threads_reachable t" "th_running t" "\<forall>j. th_hidden t j = 0" "quiet_step\<^sup>*\<^sup>* t t'" "th_loop t' = LDone"
  shows "\<not> HasPending (th_core t') \<and>
    (\<exists>log. th_core t' = (fold turn log (th_core t))\<lparr>co_queues := co_queues (th_core t')\<rparr> \<and>
       (\<forall>j < kMaxVenues. handled_in j log = queued (th_core t) j))"
proof -
  have ok: "consolidator_ok t" by (rule threads_reachable_ok[OF assms(1)])
  have none: "\<not> HasPending (th_core t')"
    by (rule stopped_drained[OF assms(4) ok reachable_running[OF assms(1,2)] assms(3,5)])
  obtain log where l: "consolidator_ok t'" "handles (th_core t) log (th_core t')" using quiet_handled[OF assms(4) ok] by blast
  have "tail_ok (th_core t')" using l(1) unfolding consolidator_ok_def by blast
  from none handled_all[OF l(2) this none] show ?thesis by blast
qed

text \<open>The same core, stopped: the wait ends, and the drain after the loop takes the message.\<close>

definition announced :: Core where "announced = snd (enqueue QRegistration 0 one_venue)"

definition last_drain :: "(nat \<times> nat) \<times> (nat \<times> nat) \<times> nat" where
  "last_drain =
     (let (r, c) = drain_turn 0 0 announced in (r, fst (drain_turn 0 1 c), venue_count announced))"

lemma last_drain_turns: "last_drain = ((0, 1), (1, 1), 1)"
  by code_simp

lemma quiet_loop: "loop_step t t' \<Longrightarrow> quiet_step\<^sup>*\<^sup>* t t'"
  by (simp add: quiet_step_def r_into_rtranclp)

definition stopped_threads :: Threads where
  "stopped_threads =
     asleep_with_message\<lparr>th_core := snd (drain_turn 0 0 announced), th_running := False, th_stores := [False],
       th_idle_spins := 0, th_loop := LDone, th_stopper := SLock\<rparr>"

lemma reaches_stopped: "quiet_step\<^sup>*\<^sup>* asleep_with_message stopped_threads"
proof -
  let ?c = "snd (drain_turn 0 0 announced)"
  let ?s = "asleep_with_message\<lparr>th_running := False, th_stopper := SLock\<rparr>"
  let ?e = "?s\<lparr>th_stores := [False], th_idle_spins := 0\<rparr>"
  have a: "th_core asleep_with_message = announced" by (simp add: asleep_with_message_def announced_def)
  have h: "th_hidden asleep_with_message = (\<lambda>_. 0)" by (simp add: asleep_with_message_def idle_threads_def new_threads_def)
  have d: "drain_turn 0 0 announced = ((0, 1), ?c)" "venue_count announced = 1" "fst (drain_turn 0 1 ?c) = (1, 1)"
    using last_drain_turns by (auto simp: last_drain_def Let_def case_prod_beta prod_eq_iff)
  then have e: "drain_turn 0 1 ?c = ((1, 1), ?c)"
    using drain_turn_frame(3)[of 0 1 ?c 1 1 "snd (drain_turn 0 1 ?c)"] by (simp add: prod_eq_iff)
  have "owner_step asleep_with_message ?s" using owner_stop[of asleep_with_message]
    by (simp add: asleep_with_message_def idle_threads_def new_threads_def)
  then have "quiet_step\<^sup>*\<^sup>* asleep_with_message ?s" by (simp add: quiet_step_def r_into_rtranclp)
  also have "quiet_step\<^sup>*\<^sup>* \<dots> (?s\<lparr>th_loop := LRelock True\<rparr>)"
    using quiet_loop[OF loop_wake[of ?s True]] by (simp add: asleep_with_message_def)
  also have "quiet_step\<^sup>*\<^sup>* \<dots> (?s\<lparr>th_doorbell := Some Consumer, th_loop := LClear\<rparr>)"
    using quiet_loop[OF loop_relock[of "?s\<lparr>th_loop := LRelock True\<rparr>" True]]
    by (simp add: asleep_with_message_def idle_threads_def new_threads_def)
  also have "quiet_step\<^sup>*\<^sup>* \<dots> (?e\<lparr>th_loop := LTest\<rparr>)"
    using quiet_loop[OF loop_clear[of "?s\<lparr>th_doorbell := Some Consumer, th_loop := LClear\<rparr>"]]
    by (simp add: asleep_with_message_def idle_threads_def new_threads_def)
  also have "quiet_step\<^sup>*\<^sup>* \<dots> (?e\<lparr>th_loop := LCount True\<rparr>)"
    using quiet_loop[OF loop_test[of "?e\<lparr>th_loop := LTest\<rparr>"]] by simp
  also have "quiet_step\<^sup>*\<^sup>* \<dots> (?e\<lparr>th_loop := LPop True 1 0 0\<rparr>)"
    using quiet_loop[OF loop_count[of "?e\<lparr>th_loop := LCount True\<rparr>" True]] a d(2) by simp
  also have "quiet_step\<^sup>*\<^sup>* \<dots> (?e\<lparr>th_loop := LPop True 1 0 1, th_core := ?c\<rparr>)"
    using quiet_loop[OF loop_pop[of "?e\<lparr>th_loop := LPop True 1 0 0\<rparr>" True 1 0 0 0 1 ?c]] a d(1) h by simp
  also have "quiet_step\<^sup>*\<^sup>* \<dots> (?e\<lparr>th_loop := LPop True 1 1 1, th_core := ?c\<rparr>)"
    using quiet_loop[OF loop_pop[of "?e\<lparr>th_loop := LPop True 1 0 1, th_core := ?c\<rparr>" True 1 0 1 1 1 ?c]] e h by simp
  also have "quiet_step\<^sup>*\<^sup>* \<dots> stopped_threads"
    using quiet_loop[OF loop_final[of "?e\<lparr>th_loop := LPop True 1 1 1, th_core := ?c\<rparr>" 1 1]]
    by (simp add: stopped_threads_def asleep_with_message_def idle_threads_def new_threads_def)
  finally show ?thesis .
qed

theorem stop_leaves_nothing_witness:
  "\<not> HasPending (th_core stopped_threads) \<and> (\<exists>log. handled_in 0 log = queued (th_core asleep_with_message) 0)"
proof -
  have "th_running asleep_with_message" "th_loop stopped_threads = LDone" "th_hidden asleep_with_message = (\<lambda>_. 0)"
    by (simp_all add: asleep_with_message_def idle_threads_def new_threads_def stopped_threads_def)
  from stop_leaves_nothing[OF reaches_asleep this(1) _ reaches_stopped this(2)] this(3) show ?thesis using room_for_venues by auto
qed

section \<open>The venue feeds\<close>

text \<open>C13. Redundant connections: if the venue's messages carry strictly ascending ids, none of them is
  taken for a reset of the venue's numbers, and every connection has delivered a prefix of them, interleaved in any way, the
  filter passes each message exactly once, in the venue's order, up to the message the fastest connection has reached. No message
  is lost and none is passed twice. A reset is let through whatever its number, and a late copy of it passes again: that is
  late_reset_copy_passes of Sequencing.\<close>

theorem redundant_lines_once:
  assumes "redundant_lines xs ms" "sorted_wrt (<) xs"
  shows "\<exists>n \<le> length xs. accepted new_dedup ms = take n xs \<and> (\<forall>c. length (line ms c) \<le> n) \<and>
    (n \<noteq> 0 \<longrightarrow> (\<exists>c. length (line ms c) = n))"
  using accepted_prefix[OF assms] by blast

theorem redundant_lines_once_witness:
  "\<exists>n \<le> length [5, 6, 9 :: u64]. accepted new_dedup [(5, 0), (5, 1), (6, 1), (6, 0), (9, 1)] = take n [5, 6, 9] \<and>
    (\<forall>c. length (line [(5, 0), (5, 1), (6, 1), (6, 0), (9, 1)] c) \<le> n) \<and>
    (n \<noteq> 0 \<longrightarrow> (\<exists>c. length (line [(5, 0), (5, 1), (6, 1), (6, 0), (9, 1)] c) = n))"
proof (rule redundant_lines_once)
  show "redundant_lines [5, 6, 9] [(5, 0), (5, 1), (6, 1), (6, 0), (9, 1)]" by (simp add: redundant_lines_def line_def)
qed simp

text \<open>A venue whose book has one bid and one ask, and the provider at the start of a connection.\<close>

definition sample_bids :: history where
  "sample_bids n = (if n = 7 then [101 \<mapsto> 3] else if n = 8 then [101 \<mapsto> 9] else Map.empty)"

definition quoted_asks :: history where
  "quoted_asks n = (if n = 7 \<or> n = 8 then [102 \<mapsto> 4] else Map.empty)"

definition first_message :: BookUpdate where
  "first_message = sample_update BYBIT True [lvl 101 3] [lvl 102 4]"

definition second_message :: BookUpdate where
  "second_message = (sample_update BYBIT False [lvl 101 9] [])\<lparr>bu_seq := 8, bu_prev_seq := 7\<rparr>"

definition connected :: "'a \<Rightarrow> 'a Provider_scheme" where
  "connected ext = \<lparr>pv_venue = BYBIT, pv_instrument = sample_key, pv_connections = 2, pv_depth_backstop_ns = 0,
      pv_bbo_backstop_ns = 0, pv_running = True, pv_io_running = True, pv_depth_dedup = new_dedup, pv_bbo_dedup = new_dedup,
      pv_depth_live = 2, pv_bbo_live = 2, pv_last_depth_health = kNoData, pv_last_bbo_health = kNoData,
      pv_last_depth_message_mono_ns = 0, pv_last_bbo_message_mono_ns = 0, pv_reconnect_count = 0, pv_resync_requested = False,
      pv_has_callback = True, pv_has_quote_callback = True, pv_has_health_callback = True, pv_out = [], \<dots> = ext\<rparr>"

definition sample_stream :: "message list" where
  "sample_stream = [(first_message, 0, 5, \<lambda>_. 0), (first_message, 1, 6, \<lambda>_. 1), (second_message, 1, 7, \<lambda>_. 2)]"

lemma sample_explains:
  assumes "\<And>l. J second_message l \<Longrightarrow> l = 7"
  shows "explains sample_bids quoted_asks J first_message" "explains sample_bids quoted_asks J second_message"
  using assms
  by (auto simp: explains_def first_message_def second_message_def sample_update_def lvl_def wf_update_def wf_levels_def
      sample_bids_def quoted_asks_def apply_delta_def qty_at_def fun_eq_iff side_lookup_Cons)

lemma new_book_follows: "follows sample_bids quoted_asks 0 (new_book BYBIT sample_key)"
proof -
  have "bid_lookup (new_book BYBIT sample_key) = Map.empty" "ask_lookup (new_book BYBIT sample_key) = Map.empty"
    by (simp_all add: bid_lookup_def ask_lookup_def new_book_def fun_eq_iff)
  then show ?thesis by (simp add: follows_def sample_bids_def quoted_asks_def)
qed

text \<open>C14. Bybit's book: whatever messages arrive, on whichever connections and in whichever order, either
  the updates the provider has handed on build exactly the venue's book at the last message's number, or the
  provider has stopped the connection and marked both streams as resyncing. This holds as long as each message says
  what Bybit documents (a snapshot lists the book, a delta turns the previous book into its own).\<close>

theorem bybit_follows_venue:
  assumes "\<forall>m \<in> set ms. explains B A (\<lambda>u l. bu_seq u = l + 1) (fst m)" "delivers B A b by_last_depth_u p"
  shows "delivers B A b by_last_depth_u (handle_stream Bybit_OnDepthMessage ms p)"
  using assms by (rule bybit_stream_delivers)

theorem bybit_follows_venue_witness:
  "delivers sample_bids quoted_asks (new_book BYBIT sample_key) by_last_depth_u
     (handle_stream Bybit_OnDepthMessage sample_stream
        (connected (BybitProvider.fields 0 ''d'' ''b'')))"
proof (rule bybit_follows_venue)
  show "\<forall>m \<in> set sample_stream. explains sample_bids quoted_asks (\<lambda>u l. bu_seq u = l + 1) (fst m)"
    using sample_explains[of "\<lambda>u l. bu_seq u = l + 1"] by (simp add: sample_stream_def second_message_def eq_diff_eq[symmetric])
qed (simp add: BybitProvider.defs delivers_def connected_def book_from_def new_book_follows)

text \<open>C15. The same for OKX, whose deltas name the number they follow and whose heartbeats and sequence
  resets the rule lets through.\<close>

theorem okx_follows_venue:
  assumes "\<forall>m \<in> set ms. explains B A (\<lambda>u l. bu_prev_seq u = l) (fst m)" "delivers B A b ok_last_depth_seq p"
  shows "delivers B A b ok_last_depth_seq (handle_stream OKX_OnDepthMessage ms p)"
  using assms by (rule okx_stream_delivers)

theorem okx_follows_venue_witness:
  "delivers sample_bids quoted_asks (new_book BYBIT sample_key) ok_last_depth_seq
     (handle_stream OKX_OnDepthMessage sample_stream
        (connected (OKXProvider.fields 0 0 True)))"
proof (rule okx_follows_venue)
  show "\<forall>m \<in> set sample_stream. explains sample_bids quoted_asks (\<lambda>u l. bu_prev_seq u = l) (fst m)"
    using sample_explains[of "\<lambda>u l. bu_prev_seq u = l"] by (simp add: sample_stream_def second_message_def)
qed (simp add: OKXProvider.defs delivers_def connected_def book_from_def new_book_follows)
text \<open>C16. Binance's snapshot join: the snapshot is accepted exactly when the first buffered event
  beyond it starts no later than one past its number, and a snapshot that is not accepted leaves the provider as it was. On the
  hypothesis that the buffered events follow each other without a hole (unbroken) and that snapshot and events say what the venue
  documents, an accepted snapshot and the events replayed after it build exactly the venue's book at the number reached; events
  may overlap each other and start before the snapshot. The buffer is empty afterwards and the provider is live. The code itself
  does not look for holes in the buffer: that is the next theorem.\<close>

theorem binance_snapshot_join:
  assumes "pv_has_callback p" "book_ok (book_from b (pv_out p))" "explains B A J snapshot" "bu_is_snapshot snapshot"
    and "unbroken (bn_pending p)" "\<forall>e \<in> set (bn_pending p). covers B A e"
  defines "reached \<equiv> (if bn_pending p = [] then bu_seq snapshot else max (bu_seq snapshot) (bu_seq (last (bn_pending p))))"
  shows "(fst (ReconcileSnapshot snapshot now_ms clk p) \<longleftrightarrow>
      (\<forall>e. find (\<lambda>e. bu_seq snapshot < bu_seq e) (bn_pending p) = Some e \<longrightarrow> bu_prev_seq e \<le> bu_seq snapshot + 1)) \<and>
    (fst (ReconcileSnapshot snapshot now_ms clk p) \<longrightarrow>
      (let p' = snd (ReconcileSnapshot snapshot now_ms clk p)
       in follows B A reached (book_from b (pv_out p')) \<and> bn_sync_state p' = kLiveSync \<and> bn_pending p' = [] \<and>
         (Market (pv_instrument p) \<noteq> kFutures \<longrightarrow> bn_last_depth_u p' = reached))) \<and>
    (\<not> fst (ReconcileSnapshot snapshot now_ms clk p) \<longrightarrow> snd (ReconcileSnapshot snapshot now_ms clk p) = p)"
proof (intro conjI impI)
  let ?r = "ReconcileSnapshot snapshot now_ms clk p"
  show "fst ?r \<longleftrightarrow> (\<forall>e. find (\<lambda>e. bu_seq snapshot < bu_seq e) (bn_pending p) = Some e \<longrightarrow> bu_prev_seq e \<le> bu_seq snapshot + 1)"
    by (auto simp: ReconcileSnapshot_accepts split: option.split)
  show "let p' = snd ?r in follows B A reached (book_from b (pv_out p')) \<and> bn_sync_state p' = kLiveSync \<and> bn_pending p' = [] \<and>
      (Market (pv_instrument p) \<noteq> kFutures \<longrightarrow> bn_last_depth_u p' = reached)" if "fst ?r"
    using ReconcileSnapshot_follows[of snapshot now_ms clk p "snd ?r", OF _ assms(1-6)] that
    by (simp add: reached_def prod_eq_iff)
  show "snd ?r = p" if "\<not> fst ?r"
    using that by (auto simp: ReconcileSnapshot_def Let_def split: option.splits)
qed

definition sample_event :: BookUpdate where
  "sample_event = second_message\<lparr>bu_prev_seq := 8\<rparr>"

definition syncing :: BinanceProvider where
  "syncing = connected (BinanceProvider.fields kSyncing True 1 [sample_event] 0 ''bbo'')"

lemma sample_event_covers: "covers sample_bids quoted_asks sample_event"
proof -
  have "k = 7 \<or> k = 8" if "8 \<le> unat k + 1" "k \<le> 8" for k :: u64
    using that by (auto simp: word_le_nat_alt word_unat_eq_iff)
  then show ?thesis
    by (fastforce simp: covers_def covers_side_def sample_event_def second_message_def sample_update_def lvl_def wf_update_def
        wf_levels_def sample_bids_def quoted_asks_def apply_delta_def qty_at_def fun_eq_iff side_lookup_Cons)
qed

theorem binance_snapshot_join_witness:
  "follows sample_bids quoted_asks 8
     (book_from (new_book BYBIT sample_key) (pv_out (snd (ReconcileSnapshot first_message 3 (\<lambda>_. 0) syncing))))"
proof -
  have "fst (ReconcileSnapshot first_message 3 (\<lambda>_. 0) syncing)"
    by (simp add: ReconcileSnapshot_accepts syncing_def connected_def BinanceProvider.defs first_message_def sample_update_def
        sample_event_def)
  then show ?thesis
    using binance_snapshot_join[of syncing "new_book BYBIT sample_key" sample_bids quoted_asks "\<lambda>_ _. False" first_message 3 "\<lambda>_. 0"]
      sample_explains(1)[of "\<lambda>_ _. False"] sample_event_covers
    by (simp add: syncing_def connected_def BinanceProvider.defs book_from_def first_message_def sample_update_def
        sample_event_def second_message_def Let_def max_def)
qed

text \<open>Note. Whether a snapshot is accepted depends on the first buffered event beyond it alone: later events
  are replayed unlooked at. Here the second buffered event starts at 16 while the first ends at 8; the provider is live at 20 with
  a book that lacks what happened in between.\<close>

theorem buffered_hole_accepted:
  "(\<forall>e es es'. bu_seq snapshot < bu_seq e \<longrightarrow>
      fst (ReconcileSnapshot snapshot n clk (p\<lparr>bn_pending := e # es\<rparr>)) = fst (ReconcileSnapshot snapshot n clk (p\<lparr>bn_pending := e # es'\<rparr>))) \<and>
   (let holed = [sample_event, sample_event\<lparr>bu_prev_seq := 16, bu_seq := 20\<rparr>];
        r = ReconcileSnapshot first_message 3 (\<lambda>_. 0) (syncing\<lparr>bn_pending := holed\<rparr>)
    in \<not> unbroken holed \<and> fst r \<and> bn_sync_state (snd r) = kLiveSync \<and> bn_last_depth_u (snd r) = 20)"
proof
  show "\<forall>e es es'. bu_seq snapshot < bu_seq e \<longrightarrow>
      fst (ReconcileSnapshot snapshot n clk (p\<lparr>bn_pending := e # es\<rparr>)) = fst (ReconcileSnapshot snapshot n clk (p\<lparr>bn_pending := e # es'\<rparr>))"
    by (simp add: ReconcileSnapshot_accepts)
  have "Market sample_key \<noteq> kFutures" by code_simp
  then show "let holed = [sample_event, sample_event\<lparr>bu_prev_seq := 16, bu_seq := 20\<rparr>];
        r = ReconcileSnapshot first_message 3 (\<lambda>_. 0) (syncing\<lparr>bn_pending := holed\<rparr>)
    in \<not> unbroken holed \<and> fst r \<and> bn_sync_state (snd r) = kLiveSync \<and> bn_last_depth_u (snd r) = 20"
    by (simp add: ReconcileSnapshot_def ReconcileBinanceSnapshot_def first_after_def syncing_def connected_def BinanceProvider.defs first_message_def
        sample_update_def sample_event_def second_message_def Let_def Emit_def)
qed

theorem buffered_hole_accepted_witness:
  "fst (ReconcileSnapshot first_message 3 (\<lambda>_. 0) (syncing\<lparr>bn_pending := [sample_event]\<rparr>)) =
   fst (ReconcileSnapshot first_message 3 (\<lambda>_. 0) (syncing\<lparr>bn_pending := [sample_event, first_message]\<rparr>))"
  using buffered_hole_accepted[of first_message 3 "\<lambda>_. 0" syncing, THEN conjunct1, rule_format, of sample_event "[]" "[first_message]"]
  by (simp add: first_message_def sample_event_def second_message_def sample_update_def)




text \<open>Note. In every execution of the Binance provider (messages, snapshot results, watchdog ticks, closed
  sessions, resyncs, starts, stops and reconnections in any order) at most 2000 events are buffered and at most five
  snapshots requested per connection, nothing is left in the buffer of a synchronised provider, and for each stream the
  verdicts told to the core never repeat and end with the provider's current one.\<close>

theorem binance_sync_bounded:
  assumes "binance_reachable p"
  shows "length (bn_pending p) \<le> kMaxPendingEvents \<and> bn_snapshot_attempts p \<le> kMaxSnapshotAttempts \<and>
    (bn_sync_state p = kLiveSync \<longrightarrow> bn_pending p = []) \<and> told p"
  using binance_reachable_ok[OF assms] by (simp add: binance_ok_def sync_ok_def)

theorem binance_sync_bounded_witness:
  "told (Stop (Start (new_binance BINANCE sample_key 2 0 0 ''bbo'')))"
proof -
  have "binance_reachable (Stop (Start (new_binance BINANCE sample_key 2 0 0 ''bbo'')))"
    unfolding binance_reachable_def
    by (intro exI) (rule rtranclp.rtrancl_into_rtrancl[OF r_into_rtranclp[of binance_step]]; rule binance_step.intros)
  from binance_sync_bounded[OF this] show ?thesis by blast
qed

text \<open>Note. A resync stops the connection and marks both streams as resyncing; no tick of the watchdog
  takes that back, and the first message of a stream makes it live again.\<close>

theorem resync_is_sticky:
  "let r = RequestResync t d p in \<not> pv_io_running r \<and> CheckHealth clk r = r \<and> pv_last_depth_health r = kResyncing \<and> pv_last_bbo_health r = kResyncing \<and>
    pv_last_depth_health (NoteDepthActivity t' d' r) = kLive \<and> pv_last_bbo_health (NoteBboActivity t' d' r) = kLive"
  using resync_latch[of "RequestResync t d p"] RequestResync_verdicts[of t d p] by (simp add: Let_def)

text \<open>C24. The connection loop ends: whatever the handlers do during a pass, and however resyncs are mixed
  in, the provider keeps running until exactly eleven passes have ended with every socket gone. Up to then it sleeps one
  second, two, four and so on, at most a minute. The count is never reset, so ten outages over the provider's life use it up.\<close>

theorem reconnect_budget:
  assumes "\<And>p. pv_running (io p) = pv_running p \<and> pv_reconnect_count (io p) = pv_reconnect_count p"
    and "pv_running p" "pv_reconnect_count p = 0"
  shows "(pv_running (snd (run_passes io passes p)) \<longleftrightarrow> dropped passes \<le> 10) \<and>
    filter (\<lambda>d. d \<noteq> RESYNC_DELAY_MS) (fst (run_passes io passes p)) =
      map (\<lambda>n. of_nat (min (1000 * 2 ^ n) 60000)) [0..<min 10 (dropped passes)]"
  using run_passes_count[OF assms(1,2), of passes] assms(3) by (simp add: reconnect_delay_def)

theorem reconnect_budget_witness:
  "pv_running (snd (run_passes id (replicate 10 False) (connected ()))) \<and>
   \<not> pv_running (snd (run_passes id (True # replicate 11 False) (connected ())))"
  using reconnect_budget[of id "connected ()" "replicate 10 False"] reconnect_budget[of id "connected ()" "True # replicate 11 False"]
  by (simp add: connected_def dropped_def)

section \<open>The messages' text\<close>

text \<open>A reader of document trees, for the examples: \<open>docs\<close> gives the document a text holds, \<open>raw\<close> the text of a value.\<close>

datatype json = JString string | JInt int | JArray "json list" | JObject "(string \<times> json) list"

fun as_string :: "json \<Rightarrow> string option" where
  "as_string (JString s) = Some s"
| "as_string _ = None"

definition tree_reader :: "(string \<Rightarrow> json option) \<Rightarrow> (json \<Rightarrow> string option) \<Rightarrow> json OnDemand" where
  "tree_reader docs raw =
     \<lparr>od_iterate = docs,
      od_field = (\<lambda>v k. case v of JObject kvs \<Rightarrow> map_of kvs k | _ \<Rightarrow> None),
      od_object = (\<lambda>v. case v of JObject kvs \<Rightarrow> Some v | _ \<Rightarrow> None),
      od_array = (\<lambda>v. case v of JArray vs \<Rightarrow> Some (map Some vs) | _ \<Rightarrow> None),
      od_pair = (\<lambda>v. case v of JArray (x # y # _) \<Rightarrow> (as_string x, as_string y) | _ \<Rightarrow> (None, None)),
      od_string = as_string,
      od_int64 = (\<lambda>v. case v of JInt i \<Rightarrow> Some (word_of_int i) | _ \<Rightarrow> None),
      od_uint64 = (\<lambda>v. case v of JInt i \<Rightarrow> if i < 0 then None else Some (word_of_int i) | _ \<Rightarrow> None),
      od_raw_json = raw\<rparr>"

definition sample_levels :: json where
  "sample_levels = JArray [JArray [JString ''101.5'', JString ''0.25''], JArray [JString ''100'', JString ''3'']]"

definition sample_depth_json :: json where
  "sample_depth_json = JObject [(''e'', JString ''depthUpdate''), (''E'', JInt 5), (''U'', JInt 8), (''u'', JInt 9), (''pu'', JInt 7),
     (''b'', sample_levels), (''a'', JArray [])]"

definition sample_books_json :: json where
  "sample_books_json = JObject [(''action'', JString ''snapshot''),
     (''data'', JArray [JObject [(''asks'', JArray []), (''bids'', sample_levels), (''seqId'', JInt 9)]])]"

definition sample_instruments :: json where
  "sample_instruments = JObject [(''code'', JString ''0''),
     (''data'', JArray [JObject [(''instId'', JString ''BTC-USDT-SWAP''), (''ctType'', JString ''linear''), (''ctMult'', JString ''1''),
        (''ctVal'', JString ''0.01'')]])]"

definition sample_broken :: json where
  "sample_broken = JObject [(''topic'', JString ''orderbook.50.BTCUSDT''), (''data'', JObject [(''u'', JInt 9),
     (''b'', JArray [JArray [JString ''101.5'', JString ''0.25''], JArray [JString ''100'', JInt 3]])])]"

definition sample_docs :: "string \<Rightarrow> json option" where
  "sample_docs m = (if m = ''depth'' then Some sample_depth_json else if m = ''books'' then Some sample_books_json
     else if m = ''instruments'' then Some sample_instruments else if m = ''broken'' then Some sample_broken else None)"

definition sample_reader :: "json OnDemand" where
  "sample_reader = tree_reader sample_docs (\<lambda>_. None)"

lemmas sample_json = sample_reader_def tree_reader_def sample_docs_def sample_depth_json_def sample_books_json_def sample_instruments_def
  sample_broken_def sample_levels_def get_string_def get_field_def get_array_def get_int64_def get_uint64_def

lemma sample_digits:
  "is_digit CHR ''0'' \<and> digit CHR ''0'' = 0" "is_digit CHR ''1'' \<and> digit CHR ''1'' = 1" "is_digit CHR ''2'' \<and> digit CHR ''2'' = 2"
  "is_digit CHR ''3'' \<and> digit CHR ''3'' = 3" "is_digit CHR ''5'' \<and> digit CHR ''5'' = 5"
  by code_simp+

lemma sample_parts:
  "whole_part ''101.5'' = ''101''" "fraction_part ''101.5'' = ''5''" "whole_part ''0.25'' = ''0''" "fraction_part ''0.25'' = ''25''"
  "whole_part ''100'' = ''100''" "fraction_part ''100'' = []" "whole_part ''3'' = ''3''" "fraction_part ''3'' = []"
  by code_simp+

lemma sample_units:
  "decimal_units ''101.5'' = 10150000000" "decimal_units ''0.25'' = 25000000" "decimal_units ''100'' = 10000000000" "decimal_units ''3'' = 300000000"
  by (simp_all add: decimal_units_def sample_parts digits_value_def sample_digits)

definition sample_rows :: "json option list" where
  "sample_rows = [Some (JArray [JString ''101.5'', JString ''0.25'']), Some (JArray [JString ''100'', JString ''3''])]"

lemma sample_depth_fields:
  "od_iterate sample_reader ''depth'' = Some sample_depth_json" "get_string sample_reader (Some sample_depth_json) ''e'' = Some ''depthUpdate''"
  "get_uint64 sample_reader (Some sample_depth_json) ''U'' = Some 8" "get_uint64 sample_reader (Some sample_depth_json) ''u'' = Some 9"
  "get_uint64 sample_reader (Some sample_depth_json) ''pu'' = Some 7"
  "get_array sample_reader (Some sample_depth_json) ''b'' = Some sample_rows" "get_array sample_reader (Some sample_depth_json) ''a'' = Some []"
  by (simp_all add: sample_json sample_rows_def)

definition sample_entry :: json where
  "sample_entry = JObject [(''asks'', JArray []), (''bids'', sample_levels), (''seqId'', JInt 9)]"

lemma sample_books_fields:
  "od_iterate sample_reader ''books'' = Some sample_books_json" "get_string sample_reader (Some sample_books_json) ''action'' = Some ''snapshot''"
  "get_array sample_reader (Some sample_books_json) ''data'' = Some [Some sample_entry]"
  "get_array sample_reader (Some sample_entry) ''bids'' = Some sample_rows" "get_array sample_reader (Some sample_entry) ''asks'' = Some []"
  by (simp_all add: sample_json sample_rows_def sample_entry_def)

lemma sample_row_values: "map (level_value sample_reader (10 ^ 8)) sample_rows = [(10150000000, 25000000), (10000000000, 300000000)]"
  by (simp add: sample_rows_def level_value_def level_texts_def sample_units sample_reader_def tree_reader_def)

lemma sample_rows_fit: "list_all (fits sample_reader) sample_rows"
  by (simp add: sample_rows_def fits_def level_texts_def sample_units sample_reader_def tree_reader_def is_decimal_def sample_parts
      sample_digits)

text \<open>C19. A Binance depth event whose levels are decimal texts that fit is read exactly: every price and
  every quantity is the number its text denotes, in units of one hundred millionth, in the order of the message; the
  numbers of the event are those of its fields, and the chain number the futures check uses is the event's own.\<close>

theorem binance_depth_exact:
  assumes "od_iterate J m = Some doc" "get_string J (Some doc) ''e'' = Some ''depthUpdate''"
    and "get_uint64 J (Some doc) ''U'' = Some first_id" "get_uint64 J (Some doc) ''u'' = Some final_id"
    and "get_array J (Some doc) ''b'' = Some bs" "get_array J (Some doc) ''a'' = Some asks"
    and "list_all (fits J) bs" "list_all (fits J) asks"
  shows "\<exists>u. ParseDepthMessage J m v k c = (Some u, get_uint64 J (Some doc) ''pu'') \<and>
    bu_venue u = v \<and> bu_instrument u = k \<and> bu_seq u = final_id \<and> bu_prev_seq u = first_id \<and> \<not> bu_is_snapshot u \<and>
    map level_units (bu_bids u) = map (level_value J (10 ^ 8)) bs \<and> map level_units (bu_asks u) = map (level_value J (10 ^ 8)) asks"
proof -
  obtain b a where "read_side (Binance_AppendLevels J) (Some bs) = Some b" "map level_units b = map (level_value J (10 ^ 8)) bs"
    "read_side (Binance_AppendLevels J) (Some asks) = Some a" "map level_units a = map (level_value J (10 ^ 8)) asks"
    using plain_side_exact[OF assms(7)] plain_side_exact[OF assms(8)] by blast
  then show ?thesis using assms(1-6)
    by (simp add: ParseDepthMessage_def with_sides_def value_or_def Let_def new_update_def)
qed

theorem binance_depth_exact_witness:
  "\<exists>u. ParseDepthMessage sample_reader ''depth'' BINANCE (InstrumentKey 0) None = (Some u, Some 7) \<and>
    map level_units (bu_bids u) = [(10150000000, 25000000), (10000000000, 300000000)] \<and> bu_asks u = []"
  using binance_depth_exact[OF sample_depth_fields(1-4,6,7) sample_rows_fit, of BINANCE "InstrumentKey 0" None]
  unfolding sample_row_values sample_depth_fields(5) by auto

text \<open>C20. An OKX message whose levels are decimal texts that fit, on a contract of at most one unit of the
  base currency, is read exactly: every price is the number its text denotes, and every quantity \<open>q\<close> the denoted number of
  contracts times the contract size, rounded down to the unit - the product of two scaled numbers never wraps around.\<close>

theorem okx_contracts_exact:
  assumes "od_iterate J m = Some doc" "get_string J (Some doc) ''action'' = Some action"
    and "get_array J (Some doc) ''data'' = Some (entry # rest)"
    and "get_array J entry ''bids'' = Some bs" "get_array J entry ''asks'' = Some asks"
    and "list_all (fits J) bs" "list_all (fits J) asks" "unat contract_size \<le> 10 ^ 8"
  shows "\<exists>u. ParseBooksMessage J contract_size m v k = Some u \<and> bu_is_snapshot u = (action = ''snapshot'') \<and>
    list_all2 (contracts_read J (unat contract_size)) (bu_bids u) bs \<and>
    list_all2 (contracts_read J (unat contract_size)) (bu_asks u) asks"
proof -
  obtain b a where "read_side (OKX_AppendLevels J contract_size) (Some bs) = Some b"
      "map level_units b = map (level_value J (unat contract_size)) bs"
    "read_side (OKX_AppendLevels J contract_size) (Some asks) = Some a"
      "map level_units a = map (level_value J (unat contract_size)) asks"
    using contract_side_exact[OF assms(6,8)] contract_side_exact[OF assms(7,8)] by blast
  then show ?thesis using assms(1-5) contracts_read_all[OF assms(6), of b] contracts_read_all[OF assms(7), of a]
    by (simp add: ParseBooksMessage_def OKX_sides_def with_sides_def new_update_def)
qed

theorem okx_contracts_exact_witness:
  "\<exists>u. ParseBooksMessage sample_reader 1000000 ''books'' OKX (InstrumentKey 1) = Some u \<and> bu_is_snapshot u \<and>
    list_all2 (contracts_read sample_reader 1000000) (bu_bids u) sample_rows \<and> bu_asks u = []"
  using okx_contracts_exact[OF sample_books_fields sample_rows_fit, of 1000000 OKX "InstrumentKey 1"] by simp

text \<open>C23. A depth message one of whose levels cannot be read leaves the provider as it was, at any of the
  three venues: no part of it is applied, and it does not count as a sign of life. The only thing that changes is the chain
  number Binance's parser keeps, which such a message has already replaced by its own, contrary to the parser's comment; but what a
  message does to the provider never depends on the number kept before it.\<close>

theorem unreadable_level_refused:
  "(unreadable_sides J (bybit_sides J m) \<longrightarrow> Bybit_OnRaw J m c n clk p = p) \<and>
   (unreadable_sides J (okx_sides J m) \<longrightarrow> OKX_OnRaw J m c n clk q = q) \<and>
   (\<forall>stream data. UnwrapCombinedMessage J m = Some (stream, data) \<longrightarrow> stream \<noteq> bn_bbo_stream_name r \<longrightarrow>
      unreadable_sides J (binance_sides J data) \<longrightarrow>
      Binance_OnRaw J m c n clk (r, s) =
        (r, case od_iterate J data of None \<Rightarrow> s
            | Some doc \<Rightarrow> if get_string J (Some doc) ''e'' = Some ''depthUpdate'' then get_uint64 J (Some doc) ''pu'' else s)) \<and>
   fst (Binance_OnRaw J m c n clk (r, s)) = fst (Binance_OnRaw J m c n clk (r, s'))"
proof (intro conjI impI allI)
  show "Bybit_OnRaw J m c n clk p = p" if "unreadable_sides J (bybit_sides J m)"
    using refused_bybit[OF that] by (simp add: Bybit_OnRaw_def no_message)
  show "OKX_OnRaw J m c n clk q = q" if "unreadable_sides J (okx_sides J m)"
    using refused_okx[OF that] by (simp only: OKX_OnRaw_def Let_def if_cancel no_message)
  show "Binance_OnRaw J m c n clk (r, s) =
        (r, case od_iterate J data of None \<Rightarrow> s
            | Some doc \<Rightarrow> if get_string J (Some doc) ''e'' = Some ''depthUpdate'' then get_uint64 J (Some doc) ''pu'' else s)"
    if "UnwrapCombinedMessage J m = Some (stream, data)" "stream \<noteq> bn_bbo_stream_name r" "unreadable_sides J (binance_sides J data)"
    for stream data
  proof -
    have "fst (ParseDepthMessage J data (pv_venue r) (pv_instrument r) s) = None" by (rule refused_binance[OF that(3)])
    then show ?thesis using that(1,2)
      by (cases "ParseDepthMessage J data (pv_venue r) (pv_instrument r) s")
        (auto simp: Binance_OnRaw_def no_message ParseDepthMessage_def Let_def split: option.splits if_splits)
  qed
  show "fst (Binance_OnRaw J m c n clk (r, s)) = fst (Binance_OnRaw J m c n clk (r, s'))" by (rule chain_seq_irrelevant)
qed

theorem unreadable_level_refused_witness:
  "Bybit_OnRaw sample_reader ''broken'' 0 0 (\<lambda>_. 0) (new_bybit BYBIT (InstrumentKey 0) 1 0 0 ''orderbook.50.BTCUSDT'' ''orderbook.1.BTCUSDT'') =
    new_bybit BYBIT (InstrumentKey 0) 1 0 0 ''orderbook.50.BTCUSDT'' ''orderbook.1.BTCUSDT''"
proof -
  have "unreadable_sides sample_reader (bybit_sides sample_reader ''broken'')"
    by (simp add: unreadable_sides_def bybit_sides_def unreadable_def readable_def level_texts_def sample_json)
  then show ?thesis
    using unreadable_level_refused[of sample_reader "''broken''" 0 0 "\<lambda>_. 0"
        "new_bybit BYBIT (InstrumentKey 0) 1 0 0 ''orderbook.50.BTCUSDT'' ''orderbook.1.BTCUSDT''"] by blast
qed

text \<open>C18. Whatever messages and REST answers arrive and however its connections come and go, everything a
  provider hands on carries its own venue, and every update and quote its own instrument as well.\<close>

theorem own_feed_only:
  "((bybit_run_step J)\<^sup>*\<^sup>* (new_bybit v k n d b t t') p \<longrightarrow> list_all (own_event v k) (pv_out p)) \<and>
   ((okx_run_step J)\<^sup>*\<^sup>* (new_okx v k n d b) q \<longrightarrow> list_all (own_event v k) (pv_out q)) \<and>
   ((binance_run_step J)\<^sup>*\<^sup>* (new_binance v k n d b t) r \<longrightarrow> list_all (own_event v k) (pv_out r))"
proof (intro conjI impI)
  have "own v k (new_bybit v k n d b t t')" by (simp add: own_def new_bybit_def)
  then show "list_all (own_event v k) (pv_out p)" if "(bybit_run_step J)\<^sup>*\<^sup>* (new_bybit v k n d b t t') p"
    using bybit_own.run that unfolding bybit_run_step_def own_def by blast
  have "own v k (new_okx v k n d b)" by (simp add: own_def new_okx_def)
  then show "list_all (own_event v k) (pv_out q)" if "(okx_run_step J)\<^sup>*\<^sup>* (new_okx v k n d b) q"
    using okx_own.run that unfolding okx_run_step_def own_def by blast
  have "own_buffered v k (new_binance v k n d b t)" by (simp add: own_buffered_def own_def new_binance_def)
  then show "list_all (own_event v k) (pv_out r)" if "(binance_run_step J)\<^sup>*\<^sup>* (new_binance v k n d b t) r"
    using binance_own.run that unfolding binance_run_step_def own_buffered_def own_def by blast
qed

text \<open>A connection of a Bybit provider that starts, connects and takes one snapshot.\<close>

definition sample_snapshot :: json where
  "sample_snapshot = JObject [(''topic'', JString ''orderbook.50.BTCUSDT''), (''type'', JString ''snapshot''),
     (''data'', JObject [(''u'', JInt 9), (''b'', sample_levels), (''a'', sample_levels)])]"

definition snapshot_reader :: "json OnDemand" where
  "snapshot_reader = tree_reader (\<lambda>m. if m = ''snapshot'' then Some sample_snapshot
     else if m = ''instruments'' then Some sample_instruments else None) (\<lambda>_. None)"

definition bybit_started :: BybitProvider where
  "bybit_started = snd (begin_run (\<lambda>p. (True, p)) (Start (new_bybit BYBIT (InstrumentKey 0) 1 0 0 ''orderbook.50.BTCUSDT'' ''orderbook.1.BTCUSDT'')))"

definition bybit_spoken :: BybitProvider where
  "bybit_spoken = Bybit_OnRaw snapshot_reader ''snapshot'' 0 1 (\<lambda>_. 3) bybit_started"

lemma bybit_spoken_out:
  "pv_io_running bybit_started" "\<exists>h u. pv_out bybit_spoken = [HealthChanged h, Emitted u] \<and> bu_seq u = 9"
proof -
  show "pv_io_running bybit_started"
    by (simp add: bybit_started_def begin_run_def Start_def new_bybit_def CreateCombinedSession_def)
  have peek: "PeekTopic snapshot_reader ''snapshot'' = Some ''orderbook.50.BTCUSDT''"
    by (simp add: PeekTopic_def snapshot_reader_def sample_snapshot_def tree_reader_def get_string_def get_field_def)
  have "readable snapshot_reader sample_rows"
    by (simp add: readable_def sample_rows_def level_texts_def snapshot_reader_def tree_reader_def)
  then obtain ls where ls: "read_side (Bybit_AppendLevels snapshot_reader) (Some sample_rows) = Some ls"
    by (simp add: Bybit_AppendLevels_def read_side_spec)
  define node where "node = JObject [(''u'', JInt 9), (''b'', sample_levels), (''a'', sample_levels)]"
  have fields: "od_iterate snapshot_reader ''snapshot'' = Some sample_snapshot"
      "get_string snapshot_reader (Some sample_snapshot) ''topic'' = Some ''orderbook.50.BTCUSDT''"
      "get_string snapshot_reader (Some sample_snapshot) ''type'' = Some ''snapshot''"
      "Option.bind (get_field snapshot_reader (Some sample_snapshot) ''data'') (od_object snapshot_reader) = Some node"
      "get_uint64 snapshot_reader (Some node) ''u'' = Some 9" "get_array snapshot_reader (Some node) ''b'' = Some sample_rows"
      "get_array snapshot_reader (Some node) ''a'' = Some sample_rows"
    by (simp_all add: snapshot_reader_def sample_snapshot_def tree_reader_def get_string_def get_field_def get_uint64_def get_array_def
        sample_levels_def sample_rows_def node_def)
  obtain u where u: "ParseOrderbookMessage snapshot_reader ''snapshot'' BYBIT (InstrumentKey 0) = Some u" "bu_seq u = 9" "bu_is_snapshot u"
    using ls by (simp add: ParseOrderbookMessage_def fields Let_def with_sides_def value_or_def)
  have "pv_venue bybit_started = BYBIT" "pv_instrument bybit_started = InstrumentKey 0"
      "by_depth_topic bybit_started = ''orderbook.50.BTCUSDT''"
    by (simp_all add: bybit_started_def begin_run_def Start_def new_bybit_def CreateCombinedSession_def)
  then have e: "bybit_spoken = Bybit_OnDepthMessage (Some u) 0 1 (\<lambda>_. 3) bybit_started"
    by (simp add: bybit_spoken_def Bybit_OnRaw_def Bybit_OnCombinedMessage_def peek u(1))
  show "\<exists>h u. pv_out bybit_spoken = [HealthChanged h, Emitted u] \<and> bu_seq u = 9"
    unfolding e using u
    by (simp add: Bybit_OnDepthMessage_def Let_def bybit_started_def begin_run_def Start_def new_bybit_def CreateCombinedSession_def
        NoteDepthActivity_def PublishHealth_def NeedsImmediatePromotion_def AcceptDepth_def Accept_def new_dedup_def
        CheckBybitContinuity_def Emit_def)
qed

lemma bybit_spoken_run:
  "(bybit_run_step snapshot_reader)\<^sup>*\<^sup>* (new_bybit BYBIT (InstrumentKey 0) 1 0 0 ''orderbook.50.BTCUSDT'' ''orderbook.1.BTCUSDT'') bybit_spoken"
proof -
  let ?p = "new_bybit BYBIT (InstrumentKey 0) 1 0 0 ''orderbook.50.BTCUSDT'' ''orderbook.1.BTCUSDT''"
  have "bybit_run_step snapshot_reader ?p (Start ?p)" unfolding bybit_run_step_def by (rule ps_start)
  moreover have "bybit_run_step snapshot_reader (Start ?p) bybit_started"
    unfolding bybit_run_step_def bybit_started_def by (rule ps_begin) (simp_all add: Start_def new_bybit_def)
  moreover have "bybit_run_step snapshot_reader bybit_started bybit_spoken"
    unfolding bybit_run_step_def by (rule ps_handler) (use bybit_spoken_out(1) in \<open>auto simp: bybit_spoken_def\<close>)
  ultimately show ?thesis by (meson converse_rtranclp_into_rtranclp r_into_rtranclp)
qed

theorem own_feed_only_witness:
  "\<exists>h u. pv_out bybit_spoken = [HealthChanged h, Emitted u] \<and> he_venue h = BYBIT \<and> bu_venue u = BYBIT \<and> bu_instrument u = InstrumentKey 0"
proof -
  have "list_all (own_event BYBIT (InstrumentKey 0)) (pv_out bybit_spoken)"
    using own_feed_only[of snapshot_reader BYBIT "InstrumentKey 0" 1 0 0 "''orderbook.50.BTCUSDT''" "''orderbook.1.BTCUSDT''" bybit_spoken]
      bybit_spoken_run by blast
  then show ?thesis using bybit_spoken_out(2) by auto
qed

text \<open>Note. A running OKX futures provider converts with the contract size the exchange has answered for
  its instrument, a linear contract, and never with zero or the neutral factor it was built with; off the futures market
  it converts nothing.\<close>

theorem okx_futures_scale:
  assumes "(okx_run_step J)\<^sup>*\<^sup>* (new_okx v k n d b) p" "pv_io_running p"
  shows "if Market (pv_instrument p) = kFutures
    then ok_contract_size p \<noteq> 0 \<and>
      (\<exists>body doc entry ct_val. od_iterate J body = Some doc \<and> get_string J entry ''instId'' = Some (ToOkxInstId (pv_instrument p)) \<and>
         get_string J entry ''ctType'' = Some ''linear'' \<and> get_string J entry ''ctVal'' = Some ct_val \<and>
         ok_contract_size p = ParseScaledDecimal 8 ct_val)
    else ok_contract_size p = kScaleFactor"
proof -
  have s: "scale_ok J p" using okx_scale.run assms(1) new_okx_scale unfolding okx_run_step_def by blast
  show ?thesis
  proof (cases "ok_contract_size_resolved p")
    case True
    then obtain body where m: "Market (pv_instrument p) = kFutures"
      and c: "ParseOkxContractSize J body (ToOkxInstId (pv_instrument p)) = Some (ok_contract_size p)"
      using s by (auto simp: scale_ok_def)
    obtain doc entries where "od_iterate J body = Some doc" "find_contract J (ToOkxInstId (pv_instrument p)) entries = Some (ok_contract_size p)"
      using c by (auto simp: ParseOkxContractSize_def split: option.splits if_splits)
    with find_contract_Some[OF this(2)] show ?thesis unfolding kOkxScale_def using m by auto
  next
    case False
    then show ?thesis using s assms(2) by (simp add: scale_ok_def)
  qed
qed

definition okx_started :: OKXProvider where
  "okx_started = snd (begin_run (\<lambda>p. OKX_OnReconnect (fetch_contract_size snapshot_reader (Some ''instruments'') p) p)
     (Start (new_okx OKX (MakeKey 0 kFutures) 1 0 0)))"

lemma sample_key_okx: "Market (MakeKey 0 kFutures) = kFutures" "ToOkxInstId (MakeKey 0 kFutures) = ''BTC-USDT-SWAP''"
  by code_simp+

lemma sample_contract: "ParseOkxContractSize snapshot_reader ''instruments'' ''BTC-USDT-SWAP'' = Some 1000000"
  by code_simp

lemma okx_started_run:
  "(okx_run_step snapshot_reader)\<^sup>*\<^sup>* (new_okx OKX (MakeKey 0 kFutures) 1 0 0) okx_started" "pv_io_running okx_started"
  "pv_instrument okx_started = MakeKey 0 kFutures" "ok_contract_size okx_started = 1000000"
proof -
  let ?p = "new_okx OKX (MakeKey 0 kFutures) 1 0 0"
  have "okx_run_step snapshot_reader ?p (Start ?p)" unfolding okx_run_step_def by (rule ps_start)
  moreover have "okx_run_step snapshot_reader (Start ?p) okx_started"
    unfolding okx_run_step_def okx_started_def by (rule ps_begin) (auto simp: Start_def new_okx_def)
  ultimately show "(okx_run_step snapshot_reader)\<^sup>*\<^sup>* ?p okx_started" by (meson converse_rtranclp_into_rtranclp r_into_rtranclp)
  show "pv_io_running okx_started" "pv_instrument okx_started = MakeKey 0 kFutures" "ok_contract_size okx_started = 1000000"
    by (simp_all add: okx_started_def begin_run_def Start_def new_okx_def OKX_OnReconnect_def fetch_contract_size_def sample_key_okx
        sample_contract CreateCombinedSession_def)
qed

theorem okx_futures_scale_witness: "pv_io_running okx_started \<and> ok_contract_size okx_started = 1000000 \<and> ok_contract_size okx_started \<noteq> 0"
  using okx_futures_scale[OF okx_started_run(1,2)] okx_started_run(2-4) sample_key_okx(1) by simp

section \<open>Connections and the worker thread\<close>


text \<open>Note. Why the counts are exact only without exceptions: the catch clause of Run leaves the sockets of the
  failed run as they are, and one of them reporting its end during the next run is taken off that run's counts. Here it leaves a
  Bybit provider with one open connection and a count of none, that of a total outage.\<close>

theorem thrown_run_miscounts:
  assumes "c \<le> 1"
  shows "\<exists>n. (bybit_net_step J dial)\<^sup>*\<^sup>* (new_net (new_bybit v k c d b t t')) n \<and> nt_phase n = InRun \<and>
    pv_depth_live (nt_provider n) = 0 \<and> open_count (current_sessions n) = 1"
  unfolding bybit_net_step_of_def
  by (rule thrown_miscounts[of _ "\<lambda>q. (True, q)"]) (use assms in \<open>simp_all add: new_bybit_def\<close>)

theorem thrown_run_miscounts_witness:
  "\<exists>n. (bybit_net_step sample_reader \<lparr>dl_host = ''h'', dl_port = ''443'', dl_target = [], dl_subscribe = []\<rparr>)\<^sup>*\<^sup>*
      (new_net (new_bybit BYBIT (InstrumentKey 0) 1 0 0 [] [])) n \<and> nt_phase n = InRun \<and>
    pv_depth_live (nt_provider n) = 0 \<and> open_count (current_sessions n) = 1"
  by (rule thrown_run_miscounts) simp

text \<open>The first run of a provider whose hook accepts.\<close>

definition run_begun :: "Dial \<Rightarrow> 'a Provider_scheme \<Rightarrow> 'a Provider_scheme Net" where
  "run_begun dial p =
     \<lparr>nt_provider = snd (begin_run (\<lambda>q. (True, q)) (Start p)),
      nt_sessions = map (\<lambda>i. Session_Run dial (new_session (of_nat i))) [0..<unat (max 1 (pv_connections p))],
      nt_first = 0, nt_timer = True, nt_phase = InRun, nt_owner = Free\<rparr>"

lemma run_begins:
  assumes "\<not> pv_running p" "(\<lambda>q. (True, q)) \<in> K"
  shows "(net_step_of throws H G K dial)\<^sup>*\<^sup>* (new_net p) (run_begun dial p)"
proof -
  let ?N = "net_step_of throws H G K dial"
  let ?n0 = "(new_net p)\<lparr>nt_provider := Start p, nt_phase := AtTop\<rparr>"
  let ?n1 = "?n0\<lparr>nt_phase := Starting\<rparr>"
  have a: "?N (new_net p) ?n0" using net_start[of "new_net p" throws H G K dial] assms(1) by (simp add: new_net_def)
  have b: "?N ?n0 ?n1" using net_top[of ?n0 throws H G K dial] by (simp add: new_net_def Start_def)
  have c: "?N ?n1 (run_begun dial p)"
    using net_begin[of ?n1 "\<lambda>q. (True, q)" K throws H G dial] assms(2) by (simp add: new_net_def run_begun_def Start_def)
  show ?thesis
    by (rule converse_rtranclp_into_rtranclp[where r = ?N, OF a converse_rtranclp_into_rtranclp[where r = ?N, OF b
      r_into_rtranclp[where r = ?N, OF c]]])
qed


definition sample_dial :: Dial where
  "sample_dial = \<lparr>dl_host = ''stream.bybit.com'', dl_port = ''443'', dl_target = ''/v5/public/spot'', dl_subscribe = ''subscribe''\<rparr>"


definition total_outage :: "'a Provider_scheme Net \<Rightarrow> bool" where
  "total_outage n \<longleftrightarrow>
     nt_phase n = InRun \<and> pv_io_running (nt_provider n) \<and> pv_depth_live (nt_provider n) = 0 \<and>
     list_all (\<lambda>s. ss_op s = None) (take (nt_first n) (nt_sessions n))"

lemma total_outage_idle: "net_ok n \<Longrightarrow> total_outage n \<Longrightarrow> run_idle n"
  unfolding total_outage_def by (elim conjE) (rule outage_idle)

lemma outage_starts: "net_ok n \<Longrightarrow> total_outage n \<Longrightarrow> outage_path n n"
  using total_outage_idle[of n] net_ok_sound[of n] by (simp add: outage_path_def total_outage_def)

text \<open>C27. A run that has lost its last connection, in a state whose counts are right (C25), with no socket of
  an earlier run still waiting. Nothing keeps the io_context: if the watchdog's timer is still set, it fires once more, gives out
  the event that the venue is disconnected for the depth stream and for the quotes - for each of them that was not already
  reported so and is not being resynced, and if there is a callback -, keeps both verdicts and is not set again; without the
  timer nothing is left to do; and ioc.run() returns (run_ended). For all three venues a schedule does this. For Bybit and OKX
  every schedule, the owner's calls included, is at the end of the run within three steps, and at an end like that unless the
  owner has called Stop; an exception out of the timer's handler gets back to the top of the loop instead. Binance's detached
  requests may go on posting.\<close>

theorem total_outage_ends_run:
  "(net_ok n1 \<and> total_outage n1 \<longrightarrow> (\<exists>n'. (bybit_net_step J dial)\<^sup>*\<^sup>* n1 n' \<and> run_ended n1 n') \<and>
      (\<forall>f. f 0 = n1 \<and> (\<forall>i. bybit_net_step J dial (f i) (f (Suc i))) \<longrightarrow>
        (\<exists>i\<le>3. nt_phase (f i) = AtTop \<or> nt_phase (f i) = AfterRun \<and> (nt_owner (f i) = Free \<longrightarrow> run_ended n1 (f i))))) \<and>
   (net_ok n2 \<and> total_outage n2 \<longrightarrow> (\<exists>n'. (okx_net_step J dial)\<^sup>*\<^sup>* n2 n' \<and> run_ended n2 n') \<and>
      (\<forall>f. f 0 = n2 \<and> (\<forall>i. okx_net_step J dial (f i) (f (Suc i))) \<longrightarrow>
        (\<exists>i\<le>3. nt_phase (f i) = AtTop \<or> nt_phase (f i) = AfterRun \<and> (nt_owner (f i) = Free \<longrightarrow> run_ended n2 (f i))))) \<and>
   (net_ok n3 \<and> total_outage n3 \<longrightarrow> (\<exists>n'. (binance_net_step J dial)\<^sup>*\<^sup>* n3 n' \<and> run_ended n3 n'))"
proof -
  have three: "Suc (stalls n) \<le> 3" for n :: "'p Net" by (simp add: stalls_def)
  have bybit: "\<exists>i\<le>3. nt_phase (f i) = AtTop \<or> nt_phase (f i) = AfterRun \<and> (nt_owner (f i) = Free \<longrightarrow> run_ended n1 (f i))"
    if "net_ok n1" "total_outage n1" "f 0 = n1" "\<And>i. bybit_net_step J dial (f i) (f (Suc i))" for f
  proof -
    have "outage_path n1 (f 0)" unfolding that(3) by (rule outage_starts[OF that(1,2)])
    from bybit_net.outage_chain[OF _ this that(4)[unfolded bybit_net_step_of_def]]
    show ?thesis unfolding outage_over_def using three order_trans by blast
  qed
  have okx: "\<exists>i\<le>3. nt_phase (f i) = AtTop \<or> nt_phase (f i) = AfterRun \<and> (nt_owner (f i) = Free \<longrightarrow> run_ended n2 (f i))"
    if "net_ok n2" "total_outage n2" "f 0 = n2" "\<And>i. okx_net_step J dial (f i) (f (Suc i))" for f
  proof -
    have "outage_path n2 (f 0)" unfolding that(3) by (rule outage_starts[OF that(1,2)])
    from okx_net.outage_chain[OF _ this that(4)[unfolded okx_net_step_of_def]]
    show ?thesis unfolding outage_over_def using three order_trans by blast
  qed
  show ?thesis
  proof (intro conjI impI allI; elim conjE)
    show "\<exists>n'. (bybit_net_step J dial)\<^sup>*\<^sup>* n1 n' \<and> run_ended n1 n'" if "net_ok n1" "total_outage n1"
      using bybit_net.outage_ends_run that unfolding bybit_net_step_of_def total_outage_def by blast
    show "\<exists>n'. (okx_net_step J dial)\<^sup>*\<^sup>* n2 n' \<and> run_ended n2 n'" if "net_ok n2" "total_outage n2"
      using okx_net.outage_ends_run that unfolding okx_net_step_of_def total_outage_def by blast
    show "\<exists>n'. (binance_net_step J dial)\<^sup>*\<^sup>* n3 n' \<and> run_ended n3 n'" if "net_ok n3" "total_outage n3"
      using binance_net.outage_ends_run that unfolding binance_net_step_of_def total_outage_def by blast
  qed (use bybit okx in blast)+
qed

definition one_line :: BybitProvider where
  "one_line = new_bybit BYBIT (InstrumentKey 0) 1 0 0 ''orderbook.50.BTCUSDT'' ''orderbook.1.BTCUSDT''"

definition line_lost :: "BybitProvider Net" where
  "line_lost = (run_begun sample_dial one_line)\<lparr>nt_sessions :=
     [(Session_Run sample_dial (new_session 0))\<lparr>ss_op := None, ss_closed_notified := True\<rparr>],
     nt_provider := OnCombinedSessionClosed (\<lambda>p. (True, p)) (nt_provider (run_begun sample_dial one_line))\<rparr>"

lemma line_lost_reached: "(bybit_net_step_of throws sample_reader sample_dial)\<^sup>*\<^sup>* (new_net one_line) line_lost"
proof -
  let ?n = "run_begun sample_dial one_line"
  let ?s = "Session_Run sample_dial (new_session 0)"
  have n: "nt_sessions ?n = [?s]" "nt_phase ?n = InRun" "pv_io_running (nt_provider ?n)"
    using begin_run_live(3)[of "\<lambda>q. (True, q)" "Start one_line"]
    by (simp_all add: run_begun_def one_line_def new_bybit_def max_def)
  have "session_step ?s (ClosedCall, ?s\<lparr>ss_op := None, ss_closed_notified := True\<rparr>)"
    using resolved[of ?s True] by (simp add: OnResolve_def NotifyClosed_def Session_Run_def new_session_def)
  then have "bybit_net_step_of throws sample_reader sample_dial ?n line_lost"
    using net_closed[of ?n 0 "?s\<lparr>ss_op := None, ss_closed_notified := True\<rparr>" "\<lambda>p. (True, p)" _ throws] n
    unfolding bybit_net_step_of_def line_lost_def by simp
  moreover have "(bybit_net_step_of throws sample_reader sample_dial)\<^sup>*\<^sup>* (new_net one_line) ?n"
    using run_begins[of one_line "{\<lambda>p. (True, p)}"] by (simp add: bybit_net_step_of_def one_line_def new_bybit_def)
  ultimately show ?thesis by (rule rtranclp.rtrancl_into_rtrancl[rotated])
qed

lemma line_lost_outage: "net_ok line_lost \<and> total_outage line_lost \<and> nt_timer line_lost"
proof -
  have "(net_step_of False (\<lambda>m c p p'. \<exists>n clk. p' = Bybit_OnRaw sample_reader m c n clk p) (\<lambda>_ _. False) {\<lambda>p. (True, p)} sample_dial)\<^sup>*\<^sup>*
      (new_net one_line) line_lost" using line_lost_reached[of False] by (simp add: bybit_net_step_of_def)
  then have "net_ok line_lost" by (rule bybit_net.net_run_ok) (rule new_net_ok; simp add: one_line_def new_bybit_def)
  moreover have "total_outage line_lost" "nt_timer line_lost"
    using begin_run_live[of "\<lambda>q. (True, q)" "Start one_line"]
    by (simp_all add: total_outage_def line_lost_def run_begun_def one_line_def new_bybit_def Start_def OnCombinedSessionClosed_def Let_def max_def)
  ultimately show ?thesis by simp
qed

theorem total_outage_ends_run_witness:
  "\<exists>n'. (bybit_net_step sample_reader sample_dial)\<^sup>*\<^sup>* line_lost n' \<and> run_ended line_lost n'"
  using total_outage_ends_run[THEN conjunct1, THEN mp, THEN conjunct1, of line_lost sample_reader sample_dial] line_lost_outage by blast

text \<open>C26. A call of Stop on a running provider, at any point of the worker's loop but between the test of
  the loop and the restart of the io_context, ends the thread: under every schedule of the two threads the join succeeds after at
  most four more steps, no schedule gets stuck before it has - from every state a schedule leads to without the join there is a
  further step -, and one does join. The hypothesis on the state holds in every state reached, exceptions included (C25).\<close>

theorem stop_joins_worker:
  assumes "net_sound n" "nt_owner n = Free" "pv_running (nt_provider n)" "nt_phase n \<noteq> Starting"
  shows "net_step H G K dial n (stop_called n) \<and>
    (\<forall>f. f 0 = stop_called n \<and> (\<forall>i. net_step H G K dial (f i) (f (Suc i))) \<longrightarrow> (\<exists>i\<le>4. thread_joined (f i))) \<and>
    (\<forall>n'. (\<lambda>a b. net_step H G K dial a b \<and> \<not> thread_joined b)\<^sup>*\<^sup>* (stop_called n) n' \<longrightarrow> (\<exists>n''. net_step H G K dial n' n'')) \<and>
    (\<exists>n'. (net_step H G K dial)\<^sup>*\<^sup>* (stop_called n) n' \<and> thread_joined n')"
proof (intro conjI allI impI)
  note e = stop_called_ends[OF assms]
  show "net_step H G K dial n (stop_called n)" unfolding stop_called_def using assms(2,3) by (rule net_stop)
  show "\<exists>n'. (net_step H G K dial)\<^sup>*\<^sup>* (stop_called n) n' \<and> thread_joined n'" by (rule ending_reaches[OF e])
  show "\<exists>n''. net_step H G K dial n' n''" if "(\<lambda>a b. net_step H G K dial a b \<and> \<not> thread_joined b)\<^sup>*\<^sup>* (stop_called n) n'" for n'
    by (rule ending_unstuck[OF that e])
  fix f assume f: "f 0 = stop_called n \<and> (\<forall>i. net_step H G K dial (f i) (f (Suc i)))"
  have "Suc (steps_left ph) \<le> 4" for ph by (cases ph) simp_all
  then show "\<exists>i\<le>4. thread_joined (f i)" using ending_joins[of f True H G K dial] e f order_trans by metis
qed

theorem stop_joins_worker_witness:
  "\<exists>n'. (bybit_net_step sample_reader sample_dial)\<^sup>*\<^sup>* (stop_called (run_begun sample_dial one_line)) n' \<and> thread_joined n'"
proof -
  have "net_sound (run_begun sample_dial one_line)"
    using bybit_net.net_run_ok[OF run_begins new_net_ok, of one_line sample_dial] by (simp add: net_ok_sound one_line_def new_bybit_def)
  moreover have "nt_owner (run_begun sample_dial one_line) = Free" "pv_running (nt_provider (run_begun sample_dial one_line))"
    "nt_phase (run_begun sample_dial one_line) \<noteq> Starting"
    using begin_run_live(4)[of "\<lambda>q. (True, q)" "Start one_line"] by (simp_all add: run_begun_def Start_def)
  ultimately show ?thesis unfolding bybit_net_step_of_def by (rule stop_joins_worker[THEN conjunct2, THEN conjunct2, THEN conjunct2])
qed

text \<open>Note. What the previous property leaves out happens: a Stop that comes between the test of the loop and
  the restart of the io_context is undone by the restart. The owner is in the join, the new connection opens and reads, and as long
  as it does - a step leads from the state back to itself - the owner waits.\<close>

theorem stop_can_be_lost:
  assumes "c \<le> 1"
  shows "\<exists>n. (bybit_net_step J dial)\<^sup>*\<^sup>* (new_net (new_bybit v k c d b t t')) n \<and>
    nt_owner n = Joining \<and> nt_phase n = InRun \<and> bybit_net_step J dial n n"
  unfolding bybit_net_step_of_def
  by (rule late_stop[of _ "\<lambda>q. (True, q)"]) (use assms in \<open>simp_all add: new_bybit_def\<close>)

theorem stop_can_be_lost_witness:
  "\<exists>n. (bybit_net_step sample_reader sample_dial)\<^sup>*\<^sup>* (new_net one_line) n \<and> nt_owner n = Joining \<and> nt_phase n = InRun \<and>
    bybit_net_step sample_reader sample_dial n n"
  unfolding one_line_def by (rule stop_can_be_lost) simp

text \<open>An OKX provider that has been started and whose requests for the contract size have had these answers, none of them usable.\<close>

definition after_requests :: "'v OnDemand \<Rightarrow> OKXProvider \<Rightarrow> string option list \<Rightarrow> OKXProvider" where
  "after_requests J p bodies = refused_passes (map (\<lambda>body q. OKX_OnReconnect (fetch_contract_size J body q) q) bodies) (Start p)"

text \<open>C28. An OKX futures provider whose requests for the contract size fail eleven times in a row, each
  for a reason of its own: no answer, or one that cannot be read. Every failure is a pass of the loop, and a state of the provider
  (between_passes: before the next test of the loop): after each of the first ten it is still running, with that many reconnections
  counted; with the eleventh it stops running and its thread ends. What follows ends the process: a call of Stop does nothing, as
  running is unset already, so the thread is never joined, and neither the destruction of the provider nor another Start survives
  that.\<close>

theorem exhausted_provider_terminates:
  assumes "Market k = kFutures" "p = new_okx v k c d b" "length bodies = 11"
    "\<And>body. body \<in> set bodies \<Longrightarrow> fetch_contract_size J body p = None"
  shows "(\<forall>i\<le>10. (okx_net_step J dial)\<^sup>*\<^sup>* (new_net p) (between_passes (after_requests J p (take i bodies))) \<and>
      pv_running (after_requests J p (take i bodies)) \<and> unat (pv_reconnect_count (after_requests J p (take i bodies))) = i) \<and>
    \<not> pv_running (after_requests J p bodies) \<and>
    (\<exists>n. (okx_net_step J dial)\<^sup>*\<^sup>* (new_net p) n \<and> nt_provider n = after_requests J p bodies \<and> gave_up n \<and>
      Stop (nt_provider n) = nt_provider n \<and> (\<forall>n'. okx_net_step J dial n n' \<longrightarrow> nt_owner n' = Terminated))"
proof -
  let ?K = "{\<lambda>p. OKX_OnReconnect (fetch_contract_size J body p) p | body. True}"
  let ?hooks = "map (\<lambda>body q. OKX_OnReconnect (fetch_contract_size J body q) q) bodies"
  have p: "\<not> pv_running p" "pv_reconnect_count p = 0" "length ?hooks = 11"
    using assms(2,3) by (simp_all add: new_okx_def)
  have refused: "\<forall>hook\<in>set ?hooks. \<forall>r c. hook (p\<lparr>pv_running := r, pv_reconnect_count := c\<rparr>) =
      (False, p\<lparr>pv_running := r, pv_reconnect_count := c\<rparr>)"
    using assms(1,4) by (auto simp: assms(2) OKX_OnReconnect_def fetch_contract_size_def new_okx_def)
  have hooks: "set ?hooks \<subseteq> ?K" by auto
  note g1 = gives_up(1)[where p = p and hooks = ?hooks and K = ?K and dial = dial and throws = True, OF p refused hooks]
    and g2 = gives_up(2)[where p = p and hooks = ?hooks and K = ?K, OF p refused hooks]
    and g3 = gives_up(3)[where p = p and hooks = ?hooks and K = ?K and dial = dial and throws = True, OF p refused hooks]
  have take: "after_requests J p (take i bodies) = refused_passes (take i ?hooks) (Start p)" for i
    by (simp add: after_requests_def take_map)
  have run: "(okx_net_step J dial)\<^sup>*\<^sup>* (new_net p) (between_passes (after_requests J p (take i bodies))) \<and>
      pv_running (after_requests J p (take i bodies)) \<and> unat (pv_reconnect_count (after_requests J p (take i bodies))) = i"
    if "i \<le> 10" for i
  proof -
    have c: "refused_passes (take i ?hooks) (Start p) = counted p i" by (rule g2) (use that in simp_all)
    have "unat (of_nat i :: u32) = i" using that by (subst unat_of_nat) simp
    moreover have "(okx_net_step J dial)\<^sup>*\<^sup>* (new_net p) (between_passes (refused_passes (take i ?hooks) (Start p)))"
      unfolding okx_net_step_of_def by (rule g1) (use that in simp_all)
    ultimately show ?thesis using that unfolding take by (simp add: c counted_def)
  qed
  obtain n where n: "(okx_net_step J dial)\<^sup>*\<^sup>* (new_net p) n" "nt_provider n = after_requests J p bodies" "gave_up n"
    using g3 unfolding after_requests_def okx_net_step_of_def by blast
  have t: "\<forall>n'. okx_net_step J dial n n' \<longrightarrow> nt_owner n' = Terminated"
    unfolding okx_net_step_of_def using gave_up_step[OF _ n(3)] by (intro allI impI)
  have idle: "\<not> pv_running (after_requests J p bodies)" "Stop (nt_provider n) = nt_provider n"
    using n(2,3) by (simp_all add: gave_up_def Stop_def)
  have "\<exists>n. (okx_net_step J dial)\<^sup>*\<^sup>* (new_net p) n \<and> nt_provider n = after_requests J p bodies \<and> gave_up n \<and>
      Stop (nt_provider n) = nt_provider n \<and> (\<forall>n'. okx_net_step J dial n n' \<longrightarrow> nt_owner n' = Terminated)"
    by (rule exI[of _ n]) (use n t idle in simp)
  moreover have "\<forall>i\<le>10. (okx_net_step J dial)\<^sup>*\<^sup>* (new_net p) (between_passes (after_requests J p (take i bodies))) \<and>
      pv_running (after_requests J p (take i bodies)) \<and> unat (pv_reconnect_count (after_requests J p (take i bodies))) = i"
    using run by blast
  ultimately show ?thesis using idle(1) by blast
qed

theorem exhausted_provider_terminates_witness:
  "\<exists>n. (okx_net_step sample_reader sample_dial)\<^sup>*\<^sup>* (new_net (new_okx OKX (MakeKey 0 kFutures) 1 0 0)) n \<and> gave_up n"
proof -
  have "fetch_contract_size sample_reader body (new_okx OKX (MakeKey 0 kFutures) 1 0 0) = None" if "body \<in> set (replicate 11 None)" for body
    using that by (simp add: fetch_contract_size_def)
  note all = exhausted_provider_terminates[OF sample_key_okx(1) refl _ this, where dial = sample_dial]
  show ?thesis using all[THEN conjunct2, THEN conjunct2] by (meson length_replicate)
qed

text \<open>C29. The socket to the core is never used by two threads: while the main thread of the provider
  process sends its hello or its goodbye, the worker is not in a run, where alone it hands messages to the sink, and no step
  it can still take brings it there - also when the provider has given up by itself and Stop returned without a join.\<close>

theorem sink_has_one_user:
  "((process_step (bybit_net_step J dial))\<^sup>*\<^sup>* (MainHello, new_net (new_bybit v k c d b t t')) (m1, n1) \<and>
      (m1 = MainHello \<or> m1 = MainGoodbye) \<and> (worker_step (bybit_net_step J dial))\<^sup>*\<^sup>* n1 n1' \<longrightarrow> nt_phase n1' \<noteq> InRun) \<and>
   ((process_step (okx_net_step J dial))\<^sup>*\<^sup>* (MainHello, new_net (new_okx v k c d b)) (m2, n2) \<and>
      (m2 = MainHello \<or> m2 = MainGoodbye) \<and> (worker_step (okx_net_step J dial))\<^sup>*\<^sup>* n2 n2' \<longrightarrow> nt_phase n2' \<noteq> InRun) \<and>
   ((process_step (binance_net_step J dial))\<^sup>*\<^sup>* (MainHello, new_net (new_binance v k c d b s)) (m3, n3) \<and>
      (m3 = MainHello \<or> m3 = MainGoodbye) \<and> (worker_step (binance_net_step J dial))\<^sup>*\<^sup>* n3 n3' \<longrightarrow> nt_phase n3' \<noteq> InRun)"
proof -
  have "net_ok (new_net (new_bybit v k c d b t t'))" "net_ok (new_net (new_okx v k c d b))" "net_ok (new_net (new_binance v k c d b s))"
    by (rule new_net_ok; simp add: new_bybit_def new_okx_def new_binance_def)+
  note new = this[THEN net_ok_sound]
  show ?thesis unfolding bybit_net_step_of_def okx_net_step_of_def binance_net_step_of_def
    by (intro conjI impI; elim conjE)
      (rule bybit_net.sink_one_user[OF bybit_net.process_reaches_ok[OF _ new(1)]]
        okx_net.sink_one_user[OF okx_net.process_reaches_ok[OF _ new(2)]]
        binance_net.sink_one_user[OF binance_net.process_reaches_ok[OF _ new(3)]]; assumption)+
qed

text \<open>A process that is told to stop before its worker has come to a run.\<close>

lemma stopped_at_once:
  assumes "\<not> pv_running p"
  shows "\<exists>n. (process_step (net_step H G K dial))\<^sup>*\<^sup>* (MainHello, new_net p) (MainGoodbye, n) \<and> nt_phase n = NoThread"
proof -
  let ?N = "process_step (net_step H G K dial)"
  let ?a = "(new_net p)\<lparr>nt_provider := Start p, nt_phase := AtTop\<rparr>"
  let ?b = "stop_called ?a"
  let ?c = "?b\<lparr>nt_phase := Finished\<rparr>"
  have "?N\<^sup>*\<^sup>* (MainHello, new_net p) (MainStart, new_net p)" by (rule r_into_rtranclp) (rule process_hello)
  moreover have "?N (MainStart, new_net p) (MainRunning, ?a)"
    using process_start[of "net_step H G K dial" "new_net p"] by (simp add: new_net_def)
  moreover have "?N (MainRunning, ?a) (MainStop, ?a)" by (rule process_signal)
  moreover have "?N (MainStop, ?a) (MainJoin, ?b)" by (rule process_stop) (simp add: Start_def)
  moreover have "net_step H G K dial ?b ?c"
    using net_top[of ?b True H G K dial] by (simp add: stop_called_def stop_sessions_def Stop_def Start_def new_net_def)
  then have "?N (MainJoin, ?b) (MainJoin, ?c)"
    by (intro process_worker) (simp add: worker_step_def stop_called_def stop_sessions_def new_net_def)
  moreover have "?N (MainJoin, ?c) (MainGoodbye, ?c\<lparr>nt_phase := NoThread, nt_owner := Free\<rparr>)" by (rule process_joined) simp
  ultimately have "?N\<^sup>*\<^sup>* (MainHello, new_net p) (MainGoodbye, ?c\<lparr>nt_phase := NoThread, nt_owner := Free\<rparr>)"
    by (meson rtranclp.rtrancl_into_rtrancl)
  then show ?thesis by (intro exI conjI) (assumption, simp)
qed

theorem sink_has_one_user_witness:
  "\<exists>n. (process_step (bybit_net_step sample_reader sample_dial))\<^sup>*\<^sup>* (MainHello, new_net one_line) (MainGoodbye, n) \<and> nt_phase n \<noteq> InRun"
proof -
  have idle: "\<not> pv_running one_line" by (simp add: one_line_def new_bybit_def)
  obtain n where n: "(process_step (bybit_net_step sample_reader sample_dial))\<^sup>*\<^sup>* (MainHello, new_net one_line) (MainGoodbye, n)"
    using stopped_at_once[of one_line] idle unfolding bybit_net_step_of_def by blast
  then have "nt_phase n \<noteq> InRun"
    using sink_has_one_user[THEN conjunct1, THEN mp, of sample_reader sample_dial BYBIT "InstrumentKey 0" 1 0 0
        "''orderbook.50.BTCUSDT''" "''orderbook.1.BTCUSDT''" MainGoodbye n n] unfolding one_line_def by blast
  with n show ?thesis by blast
qed

section \<open>What the sockets are opened for\<close>

text \<open>How a handler tells its two feeds apart: a message of the name \<open>depth\<close> goes to the depth handler, parsed as a depth
  message, one of the name \<open>bbo\<close> to the quote handler, parsed as a quote. Nothing assigns Bybit's topics and Binance's stream name
  after the construction, so \<open>q\<close> is any state of the provider.\<close>

definition bybit_dispatches :: "'v OnDemand \<Rightarrow> string \<Rightarrow> string \<Rightarrow> BybitProvider \<Rightarrow> bool" where
  "bybit_dispatches J depth bbo p \<longleftrightarrow> (\<forall>q m c n clk. by_depth_topic q = by_depth_topic p \<longrightarrow> by_bbo_topic q = by_bbo_topic p \<longrightarrow>
     (let parsed = ParseOrderbookMessage J m (pv_venue q) (pv_instrument q)
      in (PeekTopic J m = Some depth \<longrightarrow> Bybit_OnRaw J m c n clk q = Bybit_OnDepthMessage parsed c n clk q) \<and>
         (PeekTopic J m = Some bbo \<longrightarrow> Bybit_OnRaw J m c n clk q = Bybit_OnBboMessage parsed c n clk q)))"

definition okx_dispatches :: "'v OnDemand \<Rightarrow> string \<Rightarrow> string \<Rightarrow> bool" where
  "okx_dispatches J depth bbo \<longleftrightarrow> (\<forall>q m c n clk.
     (PeekChannel J m = Some depth \<longrightarrow> OKX_OnRaw J m c n clk q =
        OKX_OnDepthMessage (ParseBooksMessage J (ok_contract_size q) m (pv_venue q) (pv_instrument q)) c n clk q) \<and>
     (PeekChannel J m = Some bbo \<longrightarrow> OKX_OnRaw J m c n clk q =
        OKX_OnBboMessage (OKX_ParseBboMessage J (ok_contract_size q) m (pv_venue q) (pv_instrument q)) c n clk q))"

definition binance_dispatches :: "'v OnDemand \<Rightarrow> string \<Rightarrow> string \<Rightarrow> BinanceProvider \<Rightarrow> bool" where
  "binance_dispatches J depth bbo p \<longleftrightarrow> (\<forall>q m data c n clk s. bn_bbo_stream_name q = bn_bbo_stream_name p \<longrightarrow>
     (UnwrapCombinedMessage J m = Some (depth, data) \<longrightarrow> Binance_OnRaw J m c n clk (q, s) =
        (let (parsed, chain_seq) = ParseDepthMessage J data (pv_venue q) (pv_instrument q) s
         in (Binance_OnDepthMessage parsed chain_seq c n clk q, chain_seq))) \<and>
     (UnwrapCombinedMessage J m = Some (bbo, data) \<longrightarrow> Binance_OnRaw J m c n clk (q, s) =
        (Binance_OnBboMessage (Binance_ParseBboMessage J data (pv_venue q) (pv_instrument q)) c n clk q, s)))"

lemma feeds_dispatched:
  "by_depth_topic p \<noteq> by_bbo_topic p \<Longrightarrow> bybit_dispatches J (by_depth_topic p) (by_bbo_topic p) p"
  "okx_dispatches J ''books'' ''bbo-tbt''"
  "depth \<noteq> bn_bbo_stream_name r \<Longrightarrow> binance_dispatches J depth (bn_bbo_stream_name r) r"
  by (auto simp: bybit_dispatches_def okx_dispatches_def binance_dispatches_def Let_def Bybit_OnRaw_def Bybit_OnCombinedMessage_def
      OKX_OnRaw_def OKX_OnCombinedMessage_def Binance_OnRaw_def Binance_OnCombinedMessage_def split: prod.split)

text \<open>C22. A provider built from a configuration opens every socket of every run to the configured host,
  and asks there for both feeds under the very names by which its handler tells them apart: what arrives under the name of the depth
  feed is read and handled as depth, what arrives under that of the quotes as a quote. Bybit's two topics differ whenever a depth of
  more than one level is configured; Binance's stream names are the two paths without their prefix, so they differ, and the handler
  can tell them apart, if the paths do; OKX's channels are books and bbo-tbt.\<close>

theorem sockets_ask_for_told_feeds:
  assumes "prints_decimal fmt" "1 < sc_depth c"
    "BuildProvider BYBIT k ep c = Some pc1" "BuildBybit fmt pc1 = Some b1"
    "(bybit_net_step J (bybit_dial b1))\<^sup>*\<^sup>* (new_net (bt_provider b1)) n1"
    "BuildProvider OKX k ep' c = Some pc2" "BuildOkx pc2 = Some b2"
    "(okx_net_step J (okx_dial b2))\<^sup>*\<^sup>* (new_net (bt_provider b2)) n2"
    "BuildProvider BINANCE k ep'' c = Some pc3" "BuildBinance pc3 = Some b3"
    "(binance_net_step J (binance_dial b3))\<^sup>*\<^sup>* (new_net (bt_provider b3)) n3"
    "bt_depth_path b3 = ''/ws/'' @ depth_stream" "bt_bbo_path b3 = ''/ws/'' @ bbo_stream"
  shows "list_all (\<lambda>s. ss_host s = ep_ws_host ep \<and> ss_subscribe_message s = ''{\"op\":\"subscribe\",\"args\":[\"'' @
      by_depth_topic (bt_provider b1) @ ''\",\"'' @ by_bbo_topic (bt_provider b1) @ ''\"]}'') (nt_sessions n1) \<and>
    by_depth_topic (bt_provider b1) \<noteq> by_bbo_topic (bt_provider b1) \<and>
    bybit_dispatches J (by_depth_topic (bt_provider b1)) (by_bbo_topic (bt_provider b1)) (bt_provider b1) \<and>
    list_all (\<lambda>s. ss_host s = ep_ws_host ep' \<and> ss_subscribe_message s =
      ''{\"op\":\"subscribe\",\"args\":[{\"channel\":\"books\",\"instId\":\"'' @ ToOkxInstId k @
      ''\"},{\"channel\":\"bbo-tbt\",\"instId\":\"'' @ ToOkxInstId k @ ''\"}]}'') (nt_sessions n2) \<and>
    okx_dispatches J ''books'' ''bbo-tbt'' \<and>
    list_all (\<lambda>s. ss_host s = ep_ws_host ep'' \<and> ss_target s = ''/stream?streams='' @ depth_stream @ ''/'' @ bbo_stream)
      (nt_sessions n3) \<and>
    bn_bbo_stream_name (bt_provider b3) = bbo_stream \<and>
    (depth_stream \<noteq> bbo_stream \<longrightarrow> binance_dispatches J depth_stream bbo_stream (bt_provider b3))"
proof -
  note f1 = BuildProvider_fields[OF assms(3)] and f2 = BuildProvider_fields[OF assms(6)] and f3 = BuildProvider_fields[OF assms(9)]
  note d1 = net_dialled[OF assms(5)[unfolded bybit_net_step_of_def]] and d2 = net_dialled[OF assms(8)[unfolded okx_net_step_of_def]]
    and d3 = net_dialled[OF assms(11)[unfolded binance_net_step_of_def]]
  have b1: "bt_config b1 = pc1" "by_depth_topic (bt_provider b1) = depth_topic fmt (pc_depth pc1) (ToInstrumentString (Symbol k))"
    "by_bbo_topic (bt_provider b1) = bbo_topic (ToInstrumentString (Symbol k))"
    using assms(4) f1 by (auto simp: BuildBybit_def built_def new_bybit_def Let_def)
  have b2: "bt_config b2 = pc2" using assms(7) by (auto simp: BuildOkx_def built_def)
  have b3: "bt_config b3 = pc3" "bt_combined_path b3 = ''/stream?streams='' @ StripWsPrefix (bt_depth_path b3) @ ''/'' @ StripWsPrefix (bt_bbo_path b3)"
    "bn_bbo_stream_name (bt_provider b3) = StripWsPrefix (bt_bbo_path b3)"
    using assms(10) by (auto simp: BuildBinance_def built_def new_binance_def Let_def)
  have "1 < pc_depth pc1" using f1 assms(2) bybit_depth_above_one by simp
  then have differ: "by_depth_topic (bt_provider b1) \<noteq> by_bbo_topic (bt_provider b1)"
    using b1(2,3) topics_differ[OF assms(1), of "pc_depth pc1"] by auto
  note told = differ feeds_dispatched(1)[OF differ, of J]
  have stream: "bn_bbo_stream_name (bt_provider b3) = bbo_stream" using b3(3) assms(13) by (simp add: StripWsPrefix_def)
  then have "depth_stream \<noteq> bbo_stream \<longrightarrow> binance_dispatches J depth_stream bbo_stream (bt_provider b3)"
    using feeds_dispatched(3)[of depth_stream "bt_provider b3" J] by simp
  moreover note told feeds_dispatched(2)[of J] stream
  moreover have "dl_host (bybit_dial b1) = ep_ws_host ep" "dl_host (okx_dial b2) = ep_ws_host ep'" "dl_host (binance_dial b3) = ep_ws_host ep''"
    "dl_target (binance_dial b3) = ''/stream?streams='' @ depth_stream @ ''/'' @ bbo_stream" "StripWsPrefix (bt_bbo_path b3) = bbo_stream"
    using f1 f2 f3 b1(1) b2 b3(1,2) assms(12,13) by (simp_all add: bybit_dial_def okx_dial_def binance_dial_def dial_of_def StripWsPrefix_def)
  moreover have "dl_subscribe (bybit_dial b1) = ''{\"op\":\"subscribe\",\"args\":[\"'' @
      by_depth_topic (bt_provider b1) @ ''\",\"'' @ by_bbo_topic (bt_provider b1) @ ''\"]}''"
    by (simp only: bybit_dial_def dial_of_def Dial.simps Bybit_CombinedSubscriptionMessage_def)
  moreover have "dl_subscribe (okx_dial b2) = ''{\"op\":\"subscribe\",\"args\":[{\"channel\":\"books\",\"instId\":\"'' @ ToOkxInstId k @
      ''\"},{\"channel\":\"bbo-tbt\",\"instId\":\"'' @ ToOkxInstId k @ ''\"}]}''"
    using f2 b2 by (simp only: okx_dial_def dial_of_def Dial.simps Okx_CombinedSubscriptionMessage_def Let_def)
  ultimately show ?thesis using dialled_asks(1)[OF d1] dialled_asks(1)[OF d2] dialled_asks(2)[OF d3] by (intro conjI) (assumption | metis)+
qed

definition feed_endpoints :: "string \<Rightarrow> string \<Rightarrow> string \<Rightarrow> VenueEndpoints" where
  "feed_endpoints host depth_path bbo_path =
     \<lparr>ep_ws_host = host, ep_ws_port = ''443'', ep_depth_path = depth_path, ep_bbo_path = bbo_path, ep_rest_host = [],
      ep_rest_port = [], ep_rest_depth_path = [], ep_rest_instruments_path = []\<rparr>"

definition feed_session :: ServerConfig where
  "feed_session = \<lparr>sc_venues = [], sc_instruments = [], sc_grpc_port = 50051, sc_depth = 50, sc_connections = 1\<rparr>"

definition built_bybit :: "BybitProvider Built option" where
  "built_bybit = Option.bind (BuildProvider BYBIT sample_key (feed_endpoints ''stream.bybit.com'' ''/v5/public/spot'' ''/v5/public/spot'') feed_session)
     (BuildBybit padded)"

definition built_okx :: "OKXProvider Built option" where
  "built_okx = Option.bind (BuildProvider OKX sample_key (feed_endpoints ''ws.okx.com'' ''/ws/v5/public'' ''/ws/v5/public'') feed_session) BuildOkx"

definition built_binance :: "BinanceProvider Built option" where
  "built_binance = Option.bind (BuildProvider BINANCE sample_key
     (feed_endpoints ''stream.binance.com'' ''/ws/{symbol}Note100ms'' ''/ws/{symbol}@bookTicker'') feed_session) BuildBinance"

lemma symbols_put_in:
  "replace_placeholders (ToLowerSymbol sample_key) ''/ws/{symbol}Note100ms'' = ''/ws/btcusdtNote100ms''"
  "replace_placeholders (ToLowerSymbol sample_key) ''/ws/{symbol}@bookTicker'' = ''/ws/btcusdt@bookTicker''"
  by code_simp+

lemma built_paths:
  "map_option (\<lambda>b. (bt_depth_path b, bt_bbo_path b)) built_binance = Some (''/ws/btcusdtNote100ms'', ''/ws/btcusdt@bookTicker'')"
  "map_option (\<lambda>b. pv_running (bt_provider b)) built_bybit = Some False"
  "built_okx \<noteq> None"
  unfolding built_binance_def built_bybit_def built_okx_def BuildProvider_def BuildBinance_def BuildBybit_def BuildOkx_def
    ResolveStreamPaths_total Let_def
  by (simp_all add: symbols_put_in built_def feed_endpoints_def new_bybit_def del: replace_placeholders.simps)

theorem sockets_ask_for_told_feeds_witness:
  "\<exists>b n. built_bybit = Some b \<and> (bybit_net_step sample_reader (bybit_dial b))\<^sup>*\<^sup>* (new_net (bt_provider b)) n \<and> nt_sessions n \<noteq> [] \<and>
    list_all (\<lambda>s. ss_host s = ''stream.bybit.com'') (nt_sessions n) \<and>
    by_depth_topic (bt_provider b) \<noteq> by_bbo_topic (bt_provider b)"
proof -
  obtain b1 b2 b3 where b: "built_bybit = Some b1" "built_okx = Some b2" "built_binance = Some b3"
    using built_paths by (cases built_bybit; cases built_okx; cases built_binance) auto
  from b(1) obtain pc1 where 1: "BuildProvider BYBIT sample_key (feed_endpoints ''stream.bybit.com'' ''/v5/public/spot'' ''/v5/public/spot'') feed_session = Some pc1"
    "BuildBybit padded pc1 = Some b1" by (auto simp: built_bybit_def bind_eq_Some_conv)
  from b(2) obtain pc2 where 2: "BuildProvider OKX sample_key (feed_endpoints ''ws.okx.com'' ''/ws/v5/public'' ''/ws/v5/public'') feed_session = Some pc2"
    "BuildOkx pc2 = Some b2" by (auto simp: built_okx_def bind_eq_Some_conv)
  from b(3) obtain pc3 where 3: "BuildProvider BINANCE sample_key
      (feed_endpoints ''stream.binance.com'' ''/ws/{symbol}Note100ms'' ''/ws/{symbol}@bookTicker'') feed_session = Some pc3"
    "BuildBinance pc3 = Some b3" by (auto simp: built_binance_def bind_eq_Some_conv)
  have p: "bt_depth_path b3 = ''/ws/'' @ ''btcusdtNote100ms''" "bt_bbo_path b3 = ''/ws/'' @ ''btcusdt@bookTicker''"
    using built_paths(1) unfolding b(3) by simp_all
  let ?n = "run_begun (bybit_dial b1) (bt_provider b1)"
  have "\<not> pv_running (bt_provider b1)" using built_paths(2) unfolding b(1) by simp
  then have r: "(bybit_net_step sample_reader (bybit_dial b1))\<^sup>*\<^sup>* (new_net (bt_provider b1)) ?n"
    using run_begins[of "bt_provider b1" "{\<lambda>p. (True, p)}"] by (simp add: bybit_net_step_of_def)
  have "(1 :: u32) < sc_depth feed_session" by (simp add: feed_session_def)
  note sockets_ask_for_told_feeds[OF padded_prints this 1 r 2 rtranclp.rtrancl_refl 3 rtranclp.rtrancl_refl p]
  moreover have "nt_sessions ?n \<noteq> []" using word_le_nat_alt[of 1 "max 1 (pv_connections (bt_provider b1))"] by (simp add: run_begun_def)
  ultimately show ?thesis using b(1) r by (intro exI[of _ b1] exI[of _ ?n]) (auto simp: feed_endpoints_def list_all_iff)
qed

text \<open>C21. An OKX futures provider that does not know its contract size connects if and only if the
  configured host answers a GET of the configured path, asking for its own instrument, with status 200 and a document that
  states a usable contract size for that instrument; it then works with that size. On every other outcome - the host name
  refused, no connection, any other status, any other document - it stays as it is and is not connected. Spot providers, and
  those that know the size, ask nobody.\<close>

theorem okx_size_from_exchange:
  assumes "pc_instrument config = pv_instrument p"
  shows "(Market (pv_instrument p) = kFutures \<and> \<not> ok_contract_size_resolved p \<longrightarrow>
      (fst (OKX_Reconnect J net config p) \<longleftrightarrow>
        (\<exists>body c. hs_sni net (pc_rest_host config) \<and>
          hs_exchange net (pc_rest_host config) (pc_rest_port config)
            \<lparr>rq_target = pc_rest_instruments_path config @ ''?instType=SWAP&instId='' @ ToOkxInstId (pv_instrument p),
             rq_version = 11, rq_host = pc_rest_host config\<rparr> = Some (200, body) \<and>
          ParseOkxContractSize J body (ToOkxInstId (pv_instrument p)) = Some c \<and>
          snd (OKX_Reconnect J net config p) = p\<lparr>ok_contract_size := c, ok_contract_size_resolved := True\<rparr>)) \<and>
      (\<not> fst (OKX_Reconnect J net config p) \<longrightarrow> snd (OKX_Reconnect J net config p) = p)) \<and>
    (Market (pv_instrument p) \<noteq> kFutures \<or> ok_contract_size_resolved p \<longrightarrow> OKX_Reconnect J net config p = (True, p))"
proof (intro conjI impI)
  let ?get = "HttpsGet net (pc_rest_host config) (pc_rest_port config) (contract_target config)"
  assume a: "Market (pv_instrument p) = kFutures \<and> \<not> ok_contract_size_resolved p"
  note r = OKX_Reconnect_asks[of p config J net, OF _ _ assms]
  have get: "?get = Some body \<longleftrightarrow> hs_sni net (pc_rest_host config) \<and>
      hs_exchange net (pc_rest_host config) (pc_rest_port config)
        \<lparr>rq_target = pc_rest_instruments_path config @ ''?instType=SWAP&instId='' @ ToOkxInstId (pv_instrument p),
         rq_version = 11, rq_host = pc_rest_host config\<rparr> = Some (200, body)" for body
    unfolding HttpsGet_Some contract_target_def assms ..
  have "fst (OKX_Reconnect J net config p) \<longleftrightarrow>
        (\<exists>body c. ?get = Some body \<and> ParseOkxContractSize J body (ToOkxInstId (pv_instrument p)) = Some c \<and>
          snd (OKX_Reconnect J net config p) = p\<lparr>ok_contract_size := c, ok_contract_size_resolved := True\<rparr>)"
  proof (cases ?get)
    case (Some body)
    then show ?thesis using r a by (cases "ParseOkxContractSize J body (ToOkxInstId (pv_instrument p))") simp_all
  qed (use r a in simp)
  then show "fst (OKX_Reconnect J net config p) \<longleftrightarrow>
        (\<exists>body c. hs_sni net (pc_rest_host config) \<and>
          hs_exchange net (pc_rest_host config) (pc_rest_port config)
            \<lparr>rq_target = pc_rest_instruments_path config @ ''?instType=SWAP&instId='' @ ToOkxInstId (pv_instrument p),
             rq_version = 11, rq_host = pc_rest_host config\<rparr> = Some (200, body) \<and>
          ParseOkxContractSize J body (ToOkxInstId (pv_instrument p)) = Some c \<and>
          snd (OKX_Reconnect J net config p) = p\<lparr>ok_contract_size := c, ok_contract_size_resolved := True\<rparr>)"
    unfolding get by (simp only: conj_assoc)
  show "snd (OKX_Reconnect J net config p) = p" if "\<not> fst (OKX_Reconnect J net config p)"
  proof (cases ?get)
    case (Some body)
    then show ?thesis using r a that by (cases "ParseOkxContractSize J body (ToOkxInstId (pv_instrument p))") simp_all
  qed (use r a in simp)
next
  assume "Market (pv_instrument p) \<noteq> kFutures \<or> ok_contract_size_resolved p"
  then show "OKX_Reconnect J net config p = (True, p)" by (auto simp: OKX_Reconnect_def)
qed

definition okx_config :: ProviderConfig where
  "okx_config =
     \<lparr>pc_venue_id = OKX, pc_instrument = MakeKey 0 kFutures, pc_host = ''ws.okx.com'', pc_port = ''443'', pc_depth_path = ''/ws'',
      pc_bbo_path = ''/ws'', pc_rest_host = ''www.okx.com'', pc_rest_port = ''443'', pc_rest_depth_path = [],
      pc_rest_instruments_path = ''/api'', pc_depth = 400, pc_connections = 1, pc_depth_backstop_ns = 0, pc_bbo_backstop_ns = 0\<rparr>"

text \<open>A network in which that host alone answers, and only this request.\<close>

definition okx_web :: Https where
  "okx_web =
     \<lparr>hs_sni = (\<lambda>_. True),
      hs_exchange = (\<lambda>host port rq. if host = ''www.okx.com'' \<and> rq_target rq = ''/api?instType=SWAP&instId=BTC-USDT-SWAP''
                       then Some (200, ''instruments'') else Some (404, []))\<rparr>"

theorem okx_size_from_exchange_witness:
  "snd (OKX_Reconnect snapshot_reader okx_web okx_config (new_okx OKX (MakeKey 0 kFutures) 1 0 0)) =
     (new_okx OKX (MakeKey 0 kFutures) 1 0 0)\<lparr>ok_contract_size := 1000000, ok_contract_size_resolved := True\<rparr>"
proof -
  let ?p = "new_okx OKX (MakeKey 0 kFutures) 1 0 0"
  have p: "pv_instrument ?p = MakeKey 0 kFutures" "\<not> ok_contract_size_resolved ?p" by (simp_all add: new_okx_def)
  have "OKX_Reconnect snapshot_reader okx_web okx_config ?p =
      (True, ?p\<lparr>ok_contract_size := 1000000, ok_contract_size_resolved := True\<rparr>)"
    using OKX_Reconnect_asks[of ?p okx_config snapshot_reader okx_web] sample_contract sample_key_okx p
    by (simp add: okx_config_def okx_web_def HttpsGet_def contract_target_def)
  then have f: "fst (OKX_Reconnect snapshot_reader okx_web okx_config ?p)" by simp
  have "pc_instrument okx_config = pv_instrument ?p" by (simp add: okx_config_def new_okx_def)
  from okx_size_from_exchange[OF this, THEN conjunct1, THEN mp, THEN conjunct1, THEN iffD1, OF conjI f] p sample_key_okx(1)
  obtain body c where "hs_exchange okx_web (pc_rest_host okx_config) (pc_rest_port okx_config)
        \<lparr>rq_target = pc_rest_instruments_path okx_config @ ''?instType=SWAP&instId='' @ ToOkxInstId (pv_instrument ?p),
         rq_version = 11, rq_host = pc_rest_host okx_config\<rparr> = Some (200, body)"
    "ParseOkxContractSize snapshot_reader body (ToOkxInstId (pv_instrument ?p)) = Some c"
    "snd (OKX_Reconnect snapshot_reader okx_web okx_config ?p) = ?p\<lparr>ok_contract_size := c, ok_contract_size_resolved := True\<rparr>" by auto
  then show ?thesis using p(1) sample_contract sample_key_okx(2) by (auto simp: okx_config_def okx_web_def)
qed

section \<open>The wire\<close>

text \<open>C30. A book update survives the wire: decoding its frame, whatever the padding bytes hold and
  whatever follows in the buffer, gives the update back, with the sequence numbers, stamps, snapshot mark and both
  sides, and leaves the target's venue alone. The sides hold fewer than two to the 32 levels.\<close>

theorem wire_update_roundtrip:
  assumes "length (bu_bids u) < 2 ^ 32" "length (bu_asks u) < 2 ^ 32"
  shows "DecodeBookUpdate (EncodeBookUpdate padding u @ rest) out = (True, u\<lparr>bu_venue := bu_venue out\<rparr>)"
  using assms by (rule update_roundtrip)

theorem wire_update_roundtrip_witness:
  "DecodeBookUpdate (EncodeBookUpdate 77 binance_snapshot @ [1, 2]) empty_update = (True, binance_snapshot)"
proof -
  have "binance_snapshot\<lparr>bu_venue := bu_venue empty_update\<rparr> = binance_snapshot"
    by (simp add: binance_snapshot_def sample_update_def empty_update_def)
  then show ?thesis
    using wire_update_roundtrip[of binance_snapshot 77 "[1, 2]" empty_update]
    by (simp add: binance_snapshot_def sample_update_def)
qed

text \<open>Note. The other four messages survive the wire too: a quote whole; a health event whole, its
  stream and verdict being ones that exist; a hello with its instrument and a venue name of at most fifteen characters
  without a NUL; a goodbye with its reason.\<close>

theorem wire_frames_roundtrip:
  assumes "he_stream e = kDepth \<or> he_stream e = kBbo" "\<forall>b. he_health e \<noteq> HealthRaw b" "length n \<le> 15" "CHR 0x00 \<notin> set n"
    and "\<forall>w. r \<noteq> ReasonRaw w"
  shows "DecodeBboQuote (EncodeBboQuote padding q @ rest) q0 = (True, q\<lparr>q_venue := q_venue q0\<rparr>) \<and>
    DecodeHealth (EncodeHealth e @ rest) e0 = (True, e\<lparr>he_venue := he_venue e0\<rparr>) \<and>
    DecodeHello (EncodeHello k n @ rest) = Decoded (k, n) \<and> DecodeGoodbye (EncodeGoodbye r @ rest) = Some r"
proof (intro conjI)
  show "DecodeBboQuote (EncodeBboQuote padding q @ rest) q0 = (True, q\<lparr>q_venue := q_venue q0\<rparr>)" by (rule quote_roundtrip)
  show "DecodeHealth (EncodeHealth e @ rest) e0 = (True, e\<lparr>he_venue := he_venue e0\<rparr>)"
    using assms(1,2) by (cases "he_health e") (auto simp: health_roundtrip stream_of_u8_def health_of_u8_def)
  have "takeWhile (\<lambda>c. c \<noteq> CHR 0x00) n = n" using assms(4) by (simp add: takeWhile_eq_all_conv) metis
  then show "DecodeHello (EncodeHello k n @ rest) = Decoded (k, n)" using assms(3) by (simp add: hello_roundtrip)
  show "DecodeGoodbye (EncodeGoodbye r @ rest) = Some r"
    using assms(5) by (cases r) (auto simp: goodbye_roundtrip reason_of_u32_def)
qed

theorem wire_frames_roundtrip_witness:
  "DecodeHello (EncodeHello sample_key ''BYBIT'') = Decoded (sample_key, ''BYBIT'') \<and>
   DecodeGoodbye (EncodeGoodbye kShutdown) = Some kShutdown"
  using wire_frames_roundtrip[of "\<lparr>he_venue = BYBIT, he_stream = kBbo, he_health = kStale, he_decided_mono_ns = 5\<rparr>" "''BYBIT''"
      kShutdown 0 empty_quote "[]" empty_quote "\<lparr>he_venue = OKX, he_stream = kBbo, he_health = kStale, he_decided_mono_ns = 5\<rparr>" sample_key]
  by simp

text \<open>C31. A frame cut short is never taken for a smaller message: every proper prefix of an encoded
  frame, of each of the five types, is rejected.\<close>

theorem wire_truncated_rejected:
  assumes "length (bu_bids u) < 2 ^ 32" "length (bu_asks u) < 2 ^ 32"
  shows "(k < length (EncodeBookUpdate padding u) \<longrightarrow> \<not> fst (DecodeBookUpdate (take k (EncodeBookUpdate padding u)) u0)) \<and>
    (k < length (EncodeBboQuote padding q) \<longrightarrow> \<not> fst (DecodeBboQuote (take k (EncodeBboQuote padding q)) q0)) \<and>
    (k < length (EncodeHealth e) \<longrightarrow> \<not> fst (DecodeHealth (take k (EncodeHealth e)) e0)) \<and>
    (k < length (EncodeHello i n) \<longrightarrow> DecodeHello (take k (EncodeHello i n)) = Rejected) \<and>
    (k < length (EncodeGoodbye r) \<longrightarrow> DecodeGoodbye (take k (EncodeGoodbye r)) = None)"
  unfolding fixed_encoded_length using update_truncated[OF assms] fixed_truncated by blast

theorem wire_truncated_rejected_witness:
  "\<not> fst (DecodeBookUpdate (take 100 (EncodeBookUpdate 0 binance_snapshot)) empty_update)"
proof -
  have l: "length (bu_bids binance_snapshot) = 2" "length (bu_asks binance_snapshot) = 2"
    by (simp_all add: binance_snapshot_def sample_update_def)
  then have "100 < length (EncodeBookUpdate 0 binance_snapshot)" by (simp add: length_EncodeBookUpdate)
  then show ?thesis using wire_truncated_rejected[of binance_snapshot 100 0 empty_update] l by simp
qed

section \<open>The transport\<close>

text \<open>C32. The provider's end: the frames sent are exactly those of the calls the socket took, in
  order, and for every depth update or health event it refused the provider is asked to resync, once.\<close>

theorem sink_loses_nothing_silently:
  assumes "sk_has_resync_hook s"
  defines "run \<equiv> fold (\<lambda>(c, accepts). sink_call c accepts)"
  shows "sk_sent (run calls s) = sk_sent s @ map frame_of (map fst (filter snd calls)) \<and>
    sk_resyncs (run calls s) = sk_resyncs s + length (filter (\<lambda>(c, accepts). must_arrive c \<and> \<not> accepts) calls)"
  unfolding run_def using sink_run(1) sink_run(2)[OF assms(1)] by blast

definition sample_calls :: "(SinkCall \<times> bool) list" where
  "sample_calls = [(CallUpdate 0 bybit_snapshot, True), (CallQuote 0 empty_quote, False), (CallUpdate 0 bybit_snapshot, False)]"

theorem sink_loses_nothing_silently_witness:
  "sk_sent (fold (\<lambda>(c, accepts). sink_call c accepts) sample_calls (SetResyncHook (new_sink sample_key ''BYBIT''))) =
     [EncodeBookUpdate 0 bybit_snapshot] \<and>
   sk_resyncs (fold (\<lambda>(c, accepts). sink_call c accepts) sample_calls (SetResyncHook (new_sink sample_key ''BYBIT''))) = 1"
  using sink_loses_nothing_silently[of "SetResyncHook (new_sink sample_key ''BYBIT'')" sample_calls]
  by (simp add: SetResyncHook_def new_sink_def sample_calls_def)

text \<open>C33. The core's end: whatever bytes arrive as frames - of sinks, cut short, of unknown types, before any
  hello - on however many connections and however these open and close, the receive loop handles every message without
  undefined behaviour, changes the core through the core's own entry points only, and so keeps the core's invariant. Two kinds
  of frames are excluded by hypothesis: a hello whose name fills its field without a terminator, past which the code reads, and
  an update that names a price twice on one side or names price zero, which the ingress passes on unchecked.\<close>

theorem ingress_drives_core:
  assumes "core_ok (ig_core s)" "\<forall>m \<in> set ms. \<forall>f \<in> set (snd m). acceptable_frame f"
  shows "\<exists>s'. Ingress_Run ms s = Some s' \<and> core_step\<^sup>*\<^sup>* (ig_core s) (ig_core s') \<and> core_ok (ig_core s')"
  using Ingress_Run_steps[OF assms(2), of s] ingress_core_ok[OF assms] by auto

definition started_ingress :: Ingress where
  "started_ingress = Ingress_Start (new_ingress (Init (new_Core True True) \<lparr>cfg_venues = [], cfg_default_instruments = [sample_key]\<rparr>) sample_key)"

lemma started_core_ok: "core_ok (ig_core started_ingress)"
  by (simp add: started_ingress_def Ingress_Start_def new_ingress_def Init_ok)

definition sample_traffic :: "(string \<times> bytes list) list" where
  "sample_traffic = [(''a'', [[]]), (''a'', [EncodeHello sample_key ''BYBIT'']), (''a'', [EncodeBookUpdate 0 bybit_snapshot]), (''b'', [[1, 2, 3]]),
     (''b'', [[2, 0, 1, 0], [7]]), (''a'', [[]])]"

theorem ingress_drives_core_witness:
  "\<exists>s'. Ingress_Run sample_traffic started_ingress = Some s' \<and>
     core_step\<^sup>*\<^sup>* (ig_core started_ingress) (ig_core s') \<and> core_ok (ig_core s')"
proof (rule ingress_drives_core[OF started_core_ok])
  have "length (bu_bids bybit_snapshot) < 2 ^ 32" "length (bu_asks bybit_snapshot) < 2 ^ 32"
    by (simp_all add: bybit_snapshot_def sample_update_def)
  then have "acceptable_frame (EncodeBookUpdate 0 bybit_snapshot)" using sink_frames_acceptable(5)[OF sample_wf(3)] by simp
  moreover have "acceptable_frame []" "acceptable_frame [1, 2, 3]" "acceptable_frame [2, 0, 1, 0]" "acceptable_frame [7]"
    by code_simp+
  ultimately show "\<forall>m \<in> set sample_traffic. \<forall>f \<in> set (snd m). acceptable_frame f"
    using sink_frames_acceptable(1) by (simp add: sample_traffic_def)
qed

text \<open>C34. From emission to queue: of the updates a sink has sent on a bound connection, with sides of fewer than
  two to the 32 levels and received with nothing in between, the venue's queue takes as many as it has room for, in the order in
  which the provider emitted them and equal to them in every field but the venue, and the ingress counts the others. The venue is
  not on the wire and nobody sets it on arrival: the queued message has the one the decode buffer happens to hold. It is not
  read when the message is handled, which treats it as the emitted update, in the slot of the connection.\<close>

theorem updates_cross_the_wire:
  fixes s slot
  assumes "core_ok (ig_core s)" "slot < kMaxVenues" "ig_identity_to_slot s identity = Some slot" "ig_running s"
    and "\<forall>u \<in> set us. length (bu_bids u) < 2 ^ 32 \<and> length (bu_asks u) < 2 ^ 32"
    and "sk_sent sink = []"
  defines "free \<equiv> kProviderQueueCapacity - length (contents kProviderQueueCapacity (co_queues (ig_core s) ! slot))"
    and "arrived \<equiv> \<lambda>u. MsgUpdate (u\<lparr>bu_venue := bu_venue (ig_decode_update s)\<rparr>)"
  shows "(\<exists>s'. Ingress_Run (map (\<lambda>f. (identity, [f])) (sk_sent (fold (\<lambda>u. OnUpdate padding u True) us sink))) s = Some s' \<and>
      contents kProviderQueueCapacity (co_queues (ig_core s') ! slot) =
        contents kProviderQueueCapacity (co_queues (ig_core s) ! slot) @ map arrived (take free us) \<and>
      ig_enqueue_overflow s' = ig_enqueue_overflow s + of_nat (length us - free)) \<and>
    (\<forall>u c. dispatch slot (arrived u) c = dispatch slot (MsgUpdate u) c)"
proof -
  have l: "slot < length (co_queues (ig_core s))" using core_okD(1)[OF assms(1)] assms(2) by (simp add: shape_ok_def)
  then have q: "queue_ok kProviderQueueCapacity (co_queues (ig_core s) ! slot)"
    using core_okD(2)[OF assms(1)] nth_mem[OF l] by (simp add: queues_ok_def)
  have "sk_sent (fold (\<lambda>u. OnUpdate padding u True) us sink) = map (EncodeBookUpdate padding) us"
    using updates_sent[of padding us sink] assms(6) by simp
  then show ?thesis using updates_arrive[OF q l assms(3,4,5), of padding] update_venue_unread
    by (simp add: comp_def free_def arrived_def del: length_contents dispatch.simps)
qed

definition bound_ingress :: Ingress where
  "bound_ingress = started_ingress\<lparr>ig_identity_to_slot := [''a'' \<mapsto> 0]\<rparr>"

lemma bound_facts:
  "core_ok (ig_core bound_ingress)" "ig_running bound_ingress" "ig_identity_to_slot bound_ingress ''a'' = Some 0"
  "contents kProviderQueueCapacity (co_queues (ig_core bound_ingress) ! 0) = []"
  "bu_venue (ig_decode_update bound_ingress) = BINANCE"
proof -
  have "co_queues (ig_core bound_ingress) ! 0 = new_queue kProviderQueueCapacity VenueRegistration"
    by (simp add: bound_ingress_def started_ingress_def Ingress_Start_def new_ingress_def Init_def AddInstrument_def new_Core_def
        kMaxVenues_def Let_def)
  then show "contents kProviderQueueCapacity (co_queues (ig_core bound_ingress) ! 0) = []"
    by (simp add: new_queue_def contents_def qlen_def)
qed (use started_core_ok in \<open>simp_all add: bound_ingress_def started_ingress_def Ingress_Start_def new_ingress_def empty_update_def\<close>)

lemma room: "0 < kProviderQueueCapacity" "Suc 0 \<le> kProviderQueueCapacity"
  by (simp_all add: kProviderQueueCapacity_def)

theorem updates_cross_the_wire_witness:
  "\<exists>s'. Ingress_Run (map (\<lambda>f. (''a'', [f])) (sk_sent (fold (\<lambda>u. OnUpdate 9 u True) [bybit_snapshot] (new_sink sample_key ''BYBIT'')))) bound_ingress = Some s' \<and>
    contents kProviderQueueCapacity (co_queues (ig_core s') ! 0) = [MsgUpdate (bybit_snapshot\<lparr>bu_venue := BINANCE\<rparr>)]"
  using updates_cross_the_wire[OF bound_facts(1) _ bound_facts(3,2), of "[bybit_snapshot]" "new_sink sample_key ''BYBIT''" 9]
  by (auto simp: bound_facts(4)[unfolded kProviderQueueCapacity_def] bound_facts(5) room kMaxVenues_def kProviderQueueCapacity_def new_sink_def bybit_snapshot_def sample_update_def
      simp del: length_contents)

text \<open>Note. A venue that reconnects before its old connection is noticed to be closed keeps its
  slot; when the old connection's close arrives, the ingress removes the venue from the core although the new
  connection is live and still bound to the slot, so its later updates go nowhere.\<close>

theorem stale_disconnect_removes_live_venue:
  assumes "core_ok (ig_core s)" "slot < kMaxVenues" "ig_identity_to_slot s old = Some slot" "ig_identity_to_slot s new = Some slot" "old \<noteq> new"
    and "length (contents kProviderQueueCapacity (co_queues (ig_core s) ! slot)) < kProviderQueueCapacity"
  shows "ig_identity_to_slot (HandleNotify old s) new = Some slot \<and>
    contents kProviderQueueCapacity (co_queues (ig_core (HandleNotify old s)) ! slot) =
      contents kProviderQueueCapacity (co_queues (ig_core s) ! slot) @ [VenueDisconnect]"
  using assms by (rule stale_disconnect)

theorem stale_disconnect_removes_live_venue_witness:
  "contents kProviderQueueCapacity
     (co_queues (ig_core (HandleNotify ''a'' (bound_ingress\<lparr>ig_identity_to_slot := [''a'' \<mapsto> 0, ''b'' \<mapsto> 0]\<rparr>))) ! 0) = [VenueDisconnect]"
  using stale_disconnect_removes_live_venue[of "bound_ingress\<lparr>ig_identity_to_slot := [''a'' \<mapsto> 0, ''b'' \<mapsto> 0]\<rparr>" 0 "''a''" "''b''"] bound_facts(1,4)
  by (simp add: room kMaxVenues_def)

section \<open>The clients' service\<close>

definition band_request :: SubscribeRequest where
  "band_request = \<lparr>rq_symbol = ''BTCUSDT'', rq_bbo = False, rq_volume_bands = Some [3, 1], rq_price_bands = None, rq_market = SPOT\<rparr>"

definition band_session :: Subscription where
  "band_session = \<lparr>sb_channel = new_channel, sb_instrument = sample_key, sb_wants_bbo = False, sb_wants_volume_bands = True,
     sb_wants_price_bands = False, sb_notional_bands = [1, 3], sb_bps_bands = [], sb_next_seq = 0\<rparr>"

definition one_session :: Service where
  "one_session = new_service\<lparr>sv_next_session_id := 2, sv_sessions := [(1, band_session)]\<rparr>"

lemma one_session_subscribed: "Subscribe band_request new_service = Inr (1, one_session)"
  by (simp add: Subscribe_def band_request_def one_session_def band_session_def new_service_def RegisterSession_def Let_def
      ToInstrumentId_def FromWire_def sample_key_def word_le_nat_alt)

lemma new_service_room: "room new_service"
  by (simp add: room_def new_service_def)

lemma one_session_reachable: "service_reachable one_session"
  unfolding service_reachable_def
  using service_subscribe[OF new_service_room one_session_subscribed] by (rule r_into_rtranclp)

text \<open>Note. A session's channel may skip updates and never invents, repeats or reorders them: what its reader
  takes is a subsequence of what was pushed, in every interleaving of pushes and takes; and once pushes stop, the
  next take yields the last update pushed.\<close>

theorem conflation_keeps_latest:
  "subseq (fst (channel_slot.slot_run ops new_channel)) (concat (map (\<lambda>p. case p of SlotPush v \<Rightarrow> [v] | SlotTake \<Rightarrow> []) ops)) \<and>
   (\<exists>out. fst (channel_slot.slot_run (ops @ SlotPush v # replicate (Suc n) SlotTake) new_channel) = out @ [v])"
  using channel_slot.taken_subseq[of ops new_channel] channel_slot.last_pushed[OF refl, of "Suc n" ops v new_channel]
  by (simp add: new_channel_def)

text \<open>Note. An accepted request registers one session under an identifier no session has, leaving the
  others alone: its instrument is the one named, it wants the feeds present in the request, its thresholds are the
  requested ones, or the defaults when none are listed, in ascending order, and its numbers start at zero.\<close>

theorem subscribe_registers:
  assumes "service_reachable s" "room s" "Subscribe request s = Inr (i, s')"
  shows "map_of (sv_sessions s) i = None \<and> (\<forall>j. j \<noteq> i \<longrightarrow> map_of (sv_sessions s') j = map_of (sv_sessions s) j) \<and>
    (\<exists>sub. map_of (sv_sessions s') i = Some sub \<and>
       Some (Symbol (sb_instrument sub)) = ToInstrumentId (rq_symbol request) \<and>
       Some (Market (sb_instrument sub)) = FromWire (rq_market request) \<and>
       sb_wants_bbo sub = rq_bbo request \<and>
       sb_wants_volume_bands sub = (rq_volume_bands request \<noteq> None) \<and> sb_wants_price_bands sub = (rq_price_bands request \<noteq> None) \<and>
       sorted (sb_notional_bands sub) \<and> sorted (sb_bps_bands sub) \<and>
       mset (sb_notional_bands sub) = (case rq_volume_bands request of None \<Rightarrow> {#} | Some [] \<Rightarrow> mset kDefaultNotionalBands | Some bands \<Rightarrow> mset bands) \<and>
       mset (sb_bps_bands sub) = (case rq_price_bands request of None \<Rightarrow> {#} | Some [] \<Rightarrow> mset kDefaultBpsBands | Some bands \<Rightarrow> mset bands) \<and>
       sb_next_seq sub = 0 \<and> ch_pending (sb_channel sub) = None)"
  using service_reachable_ok[OF assms(1)] assms(3) by (rule subscribe_session)

theorem subscribe_registers_witness: "map_of (sv_sessions new_service) 1 = None \<and> (\<exists>sub. map_of (sv_sessions one_session) 1 = Some sub \<and> sb_next_seq sub = 0)"
proof -
  have "service_reachable new_service" by (simp add: service_reachable_def)
  note R = subscribe_registers[OF this new_service_room one_session_subscribed]
  obtain sub where "map_of (sv_sessions one_session) 1 = Some sub" "sb_next_seq sub = 0"
    using conjunct2[OF conjunct2[OF R]] by (elim exE conjE)
  then show ?thesis using conjunct1[OF R] by blast
qed

text \<open>C35. In every execution, with subscriptions, publications, handlers and disconnects interleaved in any
  way, the updates written to a client are numbered in ascending order, and every update a registered session was sent
  or has pending carries its symbol and market and belongs to a feed it asked for: spot and futures never mix.\<close>

theorem client_stream_ordered:
  assumes "service_reachable s"
  shows "sorted_wrt (<) (map up_seq (stream i s)) \<and>
    (\<forall>(j, sub) \<in> set (sv_sessions s). \<forall>u \<in> set (stream j s) \<union> set_option (ch_pending (sb_channel sub)). up_seq u < sb_next_seq sub \<and> wanted sub u)"
proof (intro conjI ballI)
  note ok = service_reachable_ok[OF assms]
  show "sorted_wrt (<) (map up_seq (stream i s))" using ok by (rule service_okD(3))
  fix x assume x: "x \<in> set (sv_sessions s)"
  obtain j sub where j: "x = (j, sub)" by force
  have "session_ok sub (stream j s)" using service_okD(2)[OF ok x[unfolded j]] by blast
  then show "case x of (j, sub) \<Rightarrow> \<forall>u \<in> set (stream j s) \<union> set_option (ch_pending (sb_channel sub)). up_seq u < sb_next_seq sub \<and> wanted sub u"
    by (simp add: j session_ok_def)
qed

definition told_session :: Service where
  "told_session = snd (handler_round False True 1 (PublishBook (\<lambda>_. 5) sample_key empty_Book one_session))"

lemma told_session_reachable: "service_reachable told_session"
proof -
  have "room one_session" by (simp add: room_def one_session_def new_service_def band_session_def)
  then have "service_step one_session (PublishBook (\<lambda>_. 5) sample_key empty_Book one_session)" by (rule service_book)
  then show ?thesis using one_session_reachable unfolding service_reachable_def told_session_def
    by (meson rtranclp.rtrancl_into_rtrancl service_round)
qed

lemma told_session_eval: "map up_seq (stream 1 told_session) = [0] \<and> map fst (sv_sessions told_session) = [1]"
  by (simp add: told_session_def handler_round_def PublishBook_def one_session_def band_session_def new_service_def empty_Book_def
      capped_def send_memo_def memo_message_def Let_def Push_def WaitAndTake_def new_channel_def stream_def IsClosed_def)

theorem client_stream_ordered_witness: "stream 1 told_session \<noteq> [] \<and> sorted_wrt (<) (map up_seq (stream 1 told_session))"
  using client_stream_ordered[OF told_session_reachable, of 1] told_session_eval by auto

text \<open>C36. After a book is published, the next round of a subscribed session's handler writes that session's
  bands of that book to its client, whatever was pending before: the bands computed for its own thresholds, one by one,
  from the best thousand levels, although the messages are built once and shared between sessions. A session that asked
  for both kinds of bands is left its price bands only.\<close>

theorem published_book_delivered:
  assumes "service_reachable s" "map_of (sv_sessions s) i = Some sub" "sb_instrument sub = k"
    and "sb_wants_volume_bands sub \<or> sb_wants_price_bands sub"
    and "\<forall>b \<in> set (sb_bps_bands sub). bk_asks book \<noteq> [] \<longrightarrow> bps_fits (ml_price (hd (bk_asks book))) False b"
  shows "\<exists>t u. book_update t k book sub = Some u \<and> stream i (snd (handler_round False True i (PublishBook clk k book s))) = stream i s @ [u]"
  using service_reachable_ok[OF assms(1)] assms(2-5) by (rule book_delivered)

theorem published_book_delivered_witness: "\<exists>u. stream 1 told_session = stream 1 one_session @ [u] \<and> up_seq u = 0"
proof -
  have 1: "map_of (sv_sessions one_session) 1 = Some band_session" by (simp add: one_session_def)
  have "\<exists>t u. book_update t sample_key empty_Book band_session = Some u \<and>
    stream 1 (snd (handler_round False True 1 (PublishBook (\<lambda>_. 5) sample_key empty_Book one_session))) = stream 1 one_session @ [u]"
    by (rule published_book_delivered[OF one_session_reachable 1]) (simp_all add: band_session_def)
  then show ?thesis using told_session_eval by (auto simp: told_session_def)
qed

section \<open>From a venue's update to a client\<close>

definition sample_app :: App where
  "sample_app = (new_App sample_config)\<lparr>ap_core := core2, ap_service := one_session\<rparr>"

lemma sample_app_reachable: "app_reachable sample_app"
proof -
  let ?a0 = "new_App sample_config"
  have 0: "ap_core ?a0 = core0" "ap_delivered ?a0 = 0" "ap_service ?a0 = new_service"
    by (simp_all add: new_App_def core0_def)
  have e: "co_events core0 = []" using Init_events[of "new_Core True True" sample_config] by (simp add: core0_def new_Core_def)
  have s1: "core_step core0 core1" unfolding core1_def by (rule step_register)
  have s2: "core_step core1 core2" unfolding core2_def by (rule step_health) simp
  have a1: "app_step ?a0 (?a0\<lparr>ap_core := core1\<rparr>)" using s1 e by (intro app_core) (simp_all add: 0)
  have "app_step (?a0\<lparr>ap_core := core1\<rparr>) ((?a0\<lparr>ap_core := core1\<rparr>)\<lparr>ap_core := core2\<rparr>)"
    using s2 by (intro app_core) (simp_all add: 0 core1_fields)
  then have a2: "app_step (?a0\<lparr>ap_core := core1\<rparr>) (?a0\<lparr>ap_core := core2\<rparr>)" by simp
  have "client_step new_service one_session" by (rule client_subscribe[OF new_service_room one_session_subscribed])
  then have a3: "app_step (?a0\<lparr>ap_core := core2\<rparr>) sample_app"
    using app_client[of "?a0\<lparr>ap_core := core2\<rparr>" one_session] by (simp add: sample_app_def 0)
  have "distinct (cfg_default_instruments sample_config)" by (simp add: sample_config_def)
  then show ?thesis unfolding app_reachable_def using a1 a2 a3 by (meson converse_rtranclp_into_rtranclp rtranclp.rtrancl_refl)
qed

lemma sample_app_fields:
  "ap_core sample_app = core2" "ap_service sample_app = one_session" "ap_delivered sample_app = 0" "co_events core2 = []"
  by (simp_all add: sample_app_def new_App_def core2_def core_run core1_fields)

text \<open>C2. From a venue to a client's stream: in every state the server can reach, an accepted depth update makes the core
  publish the merge of the venue books after it, and once the callback has run, the next round of every handler whose
  session subscribed to bands of that instrument writes those bands of that merge to its client.\<close>

theorem update_reaches_client:
  assumes "app_reachable a" "room (ap_service a)" "wf_update u" "SlotFor (ap_core a) (bu_venue u) = Some slot"
    and "co_venue_books (ap_core a) (bu_instrument u) = Some books"
    and "map_of (sv_sessions (ap_service a)) i = Some sub" "sb_instrument sub = bu_instrument u"
    and "sb_wants_volume_bands sub \<or> sb_wants_price_bands sub"
    and "merged = merged_book (ap_core a) (books_after books slot u) u"
    and "\<forall>b \<in> set (sb_bps_bands sub). bk_asks merged \<noteq> [] \<longrightarrow> bps_fits (ml_price (hd (bk_asks merged))) False b"
  shows "co_events (Core_ApplyUpdate (ap_core a) u) = co_events (ap_core a) @ [BookPublished (bu_instrument u) merged] \<and>
    (\<exists>t update. book_update t (bu_instrument u) merged sub = Some update \<and>
      stream i (snd (handler_round False True i (ap_service
        (on_event clk (BookPublished (bu_instrument u) merged) (a\<lparr>ap_core := Core_ApplyUpdate (ap_core a) u\<rparr>))))) =
      stream i (ap_service a) @ [update])"
proof -
  have ok: "app_ok a" by (rule app_reachable_ok[OF assms(1)])
  then have c: "core_ok (ap_core a)" "co_has_book_callback (ap_core a)" by (simp_all add: app_ok_def)
  let ?a = "a\<lparr>ap_core := Core_ApplyUpdate (ap_core a) u\<rparr>"
  have "app_ok ?a" using update_step_ok[OF ok assms(3)] .
  then have "\<exists>t update. book_update t (bu_instrument u) merged sub = Some update \<and>
      stream i (snd (handler_round False True i (ap_service (on_event clk (BookPublished (bu_instrument u) merged) ?a)))) =
      stream i (ap_service ?a) @ [update]"
    by (rule callback_book) (use assms in simp_all)
  then show ?thesis using update_publishes_merge[OF c assms(3-5)] assms(9) by auto
qed

theorem update_reaches_client_witness:
  "\<exists>update clk. stream 1 (snd (handler_round False True 1 (ap_service
      (on_event clk (BookPublished sample_key (merged_book core2 (books_after [Some (new_book BINANCE sample_key), None, None, None, None, None, None, None] 0 binance_snapshot) binance_snapshot))
        (sample_app\<lparr>ap_core := Core_ApplyUpdate core2 binance_snapshot\<rparr>))))) = [update]"
proof -
  have r: "room (ap_service sample_app)" by (simp add: sample_app_fields room_def one_session_def new_service_def band_session_def)
  have s: "SlotFor core2 (bu_venue binance_snapshot) = Some 0"
    by (simp add: core2_fields SlotFor_def core1_fields binance_snapshot_def sample_update_def)
  have k: "bu_instrument binance_snapshot = sample_key" by (simp add: binance_snapshot_def sample_update_def)
  have b: "co_venue_books core2 (bu_instrument binance_snapshot) = Some [Some (new_book BINANCE sample_key), None, None, None, None, None, None, None]"
    by (simp add: k core2_fields core1_fields)
  have m: "map_of (sv_sessions (ap_service sample_app)) 1 = Some band_session" by (simp add: sample_app_fields one_session_def)
  have st: "stream 1 one_session = []" by (simp add: stream_def one_session_def new_service_def)
  show ?thesis
    using update_reaches_client[OF sample_app_reachable r sample_wf(1) s[folded sample_app_fields(1)] b[folded sample_app_fields(1)] m, where clk = "\<lambda>_. 0"]
    unfolding sample_app_fields k st by (auto simp: band_session_def)
qed

text \<open>Note. A best bid and offer is attributed to the venues that quote it: whenever the callback runs, in every reachable
  state, what a subscribed session is left carries, for each contributing slot, the venue whose name the core's registry
  holds for that slot at that moment, however venues came since the table was last built.\<close>

theorem attribution_is_current:
  assumes "app_reachable a" "map_of (sv_sessions (ap_service a)) i = Some sub" "sb_instrument sub = k" "sb_wants_bbo sub"
  shows "\<exists>sub'. map_of (sv_sessions (ap_service (on_event clk (BboPublished k bbo) a))) i = Some sub' \<and>
    ch_pending (sb_channel sub') = Some ((stamped_update (clk 0) k
      (PayloadBbo (ToWire_bbo bbo (MakeVenueWireTable (VenueName (ap_core a))))))\<lparr>up_seq := sb_next_seq sub\<rparr>)"
  using app_reachable_ok[OF assms(1)] assms(2-4) by (rule callback_bbo)

definition bbo_request :: SubscribeRequest where
  "bbo_request = \<lparr>rq_symbol = ''BTCUSDT'', rq_bbo = True, rq_volume_bands = None, rq_price_bands = None, rq_market = SPOT\<rparr>"

definition bbo_app :: App where
  "bbo_app = sample_app\<lparr>ap_service := snd (projr (Subscribe bbo_request one_session))\<rparr>"

theorem attribution_is_current_witness:
  "\<exists>sub'. map_of (sv_sessions (ap_service (on_event (\<lambda>_. 9) (BboPublished sample_key empty_BBO) bbo_app))) 2 = Some sub' \<and>
    up_server_ts_ns (the (ch_pending (sb_channel sub'))) = 9"
proof -
  obtain sub s where sub: "Subscribe bbo_request one_session = Inr (2, s)" "map_of (sv_sessions s) 2 = Some sub"
    "sb_instrument sub = sample_key" "sb_wants_bbo sub"
    by (simp add: Subscribe_def bbo_request_def ToInstrumentId_def FromWire_def RegisterSession_def Let_def one_session_def sample_key_def)
  have "room one_session" by (simp add: room_def one_session_def new_service_def band_session_def)
  then have "client_step one_session s" using sub(1) by (rule client_subscribe)
  then have "app_step sample_app (sample_app\<lparr>ap_service := s\<rparr>)" by (intro app_client) (simp add: sample_app_fields)
  then have "app_reachable bbo_app" using sample_app_reachable sub(1) unfolding app_reachable_def bbo_app_def
    by (auto intro: rtranclp.rtrancl_into_rtrancl)
  from attribution_is_current[OF this, of 2 sub sample_key "\<lambda>_. 9" empty_BBO] show ?thesis
    using sub by (auto simp: bbo_app_def stamped_update_def FillHeader_def)
qed

section \<open>Clients, decimals and configuration\<close>

text \<open>Note. Reading a decimal number gives its exact value scaled by the power of ten asked for, cut off after that
  many decimals and never rounded, modulo two to the 64; without a point the same holds for whole numbers.\<close>

theorem decimal_exact:
  assumes "list_all is_digit whole" "list_all is_digit fraction" "scale \<le> 8"
  shows "ParseScaledDecimal scale (whole @ ''.'' @ fraction) = of_nat (digits_value (whole @ fraction) * 10 ^ scale div 10 ^ length fraction) \<and>
    ParseScaledDecimal scale whole = of_nat (digits_value whole * 10 ^ scale)"
  using parse_decimal[OF assms] parse_integer[OF assms(1,3)] by simp

theorem decimal_exact_witness: "ParseScaledDecimal 2 ''12.345'' = 1234 \<and> ParseScaledDecimal 2 ''12'' = 1200"
  using decimal_exact[of "''12''" "''345''" 2] by (simp add: is_digit_def digits_value_def digit_def)

text \<open>Note. Reading back an amount a client prints with one to eight decimals gives the amount with the digits not
  printed cut off: printing never rounds, and eight decimals lose nothing. The formatting library is assumed to
  print decimal digits and to pad with zeros.\<close>

theorem printed_amount_reads_back:
  assumes "prints_decimal fmt" "0 < decimals" "decimals \<le> 8"
  shows "ParseScaledDecimal 8 (FormatScaled fmt value kScaleExponent decimals) = value - value mod Pow10 (unat (8 - decimals))"
  using parse_format[OF assms] by (simp add: kScaleExponent_def)

theorem printed_amount_reads_back_witness:
  "prints_decimal padded \<and> ParseScaledDecimal 8 (FormatScaled padded 7831012345678 kScaleExponent 2) = 7831012000000"
proof -
  have "unat (8 - 2 :: u32) = 6" by simp
  then have "Pow10 (unat (8 - 2 :: u32)) = 1000000" by (simp add: numeral_eq_Suc Pow10_def)
  then show ?thesis using padded_prints printed_amount_reads_back[OF padded_prints, of 2 7831012345678]
    by (simp add: word_le_nat_alt word_less_nat_alt)
qed

text \<open>Note. Whatever flags a client was started with, if it accepts them, the service accepts its request exactly
  when its own early checks pass, a market and a feed were given, and the symbol is one the service knows.\<close>

theorem client_request_accepted:
  assumes "ClientParseFromArgs args = Inr config"
  shows "(\<exists>r. Subscribe (ToRequest config) s = Inr r) \<longleftrightarrow> HasMarket config \<and> HasAnyFeed config \<and> ToInstrumentId (cc_symbol config) \<noteq> None"
  using request_accepted[OF ClientParseFromArgs_ok[OF assms], of s] by blast

definition sample_flags :: "string list" where
  "sample_flags = [''--market=spot'', ''--notional_band=1,100K'']"

definition client_config :: ClientConfig where
  "client_config = default_config\<lparr>cc_market := Some SPOT, cc_want_volume_bands := True, cc_notional_bands := [100000000, 10000000000000]\<rparr>"

lemma sample_flags_parse: "ClientParseFromArgs sample_flags = Inr client_config"
  by code_simp

theorem client_request_accepted_witness: "\<exists>r. Subscribe (ToRequest client_config) new_service = Inr r"
  unfolding client_request_accepted[OF sample_flags_parse]
  by (simp add: HasMarket_def HasAnyFeed_def client_config_def default_config_def ToInstrumentId_def)

text \<open>C37. Reading the stream of a session, a client never reports numbers going backwards and never divides by zero,
  and its count of conflated updates is exact: with those it has read, it makes up every number from the first to the
  last.\<close>

theorem client_counts_conflation:
  assumes "service_reachable s" "stream i s \<noteq> []"
  shows "reset_free (read_stream (stream i s)) \<and> gap_line (read_stream (stream i s)) \<noteq> DivisionByZero \<and>
    unat (rd_conflated_total (read_stream (stream i s))) + length (stream i s) =
      unat (up_seq (last (stream i s))) - unat (up_seq (hd (stream i s))) + 1"
proof -
  have "sorted_wrt (<) (map up_seq (stream i s))" using service_reachable_ok[OF assms(1)] by (rule service_okD(3))
  then show ?thesis using read_increasing[of "stream i s"] gap_line_increasing assms(2) by blast
qed

theorem client_counts_conflation_witness: "gap_line (read_stream (stream 1 told_session)) \<noteq> DivisionByZero"
proof -
  have "stream 1 told_session \<noteq> []" using told_session_eval by auto
  then show ?thesis using client_counts_conflation[OF told_session_reachable] by blast
qed

text \<open>Note. Substituting the symbol into an endpoint's path always ends, also when the symbol itself contains the
  placeholder, and replaces every placeholder of the template, from the left.\<close>

theorem resolve_path_total: "ResolvePath path_template symbol = Some (replace_placeholders symbol path_template)"
  by (rule ResolvePath_total)

text \<open>Note. Whatever symbol a one-instrument configuration names, the identifier the registry gives it is the one the
  rest of the program takes for BTCUSDT: providers and clients are served that instrument.\<close>

theorem configured_symbol_ignored:
  assumes "ValidateSymbol (NormalizeSymbol symbol) = kOk"
  shows "\<exists>i r. RegisterInstrument \<lparr>ir_names = []\<rparr> symbol = (Some i, r) \<and> InstrumentName r i = NormalizeSymbol symbol \<and>
    ToInstrumentString (Symbol (MakeKey i market)) = ''BTCUSDT''"
  using assms by (simp add: RegisterInstrument_def FindNormalized_def kMaxInstruments_def InstrumentName_def Symbol_MakeKey
      ToInstrumentString_def BTCUSDT_def)

theorem configured_symbol_ignored_witness:
  "\<exists>i r. RegisterInstrument \<lparr>ir_names = []\<rparr> ''eth-usdt'' = (Some i, r) \<and> InstrumentName r i = ''ETHUSDT'' \<and>
    ToInstrumentString (Symbol (MakeKey i kSpot)) = ''BTCUSDT''"
proof -
  have n: "NormalizeSymbol ''eth-usdt'' = ''ETHUSDT''" by code_simp
  have "ValidateSymbol (NormalizeSymbol ''eth-usdt'') = kOk" unfolding n by code_simp
  from configured_symbol_ignored[OF this, of kSpot] show ?thesis unfolding n .
qed

text \<open>Note. What a client prints of the bands of an update: a heading and then one line for every band, the
  bids' before the asks', in the update's order; and a line says that the book did not suffice exactly when the band does.\<close>

theorem shortage_is_marked:
  assumes "prints_decimal fmt" "pads_with_blanks al"
  shows "(up_payload update = PayloadVolumeBands vbs \<longrightarrow>
      list_all2 (\<lambda>line band. sublist ''INSUFFICIENT DEPTH'' line \<longleftrightarrow> vr_insufficient_depth band)
        (tl (PrintUpdate fmt al venue_name update)) (vb_bid_bands vbs @ vb_ask_bands vbs)) \<and>
    (up_payload update = PayloadPriceBands pbs \<longrightarrow>
      list_all2 (\<lambda>line band. sublist ''BOOK EXHAUSTED'' line \<longleftrightarrow> pr_insufficient_depth band)
        (tl (PrintUpdate fmt al venue_name update)) (pb_bid_bands pbs @ pb_ask_bands pbs))"
  by (simp add: PrintUpdate_def PrintVolumeBands_def PrintPriceBands_def PrintVolumeSide_def PrintPriceSide_def
      list_all2_append list.rel_map volume_line_marks[OF assms] price_line_marks[OF assms] list_all2_same)

definition short_bands :: VolumeBands where
  "short_bands =
     \<lparr>vb_bid_bands = [\<lparr>vr_notional_threshold = 100000000000, vr_vwap = 10000000000, vr_worst_price = 9900000000, vr_filled_notional = 50000000000,
                       vr_filled_qty = 500000000, vr_insufficient_depth = True, vr_level_count = 2\<rparr>],
      vb_ask_bands = [\<lparr>vr_notional_threshold = 100000000, vr_vwap = 10100000000, vr_worst_price = 10100000000, vr_filled_notional = 100000000,
                       vr_filled_qty = 990099, vr_insufficient_depth = False, vr_level_count = 1\<rparr>],
      vb_best_bid = 10000000000, vb_best_ask = 10100000000\<rparr>"

definition short_update :: Update where
  "short_update = \<lparr>up_seq = 1, up_server_ts_ns = 0, up_symbol = ''BTCUSDT'', up_price_scale = 8, up_qty_scale = 8, up_market = SPOT,
     up_payload = PayloadVolumeBands short_bands\<rparr>"

definition padded_right :: "nat \<Rightarrow> string \<Rightarrow> string" where
  "padded_right w s = replicate (w - length s) (CHR '' '') @ s"

theorem shortage_is_marked_witness:
  "pads_with_blanks padded_right \<and>
   map (sublist ''INSUFFICIENT DEPTH'') (tl (PrintUpdate padded padded_right (\<lambda>_. ''BINANCE'') short_update)) = [True, False]"
proof -
  have p: "pads_with_blanks padded_right" by (auto simp: pads_with_blanks_def padded_right_def)
  have "list_all2 (\<lambda>line band. sublist ''INSUFFICIENT DEPTH'' line \<longleftrightarrow> vr_insufficient_depth band)
      (tl (PrintUpdate padded padded_right (\<lambda>_. ''BINANCE'') short_update)) (vb_bid_bands short_bands @ vb_ask_bands short_bands)"
    by (rule shortage_is_marked[OF padded_prints p, THEN conjunct1, THEN mp]) (simp add: short_update_def)
  then have "map (sublist ''INSUFFICIENT DEPTH'') (tl (PrintUpdate padded padded_right (\<lambda>_. ''BINANCE'') short_update)) =
      map vr_insufficient_depth (vb_bid_bands short_bands @ vb_ask_bands short_bands)"
    by (induction rule: list_all2_induct) simp_all
  then show ?thesis using p by (simp add: short_bands_def)
qed

text \<open>Note. The slippage a client prints is the distance of the average price from the best one, on the
  side where it costs, in tenths of a basis point of the best price and rounded down, as long as that distance times a hundred
  thousand fits in 64 bits; nothing wraps around.\<close>

theorem printed_slippage_exact:
  assumes "reference \<noteq> 0" "vwap \<noteq> 0" "if is_bid then vwap \<le> reference else reference \<le> vwap"
    "(if is_bid then unat reference - unat vwap else unat vwap - unat reference) * 100000 < 2 ^ 64"
  shows "FormatSlippageBps fmt vwap reference is_bid =
    (let t = (if is_bid then unat reference - unat vwap else unat vwap - unat reference) * 100000 div unat reference
     in fmt 0 (t div 10) @ ''.'' @ fmt 0 (t mod 10) @ ''bps'')"
  by (rule slippage_exact[OF assms])

theorem printed_slippage_exact_witness: "FormatSlippageBps padded 9900000000 10000000000 True = ''100.0bps''"
proof -
  have "FormatSlippageBps padded 9900000000 10000000000 True = padded 0 100 @ ''.'' @ padded 0 0 @ ''bps''"
    by (subst printed_slippage_exact) simp_all
  moreover have "padded 0 100 = ''100''" "padded 0 0 = ''0''" by code_simp+
  ultimately show ?thesis by simp
qed

text \<open>Note. Whatever flags client_app is started with, and in the three programs without flags, a
  request that is sent at all is accepted by the service exactly when the service knows the symbol: everything else it checks -
  the market, that some feed is asked for - the programs have checked before.\<close>

theorem client_programs_accepted:
  assumes "client_app_main args = ClientSubscribes r \<or> ClientSubscribes r \<in> {bbo_sub_main, volume_band_sub_main, price_band_sub_main}"
  shows "(\<exists>x. Subscribe r s = Inr x) \<longleftrightarrow> ToInstrumentId (rq_symbol r) \<noteq> None"
  by (rule subscribing_accepted[OF assms])

theorem client_programs_accepted_witness:
  "client_app_main sample_flags = ClientSubscribes (ToRequest client_config) \<and> (\<exists>x. Subscribe (ToRequest client_config) new_service = Inr x)"
proof -
  have m: "client_app_main sample_flags = ClientSubscribes (ToRequest client_config)"
    unfolding client_app_main_def sample_flags_parse by (simp add: HasMarket_def HasAnyFeed_def client_config_def default_config_def)
  then show ?thesis using client_programs_accepted[of sample_flags "ToRequest client_config" new_service]
    by (simp add: ToRequest_def client_config_def default_config_def ToInstrumentId_def)
qed

section \<open>Configuration documents\<close>

definition tree_dom :: "(string \<Rightarrow> json option) \<Rightarrow> json Dom" where
  "tree_dom docs =
     \<lparr>dm_parse = docs,
      dm_object = (\<lambda>v. case v of JObject kvs \<Rightarrow> Some kvs | _ \<Rightarrow> None),
      dm_array = (\<lambda>v. case v of JArray vs \<Rightarrow> Some vs | _ \<Rightarrow> None),
      dm_string = as_string,
      dm_int64 = (\<lambda>v. case v of JInt i \<Rightarrow> Some (word_of_int i) | _ \<Rightarrow> None)\<rparr>"

definition session_doc :: json where
  "session_doc = JObject [(''venues'', JArray [JString ''okx'', JString ''BINANCE'']), (''depth'', JInt 300),
     (''instruments'', JArray [JObject [(''symbol'', JString ''btc-usdt''), (''market'', JArray [JString ''futures''])]])]"

definition endpoints_doc :: json where
  "endpoints_doc = JObject [(''okx'', JObject [(''futures'', JObject [(''ws_host'', JString ''ws.okx.com''), (''ws_port'', JString ''8443''),
     (''depth_path'', JString ''/ws''), (''bbo_path'', JString ''/ws''), (''rest_host'', JString ''www.okx.com''),
     (''rest_port'', JString ''443''), (''rest_instruments_path'', JString ''/api'')])])]"

definition config_dom :: "json Dom" where
  "config_dom = tree_dom (\<lambda>text. if text = ''session'' then Some session_doc else if text = ''endpoints'' then Some endpoints_doc else None)"

definition config_files :: "string \<Rightarrow> string option" where
  "config_files path = (if path = ''user_config/server_config_futures.json'' then Some ''session''
     else if path = ''user_config/venues_config.json'' then Some ''endpoints'' else None)"

definition session_config :: ServerConfig where
  "session_config = \<lparr>sc_venues = [OKX, BINANCE],
     sc_instruments = [\<lparr>ie_id = 0, ie_symbol = ''BTCUSDT'', ie_markets = [kFutures]\<rparr>], sc_grpc_port = 50051, sc_depth = 300, sc_connections = 1\<rparr>"

lemma session_read:
  "ServerConfig_ParseJson config_dom ''session'' \<lparr>ir_names = []\<rparr> = (Inr session_config, \<lparr>ir_names = [''BTCUSDT'']\<rparr>)"
  by code_simp

definition okx_endpoints :: VenueEndpoints where
  "okx_endpoints = \<lparr>ep_ws_host = ''ws.okx.com'', ep_ws_port = ''8443'', ep_depth_path = ''/ws'', ep_bbo_path = ''/ws'',
     ep_rest_host = ''www.okx.com'', ep_rest_port = ''443'', ep_rest_depth_path = [], ep_rest_instruments_path = ''/api''\<rparr>"

lemma endpoints_read: "VenuesConfig_ParseJson config_dom ''endpoints'' = Inr [None, None, None, None, None, Some okx_endpoints]"
  by code_simp

definition core_started :: "CoreStart option" where
  "core_started = (case core_start config_dom config_files [''--market=futures''] of Inl e \<Rightarrow> None | Inr s \<Rightarrow> Some s)"

definition provider_started :: "ProviderStart option" where
  "provider_started = (case provider_start config_dom config_dom config_files [''okx'', ''futures''] of Inl e \<Rightarrow> None | Inr s \<Rightarrow> Some s)"

lemma starts_read:
  "core_started \<noteq> None" "map_option (\<lambda>s. pc_depth (pr_config s)) provider_started = Some 400"
  by code_simp+

text \<open>C39. Whatever a session document says, the symbol table keeps its invariant, and a document
  that is accepted names every venue at most once and none that is unknown; each of its instruments is registered under
  the symbol it is listed with and has at least one market, spot or futures; and no instrument key comes twice, whatever
  the spelling of the symbols.\<close>

theorem accepted_config_well_formed:
  assumes "instruments_ok r" "ServerConfig_ParseJson J json r = (res, r')"
  shows "instruments_ok r' \<and> (\<forall>c. res = Inr c \<longrightarrow>
    distinct (sc_venues c) \<and> COUNT \<notin> set (sc_venues c) \<and>
    (\<forall>e \<in> set (sc_instruments c). ie_symbol e = InstrumentName r' (ie_id e) \<and> unat (ie_id e) < length (ir_names r') \<and>
       ie_markets e \<noteq> [] \<and> set (ie_markets e) \<subseteq> {kSpot, kFutures}) \<and>
    distinct (concat (map (\<lambda>e. map (MakeKey (ie_id e)) (ie_markets e)) (sc_instruments c))))"
proof (intro conjI allI impI)
  show "instruments_ok r'" by (rule ServerConfig_ParseJson_registry[OF assms(2,1)])
  fix c assume "res = Inr c"
  then have c: "session_config_ok r' c" using ServerConfig_ParseJson_ok[of J json r c r'] assms by simp
  then show "distinct (sc_venues c)" "COUNT \<notin> set (sc_venues c)" unfolding session_config_ok_def by blast+
  show "\<forall>e \<in> set (sc_instruments c). ie_symbol e = InstrumentName r' (ie_id e) \<and> unat (ie_id e) < length (ir_names r') \<and>
       ie_markets e \<noteq> [] \<and> set (ie_markets e) \<subseteq> {kSpot, kFutures}"
    using c by (auto simp: session_config_ok_def list_all_iff entry_ok_def known_markets_def)
  have "concat (map entry_keys es) = map Packed (concat (map (\<lambda>e. map (MakeKey (ie_id e)) (ie_markets e)) es))" for es
    by (induction es) (simp_all add: entry_keys_def)
  moreover have "distinct (concat (map entry_keys (sc_instruments c)))" using c unfolding session_config_ok_def by blast
  ultimately have "distinct (map Packed (concat (map (\<lambda>e. map (MakeKey (ie_id e)) (ie_markets e)) (sc_instruments c))))" by (simp only:)
  then show "distinct (concat (map (\<lambda>e. map (MakeKey (ie_id e)) (ie_markets e)) (sc_instruments c)))" by (rule distinct_map[THEN iffD1, THEN conjunct1])
qed

theorem accepted_config_well_formed_witness:
  "instruments_ok \<lparr>ir_names = [''BTCUSDT'']\<rparr> \<and> distinct (sc_venues session_config) \<and>
    list_all (\<lambda>e. ie_symbol e = InstrumentName \<lparr>ir_names = [''BTCUSDT'']\<rparr> (ie_id e)) (sc_instruments session_config)"
proof -
  have "instruments_ok \<lparr>ir_names = []\<rparr>" by (simp add: instruments_ok_def)
  from accepted_config_well_formed[OF this session_read] show ?thesis unfolding list_all_iff by blast
qed

text \<open>Note. Every endpoint of an accepted document can be connected to: host, port and both paths are
  named, and a REST block is absent or has a host, a port and at least one path. There is at least one endpoint, and the
  lookup of a venue and market finds one of these or none.\<close>

theorem accepted_endpoints_usable:
  assumes "VenuesConfig_ParseJson J json = Inr vc"
  shows "(\<exists>ep. Some ep \<in> set vc) \<and> (\<forall>venue market ep. market \<in> {kSpot, kFutures} \<longrightarrow> VenuesConfig_Find vc venue market = Some ep \<longrightarrow>
    ep_ws_host ep \<noteq> [] \<and> ep_ws_port ep \<noteq> [] \<and> ep_depth_path ep \<noteq> [] \<and> ep_bbo_path ep \<noteq> [] \<and>
    (ep_rest_host ep = [] \<and> ep_rest_port ep = [] \<and> ep_rest_depth_path ep = [] \<and> ep_rest_instruments_path ep = [] \<or>
     ep_rest_host ep \<noteq> [] \<and> ep_rest_port ep \<noteq> [] \<and> (ep_rest_depth_path ep \<noteq> [] \<or> ep_rest_instruments_path ep \<noteq> [])))"
proof -
  have ok: "venues_config_ok vc" "\<exists>ep. Some ep \<in> set vc" using VenuesConfig_ParseJson_ok[OF assms] by blast+
  have "endpoints_ok ep" if "market \<in> {kSpot, kFutures}" "VenuesConfig_Find vc venue market = Some ep" for venue market ep
    using VenuesConfig_Find_ok[OF ok(1) _ that(2)] that(1) by blast
  then have "ep_ws_host ep \<noteq> [] \<and> ep_ws_port ep \<noteq> [] \<and> ep_depth_path ep \<noteq> [] \<and> ep_bbo_path ep \<noteq> [] \<and>
    (ep_rest_host ep = [] \<and> ep_rest_port ep = [] \<and> ep_rest_depth_path ep = [] \<and> ep_rest_instruments_path ep = [] \<or>
     ep_rest_host ep \<noteq> [] \<and> ep_rest_port ep \<noteq> [] \<and> (ep_rest_depth_path ep \<noteq> [] \<or> ep_rest_instruments_path ep \<noteq> []))"
    if "market \<in> {kSpot, kFutures}" "VenuesConfig_Find vc venue market = Some ep" for venue market ep
    using that by (simp add: endpoints_ok_def rest_complete_alt)
  with ok(2) show ?thesis by (intro conjI[OF ok(2)] allI impI)
qed

theorem accepted_endpoints_usable_witness:
  "VenuesConfig_Find [None, None, None, None, None, Some okx_endpoints] OKX kFutures = Some okx_endpoints \<and>
    ep_ws_host okx_endpoints \<noteq> [] \<and> ep_rest_host okx_endpoints \<noteq> []"
proof -
  have f: "VenuesConfig_Find [None, None, None, None, None, Some okx_endpoints] OKX kFutures = Some okx_endpoints"
    by (simp add: VenuesConfig_Find_def IndexOf_def kMarketTypeCount_def)
  have "ep_ws_host okx_endpoints \<noteq> [] \<and> (ep_rest_host okx_endpoints = [] \<and> ep_rest_instruments_path okx_endpoints = [] \<or> ep_rest_host okx_endpoints \<noteq> [])"
    using accepted_endpoints_usable[OF endpoints_read] f by blast
  then show ?thesis using f by (simp add: okx_endpoints_def)
qed

text \<open>C38. A core process and a provider process started for the same market from the same files agree: the
  provider's instrument is the one the core is built for, so that its hello is accepted, in that market and of a venue
  the core lists. The provider is built on usable endpoints with one to eight connections, for a depth out of the table the code keeps for its venue.
  The table is one for both markets of a venue; the market accepts the depth unless it is Binance's futures market and the depth
  5000, which that market refuses (futures_snapshot_too_deep of Provider_Setup).\<close>

definition market_accepts :: "VenueId \<Rightarrow> MarketType \<Rightarrow> u32 \<Rightarrow> bool" where
  "market_accepts venue market depth \<longleftrightarrow>
     depth \<in> set (venue_tiers venue) \<and> (venue = BINANCE \<and> market = kFutures \<longrightarrow> depth \<le> 1000)"

theorem processes_agree:
  assumes "core_start J files core_args = Inr cs" "provider_start J J' files provider_args = Inr ps"
    and "ParseMarketFlag core_args = ToMarketType (provider_args ! 1)"
  shows "cfg_default_instruments (cs_core_config cs) = [pr_instrument ps] \<and> pc_instrument (pr_config ps) = pr_instrument ps \<and>
    ToMarketType (provider_args ! 1) = Some (Market (pr_instrument ps)) \<and>
    pc_venue_id (pr_config ps) \<in> set (cfg_venues (cs_core_config cs)) \<and> pr_venue_name ps = ToVenueString (pc_venue_id (pr_config ps)) \<and>
    pc_host (pr_config ps) \<noteq> [] \<and> pc_depth_path (pr_config ps) \<noteq> [] \<and>
    (market_accepts (pc_venue_id (pr_config ps)) (Market (pr_instrument ps)) (pc_depth (pr_config ps)) \<or>
      pc_venue_id (pr_config ps) = BINANCE \<and> Market (pr_instrument ps) = kFutures \<and> pc_depth (pr_config ps) = 5000) \<and>
    pc_connections (pr_config ps) \<in> {1..8}"
proof -
  obtain m c entry where core: "ParseMarketFlag core_args = Some m"
    "fst (ServerConfig_LoadFile J files (ConfigFileForMarket m) \<lparr>ir_names = []\<rparr>) = Inr c" "single_entry c = Some (entry, m)"
    "cs_core_config cs = \<lparr>cfg_venues = sc_venues c, cfg_default_instruments = [MakeKey (ie_id entry) m]\<rparr>"
    using core_start_Some[OF assms(1)] by blast
  obtain m' c' vc entry' ep where prov: "ToMarketType (provider_args ! 1) = Some m'" "ToVenueId (ToUpper (provider_args ! 0)) \<noteq> COUNT"
    "fst (ServerConfig_LoadFile J files (ConfigFileForMarket m') \<lparr>ir_names = []\<rparr>) = Inr c'" "Validate c' = None"
    "VenuesConfig_LoadFile J' files kVenuesConfigFileName = Inr vc" "single_entry c' = Some (entry', m')"
    "ToVenueId (ToUpper (provider_args ! 0)) \<in> set (sc_venues c')"
    "VenuesConfig_Find vc (ToVenueId (ToUpper (provider_args ! 0))) m' = Some ep"
    "BuildProvider (ToVenueId (ToUpper (provider_args ! 0))) (MakeKey (ie_id entry') m') ep c' = Some (pr_config ps)"
    "pr_instrument ps = MakeKey (ie_id entry') m'" "pr_venue_name ps = ToUpper (provider_args ! 0)"
    using provider_start_Some[OF assms(2)] by blast
  have same: "m' = m" "c' = c" using core(1,2) prov(1,3) assms(3) by auto
  have e: "entry' = entry" using core(3) prov(6) same by simp
  have mk: "m = kSpot \<or> m = kFutures" by (rule ToMarketType_known[OF prov(1)[unfolded same]])
  then have market: "Market (MakeKey i m) = m" for i by (auto simp: Market_MakeKey market_of_u8_def)
  obtain contents where "VenuesConfig_ParseJson J' contents = Inr vc"
    using prov(5) by (auto simp: VenuesConfig_LoadFile_def split: option.splits)
  then have ok: "endpoints_ok ep" using VenuesConfig_Find_ok[OF _ mk prov(8)[unfolded same]] VenuesConfig_ParseJson_ok by blast
  note f = BuildProvider_fields[OF prov(9)]
  have "pc_depth (pr_config ps) \<in> set (venue_tiers (pc_venue_id (pr_config ps)))" using ResolveDepth_spec[OF prov(2)] f by simp
  then have "market_accepts (pc_venue_id (pr_config ps)) (Market (pr_instrument ps)) (pc_depth (pr_config ps)) \<or>
      pc_venue_id (pr_config ps) = BINANCE \<and> Market (pr_instrument ps) = kFutures \<and> pc_depth (pr_config ps) = 5000"
    by (auto simp: market_accepts_def venue_tiers_def kBinanceDepthTiers_def)
  moreover have "pc_connections (pr_config ps) \<in> {1..8}"
    using Validate_connections[OF prov(4)] f by (simp add: kMaxConnections_def word_less_1 flip: word_neq_0_conv) (simp add: word_le_nat_alt Suc_le_eq unat_gt_0)
  ultimately show ?thesis using f core(4) prov(1,2,7,10,11) same e ok ToVenueString_ToVenueId[OF prov(2)]
    by (simp add: market endpoints_ok_def)
qed

theorem processes_agree_witness:
  "\<exists>cs ps. core_started = Some cs \<and> provider_started = Some ps \<and> cfg_default_instruments (cs_core_config cs) = [pr_instrument ps] \<and>
    pr_venue_name ps = ToVenueString (pc_venue_id (pr_config ps)) \<and> pc_connections (pr_config ps) \<in> {1..8}"
proof -
  obtain cs ps where s: "core_started = Some cs" "provider_started = Some ps" using starts_read by fastforce
  then have "core_start config_dom config_files [''--market=futures''] = Inr cs"
    "provider_start config_dom config_dom config_files [''okx'', ''futures''] = Inr ps"
    by (auto simp: core_started_def provider_started_def split: sum.splits)
  moreover have "ParseMarketFlag [''--market=futures''] = ToMarketType ([''okx'', ''futures''] ! 1)" by code_simp
  ultimately show ?thesis using processes_agree[of config_dom config_files _ cs config_dom _ ps] s by blast
qed

section \<open>The latency recorder\<close>

text \<open>C40. Whatever the recorder is given, every line it logs is about a full batch and reads only samples
  that exist - the index of the 99th percentile is computed in doubles - with 0 <= min <= median <= p99 <= max; and every
  call is accounted for, by a counter of the log line, a printed sample or one that is still waiting (modulo the 64-bit
  counters).\<close>

theorem latency_lines_honest:
  assumes "record_all calls (new_LatencyRecorder name every warmup) = (reports, r)"
  shows "(\<forall>l \<in> set reports. lp_n l = max 1 (unat every) \<and> lp_n l div 2 < lp_n l \<and> p99_index (lp_n l) < lp_n l \<and>
      0 \<le> sint (lp_min l) \<and> sint (lp_min l) \<le> sint (lp_median l) \<and> sint (lp_median l) \<le> sint (lp_p99 l) \<and>
      sint (lp_p99 l) \<le> sint (lp_max l)) \<and>
    lr_unstamped r + lr_negative r + lr_warmed_up r + of_nat (length (lr_samples r) + sum_list (map lp_n reports)) =
      of_nat (length calls) \<and>
    lr_warmed_up r + lr_warmup_remaining r = warmup"
proof (intro conjI)
  note ok = record_all_ok[OF new_recorder_ok assms]
  show "\<forall>l \<in> set reports. lp_n l = max 1 (unat every) \<and> lp_n l div 2 < lp_n l \<and> p99_index (lp_n l) < lp_n l \<and>
      0 \<le> sint (lp_min l) \<and> sint (lp_min l) \<le> sint (lp_median l) \<and> sint (lp_median l) \<le> sint (lp_p99 l) \<and>
      sint (lp_p99 l) \<le> sint (lp_max l)"
    using conjunct1[OF conjunct2[OF ok]] by (simp only: line_ok_def new_LatencyRecorder_def LatencyRecorder.simps)
  show "lr_unstamped r + lr_negative r + lr_warmed_up r + of_nat (length (lr_samples r) + sum_list (map lp_n reports)) =
      of_nat (length calls)"
    using conjunct1[OF conjunct2[OF conjunct2[OF ok]]] by (simp add: accounted_def new_LatencyRecorder_def add.assoc)
  show "lr_warmed_up r + lr_warmup_remaining r = warmup"
    using conjunct2[OF conjunct2[OF conjunct2[OF ok]]] by (simp add: new_LatencyRecorder_def)
qed

text \<open>Three calls with a batch of two and no warm-up: an unstamped one, and two samples.\<close>

definition sample_line :: LatencyReport where
  "sample_line =
     \<lparr>lp_name = ''book_publish'', lp_n = 2, lp_min = 3, lp_median = 5, lp_p99 = 5, lp_max = 5, lp_sum = 8, lp_peaks = [(0, 7)],
      lp_warmed_up = 0, lp_unstamped = 1, lp_negative = 0\<rparr>"

definition call_levels :: "u32 list" where "call_levels = [7, 0, 0, 0, 0, 0, 0, 0]"

lemma index_of_two: "p99_index 2 = 1"
  using p99_index_range[of 2] by simp

lemma zeros: "replicate 8 (0 :: u32) = [0, 0, 0, 0, 0, 0, 0, 0]"
  by (simp add: numeral_eq_Suc)

lemma sample_run:
  "record_all [(0, call_levels, 9), (10, call_levels, 15), (20, call_levels, 23)] (new_LatencyRecorder ''book_publish'' 2 0) =
     ([sample_line], (new_LatencyRecorder ''book_publish'' 2 0)\<lparr>lr_unstamped := 1, lr_peak_levels := call_levels\<rparr>)"
  using index_of_two index_of_two[unfolded numeral_2_eq_2] zeros
  by (simp add: LatencyRecorder_Record_def record_span_def LatencyRecorder_Report_def new_LatencyRecorder_def call_levels_def
    sample_line_def kMaxVenues_def Let_def word_sless_alt)

theorem latency_lines_honest_witness:
  "p99_index (lp_n sample_line) < lp_n sample_line \<and> 0 \<le> sint (lp_min sample_line) \<and>
   sint (lp_min sample_line) \<le> sint (lp_median sample_line) \<and> sint (lp_median sample_line) \<le> sint (lp_p99 sample_line) \<and>
   sint (lp_p99 sample_line) \<le> sint (lp_max sample_line)"
  using conjunct1[OF latency_lines_honest[OF sample_run]] unfolding list.set ball_simps by (elim conjE) (intro conjI)

end
